(* ===== verification/Prelude.thy ===== *)
theory Prelude
  imports Main "HOL-Library.Word"
begin

unbundle bit_operations_syntax

text \<open>
  What every component of the development shares: C results that may end the process, the
  C integer conversions, error numbers, bounds-checked array access, and the rules that drive
  the proofs.

  A C function that reads and writes the state \<open>'s\<close> and returns an \<open>'r\<close> is a HOL function into
  \<open>('r \<times> 's) result\<close>.  The left summand is a \<^emph>\<open>fault\<close>, that is, the process does not get past
  this point: a failed \<open>assert\<close>, an \<open>EXIT\<close> or \<open>exit(1)\<close>, an access outside an object, a
  dereference of a pointer that is null or freed, a division by zero, or a loop that runs forever.  Error \<^emph>\<open>codes\<close> are ordinary (negative)
  return values.
\<close>

section \<open>Results\<close>

datatype fault = AssertFailed | ExitFailure | OutOfBounds | BadPointer | DivideByZero | Diverges

type_synonym 'a result = "fault + 'a"

definition bindr :: "'a result \<Rightarrow> ('a \<Rightarrow> 'b result) \<Rightarrow> 'b result" where
  "bindr m f = (case m of Inl e \<Rightarrow> Inl e | Inr x \<Rightarrow> f x)"

definition c_assert :: "bool \<Rightarrow> unit result" where
  "c_assert b = (if b then Inr () else Inl AssertFailed)"

text \<open>\<open>wp m Q\<close>: \<open>m\<close> returns (no fault), and its value satisfies \<open>Q\<close>.\<close>

definition wp :: "'a result \<Rightarrow> ('a \<Rightarrow> bool) \<Rightarrow> bool" where
  "wp m Q \<longleftrightarrow> (case m of Inl e \<Rightarrow> False | Inr x \<Rightarrow> Q x)"

named_theorems res_simps "rules that compute results"

lemma bindr_Inr [simp, res_simps]: "bindr (Inr x) f = f x"
  by (simp add: bindr_def)

lemma bindr_Inl [simp, res_simps]: "bindr (Inl e) f = Inl e"
  by (simp add: bindr_def)

lemma bindr_assoc: "bindr (bindr m f) g = bindr m (\<lambda>x. bindr (f x) g)"
  by (cases m) simp_all

lemma bindr_eq_Inr: "bindr m f = Inr y \<longleftrightarrow> (\<exists>x. m = Inr x \<and> f x = Inr y)"
  by (cases m) simp_all

lemma bindr_eq_Inl: "bindr m f = Inl e \<longleftrightarrow> m = Inl e \<or> (\<exists>x. m = Inr x \<and> f x = Inl e)"
  by (cases m) simp_all

lemma bindr_if: "bindr (if b then m else m') f = (if b then bindr m f else bindr m' f)"
  by simp

lemma c_assert_True [simp, res_simps]: "c_assert True = Inr ()"
  by (simp add: c_assert_def)

lemma c_assert_False [simp, res_simps]: "c_assert False = Inl AssertFailed"
  by (simp add: c_assert_def)

lemma c_assert_eq_Inr: "c_assert b = Inr u \<longleftrightarrow> b"
  by (simp add: c_assert_def)

lemma wp_Inr [simp]: "wp (Inr x) Q \<longleftrightarrow> Q x"
  by (simp add: wp_def)

lemma wp_Inl [simp]: "\<not> wp (Inl e) Q"
  by (simp add: wp_def)

lemma wp_bindr: "wp (bindr m f) Q \<longleftrightarrow> wp m (\<lambda>x. wp (f x) Q)"
  by (cases m) simp_all

lemma wp_mono: "wp m P \<Longrightarrow> (\<And>x. m = Inr x \<Longrightarrow> P x \<Longrightarrow> Q x) \<Longrightarrow> wp m Q"
  by (cases m) simp_all

lemma wp_iff: "wp m Q \<longleftrightarrow> (\<exists>x. m = Inr x \<and> Q x)"
  by (cases m) simp_all

lemma wpE: "wp m Q \<Longrightarrow> (\<And>x. m = Inr x \<Longrightarrow> Q x \<Longrightarrow> thesis) \<Longrightarrow> thesis"
  by (auto simp: wp_iff)

section \<open>C integers\<close>

text \<open>
  Signed and unsigned C integers are HOL integers; the conversions of C that change a value
  are written out.  Unsigned arithmetic wraps (\<open>u32\<close>, \<open>u64\<close>); a conversion to a signed type
  takes the representative in its range (\<open>s32\<close>, \<open>s64\<close>, as gcc and clang do).
\<close>

definition u32 :: "int \<Rightarrow> int" where
  "u32 x = x mod 2 ^ 32"

definition s32 :: "int \<Rightarrow> int" where
  "s32 x = (x + 2 ^ 31) mod 2 ^ 32 - 2 ^ 31"

definition u64 :: "int \<Rightarrow> int" where
  "u64 x = x mod 2 ^ 64"

definition s64 :: "int \<Rightarrow> int" where
  "s64 x = (x + 2 ^ 63) mod 2 ^ 64 - 2 ^ 63"

abbreviation (input) INT_MAX :: int where "INT_MAX \<equiv> 2147483647"

lemma u32_id: "0 \<le> x \<Longrightarrow> x < 2 ^ 32 \<Longrightarrow> u32 x = x"
  by (simp add: u32_def)

lemma s32_id: "- (2 ^ 31) \<le> x \<Longrightarrow> x < 2 ^ 31 \<Longrightarrow> s32 x = x"
  by (simp add: s32_def)

lemma u64_id: "0 \<le> x \<Longrightarrow> x < 2 ^ 64 \<Longrightarrow> u64 x = x"
  by (simp add: u64_def)

lemma s64_id: "- (2 ^ 63) \<le> x \<Longrightarrow> x < 2 ^ 63 \<Longrightarrow> s64 x = x"
  by (simp add: s64_def)

lemma s32_range: "- (2 ^ 31) \<le> s32 x" "s32 x < 2 ^ 31"
  by (simp_all add: s32_def)

lemma s32_u32: "s32 (u32 x) = s32 x"
  by (simp add: s32_def u32_def mod_simps)

lemma u32_range: "0 \<le> u32 x" "u32 x < 2 ^ 32"
  by (simp_all add: u32_def)

section \<open>Error numbers\<close>

abbreviation (input) ENOENT :: int where "ENOENT \<equiv> 2"
abbreviation (input) ENOMEM :: int where "ENOMEM \<equiv> 12"
abbreviation (input) EEXIST :: int where "EEXIST \<equiv> 17"
abbreviation (input) ENOTDIR :: int where "ENOTDIR \<equiv> 20"
abbreviation (input) EISDIR :: int where "EISDIR \<equiv> 21"
abbreviation (input) EINVAL :: int where "EINVAL \<equiv> 22"
abbreviation (input) EFBIG :: int where "EFBIG \<equiv> 27"
abbreviation (input) ENOSPC :: int where "ENOSPC \<equiv> 28"
abbreviation (input) ENOTEMPTY :: int where "ENOTEMPTY \<equiv> 39"

section \<open>Arrays\<close>

text \<open>A C array is a list; reading or writing outside it is a fault.\<close>

definition arr_get :: "'a list \<Rightarrow> nat \<Rightarrow> 'a result" where
  "arr_get xs i = (if i < length xs then Inr (xs ! i) else Inl OutOfBounds)"

definition arr_set :: "'a list \<Rightarrow> nat \<Rightarrow> 'a \<Rightarrow> 'a list result" where
  "arr_set xs i x = (if i < length xs then Inr (xs[i := x]) else Inl OutOfBounds)"

lemma arr_get_in [simp, res_simps]: "i < length xs \<Longrightarrow> arr_get xs i = Inr (xs ! i)"
  by (simp add: arr_get_def)

lemma arr_set_in [simp, res_simps]: "i < length xs \<Longrightarrow> arr_set xs i x = Inr (xs[i := x])"
  by (simp add: arr_set_def)

text \<open>\<open>DIVROUNDUP\<close> of \<open>common.h\<close>.\<close>

definition DIVROUNDUP :: "int \<Rightarrow> int \<Rightarrow> int" where
  "DIVROUNDUP a b = (a + b - 1) div b"

section \<open>Lists\<close>

lemma take_drop_split: "i + n \<le> length xs \<Longrightarrow> take i xs @ take n (drop i xs) @ drop (i + n) xs = xs"
  by (metis append_take_drop_id drop_drop add.commute)

lemma nth_take_drop: "i < n \<Longrightarrow> k + n \<le> length xs \<Longrightarrow> take n (drop k xs) ! i = xs ! (k + i)"
  by simp

end
