(* ===== verification/CBytes.thy ===== *)
theory CBytes
  imports Prelude
begin

text \<open>
  Bytes in memory: little-endian scalars (the layout \<open>memcpy\<close> sees on the x86-64 machines the
  code targets), \<open>memcpy\<close> between byte buffers, and the view of a block as an array of
  32-bit integers that the code gets with \<open>((int *)block)[i]\<close>.
\<close>

type_synonym byte = "8 word"

section \<open>Little-endian scalars\<close>

fun le_bytes :: "nat \<Rightarrow> int \<Rightarrow> byte list" where
  "le_bytes 0 x = []"
| "le_bytes (Suc n) x = word_of_int x # le_bytes n (x div 256)"

fun le_val :: "byte list \<Rightarrow> int" where
  "le_val [] = 0"
| "le_val (b # bs) = uint b + 256 * le_val bs"

definition signed :: "nat \<Rightarrow> int \<Rightarrow> int" where
  "signed w x = (if 2 ^ (w - 1) \<le> x then x - 2 ^ w else x)"

lemma length_le_bytes [simp]: "length (le_bytes n x) = n"
  by (induction n arbitrary: x) simp_all

lemma uint_byte: "uint (word_of_int x :: byte) = x mod 256"
  by (simp add: uint_word_of_int)

lemma le_val_bytes: "le_val (le_bytes n x) = x mod 256 ^ n"
proof (induction n arbitrary: x)
  case (Suc n)
  have "x mod (256 * 256 ^ n) = 256 * (x div 256 mod 256 ^ n) + x mod 256"
    by (rule zmod_zmult2_eq) simp
  with Suc show ?case by (simp add: uint_byte)
qed simp

lemma le_val_range: "0 \<le> le_val bs" "le_val bs < 256 ^ length bs"
proof (induction bs)
  case (Cons b bs)
  have "uint b < 256" using uint_lt2p [of b] by simp
  with Cons show "le_val (b # bs) < 256 ^ length (b # bs)" by simp
  from Cons show "0 \<le> le_val (b # bs)" by simp
qed simp_all

lemma le_bytes_val: "le_bytes (length bs) (le_val bs) = bs"
proof (induction bs)
  case (Cons b bs)
  have "uint b < 256" using uint_lt2p [of b] by simp
  then have "(uint b + 256 * le_val bs) div 256 = le_val bs" by simp
  moreover have "word_of_int (uint b + 256 * le_val bs) = b"
  proof -
    have z: "(256 :: byte) = 0" by simp
    have "256 * word_of_int (le_val bs) = (0 :: byte)" by (subst z) simp
    then show ?thesis by simp
  qed
  ultimately show ?case using Cons by simp
qed simp

text \<open>The C types that are stored: \<open>s32\<close>, \<open>u32\<close>, \<open>u64\<close>, \<open>off_t\<close>.\<close>

definition enc32 :: "int \<Rightarrow> byte list" where "enc32 x = le_bytes 4 x"
definition enc64 :: "int \<Rightarrow> byte list" where "enc64 x = le_bytes 8 x"
definition dec_u32 :: "byte list \<Rightarrow> int" where "dec_u32 bs = le_val (take 4 bs)"
definition dec_s32 :: "byte list \<Rightarrow> int" where "dec_s32 bs = signed 32 (le_val (take 4 bs))"
definition dec_u64 :: "byte list \<Rightarrow> int" where "dec_u64 bs = le_val (take 8 bs)"
definition dec_s64 :: "byte list \<Rightarrow> int" where "dec_s64 bs = signed 64 (le_val (take 8 bs))"

lemma length_enc [simp]: "length (enc32 x) = 4" "length (enc64 x) = 8"
  by (simp_all add: enc32_def enc64_def)

lemma signed_mod:
  assumes "0 < w" "- (2 ^ (w - 1)) \<le> x" "x < 2 ^ (w - 1)"
  shows "signed w (x mod 2 ^ w) = x"
proof -
  have p: "(2::int) ^ w = 2 * 2 ^ (w - 1)"
    using assms(1) by (simp flip: power_Suc)
  show ?thesis
  proof (cases "0 \<le> x")
    case True
    with assms p show ?thesis by (simp add: signed_def)
  next
    case False
    then have "x mod 2 ^ w = (x + 2 ^ w) mod 2 ^ w" by simp
    also have "\<dots> = x + 2 ^ w"
      using False assms p by (intro mod_pos_pos_trivial) linarith+
    finally show ?thesis using False assms p by (simp add: signed_def)
  qed
qed

lemma dec_enc_s32: "- (2 ^ 31) \<le> x \<Longrightarrow> x < 2 ^ 31 \<Longrightarrow> dec_s32 (enc32 x @ r) = x"
  using signed_mod [of 32 x] by (simp add: dec_s32_def enc32_def le_val_bytes)

lemma dec_enc_u32: "0 \<le> x \<Longrightarrow> x < 2 ^ 32 \<Longrightarrow> dec_u32 (enc32 x @ r) = x"
  by (simp add: dec_u32_def enc32_def le_val_bytes)

lemma dec_enc_s64: "- (2 ^ 63) \<le> x \<Longrightarrow> x < 2 ^ 63 \<Longrightarrow> dec_s64 (enc64 x @ r) = x"
  using signed_mod [of 64 x] by (simp add: dec_s64_def enc64_def le_val_bytes)

lemma dec_enc_u64: "0 \<le> x \<Longrightarrow> x < 2 ^ 64 \<Longrightarrow> dec_u64 (enc64 x @ r) = x"
  by (simp add: dec_u64_def enc64_def le_val_bytes)

lemma dec_s32_range: "length bs \<ge> 4 \<Longrightarrow> - (2 ^ 31) \<le> dec_s32 bs \<and> dec_s32 bs < 2 ^ 31"
  using le_val_range [of "take 4 bs"] by (auto simp: dec_s32_def signed_def)

text \<open>
  The interface a stored C type has: an encoding of fixed size that decodes to the value it came
  from, whatever bytes follow it.
\<close>

locale codec =
  fixes enc :: "'a \<Rightarrow> byte list" and dec :: "byte list \<Rightarrow> 'a"
    and size_of :: nat and valid :: "'a \<Rightarrow> bool"
  assumes enc_length: "length (enc x) = size_of"
    and dec_enc: "valid x \<Longrightarrow> dec (enc x @ r) = x"
begin

text \<open>What \<open>memcpy(block + off, &x, sizeof x)\<close> leaves behind, read back or read elsewhere.\<close>

definition patch :: "byte list \<Rightarrow> nat \<Rightarrow> 'a \<Rightarrow> byte list" where
  "patch b off x = take off b @ enc x @ drop (off + size_of) b"

lemma patch_length: "off + size_of \<le> length b \<Longrightarrow> length (patch b off x) = length b"
  by (simp add: patch_def enc_length)

lemma patch_same:
  "off + size_of \<le> length b \<Longrightarrow> valid x \<Longrightarrow> dec (drop off (patch b off x)) = x"
  by (simp add: patch_def dec_enc)

lemma patch_other:
  assumes "off + size_of \<le> length b" "i + n \<le> length b" "i + n \<le> off \<or> off + size_of \<le> i"
  shows "take n (drop i (patch b off x)) = take n (drop i b)"
proof (rule nth_equalityI)
  show "length (take n (drop i (patch b off x))) = length (take n (drop i b))"
    using assms by (simp add: patch_length)
  fix k assume "k < length (take n (drop i (patch b off x)))"
  then have k: "k < n" "i + k < length b" using assms(1,2) by (simp_all add: patch_length)
  with assms(3) have "patch b off x ! (i + k) = b ! (i + k)"
    using assms(1) enc_length by (auto simp: patch_def nth_append)
  with k assms show "take n (drop i (patch b off x)) ! k = take n (drop i b) ! k"
    by (simp add: patch_length)
qed

lemma encs_decode:
  assumes "list_all valid xs" "i < length xs"
  shows "dec (drop (i * size_of) (concat (map enc xs) @ r)) = xs ! i"
  using assms
proof (induction xs arbitrary: i)
  case (Cons x xs)
  show ?case
  proof (cases i)
    case 0
    with Cons.prems show ?thesis by (simp add: dec_enc)
  next
    case (Suc j)
    with Cons show ?thesis by (simp add: enc_length add.commute)
  qed
qed simp

lemma encs_length: "length (concat (map enc xs)) = length xs * size_of"
  by (induction xs) (simp_all add: enc_length)

end

abbreviation is_s32 :: "int \<Rightarrow> bool" where "is_s32 x \<equiv> - (2 ^ 31) \<le> x \<and> x < 2 ^ 31"
abbreviation is_u32 :: "int \<Rightarrow> bool" where "is_u32 x \<equiv> 0 \<le> x \<and> x < 2 ^ 32"
abbreviation is_s64 :: "int \<Rightarrow> bool" where "is_s64 x \<equiv> - (2 ^ 63) \<le> x \<and> x < 2 ^ 63"
abbreviation is_u64 :: "int \<Rightarrow> bool" where "is_u64 x \<equiv> 0 \<le> x \<and> x < 2 ^ 64"

interpretation s32c: codec enc32 dec_s32 4 is_s32
  by unfold_locales (simp_all add: dec_enc_s32)

interpretation u32c: codec enc32 dec_u32 4 is_u32
  by unfold_locales (simp_all add: dec_enc_u32)

interpretation s64c: codec enc64 dec_s64 8 is_s64
  by unfold_locales (simp_all add: dec_enc_s64)

interpretation u64c: codec enc64 dec_u64 8 is_u64
  by unfold_locales (simp_all add: dec_enc_u64)

section \<open>Copying\<close>

text \<open>
  \<open>memcpy(dst + doff, src + soff, n)\<close>, with both ranges checked.  The offsets are C integers:
  a negative one is outside the object.
\<close>

definition memcpy :: "byte list \<Rightarrow> int \<Rightarrow> byte list \<Rightarrow> int \<Rightarrow> int \<Rightarrow> byte list result" where
  "memcpy dst doff src soff n =
     (if 0 \<le> n \<and> 0 \<le> doff \<and> 0 \<le> soff \<and> doff + n \<le> int (length dst)
           \<and> soff + n \<le> int (length src)
      then Inr (take (nat doff) dst @ take (nat n) (drop (nat soff) src)
                  @ drop (nat doff + nat n) dst)
      else Inl OutOfBounds)"

lemma memcpy_in:
  "doff + n \<le> length dst \<Longrightarrow> soff + n \<le> length src \<Longrightarrow>
   memcpy dst (int doff) src (int soff) (int n) =
     Inr (take doff dst @ take n (drop soff src) @ drop (doff + n) dst)"
  by (simp add: memcpy_def)

lemma memcpy_length: "memcpy dst doff src soff n = Inr d \<Longrightarrow> length d = length dst"
  by (auto simp: memcpy_def split: if_splits)

section \<open>A block as an array of integers\<close>

text \<open>\<open>((int *)block)[i]\<close>, read and written.\<close>

definition int_get :: "byte list \<Rightarrow> int \<Rightarrow> int result" where
  "int_get b i = (if 0 \<le> i \<and> 4 * i + 4 \<le> int (length b)
                  then Inr (dec_s32 (drop (4 * nat i) b)) else Inl OutOfBounds)"

definition int_set :: "byte list \<Rightarrow> int \<Rightarrow> int \<Rightarrow> byte list result" where
  "int_set b i x = (if 0 \<le> i \<and> 4 * i + 4 \<le> int (length b)
                    then Inr (take (4 * nat i) b @ enc32 x @ drop (4 * nat i + 4) b)
                    else Inl OutOfBounds)"

text \<open>The total view used in specifications: entry \<open>i\<close> of a block.\<close>

definition entry :: "byte list \<Rightarrow> nat \<Rightarrow> int" where
  "entry b i = dec_s32 (drop (4 * i) b)"

definition set_entry :: "byte list \<Rightarrow> nat \<Rightarrow> int \<Rightarrow> byte list" where
  "set_entry b i x = take (4 * i) b @ enc32 x @ drop (4 * i + 4) b"

lemma set_entry_patch: "set_entry b i x = s32c.patch b (4 * i) x"
  by (simp add: set_entry_def s32c.patch_def)

lemma int_get_entry: "4 * i + 4 \<le> length b \<Longrightarrow> int_get b (int i) = Inr (entry b i)"
  by (simp add: int_get_def entry_def)

lemma int_set_entry: "4 * i + 4 \<le> length b \<Longrightarrow> int_set b (int i) x = Inr (set_entry b i x)"
  by (simp add: int_set_def set_entry_def)

lemma length_set_entry [simp]: "4 * i + 4 \<le> length b \<Longrightarrow> length (set_entry b i x) = length b"
  by (simp add: set_entry_patch s32c.patch_length)

lemma entry_set_same: "4 * i + 4 \<le> length b \<Longrightarrow> is_s32 x \<Longrightarrow> entry (set_entry b i x) i = x"
  by (simp add: entry_def set_entry_patch s32c.patch_same)

lemma entry_take: "entry b i = dec_s32 (take 4 (drop (4 * i) b))"
  by (simp add: entry_def dec_s32_def)

lemma entry_set_other:
  assumes "4 * i + 4 \<le> length b" "4 * j + 4 \<le> length b" "i \<noteq> j"
  shows "entry (set_entry b i x) j = entry b j"
proof -
  have "4 * j + 4 \<le> 4 * i \<or> 4 * i + 4 \<le> 4 * j" using assms(3) by linarith
  then have "take 4 (drop (4 * j) (set_entry b i x)) = take 4 (drop (4 * j) b)"
    using assms s32c.patch_other [of "4 * i" b "4 * j" 4 x] by (simp add: set_entry_patch)
  then show ?thesis by (simp add: entry_take)
qed

lemma entry_range: "4 * i + 4 \<le> length b \<Longrightarrow> is_s32 (entry b i)"
  using dec_s32_range [of "drop (4 * i) b"] by (simp add: entry_def)

lemma entry_zero: "4 * i + 4 \<le> n \<Longrightarrow> entry (replicate n 0) i = 0"
proof -
  assume "4 * i + 4 \<le> n"
  then have "take 4 (drop (4 * i) (replicate n (0 :: byte))) = replicate 4 0" by simp
  then show ?thesis by (simp add: entry_take dec_s32_def signed_def numeral_eq_Suc)
qed

end
