(* ===== verification/Bitmap.thy ===== *)
theory Bitmap
  imports CBytes
begin

text \<open>
  \<open>src/fs/bitmap.c\<close>: the fixed-size arrays of bits that record which inodes and which blocks
  are in use.  The definitions keep the byte array and the bit operations of the code; the
  specification reads a bitmap as the set \<open>bm_set\<close> of the numbers whose bit is set.  The
  locale \<open>id_pool\<close> is the interface the super block relies on (a pool of numbers with first-fit
  allocation); it is interpreted on the bitmap.
\<close>

section \<open>The code\<close>

record bitmap =
  nbits :: int
  v :: "byte list"

text \<open>\<open>malloc_ok n\<close> is the allocator's answer to a request of \<open>n\<close> bytes.\<close>

abbreviation (input) sizeof_bitmap :: nat where "sizeof_bitmap \<equiv> 16"

function mark_leftover :: "byte list \<Rightarrow> nat \<Rightarrow> nat \<Rightarrow> byte list result" where
  "mark_leftover vs ix j =
     (if j < 8
      then bindr (arr_get vs ix) (\<lambda>w.
           bindr (arr_set vs ix (w OR push_bit j 1)) (\<lambda>vs'.
           mark_leftover vs' ix (Suc j)))
      else Inr vs)"
  by pat_completeness auto
termination
  by (relation "measure (\<lambda>(vs, ix, j). 8 - j)") auto

declare mark_leftover.simps [simp del]

definition bitmap_create :: "(nat \<Rightarrow> bool) \<Rightarrow> int \<Rightarrow> (int \<times> bitmap option) result" where
  "bitmap_create malloc_ok nb =
     (let words = u32 (nb + 8 - 1) div 8 in
      if \<not> malloc_ok sizeof_bitmap then Inr (- ENOMEM, None)
      else if \<not> malloc_ok (nat words) then Inr (- ENOMEM, None)
      else
        let vs = replicate (nat words) 0 in
        if nb div 8 < words then
          let ix = words - 1; overbits = u32 (nb - ix * 8) in
          bindr (c_assert (nb div 8 = words - 1)) (\<lambda>_.
          bindr (c_assert (overbits > 0 \<and> overbits < 8)) (\<lambda>_.
          bindr (mark_leftover vs (nat ix) (nat overbits)) (\<lambda>vs'.
          Inr (0, Some \<lparr>nbits = nb, v = vs'\<rparr>))))
        else Inr (0, Some \<lparr>nbits = nb, v = vs\<rparr>))"

definition bitmap_getdata :: "bitmap \<Rightarrow> byte list" where
  "bitmap_getdata b = v b"

definition bitmap_getsize :: "bitmap \<Rightarrow> int" where
  "bitmap_getsize b = nbits b"

text \<open>The inner loop of \<open>bitmap_alloc\<close>: the first clear bit of a byte, from \<open>offset\<close> on.\<close>

function alloc_offset :: "byte \<Rightarrow> nat \<Rightarrow> nat option" where
  "alloc_offset w offset =
     (if offset < 8
      then if w AND push_bit offset 1 = 0 then Some offset else alloc_offset w (Suc offset)
      else None)"
  by pat_completeness auto
termination
  by (relation "measure (\<lambda>(w, off). 8 - off)") auto

declare alloc_offset.simps [simp del]

text \<open>
  The outer loop.  The result is the return code, \<open>*index\<close> if it was written, and the bitmap.
\<close>

function bitmap_alloc_from :: "bitmap \<Rightarrow> nat \<Rightarrow> nat \<Rightarrow> (int \<times> int option \<times> bitmap) result" where
  "bitmap_alloc_from b ix maxix =
     (if ix < maxix
      then bindr (arr_get (v b) ix) (\<lambda>w.
           if w \<noteq> 0xff
           then (case alloc_offset w 0 of
                   None \<Rightarrow> Inl AssertFailed
                 | Some offset \<Rightarrow>
                     bindr (arr_set (v b) ix (w OR push_bit offset 1)) (\<lambda>vs.
                     let index = u32 (int ix * 8 + int offset) in
                     bindr (c_assert (index < nbits b)) (\<lambda>_.
                     Inr (0, Some index, b\<lparr>v := vs\<rparr>))))
           else bitmap_alloc_from b (Suc ix) maxix)
      else Inr (- ENOSPC, None, b))"
  by pat_completeness auto
termination
  by (relation "measure (\<lambda>(b, ix, maxix). maxix - ix)") auto

declare bitmap_alloc_from.simps [simp del]

definition bitmap_alloc :: "bitmap \<Rightarrow> (int \<times> int option \<times> bitmap) result" where
  "bitmap_alloc b = bitmap_alloc_from b 0 (nat (u32 (nbits b + 8 - 1) div 8))"

definition bitmap_translate :: "int \<Rightarrow> nat \<times> byte" where
  "bitmap_translate bitno = (nat (bitno div 8), push_bit (nat (bitno mod 8)) 1)"

definition bitmap_mark :: "bitmap \<Rightarrow> int \<Rightarrow> bitmap result" where
  "bitmap_mark b index =
     bindr (c_assert (index < nbits b)) (\<lambda>_.
     let (ix, msk) = bitmap_translate index in
     bindr (arr_get (v b) ix) (\<lambda>w.
     bindr (c_assert (w AND msk = 0)) (\<lambda>_.
     bindr (arr_set (v b) ix (w OR msk)) (\<lambda>vs.
     Inr (b\<lparr>v := vs\<rparr>)))))"

definition bitmap_unmark :: "bitmap \<Rightarrow> int \<Rightarrow> bitmap result" where
  "bitmap_unmark b index =
     bindr (c_assert (index < nbits b)) (\<lambda>_.
     let (ix, msk) = bitmap_translate index in
     bindr (arr_get (v b) ix) (\<lambda>w.
     bindr (c_assert (w AND msk \<noteq> 0)) (\<lambda>_.
     bindr (arr_set (v b) ix (w AND NOT msk)) (\<lambda>vs.
     Inr (b\<lparr>v := vs\<rparr>)))))"

definition bitmap_isset :: "bitmap \<Rightarrow> int \<Rightarrow> int result" where
  "bitmap_isset b index =
     (let (ix, msk) = bitmap_translate index in
      bindr (arr_get (v b) ix) (\<lambda>w. Inr (uint (w AND msk))))"

function nr_allocated_from :: "bitmap \<Rightarrow> nat \<Rightarrow> int \<Rightarrow> int result" where
  "nr_allocated_from b i nr =
     (if int i < nbits b
      then bindr (bitmap_isset b (int i)) (\<lambda>r.
           nr_allocated_from b (Suc i) (if r \<noteq> 0 then nr + 1 else nr))
      else Inr nr)"
  by pat_completeness auto
termination
  by (relation "measure (\<lambda>(b, i, nr). nat (nbits b) - i)") auto

declare nr_allocated_from.simps [simp del]

definition bitmap_nr_allocated :: "bitmap \<Rightarrow> int result" where
  "bitmap_nr_allocated b = nr_allocated_from b 0 0"

section \<open>Bits of a byte\<close>

lemma bit_or_mask: "j < 8 \<Longrightarrow> bit ((w :: byte) OR push_bit j 1) n \<longleftrightarrow> bit w n \<or> n = j"
  by (auto simp: bit_or_iff bit_exp_iff)

lemma bit_and_not_mask:
  "j < 8 \<Longrightarrow> bit ((w :: byte) AND NOT (push_bit j 1)) n \<longleftrightarrow> bit w n \<and> n \<noteq> j"
  by (auto simp: bit_and_iff bit_not_iff bit_exp_iff dest: bit_imp_possible_bit)

lemma and_mask_zero:
  assumes "j < 8"
  shows "(w :: byte) AND push_bit j 1 = 0 \<longleftrightarrow> \<not> bit w j"
proof -
  have "w AND push_bit j 1 = 0 \<longleftrightarrow> (\<forall>n. \<not> bit (w AND push_bit j 1) n)"
    by (rule iffI, simp del: push_bit_of_1, rule bit_word_eqI, simp del: push_bit_of_1)
  then show ?thesis using assms by (auto simp: bit_and_iff bit_exp_iff)
qed

lemma full_byte: "(w :: byte) = 0xff \<longleftrightarrow> (\<forall>j < 8. bit w j)"
proof -
  have "(0xff :: byte) = - 1" by simp
  moreover have "w = - 1 \<longleftrightarrow> (\<forall>j < 8. bit w j)"
    by (auto simp: bit_eq_iff)
  ultimately show ?thesis by metis
qed

section \<open>The specification: the set of numbers in use\<close>

definition bm_bit :: "byte list \<Rightarrow> nat \<Rightarrow> bool" where
  "bm_bit vs i = bit (vs ! (i div 8)) (i mod 8)"

definition bm_set :: "bitmap \<Rightarrow> nat set" where
  "bm_set b = {i. i < nat (nbits b) \<and> bm_bit (v b) i}"

text \<open>The array has the size \<open>bitmap_create\<close> gives it, and the leftover bits are set.\<close>

definition bm_wf :: "bitmap \<Rightarrow> bool" where
  "bm_wf b \<longleftrightarrow> 0 \<le> nbits b \<and> nbits b < 2 ^ 32 - 8
     \<and> length (v b) = nat ((nbits b + 7) div 8)
     \<and> (\<forall>i. nat (nbits b) \<le> i \<and> i < 8 * length (v b) \<longrightarrow> bm_bit (v b) i)"

lemma bm_set_bound: "bm_set b \<subseteq> {..<nat (nbits b)}"
  by (auto simp: bm_set_def)

lemma finite_bm_set [simp]: "finite (bm_set b)"
  using bm_set_bound finite_subset by blast

lemma bm_wf_index: "bm_wf b \<Longrightarrow> i < nat (nbits b) \<Longrightarrow> i div 8 < length (v b)"
  unfolding bm_wf_def by linarith

lemma bm_bit_or:
  assumes "ix < length vs" "j < 8"
  shows "bm_bit (vs[ix := vs ! ix OR push_bit j 1]) i \<longleftrightarrow> bm_bit vs i \<or> i = 8 * ix + j"
proof (cases "i div 8 = ix")
  case True
  then have "i = 8 * ix + j \<longleftrightarrow> i mod 8 = j" using assms(2) by presburger
  with True assms show ?thesis
    using bit_or_mask [OF assms(2), of "vs ! ix" "i mod 8"] by (simp add: bm_bit_def)
next
  case False
  then have "i \<noteq> 8 * ix + j" using assms(2) by auto
  with False show ?thesis by (simp add: bm_bit_def)
qed

lemma bm_bit_clear:
  assumes "ix < length vs" "j < 8"
  shows "bm_bit (vs[ix := vs ! ix AND NOT (push_bit j 1)]) i \<longleftrightarrow> bm_bit vs i \<and> i \<noteq> 8 * ix + j"
proof (cases "i div 8 = ix")
  case True
  then have "i = 8 * ix + j \<longleftrightarrow> i mod 8 = j" using assms(2) by presburger
  with True assms show ?thesis
    using bit_and_not_mask [OF assms(2), of "vs ! ix" "i mod 8"] by (simp add: bm_bit_def)
next
  case False
  then have "i \<noteq> 8 * ix + j" using assms(2) by auto
  with False show ?thesis by (simp add: bm_bit_def)
qed

lemma translate_int: "bitmap_translate (int i) = (i div 8, push_bit (i mod 8) 1)"
  by (simp add: bitmap_translate_def nat_div_distrib nat_mod_distrib)

section \<open>bitmap_create\<close>

lemma mark_leftover_spec:
  "ix < length vs \<Longrightarrow>
   \<exists>vs'. mark_leftover vs ix j = Inr vs' \<and> length vs' = length vs
     \<and> (\<forall>i. bm_bit vs' i \<longleftrightarrow> bm_bit vs i \<or> (8 * ix + j \<le> i \<and> i < 8 * ix + 8))"
proof (induction vs ix j rule: mark_leftover.induct)
  case (1 vs ix j)
  show ?case
  proof (cases "j < 8")
    case True
    let ?vs = "vs[ix := vs ! ix OR push_bit j 1]"
    from "1.IH" [OF True, of ?vs, unfolded length_list_update, OF "1.prems"] obtain vs' where
      r: "mark_leftover ?vs ix (Suc j) = Inr vs'" "length vs' = length vs"
         "\<forall>i. bm_bit vs' i \<longleftrightarrow> bm_bit ?vs i \<or> (8 * ix + Suc j \<le> i \<and> i < 8 * ix + 8)"
      by blast
    have "bm_bit vs' i \<longleftrightarrow> bm_bit vs i \<or> (8 * ix + j \<le> i \<and> i < 8 * ix + 8)" for i
      unfolding r(3) [rule_format, of i] bm_bit_or [OF "1.prems" True, of i] using True by auto
    moreover have "mark_leftover vs ix j = Inr vs'"
      using r(1) "1.prems" True by (subst mark_leftover.simps) simp
    ultimately show ?thesis using r(2) by auto
  next
    case False
    then show ?thesis by (subst mark_leftover.simps) auto
  qed
qed

lemma bm_bit_replicate: "i < 8 * n \<Longrightarrow> \<not> bm_bit (replicate n 0) i"
  by (simp add: bm_bit_def less_mult_imp_div_less mult.commute)

lemma bitmap_create_correct:
  assumes "0 \<le> nb" "nb < 2 ^ 32 - 8" "malloc_ok sizeof_bitmap" "malloc_ok (nat ((nb + 7) div 8))"
  shows "\<exists>b. bitmap_create malloc_ok nb = Inr (0, Some b) \<and> bm_wf b \<and> nbits b = nb \<and> bm_set b = {}"
proof -
  define words where "words = (nb + 7) div 8"
  have w: "u32 (nb + 8 - 1) div 8 = words"
    using assms(1,2) by (simp add: words_def u32_id)
  have mal: "malloc_ok (nat words)" using assms(4) by (simp only: words_def)
  have nb: "0 \<le> words" "nb \<le> 8 * words" "8 * words < nb + 8"
    using assms(1) by (auto simp: words_def)
  have zero: "\<not> bm_bit (replicate (nat words) 0) i" if "i < nat nb" for i
    using that nb by (intro bm_bit_replicate) linarith
  show ?thesis
  proof (cases "nb div 8 < words")
    case False
    then have full: "nb = 8 * words" using nb by linarith
    have "bitmap_create malloc_ok nb = Inr (0, Some \<lparr>nbits = nb, v = replicate (nat words) 0\<rparr>)"
      by (simp only: bitmap_create_def w Let_def False assms(3) mal if_True if_False not_True_eq_False simp_thms)
    moreover have "bm_wf \<lparr>nbits = nb, v = replicate (nat words) 0\<rparr>"
    proof -
      have "\<not> (nat nb \<le> i \<and> i < 8 * nat words)" for i
        using full nb(1) by linarith
      then show ?thesis using assms(1,2) by (auto simp add: bm_wf_def simp flip: words_def)
    qed
    moreover have "bm_set \<lparr>nbits = nb, v = replicate (nat words) 0\<rparr> = {}"
      using zero by (auto simp: bm_set_def)
    ultimately show ?thesis by auto
  next
    case True
    then have d: "nb div 8 = words - 1" "0 < words" using nb assms(1) by auto
    then have over: "u32 (nb - (words - 1) * 8) = nb - (words - 1) * 8"
      "0 < nb - (words - 1) * 8" "nb - (words - 1) * 8 < 8"
      using True nb by (auto intro!: u32_id simp: words_def)
    let ?o = "nat (nb - (words - 1) * 8)"
    obtain vs' where m: "mark_leftover (replicate (nat words) 0) (nat (words - 1)) ?o = Inr vs'"
        "length vs' = nat words"
        "\<And>i. bm_bit vs' i \<longleftrightarrow> bm_bit (replicate (nat words) 0) i
               \<or> (8 * nat (words - 1) + ?o \<le> i \<and> i < 8 * nat (words - 1) + 8)"
      using mark_leftover_spec [of "nat (words - 1)" "replicate (nat words) 0" ?o] d(2) by auto
    have pos: "8 * nat (words - 1) + ?o = nat nb" "8 * nat (words - 1) + 8 = 8 * nat words"
      using d over by auto
    have "bitmap_create malloc_ok nb = Inr (0, Some \<lparr>nbits = nb, v = vs'\<rparr>)"
      unfolding bitmap_create_def w Let_def over(1) using True assms(3) mal over m(1) d by simp
    moreover have "bm_wf \<lparr>nbits = nb, v = vs'\<rparr>"
      using assms m pos by (auto simp: bm_wf_def words_def)
    moreover have "bm_set \<lparr>nbits = nb, v = vs'\<rparr> = {}"
      using m(3) pos zero by (auto simp: bm_set_def)
    ultimately show ?thesis by auto
  qed
qed

section \<open>bitmap_alloc, bitmap_mark, bitmap_unmark\<close>

lemma alloc_offset_Some: "alloc_offset w k = Some off \<Longrightarrow>
  k \<le> off \<and> off < 8 \<and> \<not> bit w off \<and> (\<forall>j. k \<le> j \<and> j < off \<longrightarrow> bit w j)"
proof (induction w k rule: alloc_offset.induct)
  case (1 w k)
  have k: "k < 8" using "1.prems" by (subst (asm) alloc_offset.simps) (simp split: if_splits)
  show ?case
  proof (cases "bit w k")
    case False
    with k "1.prems" have "off = k"
      by (subst (asm) alloc_offset.simps) (simp add: and_mask_zero del: push_bit_of_1)
    with k False show ?thesis by auto
  next
    case True
    with k "1.prems" have "alloc_offset w (Suc k) = Some off"
      by (subst (asm) alloc_offset.simps) (simp add: and_mask_zero del: push_bit_of_1)
    with "1.IH" k True have "Suc k \<le> off \<and> off < 8 \<and> \<not> bit w off
        \<and> (\<forall>j. Suc k \<le> j \<and> j < off \<longrightarrow> bit w j)"
      by (simp add: and_mask_zero del: push_bit_of_1)
    with True show ?thesis by (metis Suc_le_eq le_neq_implies_less Suc_leD)
  qed
qed

lemma alloc_offset_None: "alloc_offset w k = None \<Longrightarrow> k \<le> j \<Longrightarrow> j < 8 \<Longrightarrow> bit w j"
proof (induction w k rule: alloc_offset.induct)
  case (1 w k)
  then have k: "k < 8" by simp
  with "1.prems"(1) have "bit w k" "alloc_offset w (Suc k) = None"
    by (subst (asm) alloc_offset.simps; simp add: and_mask_zero del: push_bit_of_1 split: if_splits)+
  with "1.IH" k "1.prems"(2,3) show ?case
    by (cases "j = k") (simp_all add: and_mask_zero del: push_bit_of_1)
qed

text \<open>\<open>set_bit_at\<close> is the array after \<open>v[ix] |= mask\<close> for bit number \<open>i\<close>.\<close>

definition set_bit_at :: "bitmap \<Rightarrow> nat \<Rightarrow> bitmap" where
  "set_bit_at b i = b\<lparr>v := (v b)[i div 8 := v b ! (i div 8) OR push_bit (i mod 8) 1]\<rparr>"

definition clear_bit_at :: "bitmap \<Rightarrow> nat \<Rightarrow> bitmap" where
  "clear_bit_at b i = b\<lparr>v := (v b)[i div 8 := v b ! (i div 8) AND NOT (push_bit (i mod 8) 1)]\<rparr>"

lemma set_bit_at:
  assumes "bm_wf b" "i < nat (nbits b)"
  shows "bm_wf (set_bit_at b i) \<and> nbits (set_bit_at b i) = nbits b
    \<and> bm_set (set_bit_at b i) = insert i (bm_set b)"
proof -
  have "bm_bit (v (set_bit_at b i)) k \<longleftrightarrow> bm_bit (v b) k \<or> k = i" for k
    using bm_bit_or [OF bm_wf_index [OF assms], of "i mod 8" k]
    by (simp add: set_bit_at_def del: push_bit_of_1)
  then show ?thesis
    using assms by (auto simp: bm_wf_def bm_set_def set_bit_at_def simp del: push_bit_of_1)
qed

lemma clear_bit_at:
  assumes "bm_wf b" "i < nat (nbits b)"
  shows "bm_wf (clear_bit_at b i) \<and> nbits (clear_bit_at b i) = nbits b
    \<and> bm_set (clear_bit_at b i) = bm_set b - {i}"
proof -
  have "bm_bit (v (clear_bit_at b i)) k \<longleftrightarrow> bm_bit (v b) k \<and> k \<noteq> i" for k
    using bm_bit_clear [OF bm_wf_index [OF assms], of "i mod 8" k]
    by (simp add: clear_bit_at_def del: push_bit_of_1)
  then show ?thesis
    using assms by (auto simp: bm_wf_def bm_set_def clear_bit_at_def simp del: push_bit_of_1)
qed

lemma bitmap_alloc_from_spec:
  assumes "bm_wf b" "maxix \<le> length (v b)" "\<And>k. k < 8 * ix \<Longrightarrow> bm_bit (v b) k"
  shows "(\<forall>k < 8 * maxix. bm_bit (v b) k) \<and> bitmap_alloc_from b ix maxix = Inr (- ENOSPC, None, b)
    \<or> (\<exists>i < 8 * maxix. \<not> bm_bit (v b) i \<and> (\<forall>k < i. bm_bit (v b) k)
         \<and> i < nat (nbits b)
         \<and> bitmap_alloc_from b ix maxix = Inr (0, Some (int i), set_bit_at b i))"
  using assms
proof (induction b ix maxix rule: bitmap_alloc_from.induct)
  case (1 b ix maxix)
  show ?case
  proof (cases "ix < maxix")
    case False
    then show ?thesis using "1.prems"(3) by (subst (1 2) bitmap_alloc_from.simps) auto
  next
    case True
    then have ix: "ix < length (v b)" using "1.prems"(2) by simp
    let ?w = "v b ! ix"
    have bits: "bm_bit (v b) (8 * ix + j) = bit ?w j" if "j < 8" for j
      using that by (simp add: bm_bit_def)
    show ?thesis
    proof (cases "?w = 0xff")
      case full: True
      have step: "bitmap_alloc_from b ix maxix = bitmap_alloc_from b (Suc ix) maxix"
        using True ix full by (subst bitmap_alloc_from.simps) simp
      have "bm_bit (v b) k" if "k < 8 * Suc ix" for k
      proof (cases "k < 8 * ix")
        case False
        with that have "k = 8 * ix + (k - 8 * ix)" "k - 8 * ix < 8" by simp_all
        with bits full full_byte show ?thesis by metis
      qed (rule "1.prems"(3))
      with "1.IH" [OF True, of ?w] "1.prems"(1,2) full show ?thesis
        unfolding step by simp
    next
      case free: False
      then obtain j where j: "j < 8" "\<not> bit ?w j" by (auto simp: full_byte)
      then obtain off where off: "alloc_offset ?w 0 = Some off"
        using alloc_offset_None by (cases "alloc_offset ?w 0") blast+
      from alloc_offset_Some [OF off] have o: "off < 8" "\<not> bit ?w off" "\<And>j. j < off \<Longrightarrow> bit ?w j"
        by auto
      let ?i = "8 * ix + off"
      have before: "bm_bit (v b) k" if "k < ?i" for k
      proof (cases "k < 8 * ix")
        case False
        with that o(1) have "k = 8 * ix + (k - 8 * ix)" "k - 8 * ix < off" "k - 8 * ix < 8" by simp_all
        with bits o(3) show ?thesis by metis
      qed (rule "1.prems"(3))
      have clear: "\<not> bm_bit (v b) ?i" using bits o by simp
      moreover have "?i < 8 * length (v b)" using ix o(1) by simp
      ultimately have bound: "?i < nat (nbits b)"
        using "1.prems"(1) unfolding bm_wf_def by (meson not_le)
      then have int_bound: "8 * int ix + int off < nbits b" by linarith
      have idx: "u32 (int ix * 8 + int off) = int ?i"
        using bound "1.prems"(1) by (subst u32_id) (auto simp: bm_wf_def)
      have "bitmap_alloc_from b ix maxix = Inr (0, Some (int ?i), set_bit_at b ?i)"
        using True ix free off o idx int_bound
        by (subst bitmap_alloc_from.simps) (simp add: Let_def set_bit_at_def)
      moreover have "?i < 8 * maxix" using True o(1) by simp
      ultimately show ?thesis using before clear bound by blast
    qed
  qed
qed

lemma bm_wf_words: "bm_wf b \<Longrightarrow> nat (u32 (nbits b + 8 - 1) div 8) = length (v b)"
  by (simp add: bm_wf_def u32_id)

lemma bm_wf_covers: "bm_wf b \<Longrightarrow> nat (nbits b) \<le> 8 * length (v b)"
  unfolding bm_wf_def by linarith

lemma bitmap_alloc_cases:
  assumes "bm_wf b"
  obtains (full) "bm_set b = {..<nat (nbits b)}" "bitmap_alloc b = Inr (- ENOSPC, None, b)"
  | (free) i where "i < nat (nbits b)" "i \<notin> bm_set b" "\<And>k. k < i \<Longrightarrow> k \<in> bm_set b"
      "bitmap_alloc b = Inr (0, Some (int i), set_bit_at b i)"
proof -
  let ?n = "length (v b)"
  have eq: "bitmap_alloc b = bitmap_alloc_from b 0 ?n"
    unfolding bitmap_alloc_def bm_wf_words [OF assms] ..
  from bitmap_alloc_from_spec [OF assms order_refl, of 0] consider
      "\<forall>k < 8 * ?n. bm_bit (v b) k" "bitmap_alloc b = Inr (- ENOSPC, None, b)"
    | i where "\<not> bm_bit (v b) i" "\<forall>k < i. bm_bit (v b) k" "i < nat (nbits b)"
        "bitmap_alloc b = Inr (0, Some (int i), set_bit_at b i)"
    unfolding eq by auto
  then show thesis
  proof cases
    case 1
    with bm_wf_covers [OF assms] have "bm_set b = {..<nat (nbits b)}"
      by (auto simp: bm_set_def)
    with 1(2) show thesis by (rule full [rotated])
  next
    case (2 i)
    then show thesis by (intro free) (auto simp: bm_set_def)
  qed
qed

lemma bitmap_unmark_used:
  assumes "bm_wf b" "i \<in> bm_set b"
  shows "bitmap_unmark b (int i) = Inr (clear_bit_at b i)"
proof -
  from assms have i: "i < nat (nbits b)" "bm_bit (v b) i" by (auto simp: bm_set_def)
  moreover have "int i < nbits b" using i(1) by linarith
  moreover have "v b ! (i div 8) AND push_bit (i mod 8) 1 \<noteq> 0"
    using i(2) by (simp add: and_mask_zero bm_bit_def del: push_bit_of_1)
  ultimately show ?thesis
    using bm_wf_index [OF assms(1)]
    by (simp add: bitmap_unmark_def translate_int clear_bit_at_def del: push_bit_of_1)
qed

lemma bitmap_mark_free:
  assumes "bm_wf b" "i < nat (nbits b)" "i \<notin> bm_set b"
  shows "bitmap_mark b (int i) = Inr (set_bit_at b i)"
proof -
  have "\<not> bm_bit (v b) i" using assms by (auto simp: bm_set_def)
  moreover have "int i < nbits b" using assms(2) by linarith
  moreover have "v b ! (i div 8) AND push_bit (i mod 8) 1 = 0"
    using calculation by (simp add: and_mask_zero bm_bit_def del: push_bit_of_1)
  ultimately show ?thesis
    using bm_wf_index [OF assms(1,2)]
    by (simp add: bitmap_mark_def translate_int set_bit_at_def del: push_bit_of_1)
qed

lemma bitmap_mark_fault:
  assumes "bm_wf b" "0 \<le> index" "index \<ge> nbits b \<or> nat index \<in> bm_set b"
  shows "bitmap_mark b index = Inl AssertFailed"
proof (cases "index < nbits b")
  case True
  with assms obtain i where i: "index = int i" "i \<in> bm_set b" by (metis leD nonneg_int_cases nat_int)
  then have "v b ! (i div 8) AND push_bit (i mod 8) 1 \<noteq> 0"
    by (simp add: and_mask_zero bm_set_def bm_bit_def del: push_bit_of_1)
  with True i assms(1) show ?thesis
    using bm_wf_index [of b i]
    by (simp add: bitmap_mark_def translate_int bm_set_def del: push_bit_of_1)
qed (simp add: bitmap_mark_def)

lemma bitmap_unmark_fault:
  assumes "bm_wf b" "0 \<le> index" "nat index \<notin> bm_set b"
  shows "bitmap_unmark b index = Inl AssertFailed"
proof (cases "index < nbits b")
  case True
  with assms obtain i where i: "index = int i" "i < nat (nbits b)" "\<not> bm_bit (v b) i"
    by (auto simp: bm_set_def elim!: nonneg_int_cases)
  then have "v b ! (i div 8) AND push_bit (i mod 8) 1 = 0"
    by (simp add: and_mask_zero bm_bit_def del: push_bit_of_1)
  with True i assms(1) show ?thesis
    using bm_wf_index [of b i]
    by (simp add: bitmap_unmark_def translate_int del: push_bit_of_1)
qed (simp add: bitmap_unmark_def)

lemma bitmap_isset_iff:
  assumes "bm_wf b" "i < nat (nbits b)"
  shows "\<exists>r. bitmap_isset b (int i) = Inr r \<and> (r \<noteq> 0 \<longleftrightarrow> i \<in> bm_set b)"
  using assms bm_wf_index [OF assms] and_mask_zero [of "i mod 8" "v b ! (i div 8)"]
  by (simp add: bitmap_isset_def translate_int bm_set_def bm_bit_def unsigned_eq_0_iff
        del: push_bit_of_1)

lemma nr_allocated_from_spec:
  "bm_wf b \<Longrightarrow> i \<le> nat (nbits b) \<Longrightarrow>
   nr_allocated_from b i nr = Inr (nr + int (card {k \<in> bm_set b. i \<le> k}))"
proof (induction b i nr rule: nr_allocated_from.induct)
  case (1 b i nr)
  show ?case
  proof (cases "int i < nbits b")
    case True
    then have i: "i < nat (nbits b)" by linarith
    obtain r where r: "bitmap_isset b (int i) = Inr r" "r \<noteq> 0 \<longleftrightarrow> i \<in> bm_set b"
      using bitmap_isset_iff [OF "1.prems"(1) i] by auto
    have split: "{k \<in> bm_set b. i \<le> k} =
        (if i \<in> bm_set b then insert i {k \<in> bm_set b. Suc i \<le> k} else {k \<in> bm_set b. Suc i \<le> k})"
      by (auto simp: Suc_le_eq order_le_less)
    have "nr_allocated_from b i nr = nr_allocated_from b (Suc i) (if r \<noteq> 0 then nr + 1 else nr)"
      using True r(1) by (subst nr_allocated_from.simps) simp
    also have "\<dots> = Inr ((if r \<noteq> 0 then nr + 1 else nr) + int (card {k \<in> bm_set b. Suc i \<le> k}))"
      using "1.IH" [OF True, of r] "1.prems"(1) i by simp
    finally show ?thesis using r(2) by (simp add: split)
  next
    case False
    then have "{k \<in> bm_set b. i \<le> k} = {}" by (auto simp: bm_set_def)
    with False show ?thesis by (subst nr_allocated_from.simps) simp
  qed
qed

lemma set_clear_bit_at:
  assumes "bm_wf b" "i < nat (nbits b)" "i \<notin> bm_set b"
  shows "clear_bit_at (set_bit_at b i) i = b"
proof -
  let ?w = "v b ! (i div 8)" and ?m = "push_bit (i mod 8) (1 :: byte)"
  from assms(2,3) have "\<not> bit ?w (i mod 8)" by (simp add: bm_set_def bm_bit_def)
  then have "(?w OR ?m) AND NOT ?m = ?w"
    by (intro bit_eqI) (auto simp: bit_or_mask bit_and_not_mask simp del: push_bit_of_1)
  then show ?thesis
    using bm_wf_index [OF assms(1,2)]
    by (simp add: clear_bit_at_def set_bit_at_def del: push_bit_of_1)
qed

section \<open>The interface: a pool of numbers\<close>

text \<open>
  What \<open>super.c\<close> expects of a bitmap: \<open>alloc\<close> hands out the smallest unused number or says
  that there is none, \<open>release\<close> takes a used number back, and neither ends the process.
\<close>

locale id_pool =
  fixes inv :: "'p \<Rightarrow> bool" and cap :: "'p \<Rightarrow> nat" and used :: "'p \<Rightarrow> nat set"
    and alloc :: "'p \<Rightarrow> (int \<times> int option \<times> 'p) result"
    and release :: "'p \<Rightarrow> int \<Rightarrow> 'p result"
  assumes used_cap: "inv p \<Longrightarrow> used p \<subseteq> {..<cap p}"
    and alloc_full: "inv p \<Longrightarrow> used p = {..<cap p} \<Longrightarrow> alloc p = Inr (- ENOSPC, None, p)"
    and alloc_free: "inv p \<Longrightarrow> used p \<noteq> {..<cap p} \<Longrightarrow>
      \<exists>i p'. alloc p = Inr (0, Some (int i), p') \<and> i < cap p \<and> i \<notin> used p
        \<and> (\<forall>k < i. k \<in> used p) \<and> used p' = insert i (used p) \<and> inv p' \<and> cap p' = cap p"
    and release_used: "inv p \<Longrightarrow> i \<in> used p \<Longrightarrow>
      \<exists>p'. release p (int i) = Inr p' \<and> used p' = used p - {i} \<and> inv p' \<and> cap p' = cap p"
begin

lemma used_finite: "inv p \<Longrightarrow> finite (used p)"
  using used_cap finite_subset by blast

lemma used_card: "inv p \<Longrightarrow> card (used p) \<le> cap p"
  using card_mono [OF _ used_cap] by simp

lemma alloc_elim:
  assumes "inv p"
  obtains (nospace) "used p = {..<cap p}" "alloc p = Inr (- ENOSPC, None, p)"
  | (got) i p' where "alloc p = Inr (0, Some (int i), p')" "i < cap p" "i \<notin> used p"
      "\<And>k. k < i \<Longrightarrow> k \<in> used p" "used p' = insert i (used p)" "inv p'" "cap p' = cap p"
      "card (used p') = Suc (card (used p))"
proof (cases "used p = {..<cap p}")
  case True
  with assms show thesis using nospace alloc_full by blast
next
  case False
  from alloc_free [OF assms False] obtain i p' where
    p': "alloc p = Inr (0, Some (int i), p')" "i < cap p" "i \<notin> used p"
      "\<forall>k < i. k \<in> used p" "used p' = insert i (used p)" "inv p'" "cap p' = cap p"
    by blast
  moreover have "card (used p') = Suc (card (used p))"
    using p' used_finite [OF assms] by simp
  ultimately show thesis using got by blast
qed

lemma release_elim:
  assumes "inv p" "i \<in> used p"
  obtains p' where "release p (int i) = Inr p'" "used p' = used p - {i}" "inv p'" "cap p' = cap p"
    "Suc (card (used p')) = card (used p)"
proof -
  from release_used [OF assms] obtain p' where
    p': "release p (int i) = Inr p'" "used p' = used p - {i}" "inv p'" "cap p' = cap p"
    by blast
  moreover from assms p'(2) have "Suc (card (used p')) = card (used p)"
    using card_Suc_Diff1 [OF used_finite] by simp
  ultimately show thesis using that by blast
qed

text \<open>A number just allocated can be released, and the pool is as it was.\<close>

lemma alloc_then_release:
  assumes "inv p" "alloc p = Inr (0, Some j, p')"
  obtains p'' where "release p' j = Inr p''" "used p'' = used p" "inv p''"
  using assms(1)
proof (cases rule: alloc_elim)
  case nospace
  with assms(2) show thesis by simp
next
  case (got i q)
  with assms(2) have q: "q = p'" "j = int i" by simp_all
  with got have "inv p'" "i \<in> used p'" by simp_all
  then show thesis
    by (cases rule: release_elim) (use got q that in auto)
qed

end

interpretation bm: id_pool bm_wf "\<lambda>b. nat (nbits b)" bm_set bitmap_alloc bitmap_unmark
proof unfold_locales
  fix p assume p: "bm_wf p"
  show "bm_set p \<subseteq> {..<nat (nbits p)}" by (rule bm_set_bound)
  show "bitmap_alloc p = Inr (- ENOSPC, None, p)" if "bm_set p = {..<nat (nbits p)}"
    using p by (cases rule: bitmap_alloc_cases) (use that in auto)
  show "\<exists>i p'. bitmap_alloc p = Inr (0, Some (int i), p') \<and> i < nat (nbits p) \<and> i \<notin> bm_set p
      \<and> (\<forall>k < i. k \<in> bm_set p) \<and> bm_set p' = insert i (bm_set p) \<and> bm_wf p'
      \<and> nat (nbits p') = nat (nbits p)" if "bm_set p \<noteq> {..<nat (nbits p)}"
    using p
  proof (cases rule: bitmap_alloc_cases)
    case full
    with that show ?thesis by blast
  next
    case (free i)
    with set_bit_at [OF p] show ?thesis by auto
  qed
  show "\<exists>p'. bitmap_unmark p (int i) = Inr p' \<and> bm_set p' = bm_set p - {i} \<and> bm_wf p'
      \<and> nat (nbits p') = nat (nbits p)" if "i \<in> bm_set p" for i
    using bitmap_unmark_used [OF p that] clear_bit_at [OF p, of i] that bm_set_bound [of p] by auto
qed

section \<open>Properties\<close>

text \<open>A ten-bit bitmap with bits 0 and 2 in use, for the witnesses.\<close>

definition ten_bits :: bitmap where
  "ten_bits = \<lparr>nbits = 10, v = [5, 0xfc]\<rparr>"

lemma less_16: "i < (16 :: nat) \<Longrightarrow> i \<in> {0, 1, 2, 3, 4, 5, 6, 7, 8, 9, 10, 11, 12, 13, 14, 15}"
  by simp presburger

lemma ten_bits_wf: "bm_wf ten_bits"
proof -
  have "bm_bit [5, 0xfc] i" if "10 \<le> i" "i < 16" for i
    using less_16 [OF that(2)] that(1) by (auto simp: bm_bit_def bit_numeral_simps)
  then show ?thesis by (simp add: bm_wf_def ten_bits_def)
qed

lemma ten_bits_set: "2 \<in> bm_set ten_bits" "1 \<notin> bm_set ten_bits" "0 \<in> bm_set ten_bits"
  by (simp_all add: bm_set_def bm_bit_def ten_bits_def)

text \<open>
  \<open>bitmap_create\<close> returns a well-formed bitmap (the leftover bits of the last byte are
  marked) with no number in use, for every size that does not wrap the 32-bit rounding, and
  neither of its assertions can fail.
\<close>

theorem bitmap_create_empty:
  assumes "0 \<le> n" "n < 2 ^ 32 - 8" "malloc_ok sizeof_bitmap" "malloc_ok (nat ((n + 7) div 8))"
  shows "\<exists>b. bitmap_create malloc_ok n = Inr (0, Some b) \<and> bm_wf b \<and> nbits b = n \<and> bm_set b = {}"
  using assms by (rule bitmap_create_correct)

theorem bitmap_create_empty_witness:
  "\<exists>b. bitmap_create (\<lambda>_. True) 131072 = Inr (0, Some b) \<and> bm_wf b \<and> nbits b = 131072 \<and> bm_set b = {}"
  by (rule bitmap_create_empty) simp_all

text \<open>
  \<open>bitmap_alloc\<close> is first fit.  When every number is in use it returns \<open>-ENOSPC\<close>, leaves
  \<open>*index\<close> and the bitmap alone; otherwise it returns 0, \<open>*index\<close> is the least unused number,
  and exactly that number has become used.  Its assertions never fail.
\<close>

theorem bitmap_alloc_first_fit:
  assumes "bm_wf b"
  shows "if bm_set b = {..<nat (nbits b)} then bitmap_alloc b = Inr (- ENOSPC, None, b)
    else \<exists>b'. bitmap_alloc b = Inr (0, Some (int (LEAST i. i \<notin> bm_set b)), b')
          \<and> (LEAST i. i \<notin> bm_set b) < nat (nbits b)
          \<and> bm_set b' = insert (LEAST i. i \<notin> bm_set b) (bm_set b)
          \<and> bm_wf b' \<and> nbits b' = nbits b"
  using assms
proof (cases rule: bitmap_alloc_cases)
  case full
  then show ?thesis by simp
next
  case (free i)
  have "(LEAST i. i \<notin> bm_set b) = i"
    by (rule Least_equality) (use free in \<open>auto simp: not_less [symmetric]\<close>)
  moreover have "bm_set b \<noteq> {..<nat (nbits b)}" using free(1,2) by blast
  ultimately show ?thesis using free set_bit_at [OF assms, of i] by auto
qed

theorem bitmap_alloc_first_fit_witness:
  "if bm_set ten_bits = {..<nat (nbits ten_bits)} then bitmap_alloc ten_bits = Inr (- ENOSPC, None, ten_bits)
    else \<exists>b'. bitmap_alloc ten_bits = Inr (0, Some (int (LEAST i. i \<notin> bm_set ten_bits)), b')
          \<and> (LEAST i. i \<notin> bm_set ten_bits) < nat (nbits ten_bits)
          \<and> bm_set b' = insert (LEAST i. i \<notin> bm_set ten_bits) (bm_set ten_bits)
          \<and> bm_wf b' \<and> nbits b' = nbits ten_bits"
  by (rule bitmap_alloc_first_fit [OF ten_bits_wf])

text \<open>
  Releasing a number that \<open>bitmap_alloc\<close> just returned gives back the very same bytes.
\<close>

theorem bitmap_alloc_unmark_roundtrip:
  assumes "bm_wf b" "bitmap_alloc b = Inr (0, Some i, b')"
  shows "bitmap_unmark b' i = Inr b"
  using assms(1)
proof (cases rule: bitmap_alloc_cases)
  case full
  with assms(2) show ?thesis by simp
next
  case (free k)
  with assms(2) have b': "b' = set_bit_at b k" "i = int k" by simp_all
  from set_bit_at [OF assms(1) free(1)] have "bm_wf b'" "k \<in> bm_set b'" by (simp_all add: b')
  from bitmap_unmark_used [OF this] set_clear_bit_at [OF assms(1) free(1,2)] show ?thesis
    by (simp add: b')
qed

lemma ten_bits_alloc: "bitmap_alloc ten_bits = Inr (0, Some 1, set_bit_at ten_bits 1)"
  using ten_bits_wf
proof (cases rule: bitmap_alloc_cases)
  case full
  moreover have "(1 :: nat) \<in> {..<nat (nbits ten_bits)}" by (simp add: ten_bits_def)
  ultimately show ?thesis using ten_bits_set by simp
next
  case (free i)
  have "i = 1"
  proof (rule ccontr)
    assume "i \<noteq> 1"
    with free(2) ten_bits_set have "1 < i" by (cases "i = 0") auto
    from free(3) [OF this] ten_bits_set show False by simp
  qed
  with free(4) show ?thesis by simp
qed

theorem bitmap_alloc_unmark_roundtrip_witness:
  "bitmap_unmark (set_bit_at ten_bits 1) 1 = Inr ten_bits"
  by (rule bitmap_alloc_unmark_roundtrip [OF ten_bits_wf ten_bits_alloc])

text \<open>
  The guards of \<open>bitmap_mark\<close> and \<open>bitmap_unmark\<close>: marking succeeds exactly on an unused
  number below the size and unmarking exactly on a used one; each then changes just that
  number, and every other call fails an assertion.
\<close>

theorem bitmap_mark_unmark_guards:
  assumes "bm_wf b"
  shows "(if i < nat (nbits b) \<and> i \<notin> bm_set b
          then \<exists>b'. bitmap_mark b (int i) = Inr b' \<and> bm_wf b' \<and> bm_set b' = insert i (bm_set b)
          else bitmap_mark b (int i) = Inl AssertFailed)
       \<and> (if i \<in> bm_set b
          then \<exists>b'. bitmap_unmark b (int i) = Inr b' \<and> bm_wf b' \<and> bm_set b' = bm_set b - {i}
          else bitmap_unmark b (int i) = Inl AssertFailed)"
  using assms bitmap_mark_free [OF assms, of i] set_bit_at [OF assms, of i]
    bitmap_mark_fault [OF assms, of "int i"] bitmap_unmark_fault [OF assms, of "int i"]
    bm.release_used [OF assms, of i]
  by (auto simp: not_less)

theorem bitmap_mark_unmark_guards_witness:
  "\<exists>b'. bitmap_mark ten_bits 1 = Inr b' \<and> bm_wf b' \<and> bm_set b' = insert 1 (bm_set ten_bits)"
  using bitmap_mark_unmark_guards [OF ten_bits_wf, of 1] ten_bits_set by (simp add: ten_bits_def)

text \<open>
  \<open>bitmap_nr_allocated\<close> counts the numbers in use.
\<close>

theorem bitmap_nr_allocated_card:
  assumes "bm_wf b"
  shows "bitmap_nr_allocated b = Inr (int (card (bm_set b)))"
  using nr_allocated_from_spec [OF assms, of 0 0] by (simp add: bitmap_nr_allocated_def)

theorem bitmap_nr_allocated_card_witness:
  "bitmap_nr_allocated ten_bits = Inr (int (card (bm_set ten_bits)))"
  by (rule bitmap_nr_allocated_card [OF ten_bits_wf])

end
