(* ===== verification/CString.thy ===== *)
theory CString
  imports CBytes
begin

text \<open>
  C strings: lists of bytes without the terminating zero, the scanning of decimal numbers that
  \<open>strtoll\<close> and \<open>sscanf\<close> share, and the decimal output of \<open>printf\<close>.  The conversions in base 10
  are written out as the C standard describes them: blanks, a sign, digits; a value out of range
  saturates, and \<open>strtoull\<close> negates in unsigned arithmetic.
\<close>

type_synonym cstr = "byte list"

section \<open>Strings\<close>

definition lit :: "string \<Rightarrow> cstr" where
  "lit s = map of_char s"

text \<open>The string in an array: reading it runs off the end when there is no zero byte.\<close>

definition c_string :: "byte list \<Rightarrow> cstr result" where
  "c_string bs = (if 0 \<in> set bs then Inr (takeWhile (\<lambda>b. b \<noteq> 0) bs) else Inl OutOfBounds)"

lemma c_string_line: "0 \<notin> set s \<Longrightarrow> c_string (s @ 0 # r) = Inr s"
  by (induction s) (auto simp: c_string_def)

section \<open>Numbers\<close>

definition is_blank :: "byte \<Rightarrow> bool" where
  "is_blank b \<longleftrightarrow> b = 32 \<or> 9 \<le> b \<and> b \<le> 13"

definition is_digit :: "byte \<Rightarrow> bool" where
  "is_digit b \<longleftrightarrow> 48 \<le> b \<and> b \<le> 57"

definition digits_val :: "byte list \<Rightarrow> int" where
  "digits_val ds = foldl (\<lambda>n b. n * 10 + (uint b - 48)) 0 ds"

text \<open>The sign, the digits and what follows them; without digits nothing is consumed.\<close>

definition scan_int :: "cstr \<Rightarrow> bool \<times> byte list \<times> cstr" where
  "scan_int s =
     (let s1 = dropWhile is_blank s;
          (neg, s2) = (case s1 of [] \<Rightarrow> (False, [])
                       | b # r \<Rightarrow> if b = 45 then (True, r) else if b = 43 then (False, r) else (False, s1));
          ds = takeWhile is_digit s2
      in if ds = [] then (False, [], s) else (neg, ds, dropWhile is_digit s2))"

definition strtoll10 :: "cstr \<Rightarrow> int \<times> cstr" where
  "strtoll10 s =
     (let (neg, ds, r) = scan_int s; n = digits_val ds
      in (if neg then max (- (2 ^ 63)) (- n) else min (2 ^ 63 - 1) n, r))"

definition strtoull10 :: "cstr \<Rightarrow> int \<times> cstr" where
  "strtoull10 s =
     (let (neg, ds, r) = scan_int s; n = digits_val ds
      in (if n \<ge> 2 ^ 64 then 2 ^ 64 - 1 else if neg then u64 (- n) else n, r))"

text \<open>\<open>sscanf(s, "<pre> %d", &x) == 1\<close>: the value stored, if there is one.\<close>

definition scan_after :: "(cstr \<Rightarrow> int \<times> cstr) \<Rightarrow> cstr \<Rightarrow> cstr \<Rightarrow> int option" where
  "scan_after conv pre s =
     (if take (length pre) s \<noteq> pre then None
      else
        let s = drop (length pre) s; (neg, ds, r) = scan_int s
        in if ds = [] then None else Some (fst (conv s)))"

definition scan_d :: "cstr \<Rightarrow> cstr \<Rightarrow> int option" where
  "scan_d pre s = map_option s32 (scan_after strtoll10 pre s)"

definition scan_u :: "cstr \<Rightarrow> cstr \<Rightarrow> int option" where
  "scan_u pre s = map_option u32 (scan_after strtoull10 pre s)"

text \<open>The output of \<open>%d\<close> and \<open>%u\<close>.\<close>

fun dec_nat :: "nat \<Rightarrow> byte list" where
  "dec_nat n = (if n < 10 then [] else dec_nat (n div 10)) @ [word_of_nat (48 + n mod 10)]"

declare dec_nat.simps [simp del]

definition dec :: "int \<Rightarrow> byte list" where
  "dec n = (if n < 0 then 45 # dec_nat (nat (- n)) else dec_nat (nat n))"

section \<open>Numbers read back\<close>

lemma digit_byte:
  assumes "m < 10"
  shows "uint (word_of_nat (48 + m) :: byte) = 48 + int m" "is_digit (word_of_nat (48 + m))"
proof -
  show u: "uint (word_of_nat (48 + m) :: byte) = 48 + int m"
    using assms unat_of_nat [of "48 + m", where 'a = 8] by (simp add: uint_nat)
  show "is_digit (word_of_nat (48 + m))"
    unfolding is_digit_def word_le_def u using assms by simp
qed

lemma dec_nat_digits: "b \<in> set (dec_nat n) \<Longrightarrow> is_digit b"
proof (induction n rule: dec_nat.induct)
  case (1 n)
  then show ?case using digit_byte(2) [of "n mod 10"] by (simp add: dec_nat.simps [of n] split: if_splits) blast
qed

lemma dec_nat_nonempty [simp]: "dec_nat n \<noteq> []"
  by (simp add: dec_nat.simps [of n])

lemma digits_val_snoc: "digits_val (ds @ [b]) = digits_val ds * 10 + (uint b - 48)"
  by (simp add: digits_val_def)

lemma digits_val_dec_nat: "digits_val (dec_nat n) = int n"
proof (induction n rule: dec_nat.induct)
  case (1 n)
  show ?case
  proof (cases "n < 10")
    case True
    then show ?thesis using digit_byte(1) [of n] by (simp add: dec_nat.simps [of n] digits_val_def)
  next
    case False
    with 1 digit_byte(1) [of "n mod 10"] show ?thesis
      by (simp add: dec_nat.simps [of n] digits_val_snoc zdiv_int zmod_int)
  qed
qed

lemma digit_not_blank: "is_digit b \<Longrightarrow> \<not> is_blank b \<and> b \<noteq> 45 \<and> b \<noteq> 43"
  by (auto simp: is_digit_def is_blank_def word_le_def)

lemma scan_int_dec_nat:
  assumes "r = [] \<or> \<not> is_digit (hd r)"
  shows "scan_int (32 # dec_nat n @ r) = (False, dec_nat n, r)"
proof -
  obtain b bs where b: "dec_nat n = b # bs" by (cases "dec_nat n") auto
  have d: "is_digit c" if "c \<in> set (b # bs)" for c using that dec_nat_digits [of c n] b by simp
  have nb: "\<not> is_blank b \<and> b \<noteq> 45 \<and> b \<noteq> 43" using d [of b] digit_not_blank by simp
  have t: "takeWhile is_digit (b # bs @ r) = b # bs" "dropWhile is_digit (b # bs @ r) = r"
    using assms d takeWhile_append2 [of "b # bs" is_digit r] dropWhile_append2 [of "b # bs" is_digit r]
    by (cases r; simp)+
  have "dropWhile is_blank (32 # b # bs @ r) = b # bs @ r" using nb by (simp add: is_blank_def [of 32])
  with nb t show ?thesis unfolding scan_int_def b by (simp add: Let_def)
qed

lemma scan_number:
  assumes "r = [] \<or> \<not> is_digit (hd r)"
  shows "int n < 2 ^ 31 \<Longrightarrow> scan_d pre (pre @ 32 # dec_nat n @ r) = Some (int n)"
    "int n < 2 ^ 32 \<Longrightarrow> scan_u pre (pre @ 32 # dec_nat n @ r) = Some (int n)"
  using assms
  by (simp_all add: scan_d_def scan_u_def scan_after_def scan_int_dec_nat strtoll10_def strtoull10_def
      digits_val_dec_nat s32_id u32_id)

end
