(* ===== verification/FsState.thy ===== *)
theory FsState
  imports Bitmap CString "HOL-Library.Signed_Division"
begin

text \<open>
  The data of the file system (\<open>src/fs/testfs.h\<close>, \<open>super.h\<close>, \<open>inode.h\<close>): the layout constants,
  the structures stored on disk with their byte encodings, the in-memory inode, and the state
  \<open>fs\<close> that every function of the program reads and writes.

  \<open>fs\<close> collects what the C code reaches through its one \<open>struct super_block\<close> (the disk super
  block, the device file, the two freemaps) and its globals (the inode hash table and the
  in-memory inodes it links, which live in a heap that maps addresses to \<open>struct inode\<close>).
  Only one file system is mounted at a time, so an inode needs no \<open>sb\<close> pointer.
\<close>

section \<open>Constants\<close>

definition BLOCK_SIZE :: nat where "BLOCK_SIZE = 8192"

abbreviation (input) SUPER_BLOCK_SIZE :: int where "SUPER_BLOCK_SIZE \<equiv> 1"
abbreviation (input) INODE_FREEMAP_SIZE :: nat where "INODE_FREEMAP_SIZE \<equiv> 1"
abbreviation (input) BLOCK_FREEMAP_SIZE :: nat where "BLOCK_FREEMAP_SIZE \<equiv> 16"
abbreviation (input) NR_INODE_BLOCKS :: nat where "NR_INODE_BLOCKS \<equiv> 128"
abbreviation (input) NR_DIRECT_BLOCKS :: int where "NR_DIRECT_BLOCKS \<equiv> 10"
abbreviation (input) NR_INDIRECT_BLOCKS :: int where "NR_INDIRECT_BLOCKS \<equiv> 2048"
abbreviation (input) sizeof_dinode :: nat where "sizeof_dinode \<equiv> 64"
abbreviation (input) INODES_PER_BLOCK :: int where "INODES_PER_BLOCK \<equiv> 128"

text \<open>The derived constants are the ones the headers compute.\<close>

lemma constants:
  "INODES_PER_BLOCK = int BLOCK_SIZE div int sizeof_dinode"
  "NR_INDIRECT_BLOCKS = int BLOCK_SIZE div 4"
  by (simp_all add: BLOCK_SIZE_def)

abbreviation (input) I_NONE :: int where "I_NONE \<equiv> 0"
abbreviation (input) I_FILE :: int where "I_FILE \<equiv> 1"
abbreviation (input) I_DIR :: int where "I_DIR \<equiv> 2"

section \<open>Structures on disk\<close>

record dsuper_block =
  inode_freemap_start :: int
  block_freemap_start :: int
  inode_blocks_start :: int
  data_blocks_start :: int
  used_inode_count :: int
  used_block_count :: int
  max_fs_blocks :: int

abbreviation (input) sizeof_dsuper_block :: nat where "sizeof_dsuper_block \<equiv> 32"

definition enc_dsuper :: "dsuper_block \<Rightarrow> byte list" where
  "enc_dsuper d = enc32 (inode_freemap_start d) @ enc32 (block_freemap_start d)
     @ enc32 (inode_blocks_start d) @ enc32 (data_blocks_start d)
     @ enc32 (used_inode_count d) @ enc32 (used_block_count d) @ enc64 (max_fs_blocks d)"

definition dec_dsuper :: "byte list \<Rightarrow> dsuper_block" where
  "dec_dsuper b = \<lparr>inode_freemap_start = dec_u32 b, block_freemap_start = dec_u32 (drop 4 b),
     inode_blocks_start = dec_u32 (drop 8 b), data_blocks_start = dec_u32 (drop 12 b),
     used_inode_count = dec_u32 (drop 16 b), used_block_count = dec_u32 (drop 20 b),
     max_fs_blocks = dec_u64 (drop 24 b)\<rparr>"

definition dsuper_valid :: "dsuper_block \<Rightarrow> bool" where
  "dsuper_valid d \<longleftrightarrow> is_u32 (inode_freemap_start d) \<and> is_u32 (block_freemap_start d)
     \<and> is_u32 (inode_blocks_start d) \<and> is_u32 (data_blocks_start d)
     \<and> is_u32 (used_inode_count d) \<and> is_u32 (used_block_count d) \<and> is_u64 (max_fs_blocks d)"

interpretation sbc: codec enc_dsuper dec_dsuper sizeof_dsuper_block dsuper_valid
  by unfold_locales
    (simp_all add: enc_dsuper_def dec_dsuper_def dsuper_valid_def dec_enc_u32 dec_enc_u64
       flip: append_assoc drop_drop, simp_all add: dec_enc_u32 dec_enc_u64)

record dinode =
  i_type :: int
  i_block_nr :: "int list"
  i_indirect :: int
  i_dindirect :: int
  block_count :: int
  i_size :: int

definition enc_dinode :: "dinode \<Rightarrow> byte list" where
  "enc_dinode d = enc32 (i_type d) @ concat (map enc32 (take 10 (i_block_nr d @ replicate 10 0)))
     @ enc32 (i_indirect d) @ enc32 (i_dindirect d) @ enc32 (block_count d) @ enc64 (i_size d)"

definition dec_dinode :: "byte list \<Rightarrow> dinode" where
  "dec_dinode b = \<lparr>i_type = dec_s32 b,
     i_block_nr = map (\<lambda>k. dec_s32 (drop (k * 4) (drop 4 b))) [0..<10],
     i_indirect = dec_s32 (drop 44 b), i_dindirect = dec_s32 (drop 48 b),
     block_count = dec_s32 (drop 52 b), i_size = dec_s64 (drop 56 b)\<rparr>"

definition dinode_valid :: "dinode \<Rightarrow> bool" where
  "dinode_valid d \<longleftrightarrow> is_s32 (i_type d) \<and> length (i_block_nr d) = 10
     \<and> list_all (\<lambda>x. is_s32 x) (i_block_nr d)
     \<and> is_s32 (i_indirect d) \<and> is_s32 (i_dindirect d) \<and> is_s32 (block_count d)
     \<and> is_s64 (i_size d)"

text \<open>\<open>bzero(&in->in, sizeof(struct dinode))\<close>.\<close>

definition zero_dinode :: dinode where
  "zero_dinode = \<lparr>i_type = 0, i_block_nr = replicate 10 0, i_indirect = 0, i_dindirect = 0,
     block_count = 0, i_size = 0\<rparr>"

lemma take_10 [simp]: "length xs = 10 \<Longrightarrow> take 10 (xs @ ys) = xs"
  by simp

lemma length_enc_blocks [simp]: "length (concat (map enc32 xs)) = length xs * 4"
  by (rule s32c.encs_length)

lemma dec_block_list:
  assumes "length xs = 10" "list_all (\<lambda>x. is_s32 x) xs"
  shows "map (\<lambda>k. dec_s32 (drop (k * 4) (concat (map enc32 xs) @ r))) [0..<10] = xs"
proof (rule nth_equalityI)
  fix i assume "i < length (map (\<lambda>k. dec_s32 (drop (k * 4) (concat (map enc32 xs) @ r))) [0..<10])"
  with assms s32c.encs_decode [OF assms(2), of i r]
  show "map (\<lambda>k. dec_s32 (drop (k * 4) (concat (map enc32 xs) @ r))) [0..<10] ! i = xs ! i"
    by (simp del: drop_append)
qed (use assms in simp)

interpretation dic: codec enc_dinode dec_dinode sizeof_dinode dinode_valid
proof unfold_locales
  fix d :: dinode and r :: "byte list"
  show "length (enc_dinode d) = sizeof_dinode"
  proof -
    have "length (take 10 (i_block_nr d @ replicate 10 0)) = 10" by simp
    then show ?thesis
      by (simp only: enc_dinode_def length_append length_enc_blocks length_enc)
  qed
  assume d: "dinode_valid d"
  let ?t = "enc32 (i_indirect d) @ enc32 (i_dindirect d) @ enc32 (block_count d) @ enc64 (i_size d) @ r"
  let ?e = "enc32 (i_type d) @ concat (map enc32 (i_block_nr d)) @ ?t"
  have e: "enc_dinode d @ r = ?e"
    using d by (simp add: enc_dinode_def dinode_valid_def)
  have len: "length (i_block_nr d) = 10" using d by (simp add: dinode_valid_def)
  have "drop 44 ?e = ?t" "drop 4 ?e = concat (map enc32 (i_block_nr d)) @ ?t"
    "drop 48 ?e = drop 4 ?t" "drop 52 ?e = drop 8 ?t" "drop 56 ?e = drop 12 ?t"
    using len by simp_all
  note drops = this
  have "dec_s32 ?e = i_type d"
    using d by (intro dec_enc_s32) (simp_all add: dinode_valid_def)
  moreover have "map (\<lambda>k. dec_s32 (drop (k * 4) (drop 4 ?e))) [0..<10] = i_block_nr d"
    unfolding drops using d by (intro dec_block_list) (simp_all add: dinode_valid_def)
  moreover have "dec_s32 (drop 44 ?e) = i_indirect d"
    unfolding drops using d by (intro dec_enc_s32) (simp_all add: dinode_valid_def)
  moreover have "dec_s32 (drop 48 ?e) = i_dindirect d" "dec_s32 (drop 52 ?e) = block_count d"
    "dec_s64 (drop 56 ?e) = i_size d"
    unfolding drops using d by (simp_all add: dinode_valid_def dec_enc_s32 dec_enc_s64)
  ultimately show "dec_dinode (enc_dinode d @ r) = d"
    unfolding dec_dinode_def e by simp
qed

lemma zero_dinode_valid: "dinode_valid zero_dinode"
  by (simp add: dinode_valid_def zero_dinode_def list_all_length)

section \<open>Structures in memory\<close>

text \<open>
  \<open>struct inode\<close>, less its list node (the hash table lists the inodes by address) and its \<open>sb\<close>
  pointer (there is one super block).
\<close>

record inode =
  din :: dinode
  i_flags :: int
  i_nr :: int
  i_count :: int

abbreviation (input) I_FLAGS_DIRTY :: int where "I_FLAGS_DIRTY \<equiv> 1"
abbreviation (input) sizeof_inode :: nat where "sizeof_inode \<equiv> 104"

lemma dirty_or [simp]: "(x OR I_FLAGS_DIRTY) AND I_FLAGS_DIRTY \<noteq> (0 :: int)"
proof
  assume "(x OR 1) AND 1 = (0 :: int)"
  then have "bit ((x OR 1) AND 1) 0 = bit (0 :: int) 0" by simp
  then show False by (simp add: bit_or_iff bit_and_iff del: bit_0)
qed

lemma clean_and [simp]: "(x AND NOT I_FLAGS_DIRTY) AND I_FLAGS_DIRTY = (0 :: int)"
  by (rule bit_eqI) (auto simp: bit_and_iff bit_not_iff bit_1_iff)

text \<open>What the program prints, as the pieces its \<open>printf\<close> calls are given.\<close>

datatype printed = OutStr "byte list" | OutInt int

text \<open>
  The state.  \<open>dev\<close> is the contents of the file that is the disk.  A freemap is \<open>None\<close> where the
  code has \<open>NULL\<close>; a bucket of \<open>inode_hash_table\<close> lists the addresses of its inodes from the
  head on; \<open>next_addr\<close> is the address the allocator hands out next, and \<open>malloc_ok n\<close> its answer
  to a request of \<open>n\<close> bytes.
\<close>

record fs =
  sb :: dsuper_block
  dev :: "byte list"
  inode_freemap :: "bitmap option"
  block_freemap :: "bitmap option"
  inode_hash_table :: "nat list list"
  iheap :: "nat \<Rightarrow> inode option"
  next_addr :: nat
  malloc_ok :: "nat \<Rightarrow> bool"
  out :: "printed list"

text \<open>
  \<open>struct context\<close>: the words of a command line (\<open>MAX_ARGS + 1\<close> of them, \<open>None\<close> for \<open>NULL\<close>) and the
  current directory.  A C string is the list of its bytes before the terminating zero.
\<close>

abbreviation (input) MAX_ARGS :: nat where "MAX_ARGS \<equiv> 6"

record cmd_context =
  nargs :: int
  cmd :: "cstr option list"
  cur_dir :: nat

text \<open>\<open>p->...\<close> for a pointer to an inode, and an assignment through it.\<close>

definition deref :: "nat \<Rightarrow> fs \<Rightarrow> inode result" where
  "deref p s = (case iheap s p of None \<Rightarrow> Inl BadPointer | Some i \<Rightarrow> Inr i)"

definition upd_inode :: "nat \<Rightarrow> (inode \<Rightarrow> inode) \<Rightarrow> fs \<Rightarrow> fs result" where
  "upd_inode p f s =
     (case iheap s p of None \<Rightarrow> Inl BadPointer | Some i \<Rightarrow> Inr (s\<lparr>iheap := (iheap s)(p \<mapsto> f i)\<rparr>))"

lemma deref_Some [simp, res_simps]: "iheap s p = Some i \<Longrightarrow> deref p s = Inr i"
  by (simp add: deref_def)

lemma upd_inode_Some [simp, res_simps]:
  "iheap s p = Some i \<Longrightarrow> upd_inode p f s = Inr (s\<lparr>iheap := (iheap s)(p \<mapsto> f i)\<rparr>)"
  by (simp add: upd_inode_def)

end
