(* ===== verification/BlockDev.thy ===== *)
theory BlockDev
  imports FsState
begin

text \<open>
  \<open>src/fs/block.c\<close>: whole-block reads and writes of the device file.  The specification views
  the file as blocks (\<open>dblk\<close>, zero past the end of the file): a block reads back as last
  written, and a write leaves the other blocks alone.  \<open>mirror\<close> says that a range of blocks holds
  the bytes of a structure in memory.
\<close>

section \<open>The code\<close>

text \<open>
  The file under the \<open>stdio\<close> layer: \<open>fwrite\<close> past the end of the file fills the gap with zeros,
  \<open>fread\<close> past it is short.
\<close>

definition file_write :: "byte list \<Rightarrow> nat \<Rightarrow> byte list \<Rightarrow> byte list" where
  "file_write d pos bs =
     take pos d @ replicate (pos - length d) 0 @ bs @ drop (pos + length bs) d"

text \<open>
  The file position is saved and restored, so it is not part of the state.  A negative position
  makes \<open>fseek\<close> fail, a short \<open>fread\<close> is an \<open>EXIT\<close>, and the buffer must hold \<open>nr\<close> blocks.
\<close>

definition write_blocks :: "byte list \<Rightarrow> int \<Rightarrow> nat \<Rightarrow> fs \<Rightarrow> fs result" where
  "write_blocks blocks start nr s =
     (if start * int BLOCK_SIZE < 0 then Inl ExitFailure
      else if length blocks < nr * BLOCK_SIZE then Inl OutOfBounds
      else Inr (s\<lparr>dev := file_write (dev s) (nat (start * int BLOCK_SIZE))
                         (take (nr * BLOCK_SIZE) blocks)\<rparr>))"

definition read_blocks :: "int \<Rightarrow> nat \<Rightarrow> fs \<Rightarrow> byte list result" where
  "read_blocks start nr s =
     (if start * int BLOCK_SIZE < 0 then Inl ExitFailure
      else let pos = nat (start * int BLOCK_SIZE) in
           if pos + nr * BLOCK_SIZE \<le> length (dev s)
           then Inr (take (nr * BLOCK_SIZE) (drop pos (dev s)))
           else Inl ExitFailure)"

definition zero :: "byte list" where
  "zero = replicate BLOCK_SIZE 0"

function zero_blocks_from :: "nat \<Rightarrow> int \<Rightarrow> nat \<Rightarrow> fs \<Rightarrow> fs result" where
  "zero_blocks_from i start nr s =
     (if i < nr
      then bindr (write_blocks zero (start + int i) 1 s) (\<lambda>s'. zero_blocks_from (Suc i) start nr s')
      else Inr s)"
  by pat_completeness auto
termination
  by (relation "measure (\<lambda>(i, start, nr, s). nr - i)") auto

declare zero_blocks_from.simps [simp del]

definition zero_blocks :: "int \<Rightarrow> nat \<Rightarrow> fs \<Rightarrow> fs result" where
  "zero_blocks start nr s = zero_blocks_from 0 start nr s"

section \<open>The device as blocks\<close>

definition dbyte :: "byte list \<Rightarrow> nat \<Rightarrow> byte" where
  "dbyte d k = (if k < length d then d ! k else 0)"

definition dblk :: "byte list \<Rightarrow> nat \<Rightarrow> byte list" where
  "dblk d b = map (\<lambda>k. dbyte d (b * BLOCK_SIZE + k)) [0..<BLOCK_SIZE]"

text \<open>Block \<open>b\<close> is inside the file, so it can be read.\<close>

definition readable :: "byte list \<Rightarrow> nat \<Rightarrow> bool" where
  "readable d b \<longleftrightarrow> b * BLOCK_SIZE + BLOCK_SIZE \<le> length d"

text \<open>The block list \<open>bs\<close> written at block \<open>b\<close>.\<close>

definition dput :: "byte list \<Rightarrow> nat \<Rightarrow> byte list \<Rightarrow> byte list" where
  "dput d b bs = file_write d (b * BLOCK_SIZE) bs"

lemma BLOCK_SIZE_pos [simp]: "0 < BLOCK_SIZE"
  by (simp add: BLOCK_SIZE_def)

lemma length_zero [simp]: "length zero = BLOCK_SIZE"
  by (simp add: zero_def)

lemma length_dblk [simp]: "length (dblk d b) = BLOCK_SIZE"
  by (simp add: dblk_def)

lemma length_file_write: "length (file_write d pos bs) = max (length d) (pos + length bs)"
  by (simp add: file_write_def)

lemma dbyte_file_write:
  "dbyte (file_write d pos bs) k =
     (if pos \<le> k \<and> k < pos + length bs then bs ! (k - pos) else dbyte d k)"
  by (auto simp: dbyte_def file_write_def nth_append min_def split: if_splits)

lemma block_of_byte: "k < BLOCK_SIZE \<Longrightarrow> (b * BLOCK_SIZE + k) div BLOCK_SIZE = b"
  by simp

lemma dblk_dput_many:
  assumes "length bs = n * BLOCK_SIZE"
  shows "dblk (dput d b bs) c =
    (if b \<le> c \<and> c < b + n then take BLOCK_SIZE (drop ((c - b) * BLOCK_SIZE) bs) else dblk d c)"
proof -
  have in_range: "b * BLOCK_SIZE \<le> c * BLOCK_SIZE + k \<and> c * BLOCK_SIZE + k < b * BLOCK_SIZE + length bs
      \<longleftrightarrow> b \<le> c \<and> c < b + n" if k: "k < BLOCK_SIZE" for k
  proof -
    have "b * BLOCK_SIZE \<le> c * BLOCK_SIZE + k \<longleftrightarrow> b \<le> c"
      using less_eq_div_iff_mult_less_eq [of BLOCK_SIZE b "c * BLOCK_SIZE + k"] k by simp
    moreover have "c * BLOCK_SIZE + k < (b + n) * BLOCK_SIZE \<longleftrightarrow> c < b + n"
      using div_less_iff_less_mult [of BLOCK_SIZE "c * BLOCK_SIZE + k" "b + n"] k by simp
    ultimately show ?thesis using assms by (simp add: algebra_simps)
  qed
  show ?thesis
  proof (cases "b \<le> c \<and> c < b + n")
    case True
    then obtain j where j: "c = b + j" "j < n" by (metis add_less_cancel_left le_Suc_ex)
    have "Suc j * BLOCK_SIZE \<le> n * BLOCK_SIZE" using j(2) by (intro mult_le_mono1) simp
    then have len: "j * BLOCK_SIZE + BLOCK_SIZE \<le> length bs" using assms by simp
    show ?thesis
    proof (rule nth_equalityI)
      fix k assume "k < length (dblk (dput d b bs) c)"
      then have k: "k < BLOCK_SIZE" by simp
      have "dbyte (dput d b bs) (c * BLOCK_SIZE + k) = bs ! (c * BLOCK_SIZE + k - b * BLOCK_SIZE)"
        using in_range [OF k] True by (simp add: dput_def dbyte_file_write)
      moreover have "c * BLOCK_SIZE + k - b * BLOCK_SIZE = j * BLOCK_SIZE + k"
        using j(1) by (simp add: add_mult_distrib)
      ultimately show "dblk (dput d b bs) c ! k =
          (if b \<le> c \<and> c < b + n then take BLOCK_SIZE (drop ((c - b) * BLOCK_SIZE) bs) else dblk d c) ! k"
        using True k len j by (simp add: dblk_def)
    qed (use True len j in simp)
  next
    case False
    then show ?thesis using in_range by (auto simp: dblk_def dput_def dbyte_file_write)
  qed
qed

lemma dblk_dput:
  "length bs = BLOCK_SIZE \<Longrightarrow> dblk (dput d b bs) c = (if c = b then bs else dblk d c)"
  using dblk_dput_many [of bs 1 d b c] by auto

lemma length_dput: "length (dput d b bs) = max (length d) (b * BLOCK_SIZE + length bs)"
  by (simp add: dput_def length_file_write)

lemma readable_dput_mono: "readable d c \<Longrightarrow> readable (dput d b bs) c"
  by (simp add: readable_def length_dput)

lemma readable_dput: "length bs = BLOCK_SIZE \<Longrightarrow> readable (dput d b bs) b"
  by (simp add: readable_def length_dput)

lemma readable_less: "readable d b \<Longrightarrow> c \<le> b \<Longrightarrow> readable d c"
  unfolding readable_def by (meson add_le_cancel_right mult_le_mono1 order_trans)

lemma take_drop_dblk:
  assumes "readable d b"
  shows "take BLOCK_SIZE (drop (b * BLOCK_SIZE) d) = dblk d b"
  by (rule nth_equalityI) (use assms in \<open>auto simp: readable_def dblk_def dbyte_def\<close>)

section \<open>What the functions compute\<close>

lemma nat_block_pos: "nat (int b * int BLOCK_SIZE) = b * BLOCK_SIZE"
  by (metis nat_int of_nat_mult)

lemma write_block:
  "length bs = BLOCK_SIZE \<Longrightarrow> write_blocks bs (int b) 1 s = Inr (s\<lparr>dev := dput (dev s) b bs\<rparr>)"
  by (simp add: write_blocks_def nat_block_pos dput_def mult_less_0_iff)

lemma write_block_prefix:
  "BLOCK_SIZE \<le> length bs \<Longrightarrow>
   write_blocks bs (int b) 1 s = Inr (s\<lparr>dev := dput (dev s) b (take BLOCK_SIZE bs)\<rparr>)"
  by (simp add: write_blocks_def nat_block_pos dput_def mult_less_0_iff)

lemma write_many:
  "length bs = n * BLOCK_SIZE \<Longrightarrow>
   write_blocks bs (int b) n s = Inr (s\<lparr>dev := dput (dev s) b bs\<rparr>)"
  by (simp add: write_blocks_def nat_block_pos dput_def mult_less_0_iff)

lemma read_block:
  "readable (dev s) b \<Longrightarrow> read_blocks (int b) 1 s = Inr (dblk (dev s) b)"
  using take_drop_dblk [of "dev s" b]
  by (simp add: read_blocks_def nat_block_pos mult_less_0_iff readable_def)

lemma read_many:
  assumes "b * BLOCK_SIZE + n * BLOCK_SIZE \<le> length (dev s)"
  shows "read_blocks (int b) n s = Inr (concat (map (dblk (dev s)) [b..<b + n]))"
proof -
  have "take (n * BLOCK_SIZE) (drop (b * BLOCK_SIZE) d) = concat (map (dblk d) [b..<b + n])"
    if "b * BLOCK_SIZE + n * BLOCK_SIZE \<le> length d" for d
    using that
  proof (induction n arbitrary: b)
    case (Suc n)
    then have "readable d b" by (simp add: readable_def)
    moreover have "take (n * BLOCK_SIZE) (drop (Suc b * BLOCK_SIZE) d)
        = concat (map (dblk d) [Suc b..<Suc b + n])"
      using Suc.prems by (intro Suc.IH) (simp add: add.assoc add.left_commute)
    moreover have "take (Suc n * BLOCK_SIZE) (drop (b * BLOCK_SIZE) d)
        = take BLOCK_SIZE (drop (b * BLOCK_SIZE) d) @ take (n * BLOCK_SIZE) (drop (Suc b * BLOCK_SIZE) d)"
      by (simp add: take_add add.commute)
    ultimately show ?case by (simp add: take_drop_dblk upt_conv_Cons del: upt_Suc mult_Suc)
  qed simp
  with assms show ?thesis
    by (simp add: read_blocks_def nat_block_pos mult_less_0_iff)
qed

text \<open>\<open>dzero d b n\<close>: the blocks from \<open>b\<close> on, \<open>n\<close> of them, zeroed one by one.\<close>

primrec dzero :: "byte list \<Rightarrow> nat \<Rightarrow> nat \<Rightarrow> byte list" where
  "dzero d b 0 = d"
| "dzero d b (Suc n) = dzero (dput d b zero) (Suc b) n"

lemma zero_blocks_from_dzero:
  "i \<le> nr \<Longrightarrow> zero_blocks_from i (int b) nr s = Inr (s\<lparr>dev := dzero (dev s) (b + i) (nr - i)\<rparr>)"
proof (induction i "int b" nr s rule: zero_blocks_from.induct)
  case (1 i nr s)
  show ?case
  proof (cases "i < nr")
    case True
    have w: "write_blocks zero (int b + int i) 1 s = Inr (s\<lparr>dev := dput (dev s) (b + i) zero\<rparr>)"
      using write_block [of zero "b + i" s] by simp
    have "nr - i = Suc (nr - Suc i)" using True by simp
    with "1.hyps" [OF True, of "s\<lparr>dev := dput (dev s) (b + i) zero\<rparr>"] True w show ?thesis
      by (subst zero_blocks_from.simps) (simp add: Suc_le_eq)
  next
    case False
    with "1.prems" show ?thesis by (subst zero_blocks_from.simps) simp
  qed
qed

lemma zero_blocks_dzero: "zero_blocks (int b) nr s = Inr (s\<lparr>dev := dzero (dev s) b nr\<rparr>)"
  using zero_blocks_from_dzero [of 0 nr b s] by (simp add: zero_blocks_def)

lemma dblk_dzero: "dblk (dzero d b n) c = (if b \<le> c \<and> c < b + n then zero else dblk d c)"
  by (induction n arbitrary: d b) (auto simp: dblk_dput)

lemma length_dzero: "0 < n \<Longrightarrow> length (dzero d b n) = max (length d) ((b + n) * BLOCK_SIZE)"
proof (induction n arbitrary: d b)
  case (Suc n)
  then show ?case by (cases "n = 0") (simp_all add: length_dput add_mult_distrib)
qed simp

lemma readable_dzero_mono: "readable d c \<Longrightarrow> readable (dzero d b n) c"
  by (induction n arbitrary: d b) (simp_all add: readable_dput_mono)

lemma zero_block: "zero_blocks (int b) 1 s = Inr (s\<lparr>dev := dput (dev s) b zero\<rparr>)"
  by (simp add: zero_blocks_dzero)

section \<open>Byte arrays kept on disk\<close>

text \<open>Block \<open>k\<close> of a byte array, and: blocks \<open>st\<close> to \<open>st + n - 1\<close> of the disk hold the array.\<close>

definition chunk :: "byte list \<Rightarrow> nat \<Rightarrow> byte list" where
  "chunk vs k = take BLOCK_SIZE (drop (k * BLOCK_SIZE) vs)"

definition mirror :: "byte list \<Rightarrow> nat \<Rightarrow> nat \<Rightarrow> byte list \<Rightarrow> bool" where
  "mirror d st n vs \<longleftrightarrow> length vs = n * BLOCK_SIZE \<and> (\<forall>k < n. dblk d (st + k) = chunk vs k)"

lemma chunk_end: "k < n \<Longrightarrow> length vs = n * BLOCK_SIZE \<Longrightarrow> k * BLOCK_SIZE + BLOCK_SIZE \<le> length vs"
  using mult_le_mono1 [of "Suc k" n BLOCK_SIZE] by simp

lemma length_chunk: "k < n \<Longrightarrow> length vs = n * BLOCK_SIZE \<Longrightarrow> length (chunk vs k) = BLOCK_SIZE"
  using chunk_end [of k n vs] by (simp add: chunk_def)

lemma concat_chunks: "length vs = n * BLOCK_SIZE \<Longrightarrow> concat (map (chunk vs) [0..<n]) = vs"
proof (induction n arbitrary: vs)
  case (Suc n)
  then have "length (drop BLOCK_SIZE vs) = n * BLOCK_SIZE" by simp
  then have "concat (map (chunk (drop BLOCK_SIZE vs)) [0..<n]) = drop BLOCK_SIZE vs" by (rule Suc.IH)
  moreover have "chunk (drop BLOCK_SIZE vs) k = chunk vs (Suc k)" for k
    by (simp add: chunk_def add.commute)
  ultimately have "concat (map (\<lambda>k. chunk vs (Suc k)) [0..<n]) = drop BLOCK_SIZE vs"
    by (metis (no_types, lifting) map_ext)
  moreover have "map (chunk vs) [0..<Suc n] = chunk vs 0 # map (\<lambda>k. chunk vs (Suc k)) [0..<n]"
    by (simp add: upt_conv_Cons map_Suc_upt [symmetric] del: upt_Suc map_Suc_upt)
  moreover have "chunk vs 0 = take BLOCK_SIZE vs" by (simp add: chunk_def)
  ultimately show ?case by (simp del: upt_Suc)
qed simp

lemma mirror_read:
  assumes "mirror d st n vs" "(st + n) * BLOCK_SIZE \<le> length d"
  shows "concat (map (dblk d) [st..<st + n]) = vs"
proof -
  have "map (dblk d) [st..<st + n] = map (chunk vs) [0..<n]"
    by (rule nth_equalityI) (use assms in \<open>auto simp: mirror_def\<close>)
  with assms(1) show ?thesis by (simp add: concat_chunks mirror_def)
qed

lemma mirror_write: "length vs = n * BLOCK_SIZE \<Longrightarrow> mirror (dput d st vs) st n vs"
  by (simp add: mirror_def dblk_dput_many [of vs n] chunk_def)

lemma mirror_other:
  "mirror d st n vs \<Longrightarrow> (\<And>k. st \<le> k \<Longrightarrow> k < st + n \<Longrightarrow> dblk d' k = dblk d k) \<Longrightarrow> mirror d' st n vs"
  by (simp add: mirror_def)

lemma chunk_update_other:
  assumes "j div BLOCK_SIZE \<noteq> k"
  shows "chunk (vs[j := x]) k = chunk vs k"
proof (rule nth_equalityI)
  fix i assume "i < length (chunk (vs[j := x]) k)"
  then have i: "i < BLOCK_SIZE" "k * BLOCK_SIZE + i < length vs" by (auto simp: chunk_def)
  have "j \<noteq> k * BLOCK_SIZE + i" using assms i(1) by auto
  with i show "chunk (vs[j := x]) k ! i = chunk vs k ! i" by (simp add: chunk_def)
qed (simp add: chunk_def)

lemma mirror_update:
  assumes "mirror d st n vs" "j < length vs"
  shows "mirror (dput d (st + j div BLOCK_SIZE) (chunk (vs[j := x]) (j div BLOCK_SIZE))) st n (vs[j := x])"
proof -
  have len: "length vs = n * BLOCK_SIZE" using assms(1) by (simp add: mirror_def)
  then have k: "j div BLOCK_SIZE < n" using assms(2) by (simp add: less_mult_imp_div_less)
  have lc: "length (chunk (vs[j := x]) (j div BLOCK_SIZE)) = BLOCK_SIZE"
    using length_chunk [OF k] len by simp
  then show ?thesis
    using assms(1) chunk_update_other by (auto simp: mirror_def dblk_dput len)
qed

end
