(* ===== verification/InodeHash.thy ===== *)
theory InodeHash
  imports BlockDev
begin

text \<open>
  The inode hash table of \<open>src/fs/inode.c\<close> (with \<open>hash_int\<close> of \<open>list.h\<close>): 256 buckets of
  in-memory inodes, hashed by inode number.  \<open>hash_inv\<close> is its invariant: a live inode is in
  exactly the bucket of its number, and no two live inodes have the same number.  The locale
  \<open>key_table\<close> is the lookup interface \<open>testfs_get_inode\<close> relies on.
\<close>

section \<open>The code\<close>

definition hash_int :: "int \<Rightarrow> nat \<Rightarrow> int" where
  "hash_int val bits = u32 (val * 0x9e370001) div 2 ^ (32 - bits)"

abbreviation (input) INODE_HASH_SHIFT :: nat where "INODE_HASH_SHIFT \<equiv> 8"
abbreviation (input) inode_hash_size :: nat where "inode_hash_size \<equiv> 256"

definition inode_hashfn :: "int \<Rightarrow> nat" where
  "inode_hashfn nr = nat (hash_int (u32 nr) INODE_HASH_SHIFT)"

text \<open>Before \<open>inode_hash_init\<close> the table is the empty list (the code's \<open>NULL\<close>).\<close>

definition inode_hash_init :: "fs \<Rightarrow> fs result" where
  "inode_hash_init s =
     (if malloc_ok s (inode_hash_size * 8)
      then Inr (s\<lparr>inode_hash_table := replicate inode_hash_size []\<rparr>)
      else Inl ExitFailure)"

definition inode_hash_destroy :: "fs \<Rightarrow> fs result" where
  "inode_hash_destroy s =
     bindr (c_assert (inode_hash_table s \<noteq> [])) (\<lambda>_.
     bindr (c_assert (list_all (\<lambda>b. b = []) (inode_hash_table s))) (\<lambda>_.
     Inr (s\<lparr>inode_hash_table := []\<rparr>)))"

fun bucket_find :: "nat list \<Rightarrow> int \<Rightarrow> fs \<Rightarrow> nat option result" where
  "bucket_find [] inode_nr s = Inr None"
| "bucket_find (p # ps) inode_nr s =
     bindr (deref p s) (\<lambda>i. if i_nr i = inode_nr then Inr (Some p) else bucket_find ps inode_nr s)"

definition inode_hash_find :: "int \<Rightarrow> fs \<Rightarrow> nat option result" where
  "inode_hash_find inode_nr s =
     bindr (arr_get (inode_hash_table s) (inode_hashfn inode_nr)) (\<lambda>bucket.
     bucket_find bucket inode_nr s)"

definition inode_hash_insert :: "nat \<Rightarrow> fs \<Rightarrow> fs result" where
  "inode_hash_insert p s =
     bindr (deref p s) (\<lambda>i.
     bindr (arr_get (inode_hash_table s) (inode_hashfn (i_nr i))) (\<lambda>bucket.
     bindr (arr_set (inode_hash_table s) (inode_hashfn (i_nr i)) (p # bucket)) (\<lambda>t.
     Inr (s\<lparr>inode_hash_table := t\<rparr>))))"

text \<open>
  \<open>hlist_del\<close> unlinks the node from the list it is in, through its back pointer; a node that is
  in no list has none to follow.
\<close>

definition inode_hash_remove :: "nat \<Rightarrow> fs \<Rightarrow> fs result" where
  "inode_hash_remove p s =
     (if list_ex (\<lambda>b. p \<in> set b) (inode_hash_table s)
      then Inr (s\<lparr>inode_hash_table := map (remove1 p) (inode_hash_table s)\<rparr>)
      else Inl BadPointer)"

section \<open>The invariant\<close>

definition hash_inv :: "fs \<Rightarrow> bool" where
  "hash_inv s \<longleftrightarrow> length (inode_hash_table s) = inode_hash_size
     \<and> (\<forall>p i. iheap s p = Some i \<longrightarrow>
          p < next_addr s \<and> 0 < i_count i \<and> p \<in> set (inode_hash_table s ! inode_hashfn (i_nr i)))
     \<and> (\<forall>h < inode_hash_size. distinct (inode_hash_table s ! h)
          \<and> (\<forall>p \<in> set (inode_hash_table s ! h). \<exists>i. iheap s p = Some i \<and> inode_hashfn (i_nr i) = h))
     \<and> (\<forall>p q i j. iheap s p = Some i \<and> iheap s q = Some j \<and> i_nr i = i_nr j \<longrightarrow> p = q)"

definition inode_key :: "fs \<Rightarrow> nat \<Rightarrow> int option" where
  "inode_key s p = map_option i_nr (iheap s p)"

lemma hash_invI:
  assumes "length (inode_hash_table s) = 256"
    and "\<And>p i. iheap s p = Some i \<Longrightarrow> p < next_addr s"
    and "\<And>p i. iheap s p = Some i \<Longrightarrow> 0 < i_count i"
    and "\<And>p i. iheap s p = Some i \<Longrightarrow> p \<in> set (inode_hash_table s ! inode_hashfn (i_nr i))"
    and "\<And>h. h < 256 \<Longrightarrow> distinct (inode_hash_table s ! h)"
    and "\<And>h p. h < 256 \<Longrightarrow> p \<in> set (inode_hash_table s ! h) \<Longrightarrow>
           \<exists>i. iheap s p = Some i \<and> inode_hashfn (i_nr i) = h"
    and "\<And>p q i j. iheap s p = Some i \<Longrightarrow> iheap s q = Some j \<Longrightarrow> i_nr i = i_nr j \<Longrightarrow> p = q"
  shows "hash_inv s"
  unfolding hash_inv_def using assms by metis

lemma hash_inv_facts:
  assumes "hash_inv s"
  shows hash_len: "length (inode_hash_table s) = 256"
    and hash_live: "\<And>p i. iheap s p = Some i \<Longrightarrow> p < next_addr s"
      "\<And>p i. iheap s p = Some i \<Longrightarrow> 0 < i_count i"
      "\<And>p i. iheap s p = Some i \<Longrightarrow> p \<in> set (inode_hash_table s ! inode_hashfn (i_nr i))"
    and hash_distinct: "\<And>h. h < 256 \<Longrightarrow> distinct (inode_hash_table s ! h)"
    and hash_bucket: "\<And>h p. h < 256 \<Longrightarrow> p \<in> set (inode_hash_table s ! h) \<Longrightarrow>
           \<exists>i. iheap s p = Some i \<and> inode_hashfn (i_nr i) = h"
    and hash_inj: "\<And>p q i j. iheap s p = Some i \<Longrightarrow> iheap s q = Some j \<Longrightarrow> i_nr i = i_nr j \<Longrightarrow> p = q"
proof -
  note h = assms [unfolded hash_inv_def]
  show "length (inode_hash_table s) = 256" using h by (elim conjE)
  fix p i assume p: "iheap s p = Some i"
  have "\<forall>p i. iheap s p = Some i \<longrightarrow> p < next_addr s \<and> 0 < i_count i
      \<and> p \<in> set (inode_hash_table s ! inode_hashfn (i_nr i))" using h by (elim conjE)
  with p show "p < next_addr s" "0 < i_count i"
    "p \<in> set (inode_hash_table s ! inode_hashfn (i_nr i))" by blast+
next
  note h = assms [unfolded hash_inv_def]
  fix h assume "h < (256 :: nat)"
  then show "distinct (inode_hash_table s ! h)" using h by blast
next
  note h = assms [unfolded hash_inv_def]
  fix h p assume "h < (256 :: nat)" "p \<in> set (inode_hash_table s ! h)"
  then show "\<exists>i. iheap s p = Some i \<and> inode_hashfn (i_nr i) = h" using h by blast
next
  note h = assms [unfolded hash_inv_def]
  fix p q i j assume "iheap s p = Some i" "iheap s q = Some j" "i_nr i = i_nr j"
  then show "p = q" using h by blast
qed

lemma inode_hashfn_bound [simp]: "inode_hashfn nr < 256"
proof -
  let ?x = "u32 (u32 nr * 0x9e370001)"
  have "?x < 2 ^ 32" "0 \<le> ?x" by (rule u32_range)+
  then have "?x div 2 ^ 24 < 256" by simp
  then show ?thesis by (simp add: inode_hashfn_def hash_int_def)
qed

lemma hash_inv_cong:
  "inode_hash_table s' = inode_hash_table s \<Longrightarrow> iheap s' = iheap s \<Longrightarrow> next_addr s' = next_addr s \<Longrightarrow>
   hash_inv s' = hash_inv s"
  by (simp add: hash_inv_def)

lemma hash_inv_init: "inode_hash_init s = Inr s' \<Longrightarrow> iheap s = Map.empty \<Longrightarrow> hash_inv s'"
  by (auto simp: inode_hash_init_def hash_inv_def split: if_splits)

lemma bucket_find_spec:
  assumes "\<forall>p \<in> set ps. iheap s p \<noteq> None"
  shows "bucket_find ps nr s = Inr (find (\<lambda>p. inode_key s p = Some nr) ps)"
  using assms by (induction ps) (auto simp: inode_key_def)

lemma inode_hash_find_spec:
  assumes "hash_inv s"
  shows "inode_hash_find nr s =
    Inr (find (\<lambda>p. inode_key s p = Some nr) (inode_hash_table s ! inode_hashfn nr))"
proof -
  have "\<forall>p \<in> set (inode_hash_table s ! inode_hashfn nr). iheap s p \<noteq> None"
    using hash_bucket [OF assms inode_hashfn_bound] by (metis option.distinct(1))
  with hash_len [OF assms] show ?thesis by (simp add: inode_hash_find_def bucket_find_spec)
qed

section \<open>The interface: lookup by key\<close>

locale key_table =
  fixes inv :: "'s \<Rightarrow> bool" and key :: "'s \<Rightarrow> 'p \<Rightarrow> 'k option"
    and lookup :: "'k \<Rightarrow> 's \<Rightarrow> 'p option result"
  assumes lookup_total: "inv s \<Longrightarrow> \<exists>r. lookup k s = Inr r"
    and lookup_Some: "inv s \<Longrightarrow> lookup k s = Inr (Some p) \<longleftrightarrow> key s p = Some k"
begin

lemma key_inj: "inv s \<Longrightarrow> key s p = Some k \<Longrightarrow> key s q = Some k \<Longrightarrow> p = q"
  using lookup_Some by (metis option.inject sum.inject(2))

lemma lookup_None: "inv s \<Longrightarrow> lookup k s = Inr None \<longleftrightarrow> (\<forall>p. key s p \<noteq> Some k)"
  using lookup_total [of s k] lookup_Some [of s k] by (metis option.exhaust option.distinct(1) sum.inject(2))

lemma lookup_cases:
  assumes "inv s"
  obtains (hit) p where "lookup k s = Inr (Some p)" "key s p = Some k"
  | (miss) "lookup k s = Inr None" "\<And>p. key s p \<noteq> Some k"
  using lookup_total [OF assms, of k] lookup_Some [OF assms, of k] lookup_None [OF assms, of k]
  by (metis option.exhaust)

end

interpretation it: key_table hash_inv inode_key inode_hash_find
proof unfold_locales
  fix s k p assume s: "hash_inv s"
  show "\<exists>r. inode_hash_find k s = Inr r" using inode_hash_find_spec [OF s] by blast
  let ?b = "inode_hash_table s ! inode_hashfn k"
  have in_bucket: "q \<in> set ?b" if "inode_key s q = Some k" for q
    using hash_live(3) [OF s] that by (auto simp: inode_key_def)
  have unique: "q = p" if "inode_key s q = Some k" "inode_key s p = Some k" for q
    using hash_inj [OF s] that by (auto simp: inode_key_def)
  show "inode_hash_find k s = Inr (Some p) \<longleftrightarrow> inode_key s p = Some k"
  proof
    assume "inode_key s p = Some k"
    then have "find (\<lambda>p. inode_key s p = Some k) ?b \<noteq> None" using in_bucket by (auto simp: find_None_iff)
    then obtain q where q: "find (\<lambda>p. inode_key s p = Some k) ?b = Some q" by blast
    then have "inode_key s q = Some k" by (auto simp: find_Some_iff)
    with q unique \<open>inode_key s p = Some k\<close> show "inode_hash_find k s = Inr (Some p)"
      by (simp add: inode_hash_find_spec [OF s])
  qed (auto simp: inode_hash_find_spec [OF s] find_Some_iff)
qed

section \<open>Changing the table\<close>

text \<open>\<open>add_inode\<close> is what \<open>testfs_get_inode\<close> has done once a new inode is hashed.\<close>

definition add_inode :: "inode \<Rightarrow> fs \<Rightarrow> fs" where
  "add_inode i s = s\<lparr>iheap := (iheap s)(next_addr s \<mapsto> i), next_addr := Suc (next_addr s),
     inode_hash_table := (inode_hash_table s)[inode_hashfn (i_nr i) :=
        next_addr s # inode_hash_table s ! inode_hashfn (i_nr i)]\<rparr>"

definition drop_inode :: "nat \<Rightarrow> fs \<Rightarrow> fs" where
  "drop_inode p s = s\<lparr>inode_hash_table := map (remove1 p) (inode_hash_table s),
     iheap := (iheap s)(p := None)\<rparr>"

definition set_inode :: "nat \<Rightarrow> inode \<Rightarrow> fs \<Rightarrow> fs" where
  "set_inode p i s = s\<lparr>iheap := (iheap s)(p \<mapsto> i)\<rparr>"

lemma set_inode_simps [simp]:
  "dev (set_inode p i s) = dev s" "sb (set_inode p i s) = sb s" "malloc_ok (set_inode p i s) = malloc_ok s"
  "inode_freemap (set_inode p i s) = inode_freemap s" "block_freemap (set_inode p i s) = block_freemap s"
  "out (set_inode p i s) = out s" "next_addr (set_inode p i s) = next_addr s"
  "inode_hash_table (set_inode p i s) = inode_hash_table s"
  "iheap (set_inode p i s) = (iheap s)(p \<mapsto> i)"
  by (simp_all add: set_inode_def)

lemma add_inode_simps [simp]:
  "dev (add_inode i s) = dev s" "sb (add_inode i s) = sb s" "malloc_ok (add_inode i s) = malloc_ok s"
  "inode_freemap (add_inode i s) = inode_freemap s" "block_freemap (add_inode i s) = block_freemap s"
  "out (add_inode i s) = out s" "iheap (add_inode i s) = (iheap s)(next_addr s \<mapsto> i)"
  by (simp_all add: add_inode_def)

lemma drop_inode_simps [simp]:
  "dev (drop_inode p s) = dev s" "sb (drop_inode p s) = sb s" "malloc_ok (drop_inode p s) = malloc_ok s"
  "inode_freemap (drop_inode p s) = inode_freemap s" "block_freemap (drop_inode p s) = block_freemap s"
  "out (drop_inode p s) = out s" "iheap (drop_inode p s) = (iheap s)(p := None)"
  by (simp_all add: drop_inode_def)

lemma hash_inv_fresh: "hash_inv s \<Longrightarrow> iheap s (next_addr s) = None"
  using hash_live(1) [of s "next_addr s"] by (cases "iheap s (next_addr s)") auto

lemma hash_inv_add:
  assumes s: "hash_inv s" and new: "\<And>p. inode_key s p \<noteq> Some (i_nr i)" and cnt: "0 < i_count i"
  shows "hash_inv (add_inode i s)"
proof -
  let ?n = "next_addr s" and ?h = "inode_hashfn (i_nr i)" and ?s = "add_inode i s"
  have fresh: "iheap s ?n = None" by (rule hash_inv_fresh [OF s])
  have out: "?n \<notin> set (inode_hash_table s ! h)" if "h < 256" for h
    using hash_bucket [OF s that, of ?n] fresh by auto
  have heap: "iheap ?s p = (if p = ?n then Some i else iheap s p)" for p
    by (simp add: add_inode_def)
  have nxt: "next_addr ?s = Suc (next_addr s)" by (simp add: add_inode_def)
  have bucket: "inode_hash_table ?s ! h =
      (if h = ?h then ?n # inode_hash_table s ! h else inode_hash_table s ! h)" for h
    using hash_len [OF s] by (simp add: add_inode_def nth_list_update)
  show ?thesis
  proof (rule hash_invI)
    show "length (inode_hash_table ?s) = 256" using hash_len [OF s] by (simp add: add_inode_def)
  next
    fix p j assume "iheap ?s p = Some j"
    then have "p = ?n \<and> j = i \<or> p \<noteq> ?n \<and> iheap s p = Some j" by (simp add: heap split: if_splits)
    with hash_live [OF s, of p j] cnt show "p < next_addr ?s" "0 < i_count j"
      "p \<in> set (inode_hash_table ?s ! inode_hashfn (i_nr j))"
      by (auto simp: bucket nxt less_Suc_eq)
  next
    fix h assume "h < (256 :: nat)"
    with out hash_distinct [OF s, of h] show "distinct (inode_hash_table ?s ! h)"
      by (auto simp: bucket)
  next
    fix h p assume "h < (256 :: nat)" "p \<in> set (inode_hash_table ?s ! h)"
    then have "p = ?n \<and> h = ?h \<or> p \<noteq> ?n \<and> p \<in> set (inode_hash_table s ! h)"
      using out by (auto simp: bucket split: if_splits)
    with hash_bucket [OF s \<open>h < 256\<close>, of p]
    show "\<exists>j. iheap ?s p = Some j \<and> inode_hashfn (i_nr j) = h" by (auto simp: heap)
  next
    fix p q j k assume a: "iheap ?s p = Some j" "iheap ?s q = Some k" "i_nr j = i_nr k"
    show "p = q"
    proof (cases "p = ?n \<or> q = ?n")
      case True
      with a new [of p] new [of q] show ?thesis by (auto simp: heap inode_key_def split: if_splits)
    next
      case False
      with a hash_inj [OF s, of p j q k] show ?thesis by (simp add: heap)
    qed
  qed
qed

lemma hash_inv_drop:
  assumes s: "hash_inv s"
  shows "hash_inv (drop_inode p s)"
proof -
  let ?s = "drop_inode p s"
  have bucket: "inode_hash_table ?s ! h = remove1 p (inode_hash_table s ! h)" if "h < 256" for h
    using hash_len [OF s] that by (simp add: drop_inode_def)
  have heap: "iheap ?s q = Some i \<longleftrightarrow> q \<noteq> p \<and> iheap s q = Some i" for q i
    by simp
  have mem: "q \<in> set (inode_hash_table ?s ! h) \<longleftrightarrow> q \<noteq> p \<and> q \<in> set (inode_hash_table s ! h)"
    if "h < 256" for h q
    using hash_distinct [OF s that] by (auto simp: bucket [OF that])
  show ?thesis
  proof (rule hash_invI)
    show "length (inode_hash_table ?s) = 256" using hash_len [OF s] by (simp add: drop_inode_def)
  next
    fix q i assume "iheap ?s q = Some i"
    then have q: "q \<noteq> p" "iheap s q = Some i" unfolding heap by simp_all
    with hash_live [OF s q(2)] show "q < next_addr ?s" "0 < i_count i"
      "q \<in> set (inode_hash_table ?s ! inode_hashfn (i_nr i))"
      by (simp_all add: mem del: drop_inode_simps) (simp add: drop_inode_def)
  next
    fix h assume "h < (256 :: nat)"
    then show "distinct (inode_hash_table ?s ! h)"
      using hash_distinct [OF s, of h] by (simp add: bucket distinct_remove1)
  next
    fix h q assume "h < (256 :: nat)" "q \<in> set (inode_hash_table ?s ! h)"
    with hash_bucket [OF s, of h q] show "\<exists>i. iheap ?s q = Some i \<and> inode_hashfn (i_nr i) = h"
      unfolding heap by (simp add: mem)
  next
    fix q r i j assume "iheap ?s q = Some i" "iheap ?s r = Some j" "i_nr i = i_nr j"
    with hash_inj [OF s, of q i r j] show "q = r" unfolding heap by simp
  qed
qed

lemma hash_inv_set:
  assumes s: "hash_inv s" and p: "iheap s p = Some i" "i_nr j = i_nr i" "0 < i_count j"
  shows "hash_inv (set_inode p j s)"
proof -
  let ?s = "set_inode p j s"
  have old: "\<exists>k'. iheap s q = Some k' \<and> i_nr k' = i_nr k \<and> 0 < i_count k"
    if "iheap ?s q = Some k" for q k
    using that p hash_live(2) [OF s] by (cases "q = p") (auto simp: set_inode_def)
  have table: "inode_hash_table ?s = inode_hash_table s" "next_addr ?s = next_addr s"
    by (simp_all add: set_inode_def)
  show ?thesis
  proof (rule hash_invI; (unfold table)?)
    show "length (inode_hash_table s) = 256" by (rule hash_len [OF s])
  next
    fix q k assume "iheap ?s q = Some k"
    with old hash_live [OF s, of q] show "q < next_addr s" "0 < i_count k"
      "q \<in> set (inode_hash_table s ! inode_hashfn (i_nr k))" by metis+
  next
    fix h assume "h < (256 :: nat)"
    then show "distinct (inode_hash_table s ! h)" by (rule hash_distinct [OF s])
  next
    fix h q assume "h < (256 :: nat)" "q \<in> set (inode_hash_table s ! h)"
    from hash_bucket [OF s this] p show "\<exists>i. iheap ?s q = Some i \<and> inode_hashfn (i_nr i) = h"
      by (cases "q = p") (auto simp: set_inode_def)
  next
    fix q r k l assume "iheap ?s q = Some k" "iheap ?s r = Some l" "i_nr k = i_nr l"
    with old hash_inj [OF s] show "q = r" by metis
  qed
qed

lemma inode_hash_remove_live:
  assumes "hash_inv s" "iheap s p = Some i"
  shows "inode_hash_remove p s = Inr (s\<lparr>inode_hash_table := map (remove1 p) (inode_hash_table s)\<rparr>)"
proof -
  have "list_ex (\<lambda>b. p \<in> set b) (inode_hash_table s)"
    using hash_live(3) [OF assms] hash_len [OF assms(1)] inode_hashfn_bound
    unfolding list_ex_length by metis
  then show ?thesis by (simp add: inode_hash_remove_def)
qed

lemma inode_hash_insert_new:
  assumes "length (inode_hash_table s) = 256" "iheap s p = Some i"
  shows "inode_hash_insert p s = Inr (s\<lparr>inode_hash_table := (inode_hash_table s)
    [inode_hashfn (i_nr i) := p # inode_hash_table s ! inode_hashfn (i_nr i)]\<rparr>)"
  using assms by (simp add: inode_hash_insert_def)

text \<open>The table can be destroyed exactly when every inode has been put back.\<close>

lemma inode_hash_destroy_iff:
  assumes "hash_inv s"
  shows "inode_hash_destroy s =
    (if iheap s = Map.empty then Inr (s\<lparr>inode_hash_table := []\<rparr>) else Inl AssertFailed)"
proof -
  note len = hash_len [OF assms]
  then have ne: "inode_hash_table s \<noteq> []" by auto
  have "list_all (\<lambda>b. b = []) (inode_hash_table s) \<longleftrightarrow> iheap s = Map.empty"
  proof
    assume all: "list_all (\<lambda>b. b = []) (inode_hash_table s)"
    show "iheap s = Map.empty"
    proof
      fix p
      show "iheap s p = None"
      proof (cases "iheap s p")
        case (Some i)
        from hash_live(3) [OF assms this] all len show ?thesis
          by (auto simp: list_all_length)
      qed
    qed
  next
    assume e: "iheap s = Map.empty"
    have "inode_hash_table s ! h = []" if "h < 256" for h
      using hash_bucket [OF assms that, of "hd (inode_hash_table s ! h)"] e
      by (cases "inode_hash_table s ! h") auto
    with len show "list_all (\<lambda>b. b = []) (inode_hash_table s)"
      by (simp add: list_all_length)
  qed
  with ne show ?thesis by (simp add: inode_hash_destroy_def)
qed

end
