(* ===== verification/Super.thy ===== *)
theory Super
  imports InodeHash
begin

text \<open>
  \<open>src/fs/super.c\<close>: the super block and the two freemaps, in memory and on disk.  The invariant
  \<open>super_inv\<close> says that the layout is the one \<open>testfs_make_super_block\<close> lays down, that the two
  counters are the sizes of the freemaps, and that the disk mirrors the memory: every operation
  writes back what it changed.  The locale \<open>resource\<close> is the interface the inode layer uses,
  interpreted on the blocks and on the inode numbers.
\<close>

section \<open>The code\<close>

abbreviation (input) BITS_PER_WORD :: int where "BITS_PER_WORD \<equiv> 8"
abbreviation (input) sizeof_super_block :: nat where "sizeof_super_block \<equiv> 56"

definition testfs_write_super_block :: "fs \<Rightarrow> fs result" where
  "testfs_write_super_block s =
     bindr (memcpy (replicate BLOCK_SIZE 0) 0 (enc_dsuper (sb s)) 0 (int sizeof_dsuper_block)) (\<lambda>block.
     write_blocks block 0 1 s)"

text \<open>\<open>freemap + off\<close>, as the argument of a block write.\<close>

definition buf_at :: "byte list \<Rightarrow> int \<Rightarrow> byte list result" where
  "buf_at buf off = (if 0 \<le> off \<and> off \<le> int (length buf) then Inr (drop (nat off) buf)
                     else Inl OutOfBounds)"

definition not_null :: "'a option \<Rightarrow> 'a result" where
  "not_null x = (case x of None \<Rightarrow> Inl AssertFailed | Some y \<Rightarrow> Inr y)"

definition testfs_write_inode_freemap :: "int \<Rightarrow> fs \<Rightarrow> fs result" where
  "testfs_write_inode_freemap inode_nr s =
     bindr (not_null (inode_freemap s)) (\<lambda>b.
     let freemap = bitmap_getdata b; nr = inode_nr sdiv (int BLOCK_SIZE * BITS_PER_WORD) in
     bindr (buf_at freemap (nr * int BLOCK_SIZE)) (\<lambda>buf.
     write_blocks buf (u32 (inode_freemap_start (sb s) + nr)) 1 s))"

definition testfs_write_block_freemap :: "int \<Rightarrow> fs \<Rightarrow> fs result" where
  "testfs_write_block_freemap block_nr s =
     bindr (not_null (block_freemap s)) (\<lambda>b.
     let freemap = bitmap_getdata b; nr = block_nr sdiv (int BLOCK_SIZE * BITS_PER_WORD) in
     bindr (buf_at freemap (nr * int BLOCK_SIZE)) (\<lambda>buf.
     write_blocks buf (u32 (block_freemap_start (sb s) + nr)) 1 s))"

text \<open>The C variable \<open>index\<close> is only read when \<open>bitmap_alloc\<close> has set it.\<close>

definition testfs_get_block_freemap :: "fs \<Rightarrow> (int \<times> fs) result" where
  "testfs_get_block_freemap s =
     bindr (not_null (block_freemap s)) (\<lambda>b.
     bindr (bitmap_alloc b) (\<lambda>(ret, index, b').
     let s1 = s\<lparr>block_freemap := Some b'\<rparr> in
     if ret < 0 then Inr (ret, s1)
     else case index of None \<Rightarrow> Inl OutOfBounds
     | Some i \<Rightarrow> bindr (testfs_write_block_freemap (s32 i) s1) (\<lambda>s2. Inr (s32 i, s2))))"

definition testfs_put_block_freemap :: "int \<Rightarrow> fs \<Rightarrow> fs result" where
  "testfs_put_block_freemap block_nr s =
     bindr (not_null (block_freemap s)) (\<lambda>b.
     bindr (bitmap_unmark b (u32 block_nr)) (\<lambda>b'.
     testfs_write_block_freemap block_nr (s\<lparr>block_freemap := Some b'\<rparr>)))"

definition testfs_get_dev :: "fs \<Rightarrow> byte list" where
  "testfs_get_dev s = dev s"

definition testfs_inode_blocks_start :: "fs \<Rightarrow> int" where
  "testfs_inode_blocks_start s = inode_blocks_start (sb s)"

definition fresh_fs :: "(nat \<Rightarrow> bool) \<Rightarrow> byte list \<Rightarrow> fs" where
  "fresh_fs mal d = \<lparr>sb = \<lparr>inode_freemap_start = 0, block_freemap_start = 0, inode_blocks_start = 0,
       data_blocks_start = 0, used_inode_count = 0, used_block_count = 0, max_fs_blocks = 0\<rparr>,
     dev = d, inode_freemap = None, block_freemap = None, inode_hash_table = [],
     iheap = Map.empty, next_addr = 1, malloc_ok = mal, out = []\<rparr>"

text \<open>\<open>fopen_ok\<close>: the file can be created; \<open>fopen(dev, "w")\<close> then makes it empty.\<close>

definition testfs_make_super_block :: "(nat \<Rightarrow> bool) \<Rightarrow> bool \<Rightarrow> int \<Rightarrow> fs result" where
  "testfs_make_super_block mal fopen_ok max_blocks =
     (if \<not> mal sizeof_super_block \<or> \<not> fopen_ok then Inl ExitFailure
      else
        let ifs = SUPER_BLOCK_SIZE;
            bfs = u32 (ifs + int INODE_FREEMAP_SIZE);
            ibs = u32 (bfs + int BLOCK_FREEMAP_SIZE);
            dbs = u32 (ibs + int NR_INODE_BLOCKS);
            s = fresh_fs mal []
        in bindr (testfs_write_super_block
             (s\<lparr>sb := \<lparr>inode_freemap_start = ifs, block_freemap_start = bfs, inode_blocks_start = ibs,
                       data_blocks_start = dbs, used_inode_count = 0, used_block_count = 0,
                       max_fs_blocks = max_blocks\<rparr>\<rparr>)) (\<lambda>s1.
           inode_hash_init s1))"

definition testfs_make_inode_freemap :: "fs \<Rightarrow> fs result" where
  "testfs_make_inode_freemap s = zero_blocks (inode_freemap_start (sb s)) INODE_FREEMAP_SIZE s"

definition testfs_make_block_freemap :: "fs \<Rightarrow> fs result" where
  "testfs_make_block_freemap s = zero_blocks (block_freemap_start (sb s)) BLOCK_FREEMAP_SIZE s"

definition testfs_make_inode_blocks :: "fs \<Rightarrow> fs result" where
  "testfs_make_inode_blocks s =
     (if BLOCK_SIZE * INODE_FREEMAP_SIZE * 8 < NR_INODE_BLOCKS * nat INODES_PER_BLOCK
      then Inl ExitFailure
      else bindr (c_assert (BLOCK_SIZE mod sizeof_dinode = 0)) (\<lambda>_.
           zero_blocks (inode_blocks_start (sb s)) NR_INODE_BLOCKS s))"

text \<open>
  \<open>file\<close> is what \<open>open\<close> gives: the contents of the file, or the \<open>errno\<close> of the failure.  The
  freemap buffers have exactly the size of the blocks read into them.
\<close>

definition testfs_init_super_block :: "(nat \<Rightarrow> bool) \<Rightarrow> int + byte list \<Rightarrow> (int \<times> fs option) result" where
  "testfs_init_super_block mal file =
     (if \<not> mal sizeof_super_block then Inr (- ENOMEM, None)
      else case file of Inl errno \<Rightarrow> Inr (errno, None)
      | Inr d \<Rightarrow>
          let s = fresh_fs mal d in
          bindr (read_blocks 0 1 s) (\<lambda>block.
          let s1 = s\<lparr>sb := dec_dsuper (take sizeof_dsuper_block block)\<rparr> in
          bindr (bitmap_create mal (int BLOCK_SIZE * int INODE_FREEMAP_SIZE * BITS_PER_WORD)) (\<lambda>(ret, ib).
          case ib of None \<Rightarrow> Inr (ret, None)
          | Some ib \<Rightarrow>
              bindr (read_blocks (inode_freemap_start (sb s1)) INODE_FREEMAP_SIZE s1) (\<lambda>ibits.
              bindr (bitmap_create mal (int BLOCK_SIZE * int BLOCK_FREEMAP_SIZE * BITS_PER_WORD)) (\<lambda>(ret, bb).
              case bb of None \<Rightarrow> Inr (ret, None)
              | Some bb \<Rightarrow>
                  bindr (read_blocks (block_freemap_start (sb s1)) BLOCK_FREEMAP_SIZE s1) (\<lambda>bbits.
                  bindr (inode_hash_init (s1\<lparr>inode_freemap := Some (ib\<lparr>v := ibits\<rparr>),
                                            block_freemap := Some (bb\<lparr>v := bbits\<rparr>)\<rparr>)) (\<lambda>s2.
                  Inr (0, Some s2))))))))"

text \<open>The in-memory super block is gone after this; the result is the file that is left.\<close>

definition testfs_close_super_block :: "fs \<Rightarrow> byte list result" where
  "testfs_close_super_block s =
     bindr (testfs_write_super_block s) (\<lambda>s1.
     bindr (inode_hash_destroy s1) (\<lambda>s2.
     bindr (case inode_freemap s2 of None \<Rightarrow> Inr s2
            | Some b \<Rightarrow> bindr (write_blocks (bitmap_getdata b) (inode_freemap_start (sb s2))
                                INODE_FREEMAP_SIZE s2) (\<lambda>s'. Inr (s'\<lparr>inode_freemap := None\<rparr>))) (\<lambda>s3.
     bindr (case block_freemap s3 of None \<Rightarrow> Inr s3
            | Some b \<Rightarrow> bindr (write_blocks (bitmap_getdata b) (block_freemap_start (sb s3))
                                BLOCK_FREEMAP_SIZE s3) (\<lambda>s'. Inr (s'\<lparr>block_freemap := None\<rparr>))) (\<lambda>s4.
     Inr (dev s4)))))"

definition testfs_get_inode_freemap :: "fs \<Rightarrow> (int \<times> fs) result" where
  "testfs_get_inode_freemap s =
     bindr (not_null (inode_freemap s)) (\<lambda>b.
     bindr (bitmap_alloc b) (\<lambda>(ret, index, b').
     let s1 = s\<lparr>inode_freemap := Some b'\<rparr> in
     if ret < 0 then Inr (ret, s1)
     else case index of None \<Rightarrow> Inl OutOfBounds
     | Some i \<Rightarrow>
         bindr (testfs_write_inode_freemap (s32 i) s1) (\<lambda>s2.
         bindr (testfs_write_super_block
           (s2\<lparr>sb := (sb s2)\<lparr>used_inode_count := u32 (used_inode_count (sb s2) + 1)\<rparr>\<rparr>)) (\<lambda>s3.
         Inr (s32 i, s3)))))"

definition testfs_put_inode_freemap :: "int \<Rightarrow> fs \<Rightarrow> fs result" where
  "testfs_put_inode_freemap inode_nr s =
     bindr (not_null (inode_freemap s)) (\<lambda>b.
     bindr (bitmap_unmark b (u32 inode_nr)) (\<lambda>b'.
     bindr (testfs_write_inode_freemap inode_nr (s\<lparr>inode_freemap := Some b'\<rparr>)) (\<lambda>s1.
     bindr (c_assert (used_inode_count (sb s1) > 0)) (\<lambda>_.
     testfs_write_super_block
       (s1\<lparr>sb := (sb s1)\<lparr>used_inode_count := used_inode_count (sb s1) - 1\<rparr>\<rparr>)))))"

definition testfs_alloc_block :: "fs \<Rightarrow> (int \<times> fs) result" where
  "testfs_alloc_block s =
     (if used_block_count (sb s) \<ge> max_fs_blocks (sb s) then Inr (- ENOSPC, s)
      else bindr (testfs_get_block_freemap s) (\<lambda>(phy_block_nr, s1).
        if phy_block_nr < 0 then Inr (phy_block_nr, s1)
        else bindr (testfs_write_super_block
               (s1\<lparr>sb := (sb s1)\<lparr>used_block_count := u32 (used_block_count (sb s1) + 1)\<rparr>\<rparr>)) (\<lambda>s2.
             Inr (s32 (data_blocks_start (sb s2) + phy_block_nr), s2))))"

definition testfs_free_block :: "int \<Rightarrow> fs \<Rightarrow> (int \<times> fs) result" where
  "testfs_free_block block_nr s =
     bindr (zero_blocks block_nr 1 s) (\<lambda>s1.
     let block_nr = s32 (block_nr - data_blocks_start (sb s1)) in
     bindr (c_assert (block_nr \<ge> 0)) (\<lambda>_.
     bindr (testfs_put_block_freemap block_nr s1) (\<lambda>s2.
     bindr (c_assert (used_block_count (sb s2) > 0)) (\<lambda>_.
     bindr (testfs_write_super_block
       (s2\<lparr>sb := (sb s2)\<lparr>used_block_count := used_block_count (sb s2) - 1\<rparr>\<rparr>)) (\<lambda>s3.
     Inr (0, s3))))))"

definition cmd_fsstat :: "cmd_context \<Rightarrow> fs \<Rightarrow> (int \<times> fs) result" where
  "cmd_fsstat c s =
     (if nargs c \<noteq> 1 then Inr (- EINVAL, s)
      else Inr (0, s\<lparr>out := out s @ [OutInt (used_inode_count (sb s)), OutInt (used_block_count (sb s))]\<rparr>))"

section \<open>The invariant\<close>

definition sblk :: "dsuper_block \<Rightarrow> byte list" where
  "sblk d = enc_dsuper d @ replicate (BLOCK_SIZE - 32) 0"

definition layout_ok :: "dsuper_block \<Rightarrow> bool" where
  "layout_ok d \<longleftrightarrow> inode_freemap_start d = 1 \<and> block_freemap_start d = 2
     \<and> inode_blocks_start d = 18 \<and> data_blocks_start d = 146"

abbreviation (input) nr_inodes_max :: int where "nr_inodes_max \<equiv> 65536"
abbreviation (input) nr_blocks_max :: int where "nr_blocks_max \<equiv> 1048576"

definition freemap_ok :: "byte list \<Rightarrow> nat \<Rightarrow> nat \<Rightarrow> bitmap option \<Rightarrow> bool" where
  "freemap_ok d st n bo \<longleftrightarrow>
     (case bo of None \<Rightarrow> False
      | Some b \<Rightarrow> bm_wf b \<and> nbits b = int (n * BLOCK_SIZE * 8) \<and> mirror d st n (v b))"

definition set_of :: "bitmap option \<Rightarrow> nat set" where
  "set_of bo = (case bo of None \<Rightarrow> {} | Some b \<Rightarrow> bm_set b)"

definition super_inv :: "fs \<Rightarrow> bool" where
  "super_inv s \<longleftrightarrow> layout_ok (sb s)
     \<and> freemap_ok (dev s) 1 INODE_FREEMAP_SIZE (inode_freemap s)
     \<and> freemap_ok (dev s) 2 BLOCK_FREEMAP_SIZE (block_freemap s)
     \<and> used_inode_count (sb s) = int (card (set_of (inode_freemap s)))
     \<and> used_block_count (sb s) = int (card (set_of (block_freemap s)))
     \<and> used_block_count (sb s) \<le> max_fs_blocks (sb s) \<and> max_fs_blocks (sb s) \<le> nr_blocks_max
     \<and> dblk (dev s) 0 = sblk (sb s)
     \<and> 146 * BLOCK_SIZE \<le> length (dev s)"

text \<open>The numbers of the inodes in use, and the device blocks in use for data.\<close>

definition iused :: "fs \<Rightarrow> nat set" where
  "iused s = set_of (inode_freemap s)"

definition bused :: "fs \<Rightarrow> nat set" where
  "bused s = (\<lambda>i. 146 + i) ` set_of (block_freemap s)"

text \<open>What the operations of this file do not touch.\<close>

definition same_mem :: "fs \<Rightarrow> fs \<Rightarrow> bool" where
  "same_mem s s' \<longleftrightarrow> inode_hash_table s' = inode_hash_table s \<and> iheap s' = iheap s
     \<and> next_addr s' = next_addr s \<and> malloc_ok s' = malloc_ok s \<and> out s' = out s
     \<and> max_fs_blocks (sb s') = max_fs_blocks (sb s)"

text \<open>Blocks that were readable still are, and blocks outside \<open>B\<close> past the freemaps are unchanged.\<close>

definition dev_frame :: "nat set \<Rightarrow> fs \<Rightarrow> fs \<Rightarrow> bool" where
  "dev_frame B s s' \<longleftrightarrow> (\<forall>c. readable (dev s) c \<longrightarrow> readable (dev s') c)
     \<and> (\<forall>c \<ge> 18. c \<notin> B \<longrightarrow> dblk (dev s') c = dblk (dev s) c)"

lemma same_mem_refl [simp]: "same_mem s s"
  by (simp add: same_mem_def)

lemma same_mem_trans: "same_mem s t \<Longrightarrow> same_mem t u \<Longrightarrow> same_mem s u"
  by (simp add: same_mem_def)

lemma dev_frame_refl [simp]: "dev_frame B s s"
  by (simp add: dev_frame_def)

lemma dev_frame_trans: "dev_frame A s t \<Longrightarrow> dev_frame B t u \<Longrightarrow> dev_frame (A \<union> B) s u"
  by (simp add: dev_frame_def)

lemma dev_frame_mono: "dev_frame A s t \<Longrightarrow> A \<subseteq> B \<Longrightarrow> dev_frame B s t"
  by (auto simp: dev_frame_def)

section \<open>Writing back\<close>

lemma block_size_32: "32 \<le> BLOCK_SIZE"
  by (simp add: BLOCK_SIZE_def)

lemma length_sblk [simp]: "length (sblk d) = BLOCK_SIZE"
  using block_size_32 by (simp add: sblk_def sbc.enc_length)

lemma write_super_eq: "testfs_write_super_block s = Inr (s\<lparr>dev := dput (dev s) 0 (sblk (sb s))\<rparr>)"
proof -
  have "memcpy (replicate BLOCK_SIZE 0) 0 (enc_dsuper (sb s)) 0 (int sizeof_dsuper_block)
      = Inr (sblk (sb s))"
    using memcpy_in [of 0 32 "replicate BLOCK_SIZE 0" 0 "enc_dsuper (sb s)"] block_size_32
    by (simp add: sblk_def sbc.enc_length)
  then show ?thesis
    using write_block [of "sblk (sb s)" 0 s] by (simp add: testfs_write_super_block_def)
qed

lemma sdiv_int: "int a sdiv int b = int (a div b)"
  by (cases "a = 0"; cases "b = 0") (simp_all add: signed_divide_int_def zdiv_int)

lemma freemap_block: "int i sdiv (int BLOCK_SIZE * 8) = int (i div 8 div BLOCK_SIZE)"
  using sdiv_int [of i "BLOCK_SIZE * 8"] by (simp add: div_mult2_eq [symmetric] mult.commute)

lemma write_freemap:
  assumes "length vs = n * BLOCK_SIZE" "j < length vs" "st + n < 1000"
  shows "bindr (buf_at vs (int (j div BLOCK_SIZE) * int BLOCK_SIZE)) (\<lambda>buf.
      write_blocks buf (u32 (int st + int (j div BLOCK_SIZE))) 1 s)
    = Inr (s\<lparr>dev := dput (dev s) (st + j div BLOCK_SIZE) (chunk vs (j div BLOCK_SIZE))\<rparr>)"
proof -
  let ?k = "j div BLOCK_SIZE"
  have k: "?k < n" using assms by (simp add: less_mult_imp_div_less)
  have e: "?k * BLOCK_SIZE + BLOCK_SIZE \<le> length vs" by (rule chunk_end [OF k assms(1)])
  have "buf_at vs (int ?k * int BLOCK_SIZE) = Inr (drop (?k * BLOCK_SIZE) vs)"
    using e nat_block_pos [of ?k] unfolding buf_at_def
    by (simp flip: of_nat_mult)
  moreover have "u32 (int st + int ?k) = int (st + ?k)"
    using k assms(3) by (subst u32_id) auto
  moreover have "BLOCK_SIZE \<le> length (drop (?k * BLOCK_SIZE) vs)" using e by simp
  ultimately show ?thesis
    using write_block_prefix [of "drop (?k * BLOCK_SIZE) vs" "st + ?k" s]
    by (simp add: chunk_def)
qed

text \<open>The disk after bit \<open>i\<close> of a freemap has changed and its block has been written back.\<close>

definition fm_put :: "byte list \<Rightarrow> nat \<Rightarrow> nat \<Rightarrow> byte list \<Rightarrow> byte list" where
  "fm_put d st i vs = dput d (st + i div 8 div BLOCK_SIZE) (chunk vs (i div 8 div BLOCK_SIZE))"

lemma freemap_bound:
  assumes "bm_wf b" "nbits b = int (n * BLOCK_SIZE * 8)" "i < nat (nbits b)"
  shows "length (v b) = n * BLOCK_SIZE" "i div 8 < length (v b)" "i div 8 div BLOCK_SIZE < n"
proof -
  show l: "length (v b) = n * BLOCK_SIZE"
    using assms(1,2) unfolding bm_wf_def by (simp add: nat_block_pos)
  show k: "i div 8 < length (v b)" by (rule bm_wf_index [OF assms(1,3)])
  show "i div 8 div BLOCK_SIZE < n" using l k by (simp add: less_mult_imp_div_less)
qed

lemma write_inode_freemap_eq:
  assumes "layout_ok (sb s)" "inode_freemap s = Some b" "bm_wf b" "nbits b = int (1 * BLOCK_SIZE * 8)"
    "i < nat (nbits b)"
  shows "testfs_write_inode_freemap (int i) s = Inr (s\<lparr>dev := fm_put (dev s) 1 i (v b)\<rparr>)"
  using assms freemap_bound [OF assms(3-5)] write_freemap [of "v b" 1 "i div 8" 1 s]
  by (simp add: testfs_write_inode_freemap_def not_null_def bitmap_getdata_def freemap_block
      layout_ok_def fm_put_def Let_def)

lemma write_block_freemap_eq:
  assumes "layout_ok (sb s)" "block_freemap s = Some b" "bm_wf b" "nbits b = int (16 * BLOCK_SIZE * 8)"
    "i < nat (nbits b)"
  shows "testfs_write_block_freemap (int i) s = Inr (s\<lparr>dev := fm_put (dev s) 2 i (v b)\<rparr>)"
  using assms freemap_bound [OF assms(3-5)] write_freemap [of "v b" 16 "i div 8" 2 s]
  by (simp add: testfs_write_block_freemap_def not_null_def bitmap_getdata_def freemap_block
      layout_ok_def fm_put_def Let_def)

lemma dblk_fm_put:
  assumes "length vs = n * BLOCK_SIZE" "i div 8 < length vs"
  shows "dblk (fm_put d st i vs) c =
    (if c = st + i div 8 div BLOCK_SIZE then chunk vs (i div 8 div BLOCK_SIZE) else dblk d c)"
  using assms by (simp add: fm_put_def dblk_dput length_chunk [of _ n] less_mult_imp_div_less)

lemma readable_fm_put: "readable d c \<Longrightarrow> readable (fm_put d st i vs) c"
  by (simp add: fm_put_def readable_dput_mono)

lemma length_fm_put: "length d \<le> length (fm_put d st i vs)"
  by (simp add: fm_put_def length_dput)

lemma bits_at_form:
  "v (set_bit_at b i) = (v b)[i div 8 := v b ! (i div 8) OR push_bit (i mod 8) 1]"
  "v (clear_bit_at b i) = (v b)[i div 8 := v b ! (i div 8) AND NOT (push_bit (i mod 8) 1)]"
  by (simp_all add: set_bit_at_def clear_bit_at_def)

lemma freemap_ok_put:
  assumes ok: "freemap_ok d st n (Some b)" and i: "i < nat (nbits b)"
    and b': "b' = set_bit_at b i \<or> b' = clear_bit_at b i"
  shows "freemap_ok (fm_put d st i (v b')) st n (Some b')"
proof -
  from ok have b: "bm_wf b" "nbits b = int (n * BLOCK_SIZE * 8)" "mirror d st n (v b)"
    by (simp_all add: freemap_ok_def)
  have j: "i div 8 < length (v b)" by (rule bm_wf_index [OF b(1) i])
  have "bm_wf b' \<and> nbits b' = nbits b"
    using b' set_bit_at [OF b(1) i] clear_bit_at [OF b(1) i] by blast
  moreover obtain x where "v b' = (v b)[i div 8 := x]" using b' bits_at_form by metis
  moreover have "mirror (fm_put d st i ((v b)[i div 8 := x])) st n ((v b)[i div 8 := x])" for x
    using mirror_update [OF b(3) j] by (simp add: fm_put_def)
  ultimately show ?thesis using b by (simp add: freemap_ok_def)
qed

lemma freemap_ok_frame:
  "freemap_ok d st n bo \<Longrightarrow> (\<And>k. st \<le> k \<Longrightarrow> k < st + n \<Longrightarrow> dblk d' k = dblk d k) \<Longrightarrow>
   freemap_ok d' st n bo"
  by (auto simp: freemap_ok_def split: option.splits intro: mirror_other)

lemma freemap_put_length:
  assumes "freemap_ok d st n (Some b)" "i < nat (nbits b)" "b' = set_bit_at b i \<or> b' = clear_bit_at b i"
  shows "length (v b') = n * BLOCK_SIZE" "i div 8 < length (v b')" "i div 8 div BLOCK_SIZE < n"
  using freemap_bound [of b n i] assms bits_at_form [of b i]
  by (auto simp: freemap_ok_def)

text \<open>
  The state after one bit of the block (inode) freemap has changed, was written back, and the
  super block with its new counter was written back.
\<close>

definition block_bit :: "bitmap \<Rightarrow> nat \<Rightarrow> int \<Rightarrow> fs \<Rightarrow> fs" where
  "block_bit b' i cnt s = (let d = (sb s)\<lparr>used_block_count := cnt\<rparr> in
     s\<lparr>block_freemap := Some b', sb := d,
       dev := dput (fm_put (dev s) 2 i (v b')) 0 (sblk d)\<rparr>)"

definition inode_bit :: "bitmap \<Rightarrow> nat \<Rightarrow> int \<Rightarrow> fs \<Rightarrow> fs" where
  "inode_bit b' i cnt s = (let d = (sb s)\<lparr>used_inode_count := cnt\<rparr> in
     s\<lparr>inode_freemap := Some b', sb := d,
       dev := dput (fm_put (dev s) 1 i (v b')) 0 (sblk d)\<rparr>)"

lemma block_bit_inv:
  assumes s: "super_inv s" and b: "block_freemap s = Some b" and i: "i < nat (nbits b)"
    and b': "b' = set_bit_at b i \<or> b' = clear_bit_at b i"
    and cnt: "cnt = int (card (bm_set b'))" "cnt \<le> max_fs_blocks (sb s)"
  shows "super_inv (block_bit b' i cnt s)" "same_mem s (block_bit b' i cnt s)"
    "dev_frame {} s (block_bit b' i cnt s)" "iused (block_bit b' i cnt s) = iused s"
    "bused (block_bit b' i cnt s) = (\<lambda>i. 146 + i) ` bm_set b'"
proof -
  let ?s = "block_bit b' i cnt s"
  have ok: "freemap_ok (dev s) 2 16 (Some b)" using s b by (simp add: super_inv_def)
  note len = freemap_put_length [OF ok i b']
  have blk: "dblk (dev ?s) c = dblk (dev s) c" if "c = 1 \<or> 18 \<le> c" for c
    using that len by (auto simp: block_bit_def Let_def dblk_dput dblk_fm_put)
  have fm: "freemap_ok (dev ?s) 2 16 (Some b')"
    by (rule freemap_ok_frame [OF freemap_ok_put [OF ok i b']])
       (simp add: block_bit_def Let_def dblk_dput)
  have im: "freemap_ok (dev ?s) 1 1 (inode_freemap s)"
    by (rule freemap_ok_frame [of "dev s"]) (use s blk in \<open>auto simp: super_inv_def\<close>)
  have size: "length (dev s) \<le> length (dev ?s)"
    using length_fm_put by (simp add: block_bit_def Let_def length_dput le_max_iff_disj)
  show "super_inv ?s"
    using s fm im cnt size
    by (simp add: super_inv_def block_bit_def Let_def dblk_dput set_of_def layout_ok_def)
  show "same_mem s ?s" by (simp add: same_mem_def block_bit_def Let_def)
  show "dev_frame {} s ?s"
    using blk by (auto simp: dev_frame_def block_bit_def Let_def readable_dput_mono readable_fm_put)
  show "iused ?s = iused s" "bused ?s = (\<lambda>i. 146 + i) ` bm_set b'"
    by (simp_all add: iused_def bused_def block_bit_def Let_def set_of_def)
qed

lemma inode_bit_inv:
  assumes s: "super_inv s" and b: "inode_freemap s = Some b" and i: "i < nat (nbits b)"
    and b': "b' = set_bit_at b i \<or> b' = clear_bit_at b i"
    and cnt: "cnt = int (card (bm_set b'))"
  shows "super_inv (inode_bit b' i cnt s)" "same_mem s (inode_bit b' i cnt s)"
    "dev_frame {} s (inode_bit b' i cnt s)" "bused (inode_bit b' i cnt s) = bused s"
    "iused (inode_bit b' i cnt s) = bm_set b'"
proof -
  let ?s = "inode_bit b' i cnt s"
  have ok: "freemap_ok (dev s) 1 1 (Some b)" using s b by (simp add: super_inv_def)
  note len = freemap_put_length [OF ok i b']
  have blk: "dblk (dev ?s) c = dblk (dev s) c" if "2 \<le> c" for c
    using that len by (auto simp: inode_bit_def Let_def dblk_dput dblk_fm_put)
  have fm: "freemap_ok (dev ?s) 1 1 (Some b')"
    by (rule freemap_ok_frame [OF freemap_ok_put [OF ok i b']])
       (simp add: inode_bit_def Let_def dblk_dput)
  have im: "freemap_ok (dev ?s) 2 16 (block_freemap s)"
    by (rule freemap_ok_frame [of "dev s"]) (use s blk in \<open>auto simp: super_inv_def\<close>)
  have size: "length (dev s) \<le> length (dev ?s)"
    using length_fm_put by (simp add: inode_bit_def Let_def length_dput le_max_iff_disj)
  show "super_inv ?s"
    using s fm im cnt size
    by (simp add: super_inv_def inode_bit_def Let_def dblk_dput set_of_def layout_ok_def)
  show "same_mem s ?s" by (simp add: same_mem_def inode_bit_def Let_def)
  show "dev_frame {} s ?s"
    using blk by (auto simp: dev_frame_def inode_bit_def Let_def readable_dput_mono readable_fm_put)
  show "bused ?s = bused s" "iused ?s = bm_set b'"
    by (simp_all add: iused_def bused_def inode_bit_def Let_def set_of_def)
qed

section \<open>Allocating and freeing\<close>

lemma super_bitmaps:
  assumes "super_inv s"
  obtains ib bb where "inode_freemap s = Some ib" "bm_wf ib" "nbits ib = nr_inodes_max"
    "block_freemap s = Some bb" "bm_wf bb" "nbits bb = nr_blocks_max"
    "iused s = bm_set ib" "bused s = (\<lambda>i. 146 + i) ` bm_set bb"
    "used_inode_count (sb s) = int (card (bm_set ib))" "used_block_count (sb s) = int (card (bm_set bb))"
  using assms that
  by (auto simp: super_inv_def freemap_ok_def set_of_def iused_def bused_def BLOCK_SIZE_def
      split: option.splits)

lemma super_bits: "int (1 * BLOCK_SIZE * 8) = nr_inodes_max" "int (16 * BLOCK_SIZE * 8) = nr_blocks_max"
  by (simp_all add: BLOCK_SIZE_def)

lemma card_bits: "bm_wf b \<Longrightarrow> card (bm_set b) \<le> nat (nbits b)"
  by (rule bm.used_card)

lemma alloc_block_full:
  assumes "super_inv s" "int (card (bused s)) \<ge> max_fs_blocks (sb s)"
  shows "testfs_alloc_block s = Inr (- ENOSPC, s)"
proof -
  obtain bb where "bused s = (\<lambda>i. 146 + i) ` bm_set bb" "used_block_count (sb s) = int (card (bm_set bb))"
    by (rule super_bitmaps [OF assms(1)])
  with assms(2) show ?thesis by (simp add: testfs_alloc_block_def card_image)
qed

lemma alloc_block_free:
  assumes s: "super_inv s" and room: "int (card (bused s)) < max_fs_blocks (sb s)"
  shows "\<exists>b s'. testfs_alloc_block s = Inr (int b, s') \<and> b \<notin> bused s \<and> 146 \<le> b \<and> b < 146 + 1048576
    \<and> (\<forall>c. 146 \<le> c \<and> c < b \<longrightarrow> c \<in> bused s)
    \<and> bused s' = insert b (bused s) \<and> iused s' = iused s
    \<and> super_inv s' \<and> same_mem s s' \<and> dev_frame {} s s'"
proof -
  obtain bb where bb: "block_freemap s = Some bb" "bm_wf bb" "nbits bb = nr_blocks_max"
      "bused s = (\<lambda>i. 146 + i) ` bm_set bb" "used_block_count (sb s) = int (card (bm_set bb))"
    by (rule super_bitmaps [OF s])
  have max: "max_fs_blocks (sb s) \<le> nr_blocks_max" using s by (simp add: super_inv_def)
  have lay: "layout_ok (sb s)" using s by (simp add: super_inv_def)
  have cnt: "int (card (bm_set bb)) < max_fs_blocks (sb s)" using room bb(4) by (simp add: card_image)
  from bb(2) show ?thesis
  proof (cases rule: bitmap_alloc_cases)
    case full
    with cnt max bb(3) show ?thesis by simp
  next
    case (free i)
    let ?b = "set_bit_at bb i"
    let ?s = "block_bit ?b i (int (card (bm_set bb)) + 1) s"
    have i: "i < 1048576" using free(1) bb(3) by simp
    have set: "bm_wf ?b" "nbits ?b = nbits bb" "bm_set ?b = insert i (bm_set bb)"
      using set_bit_at [OF bb(2) free(1)] by auto
    have card: "card (bm_set ?b) = Suc (card (bm_set bb))"
      using free(2) by (simp add: set(3))
    have s32: "s32 (int i) = int i" using i by (simp add: s32_id)
    have w: "testfs_write_block_freemap (int i) (s\<lparr>block_freemap := Some ?b\<rparr>)
        = Inr (s\<lparr>block_freemap := Some ?b, dev := fm_put (dev s) 2 i (v ?b)\<rparr>)"
      using write_block_freemap_eq [of "s\<lparr>block_freemap := Some ?b\<rparr>" ?b i] lay set bb(3) free(1)
      by (simp add: BLOCK_SIZE_def)
    have "u32 (int (card (bm_set bb)) + 1) = int (card (bm_set bb)) + 1"
      using cnt max by (intro u32_id) auto
    moreover have "s32 (146 + int i) = int (146 + i)" using i by (simp add: s32_id)
    ultimately have eq: "testfs_alloc_block s = Inr (int (146 + i), ?s)"
      using cnt bb(1,5) free(4) w lay s32
      by (simp add: testfs_alloc_block_def testfs_get_block_freemap_def not_null_def write_super_eq
          block_bit_def Let_def layout_ok_def)
    have inv: "super_inv ?s" "same_mem s ?s" "dev_frame {} s ?s" "iused ?s = iused s"
      "bused ?s = (\<lambda>i. 146 + i) ` bm_set ?b"
      by (rule block_bit_inv [OF s bb(1) free(1) disjI1 [OF refl]]; use card cnt in simp)+
    have least: "c \<in> bused s" if "146 \<le> c" "c < 146 + i" for c
      using free(3) [of "c - 146"] that unfolding bb(4) by (intro image_eqI [of _ _ "c - 146"]) auto
    have new: "146 + i \<notin> bused s" using free(2) by (auto simp: bb(4))
    show ?thesis
      by (rule exI [of _ "146 + i"], rule exI [of _ ?s])
         (use eq inv new least i in \<open>auto simp: set(3) bb(4)\<close>)
  qed
qed

lemma free_block_used:
  assumes s: "super_inv s" and b: "b \<in> bused s"
  shows "\<exists>s'. testfs_free_block (int b) s = Inr (0, s') \<and> bused s' = bused s - {b}
    \<and> iused s' = iused s \<and> super_inv s' \<and> same_mem s s' \<and> dev_frame {b} s s'
    \<and> dblk (dev s') b = zero"
proof -
  obtain bb where bb: "block_freemap s = Some bb" "bm_wf bb" "nbits bb = nr_blocks_max"
      "bused s = (\<lambda>i. 146 + i) ` bm_set bb" "used_block_count (sb s) = int (card (bm_set bb))"
    by (rule super_bitmaps [OF s])
  have lay: "layout_ok (sb s)" using s by (simp add: super_inv_def)
  from b bb(4) obtain i where i: "b = 146 + i" "i \<in> bm_set bb" by auto
  then have ib: "i < nat (nbits bb)" "i < 1048576" using bm_set_bound [of bb] bb(3) by auto
  let ?s1 = "s\<lparr>dev := dput (dev s) b zero\<rparr>" and ?b = "clear_bit_at bb i"
  let ?s = "block_bit ?b i (int (card (bm_set bb)) - 1) ?s1"
  have s1: "super_inv ?s1"
  proof -
    have "dblk (dev ?s1) c = dblk (dev s) c" if "c < 146" for c
      using that i(1) by (simp add: dblk_dput)
    then have "freemap_ok (dev ?s1) 1 1 (inode_freemap s)" "freemap_ok (dev ?s1) 2 16 (block_freemap s)"
      "dblk (dev ?s1) 0 = dblk (dev s) 0"
      using s by (auto simp: super_inv_def intro: freemap_ok_frame)
    then show ?thesis using s by (simp add: super_inv_def length_dput le_max_iff_disj)
  qed
  have clr: "bm_wf ?b" "nbits ?b = nbits bb" "bm_set ?b = bm_set bb - {i}"
    using clear_bit_at [OF bb(2) ib(1)] by auto
  have pos: "0 < card (bm_set bb)" using i(2) card_gt_0_iff by fastforce
  have card: "int (card (bm_set ?b)) = int (card (bm_set bb)) - 1"
    using i(2) pos by (simp add: clr(3) card_Diff_singleton)
  have w: "testfs_write_block_freemap (int i) (?s1\<lparr>block_freemap := Some ?b\<rparr>)
      = Inr (?s1\<lparr>block_freemap := Some ?b, dev := fm_put (dev ?s1) 2 i (v ?b)\<rparr>)"
    using write_block_freemap_eq [of "?s1\<lparr>block_freemap := Some ?b\<rparr>" ?b i] lay clr bb(3) ib(1)
    by (simp add: BLOCK_SIZE_def)
  have z: "zero_blocks (int b) 1 s = Inr ?s1" by (rule zero_block)
  have nr: "s32 (int b - 146) = int i" "u32 (int i) = int i"
    using i(1) ib(2) by (simp_all add: s32_id u32_id)
  have eq: "testfs_free_block (int b) s = Inr (0, ?s)"
    using bb(1,5) bitmap_unmark_used [OF bb(2) i(2)] w z lay nr pos
    by (simp add: testfs_free_block_def testfs_put_block_freemap_def not_null_def write_super_eq
        block_bit_def Let_def layout_ok_def del: One_nat_def)
  have inv: "super_inv ?s" "same_mem ?s1 ?s" "dev_frame {} ?s1 ?s" "iused ?s = iused ?s1"
    "bused ?s = (\<lambda>i. 146 + i) ` bm_set ?b"
    using block_bit_inv [OF s1, of bb i ?b] bb(1) ib(1) card s bb(5)
    by (auto simp: super_inv_def)
  have "dev_frame {b} s ?s1" by (auto simp: dev_frame_def dblk_dput readable_dput_mono)
  from dev_frame_trans [OF this inv(3)] have fr: "dev_frame {b} s ?s" by simp
  have "dblk (dev ?s) b = zero"
    using inv(3) i(1) by (simp add: dev_frame_def dblk_dput)
  moreover have "bused ?s = bused s - {b}" using inv(5) by (auto simp: clr(3) bb(4) i(1))
  moreover have "iused ?s = iused s" using inv(4) by (simp add: iused_def)
  moreover have "same_mem s ?s" using inv(2) by (simp add: same_mem_def)
  ultimately show ?thesis using eq inv(1) fr by blast
qed

lemma get_inode_freemap_cases:
  assumes s: "super_inv s"
  obtains (full) "iused s = {..<65536}" "testfs_get_inode_freemap s = Inr (- ENOSPC, s)"
  | (got) i s' where "testfs_get_inode_freemap s = Inr (int i, s')" "i < 65536" "i \<notin> iused s"
      "\<And>k. k < i \<Longrightarrow> k \<in> iused s" "iused s' = insert i (iused s)" "bused s' = bused s"
      "super_inv s'" "same_mem s s'" "dev_frame {} s s'"
proof -
  obtain ib where ib: "inode_freemap s = Some ib" "bm_wf ib" "nbits ib = nr_inodes_max"
      "iused s = bm_set ib" "used_inode_count (sb s) = int (card (bm_set ib))"
    by (rule super_bitmaps [OF s])
  have lay: "layout_ok (sb s)" using s by (simp add: super_inv_def)
  from ib(2) show thesis
  proof (cases rule: bitmap_alloc_cases)
    case full
    have "s\<lparr>inode_freemap := Some ib\<rparr> = s" using ib(1) by simp
    with full ib show thesis
      by (intro that(1)) (simp_all add: testfs_get_inode_freemap_def not_null_def)
  next
    case (free i)
    let ?b = "set_bit_at ib i"
    let ?s = "inode_bit ?b i (int (card (bm_set ib)) + 1) s"
    have i: "i < 65536" using free(1) ib(3) by simp
    have set: "bm_wf ?b" "nbits ?b = nbits ib" "bm_set ?b = insert i (bm_set ib)"
      using set_bit_at [OF ib(2) free(1)] by auto
    have card: "card (bm_set ?b) = Suc (card (bm_set ib))"
      using free(2) by (simp add: set(3))
    have w: "testfs_write_inode_freemap (int i) (s\<lparr>inode_freemap := Some ?b\<rparr>)
        = Inr (s\<lparr>inode_freemap := Some ?b, dev := fm_put (dev s) 1 i (v ?b)\<rparr>)"
      using write_inode_freemap_eq [of "s\<lparr>inode_freemap := Some ?b\<rparr>" ?b i] lay set ib(3) free(1)
      by (simp add: BLOCK_SIZE_def)
    have "u32 (int (card (bm_set ib)) + 1) = int (card (bm_set ib)) + 1"
      using card_bits [OF ib(2)] ib(3) by (intro u32_id) auto
    moreover have "s32 (int i) = int i" using i by (simp add: s32_id)
    ultimately have eq: "testfs_get_inode_freemap s = Inr (int i, ?s)"
      using ib(1,5) free(4) w lay
      by (simp add: testfs_get_inode_freemap_def not_null_def write_super_eq inode_bit_def Let_def)
    have inv: "super_inv ?s" "same_mem s ?s" "dev_frame {} s ?s" "bused ?s = bused s"
      "iused ?s = bm_set ?b"
      by (rule inode_bit_inv [OF s ib(1) free(1) disjI1 [OF refl]]; use card in simp)+
    with eq i free set(3) ib(4) show thesis by (intro that(2)) auto
  qed
qed

lemma put_inode_freemap_used:
  assumes s: "super_inv s" and i: "i \<in> iused s"
  obtains s' where "testfs_put_inode_freemap (int i) s = Inr s'" "iused s' = iused s - {i}"
    "bused s' = bused s" "super_inv s'" "same_mem s s'" "dev_frame {} s s'"
proof -
  obtain ib where ib: "inode_freemap s = Some ib" "bm_wf ib" "nbits ib = nr_inodes_max"
      "iused s = bm_set ib" "used_inode_count (sb s) = int (card (bm_set ib))"
    by (rule super_bitmaps [OF s])
  have lay: "layout_ok (sb s)" using s by (simp add: super_inv_def)
  from i ib have im: "i \<in> bm_set ib" "i < nat (nbits ib)" "i < 65536" using bm_set_bound [of ib] by auto
  let ?b = "clear_bit_at ib i"
  let ?s = "inode_bit ?b i (int (card (bm_set ib)) - 1) s"
  have clr: "bm_wf ?b" "nbits ?b = nbits ib" "bm_set ?b = bm_set ib - {i}"
    using clear_bit_at [OF ib(2) im(2)] by auto
  have pos: "0 < card (bm_set ib)" using im(1) card_gt_0_iff by fastforce
  have card: "int (card (bm_set ?b)) = int (card (bm_set ib)) - 1"
    using im(1) pos by (simp add: clr(3) card_Diff_singleton)
  have w: "testfs_write_inode_freemap (int i) (s\<lparr>inode_freemap := Some ?b\<rparr>)
      = Inr (s\<lparr>inode_freemap := Some ?b, dev := fm_put (dev s) 1 i (v ?b)\<rparr>)"
    using write_inode_freemap_eq [of "s\<lparr>inode_freemap := Some ?b\<rparr>" ?b i] lay clr ib(3) im(2)
    by (simp add: BLOCK_SIZE_def)
  have "u32 (int i) = int i" using im(3) by (simp add: u32_id)
  then have eq: "testfs_put_inode_freemap (int i) s = Inr ?s"
    using ib(1,5) bitmap_unmark_used [OF ib(2) im(1)] w pos
    by (simp add: testfs_put_inode_freemap_def not_null_def write_super_eq inode_bit_def Let_def)
  have inv: "super_inv ?s" "same_mem s ?s" "dev_frame {} s ?s" "bused ?s = bused s"
    "iused ?s = bm_set ?b"
    using inode_bit_inv [OF s ib(1) im(2), of ?b] card by auto
  with eq clr(3) ib(4) show thesis by (intro that) auto
qed

section \<open>The interface: numbered resources\<close>

text \<open>
  Blocks and inode numbers are handed out the same way: \<open>alloc\<close> gives an unused number or
  \<open>-ENOSPC\<close>, \<open>release\<close> takes a used one back, and \<open>frame B\<close> bounds what else changes (the
  contents of the resources in \<open>B\<close>).
\<close>

locale resource =
  fixes inv :: "'s \<Rightarrow> bool" and used :: "'s \<Rightarrow> nat set" and frame :: "nat set \<Rightarrow> 's \<Rightarrow> 's \<Rightarrow> bool"
    and alloc :: "'s \<Rightarrow> (int \<times> 's) result" and release :: "int \<Rightarrow> 's \<Rightarrow> 's result"
  assumes alloc_spec: "inv s \<Longrightarrow> alloc s = Inr (- ENOSPC, s)
      \<or> (\<exists>i s'. alloc s = Inr (int i, s') \<and> i \<notin> used s \<and> used s' = insert i (used s)
           \<and> inv s' \<and> frame {} s s')"
    and release_spec: "inv s \<Longrightarrow> i \<in> used s \<Longrightarrow>
      \<exists>s'. release (int i) s = Inr s' \<and> used s' = used s - {i} \<and> inv s' \<and> frame {i} s s'"
    and frame_trans: "frame A s t \<Longrightarrow> frame B t u \<Longrightarrow> frame (A \<union> B) s u"
begin

lemma alloc_elim:
  assumes "inv s"
  obtains (nospace) "alloc s = Inr (- ENOSPC, s)"
  | (got) i s' where "alloc s = Inr (int i, s')" "i \<notin> used s" "used s' = insert i (used s)"
      "inv s'" "frame {} s s'"
  using alloc_spec [OF assms] by blast

lemma alloc_returns:
  assumes "inv s" "alloc s = Inr (r, s')"
  shows "(r = - ENOSPC \<and> s' = s) \<or> (0 \<le> r \<and> nat r \<notin> used s \<and> used s' = insert (nat r) (used s)
    \<and> inv s' \<and> frame {} s s')"
  using assms(1) by (cases rule: alloc_elim) (use assms(2) in auto)

lemma release_elim:
  assumes "inv s" "i \<in> used s"
  obtains s' where "release (int i) s = Inr s'" "used s' = used s - {i}" "inv s'" "frame {i} s s'"
  using release_spec [OF assms] by blast

text \<open>An allocation that is undone leaves the same numbers in use.\<close>

lemma alloc_undo:
  assumes "inv s" "alloc s = Inr (int i, s1)"
  obtains s2 where "release (int i) s1 = Inr s2" "used s2 = used s" "inv s2" "frame {i} s s2"
  using assms(1)
proof (cases rule: alloc_elim)
  case nospace
  with assms(2) have "int i = - ENOSPC" by simp
  then show thesis by simp
next
  case (got j t)
  with assms(2) have t: "t = s1" "j = i" by simp_all
  with got have "inv s1" "i \<in> used s1" by simp_all
  then show thesis
  proof (cases rule: release_elim)
    case (1 s2)
    from got(5) 1(4) t have "frame ({} \<union> {i}) s s2" by (blast intro: frame_trans)
    with 1 got t show thesis by (intro that [of s2]) auto
  qed
qed

end

definition release_block :: "int \<Rightarrow> fs \<Rightarrow> fs result" where
  "release_block b s = bindr (testfs_free_block b s) (\<lambda>(_, s'). Inr s')"

definition block_frame :: "nat set \<Rightarrow> fs \<Rightarrow> fs \<Rightarrow> bool" where
  "block_frame B s s' \<longleftrightarrow> same_mem s s' \<and> dev_frame B s s' \<and> iused s' = iused s"

definition inode_frame :: "nat set \<Rightarrow> fs \<Rightarrow> fs \<Rightarrow> bool" where
  "inode_frame I s s' \<longleftrightarrow> same_mem s s' \<and> dev_frame {} s s' \<and> bused s' = bused s"

interpretation ba: resource super_inv bused block_frame testfs_alloc_block release_block
proof unfold_locales
  fix s assume s: "super_inv s"
  show "testfs_alloc_block s = Inr (- ENOSPC, s)
      \<or> (\<exists>i s'. testfs_alloc_block s = Inr (int i, s') \<and> i \<notin> bused s \<and> bused s' = insert i (bused s)
           \<and> super_inv s' \<and> block_frame {} s s')"
    using alloc_block_full [OF s] alloc_block_free [OF s] unfolding block_frame_def
    by (metis not_le)
  show "\<exists>s'. release_block (int i) s = Inr s' \<and> bused s' = bused s - {i} \<and> super_inv s'
      \<and> block_frame {i} s s'" if "i \<in> bused s" for i
    using free_block_used [OF s that] by (auto simp: release_block_def block_frame_def)
qed (auto simp: block_frame_def intro: same_mem_trans dev_frame_trans)

interpretation ia: resource super_inv iused inode_frame testfs_get_inode_freemap testfs_put_inode_freemap
proof unfold_locales
  fix s assume s: "super_inv s"
  show "testfs_get_inode_freemap s = Inr (- ENOSPC, s)
      \<or> (\<exists>i s'. testfs_get_inode_freemap s = Inr (int i, s') \<and> i \<notin> iused s \<and> iused s' = insert i (iused s)
           \<and> super_inv s' \<and> inode_frame {} s s')"
    using s by (cases rule: get_inode_freemap_cases) (auto simp: inode_frame_def)
  show "\<exists>s'. testfs_put_inode_freemap (int i) s = Inr s' \<and> iused s' = iused s - {i} \<and> super_inv s'
      \<and> inode_frame {i} s s'" if "i \<in> iused s" for i
    by (rule put_inode_freemap_used [OF s that]) (auto simp: inode_frame_def)
next
  show "inode_frame (A \<union> B) s u" if "inode_frame A s t" "inode_frame B t u" for A B s t u
    using that dev_frame_trans [of "{}" s t "{}" u] by (auto simp: inode_frame_def intro: same_mem_trans)
qed

section \<open>Mounting and unmounting\<close>

text \<open>The state that mounting the disk of \<open>s\<close> gives.\<close>

definition remount :: "(nat \<Rightarrow> bool) \<Rightarrow> fs \<Rightarrow> fs" where
  "remount mal s = (fresh_fs mal (dev s))\<lparr>sb := sb s, inode_freemap := inode_freemap s,
     block_freemap := block_freemap s, inode_hash_table := replicate 256 []\<rparr>"

lemma remount_inv: "super_inv s \<Longrightarrow> super_inv (remount mal s)"
  by (simp add: super_inv_def remount_def fresh_fs_def)

lemma remount_hash: "hash_inv (remount mal s)"
  by (rule hash_invI) (simp_all add: remount_def fresh_fs_def)

lemma dec_sblk: "dsuper_valid d \<Longrightarrow> dec_dsuper (take 32 (sblk d)) = d"
  using sbc.dec_enc [of d "[]"] by (simp add: sblk_def sbc.enc_length)

lemma super_inv_valid:
  assumes s: "super_inv s"
  shows "dsuper_valid (sb s)"
proof -
  obtain ib bb where b: "bm_wf ib" "nbits ib = nr_inodes_max" "bm_wf bb" "nbits bb = nr_blocks_max"
      "used_inode_count (sb s) = int (card (bm_set ib))" "used_block_count (sb s) = int (card (bm_set bb))"
    by (rule super_bitmaps [OF s])
  have "max_fs_blocks (sb s) \<le> nr_blocks_max" "used_block_count (sb s) \<le> max_fs_blocks (sb s)"
    "layout_ok (sb s)" using s by (simp_all add: super_inv_def)
  with b card_bits [of ib] card_bits [of bb] show ?thesis
    by (simp add: dsuper_valid_def layout_ok_def)
qed

lemma freemap_read:
  assumes ok: "freemap_ok (dev s) st n (Some b)" and len: "(st + n) * BLOCK_SIZE \<le> length (dev s)"
  shows "read_blocks (int st) n s = Inr (v b)"
proof -
  have "mirror (dev s) st n (v b)" using ok by (simp add: freemap_ok_def)
  from mirror_read [OF this len] read_many [of st n s] len show ?thesis
    by (simp add: add_mult_distrib)
qed

lemma init_super_block_eq:
  assumes s: "super_inv s" and mal: "\<And>n. mal n"
  shows "testfs_init_super_block mal (Inr (dev s)) = Inr (0, Some (remount mal s))"
proof -
  obtain ib bb where b: "inode_freemap s = Some ib" "nbits ib = nr_inodes_max"
      "block_freemap s = Some bb" "nbits bb = nr_blocks_max"
    by (rule super_bitmaps [OF s])
  have disk: "146 * BLOCK_SIZE \<le> length (dev s)" "dblk (dev s) 0 = sblk (sb s)" "layout_ok (sb s)"
    and fm: "freemap_ok (dev s) 1 1 (Some ib)" "freemap_ok (dev s) 2 16 (Some bb)"
    using s b by (simp_all add: super_inv_def)
  let ?s0 = "fresh_fs mal (dev s)" and ?s1 = "(fresh_fs mal (dev s))\<lparr>sb := sb s\<rparr>"
  have dev: "dev ?s0 = dev s" "dev ?s1 = dev s" by (simp_all add: fresh_fs_def)
  have r0: "read_blocks 0 1 ?s0 = Inr (sblk (sb s))"
    using read_block [of ?s0 0] disk dev by (simp add: readable_def)
  have r1: "read_blocks 1 1 ?s1 = Inr (v ib)"
    using freemap_read [of ?s1 1 1 ib] fm(1) dev disk(1) by simp
  have r2: "read_blocks 2 16 ?s1 = Inr (v bb)"
    using freemap_read [of ?s1 2 16 bb] fm(2) dev disk(1) by simp
  obtain c1 where c1: "bitmap_create mal nr_inodes_max = Inr (0, Some c1)" "nbits c1 = nr_inodes_max"
    using bitmap_create_correct [of nr_inodes_max mal] mal by auto
  obtain c2 where c2: "bitmap_create mal nr_blocks_max = Inr (0, Some c2)" "nbits c2 = nr_blocks_max"
    using bitmap_create_correct [of nr_blocks_max mal] mal by auto
  have same: "c1\<lparr>v := v ib\<rparr> = ib" "c2\<lparr>v := v bb\<rparr> = bb"
    using b c1(2) c2(2) by (intro bitmap.equality; simp)+
  have sz: "int BLOCK_SIZE * int 1 * 8 = nr_inodes_max" "int BLOCK_SIZE * int 16 * 8 = nr_blocks_max"
    by (simp_all add: BLOCK_SIZE_def)
  have "inode_hash_init (?s1\<lparr>inode_freemap := Some ib, block_freemap := Some bb\<rparr>) = Inr (remount mal s)"
    using mal b by (simp add: inode_hash_init_def remount_def fresh_fs_def)
  with r0 r1 r2 c1 c2 same disk(3) mal show ?thesis
    unfolding testfs_init_super_block_def sz
    by (simp add: Let_def dec_sblk [OF super_inv_valid [OF s]] layout_ok_def)
qed

lemma mirror_rewrite:
  assumes "mirror d st n vs"
  shows "dblk (dput d st vs) c = dblk d c"
proof -
  have "dblk d c = chunk vs (c - st)" if "st \<le> c" "c < st + n"
    using assms that unfolding mirror_def by (metis less_diff_conv2 add.commute le_add_diff_inverse)
  moreover have "length vs = n * BLOCK_SIZE" using assms by (simp add: mirror_def)
  ultimately show ?thesis using dblk_dput_many [of vs n d st c] by (simp add: chunk_def)
qed

lemma close_super_block_eq:
  assumes s: "super_inv s" and h: "hash_inv s"
  shows "if iheap s = Map.empty
    then \<exists>d. testfs_close_super_block s = Inr d \<and> super_inv (s\<lparr>dev := d\<rparr>) \<and> (\<forall>c. dblk d c = dblk (dev s) c)
        \<and> length (dev s) \<le> length d
    else testfs_close_super_block s = Inl AssertFailed"
proof -
  obtain ib bb where b: "inode_freemap s = Some ib" "block_freemap s = Some bb"
    by (rule super_bitmaps [OF s])
  have disk: "dblk (dev s) 0 = sblk (sb s)" "layout_ok (sb s)" "146 * BLOCK_SIZE \<le> length (dev s)"
    and m: "mirror (dev s) 1 1 (v ib)" "mirror (dev s) 2 16 (v bb)"
    using s b by (auto simp: super_inv_def freemap_ok_def)
  let ?d0 = "dput (dev s) 0 (sblk (sb s))"
  let ?s0 = "s\<lparr>dev := ?d0\<rparr>"
  have d0: "dblk ?d0 c = dblk (dev s) c" for c using disk(1) by (simp add: dblk_dput)
  have destroy: "inode_hash_destroy ?s0 =
      (if iheap s = Map.empty then Inr (?s0\<lparr>inode_hash_table := []\<rparr>) else Inl AssertFailed)"
    using inode_hash_destroy_iff [of ?s0] hash_inv_cong [of ?s0 s] h by simp
  show ?thesis
  proof (cases "iheap s = Map.empty")
    case False
    then show ?thesis
      using destroy by (auto simp: testfs_close_super_block_def write_super_eq)
  next
    case True
    let ?d1 = "dput ?d0 1 (v ib)" and ?d2 = "dput (dput ?d0 1 (v ib)) 2 (v bb)"
    have len: "length (v ib) = 1 * BLOCK_SIZE" "length (v bb) = 16 * BLOCK_SIZE"
      using m by (simp_all add: mirror_def)
    have w1: "write_blocks (v ib) 1 1 s' = Inr (s'\<lparr>dev := dput (dev s') 1 (v ib)\<rparr>)" for s'
      using write_many [OF len(1), of 1 s'] by simp
    have w2: "write_blocks (v bb) 2 16 s' = Inr (s'\<lparr>dev := dput (dev s') 2 (v bb)\<rparr>)" for s'
      using write_many [OF len(2), of 2 s'] by simp
    have eq: "testfs_close_super_block s = Inr ?d2"
      using True destroy b disk(2)
      by (simp add: testfs_close_super_block_def write_super_eq layout_ok_def bitmap_getdata_def
          w1 w2 del: One_nat_def)
    have m1: "mirror ?d0 1 1 (v ib)" using m(1) d0 by (simp add: mirror_def)
    have d1: "dblk ?d1 c = dblk (dev s) c" for c using mirror_rewrite [OF m1] d0 by simp
    have m2: "mirror ?d1 2 16 (v bb)" using m(2) d1 by (simp add: mirror_def)
    have d2: "dblk ?d2 c = dblk (dev s) c" for c using mirror_rewrite [OF m2] d1 by simp
    have "length (dev s) \<le> length ?d2" by (simp add: length_dput)
    then have "super_inv (s\<lparr>dev := ?d2\<rparr>)"
      using s d2 by (auto simp: super_inv_def intro: freemap_ok_frame)
    with eq d2 True \<open>length (dev s) \<le> length ?d2\<close> show ?thesis by auto
  qed
qed

section \<open>Making a file system\<close>

text \<open>The part of \<open>main\<close> in \<open>mktestfs.c\<close> that lays the disk out, up to its first unmount.\<close>

definition mktestfs_format :: "(nat \<Rightarrow> bool) \<Rightarrow> bool \<Rightarrow> int \<Rightarrow> byte list result" where
  "mktestfs_format mal fopen_ok max_blocks =
     bindr (testfs_make_super_block mal fopen_ok max_blocks) (\<lambda>s.
     bindr (testfs_make_inode_freemap s) (\<lambda>s.
     bindr (testfs_make_block_freemap s) (\<lambda>s.
     bindr (testfs_make_inode_blocks s) (\<lambda>s.
     testfs_close_super_block s))))"

definition blank_sb :: "int \<Rightarrow> dsuper_block" where
  "blank_sb m = \<lparr>inode_freemap_start = 1, block_freemap_start = 2, inode_blocks_start = 18,
     data_blocks_start = 146, used_inode_count = 0, used_block_count = 0, max_fs_blocks = m\<rparr>"

definition blank_dev :: "int \<Rightarrow> byte list" where
  "blank_dev m = dput (dzero (dzero (dzero (dput [] 0 (sblk (blank_sb m))) 1 1) 2 16) 18 128)
     0 (sblk (blank_sb m))"

definition blank_fs :: "(nat \<Rightarrow> bool) \<Rightarrow> int \<Rightarrow> fs" where
  "blank_fs mal m = (fresh_fs mal (blank_dev m))\<lparr>sb := blank_sb m,
     inode_freemap := Some \<lparr>nbits = nr_inodes_max, v = replicate (1 * BLOCK_SIZE) 0\<rparr>,
     block_freemap := Some \<lparr>nbits = nr_blocks_max, v = replicate (16 * BLOCK_SIZE) 0\<rparr>,
     inode_hash_table := replicate 256 []\<rparr>"

lemma dblk_blank: "dblk (blank_dev m) c =
  (if c = 0 then sblk (blank_sb m) else if c < 146 then zero else dblk [] c)"
  by (auto simp: blank_dev_def dblk_dput dblk_dzero)

lemma dblk_nil: "dblk [] c = zero"
  by (rule nth_equalityI) (simp_all add: dblk_def dbyte_def zero_def)

lemma blank_bitmap:
  assumes "n = 1 \<or> n = 16"
  shows "bm_wf \<lparr>nbits = int (n * BLOCK_SIZE * 8), v = replicate (n * BLOCK_SIZE) 0\<rparr>"
    "bm_set \<lparr>nbits = int (n * BLOCK_SIZE * 8), v = replicate (n * BLOCK_SIZE) 0\<rparr> = {}"
proof -
  have "nat (int (n * BLOCK_SIZE * 8)) = 8 * (n * BLOCK_SIZE)" by (metis mult.commute nat_int)
  moreover have "nat ((int (n * BLOCK_SIZE * 8) + 7) div 8) = n * BLOCK_SIZE"
    using assms by (auto simp: BLOCK_SIZE_def)
  moreover have "int (n * BLOCK_SIZE * 8) < 2 ^ 32 - 8" using assms by (auto simp: BLOCK_SIZE_def)
  ultimately show "bm_wf \<lparr>nbits = int (n * BLOCK_SIZE * 8), v = replicate (n * BLOCK_SIZE) 0\<rparr>"
    "bm_set \<lparr>nbits = int (n * BLOCK_SIZE * 8), v = replicate (n * BLOCK_SIZE) 0\<rparr> = {}"
    by (auto simp: bm_wf_def bm_set_def bm_bit_replicate simp del: of_nat_mult)
qed

lemma blank_mirror:
  assumes "\<And>k. k < n \<Longrightarrow> dblk d (st + k) = zero"
  shows "mirror d st n (replicate (n * BLOCK_SIZE) 0)"
proof -
  have "chunk (replicate (n * BLOCK_SIZE) 0) k = zero" if "k < n" for k
  proof -
    have "BLOCK_SIZE + k * BLOCK_SIZE \<le> n * BLOCK_SIZE"
      using mult_le_mono1 [of "Suc k" n BLOCK_SIZE] that by simp
    then show ?thesis by (simp add: chunk_def zero_def min_def)
  qed
  with assms show ?thesis by (simp add: mirror_def)
qed

lemma blank_fs_inv:
  assumes "0 \<le> m" "m \<le> nr_blocks_max"
  shows "super_inv (blank_fs mal m)" "hash_inv (blank_fs mal m)"
    "bused (blank_fs mal m) = {}" "iused (blank_fs mal m) = {}" "iheap (blank_fs mal m) = Map.empty"
proof -
  have z: "dblk (blank_dev m) (1 + k) = zero" "k < 16 \<Longrightarrow> dblk (blank_dev m) (2 + k) = zero" for k
    by (simp_all add: dblk_blank dblk_nil)
  have m: "mirror (blank_dev m) 1 1 (replicate (1 * BLOCK_SIZE) 0)"
    "mirror (blank_dev m) 2 16 (replicate (16 * BLOCK_SIZE) 0)"
    by (rule blank_mirror, rule z(1), rule blank_mirror, erule z(2))
  note bm = blank_bitmap [of 1, unfolded super_bits, simplified] blank_bitmap [of 16, unfolded super_bits, simplified]
  have len: "146 * BLOCK_SIZE \<le> length (blank_dev m)"
    by (simp add: blank_dev_def length_dput length_dzero)
  have f: "set_of (inode_freemap (blank_fs mal m)) = {}" "set_of (block_freemap (blank_fs mal m)) = {}"
    using bm by (simp_all add: blank_fs_def set_of_def)
  then show "bused (blank_fs mal m) = {}" "iused (blank_fs mal m) = {}"
    by (simp_all add: bused_def iused_def)
  have "freemap_ok (dev (blank_fs mal m)) 1 1 (inode_freemap (blank_fs mal m))"
    "freemap_ok (dev (blank_fs mal m)) 2 16 (block_freemap (blank_fs mal m))"
    using bm m by (simp_all add: freemap_ok_def blank_fs_def fresh_fs_def super_bits [simplified])
  then show "super_inv (blank_fs mal m)"
    unfolding super_inv_def f using assms len
    by (simp add: blank_fs_def fresh_fs_def layout_ok_def blank_sb_def)
       (simp add: dblk_blank blank_sb_def)
  show "hash_inv (blank_fs mal m)" by (rule hash_invI) (simp_all add: blank_fs_def fresh_fs_def)
  show "iheap (blank_fs mal m) = Map.empty" by (simp add: blank_fs_def fresh_fs_def)
qed

lemma format_eq:
  assumes "\<And>n. mal n"
  shows "mktestfs_format mal True m = Inr (blank_dev m)"
proof -
  let ?f = "fresh_fs mal"
  have u: "u32 2 = 2" "u32 18 = 18" "u32 146 = 146" by (simp_all add: u32_id)
  let ?s = "(?f (dput [] 0 (sblk (blank_sb m))))\<lparr>sb := blank_sb m, inode_hash_table := replicate 256 []\<rparr>"
  have mk: "testfs_make_super_block mal True m = Inr ?s"
    using assms by (simp add: testfs_make_super_block_def write_super_eq inode_hash_init_def
        fresh_fs_def u Let_def blank_sb_def)
  have z: "zero_blocks 1 1 s = Inr (s\<lparr>dev := dzero (dev s) 1 1\<rparr>)"
    "zero_blocks 2 16 s = Inr (s\<lparr>dev := dzero (dev s) 2 16\<rparr>)"
    "zero_blocks 18 128 s = Inr (s\<lparr>dev := dzero (dev s) 18 128\<rparr>)" for s
    using zero_blocks_dzero [of 1 1 s] zero_blocks_dzero [of 2 16 s] zero_blocks_dzero [of 18 128 s]
    by simp_all
  have starts: "inode_freemap_start (blank_sb m) = 1" "block_freemap_start (blank_sb m) = 2"
    "inode_blocks_start (blank_sb m) = 18" by (simp_all add: blank_sb_def)
  show ?thesis
    by (simp add: mktestfs_format_def mk testfs_make_inode_freemap_def testfs_make_block_freemap_def
        testfs_make_inode_blocks_def starts z BLOCK_SIZE_def [symmetric] del: One_nat_def dzero.simps)
       (simp add: BLOCK_SIZE_def testfs_close_super_block_def write_super_eq inode_hash_destroy_def
        fresh_fs_def blank_dev_def list_all_length del: dzero.simps)
qed

lemma blank_mount:
  assumes "\<And>n. mal n" "0 \<le> m" "m \<le> nr_blocks_max"
  shows "testfs_init_super_block mal (Inr (blank_dev m)) = Inr (0, Some (blank_fs mal m))"
proof -
  have "remount mal (blank_fs mal m) = blank_fs mal m" "dev (blank_fs mal m) = blank_dev m"
    by (simp_all add: remount_def blank_fs_def fresh_fs_def)
  then show ?thesis
    using init_super_block_eq [OF blank_fs_inv(1) [OF assms(2,3), of mal], of mal] assms(1) by simp
qed

lemma free_block_unused:
  assumes s: "super_inv s" and b: "0 \<le> b" "b < 2 ^ 31" "nat b \<notin> bused s"
  shows "testfs_free_block b s = Inl AssertFailed"
proof -
  obtain bb where bb: "block_freemap s = Some bb" "bm_wf bb"
      "bused s = (\<lambda>i. 146 + i) ` bm_set bb"
    by (rule super_bitmaps [OF s])
  have lay: "data_blocks_start (sb s) = 146" using s by (simp add: super_inv_def layout_ok_def)
  obtain s1 where z: "zero_blocks b 1 s = Inr s1" "sb s1 = sb s" "block_freemap s1 = block_freemap s"
    using zero_block [of "nat b" s] b(1) by simp
  have s32: "s32 (b - 146) = b - 146" using b(1,2) by (simp add: s32_id)
  show ?thesis
  proof (cases "146 \<le> b")
    case False
    then show ?thesis using z lay s32 by (simp add: testfs_free_block_def del: One_nat_def)
  next
    case True
    have "nat (b - 146) \<notin> bm_set bb"
    proof
      assume "nat (b - 146) \<in> bm_set bb"
      then have "146 + nat (b - 146) \<in> bused s" unfolding bb(3) by (rule imageI)
      moreover have "146 + nat (b - 146) = nat b" using True by simp
      ultimately show False using b(3) by simp
    qed
    moreover have "u32 (b - 146) = b - 146" using True b(2) by (simp add: u32_id)
    ultimately have "bitmap_unmark bb (u32 (b - 146)) = Inl AssertFailed"
      using bitmap_unmark_fault [OF bb(2)] True by simp
    then show ?thesis
      using z lay s32 True bb(1)
      by (simp add: testfs_free_block_def testfs_put_block_freemap_def not_null_def del: One_nat_def)
  qed
qed

section \<open>Properties\<close>

abbreviation (input) test_fs :: fs where "test_fs \<equiv> blank_fs (\<lambda>_. True) 1024"

lemma test_fs_inv: "super_inv test_fs" "hash_inv test_fs" "bused test_fs = {}" "iused test_fs = {}"
  "iheap test_fs = Map.empty" "max_fs_blocks (sb test_fs) = 1024"
  by (simp_all add: blank_fs_inv) (simp add: blank_fs_def blank_sb_def)

text \<open>
  \<open>testfs_alloc_block\<close> returns \<open>-ENOSPC\<close> and changes nothing exactly when the file system is
  at its block limit; otherwise it hands out the first data block that is not in use.  It keeps
  counters, freemap and disk consistent, and the contents of no block past the freemaps change.
\<close>

theorem alloc_block_spec:
  assumes "super_inv s"
  shows "if max_fs_blocks (sb s) \<le> int (card (bused s)) then testfs_alloc_block s = Inr (- ENOSPC, s)
    else \<exists>b s'. testfs_alloc_block s = Inr (int b, s') \<and> b \<notin> bused s \<and> 146 \<le> b
      \<and> (\<forall>c. 146 \<le> c \<and> c < b \<longrightarrow> c \<in> bused s)
      \<and> bused s' = insert b (bused s) \<and> iused s' = iused s
      \<and> super_inv s' \<and> same_mem s s' \<and> dev_frame {} s s'"
  using alloc_block_full [OF assms] alloc_block_free [OF assms] by (auto simp: not_le)

theorem alloc_block_spec_witness:
  "\<exists>b s'. testfs_alloc_block test_fs = Inr (int b, s') \<and> b \<notin> bused test_fs \<and> 146 \<le> b
      \<and> (\<forall>c. 146 \<le> c \<and> c < b \<longrightarrow> c \<in> bused test_fs)
      \<and> bused s' = insert b (bused test_fs) \<and> iused s' = iused test_fs
      \<and> super_inv s' \<and> same_mem test_fs s' \<and> dev_frame {} test_fs s'"
  using alloc_block_spec [OF test_fs_inv(1)] by (simp only: test_fs_inv) simp

text \<open>
  \<open>testfs_free_block\<close> on a block in use returns 0, takes exactly that block out of use, leaves
  it zeroed on disk and touches no other block past the freemaps; on any other non-negative
  number (a double free, a block outside the data area) an assertion ends the process.
\<close>

theorem free_block_spec:
  assumes "super_inv s" "b < 2 ^ 31"
  shows "if b \<in> bused s
    then \<exists>s'. testfs_free_block (int b) s = Inr (0, s') \<and> bused s' = bused s - {b} \<and> iused s' = iused s
      \<and> super_inv s' \<and> same_mem s s' \<and> dev_frame {b} s s' \<and> dblk (dev s') b = zero
    else testfs_free_block (int b) s = Inl AssertFailed"
  using free_block_used [OF assms(1), of b] free_block_unused [OF assms(1), of "int b"] assms(2)
  by auto

theorem free_block_spec_witness:
  "\<exists>s s1. testfs_alloc_block test_fs = Inr (146, s) \<and> testfs_free_block 146 s = Inr (0, s1)
    \<and> bused s1 = {} \<and> testfs_free_block 146 s1 = Inl AssertFailed"
proof -
  obtain b s where s: "testfs_alloc_block test_fs = Inr (int b, s)" "146 \<le> b" "super_inv s"
      "\<forall>c. 146 \<le> c \<and> c < b \<longrightarrow> c \<in> bused test_fs" "bused s = insert b (bused test_fs)"
    using alloc_block_free [OF test_fs_inv(1)] by (auto simp: test_fs_inv)
  then have b: "b = 146" "bused s = {146}" using test_fs_inv(3) by (metis empty_iff le_neq_implies_less order_refl)+
  from free_block_spec [OF s(3), of 146] b(2) obtain s1 where
    s1: "testfs_free_block 146 s = Inr (0, s1)" "bused s1 = {}" "super_inv s1" by auto
  moreover from free_block_spec [OF s1(3), of 146] s1(2) have "testfs_free_block 146 s1 = Inl AssertFailed"
    by simp
  ultimately show ?thesis using s(1) b(1) by auto
qed

text \<open>
  \<open>testfs_get_inode_freemap\<close> hands out the least free inode number (or \<open>-ENOSPC\<close> when all
  65536 are taken), and \<open>testfs_put_inode_freemap\<close> takes it back: the set of numbers in use, and
  with it the counter in the super block, are as before, on disk as well.
\<close>

theorem inode_number_roundtrip:
  assumes "super_inv s"
  shows "if iused s = {..<65536} then testfs_get_inode_freemap s = Inr (- ENOSPC, s)
    else \<exists>s1 s2. testfs_get_inode_freemap s = Inr (int (LEAST i. i \<notin> iused s), s1)
      \<and> iused s1 = insert (LEAST i. i \<notin> iused s) (iused s) \<and> super_inv s1
      \<and> testfs_put_inode_freemap (int (LEAST i. i \<notin> iused s)) s1 = Inr s2
      \<and> iused s2 = iused s \<and> used_inode_count (sb s2) = used_inode_count (sb s) \<and> super_inv s2"
  using assms
proof (cases rule: get_inode_freemap_cases)
  case full
  then show ?thesis by simp
next
  case (got i s1)
  have least: "(LEAST i. i \<notin> iused s) = i"
    by (rule Least_equality) (use got in \<open>auto simp: not_less [symmetric]\<close>)
  from got(5) have "i \<in> iused s1" by simp
  then obtain s2 where s2: "testfs_put_inode_freemap (int i) s1 = Inr s2" "iused s2 = iused s1 - {i}"
      "super_inv s2"
    by (rule put_inode_freemap_used [OF got(7)])
  have same: "iused s2 = iused s" using s2(2) got(3,5) by auto
  then have "used_inode_count (sb s2) = used_inode_count (sb s)"
    using assms s2(3) by (simp add: super_inv_def iused_def)
  moreover have "iused s \<noteq> {..<65536}" using got(2,3) by blast
  ultimately show ?thesis using got s2(1,3) same by (simp add: least)
qed

theorem inode_number_roundtrip_witness:
  "\<exists>s1 s2. testfs_get_inode_freemap test_fs = Inr (0, s1) \<and> testfs_put_inode_freemap 0 s1 = Inr s2
    \<and> iused s2 = {}"
proof -
  have "(LEAST i. i \<notin> iused test_fs) = 0" by (simp add: test_fs_inv)
  moreover have "(0 :: nat) \<in> {..<65536}" by simp
  then have "iused test_fs \<noteq> {..<65536}" unfolding test_fs_inv by blast
  ultimately show ?thesis
    using inode_number_roundtrip [OF test_fs_inv(1)] by (auto simp: test_fs_inv)
qed

text \<open>
  Nothing the super block knows is only in memory.  At any moment of a run, mounting the disk
  as it is (\<open>testfs_init_super_block\<close>) succeeds and gives the very super block and freemaps of the
  running system, with an empty inode table.
\<close>

theorem mount_recovers:
  assumes "super_inv s" "\<And>n. mal n"
  shows "testfs_init_super_block mal (Inr (testfs_get_dev s)) = Inr (0, Some (remount mal s))
    \<and> super_inv (remount mal s) \<and> hash_inv (remount mal s)
    \<and> bused (remount mal s) = bused s \<and> iused (remount mal s) = iused s"
  using init_super_block_eq [OF assms] remount_inv [OF assms(1)] remount_hash
  by (simp add: testfs_get_dev_def) (simp add: remount_def bused_def iused_def)

theorem mount_recovers_witness:
  "testfs_init_super_block (\<lambda>_. True) (Inr (testfs_get_dev test_fs)) = Inr (0, Some (remount (\<lambda>_. True) test_fs))"
  using mount_recovers [OF test_fs_inv(1), of "\<lambda>_. True"] by simp

text \<open>
  Unmounting.  \<open>testfs_close_super_block\<close> fails the assertion of \<open>inode_hash_destroy\<close> exactly
  when an inode is still referenced; otherwise the file it leaves has the contents of the disk,
  block by block, and mounting it gives the same super block and freemaps back.
\<close>

theorem close_mount_roundtrip:
  assumes "super_inv s" "hash_inv s" "\<And>n. mal n"
  shows "if iheap s = Map.empty
    then \<exists>d s'. testfs_close_super_block s = Inr d \<and> (\<forall>c. dblk d c = dblk (dev s) c)
      \<and> testfs_init_super_block mal (Inr d) = Inr (0, Some s')
      \<and> sb s' = sb s \<and> inode_freemap s' = inode_freemap s \<and> block_freemap s' = block_freemap s
      \<and> super_inv s' \<and> hash_inv s'
    else testfs_close_super_block s = Inl AssertFailed"
proof (cases "iheap s = Map.empty")
  case True
  with close_super_block_eq [OF assms(1,2)] obtain d where
    d: "testfs_close_super_block s = Inr d" "super_inv (s\<lparr>dev := d\<rparr>)" "\<forall>c. dblk d c = dblk (dev s) c"
    by auto
  let ?s = "remount mal (s\<lparr>dev := d\<rparr>)"
  have "testfs_init_super_block mal (Inr d) = Inr (0, Some ?s)" "super_inv ?s" "hash_inv ?s"
    using init_super_block_eq [OF d(2) assms(3)] remount_inv [OF d(2)] remount_hash by simp_all
  moreover have "sb ?s = sb s" "inode_freemap ?s = inode_freemap s" "block_freemap ?s = block_freemap s"
    by (simp_all add: remount_def)
  ultimately show ?thesis using True d(1,3) by auto
qed (use close_super_block_eq [OF assms(1,2)] in simp)

theorem close_mount_roundtrip_witness:
  "\<exists>d s'. testfs_close_super_block test_fs = Inr d
      \<and> testfs_init_super_block (\<lambda>_. True) (Inr d) = Inr (0, Some s') \<and> sb s' = sb test_fs"
  using close_mount_roundtrip [OF test_fs_inv(1,2), of "\<lambda>_. True"] by (auto simp: test_fs_inv)

text \<open>
  C40: making a file system.  The disk \<open>mktestfs\<close> lays out (before it adds the root directory)
  mounts, for every size it accepts, to a consistent system with nothing in use.
\<close>

theorem format_mounts:
  assumes "0 \<le> m" "m \<le> nr_blocks_max" "\<And>n. mal n"
  shows "\<exists>d s. mktestfs_format mal True m = Inr d \<and> testfs_init_super_block mal (Inr d) = Inr (0, Some s)
    \<and> super_inv s \<and> hash_inv s \<and> bused s = {} \<and> iused s = {} \<and> iheap s = Map.empty
    \<and> max_fs_blocks (sb s) = m"
  using format_eq [OF assms(3)] blank_mount [OF assms(3,1,2)] blank_fs_inv [OF assms(1,2)]
  by (auto simp: blank_fs_def blank_sb_def)

theorem format_mounts_witness:
  "\<exists>d s. mktestfs_format (\<lambda>_. True) True 131072 = Inr d
    \<and> testfs_init_super_block (\<lambda>_. True) (Inr d) = Inr (0, Some s) \<and> super_inv s \<and> bused s = {}"
  using format_mounts [of 131072 "\<lambda>_. True"] by auto

end
