(* ===== verification/Inode.thy ===== *)
theory Inode
  imports Super
begin

text \<open>
  \<open>src/fs/inode.c\<close>: the reference-counted, write-back cache of inodes (without
  \<open>testfs_remove_inode\<close>, which is in \<open>ReadWrite\<close> because it calls \<open>testfs_free_blocks\<close>).  Its
  specification is \<open>iview\<close>, the content of every inode number: the cached copy if there is one,
  else the disk's.  The cache is transparent: reading an inode in, writing it back and dropping
  it leave \<open>iview\<close> alone.  The locale \<open>object_cache\<close> states this contract.  The reference count
  \<open>i_count\<close>, an \<open>int\<close> in C, is not wrapped: it counts references that are held at the same time.
\<close>

section \<open>The code\<close>

definition testfs_inode_to_block_nr :: "inode \<Rightarrow> int result" where
  "testfs_inode_to_block_nr i =
     (let block_nr = s32 (u32 (i_nr i) div INODES_PER_BLOCK) in
      bindr (c_assert (block_nr \<ge> 0)) (\<lambda>_.
      bindr (c_assert (block_nr < int NR_INODE_BLOCKS)) (\<lambda>_. Inr block_nr)))"

definition testfs_inode_to_block_offset :: "inode \<Rightarrow> int result" where
  "testfs_inode_to_block_offset i =
     (let block_offset = (u32 (i_nr i) mod INODES_PER_BLOCK) * int sizeof_dinode in
      bindr (c_assert (block_offset \<ge> 0)) (\<lambda>_.
      bindr (c_assert (block_offset < int BLOCK_SIZE)) (\<lambda>_. Inr block_offset)))"

definition testfs_read_inode_block :: "inode \<Rightarrow> fs \<Rightarrow> byte list result" where
  "testfs_read_inode_block i s =
     bindr (testfs_inode_to_block_nr i) (\<lambda>block_nr.
     read_blocks (u32 (inode_blocks_start (sb s) + block_nr)) 1 s)"

definition testfs_write_inode_block :: "inode \<Rightarrow> byte list \<Rightarrow> fs \<Rightarrow> fs result" where
  "testfs_write_inode_block i block s =
     bindr (testfs_inode_to_block_nr i) (\<lambda>block_nr.
     write_blocks block (u32 (inode_blocks_start (sb s) + block_nr)) 1 s)"

definition testfs_get_inode :: "int \<Rightarrow> fs \<Rightarrow> (nat \<times> fs) result" where
  "testfs_get_inode inode_nr s =
     bindr (inode_hash_find inode_nr s) (\<lambda>found.
     case found of
       Some p \<Rightarrow> bindr (upd_inode p (\<lambda>i. i\<lparr>i_count := i_count i + 1\<rparr>) s) (\<lambda>s'. Inr (p, s'))
     | None \<Rightarrow>
         if \<not> malloc_ok s sizeof_inode then Inl ExitFailure
         else
           let p = next_addr s;
               i = \<lparr>din = zero_dinode, i_flags = 0, i_nr = inode_nr, i_count = 1\<rparr>;
               s1 = s\<lparr>iheap := (iheap s)(p \<mapsto> i), next_addr := Suc p\<rparr>
           in bindr (testfs_read_inode_block i s1) (\<lambda>block.
              bindr (testfs_inode_to_block_offset i) (\<lambda>block_offset.
              bindr (memcpy (enc_dinode (din i)) 0 block block_offset (int sizeof_dinode)) (\<lambda>bytes.
              bindr (upd_inode p (\<lambda>i. i\<lparr>din := dec_dinode bytes\<rparr>) s1) (\<lambda>s2.
              bindr (inode_hash_insert p s2) (\<lambda>s3.
              Inr (p, s3)))))))"

text \<open>\<open>in->i_flags |= I_FLAGS_DIRTY\<close> and \<open>in->i_flags &= ~I_FLAGS_DIRTY\<close>.\<close>

definition set_dirty :: "inode \<Rightarrow> inode" where
  "set_dirty i = i\<lparr>i_flags := i_flags i OR I_FLAGS_DIRTY\<rparr>"

definition set_clean :: "inode \<Rightarrow> inode" where
  "set_clean i = i\<lparr>i_flags := i_flags i AND NOT I_FLAGS_DIRTY\<rparr>"

definition testfs_sync_inode :: "nat \<Rightarrow> fs \<Rightarrow> fs result" where
  "testfs_sync_inode p s =
     bindr (deref p s) (\<lambda>i.
     if i_flags i AND I_FLAGS_DIRTY = 0 then Inr s
     else
       bindr (testfs_read_inode_block i s) (\<lambda>block.
       bindr (testfs_inode_to_block_offset i) (\<lambda>block_offset.
       bindr (memcpy block block_offset (enc_dinode (din i)) 0 (int sizeof_dinode)) (\<lambda>block.
       bindr (testfs_write_inode_block i block s) (\<lambda>s1.
       upd_inode p set_clean s1)))))"

definition testfs_put_inode :: "nat \<Rightarrow> fs \<Rightarrow> fs result" where
  "testfs_put_inode p s =
     bindr (deref p s) (\<lambda>i.
     bindr (c_assert (i_flags i AND I_FLAGS_DIRTY = 0)) (\<lambda>_.
     bindr (upd_inode p (\<lambda>i. i\<lparr>i_count := i_count i - 1\<rparr>) s) (\<lambda>s1.
     if i_count i - 1 = 0
     then bindr (inode_hash_remove p s1) (\<lambda>s2. Inr (s2\<lparr>iheap := (iheap s2)(p := None)\<rparr>))
     else Inr s1)))"

definition testfs_inode_get_nr :: "nat \<Rightarrow> fs \<Rightarrow> int result" where
  "testfs_inode_get_nr p s = bindr (deref p s) (\<lambda>i. Inr (i_nr i))"

definition testfs_inode_get_type :: "nat \<Rightarrow> fs \<Rightarrow> int result" where
  "testfs_inode_get_type p s = bindr (deref p s) (\<lambda>i. Inr (i_type (din i)))"

definition testfs_inode_get_size :: "nat \<Rightarrow> fs \<Rightarrow> int result" where
  "testfs_inode_get_size p s = bindr (deref p s) (\<lambda>i. Inr (i_size (din i)))"

definition testfs_inode_get_block_count :: "nat \<Rightarrow> fs \<Rightarrow> int result" where
  "testfs_inode_get_block_count p s = bindr (deref p s) (\<lambda>i. Inr (block_count (din i)))"

text \<open>The pointer stored through \<open>inp\<close> is the second component.\<close>

definition testfs_create_inode :: "int \<Rightarrow> fs \<Rightarrow> (int \<times> nat option \<times> fs) result" where
  "testfs_create_inode type s =
     bindr (testfs_get_inode_freemap s) (\<lambda>(inode_nr, s1).
     if inode_nr < 0 then Inr (inode_nr, None, s1)
     else if u32 inode_nr div INODES_PER_BLOCK \<ge> int NR_INODE_BLOCKS then
       bindr (testfs_put_inode_freemap inode_nr s1) (\<lambda>s2. Inr (- ENOSPC, None, s2))
     else
       bindr (testfs_get_inode inode_nr s1) (\<lambda>(p, s2).
       bindr (upd_inode p (\<lambda>i. set_dirty (i\<lparr>din := (din i)\<lparr>i_type := type\<rparr>\<rparr>)) s2) (\<lambda>s3.
       Inr (0, Some p, s3))))"

definition testfs_alloc_block_for_inode :: "nat \<Rightarrow> fs \<Rightarrow> (int \<times> fs) result" where
  "testfs_alloc_block_for_inode p s =
     bindr (testfs_alloc_block s) (\<lambda>(phy_block_nr, s1).
     if phy_block_nr \<ge> 0
     then bindr (upd_inode p (\<lambda>i. set_dirty (i\<lparr>din := (din i)\<lparr>block_count := block_count (din i) + 1\<rparr>\<rparr>)) s1)
            (\<lambda>s2. Inr (phy_block_nr, s2))
     else Inr (phy_block_nr, s1))"

definition testfs_free_block_from_inode :: "nat \<Rightarrow> int \<Rightarrow> fs \<Rightarrow> fs result" where
  "testfs_free_block_from_inode p phy_block_nr s =
     (if phy_block_nr = 0 then Inr s
      else bindr (testfs_free_block phy_block_nr s) (\<lambda>(_, s1).
           upd_inode p (\<lambda>i. set_dirty (i\<lparr>din := (din i)\<lparr>block_count := block_count (din i) - 1\<rparr>\<rparr>)) s1))"

section \<open>Inodes on disk\<close>

definition disk_inode :: "byte list \<Rightarrow> nat \<Rightarrow> dinode" where
  "disk_inode d nr = dec_dinode (drop (nr mod 128 * 64) (dblk d (18 + nr div 128)))"

abbreviation (input) NR_INODES :: nat where "NR_INODES \<equiv> 16384"

lemma dec_dinode_take: "dec_dinode (take 64 b) = dec_dinode b"
  by (simp add: dec_dinode_def dec_s32_def dec_s64_def drop_take min_def)

lemma dec_s64_range: "length bs \<ge> 8 \<Longrightarrow> is_s64 (dec_s64 bs)"
  using le_val_range [of "take 8 bs"] by (auto simp: dec_s64_def signed_def)

lemma dec_dinode_valid: "64 \<le> length b \<Longrightarrow> dinode_valid (dec_dinode b)"
  unfolding dinode_valid_def dec_dinode_def
  by (simp add: list_all_length dec_s32_range dec_s64_range del: power_numeral)

lemma inode_offset: "nr mod 128 * 64 + 64 \<le> BLOCK_SIZE"
proof -
  have "nr mod 128 < 128" by simp
  then show ?thesis unfolding BLOCK_SIZE_def by linarith
qed

lemma disk_inode_valid: "dinode_valid (disk_inode d nr)"
  using inode_offset [of nr] by (simp add: disk_inode_def dec_dinode_valid)

lemma disk_inode_cong:
  "(\<And>c. 18 \<le> c \<Longrightarrow> c < 146 \<Longrightarrow> dblk d' c = dblk d c) \<Longrightarrow> nr < NR_INODES \<Longrightarrow>
   disk_inode d' nr = disk_inode d nr"
  by (simp add: disk_inode_def less_mult_imp_div_less)

text \<open>The disk once inode \<open>nr\<close> has been written back.\<close>

definition put_disk_inode :: "byte list \<Rightarrow> nat \<Rightarrow> dinode \<Rightarrow> byte list" where
  "put_disk_inode d nr x =
     dput d (18 + nr div 128) (dic.patch (dblk d (18 + nr div 128)) (nr mod 128 * 64) x)"

lemma length_inode_patch: "length (dic.patch (dblk d b) (nr mod 128 * 64) x) = BLOCK_SIZE"
  using inode_offset [of nr] by (simp add: dic.patch_length)

lemma dblk_put_disk_inode: "c \<noteq> 18 + nr div 128 \<Longrightarrow> dblk (put_disk_inode d nr x) c = dblk d c"
  by (simp add: put_disk_inode_def dblk_dput length_inode_patch)

lemma disk_inode_put:
  assumes "dinode_valid x"
  shows "disk_inode (put_disk_inode d nr x) k = (if k = nr then x else disk_inode d k)"
proof -
  have same_block: "dblk (put_disk_inode d nr x) (18 + nr div 128)
      = dic.patch (dblk d (18 + nr div 128)) (nr mod 128 * 64) x"
    by (simp add: put_disk_inode_def dblk_dput length_inode_patch)
  have off: "j mod 128 * 64 + 64 \<le> length (dblk d c)" for j c using inode_offset by simp
  consider "k = nr" | "k \<noteq> nr" "k div 128 = nr div 128" | "k div 128 \<noteq> nr div 128" by blast
  then show ?thesis
  proof cases
    case 1
    with same_block dic.patch_same [OF off assms] show ?thesis by (simp add: disk_inode_def)
  next
    case 2
    then have "k mod 128 \<noteq> nr mod 128" by (metis div_mult_mod_eq)
    then have "k mod 128 * 64 + 64 \<le> nr mod 128 * 64 \<or> nr mod 128 * 64 + 64 \<le> k mod 128 * 64"
      by linarith
    with off [of nr "18 + nr div 128"] off [of k "18 + nr div 128"]
    have "take 64 (drop (k mod 128 * 64) (dic.patch (dblk d (18 + nr div 128)) (nr mod 128 * 64) x))
        = take 64 (drop (k mod 128 * 64) (dblk d (18 + nr div 128)))"
      by (intro dic.patch_other)
    with 2 same_block show ?thesis
      unfolding disk_inode_def by (metis dec_dinode_take)
  next
    case 3
    then show ?thesis using dblk_put_disk_inode [of "18 + k div 128" nr d x]
      by (auto simp: disk_inode_def)
  qed
qed

section \<open>The cache and its view\<close>

definition cached :: "fs \<Rightarrow> int \<Rightarrow> inode option" where
  "cached s nr = (case inode_hash_find nr s of Inr (Some p) \<Rightarrow> iheap s p | _ \<Rightarrow> None)"

definition iview :: "fs \<Rightarrow> nat \<Rightarrow> dinode" where
  "iview s nr = (case cached s (int nr) of Some i \<Rightarrow> din i | None \<Rightarrow> disk_inode (dev s) nr)"

definition irefs :: "fs \<Rightarrow> nat \<Rightarrow> int" where
  "irefs s nr = (case cached s (int nr) of Some i \<Rightarrow> i_count i | None \<Rightarrow> 0)"

abbreviation dirty :: "inode \<Rightarrow> bool" where
  "dirty i \<equiv> i_flags i AND I_FLAGS_DIRTY \<noteq> 0"

lemma set_flags_simps [simp]:
  "\<not> dirty (set_clean i)" "dirty (set_dirty i)"
  "din (set_clean i) = din i" "i_nr (set_clean i) = i_nr i" "i_count (set_clean i) = i_count i"
  "din (set_dirty i) = din i" "i_nr (set_dirty i) = i_nr i" "i_count (set_dirty i) = i_count i"
proof -
  have "(i_flags i OR I_FLAGS_DIRTY) AND I_FLAGS_DIRTY \<noteq> 0" by (rule dirty_or)
  then show "dirty (set_dirty i)" by (cases i) (simp only: set_dirty_def inode.simps simp_thms)
  have "(i_flags i AND NOT I_FLAGS_DIRTY) AND I_FLAGS_DIRTY = 0" by (rule clean_and)
  then show "\<not> dirty (set_clean i)" by (cases i) (simp only: set_clean_def inode.simps not_False_eq_True simp_thms)
qed (simp_all add: set_clean_def set_dirty_def)

text \<open>
  The invariant: super block and hash table are consistent, the inodes in memory have numbers on
  the disk and contents that fit their on-disk form, a clean one equals its disk copy, and
  \<open>malloc\<close> does not fail (its failures end the process or are returned at once).
\<close>

definition inode_inv :: "fs \<Rightarrow> bool" where
  "inode_inv s \<longleftrightarrow> super_inv s \<and> hash_inv s \<and> (\<forall>n. malloc_ok s n)
     \<and> (\<forall>p i. iheap s p = Some i \<longrightarrow> 0 \<le> i_nr i \<and> i_nr i < int NR_INODES \<and> dinode_valid (din i)
          \<and> (\<not> dirty i \<longrightarrow> disk_inode (dev s) (nat (i_nr i)) = din i))"

lemma inode_invI:
  assumes "super_inv s" "hash_inv s" "\<And>n. malloc_ok s n"
    and "\<And>p i. iheap s p = Some i \<Longrightarrow> 0 \<le> i_nr i \<and> i_nr i < int NR_INODES \<and> dinode_valid (din i)
          \<and> (\<not> dirty i \<longrightarrow> disk_inode (dev s) (nat (i_nr i)) = din i)"
  shows "inode_inv s"
  unfolding inode_inv_def using assms by blast

lemma inode_inv_facts:
  assumes "inode_inv s"
  shows inv_super: "super_inv s" and inv_hash: "hash_inv s" and inv_malloc: "malloc_ok s n"
    and inv_nr: "\<And>p i. iheap s p = Some i \<Longrightarrow> 0 \<le> i_nr i \<and> i_nr i < int NR_INODES"
    and inv_valid: "\<And>p i. iheap s p = Some i \<Longrightarrow> dinode_valid (din i)"
    and inv_clean: "\<And>p i. iheap s p = Some i \<Longrightarrow> \<not> dirty i \<Longrightarrow> disk_inode (dev s) (nat (i_nr i)) = din i"
  using assms unfolding inode_inv_def by blast+

lemma cached_Some:
  assumes "hash_inv s"
  shows "cached s nr = Some i \<longleftrightarrow> (\<exists>p. iheap s p = Some i \<and> i_nr i = nr)"
  using assms
proof (cases rule: it.lookup_cases [of s nr])
  case (hit p)
  then obtain j where j: "iheap s p = Some j" "i_nr j = nr" by (auto simp: inode_key_def)
  have "cached s nr = Some j" using hit j by (simp add: cached_def)
  moreover have "i = j" if "iheap s q = Some i" "i_nr i = nr" for q
    using hash_inj [OF assms j(1) that(1)] j that by simp
  ultimately show ?thesis using j by auto
next
  case miss
  then show ?thesis by (auto simp: cached_def inode_key_def)
qed

lemma cached_eqI:
  assumes "\<And>i. cached s nr = Some i \<longleftrightarrow> x = Some i"
  shows "cached s nr = x"
  using assms by (cases x; cases "cached s nr") auto

lemma cached_heap: "hash_inv s \<Longrightarrow> hash_inv s' \<Longrightarrow> iheap s' = iheap s \<Longrightarrow> cached s' = cached s"
  by (intro ext cached_eqI) (auto simp: cached_Some)

lemma cached_at: "hash_inv s \<Longrightarrow> iheap s p = Some i \<Longrightarrow> cached s (i_nr i) = Some i"
  by (auto simp: cached_Some)

lemma cached_upd:
  assumes s: "hash_inv s" and s': "hash_inv s'" and heap: "iheap s' = (iheap s)(p \<mapsto> i)"
    and old: "\<And>j. iheap s p = Some j \<Longrightarrow> i_nr j = i_nr i"
  shows "cached s' = (cached s)(i_nr i := Some i)"
proof (intro ext cached_eqI)
  fix nr j
  show "cached s' nr = Some j \<longleftrightarrow> ((cached s)(i_nr i := Some i)) nr = Some j"
  proof (cases "nr = i_nr i")
    case True
    have "cached s' nr = Some i" unfolding cached_Some [OF s'] using heap True by auto
    with True show ?thesis by auto
  next
    case False
    have "(\<exists>q. iheap s' q = Some j \<and> i_nr j = nr) \<longleftrightarrow> (\<exists>q. iheap s q = Some j \<and> i_nr j = nr)"
      using old False by (auto simp: heap; metis)
    with False show ?thesis by (simp add: cached_Some [OF s] cached_Some [OF s'])
  qed
qed

lemma cached_drop:
  assumes s: "hash_inv s" and s': "hash_inv s'" and heap: "iheap s' = (iheap s)(p := None)"
    and p: "iheap s p = Some i"
  shows "cached s' = (cached s)(i_nr i := None)"
proof (intro ext cached_eqI)
  fix nr j
  have "(\<exists>q. iheap s' q = Some j \<and> i_nr j = nr) \<longleftrightarrow>
      nr \<noteq> i_nr i \<and> (\<exists>q. iheap s q = Some j \<and> i_nr j = nr)"
  proof
    assume "\<exists>q. iheap s' q = Some j \<and> i_nr j = nr"
    then obtain q where q: "q \<noteq> p" "iheap s q = Some j" "i_nr j = nr"
      by (auto simp: heap split: if_splits)
    with hash_inj [OF s q(2) p] show "nr \<noteq> i_nr i \<and> (\<exists>q. iheap s q = Some j \<and> i_nr j = nr)" by blast
  next
    assume "nr \<noteq> i_nr i \<and> (\<exists>q. iheap s q = Some j \<and> i_nr j = nr)"
    then obtain q where "nr \<noteq> i_nr i" "iheap s q = Some j" "i_nr j = nr" by blast
    moreover from this p have "q \<noteq> p" by auto
    ultimately show "\<exists>q. iheap s' q = Some j \<and> i_nr j = nr" by (auto simp: heap)
  qed
  then show "cached s' nr = Some j \<longleftrightarrow> ((cached s)(i_nr i := None)) nr = Some j"
    by (auto simp: cached_Some [OF s] cached_Some [OF s'])
qed

section \<open>Block and offset of an inode\<close>

lemma inode_place:
  assumes "0 \<le> i_nr i" "i_nr i < int NR_INODES"
  shows "testfs_inode_to_block_nr i = Inr (int (nat (i_nr i) div 128))"
    "testfs_inode_to_block_offset i = Inr (int (nat (i_nr i) mod 128 * 64))"
    "nat (i_nr i) div 128 < 128"
proof -
  define n where "n = nat (i_nr i)"
  then have n: "i_nr i = int n" "n < NR_INODES" using assms by auto
  then have u: "u32 (i_nr i) = int n" by (simp add: u32_id)
  have d: "int n div 128 = int (n div 128)" "int n mod 128 = int (n mod 128)"
    by (simp_all add: zdiv_int zmod_int)
  show lt: "nat (i_nr i) div 128 < 128" using n by (simp add: less_mult_imp_div_less)
  then have "s32 (int (n div 128)) = int (n div 128)" using n by (intro s32_id) auto
  with lt n(1) u d show "testfs_inode_to_block_nr i = Inr (int (nat (i_nr i) div 128))"
    by (simp add: testfs_inode_to_block_nr_def Let_def)
  have "n mod 128 * 64 < BLOCK_SIZE" using inode_offset [of n] by linarith
  then have "int (n mod 128) * 64 < int BLOCK_SIZE" by linarith
  with n(1) u d show "testfs_inode_to_block_offset i = Inr (int (nat (i_nr i) mod 128 * 64))"
    by (simp add: testfs_inode_to_block_offset_def Let_def)
qed

lemma inode_block_nr: "n < 128 \<Longrightarrow> u32 (18 + int n) = int (18 + n)"
  by (simp add: u32_id)

lemma super_layout: "super_inv s \<Longrightarrow> inode_blocks_start (sb s) = 18 \<and> data_blocks_start (sb s) = 146"
  by (simp add: super_inv_def layout_ok_def)

lemma super_readable: "super_inv s \<Longrightarrow> c < 146 \<Longrightarrow> readable (dev s) c"
proof -
  assume s: "super_inv s" and c: "c < 146"
  from s have "readable (dev s) 145" by (simp add: super_inv_def readable_def)
  with c show ?thesis by (simp add: readable_less)
qed

lemma read_inode_block_eq:
  assumes "0 \<le> i_nr i" "i_nr i < int NR_INODES" "inode_blocks_start (sb s) = 18"
    "\<And>c. c < 146 \<Longrightarrow> readable (dev s) c"
  shows "testfs_read_inode_block i s = Inr (dblk (dev s) (18 + nat (i_nr i) div 128))"
  using inode_place [OF assms(1,2)] assms(3) read_block [OF assms(4), of "18 + nat (i_nr i) div 128"]
  by (simp add: testfs_read_inode_block_def inode_block_nr del: One_nat_def)

lemma write_inode_block_eq:
  assumes "0 \<le> i_nr i" "i_nr i < int NR_INODES" "inode_blocks_start (sb s) = 18" "length b = BLOCK_SIZE"
  shows "testfs_write_inode_block i b s = Inr (s\<lparr>dev := dput (dev s) (18 + nat (i_nr i) div 128) b\<rparr>)"
  using inode_place [OF assms(1,2)] assms(3) write_block [OF assms(4), of "18 + nat (i_nr i) div 128"]
  by (simp add: testfs_write_inode_block_def inode_block_nr del: One_nat_def)

section \<open>Each operation\<close>

lemma get_inode_hit:
  assumes "hash_inv s" "iheap s p = Some i"
  shows "testfs_get_inode (i_nr i) s = Inr (p, set_inode p (i\<lparr>i_count := i_count i + 1\<rparr>) s)"
proof -
  have "inode_hash_find (i_nr i) s = Inr (Some p)"
    using it.lookup_Some [OF assms(1)] assms(2) by (simp add: inode_key_def)
  with assms(2) show ?thesis by (simp add: testfs_get_inode_def set_inode_def)
qed

definition loaded :: "fs \<Rightarrow> nat \<Rightarrow> inode" where
  "loaded s k = \<lparr>din = disk_inode (dev s) k, i_flags = 0, i_nr = int k, i_count = 1\<rparr>"

lemma loaded_simps [simp]:
  "din (loaded s k) = disk_inode (dev s) k" "i_flags (loaded s k) = 0" "i_nr (loaded s k) = int k"
  "i_count (loaded s k) = 1"
  by (simp_all add: loaded_def)

lemma get_inode_miss:
  assumes s: "inode_inv s" and k: "k < NR_INODES" and miss: "cached s (int k) = None"
  shows "testfs_get_inode (int k) s = Inr (next_addr s, add_inode (loaded s k) s)"
proof -
  have find: "inode_hash_find (int k) s = Inr None"
    using inv_hash [OF s]
  proof (cases rule: it.lookup_cases [of s "int k"])
    case (hit p)
    with miss show ?thesis by (auto simp: cached_def inode_key_def)
  qed
  let ?i = "\<lparr>din = zero_dinode, i_flags = 0, i_nr = int k, i_count = 1\<rparr>"
  let ?p = "next_addr s" and ?b = "dblk (dev s) (18 + k div 128)" and ?off = "k mod 128 * 64"
  let ?s1 = "s\<lparr>iheap := (iheap s)(?p \<mapsto> ?i), next_addr := Suc ?p\<rparr>"
  have rd: "testfs_read_inode_block ?i ?s1 = Inr ?b"
    using read_inode_block_eq [of ?i ?s1] k super_layout [OF inv_super [OF s]]
      super_readable [OF inv_super [OF s]] by simp
  have off: "testfs_inode_to_block_offset ?i = Inr (int ?off)"
    using inode_place(2) [of ?i] k by simp
  have cp: "memcpy (enc_dinode zero_dinode) 0 ?b (int ?off) 64 = Inr (take 64 (drop ?off ?b))"
    using memcpy_in [of 0 64 "enc_dinode zero_dinode" ?off ?b] inode_offset [of k]
    by (simp add: dic.enc_length)
  have dec: "dec_dinode (take 64 (drop ?off ?b)) = disk_inode (dev s) k"
    by (simp add: disk_inode_def dec_dinode_take)
  let ?s2 = "s\<lparr>next_addr := Suc ?p, iheap := (iheap s)(?p \<mapsto> loaded s k)\<rparr>"
  have "inode_hash_insert ?p ?s2 = Inr (add_inode (loaded s k) s)"
    using inode_hash_insert_new [of ?s2 ?p "loaded s k"] hash_len [OF inv_hash [OF s]]
    by (simp add: add_inode_def)
  then show ?thesis
    using find rd off cp dec inv_malloc [OF s] by (simp add: testfs_get_inode_def loaded_def Let_def)
qed

lemma sync_inode_eq:
  assumes s: "inode_inv s" and p: "iheap s p = Some i"
  shows "testfs_sync_inode p s = Inr (if dirty i
    then set_inode p (set_clean i)
           (s\<lparr>dev := put_disk_inode (dev s) (nat (i_nr i)) (din i)\<rparr>)
    else s)"
proof (cases "dirty i")
  case False
  with p show ?thesis by (simp add: testfs_sync_inode_def)
next
  case True
  define n where "n = nat (i_nr i)"
  note nr = inv_nr [OF s p]
  let ?b = "dblk (dev s) (18 + n div 128)" and ?off = "n mod 128 * 64"
  have lay: "inode_blocks_start (sb s) = 18" using super_layout [OF inv_super [OF s]] by simp
  have rd: "testfs_read_inode_block i s = Inr ?b"
    using read_inode_block_eq [of i s] nr lay super_readable [OF inv_super [OF s]] by (simp add: n_def)
  have off: "testfs_inode_to_block_offset i = Inr (int ?off)"
    using inode_place(2) [of i] nr by (simp add: n_def)
  have cp: "memcpy ?b (int ?off) (enc_dinode (din i)) 0 64 = Inr (dic.patch ?b ?off (din i))"
    using memcpy_in [of ?off 64 ?b 0 "enc_dinode (din i)"] inode_offset [of n]
    by (simp add: dic.enc_length dic.patch_def)
  have "testfs_write_inode_block i (dic.patch ?b ?off (din i)) s
      = Inr (s\<lparr>dev := put_disk_inode (dev s) n (din i)\<rparr>)"
    using write_inode_block_eq [of i s "dic.patch ?b ?off (din i)"] nr lay length_inode_patch
    by (simp add: n_def put_disk_inode_def)
  with rd off cp True p show ?thesis
    by (simp add: testfs_sync_inode_def set_inode_def n_def)
qed

lemma put_inode_eq:
  assumes "hash_inv s" "iheap s p = Some i"
  shows "testfs_put_inode p s = (if dirty i then Inl AssertFailed
    else Inr (if i_count i = 1 then drop_inode p s else set_inode p (i\<lparr>i_count := i_count i - 1\<rparr>) s))"
proof -
  have "list_ex (\<lambda>b. p \<in> set b) (inode_hash_table s)"
    using hash_live(3) [OF assms] hash_len [OF assms(1)] inode_hashfn_bound
    unfolding list_ex_length by metis
  then have "inode_hash_remove p (s\<lparr>iheap := h\<rparr>)
      = Inr (s\<lparr>iheap := h, inode_hash_table := map (remove1 p) (inode_hash_table s)\<rparr>)" for h
    by (simp add: inode_hash_remove_def)
  with assms(2) show ?thesis
    by (simp add: testfs_put_inode_def drop_inode_def set_inode_def)
qed

section \<open>The interface: a transparent write-back cache\<close>

text \<open>What the cache may change besides its own table: the inode blocks of the disk.\<close>

definition cache_frame :: "fs \<Rightarrow> fs \<Rightarrow> bool" where
  "cache_frame s s' \<longleftrightarrow> sb s' = sb s \<and> inode_freemap s' = inode_freemap s
     \<and> block_freemap s' = block_freemap s \<and> malloc_ok s' = malloc_ok s \<and> out s' = out s
     \<and> (\<forall>c. readable (dev s) c \<longrightarrow> readable (dev s') c)
     \<and> (\<forall>c. c < 18 \<or> 146 \<le> c \<longrightarrow> dblk (dev s') c = dblk (dev s) c)"

lemma cache_frame_refl [simp]: "cache_frame s s"
  by (simp add: cache_frame_def)

lemma cache_frame_trans: "cache_frame s t \<Longrightarrow> cache_frame t u \<Longrightarrow> cache_frame s u"
  by (simp add: cache_frame_def)

lemma super_inv_cache_frame:
  assumes f: "cache_frame s s'" and s: "super_inv s"
  shows "super_inv s'"
proof -
  have "readable (dev s') 145" using f super_readable [OF s, of 145] by (simp add: cache_frame_def)
  then have "146 * BLOCK_SIZE \<le> length (dev s')" by (simp add: readable_def)
  with f s show ?thesis
    by (auto simp: cache_frame_def super_inv_def intro: freemap_ok_frame)
qed

lemma cache_frame_used: "cache_frame s s' \<Longrightarrow> bused s' = bused s \<and> iused s' = iused s"
  by (simp add: cache_frame_def bused_def iused_def)

text \<open>\<open>obj s p\<close>: the key, the value and the dirty flag of the object \<open>p\<close> points to.\<close>

locale object_cache =
  fixes inv :: "'s \<Rightarrow> bool" and frame :: "'s \<Rightarrow> 's \<Rightarrow> bool" and limit :: nat
    and obj :: "'s \<Rightarrow> nat \<Rightarrow> (nat \<times> 'v \<times> bool) option"
    and view :: "'s \<Rightarrow> nat \<Rightarrow> 'v" and refs :: "'s \<Rightarrow> nat \<Rightarrow> int"
    and get :: "int \<Rightarrow> 's \<Rightarrow> (nat \<times> 's) result"
    and sync :: "nat \<Rightarrow> 's \<Rightarrow> 's result" and put :: "nat \<Rightarrow> 's \<Rightarrow> 's result"
  assumes get_spec: "inv s \<Longrightarrow> k < limit \<Longrightarrow> \<exists>p s' d. get (int k) s = Inr (p, s') \<and> inv s' \<and> frame s s'
      \<and> obj s' p = Some (k, view s k, d) \<and> (d \<longrightarrow> obj s p = obj s' p)
      \<and> (\<forall>q. q \<noteq> p \<longrightarrow> obj s' q = obj s q)
      \<and> view s' = view s \<and> refs s' = (refs s)(k := refs s k + 1)"
    and sync_spec: "inv s \<Longrightarrow> obj s p = Some (k, x, d) \<Longrightarrow> \<exists>s'. sync p s = Inr s' \<and> inv s' \<and> frame s s'
      \<and> obj s' p = Some (k, x, False) \<and> (\<forall>q. q \<noteq> p \<longrightarrow> obj s' q = obj s q)
      \<and> view s' = view s \<and> refs s' = refs s"
    and put_spec: "inv s \<Longrightarrow> obj s p = Some (k, x, False) \<Longrightarrow> \<exists>s'. put p s = Inr s' \<and> inv s' \<and> frame s s'
      \<and> (\<forall>q. q \<noteq> p \<longrightarrow> obj s' q = obj s q) \<and> view s' = view s \<and> refs s' = (refs s)(k := refs s k - 1)"
    and put_dirty: "inv s \<Longrightarrow> obj s p = Some (k, x, True) \<Longrightarrow> put p s = Inl AssertFailed"
    and frame_trans: "frame s t \<Longrightarrow> frame t u \<Longrightarrow> frame s u"
begin

text \<open>Taking a reference, writing back and dropping the reference is not observable.\<close>

lemma sync_put:
  assumes "inv s" "obj s p = Some (k, x, d)"
  obtains s1 s2 where "sync p s = Inr s1" "put p s1 = Inr s2" "inv s2" "frame s s2" "view s2 = view s"
    "refs s2 = (refs s)(k := refs s k - 1)" "\<And>q. q \<noteq> p \<Longrightarrow> obj s2 q = obj s q"
proof -
  from sync_spec [OF assms] obtain s1 where
    s1: "sync p s = Inr s1" "inv s1" "frame s s1" "obj s1 p = Some (k, x, False)"
      "\<forall>q. q \<noteq> p \<longrightarrow> obj s1 q = obj s q" "view s1 = view s" "refs s1 = refs s" by blast
  from put_spec [OF s1(2,4)] obtain s2 where
    s2: "put p s1 = Inr s2" "inv s2" "frame s1 s2" "\<forall>q. q \<noteq> p \<longrightarrow> obj s2 q = obj s1 q"
      "view s2 = view s1" "refs s2 = (refs s1)(k := refs s1 k - 1)" by blast
  show thesis
    by (rule that [OF s1(1) s2(1,2) frame_trans [OF s1(3) s2(3)]]) (use s1 s2 in auto)
qed

lemma get_sync_put:
  assumes "inv s" "k < limit"
  obtains p s1 s2 s3 where "get (int k) s = Inr (p, s1)" "sync p s1 = Inr s2" "put p s2 = Inr s3"
    "inv s3" "frame s s3" "view s3 = view s" "refs s3 = refs s"
proof -
  from get_spec [OF assms] obtain p s1 d where
    s1: "get (int k) s = Inr (p, s1)" "inv s1" "frame s s1" "obj s1 p = Some (k, view s k, d)"
      "view s1 = view s" "refs s1 = (refs s)(k := refs s k + 1)" by blast
  from s1(2,4) obtain s2 s3 where
    s3: "sync p s1 = Inr s2" "put p s2 = Inr s3" "inv s3" "frame s1 s3" "view s3 = view s1"
      "refs s3 = (refs s1)(k := refs s1 k - 1)"
    by (rule sync_put)
  show thesis
    by (rule that [OF s1(1) s3(1-3) frame_trans [OF s1(3) s3(4)]]) (use s1 s3 in auto)
qed

end

definition iobj :: "fs \<Rightarrow> nat \<Rightarrow> (nat \<times> dinode \<times> bool) option" where
  "iobj s p = map_option (\<lambda>i. (nat (i_nr i), din i, dirty i)) (iheap s p)"

lemma iobj_Some: "iobj s p = Some (k, x, d) \<longleftrightarrow>
    (\<exists>i. iheap s p = Some i \<and> nat (i_nr i) = k \<and> din i = x \<and> dirty i = d)"
  by (auto simp: iobj_def)

lemma get_inode_spec:
  assumes s: "inode_inv s" and k: "k < NR_INODES"
  shows "\<exists>p s' d. testfs_get_inode (int k) s = Inr (p, s') \<and> inode_inv s' \<and> cache_frame s s'
      \<and> iobj s' p = Some (k, iview s k, d) \<and> (d \<longrightarrow> iobj s p = iobj s' p)
      \<and> (\<forall>q. q \<noteq> p \<longrightarrow> iobj s' q = iobj s q)
      \<and> iview s' = iview s \<and> irefs s' = (irefs s)(k := irefs s k + 1)"
proof (cases "cached s (int k)")
  case (Some i)
  note h = inv_hash [OF s]
  from Some obtain p where p: "iheap s p = Some i" "i_nr i = int k" using cached_Some [OF h] by blast
  let ?i = "i\<lparr>i_count := i_count i + 1\<rparr>"
  let ?s = "set_inode p ?i s"
  have h': "hash_inv ?s"
    by (rule hash_inv_set [OF h p(1)]) (use hash_live(2) [OF h p(1)] in simp_all)
  have same: "iheap ?s = (iheap s)(p \<mapsto> ?i)" "dev ?s = dev s" "sb ?s = sb s" "malloc_ok ?s = malloc_ok s"
    "inode_freemap ?s = inode_freemap s" "block_freemap ?s = block_freemap s" "out ?s = out s"
    by simp_all
  have c: "cached ?s = (cached s)(int k := Some ?i)"
    using cached_upd [OF h h' same(1)] p by auto
  have f: "cache_frame s ?s" using same by (simp add: cache_frame_def)
  have "inode_inv ?s"
    by (rule inode_invI [OF super_inv_cache_frame [OF f inv_super [OF s]] h'])
       (use same inv_malloc [OF s] inv_nr [OF s] inv_valid [OF s] inv_clean [OF s] inv_clean [OF s p(1)] p k in
         \<open>auto split: if_splits\<close>)
  moreover have "iview ?s = iview s" using Some by (intro ext) (simp add: iview_def c split: option.splits)
  moreover have "irefs ?s = (irefs s)(k := irefs s k + 1)" using Some by (intro ext) (simp add: irefs_def c split: option.splits)
  moreover have "iobj ?s p = iobj s p" "iobj ?s p = Some (k, iview s k, dirty i)"
    "\<forall>q. q \<noteq> p \<longrightarrow> iobj ?s q = iobj s q"
    using p Some by (simp_all add: iobj_def same iview_def)
  ultimately show ?thesis using f get_inode_hit [OF h p(1)] p(2) by (metis (no_types))
next
  case None
  note h = inv_hash [OF s]
  let ?i = "loaded s k"
  let ?p = "next_addr s"
  let ?s = "add_inode ?i s"
  have new: "inode_key s q \<noteq> Some (int k)" for q
    using None cached_Some [OF h, of "int k"] by (auto simp: inode_key_def)
  have h': "hash_inv ?s" by (rule hash_inv_add [OF h]) (use new in simp_all)
  have same: "iheap ?s = (iheap s)(?p \<mapsto> ?i)" "dev ?s = dev s" "sb ?s = sb s" "malloc_ok ?s = malloc_ok s"
    "inode_freemap ?s = inode_freemap s" "block_freemap ?s = block_freemap s" "out ?s = out s"
    by simp_all
  have fresh: "iheap s ?p = None" by (rule hash_inv_fresh [OF h])
  have c: "cached ?s = (cached s)(int k := Some ?i)"
    using cached_upd [OF h h' same(1)] fresh by auto
  have f: "cache_frame s ?s" using same by (simp add: cache_frame_def)
  have "inode_inv ?s"
    by (rule inode_invI [OF super_inv_cache_frame [OF f inv_super [OF s]] h'])
       (use same inv_malloc [OF s] inv_nr [OF s] inv_valid [OF s] inv_clean [OF s] k in
         \<open>auto split: if_splits simp: disk_inode_valid\<close>)
  moreover have "iview ?s = iview s"
    using None by (intro ext) (simp add: iview_def c split: option.splits)
  moreover have "irefs ?s = (irefs s)(k := irefs s k + 1)"
    using None by (intro ext) (simp add: irefs_def c split: option.splits)
  moreover have "iobj ?s ?p = Some (k, iview s k, False)"
    "\<forall>q. q \<noteq> ?p \<longrightarrow> iobj ?s q = iobj s q"
    using None by (simp_all add: iobj_def same iview_def)
  ultimately show ?thesis using f get_inode_miss [OF s k None] by blast
qed

lemma cache_frame_put_disk: "nr < NR_INODES \<Longrightarrow> cache_frame s (s\<lparr>dev := put_disk_inode (dev s) nr x\<rparr>)"
  by (auto simp: cache_frame_def put_disk_inode_def readable_dput_mono dblk_dput length_inode_patch
      less_mult_imp_div_less)

lemma sync_inode_spec:
  assumes s: "inode_inv s" and o: "iobj s p = Some (k, x, d)"
  shows "\<exists>s'. testfs_sync_inode p s = Inr s' \<and> inode_inv s' \<and> cache_frame s s'
      \<and> iobj s' p = Some (k, x, False) \<and> (\<forall>q. q \<noteq> p \<longrightarrow> iobj s' q = iobj s q)
      \<and> iview s' = iview s \<and> irefs s' = irefs s"
proof -
  note h = inv_hash [OF s]
  from o obtain i where p: "iheap s p = Some i" "nat (i_nr i) = k" "din i = x" "dirty i = d"
    by (auto simp: iobj_Some)
  note nr = inv_nr [OF s p(1)] and v = inv_valid [OF s p(1)]
  from p(2) nr have k: "i_nr i = int k" "k < NR_INODES" by auto
  show ?thesis
  proof (cases "dirty i")
    case False
    with p sync_inode_eq [OF s p(1)] s o show ?thesis by simp
  next
    case True
    let ?i = "set_clean i"
    let ?d = "put_disk_inode (dev s) k x"
    let ?s = "set_inode p ?i (s\<lparr>dev := ?d\<rparr>)"
    have h': "hash_inv ?s"
      by (rule hash_inv_set [of _ p i]) (use hash_live(2) [OF h p(1)] h p in \<open>simp_all add: hash_inv_def\<close>)
    have same: "iheap ?s = (iheap s)(p \<mapsto> ?i)" "dev ?s = ?d" "sb ?s = sb s" "malloc_ok ?s = malloc_ok s"
      "inode_freemap ?s = inode_freemap s" "block_freemap ?s = block_freemap s" "out ?s = out s"
      by simp_all
    have c: "cached ?s = (cached s)(int k := Some ?i)"
      using cached_upd [OF h h' same(1)] p(1) k by auto
    have f: "cache_frame s ?s"
      using cache_frame_put_disk [OF k(2), of s x] same by (simp add: cache_frame_def)
    have disk: "disk_inode ?d j = (if j = k then x else disk_inode (dev s) j)" for j
      by (rule disk_inode_put) (use v p(3) in simp)
    have other: "nat (i_nr j) \<noteq> k" if "iheap s q = Some j" "q \<noteq> p" for q j
    proof
      assume "nat (i_nr j) = k"
      with inv_nr [OF s that(1)] k(1) have "i_nr j = i_nr i" by linarith
      with hash_inj [OF h that(1) p(1)] that(2) show False by simp
    qed
    have "inode_inv ?s"
    proof (rule inode_invI [OF super_inv_cache_frame [OF f inv_super [OF s]] h'])
      show "malloc_ok ?s n" for n using same inv_malloc [OF s] by simp
      fix q j assume q: "iheap ?s q = Some j"
      show "0 \<le> i_nr j \<and> i_nr j < int NR_INODES \<and> dinode_valid (din j)
          \<and> (\<not> dirty j \<longrightarrow> disk_inode (dev ?s) (nat (i_nr j)) = din j)"
      proof (cases "q = p")
        case True
        with q have "j = set_clean i" by simp
        with v k p(3) show ?thesis by (simp add: disk)
      next
        case False
        with q have q': "iheap s q = Some j" by (simp add: same)
        with other [OF q' False] show ?thesis
          using inv_nr [OF s q'] inv_valid [OF s q'] inv_clean [OF s q'] by (simp add: same disk)
      qed
    qed
    moreover have ci: "cached s (int k) = Some i" using cached_at [OF h p(1)] k by simp
    then have "iview ?s = iview s" "irefs ?s = irefs s"
      by (intro ext; simp add: iview_def irefs_def c disk p(3) split: option.splits)+
    moreover have "iobj ?s p = Some (k, x, False)" "\<forall>q. q \<noteq> p \<longrightarrow> iobj ?s q = iobj s q"
      using p by (simp_all add: iobj_def same)
    ultimately show ?thesis using f True sync_inode_eq [OF s p(1)] p(2,3) by auto
  qed
qed

lemma put_inode_spec:
  assumes s: "inode_inv s" and o: "iobj s p = Some (k, x, False)"
  shows "\<exists>s'. testfs_put_inode p s = Inr s' \<and> inode_inv s' \<and> cache_frame s s'
      \<and> (\<forall>q. q \<noteq> p \<longrightarrow> iobj s' q = iobj s q) \<and> iview s' = iview s \<and> irefs s' = (irefs s)(k := irefs s k - 1)"
proof -
  note h = inv_hash [OF s]
  from o obtain i where p: "iheap s p = Some i" "nat (i_nr i) = k" "din i = x" "\<not> dirty i"
    by (auto simp: iobj_Some)
  from p(2) inv_nr [OF s p(1)] have k: "i_nr i = int k" "k < NR_INODES" by auto
  have ci: "cached s (int k) = Some i" using cached_at [OF h p(1)] k by simp
  show ?thesis
  proof (cases "i_count i = 1")
    case False
    let ?i = "i\<lparr>i_count := i_count i - 1\<rparr>"
    let ?s = "set_inode p ?i s"
    have h': "hash_inv ?s"
      by (rule hash_inv_set [OF h p(1)]) (use hash_live(2) [OF h p(1)] False in simp_all)
    have same: "iheap ?s = (iheap s)(p \<mapsto> ?i)" "dev ?s = dev s" "sb ?s = sb s" "malloc_ok ?s = malloc_ok s"
      "inode_freemap ?s = inode_freemap s" "block_freemap ?s = block_freemap s" "out ?s = out s"
      by simp_all
    have c: "cached ?s = (cached s)(int k := Some ?i)"
      using cached_upd [OF h h' same(1)] p(1) k by auto
    have f: "cache_frame s ?s" using same by (simp add: cache_frame_def)
    have "inode_inv ?s"
      by (rule inode_invI [OF super_inv_cache_frame [OF f inv_super [OF s]] h'])
         (use same inv_malloc [OF s] inv_nr [OF s] inv_valid [OF s] inv_clean [OF s] p in
           \<open>auto split: if_splits\<close>)
    moreover have "iview ?s = iview s" "irefs ?s = (irefs s)(k := irefs s k - 1)"
      using ci by (auto simp: iview_def irefs_def c same split: option.splits)
    moreover have "\<forall>q. q \<noteq> p \<longrightarrow> iobj ?s q = iobj s q" by (simp add: iobj_def same)
    ultimately show ?thesis using f False p(4) put_inode_eq [OF h p(1)] by auto
  next
    case True
    let ?s = "drop_inode p s"
    have h': "hash_inv ?s" by (rule hash_inv_drop [OF h])
    have same: "iheap ?s = (iheap s)(p := None)" "dev ?s = dev s" "sb ?s = sb s" "malloc_ok ?s = malloc_ok s"
      "inode_freemap ?s = inode_freemap s" "block_freemap ?s = block_freemap s" "out ?s = out s"
      by simp_all
    have c: "cached ?s = (cached s)(int k := None)"
      using cached_drop [OF h h' same(1) p(1)] k by simp
    have disk: "disk_inode (dev s) k = din i" using inv_clean [OF s p(1,4)] p(2) by simp
    have f: "cache_frame s ?s" using same by (simp add: cache_frame_def)
    have "inode_inv ?s"
      by (rule inode_invI [OF super_inv_cache_frame [OF f inv_super [OF s]] h'])
         (use same inv_malloc [OF s] inv_nr [OF s] inv_valid [OF s] inv_clean [OF s] in
           \<open>auto split: if_splits\<close>)
    moreover have "iview ?s = iview s" "irefs ?s = (irefs s)(k := irefs s k - 1)"
      using ci True disk by (auto simp: iview_def irefs_def c same split: option.splits)
    moreover have "\<forall>q. q \<noteq> p \<longrightarrow> iobj ?s q = iobj s q" by (simp add: iobj_def same)
    ultimately show ?thesis using f True p(4) put_inode_eq [OF h p(1)] by auto
  qed
qed

interpretation ic: object_cache inode_inv cache_frame NR_INODES iobj iview irefs
    testfs_get_inode testfs_sync_inode testfs_put_inode
proof unfold_locales
  show "testfs_put_inode p s = Inl AssertFailed" if "inode_inv s" "iobj s p = Some (k, x, True)" for s p k x
    using put_inode_eq [OF inv_hash [OF that(1)]] that(2) by (auto simp: iobj_Some)
qed (fact get_inode_spec sync_inode_spec put_inode_spec cache_frame_trans)+

section \<open>The super block underneath, and changing an inode\<close>

lemma hash_inv_same_mem: "same_mem s s' \<Longrightarrow> hash_inv s' = hash_inv s"
  by (rule hash_inv_cong) (simp_all add: same_mem_def)

lemma inode_inv_super:
  assumes s: "inode_inv s" and s': "super_inv s'" and m: "same_mem s s'" and f: "dev_frame B s s'"
    and B: "\<And>b. b \<in> B \<Longrightarrow> 146 \<le> b"
  shows "inode_inv s'" "iview s' k = (if k < NR_INODES then iview s k else iview s' k)"
    "irefs s' = irefs s" "iobj s' = iobj s"
proof -
  have h: "iheap s' = iheap s" "malloc_ok s' = malloc_ok s" using m by (simp_all add: same_mem_def)
  have hi: "hash_inv s'" using hash_inv_same_mem [OF m] inv_hash [OF s] by simp
  have disk: "disk_inode (dev s') k = disk_inode (dev s) k" if "k < NR_INODES" for k
    using f B by (intro disk_inode_cong [OF _ that]) (fastforce simp: dev_frame_def)
  show "inode_inv s'"
  proof (rule inode_invI [OF s' hi])
    fix p i assume p: "iheap s' p = Some i"
    then have p': "iheap s p = Some i" by (simp add: h)
    moreover have "nat (i_nr i) < NR_INODES" using inv_nr [OF s p'] by linarith
    ultimately show "0 \<le> i_nr i \<and> i_nr i < int NR_INODES \<and> dinode_valid (din i)
        \<and> (\<not> dirty i \<longrightarrow> disk_inode (dev s') (nat (i_nr i)) = din i)"
      using inv_nr [OF s p'] inv_valid [OF s p'] inv_clean [OF s p'] disk by simp
  qed (use h inv_malloc [OF s] in simp)
  have c: "cached s' = cached s" by (rule cached_heap [OF inv_hash [OF s] hi h(1)])
  show "iview s' k = (if k < NR_INODES then iview s k else iview s' k)"
    by (auto simp: iview_def c disk split: option.splits)
  show "irefs s' = irefs s" by (rule ext) (simp add: irefs_def c)
  show "iobj s' = iobj s" by (rule ext) (simp add: iobj_def h)
qed

lemma set_inode_inv:
  assumes s: "inode_inv s" and p: "iheap s p = Some i"
    and j: "i_nr j = i_nr i" "i_count j = i_count i" "dinode_valid (din j)" "dirty j"
  shows "inode_inv (set_inode p j s)" "iview (set_inode p j s) = (iview s)(nat (i_nr i) := din j)"
    "irefs (set_inode p j s) = irefs s" "cache_frame s (set_inode p j s)"
proof -
  note h = inv_hash [OF s]
  let ?s = "set_inode p j s"
  have h': "hash_inv ?s" by (rule hash_inv_set [OF h p]) (use hash_live(2) [OF h p] j in simp_all)
  show f: "cache_frame s ?s" by (simp add: cache_frame_def)
  have nr: "0 \<le> i_nr i \<and> i_nr i < int NR_INODES" by (rule inv_nr [OF s p])
  show "inode_inv ?s"
  proof (rule inode_invI [OF super_inv_cache_frame [OF f inv_super [OF s]] h'])
    fix q k assume "iheap ?s q = Some k"
    then have "k = j \<or> iheap s q = Some k" by (simp split: if_splits)
    then show "0 \<le> i_nr k \<and> i_nr k < int NR_INODES \<and> dinode_valid (din k)
        \<and> (\<not> dirty k \<longrightarrow> disk_inode (dev ?s) (nat (i_nr k)) = din k)"
      using nr j inv_nr [OF s] inv_valid [OF s] inv_clean [OF s] by auto
  qed (use inv_malloc [OF s] in simp)
  have c: "cached ?s = (cached s)(i_nr i := Some j)"
    using cached_upd [OF h h', of p j] p j(1) by simp
  have ci: "cached s (i_nr i) = Some i" by (rule cached_at [OF h p])
  have k: "int k = i_nr i \<longleftrightarrow> k = nat (i_nr i)" for k using nr by auto
  show "iview ?s = (iview s)(nat (i_nr i) := din j)"
    by (rule ext) (auto simp: iview_def c k split: option.splits)
  show "irefs ?s = irefs s"
    by (rule ext) (use ci j(2) nr in \<open>auto simp: irefs_def c k split: option.splits\<close>)
qed

text \<open>What an operation leaves alone that writes no data block.\<close>

definition data_frame :: "fs \<Rightarrow> fs \<Rightarrow> bool" where
  "data_frame s s' \<longleftrightarrow> max_fs_blocks (sb s') = max_fs_blocks (sb s) \<and> malloc_ok s' = malloc_ok s
     \<and> out s' = out s \<and> (\<forall>c. readable (dev s) c \<longrightarrow> readable (dev s') c)
     \<and> (\<forall>c \<ge> 146. dblk (dev s') c = dblk (dev s) c)"

lemma data_frame_refl [simp]: "data_frame s s"
  by (simp add: data_frame_def)

lemma data_frame_trans: "data_frame s t \<Longrightarrow> data_frame t u \<Longrightarrow> data_frame s u"
  by (simp add: data_frame_def)

lemma data_frame_cache: "cache_frame s s' \<Longrightarrow> data_frame s s'"
  by (simp add: data_frame_def cache_frame_def)

lemma data_frame_super: "same_mem s s' \<Longrightarrow> dev_frame {} s s' \<Longrightarrow> data_frame s s'"
  by (simp add: data_frame_def same_mem_def dev_frame_def)

lemma create_inode_cases:
  assumes s: "inode_inv s" and t: "is_s32 type"
  obtains (full) s' where "testfs_create_inode type s = Inr (- ENOSPC, None, s')" "{..<NR_INODES} \<subseteq> iused s"
      "inode_inv s'" "iused s' = iused s" "bused s' = bused s" "same_mem s s'" "dev_frame {} s s'"
      "\<And>j. j < NR_INODES \<Longrightarrow> iview s' j = iview s j" "irefs s' = irefs s" "iobj s' = iobj s"
  | (made) k p s' where "testfs_create_inode type s = Inr (0, Some p, s')" "k < NR_INODES"
      "k \<notin> iused s" "iused s' = insert k (iused s)" "bused s' = bused s" "inode_inv s'"
      "iobj s' p = Some (k, (iview s k)\<lparr>i_type := type\<rparr>, True)"
      "\<And>j. j < NR_INODES \<Longrightarrow> j \<noteq> k \<Longrightarrow> iview s' j = iview s j"
      "irefs s' = (irefs s)(k := irefs s k + 1)" "\<And>q. q \<noteq> p \<Longrightarrow> iobj s' q = iobj s q" "data_frame s s'"
proof (cases rule: get_inode_freemap_cases [OF inv_super [OF s], case_names none got])
  case none
  then have "testfs_create_inode type s = Inr (- ENOSPC, None, s)"
    by (simp add: testfs_create_inode_def)
  moreover have "{..<NR_INODES} \<subseteq> iused s" unfolding none(1) lessThan_subset_iff by simp
  ultimately show thesis by (rule full) (use s in simp_all)
next
  case (got k s1)
  note s1 = inode_inv_super [OF s got(7-9)]
  have ku: "u32 (int k) = int k" using got(2) by (simp add: u32_id)
  show thesis
  proof (cases "k < NR_INODES")
    case False
    from got(5) have "k \<in> iused s1" by simp
    then obtain s2 where s2: "testfs_put_inode_freemap (int k) s1 = Inr s2" "iused s2 = iused s1 - {k}"
        "bused s2 = bused s1" "super_inv s2" "same_mem s1 s2" "dev_frame {} s1 s2"
      by (rule put_inode_freemap_used [OF got(7)])
    have "128 \<le> int k div 128" using False by linarith
    then have "testfs_create_inode type s = Inr (- ENOSPC, None, s2)"
      using got(1) s2(1) ku by (simp add: testfs_create_inode_def)
    moreover note s12 = inode_inv_super [OF s1(1) s2(4-6), simplified]
    moreover have "iview s2 j = iview s j" if "j < NR_INODES" for j
      using s12(2) [of j] s1(2) [of j] that by simp
    moreover have "{..<NR_INODES} \<subseteq> iused s" using got(4) False by auto
    moreover have "iused s2 = iused s" using s2(2) got(3,5) by auto
    moreover have "dev_frame {} s s2" using dev_frame_trans [OF got(9) s2(6)] by simp
    ultimately show thesis
      using full [of s2] s2(3) got(6) same_mem_trans [OF got(8) s2(5)] s1(3,4) by simp
  next
    case True
    from get_inode_spec [OF s1(1) True] obtain p s2 d where
      s2: "testfs_get_inode (int k) s1 = Inr (p, s2)" "inode_inv s2" "cache_frame s1 s2"
        "iobj s2 p = Some (k, iview s1 k, d)" "iview s2 = iview s1"
        "irefs s2 = (irefs s1)(k := irefs s1 k + 1)" "\<And>q. q \<noteq> p \<Longrightarrow> iobj s2 q = iobj s1 q" by auto
    from s2(4) obtain i where i: "iheap s2 p = Some i" "nat (i_nr i) = k" "din i = iview s1 k"
      by (auto simp: iobj_Some)
    let ?j = "set_dirty (i\<lparr>din := (din i)\<lparr>i_type := type\<rparr>\<rparr>)"
    let ?s = "set_inode p ?j s2"
    have valid: "dinode_valid (din ?j)" using inv_valid [OF s2(2) i(1)] t by (simp add: dinode_valid_def)
    note s3 = set_inode_inv [OF s2(2) i(1), of ?j, simplified set_flags_simps, simplified, OF valid [simplified]]
    have "\<not> 128 \<le> int k div 128" using True by linarith
    then have "testfs_create_inode type s = Inr (0, Some p, ?s)"
      using got(1) s2(1) i(1) ku by (simp add: testfs_create_inode_def set_inode_def)
    moreover have "iused ?s = insert k (iused s)" "bused ?s = bused s"
      using cache_frame_used [OF cache_frame_trans [OF s2(3) s3(4)]] got(5,6) by auto
    moreover have "iview s1 k = iview s k" using s1(2) [of k] True by simp
    then have "iobj ?s p = Some (k, (iview s k)\<lparr>i_type := type\<rparr>, True)"
      using i by (simp add: iobj_def)
    moreover have "iview ?s j = iview s j" if "j < NR_INODES" "j \<noteq> k" for j
      using s3(2) s2(5) s1(2) [of j] that i(2) by auto
    moreover have "irefs ?s = (irefs s)(k := irefs s k + 1)" using s3(3) s2(6) s1(3) by simp
    moreover have "iobj ?s q = iobj s q" if "q \<noteq> p" for q
    proof -
      have "iobj ?s q = iobj s2 q" using that by (simp add: iobj_def)
      with s2(7) [OF that] s1(4) show ?thesis by simp
    qed
    moreover have "data_frame s ?s"
      using data_frame_super [OF got(8,9)] data_frame_cache [OF cache_frame_trans [OF s2(3) s3(4)]]
      by (rule data_frame_trans)
    ultimately show thesis using made [of p ?s k] s3(1) True got(3) by blast
  qed
qed

section \<open>Properties\<close>

lemma blank_inode_inv:
  assumes "0 \<le> m" "m \<le> nr_blocks_max" "\<And>n. mal n"
  shows "inode_inv (blank_fs mal m)"
  by (rule inode_invI [OF blank_fs_inv(1,2) [OF assms(1,2)]])
     (use blank_fs_inv(5) [OF assms(1,2)] assms(3) in \<open>simp_all add: blank_fs_def fresh_fs_def\<close>)

lemma test_inode_inv: "inode_inv test_fs"
  by (rule blank_inode_inv) simp_all

lemma created_inode:
  obtains k p s where "testfs_create_inode I_FILE test_fs = Inr (0, Some p, s)" "inode_inv s"
    "iobj s p = Some (k, (iview test_fs k)\<lparr>i_type := I_FILE\<rparr>, True)" "k < NR_INODES"
proof (cases rule: create_inode_cases [OF test_inode_inv, of I_FILE, case_names range full made])
  case (full s')
  have "(0 :: nat) \<in> {..<NR_INODES}" by simp
  with full(2) show thesis unfolding test_fs_inv by blast
qed (use that in auto)

text \<open>
  C26: \<open>testfs_get_inode\<close> is coherent: whether the inode was cached or is read from its slot on
  disk, the pointer it returns leads to the current content of that inode number; the content of
  no inode changes, one reference is counted, and every other pointer keeps its meaning.
\<close>

theorem get_inode_coherent:
  assumes "inode_inv s" "k < NR_INODES"
  shows "\<exists>p s' d. testfs_get_inode (int k) s = Inr (p, s') \<and> inode_inv s' \<and> cache_frame s s'
      \<and> iobj s' p = Some (k, iview s k, d) \<and> (\<forall>q. q \<noteq> p \<longrightarrow> iobj s' q = iobj s q)
      \<and> iview s' = iview s \<and> irefs s' = (irefs s)(k := irefs s k + 1)"
  using ic.get_spec [OF assms] by blast

theorem get_inode_coherent_witness:
  "\<exists>p s' d. testfs_get_inode 5 test_fs = Inr (p, s') \<and> iobj s' p = Some (5, iview test_fs 5, d)
    \<and> iview s' = iview test_fs"
  using get_inode_coherent [OF test_inode_inv, of 5] by auto

text \<open>
  Write-back and eviction lose nothing.  Once a modified inode is synced its slot on disk holds
  its content; putting it then drops the reference without touching any inode's content, and
  getting the number again, from memory or from disk, gives the same content.  Putting it
  without the sync fails an assertion.
\<close>

theorem inode_writeback_roundtrip:
  assumes "inode_inv s" "iobj s p = Some (k, x, True)" "k < NR_INODES"
  shows "testfs_put_inode p s = Inl AssertFailed
    \<and> (\<exists>s1 s2 q s3 d. testfs_sync_inode p s = Inr s1 \<and> disk_inode (dev s1) k = x
      \<and> testfs_put_inode p s1 = Inr s2 \<and> iview s2 = iview s \<and> irefs s2 = (irefs s)(k := irefs s k - 1)
      \<and> testfs_get_inode (int k) s2 = Inr (q, s3) \<and> iobj s3 q = Some (k, x, d) \<and> inode_inv s3)"
proof -
  from ic.sync_spec [OF assms(1,2)] obtain s1 where
    s1: "testfs_sync_inode p s = Inr s1" "inode_inv s1" "iobj s1 p = Some (k, x, False)"
      "iview s1 = iview s" "irefs s1 = irefs s" by blast
  from s1(3) obtain i where i: "iheap s1 p = Some i" "nat (i_nr i) = k" "din i = x" "\<not> dirty i"
    by (auto simp: iobj_Some)
  have disk: "disk_inode (dev s1) k = x" using inv_clean [OF s1(2) i(1,4)] i(2,3) by simp
  have "i_nr i = int k" using i(2) inv_nr [OF s1(2) i(1)] by linarith
  then have "cached s1 (int k) = Some i"
    using cached_at [OF inv_hash [OF s1(2)] i(1)] by simp
  then have x: "iview s1 k = x" using i(3) by (simp add: iview_def)
  from ic.put_spec [OF s1(2,3)] obtain s2 where
    s2: "testfs_put_inode p s1 = Inr s2" "inode_inv s2" "iview s2 = iview s1"
      "irefs s2 = (irefs s1)(k := irefs s1 k - 1)" by blast
  from ic.get_spec [OF s2(2) assms(3)] obtain q s3 d where
    "testfs_get_inode (int k) s2 = Inr (q, s3)" "inode_inv s3" "iobj s3 q = Some (k, iview s2 k, d)"
    by blast
  then show ?thesis using ic.put_dirty [OF assms(1,2)] s1 s2 disk x by auto
qed

theorem inode_writeback_roundtrip_witness:
  "\<exists>s p k x s1. inode_inv s \<and> iobj s p = Some (k, x, True) \<and> testfs_put_inode p s = Inl AssertFailed
    \<and> testfs_sync_inode p s = Inr s1 \<and> disk_inode (dev s1) k = x"
proof -
  obtain k p s where "inode_inv s" "iobj s p = Some (k, (iview test_fs k)\<lparr>i_type := I_FILE\<rparr>, True)"
      "k < NR_INODES" by (rule created_inode)
  from this inode_writeback_roundtrip [OF this] show ?thesis by blast
qed

text \<open>
  C39: \<open>testfs_create_inode\<close> (memory suffices) either hands out a number that has a slot on disk and was not in use,
  with one reference more, the given type, and no other inode's content or reference changed; or, when the 16384
  slots are taken, returns \<open>-ENOSPC\<close>, even where the freemap (which is four times as large) still had
  a free bit that must be given back: then the numbers and blocks in use, every inode, its references
  and every inode in memory are as they were.  In both cases the invariant holds, and no data block is written.
\<close>

theorem create_inode_bounds:
  assumes "inode_inv s" "is_s32 type"
  shows "(\<exists>s'. testfs_create_inode type s = Inr (- ENOSPC, None, s') \<and> {..<NR_INODES} \<subseteq> iused s
        \<and> iused s' = iused s \<and> bused s' = bused s \<and> inode_inv s'
        \<and> (\<forall>j < NR_INODES. iview s' j = iview s j) \<and> irefs s' = irefs s \<and> iheap s' = iheap s
        \<and> (\<forall>b \<ge> 146. dblk (dev s') b = dblk (dev s) b))
    \<or> (\<exists>k p s'. testfs_create_inode type s = Inr (0, Some p, s') \<and> k < NR_INODES \<and> k \<notin> iused s
        \<and> iused s' = insert k (iused s) \<and> iobj s' p = Some (k, (iview s k)\<lparr>i_type := type\<rparr>, True)
        \<and> (\<forall>j < NR_INODES. j \<noteq> k \<longrightarrow> iview s' j = iview s j)
        \<and> irefs s' = (irefs s)(k := irefs s k + 1) \<and> inode_inv s' \<and> bused s' = bused s
        \<and> (\<forall>q. q \<noteq> p \<longrightarrow> iobj s' q = iobj s q) \<and> (\<forall>b \<ge> 146. dblk (dev s') b = dblk (dev s) b))"
  using assms
proof (cases rule: create_inode_cases)
  case (full s')
  then have "iheap s' = iheap s" "\<forall>b \<ge> 146. dblk (dev s') b = dblk (dev s) b"
    by (auto simp: same_mem_def dev_frame_def)
  with full show ?thesis by blast
next
  case (made k p s')
  then have "\<forall>b \<ge> 146. dblk (dev s') b = dblk (dev s) b" by (auto simp: data_frame_def)
  with made show ?thesis by blast
qed

theorem create_inode_bounds_witness:
  "\<exists>k p s'. testfs_create_inode I_DIR test_fs = Inr (0, Some p, s') \<and> k < NR_INODES
    \<and> iused s' = {k} \<and> inode_inv s'"
proof -
  have "(0 :: nat) \<in> {..<NR_INODES}" by simp
  then have "\<not> {..<NR_INODES} \<subseteq> iused test_fs" unfolding test_fs_inv by blast
  with create_inode_bounds [OF test_inode_inv, of I_DIR] show ?thesis by (auto simp: test_fs_inv)
qed

lemma remount_spec:
  assumes "inode_inv s" "iheap s = Map.empty"
  obtains d s' where "testfs_close_super_block s = Inr d"
    "testfs_init_super_block (malloc_ok s) (Inr d) = Inr (0, Some s')" "inode_inv s'"
    "\<And>k. k < NR_INODES \<Longrightarrow> iview s' k = iview s k" "iused s' = iused s" "bused s' = bused s"
    "\<And>c. dblk (dev s') c = dblk (dev s) c" "\<And>c. readable (dev s) c \<Longrightarrow> readable (dev s') c"
proof -
  note s = inv_super [OF assms(1)] inv_hash [OF assms(1)] inv_malloc [OF assms(1)]
  from close_super_block_eq [OF s(1,2)] assms(2) obtain d where
    d: "testfs_close_super_block s = Inr d" "super_inv (s\<lparr>dev := d\<rparr>)" "\<forall>c. dblk d c = dblk (dev s) c" "length (dev s) \<le> length d"
    by auto
  let ?s = "remount (malloc_ok s) (s\<lparr>dev := d\<rparr>)"
  have mount: "testfs_init_super_block (malloc_ok s) (Inr d) = Inr (0, Some ?s)"
    using init_super_block_eq [OF d(2) s(3)] by simp
  have e: "iheap ?s = Map.empty" "dev ?s = d" "malloc_ok ?s = malloc_ok s"
    by (simp_all add: remount_def fresh_fs_def)
  have hash: "hash_inv ?s" by (rule remount_hash)
  have inv: "inode_inv ?s"
    by (rule inode_invI [OF remount_inv [OF d(2)] hash]) (use e s(3) in simp_all)
  have "cached t k = None" if "hash_inv t" "iheap t = Map.empty" for t k
    using cached_Some [OF that(1), of k] that(2) by (cases "cached t k") auto
  then have "iview ?s k = iview s k" if "k < NR_INODES" for k
    using disk_inode_cong [of "dev s" d k] d(3) that e hash assms(2) s(2) by (simp add: iview_def)
  moreover have "iused ?s = iused s" "bused ?s = bused s"
    by (simp_all add: iused_def bused_def remount_def)
  moreover have "readable d c" if "readable (dev s) c" for c using that d(4) by (simp add: readable_def)
  ultimately show thesis using that [OF d(1) mount inv] d(3) e(2) by auto
qed

text \<open>
  C19: durability.  If no inode is referenced, unmounting and mounting again gives a system with the
  same inodes, the same numbers and blocks in use and the same contents of every block.
\<close>

theorem remount_durable:
  assumes "inode_inv s" "iheap s = Map.empty"
  shows "\<exists>d s'. testfs_close_super_block s = Inr d
    \<and> testfs_init_super_block (malloc_ok s) (Inr d) = Inr (0, Some s')
    \<and> inode_inv s' \<and> (\<forall>k < NR_INODES. iview s' k = iview s k) \<and> iused s' = iused s \<and> bused s' = bused s
    \<and> (\<forall>c. dblk (dev s') c = dblk (dev s) c)"
  using remount_spec [OF assms] by metis

theorem remount_durable_witness:
  "\<exists>d s'. testfs_close_super_block test_fs = Inr d
    \<and> testfs_init_super_block (malloc_ok test_fs) (Inr d) = Inr (0, Some s') \<and> inode_inv s'"
  using remount_durable [OF test_inode_inv test_fs_inv(5)] by blast

end
