(* ===== verification/ReadWrite.thy ===== *)
theory ReadWrite
  imports Inode
begin

text \<open>
  \<open>src/fs/read_write.c\<close>: the block map of an inode (ten direct blocks, one indirect table, one
  double-indirect table) and reading, writing and truncating through it; with
  \<open>testfs_remove_inode\<close> of \<open>inode.c\<close>, which truncates.  This theory holds the code; the block map
  and what the functions do to it are in \<open>BlockMap\<close>, \<open>Allocate\<close>, \<open>FileData\<close> and \<open>Truncate\<close>.

  Conventions: \<open>block\<close> is the caller's buffer of one block, passed in and returned; \<open>long\<close> and
  \<open>off_t\<close> values are integers, converted with \<open>s32\<close>/\<open>s64\<close>/\<open>u64\<close> where the C types narrow them.
\<close>

section \<open>Reading\<close>

text \<open>The common tail of \<open>testfs_read_block\<close>: read the block, or zero the buffer.\<close>

definition read_phys :: "int \<Rightarrow> fs \<Rightarrow> (int \<times> byte list) result" where
  "read_phys phy_block_nr s =
     (if phy_block_nr > 0
      then bindr (read_blocks phy_block_nr 1 s) (\<lambda>block. Inr (phy_block_nr, block))
      else Inr (phy_block_nr, replicate BLOCK_SIZE 0))"

definition testfs_read_block :: "nat \<Rightarrow> int \<Rightarrow> byte list \<Rightarrow> fs \<Rightarrow> (int \<times> byte list) result" where
  "testfs_read_block p log_block_nr block s =
     bindr (c_assert (log_block_nr \<ge> 0)) (\<lambda>_.
     bindr (deref p s) (\<lambda>i.
     if log_block_nr < NR_DIRECT_BLOCKS then
       bindr (arr_get (i_block_nr (din i)) (nat log_block_nr)) (\<lambda>phy_block_nr.
       read_phys phy_block_nr s)
     else
       let log_block_nr = log_block_nr - NR_DIRECT_BLOCKS in
       if log_block_nr \<ge> NR_INDIRECT_BLOCKS then
         let log_block_nr = log_block_nr - NR_INDIRECT_BLOCKS in
         if log_block_nr \<ge> NR_INDIRECT_BLOCKS * NR_INDIRECT_BLOCKS then Inr (- EFBIG, block)
         else if i_dindirect (din i) > 0 then
           bindr (read_blocks (i_dindirect (din i)) 1 s) (\<lambda>block.
           bindr (int_get block (log_block_nr div NR_INDIRECT_BLOCKS)) (\<lambda>di_addr.
           if di_addr > 0 then
             bindr (read_blocks di_addr 1 s) (\<lambda>block.
             bindr (int_get block (log_block_nr mod NR_INDIRECT_BLOCKS)) (\<lambda>phy_block_nr.
             read_phys phy_block_nr s))
           else Inr (di_addr, block)))
         else read_phys 0 s
       else if i_indirect (din i) > 0 then
         bindr (read_blocks (i_indirect (din i)) 1 s) (\<lambda>block.
         bindr (int_get block log_block_nr) (\<lambda>phy_block_nr.
         read_phys phy_block_nr s))
       else read_phys 0 s))"

text \<open>
  The \<open>while\<close> loop of \<open>testfs_read_data\<close> and what follows it: whole blocks, then the last one
  (both begin with the same \<open>testfs_read_block\<close>).  The C variable \<open>size\<close> is \<open>sz\<close>.
  The result is the return value and \<open>buf\<close>.
\<close>

function read_blocks_loop ::
  "nat \<Rightarrow> int \<Rightarrow> int \<Rightarrow> int \<Rightarrow> int \<Rightarrow> int \<Rightarrow> byte list \<Rightarrow> byte list \<Rightarrow> fs \<Rightarrow> (int \<times> byte list) result" where
  "read_blocks_loop p block_nr block_ix sz block_increment leftover_size buf block s =
     bindr (testfs_read_block p (s32 (block_nr + block_increment)) block s) (\<lambda>(ret, block).
     if ret < 0 then Inr (ret, buf)
     else if leftover_size > int BLOCK_SIZE then
       bindr (memcpy buf (int BLOCK_SIZE * block_increment - block_ix) block 0 (int BLOCK_SIZE)) (\<lambda>buf.
       read_blocks_loop p block_nr block_ix sz (block_increment + 1)
         (leftover_size - int BLOCK_SIZE) buf block s)
     else
       bindr (memcpy buf (int BLOCK_SIZE * block_increment - block_ix) block 0 leftover_size) (\<lambda>buf.
       Inr (s32 sz, buf)))"
  by pat_completeness auto
termination
  by (relation "measure (\<lambda>(p, nr, ix, sz, inc, left, buf, block, s). nat left)")
     (auto simp: BLOCK_SIZE_def)

declare read_blocks_loop.simps [simp del]

text \<open>The buffer \<open>block\<close> is not initialised in C; no path reads it before it is filled.\<close>

definition testfs_read_data :: "nat \<Rightarrow> byte list \<Rightarrow> int \<Rightarrow> int \<Rightarrow> fs \<Rightarrow> (int \<times> byte list) result" where
  "testfs_read_data p buf start sz s =
     (let block = replicate BLOCK_SIZE 0;
          block_nr = start sdiv int BLOCK_SIZE;
          block_ix = start smod int BLOCK_SIZE
      in bindr (deref p s) (\<lambda>i.
         let sz = (if s64 (start + s64 sz) > i_size (din i) then u64 (i_size (din i) - start) else sz)
         in if u64 (block_ix + sz) > int BLOCK_SIZE then
              bindr (testfs_read_block p (s32 block_nr) block s) (\<lambda>(ret, block).
              if ret < 0 then Inr (ret, buf)
              else
                bindr (memcpy buf 0 block block_ix (int BLOCK_SIZE - block_ix)) (\<lambda>buf.
                read_blocks_loop p block_nr block_ix sz 1
                  (s32 (sz - int BLOCK_SIZE + block_ix)) buf block s))
            else
              bindr (testfs_read_block p (s32 block_nr) block s) (\<lambda>(ret, block).
              if ret < 0 then Inr (ret, buf)
              else bindr (memcpy buf 0 block block_ix sz) (\<lambda>buf. Inr (s32 sz, buf)))))"

section \<open>Allocating\<close>

text \<open>
  The part of \<open>testfs_allocate_block\<close> for a block that is reached through the double-indirect
  table, in its three steps: the double-indirect table itself, the table it lists at \<open>di_index\<close>,
  the data block.  The first component of each result is the return value if it is negative.
\<close>

definition dind_root :: "nat \<Rightarrow> fs \<Rightarrow> (int \<times> byte list \<times> bool \<times> fs) result" where
  "dind_root p s =
     bindr (deref p s) (\<lambda>i.
     if i_dindirect (din i) = 0 then
       bindr (testfs_alloc_block_for_inode p s) (\<lambda>(phy_block_nr, s1).
       if phy_block_nr < 0 then Inr (phy_block_nr, replicate BLOCK_SIZE 0, False, s1)
       else bindr (upd_inode p (\<lambda>i. i\<lparr>din := (din i)\<lparr>i_dindirect := phy_block_nr\<rparr>\<rparr>) s1) (\<lambda>s2.
            Inr (phy_block_nr, replicate BLOCK_SIZE 0, True, s2)))
     else
       bindr (read_blocks (i_dindirect (din i)) 1 s) (\<lambda>di_block. Inr (0, di_block, False, s)))"

definition dind_table ::
  "nat \<Rightarrow> int \<Rightarrow> byte list \<Rightarrow> bool \<Rightarrow> fs \<Rightarrow> (int \<times> byte list \<times> byte list \<times> bool \<times> fs) result" where
  "dind_table p di_index di_block di_block_available s =
     bindr (int_get di_block di_index) (\<lambda>e.
     if e = 0 then
       bindr (testfs_alloc_block_for_inode p s) (\<lambda>(phy_block_nr, s1).
       bindr (deref p s1) (\<lambda>i.
       if phy_block_nr < 0 then
         bindr (if di_block_available
                then testfs_free_block_from_inode p (i_dindirect (din i)) s1 else Inr s1) (\<lambda>s2.
         Inr (phy_block_nr, di_block, [], False, s2))
       else
         bindr (int_set di_block di_index phy_block_nr) (\<lambda>di_block.
         bindr (write_blocks di_block (i_dindirect (din i)) 1 s1) (\<lambda>s2.
         Inr (phy_block_nr, di_block, replicate BLOCK_SIZE 0, True, s2)))))
     else
       bindr (read_blocks e 1 s) (\<lambda>indirect. Inr (0, di_block, indirect, False, s)))"

definition dind_data ::
  "nat \<Rightarrow> int \<Rightarrow> byte list \<Rightarrow> byte list \<Rightarrow> bool \<Rightarrow> bool \<Rightarrow> fs \<Rightarrow> (int \<times> fs) result" where
  "dind_data p log_block_nr di_block indirect di_block_available indirect_allocated s =
     bindr (int_get di_block (log_block_nr div NR_INDIRECT_BLOCKS)) (\<lambda>e.
     bindr (testfs_alloc_block_for_inode p s) (\<lambda>(phy_block_nr, s1).
     if phy_block_nr < 0 then
       bindr (if di_block_available then
                bindr (testfs_free_block_from_inode p e s1) (\<lambda>s2.
                bindr (deref p s2) (\<lambda>i.
                testfs_free_block_from_inode p (i_dindirect (din i)) s2))
              else if indirect_allocated then testfs_free_block_from_inode p e s1
              else Inr s1) (\<lambda>s3.
       Inr (phy_block_nr, s3))
     else
       bindr (int_set indirect (log_block_nr mod NR_INDIRECT_BLOCKS) phy_block_nr) (\<lambda>indirect.
       bindr (write_blocks indirect e 1 s1) (\<lambda>s2.
       Inr (phy_block_nr, s2)))))"

definition allocate_dindirect :: "nat \<Rightarrow> int \<Rightarrow> fs \<Rightarrow> (int \<times> fs) result" where
  "allocate_dindirect p log_block_nr s =
     bindr (dind_root p s) (\<lambda>(ret, di_block, di_block_available, s1).
     if ret < 0 then Inr (ret, s1)
     else
       bindr (dind_table p (log_block_nr div NR_INDIRECT_BLOCKS) di_block di_block_available s1)
         (\<lambda>(ret, di_block, indirect, indirect_allocated, s2).
       if ret < 0 then Inr (ret, s2)
       else dind_data p log_block_nr di_block indirect di_block_available indirect_allocated s2))"

text \<open>The part for a block that is reached through the indirect table.\<close>

definition allocate_indirect :: "nat \<Rightarrow> int \<Rightarrow> fs \<Rightarrow> (int \<times> fs) result" where
  "allocate_indirect p log_block_nr s =
     bindr (deref p s) (\<lambda>i.
     bindr (if i_indirect (din i) = 0
            then bindr (testfs_alloc_block_for_inode p s) (\<lambda>(phy_block_nr, s1).
                 if phy_block_nr < 0 then Inr (phy_block_nr, [], False, s1)
                 else bindr (upd_inode p (\<lambda>i. i\<lparr>din := (din i)\<lparr>i_indirect := phy_block_nr\<rparr>\<rparr>) s1) (\<lambda>s2.
                      Inr (0, replicate BLOCK_SIZE 0, True, s2)))
            else bindr (read_blocks (i_indirect (din i)) 1 s) (\<lambda>indirect. Inr (0, indirect, False, s)))
       (\<lambda>(ret, indirect, indirect_allocated, s1).
     if ret < 0 then Inr (ret, s1)
     else
       bindr (int_get indirect log_block_nr) (\<lambda>e.
       bindr (c_assert (e = 0)) (\<lambda>_.
       bindr (testfs_alloc_block_for_inode p s1) (\<lambda>(phy_block_nr, s2).
       bindr (deref p s2) (\<lambda>i2.
       if phy_block_nr \<ge> 0 then
         bindr (int_set indirect log_block_nr phy_block_nr) (\<lambda>indirect.
         bindr (write_blocks indirect (i_indirect (din i2)) 1 s2) (\<lambda>s3.
         Inr (phy_block_nr, s3)))
       else if indirect_allocated then
         bindr (testfs_free_block_from_inode p (i_indirect (din i2)) s2) (\<lambda>s3.
         bindr (upd_inode p (\<lambda>i. i\<lparr>din := (din i)\<lparr>i_indirect := 0\<rparr>\<rparr>) s3) (\<lambda>s4.
         Inr (phy_block_nr, s4)))
       else Inr (phy_block_nr, s2)))))))"

definition testfs_allocate_block :: "nat \<Rightarrow> int \<Rightarrow> byte list \<Rightarrow> fs \<Rightarrow> (int \<times> byte list \<times> fs) result" where
  "testfs_allocate_block p log_block_nr block s =
     bindr (c_assert (log_block_nr \<ge> 0)) (\<lambda>_.
     bindr (testfs_read_block p log_block_nr block s) (\<lambda>(phy_block_nr, block).
     if phy_block_nr \<noteq> 0 then Inr (phy_block_nr, block, s)
     else if log_block_nr < NR_DIRECT_BLOCKS then
       bindr (deref p s) (\<lambda>i.
       bindr (arr_get (i_block_nr (din i)) (nat log_block_nr)) (\<lambda>b.
       bindr (c_assert (b = 0)) (\<lambda>_.
       bindr (testfs_alloc_block_for_inode p s) (\<lambda>(phy_block_nr, s1).
       if phy_block_nr \<ge> 0 then
         bindr (upd_inode p (\<lambda>i. i\<lparr>din := (din i)\<lparr>i_block_nr :=
           (i_block_nr (din i))[nat log_block_nr := phy_block_nr]\<rparr>\<rparr>) s1) (\<lambda>s2.
         Inr (phy_block_nr, block, s2))
       else Inr (phy_block_nr, block, s1)))))
     else
       let log_block_nr = log_block_nr - NR_DIRECT_BLOCKS in
       if log_block_nr \<ge> NR_INDIRECT_BLOCKS then
         let log_block_nr = log_block_nr - NR_INDIRECT_BLOCKS in
         if log_block_nr \<ge> NR_INDIRECT_BLOCKS * NR_INDIRECT_BLOCKS then Inr (- EFBIG, block, s)
         else bindr (allocate_dindirect p log_block_nr s) (\<lambda>(ret, s'). Inr (ret, block, s'))
       else bindr (allocate_indirect p log_block_nr s) (\<lambda>(ret, s'). Inr (ret, block, s'))))"

section \<open>Writing\<close>

definition magic_size :: int where "magic_size = 34376597504"

text \<open>\<open>in->in.i_size = MAX(in->in.i_size, start + size)\<close> if \<open>size > 0\<close>; the inode is dirty.\<close>

definition grow :: "int \<Rightarrow> int \<Rightarrow> inode \<Rightarrow> inode" where
  "grow start sz i = set_dirty
     (if sz > 0 then i\<lparr>din := (din i)\<lparr>i_size := max (i_size (din i)) (s64 (start + s64 sz))\<rparr>\<rparr> else i)"

text \<open>The \<open>while\<close> loop of \<open>testfs_write_data\<close> and what follows it.\<close>

function write_blocks_loop ::
  "nat \<Rightarrow> byte list \<Rightarrow> int \<Rightarrow> int \<Rightarrow> int \<Rightarrow> int \<Rightarrow> int \<Rightarrow> int \<Rightarrow> byte list \<Rightarrow> fs \<Rightarrow> (int \<times> fs) result" where
  "write_blocks_loop p buf start sz block_nr block_ix increment leftover_size block s =
     bindr (testfs_allocate_block p (s32 (block_nr + increment)) block s) (\<lambda>(ret, block, s1).
     if leftover_size > int BLOCK_SIZE then
       if ret < 0 then Inr (ret, s1)
       else
         bindr (memcpy block 0 buf (int BLOCK_SIZE * increment - block_ix) (int BLOCK_SIZE)) (\<lambda>block.
         bindr (write_blocks block ret 1 s1) (\<lambda>s2.
         write_blocks_loop p buf start sz block_nr block_ix (increment + 1)
           (leftover_size - int BLOCK_SIZE) block s2))
     else
       if ret < 0 then
         bindr (upd_inode p (\<lambda>i. set_dirty (i\<lparr>din := (din i)\<lparr>i_size := magic_size\<rparr>\<rparr>)) s1) (\<lambda>s2.
         Inr (ret, s2))
       else
         bindr (memcpy block 0 buf (int BLOCK_SIZE * increment - block_ix) leftover_size) (\<lambda>block.
         bindr (write_blocks block ret 1 s1) (\<lambda>s2.
         bindr (upd_inode p (grow start sz) s2) (\<lambda>s3.
         Inr (s32 sz, s3)))))"
  by pat_completeness auto
termination
  by (relation "measure (\<lambda>(p, buf, start, sz, nr, ix, inc, left, block, s). nat left)")
     (auto simp: BLOCK_SIZE_def)

declare write_blocks_loop.simps [simp del]

definition testfs_write_data :: "nat \<Rightarrow> byte list \<Rightarrow> int \<Rightarrow> int \<Rightarrow> fs \<Rightarrow> (int \<times> fs) result" where
  "testfs_write_data p buf start sz s =
     (let block = replicate BLOCK_SIZE 0;
          block_nr = start sdiv int BLOCK_SIZE;
          block_ix = start smod int BLOCK_SIZE
      in if u64 (block_ix + sz) > int BLOCK_SIZE then
           bindr (testfs_allocate_block p (s32 block_nr) block s) (\<lambda>(ret, block, s1).
           if ret < 0 then Inr (ret, s1)
           else
             bindr (memcpy block block_ix buf 0 (int BLOCK_SIZE - block_ix)) (\<lambda>block.
             bindr (write_blocks block ret 1 s1) (\<lambda>s2.
             write_blocks_loop p buf start sz block_nr block_ix 1
               (s32 (sz - int BLOCK_SIZE + block_ix)) block s2)))
         else
           bindr (testfs_allocate_block p (s32 block_nr) block s) (\<lambda>(ret, block, s1).
           if ret < 0 then Inr (ret, s1)
           else
             bindr (memcpy block block_ix buf 0 sz) (\<lambda>block.
             bindr (write_blocks block ret 1 s1) (\<lambda>s2.
             bindr (upd_inode p (grow start sz) s2) (\<lambda>s3.
             Inr (s32 sz, s3))))))"

section \<open>Truncating\<close>

text \<open>
  The three loops of \<open>testfs_free_blocks\<close>.  The tables are local copies; the zeros the code stores
  into them are never read or written back and are left out.
\<close>

function free_direct :: "nat \<Rightarrow> int \<Rightarrow> int \<Rightarrow> fs \<Rightarrow> fs result" where
  "free_direct p i e_block_nr s =
     (if i < e_block_nr \<and> i < NR_DIRECT_BLOCKS then
        bindr (deref p s) (\<lambda>n.
        bindr (arr_get (i_block_nr (din n)) (nat i)) (\<lambda>b.
        if b = 0 then free_direct p (i + 1) e_block_nr s
        else
          bindr (testfs_free_block_from_inode p b s) (\<lambda>s1.
          bindr (upd_inode p (\<lambda>n. n\<lparr>din := (din n)\<lparr>i_block_nr := (i_block_nr (din n))[nat i := 0]\<rparr>\<rparr>) s1) (\<lambda>s2.
          free_direct p (i + 1) e_block_nr s2))))
      else Inr s)"
  by pat_completeness auto
termination
  by (relation "measure (\<lambda>(p, i, e, s). nat (NR_DIRECT_BLOCKS - i))") auto

declare free_direct.simps [simp del]

function free_table :: "nat \<Rightarrow> byte list \<Rightarrow> int \<Rightarrow> int \<Rightarrow> fs \<Rightarrow> fs result" where
  "free_table p block i e_block_nr s =
     (if i < e_block_nr \<and> i < NR_INDIRECT_BLOCKS then
        bindr (int_get block i) (\<lambda>b.
        bindr (testfs_free_block_from_inode p b s) (\<lambda>s1.
        free_table p block (i + 1) e_block_nr s1))
      else Inr s)"
  by pat_completeness auto
termination
  by (relation "measure (\<lambda>(p, block, i, e, s). nat (NR_INDIRECT_BLOCKS - i))") auto

declare free_table.simps [simp del]

text \<open>The inner loop over a table of the double-indirect block counts in \<open>counter\<close>.\<close>

function free_dtable :: "nat \<Rightarrow> byte list \<Rightarrow> int \<Rightarrow> int \<Rightarrow> int \<Rightarrow> fs \<Rightarrow> (int \<times> fs) result" where
  "free_dtable p direct_block j counter e_block_nr s =
     (if counter < e_block_nr \<and> j < NR_INDIRECT_BLOCKS then
        bindr (int_get direct_block j) (\<lambda>b.
        bindr (testfs_free_block_from_inode p b s) (\<lambda>s1.
        free_dtable p direct_block (j + 1) (counter + 1) e_block_nr s1))
      else Inr (counter, s))"
  by pat_completeness auto
termination
  by (relation "measure (\<lambda>(p, block, j, c, e, s). nat (NR_INDIRECT_BLOCKS - j))") auto

declare free_dtable.simps [simp del]

function free_dindirect :: "nat \<Rightarrow> byte list \<Rightarrow> int \<Rightarrow> int \<Rightarrow> int \<Rightarrow> fs \<Rightarrow> fs result" where
  "free_dindirect p block i counter e_block_nr s =
     (if counter < e_block_nr \<and> i < NR_INDIRECT_BLOCKS then
        bindr (int_get block i) (\<lambda>t.
        if t \<le> 0 then free_dindirect p block (i + 1) (counter + NR_INDIRECT_BLOCKS) e_block_nr s
        else
          bindr (read_blocks t 1 s) (\<lambda>direct_block.
          bindr (free_dtable p direct_block 0 counter e_block_nr s) (\<lambda>(counter, s1).
          bindr (testfs_free_block_from_inode p t s1) (\<lambda>s2.
          free_dindirect p block (i + 1) counter e_block_nr s2))))
      else Inr s)"
  by pat_completeness auto
termination
  by (relation "measure (\<lambda>(p, block, i, c, e, s). nat (NR_INDIRECT_BLOCKS - i))") auto

declare free_dindirect.simps [simp del]

definition testfs_free_blocks :: "nat \<Rightarrow> fs \<Rightarrow> (int \<times> fs) result" where
  "testfs_free_blocks p s =
     bindr (deref p s) (\<lambda>i.
     let e_block_nr = s32 ((i_size (din i) + int BLOCK_SIZE - 1) sdiv int BLOCK_SIZE) in
     bindr (free_direct p 0 e_block_nr s) (\<lambda>s1.
     let e_block_nr = e_block_nr - NR_DIRECT_BLOCKS in
     bindr (deref p s1) (\<lambda>i1.
     bindr (if i_indirect (din i1) > 0 then
              bindr (read_blocks (i_indirect (din i1)) 1 s1) (\<lambda>block.
              bindr (free_table p block 0 e_block_nr s1) (\<lambda>s2.
              bindr (testfs_free_block_from_inode p (i_indirect (din i1)) s2) (\<lambda>s3.
              upd_inode p (\<lambda>i. i\<lparr>din := (din i)\<lparr>i_indirect := 0\<rparr>\<rparr>) s3)))
            else Inr s1) (\<lambda>s4.
     let e_block_nr = e_block_nr - NR_INDIRECT_BLOCKS in
     bindr (deref p s4) (\<lambda>i4.
     bindr (if e_block_nr \<ge> 0 then
              bindr (read_blocks (i_dindirect (din i4)) 1 s4) (\<lambda>block.
              bindr (free_dindirect p block 0 0 e_block_nr s4) (\<lambda>s5.
              bindr (testfs_free_block_from_inode p (i_dindirect (din i4)) s5) (\<lambda>s6.
              upd_inode p (\<lambda>i. i\<lparr>din := (din i)\<lparr>i_dindirect := 0\<rparr>\<rparr>) s6)))
            else Inr s4) (\<lambda>s7.
     bindr (upd_inode p (\<lambda>i. set_dirty (i\<lparr>din := (din i)\<lparr>i_size := 0\<rparr>\<rparr>)) s7) (\<lambda>s8.
     Inr (0, s8))))))))"

text \<open>\<open>testfs_remove_inode\<close> of \<open>inode.c\<close>.\<close>

definition testfs_remove_inode :: "nat \<Rightarrow> fs \<Rightarrow> fs result" where
  "testfs_remove_inode p s =
     bindr (testfs_free_blocks p s) (\<lambda>(_, s1).
     bindr (deref p s1) (\<lambda>i.
     bindr (c_assert (block_count (din i) = 0)) (\<lambda>_.
     bindr (upd_inode p (\<lambda>i. set_dirty (i\<lparr>din := zero_dinode\<rparr>)) s1) (\<lambda>s2.
     bindr (testfs_put_inode_freemap (i_nr i) s2) (\<lambda>s3.
     bindr (testfs_sync_inode p s3) (\<lambda>s4.
     testfs_put_inode p s4))))))"

end
