(* ===== verification/BlockMap.thy ===== *)
theory BlockMap
  imports ReadWrite
begin

text \<open>
  The block map as a function.  A \<open>slot\<close> names a place where an inode can hold a block: a data
  block by its number in the file, the indirect table, the double-indirect table, or one of the
  tables it lists; \<open>addr\<close> reads the device block a slot holds (0: none).  \<open>amap_ok\<close> says that a
  map is sound: every block it holds is in use, and no two slots hold the same block.  \<open>file_ok\<close>
  is this for the map of an inode.  The last section lifts the primitives the allocator and the
  truncation are made of to this view.
\<close>

section \<open>Slots and addresses\<close>

datatype slot = Data nat | Ind | Dind | Tab nat

abbreviation (input) MAX_BLOCKS :: nat where "MAX_BLOCKS \<equiv> 4196362"

definition tent :: "byte list \<Rightarrow> int \<Rightarrow> nat \<Rightarrow> int" where
  "tent d t m = (if t > 0 then entry (dblk d (nat t)) m else 0)"

fun addr :: "byte list \<Rightarrow> dinode \<Rightarrow> slot \<Rightarrow> int" where
  "addr d x Ind = i_indirect x"
| "addr d x Dind = i_dindirect x"
| "addr d x (Tab k) = (if k < 2048 then tent d (i_dindirect x) k else 0)"
| "addr d x (Data n) =
     (if n < 10 then i_block_nr x ! n
      else if n < 2058 then tent d (i_indirect x) (n - 10)
      else if n < MAX_BLOCKS
      then tent d (tent d (i_dindirect x) ((n - 2058) div 2048)) ((n - 2058) mod 2048)
      else 0)"

text \<open>The part of \<open>Data\<close> numbers that each level covers.\<close>

lemma max_blocks: "MAX_BLOCKS = 10 + 2048 + 2048 * 2048"
  by simp

lemma tab_bound: "n < MAX_BLOCKS \<Longrightarrow> (n - 2058) div 2048 < 2048"
  by linarith

definition held :: "(slot \<Rightarrow> int) \<Rightarrow> slot set" where
  "held a = {sl. 0 < a sl}"

definition own :: "(slot \<Rightarrow> int) \<Rightarrow> nat set" where
  "own a = (\<lambda>sl. nat (a sl)) ` held a"

definition amap_ok :: "fs \<Rightarrow> (slot \<Rightarrow> int) \<Rightarrow> bool" where
  "amap_ok s a \<longleftrightarrow> (\<forall>sl. 0 \<le> a sl) \<and> own a \<subseteq> bused s
     \<and> (\<forall>sl sl'. 0 < a sl \<and> a sl = a sl' \<longrightarrow> sl = sl')"

lemma amap_inj: "amap_ok s a \<Longrightarrow> inj_on (\<lambda>sl. nat (a sl)) (held a)"
  by (auto simp: amap_ok_def held_def inj_on_def)

lemma amap_nonneg: "amap_ok s a \<Longrightarrow> 0 \<le> a sl"
  by (simp add: amap_ok_def)

lemma amap_used: "amap_ok s a \<Longrightarrow> 0 < a sl \<Longrightarrow> nat (a sl) \<in> bused s"
  by (auto simp: amap_ok_def own_def held_def)

lemma amap_eq: "amap_ok s a \<Longrightarrow> 0 < a sl \<Longrightarrow> a sl = a sl' \<Longrightarrow> sl = sl'"
  by (auto simp: amap_ok_def)

lemma finite_bused [simp]: "finite (bused s)"
  by (cases "block_freemap s") (simp_all add: bused_def set_of_def)

lemma amap_finite: "amap_ok s a \<Longrightarrow> finite (held a)"
  using finite_imageD [OF _ amap_inj, of a s] finite_subset [of "own a" "bused s"]
  by (simp add: amap_ok_def own_def)

lemma own_finite: "amap_ok s a \<Longrightarrow> finite (own a)"
  by (simp add: own_def amap_finite)

lemma amap_card: "amap_ok s a \<Longrightarrow> card (own a) = card (held a)"
  unfolding own_def by (rule card_image [OF amap_inj])

lemma bused_ge: "b \<in> bused s \<Longrightarrow> 146 \<le> b"
  by (auto simp: bused_def)

lemma bused_lt: "super_inv s \<Longrightarrow> b \<in> bused s \<Longrightarrow> b < 146 + 1048576"
proof -
  assume s: "super_inv s" and b: "b \<in> bused s"
  obtain bb where "nbits bb = nr_blocks_max" "bused s = (\<lambda>i. 146 + i) ` bm_set bb"
    by (rule super_bitmaps [OF s])
  with b bm_set_bound [of bb] show ?thesis by auto
qed

lemma card_bused: "super_inv s \<Longrightarrow> card (bused s) \<le> 1048576"
proof -
  assume s: "super_inv s"
  obtain bb where bb: "nbits bb = nr_blocks_max" "bm_wf bb" "bused s = (\<lambda>i. 146 + i) ` bm_set bb"
    by (rule super_bitmaps [OF s])
  with card_bits [OF bb(2)] show ?thesis by (simp add: card_image)
qed

lemma amap_addr_cases: "amap_ok s a \<Longrightarrow> a sl = 0 \<or> (\<exists>b. a sl = int b \<and> b \<in> bused s \<and> 146 \<le> b)"
  using amap_nonneg [of s a sl] amap_used [of s a sl] bused_ge [of "nat (a sl)" s]
  by (cases "a sl = 0") (auto intro!: exI [of _ "nat (a sl)"])

text \<open>Taking a fresh block into an empty slot, and giving a block up.\<close>

lemma amap_add:
  assumes a: "amap_ok s a" and b: "b \<notin> bused s" "0 < b" and e: "a sl = 0"
    and u: "bused s' = insert b (bused s)"
  shows "amap_ok s' (a(sl := int b))" "held (a(sl := int b)) = insert sl (held a)"
    "own (a(sl := int b)) = insert b (own a)" "card (held (a(sl := int b))) = Suc (card (held a))"
proof -
  have h: "held (a(sl := int b)) = insert sl (held a)" using b(2) by (auto simp: held_def)
  moreover have new: "sl \<notin> held a" using e by (simp add: held_def)
  ultimately show "held (a(sl := int b)) = insert sl (held a)"
    "card (held (a(sl := int b))) = Suc (card (held a))"
    using amap_finite [OF a] by simp_all
  show o: "own (a(sl := int b)) = insert b (own a)"
    unfolding own_def h using new by (auto simp: image_iff)
  have ne: "a sl' \<noteq> int b" for sl'
    using amap_used [OF a, of sl'] b by (cases "0 < a sl'") auto
  have inj: "s1 = s2" if "0 < (a(sl := int b)) s1" "(a(sl := int b)) s1 = (a(sl := int b)) s2" for s1 s2
  proof (cases "s1 = sl \<or> s2 = sl")
    case True
    with that ne [of s1] ne [of s2] show ?thesis by (auto split: if_splits)
  next
    case False
    with that amap_eq [OF a, of s1 s2] show ?thesis by simp
  qed
  have "own a \<subseteq> bused s" using a by (simp add: amap_ok_def)
  then have "own (a(sl := int b)) \<subseteq> bused s'" unfolding o u by blast
  moreover have "0 \<le> (a(sl := int b)) sl'" for sl' using amap_nonneg [OF a, of sl'] by simp
  ultimately show "amap_ok s' (a(sl := int b))"
    unfolding amap_ok_def using inj by blast
qed

lemma amap_remove:
  assumes a: "amap_ok s a" and p: "0 < a sl" and u: "bused s' = bused s - {nat (a sl)}"
  shows "amap_ok s' (a(sl := 0))" "held (a(sl := 0)) = held a - {sl}"
    "own (a(sl := 0)) = own a - {nat (a sl)}" "Suc (card (held (a(sl := 0)))) = card (held a)"
proof -
  have h: "held (a(sl := 0)) = held a - {sl}" by (auto simp: held_def)
  moreover have m: "sl \<in> held a" using p by (simp add: held_def)
  ultimately show "held (a(sl := 0)) = held a - {sl}" "Suc (card (held (a(sl := 0)))) = card (held a)"
    using card_Suc_Diff1 [OF amap_finite [OF a] m] by (simp_all only: h)
  show o: "own (a(sl := 0)) = own a - {nat (a sl)}"
  proof -
    have "own (a(sl := 0)) = (\<lambda>sl. nat (a sl)) ` (held a - {sl})"
      unfolding own_def h by (rule image_cong) auto
    also have "\<dots> = own a - {nat (a sl)}"
      unfolding own_def using inj_on_image_set_diff [OF amap_inj [OF a], of "held a" "{sl}"] m by simp
    finally show ?thesis .
  qed
  have "own a \<subseteq> bused s" using a by (simp add: amap_ok_def)
  then have "own (a(sl := 0)) \<subseteq> bused s'" unfolding o u by blast
  moreover have "s1 = s2" if "0 < (a(sl := 0)) s1" "(a(sl := 0)) s1 = (a(sl := 0)) s2" for s1 s2
    using amap_eq [OF a, of s1 s2] that by (auto split: if_splits)
  moreover have "0 \<le> (a(sl := 0)) sl'" for sl' using amap_nonneg [OF a, of sl'] by simp
  ultimately show "amap_ok s' (a(sl := 0))"
    unfolding amap_ok_def by blast
qed

lemma amap_same: "amap_ok s a \<Longrightarrow> bused s' = bused s \<Longrightarrow> amap_ok s' a"
  by (simp add: amap_ok_def)

section \<open>How addresses change\<close>

text \<open>An address only depends on the inode and on the contents of its tables.\<close>

lemma tent_cong: "(0 < t \<Longrightarrow> dblk d' (nat t) = dblk d (nat t)) \<Longrightarrow> tent d' t m = tent d t m"
  by (simp add: tent_def)

lemma addr_cong:
  assumes ptr: "i_indirect x' = i_indirect x" "i_dindirect x' = i_dindirect x"
      "\<And>n. n < 10 \<Longrightarrow> i_block_nr x' ! n = i_block_nr x ! n"
    and tab: "\<And>sl. sl = Ind \<or> sl = Dind \<or> (\<exists>k. sl = Tab k) \<Longrightarrow> 0 < addr d x sl \<Longrightarrow>
      dblk d' (nat (addr d x sl)) = dblk d (nat (addr d x sl))"
  shows "addr d' x' sl = addr d x sl"
proof -
  have i: "tent d' (i_indirect x) m = tent d (i_indirect x) m" for m
    using tab [of Ind] by (intro tent_cong) auto
  have dd: "tent d' (i_dindirect x) m = tent d (i_dindirect x) m" for m
    using tab [of Dind] by (intro tent_cong) auto
  have t: "tent d' (tent d (i_dindirect x) k) m = tent d (tent d (i_dindirect x) k) m" if "k < 2048" for k m
    using tab [of "Tab k"] that by (intro tent_cong) auto
  show ?thesis
    by (cases sl) (use ptr i dd t tab_bound in \<open>auto split: if_splits\<close>)
qed

text \<open>A write outside the tables changes no address.\<close>

lemma addr_data_write:
  assumes a: "amap_ok s (addr d x)" and len: "length bs = BLOCK_SIZE"
    and b: "\<And>sl. sl = Ind \<or> sl = Dind \<or> (\<exists>k. sl = Tab k) \<Longrightarrow> 0 < addr d x sl \<Longrightarrow> nat (addr d x sl) \<noteq> b"
  shows "addr (dput d b bs) x = addr d x"
  by (rule ext, rule addr_cong) (use b len in \<open>auto simp: dblk_dput\<close>)

lemma addr_set_direct:
  assumes "length (i_block_nr x) = 10" "n < 10"
  shows "addr d (x\<lparr>i_block_nr := (i_block_nr x)[n := b]\<rparr>) = (addr d x)(Data n := b)"
proof
  fix sl
  show "addr d (x\<lparr>i_block_nr := (i_block_nr x)[n := b]\<rparr>) sl = ((addr d x)(Data n := b)) sl"
    by (cases sl) (use assms in auto)
qed

lemma addr_set_indirect:
  assumes t: "i_indirect x' = int t" "0 < t" and m: "m < 2048"
    and tab: "\<And>m'. m' < 2048 \<Longrightarrow> entry (dblk d' t) m' = (if m' = m then b else addr d x (Data (10 + m')))"
    and ptr: "i_dindirect x' = i_dindirect x" "\<And>n. n < 10 \<Longrightarrow> i_block_nr x' ! n = i_block_nr x ! n"
    and other: "\<And>sl. sl = Dind \<or> (\<exists>k. sl = Tab k) \<Longrightarrow> 0 < addr d x sl \<Longrightarrow>
      dblk d' (nat (addr d x sl)) = dblk d (nat (addr d x sl))"
  shows "addr d' x' = (addr d x)(Ind := int t, Data (10 + m) := b)"
proof
  fix sl
  have dd: "tent d' (i_dindirect x) m = tent d (i_dindirect x) m" for m
    using other [of Dind] by (intro tent_cong) auto
  have tt: "tent d' (tent d (i_dindirect x) k) m = tent d (tent d (i_dindirect x) k) m" if "k < 2048" for k m
    using other [of "Tab k"] that by (intro tent_cong) auto
  show "addr d' x' sl = ((addr d x)(Ind := int t, Data (10 + m) := b)) sl"
  proof (cases sl)
    case (Data n)
    show ?thesis
    proof (cases "10 \<le> n \<and> n < 2058")
      case True
      then have "n - 10 < 2048" "10 + (n - 10) = n" by auto
      with tab [of "n - 10"] t m True Data show ?thesis by (auto simp: tent_def)
    next
      case False
      then have "n \<noteq> 10 + m" using m by auto
      with False ptr dd tt [OF tab_bound] Data show ?thesis by auto
    qed
  qed (use t ptr dd in auto)
qed

lemma dindex:
  assumes "k < 2048" "m < 2048"
  shows "2058 + 2048 * k + m < MAX_BLOCKS" "(2058 + 2048 * k + m - 2058) div 2048 = k"
    "(2058 + 2048 * k + m - 2058) mod 2048 = m"
  using assms by simp_all

lemma dindex_of:
  assumes "2058 \<le> n" "n < MAX_BLOCKS"
  shows "n = 2058 + 2048 * ((n - 2058) div 2048) + (n - 2058) mod 2048"
  using assms by simp

lemma addr_set_dindirect:
  assumes dd: "i_dindirect x' = int dd" "0 < dd" and t: "0 < t" and k: "k < 2048" and m: "m < 2048"
    and dtab: "\<And>k'. k' < 2048 \<Longrightarrow> entry (dblk d' dd) k' = (if k' = k then int t else addr d x (Tab k'))"
    and tab: "\<And>m'. m' < 2048 \<Longrightarrow>
      entry (dblk d' t) m' = (if m' = m then b else addr d x (Data (2058 + 2048 * k + m')))"
    and ptr: "i_indirect x' = i_indirect x" "\<And>n. n < 10 \<Longrightarrow> i_block_nr x' ! n = i_block_nr x ! n"
    and other: "\<And>sl. sl = Ind \<or> (\<exists>k'. sl = Tab k' \<and> k' \<noteq> k) \<Longrightarrow> 0 < addr d x sl \<Longrightarrow>
      dblk d' (nat (addr d x sl)) = dblk d (nat (addr d x sl))"
  shows "addr d' x' = (addr d x)(Dind := int dd, Tab k := int t, Data (2058 + 2048 * k + m) := b)"
proof
  fix sl
  have i: "tent d' (i_indirect x) m = tent d (i_indirect x) m" for m
    using other [of Ind] by (intro tent_cong) auto
  have de: "tent d' (i_dindirect x') k' = (if k' = k then int t else addr d x (Tab k'))" if "k' < 2048" for k'
    using dtab [OF that] dd by (simp add: tent_def)
  show "addr d' x' sl
      = ((addr d x)(Dind := int dd, Tab k := int t, Data (2058 + 2048 * k + m) := b)) sl"
  proof (cases sl)
    case (Data n)
    consider "n < 2058" | "2058 \<le> n" "n < MAX_BLOCKS" | "MAX_BLOCKS \<le> n" by linarith
    then show ?thesis
    proof cases
      case 1
      with ptr i Data show ?thesis by auto
    next
      case 3
      with k m Data show ?thesis by auto
    next
      case 2
      define k' where "k' = (n - 2058) div 2048"
      define m' where "m' = (n - 2058) mod 2048"
      have b: "k' < 2048" "m' < 2048" using tab_bound [OF 2(2)] by (simp_all add: k'_def m'_def)
      have n: "n = 2058 + 2048 * k' + m'" using dindex_of [OF 2] by (simp add: k'_def m'_def)
      have lhs: "addr d' x' sl = tent d' (tent d' (i_dindirect x') k') m'"
        using Data 2 by (simp add: k'_def m'_def)
      have same: "n = 2058 + 2048 * k + m \<longleftrightarrow> k' = k \<and> m' = m"
        using n b k m dindex [OF k m] dindex [OF b] by metis
      show ?thesis
      proof (cases "k' = k")
        case True
        then have "addr d' x' sl = (if m' = m then b else addr d x (Data n))"
          using lhs de [OF b(1)] t tab [OF b(2)] n by (simp add: tent_def del: addr.simps)
        with same True Data show ?thesis by (simp del: addr.simps)
      next
        case False
        then have "addr d' x' sl = tent d' (addr d x (Tab k')) m'"
          using lhs de [OF b(1)] by (simp del: addr.simps)
        also have "\<dots> = tent d (addr d x (Tab k')) m'"
          using other [of "Tab k'"] False by (intro tent_cong) blast
        also have "\<dots> = addr d x sl" using Data 2 b by (simp add: k'_def m'_def)
        finally show ?thesis using same False Data by (simp del: addr.simps)
      qed
    qed
  next
    case (Tab k')
    show ?thesis
    proof (cases "k' < 2048")
      case True
      with de [OF True] Tab show ?thesis by simp
    next
      case False
      with Tab k show ?thesis by auto
    qed
  qed (use dd ptr in auto)
qed

lemma entry_fits: "m < 2048 \<Longrightarrow> 4 * m + 4 \<le> BLOCK_SIZE"
  by (simp add: BLOCK_SIZE_def)

lemma int_get_dblk: "m < 2048 \<Longrightarrow> int_get (dblk d b) (int m) = Inr (entry (dblk d b) m)"
  by (rule int_get_entry) (simp add: entry_fits)

lemma int_set_block:
  "length bs = BLOCK_SIZE \<Longrightarrow> m < 2048 \<Longrightarrow> int_set bs (int m) x = Inr (set_entry bs m x)"
  by (rule int_set_entry) (simp add: entry_fits)

lemma entry_set_block:
  assumes "length bs = BLOCK_SIZE" "m < 2048" "m' < 2048" "is_s32 x"
  shows "entry (set_entry bs m x) m' = (if m' = m then x else entry bs m')"
  using assms entry_fits by (simp add: entry_set_same entry_set_other)

lemma length_set_block:
  "length bs = BLOCK_SIZE \<Longrightarrow> m < 2048 \<Longrightarrow> length (set_entry bs m x) = BLOCK_SIZE"
  by (simp add: entry_fits)

lemma entry_zero_block: "m < 2048 \<Longrightarrow> entry (replicate BLOCK_SIZE 0) m = 0"
  by (rule entry_zero) (rule entry_fits)

section \<open>The primitives on an open inode\<close>

text \<open>
  \<open>opened s p k x d\<close>: \<open>p\<close> points to the in-memory inode of number \<open>k\<close>, its contents are \<open>x\<close>, and
  if \<open>d\<close> it is marked dirty.  \<open>kframe p k B s s'\<close>: from \<open>s\<close> to \<open>s'\<close> nothing changed but inode \<open>k\<close>,
  the set of blocks in use, and the contents of the blocks in \<open>B\<close>.
\<close>

definition opened :: "fs \<Rightarrow> nat \<Rightarrow> nat \<Rightarrow> dinode \<Rightarrow> bool \<Rightarrow> bool" where
  "opened s p k x d \<longleftrightarrow> inode_inv s
     \<and> (\<exists>i. iheap s p = Some i \<and> i_nr i = int k \<and> din i = x \<and> (d \<longrightarrow> dirty i))"

definition kframe :: "nat \<Rightarrow> nat \<Rightarrow> nat set \<Rightarrow> fs \<Rightarrow> fs \<Rightarrow> bool" where
  "kframe p k B s s' \<longleftrightarrow> (\<forall>q. q \<noteq> p \<longrightarrow> iobj s' q = iobj s q)
     \<and> (\<forall>j < NR_INODES. j \<noteq> k \<longrightarrow> iview s' j = iview s j) \<and> irefs s' = irefs s
     \<and> iused s' = iused s \<and> malloc_ok s' = malloc_ok s \<and> out s' = out s
     \<and> max_fs_blocks (sb s') = max_fs_blocks (sb s)
     \<and> (\<forall>c. readable (dev s) c \<longrightarrow> readable (dev s') c)
     \<and> (\<forall>c \<ge> 146. c \<notin> B \<longrightarrow> dblk (dev s') c = dblk (dev s) c)"

lemma kframe_refl [simp]: "kframe p k B s s"
  by (simp add: kframe_def)

lemma kframe_trans: "kframe p k A s t \<Longrightarrow> kframe p k B t u \<Longrightarrow> kframe p k (A \<union> B) s u"
  unfolding kframe_def by (intro conjI; (elim conjE)?; simp)

lemma kframe_mono: "kframe p k A s t \<Longrightarrow> A \<subseteq> B \<Longrightarrow> kframe p k B s t"
  unfolding kframe_def by blast

lemma kframe_dblk: "kframe p k B s s' \<Longrightarrow> 146 \<le> c \<Longrightarrow> c \<notin> B \<Longrightarrow> dblk (dev s') c = dblk (dev s) c"
  by (simp add: kframe_def)

lemma kframe_readable: "kframe p k B s s' \<Longrightarrow> readable (dev s) c \<Longrightarrow> readable (dev s') c"
  by (simp add: kframe_def)

lemma opened_inv: "opened s p k x d \<Longrightarrow> inode_inv s"
  by (simp add: opened_def)

lemma opened_super: "opened s p k x d \<Longrightarrow> super_inv s"
  by (simp add: opened_def inode_inv_def)

lemma opened_valid: "opened s p k x d \<Longrightarrow> dinode_valid x"
  using inv_valid by (auto simp: opened_def)

lemma opened_weaken: "opened s p k x d \<Longrightarrow> opened s p k x False"
  by (auto simp: opened_def)

lemma opened_deref: "opened s p k x d \<Longrightarrow> \<exists>i. deref p s = Inr i \<and> din i = x \<and> i_nr i = int k"
  by (auto simp: opened_def)

lemma opened_view:
  assumes "opened s p k x d"
  shows "k < NR_INODES" "iview s k = x"
proof -
  from assms obtain i where s: "inode_inv s" and i: "iheap s p = Some i" "i_nr i = int k" "din i = x"
    by (auto simp: opened_def)
  show "k < NR_INODES" using inv_nr [OF s i(1)] i(2) by simp
  show "iview s k = x" using cached_at [OF inv_hash [OF s] i(1)] i(2,3) by (simp add: iview_def)
qed

lemma opened_iobj: "inode_inv s \<Longrightarrow> iobj s p = Some (k, x, d) \<Longrightarrow> opened s p k x d"
  using inv_nr by (fastforce simp: opened_def iobj_Some)

lemma iobj_opened: "opened s p k x d \<Longrightarrow> \<exists>d'. iobj s p = Some (k, x, d') \<and> (d \<longrightarrow> d')"
  by (auto simp: opened_def iobj_def)

lemma opened_set:
  assumes o: "opened s p k x d" and i: "iheap s p = Some i"
    and j: "i_nr j = i_nr i" "i_count j = i_count i" "dinode_valid (din j)" "dirty j"
  shows "opened (set_inode p j s) p k (din j) True" "kframe p k {} s (set_inode p j s)"
proof -
  from o i have s: "inode_inv s" and k: "i_nr i = int k" by (auto simp: opened_def)
  note si = set_inode_inv [OF s i j]
  show "opened (set_inode p j s) p k (din j) True" using si(1) j k by (simp add: opened_def)
  show "kframe p k {} s (set_inode p j s)"
    using si k by (simp add: kframe_def iobj_def iused_def)
qed

text \<open>Assignments through the pointer.\<close>

lemma upd_dirty:
  assumes o: "opened s p k x d" and v: "dinode_valid (g x)"
  obtains s' where "upd_inode p (\<lambda>i. set_dirty (i\<lparr>din := g (din i)\<rparr>)) s = Inr s'"
    "opened s' p k (g x) True" "kframe p k {} s s'" "dev s' = dev s" "bused s' = bused s"
proof -
  from o obtain i where i: "iheap s p = Some i" "din i = x" by (auto simp: opened_def)
  let ?j = "set_dirty (i\<lparr>din := g (din i)\<rparr>)"
  note os = opened_set [OF o i(1), of ?j, simplified set_flags_simps, simplified]
  show thesis
    by (rule that [of "set_inode p ?j s"])
       (use os v i in \<open>simp_all add: set_inode_def [symmetric] bused_def\<close>)
qed

lemma upd_clean:
  assumes o: "opened s p k x True" and v: "dinode_valid (g x)"
  obtains s' where "upd_inode p (\<lambda>i. i\<lparr>din := g (din i)\<rparr>) s = Inr s'"
    "opened s' p k (g x) True" "kframe p k {} s s'" "dev s' = dev s" "bused s' = bused s"
proof -
  from o obtain i where i: "iheap s p = Some i" "din i = x" "dirty i" by (auto simp: opened_def)
  let ?j = "i\<lparr>din := g (din i)\<rparr>"
  note os = opened_set [OF o i(1), of ?j, simplified]
  show thesis
    by (rule that [of "set_inode p ?j s"])
       (use os v i in \<open>simp_all add: set_inode_def [symmetric] bused_def\<close>)
qed

lemma opened_super_step:
  assumes o: "opened s p k x d" and s': "super_inv s'" and m: "same_mem s s'" and f: "dev_frame B s s'"
    and u: "iused s' = iused s" and B: "\<And>b. b \<in> B \<Longrightarrow> 146 \<le> b"
  shows "opened s' p k x d" "kframe p k B s s'"
proof -
  note i = inode_inv_super [OF opened_inv [OF o] s' m f B]
  have h: "iheap s' = iheap s" using m by (simp add: same_mem_def)
  from i(1) o show "opened s' p k x d" by (simp add: opened_def h)
  have "iview s' j = iview s j" if "j < NR_INODES" for j using i(2) [of j] that by simp
  with i f m u show "kframe p k B s s'"
    by (simp add: kframe_def same_mem_def dev_frame_def)
qed

lemma block_count_valid:
  "dinode_valid x \<Longrightarrow> is_s32 c \<Longrightarrow> dinode_valid (x\<lparr>block_count := c\<rparr>)"
  by (simp add: dinode_valid_def)

lemma alloc_for_inode:
  assumes o: "opened s p k x d" and c: "is_s32 (block_count x + 1)"
  obtains (nospace) "testfs_alloc_block_for_inode p s = Inr (- ENOSPC, s)"
      "max_fs_blocks (sb s) \<le> int (card (bused s))"
  | (got) b s' where "testfs_alloc_block_for_inode p s = Inr (int b, s')" "b \<notin> bused s" "146 \<le> b"
      "b < 146 + 1048576" "bused s' = insert b (bused s)" "kframe p k {} s s'"
      "opened s' p k (x\<lparr>block_count := block_count x + 1\<rparr>) True"
      "int (card (bused s)) < max_fs_blocks (sb s)"
proof (cases "int (card (bused s)) < max_fs_blocks (sb s)")
  case False
  with alloc_block_full [OF opened_super [OF o]] show thesis
    by (intro nospace) (simp_all add: testfs_alloc_block_for_inode_def)
next
  case True
  from alloc_block_free [OF opened_super [OF o] True] obtain b s1 where
    s1: "testfs_alloc_block s = Inr (int b, s1)" "b \<notin> bused s" "146 \<le> b" "b < 146 + 1048576"
      "bused s1 = insert b (bused s)" "iused s1 = iused s" "super_inv s1" "same_mem s s1" "dev_frame {} s s1"
    by blast
  note st = opened_super_step [OF o s1(7-9,6), simplified]
  let ?g = "\<lambda>x. x\<lparr>block_count := block_count x + 1\<rparr>"
  from upd_dirty [OF st(1), of ?g] block_count_valid [OF opened_valid [OF o] c] obtain s' where
    s': "upd_inode p (\<lambda>i. set_dirty (i\<lparr>din := ?g (din i)\<rparr>)) s1 = Inr s'" "opened s' p k (?g x) True"
      "kframe p k {} s1 s'" "bused s' = bused s1" by auto
  show thesis
    by (rule got [of b s'])
       (use s1 s' st True kframe_trans [OF st(2) s'(3)] in \<open>simp_all add: testfs_alloc_block_for_inode_def\<close>)
qed

lemma free_from_inode:
  assumes o: "opened s p k x d" and b: "b \<in> bused s" and c: "is_s32 (block_count x - 1)"
  obtains s' where "testfs_free_block_from_inode p (int b) s = Inr s'" "bused s' = bused s - {b}"
    "opened s' p k (x\<lparr>block_count := block_count x - 1\<rparr>) True" "kframe p k {b} s s'"
    "dblk (dev s') b = zero"
proof -
  from free_block_used [OF opened_super [OF o] b] obtain s1 where
    s1: "testfs_free_block (int b) s = Inr (0, s1)" "bused s1 = bused s - {b}" "iused s1 = iused s"
      "super_inv s1" "same_mem s s1" "dev_frame {b} s s1" "dblk (dev s1) b = zero" by blast
  have b146: "146 \<le> b" by (rule bused_ge [OF b])
  note st = opened_super_step [OF o s1(4-6,3)]
  let ?g = "\<lambda>x. x\<lparr>block_count := block_count x - 1\<rparr>"
  from upd_dirty [OF st(1), of ?g] b146 block_count_valid [OF opened_valid [OF o] c] obtain s' where
    s': "upd_inode p (\<lambda>i. set_dirty (i\<lparr>din := ?g (din i)\<rparr>)) s1 = Inr s'" "opened s' p k (?g x) True"
      "kframe p k {} s1 s'" "bused s' = bused s1" "dev s' = dev s1" by auto
  have f: "kframe p k {b} s s'" using kframe_trans [OF st(2) s'(3)] b146 by simp
  have "int b \<noteq> 0" using b146 by simp
  then have "testfs_free_block_from_inode p (int b) s = Inr s'"
    using s1(1) s'(1) by (simp add: testfs_free_block_from_inode_def)
  from that [OF this _ s'(2) f] show thesis using s1 s' by simp
qed

lemma write_opened:
  assumes o: "opened s p k x d" and b: "146 \<le> b" and len: "length bs = BLOCK_SIZE"
  obtains s' where "write_blocks bs (int b) 1 s = Inr s'" "opened s' p k x d" "kframe p k {b} s s'"
    "dblk (dev s') b = bs" "readable (dev s') b" "bused s' = bused s"
proof -
  let ?s = "s\<lparr>dev := dput (dev s) b bs\<rparr>"
  have df: "dev_frame {b} s ?s" using len by (auto simp: dev_frame_def dblk_dput readable_dput_mono)
  have si: "super_inv ?s"
  proof -
    have "dblk (dev ?s) c = dblk (dev s) c" if "c < 146" for c
      using that b len by (simp add: dblk_dput)
    then have "freemap_ok (dev ?s) 1 1 (inode_freemap s)" "freemap_ok (dev ?s) 2 16 (block_freemap s)"
      "dblk (dev ?s) 0 = dblk (dev s) 0"
      using opened_super [OF o] by (auto simp: super_inv_def intro: freemap_ok_frame)
    then show ?thesis using opened_super [OF o] by (simp add: super_inv_def length_dput le_max_iff_disj)
  qed
  note st = opened_super_step [OF o si _ df]
  show thesis
    by (rule that [of ?s])
       (use st b len write_block [OF len] in
         \<open>simp_all add: same_mem_def iused_def bused_def dblk_dput readable_dput\<close>)
qed

end
