(* ===== verification/Allocate.thy ===== *)
theory Allocate
  imports BlockMap
begin

text \<open>
  What \<open>testfs_read_block\<close> and \<open>testfs_allocate_block\<close> do to the block map.  \<open>file_ok\<close> is the
  invariant of an open file; reading returns the block of the map (with the exception of a hole
  below the double-indirect table, see \<open>regular\<close>), allocating adds a data block and the tables it
  needs, or fails and leaves the file as it was.
\<close>

section \<open>The invariant of an open file\<close>

text \<open>\<open>file_okx B\<close>: the blocks in \<open>B\<close> need not have been written yet.\<close>

definition file_okx :: "nat set \<Rightarrow> fs \<Rightarrow> dinode \<Rightarrow> bool" where
  "file_okx B s x \<longleftrightarrow> amap_ok s (addr (dev s) x)
     \<and> (\<forall>sl. 0 < addr (dev s) x sl \<and> nat (addr (dev s) x sl) \<notin> B \<longrightarrow> readable (dev s) (nat (addr (dev s) x sl)))
     \<and> block_count x = int (card (held (addr (dev s) x))) \<and> length (i_block_nr x) = 10 \<and> 0 \<le> i_size x"

abbreviation file_ok :: "fs \<Rightarrow> dinode \<Rightarrow> bool" where
  "file_ok \<equiv> file_okx {}"

definition file_block :: "byte list \<Rightarrow> dinode \<Rightarrow> nat \<Rightarrow> byte list" where
  "file_block d x n = (if 0 < addr d x (Data n) then dblk d (nat (addr d x (Data n))) else zero)"

text \<open>
  A block number is \<open>regular\<close> unless it lies in a hole whose table is missing while the
  double-indirect table exists: there the code returns 0 without zeroing the buffer, which then
  still holds the double-indirect table.
\<close>

definition regular :: "byte list \<Rightarrow> dinode \<Rightarrow> nat \<Rightarrow> bool" where
  "regular d x n \<longleftrightarrow> n < 2058 \<or> i_dindirect x = 0 \<or> 0 < addr d x (Tab ((n - 2058) div 2048))"

definition read_result :: "byte list \<Rightarrow> dinode \<Rightarrow> nat \<Rightarrow> byte list" where
  "read_result d x n = (if regular d x n then file_block d x n else dblk d (nat (i_dindirect x)))"

lemma file_okx_facts:
  assumes "file_okx B s x"
  shows ok_amap: "amap_ok s (addr (dev s) x)"
    and ok_read: "0 < addr (dev s) x sl \<Longrightarrow> nat (addr (dev s) x sl) \<notin> B \<Longrightarrow> readable (dev s) (nat (addr (dev s) x sl))"
    and ok_count: "block_count x = int (card (held (addr (dev s) x)))"
    and ok_len: "length (i_block_nr x) = 10" and ok_size: "0 \<le> i_size x"
  using assms by (simp_all add: file_okx_def)

lemma ok_count_bound:
  assumes "file_okx B s x" "super_inv s"
  shows "0 \<le> block_count x \<and> block_count x \<le> 1048576"
proof -
  have "card (own (addr (dev s) x)) \<le> card (bused s)"
    using ok_amap [OF assms(1)] by (intro card_mono) (simp_all add: amap_ok_def)
  then show ?thesis
    using amap_card [OF ok_amap [OF assms(1)]] card_bused [OF assms(2)] ok_count [OF assms(1)] by linarith
qed

lemma read_slot:
  assumes ok: "file_ok s x" and p: "0 < addr (dev s) x sl"
  shows "read_blocks (addr (dev s) x sl) 1 s = Inr (dblk (dev s) (nat (addr (dev s) x sl)))"
  using read_block [OF ok_read [OF ok p]] p by simp

lemma read_phys_data:
  assumes "file_ok s x"
  shows "read_phys (addr (dev s) x (Data n)) s = Inr (addr (dev s) x (Data n), file_block (dev s) x n)"
  using read_slot [OF assms, of "Data n"] by (auto simp: read_phys_def file_block_def zero_def simp del: addr.simps)

section \<open>testfs_read_block\<close>

lemma int_get_slot: "m < 2048 \<Longrightarrow> 0 < t \<Longrightarrow> int_get (dblk d (nat t)) (int m) = Inr (tent d t m)"
  by (simp add: int_get_dblk tent_def)

lemma read_block_eq:
  assumes o: "opened s p k x d" and ok: "file_ok s x" and n: "n < MAX_BLOCKS"
  shows "testfs_read_block p (int n) block s = Inr (addr (dev s) x (Data n), read_result (dev s) x n)"
proof -
  from opened_deref [OF o] obtain i where i: "deref p s = Inr i" "din i = x" by blast
  note rp = read_phys_data [OF ok, of n]
  consider "n < 10" | "10 \<le> n" "n < 2058" | "2058 \<le> n" by linarith
  then show ?thesis
  proof cases
    case 1
    with i rp ok_len [OF ok] show ?thesis
      by (simp add: testfs_read_block_def read_result_def regular_def)
  next
    case 2
    define m where "m = n - 10"
    have nm: "n = 10 + m" "m < 2048" using 2 by (simp_all add: m_def)
    have pa: "addr (dev s) x (Data n) = tent (dev s) (i_indirect x) m" using nm by simp
    have reg: "read_result (dev s) x n = file_block (dev s) x n" using 2 by (simp add: read_result_def regular_def)
    show ?thesis
    proof (cases "0 < i_indirect x")
      case True
      from read_slot [OF ok, of Ind] True
      have r: "read_blocks (i_indirect x) 1 s = Inr (dblk (dev s) (nat (i_indirect x)))" by simp
      have "testfs_read_block p (int n) block s = read_phys (tent (dev s) (i_indirect x) m) s"
        unfolding testfs_read_block_def using nm i r int_get_slot [OF nm(2) True] True
        by (simp del: One_nat_def)
      with rp pa reg show ?thesis by simp
    next
      case False
      then have z: "addr (dev s) x (Data n) = 0" using pa by (simp add: tent_def)
      have "testfs_read_block p (int n) block s = read_phys 0 s"
        using False nm i by (simp add: testfs_read_block_def)
      with rp z reg show ?thesis by simp
    qed
  next
    case 3
    define q where "q = (n - 2058) div 2048"
    define m where "m = (n - 2058) mod 2048"
    have q: "q < 2048" "m < 2048" using tab_bound [OF n] by (simp_all add: q_def m_def)
    define r where "r = n - 2058"
    have nr: "n = 2058 + r" using 3 by (simp add: r_def)
    have nn: "int n - 10 - 2048 = int r" using nr by simp
    have dm: "int r div 2048 = int q" "int r mod 2048 = int m"
      by (simp_all add: q_def m_def r_def zdiv_int zmod_int)
    have small: "\<not> 4194304 \<le> int r" using n nr by linarith
    have big: "\<not> int n < 10" "2048 \<le> int n - 10" using 3 by auto
    have ge: "0 \<le> i_dindirect x" "0 \<le> tent (dev s) (i_dindirect x) q"
      using amap_nonneg [OF ok_amap [OF ok], of Dind] amap_nonneg [OF ok_amap [OF ok], of "Tab q"] q by simp_all
    have pt: "addr (dev s) x (Tab q) = tent (dev s) (i_dindirect x) q" using q by simp
    have pa: "addr (dev s) x (Data n) = tent (dev s) (tent (dev s) (i_dindirect x) q) m"
      using 3 n by (simp add: q_def m_def)
    show ?thesis
    proof (cases "0 < i_dindirect x")
      case False
      then have "i_dindirect x = 0" using ge(1) by simp
      then have "addr (dev s) x (Data n) = 0" "read_result (dev s) x n = file_block (dev s) x n"
        using pa by (simp_all add: tent_def read_result_def regular_def)
      with False i rp nn small big show ?thesis
        by (simp add: testfs_read_block_def Let_def del: addr.simps)
    next
      case True
      from read_slot [OF ok, of Dind] True
      have r: "read_blocks (i_dindirect x) 1 s = Inr (dblk (dev s) (nat (i_dindirect x)))" by simp
      note g = int_get_slot [OF q(1) True, of "dev s"]
      show ?thesis
      proof (cases "0 < tent (dev s) (i_dindirect x) q")
        case False
        then have z: "tent (dev s) (i_dindirect x) q = 0" using ge(2) by simp
        then have "addr (dev s) x (Data n) = 0" "read_result (dev s) x n = dblk (dev s) (nat (i_dindirect x))"
          using pa pt 3 True by (simp_all add: tent_def read_result_def regular_def q_def [symmetric] del: addr.simps)
        with True i r g z nn small big dm show ?thesis
          by (simp add: testfs_read_block_def Let_def del: addr.simps One_nat_def)
      next
        case tab: True
        from read_slot [OF ok, of "Tab q"] tab pt
        have r2: "read_blocks (tent (dev s) (i_dindirect x) q) 1 s
            = Inr (dblk (dev s) (nat (tent (dev s) (i_dindirect x) q)))" by (simp del: addr.simps)
        note g2 = int_get_slot [OF q(2) tab, of "dev s"]
        have "read_result (dev s) x n = file_block (dev s) x n"
          using tab pt by (simp add: read_result_def regular_def q_def [symmetric] del: addr.simps)
        with True i r g r2 g2 tab nn small big dm rp pa show ?thesis
          by (simp add: testfs_read_block_def Let_def del: addr.simps One_nat_def)
      qed
    qed
  qed
qed

lemma read_block_big:
  assumes "opened s p k x d" "int MAX_BLOCKS \<le> n"
  shows "testfs_read_block p n block s = Inr (- EFBIG, block)"
  using opened_deref [OF assms(1)] assms(2) by (auto simp: testfs_read_block_def Let_def)

section \<open>testfs_allocate_block\<close>

definition tabs :: "(slot \<Rightarrow> int) \<Rightarrow> nat set" where
  "tabs a = (\<lambda>sl. nat (a sl)) ` {sl. 0 < a sl \<and> (\<forall>n. sl \<noteq> Data n)}"

text \<open>
  The outcome of a successful allocation of data block \<open>n\<close>: it holds the fresh block \<open>b\<close>, all
  other data slots are as before, the file owns what it owned and fresh blocks only, and of the
  blocks that were in use at most its own tables were written.
\<close>

definition grown :: "nat \<Rightarrow> nat \<Rightarrow> fs \<Rightarrow> dinode \<Rightarrow> nat \<Rightarrow> fs \<Rightarrow> nat \<Rightarrow> dinode \<Rightarrow> bool" where
  "grown p k s x n s' b x' \<longleftrightarrow> opened s' p k x' True \<and> file_okx {b} s' x'
     \<and> addr (dev s') x' (Data n) = int b \<and> b \<notin> bused s \<and> 146 \<le> b
     \<and> (\<forall>m. m \<noteq> n \<longrightarrow> addr (dev s') x' (Data m) = addr (dev s) x (Data m))
     \<and> (\<forall>sl. 0 < addr (dev s) x sl \<longrightarrow> addr (dev s') x' sl = addr (dev s) x sl)
     \<and> card (bused s') \<le> card (bused s) + 3
     \<and> i_size x' = i_size x \<and> i_type x' = i_type x
     \<and> bused s' = bused s \<union> own (addr (dev s') x')
     \<and> own (addr (dev s') x') \<inter> bused s = own (addr (dev s) x)
     \<and> (\<exists>B. kframe p k B s s' \<and> B \<inter> bused s \<subseteq> tabs (addr (dev s) x))"

lemma count_valid: "file_okx B s x \<Longrightarrow> super_inv s \<Longrightarrow> -10 \<le> c \<Longrightarrow> c \<le> 10 \<Longrightarrow> is_s32 (block_count x + c)"
  using ok_count_bound [of B s x] by auto

lemma valid_set_direct:
  "dinode_valid x \<Longrightarrow> is_s32 b \<Longrightarrow> dinode_valid (x\<lparr>i_block_nr := (i_block_nr x)[n := b]\<rparr>)"
  unfolding dinode_valid_def
  by (auto simp: list_all_iff dest!: set_update_subset_insert [THEN subsetD])

lemma own_le: "amap_ok s a \<Longrightarrow> own a \<subseteq> bused s"
  by (simp add: amap_ok_def)

lemma kframe_trans4:
  "kframe p k A s t \<Longrightarrow> kframe p k B t u \<Longrightarrow> kframe p k C u w \<Longrightarrow> kframe p k (A \<union> B \<union> C) s w"
  using kframe_trans [OF kframe_trans] by blast

lemma readable_kept:
  assumes "file_ok s x" "kframe p k B s s'" "0 < addr (dev s) x sl"
  shows "readable (dev s') (nat (addr (dev s) x sl))"
  using ok_read [OF assms(1,3)] kframe_readable [OF assms(2)] by simp

text \<open>A direct block.\<close>

lemma allocate_direct:
  assumes o: "opened s p k x d" and ok: "file_ok s x" and n: "n < 10"
    and e: "addr (dev s) x (Data n) = 0"
  shows "testfs_allocate_block p (int n) block s = Inr (- ENOSPC, zero, s)
       \<and> max_fs_blocks (sb s) \<le> int (card (bused s))
    \<or> (\<exists>b s' x'. testfs_allocate_block p (int n) block s = Inr (int b, zero, s') \<and> grown p k s x n s' b x')"
proof -
  let ?a = "addr (dev s) x"
  from opened_deref [OF o] obtain i where i: "deref p s = Inr i" "din i = x" by blast
  have rr: "read_result (dev s) x n = zero" using n e by (simp add: read_result_def regular_def file_block_def)
  have rb: "testfs_read_block p (int n) block s = Inr (0, zero)"
    using read_block_eq [OF o ok] n e rr by simp
  have en: "i_block_nr x ! n = 0" using e n by simp
  have c: "is_s32 (block_count x + 1)" by (rule count_valid [OF ok opened_super [OF o]]) simp_all
  from o c show ?thesis
  proof (cases rule: alloc_for_inode)
    case nospace
    with i rb en n ok_len [OF ok] show ?thesis by (simp add: testfs_allocate_block_def)
  next
    case (got b s1)
    let ?x1 = "x\<lparr>block_count := block_count x + 1\<rparr>"
    let ?g = "\<lambda>x. x\<lparr>i_block_nr := (i_block_nr x)[n := int b]\<rparr>"
    have "is_s32 (int b)" using got(4) by simp
    then have "dinode_valid (?g ?x1)" using valid_set_direct [OF opened_valid [OF got(7)]] by blast
    from upd_clean [OF got(7), where g = ?g, OF this] obtain s' where
      s': "upd_inode p (\<lambda>i. i\<lparr>din := ?g (din i)\<rparr>) s1 = Inr s'" "opened s' p k (?g ?x1) True"
        "kframe p k {} s1 s'" "dev s' = dev s1" "bused s' = bused s1" .
    have fr: "kframe p k {} s s'" using kframe_trans [OF got(6) s'(3)] by simp
    have blk: "dblk (dev s') c = dblk (dev s) c" if "146 \<le> c" for c
      using kframe_dblk [OF fr that] by simp
    have a0: "addr (dev s') x sl = ?a sl" for sl
      by (rule addr_cong) (use blk amap_used [OF ok_amap [OF ok]] bused_ge in blast)+
    have "addr (dev s') (?g ?x1) = (addr (dev s') ?x1)(Data n := int b)"
      using addr_set_direct [of ?x1 n "dev s'" "int b"] ok_len [OF ok] n by simp
    also have "addr (dev s') ?x1 = addr (dev s') x" by (rule ext, rule addr_cong) simp_all
    also have "\<dots> = ?a" using a0 by blast
    finally have a': "addr (dev s') (?g ?x1) = ?a(Data n := int b)" .
    have u: "bused s' = insert b (bused s)" using s'(5) got(5) by simp
    note add = amap_add [OF ok_amap [OF ok] got(2) _ e u]
    have b0: "0 < b" using got(3) by simp
    have okx: "file_okx {b} s' (?g ?x1)"
      unfolding file_okx_def a'
      using add [OF b0] ok_count [OF ok] ok_len [OF ok] ok_size [OF ok] readable_kept [OF ok fr]
      by (auto simp del: addr.simps)
    have kc: "\<forall>sl. 0 < ?a sl \<longrightarrow> (?a(Data n := int b)) sl = ?a sl" "card (bused s') \<le> card (bused s) + 3"
      using e by (simp_all add: u card_insert_if del: addr.simps)
    have "grown p k s x n s' b (?g ?x1)"
      unfolding grown_def a' using kc s'(2) okx fr got(2,3) u add(3) [OF b0] own_le [OF ok_amap [OF ok]]
      by (auto simp del: addr.simps intro: exI [of _ "{}"])
    moreover have "testfs_allocate_block p (int n) block s = Inr (int b, zero, s')"
      using i rb en n ok_len [OF ok] got(1) s'(1) by (simp add: testfs_allocate_block_def)
    ultimately show ?thesis by blast
  qed
qed

text \<open>The outcome of a failed allocation: the file is as it was.\<close>

definition kept :: "nat \<Rightarrow> nat \<Rightarrow> fs \<Rightarrow> dinode \<Rightarrow> fs \<Rightarrow> bool" where
  "kept p k s x s' \<longleftrightarrow> opened s' p k x False \<and> file_ok s' x
     \<and> addr (dev s') x = addr (dev s) x \<and> bused s' = bused s
     \<and> (\<exists>B. kframe p k B s s' \<and> B \<inter> bused s = {})"

lemma kept_refl: "opened s p k x d \<Longrightarrow> file_ok s x \<Longrightarrow> kept p k s x s"
  by (auto simp: kept_def intro: opened_weaken exI [of _ "{}"])

lemma valid_fields:
  assumes "dinode_valid x"
  shows "is_s32 t \<Longrightarrow> dinode_valid (x\<lparr>i_indirect := t\<rparr>)" "is_s32 t \<Longrightarrow> dinode_valid (x\<lparr>i_dindirect := t\<rparr>)"
    "is_s64 z \<Longrightarrow> dinode_valid (x\<lparr>i_size := z\<rparr>)"
  using assms by (simp_all add: dinode_valid_def)

lemma slot_block_used:
  "file_ok s x \<Longrightarrow> 0 < addr (dev s) x sl \<Longrightarrow> nat (addr (dev s) x sl) \<in> bused s \<and> 146 \<le> nat (addr (dev s) x sl)"
  using amap_used [OF ok_amap] bused_ge by blast

lemma slot_block_other:
  assumes "file_ok s x" "0 < addr (dev s) x sl" "sl \<noteq> sl'"
  shows "nat (addr (dev s) x sl) \<noteq> nat (addr (dev s) x sl')"
proof
  assume "nat (addr (dev s) x sl) = nat (addr (dev s) x sl')"
  with assms(2) have "addr (dev s) x sl = addr (dev s) x sl'" by linarith
  with amap_eq [OF ok_amap [OF assms(1)] assms(2)] assms(3) show False by simp
qed

text \<open>Below an indirect table that exists.\<close>

lemma allocate_indirect_old:
  assumes o: "opened s p k x d" and ok: "file_ok s x" and m: "m < 2048"
    and t: "0 < i_indirect x" and e: "addr (dev s) x (Data (10 + m)) = 0"
  shows "allocate_indirect p (int m) s = Inr (- ENOSPC, s) \<and> max_fs_blocks (sb s) \<le> int (card (bused s))
    \<or> (\<exists>b s' x'. allocate_indirect p (int m) s = Inr (int b, s') \<and> grown p k s x (10 + m) s' b x')"
proof -
  let ?a = "addr (dev s) x"
  define t where "t = nat (i_indirect x)"
  have ti: "i_indirect x = int t" "0 < t" using \<open>0 < i_indirect x\<close> by (simp_all add: t_def)
  have ind: "?a Ind = int t" using ti by simp
  have tu: "t \<in> bused s" "146 \<le> t" using slot_block_used [OF ok, of Ind] ti by simp_all
  from opened_deref [OF o] obtain i where i: "deref p s = Inr i" "din i = x" by blast
  let ?T = "dblk (dev s) t"
  have r: "read_blocks (int t) 1 s = Inr ?T" using read_slot [OF ok, of Ind] ti by simp
  have em: "entry ?T m = 0" using e m ti by (simp add: tent_def)
  have gm: "int_get ?T (int m) = Inr 0" using int_get_dblk [OF m, of "dev s" t] em by simp
  have c: "is_s32 (block_count x + 1)" by (rule count_valid [OF ok opened_super [OF o]]) simp_all
  from o c show ?thesis
  proof (cases rule: alloc_for_inode)
    case nospace
    with i ti r gm show ?thesis by (simp add: allocate_indirect_def del: One_nat_def)
  next
    case (got b s1)
    let ?x1 = "x\<lparr>block_count := block_count x + 1\<rparr>"
    let ?T' = "set_entry ?T m (int b)"
    have b32: "is_s32 (int b)" using got(4) by simp
    have lenT: "length ?T' = BLOCK_SIZE" using m by (simp add: length_set_block)
    from write_opened [OF got(7) tu(2) lenT] obtain s' where
      s': "write_blocks ?T' (int t) 1 s1 = Inr s'" "opened s' p k ?x1 True" "kframe p k {t} s1 s'"
        "dblk (dev s') t = ?T'" "bused s' = bused s1" .
    have fr: "kframe p k {t} s s'" using kframe_trans [OF got(6) s'(3)] by simp
    have u: "bused s' = insert b (bused s)" using s'(5) got(5) by simp
    have bt: "b \<noteq> t" using got(2) tu(1) by auto
    have "addr (dev s') ?x1 = ?a(Ind := int t, Data (10 + m) := int b)"
    proof (rule addr_set_indirect [OF _ ti(2) m])
      fix m' assume m': "m' < (2048 :: nat)"
      show "entry (dblk (dev s') t) m' = (if m' = m then int b else ?a (Data (10 + m')))"
        using m' m b32 ti by (simp add: s'(4) entry_set_block tent_def)
    next
      fix sl assume sl: "sl = Dind \<or> (\<exists>k. sl = Tab k)" and p: "0 < ?a sl"
      have "nat (?a sl) \<noteq> t" using slot_block_other [OF ok p, of Ind] sl ti by auto
      then show "dblk (dev s') (nat (?a sl)) = dblk (dev s) (nat (?a sl))"
        using slot_block_used [OF ok p] by (intro kframe_dblk [OF fr]) auto
    qed (use ti in simp_all)
    also have "?a(Ind := int t) = ?a" using ind by (simp add: fun_upd_idem)
    finally have a': "addr (dev s') ?x1 = ?a(Data (10 + m) := int b)" .
    note add = amap_add [OF ok_amap [OF ok] got(2) _ e u]
    have b0: "0 < b" using got(3) by simp
    have okx: "file_okx {b} s' ?x1"
      unfolding file_okx_def a'
      using add [OF b0] ok_count [OF ok] ok_len [OF ok] ok_size [OF ok] readable_kept [OF ok fr]
      by (auto simp del: addr.simps)
    have tt: "{t} \<inter> bused s \<subseteq> tabs ?a"
      using ind ti by (auto simp: tabs_def intro!: image_eqI [of _ _ Ind])
    have kc: "\<forall>sl. 0 < ?a sl \<longrightarrow> (?a(Data (10 + m) := int b)) sl = ?a sl" "card (bused s') \<le> card (bused s) + 3"
      using e by (simp_all add: u card_insert_if del: addr.simps)
    have "grown p k s x (10 + m) s' b ?x1"
      unfolding grown_def a' using kc s'(2) okx fr tt got(2,3) u add(3) [OF b0] own_le [OF ok_amap [OF ok]]
      by (auto simp del: addr.simps intro: exI [of _ "{t}"])
    moreover have "allocate_indirect p (int m) s = Inr (int b, s')"
    proof -
      from opened_deref [OF got(7)] obtain i1 where i1: "deref p s1 = Inr i1" "din i1 = ?x1" by blast
      have "int_set ?T (int m) (int b) = Inr ?T'" using m by (simp add: int_set_block)
      with i i1 ti r gm got(1) s'(1) show ?thesis
        by (simp add: allocate_indirect_def del: One_nat_def)
    qed
    ultimately show ?thesis by blast
  qed
qed

text \<open>The indirect table has to be allocated too; if the data block is not to be had, it is given restored.\<close>

lemma allocate_indirect_new:
  assumes o: "opened s p k x d" and ok: "file_ok s x" and m: "m < 2048" and z: "i_indirect x = 0"
  shows "(\<exists>s'. allocate_indirect p (int m) s = Inr (- ENOSPC, s') \<and> kept p k s x s'
        \<and> max_fs_blocks (sb s) \<le> int (card (bused s)) + 1)
    \<or> (\<exists>b s' x'. allocate_indirect p (int m) s = Inr (int b, s') \<and> grown p k s x (10 + m) s' b x')"
proof -
  let ?a = "addr (dev s) x"
  from opened_deref [OF o] obtain i where i: "deref p s = Inr i" "din i = x" by blast
  have c: "is_s32 (block_count x + 1)" "is_s32 (block_count x + 2)"
    using count_valid [OF ok opened_super [OF o]] by simp_all
  have gm: "int_get (replicate BLOCK_SIZE 0) (int m) = Inr 0"
    using int_get_entry [of m "replicate BLOCK_SIZE 0"] entry_fits [OF m] entry_zero_block [OF m] by simp
  from o c(1) show ?thesis
  proof (cases rule: alloc_for_inode)
    case nospace
    with i z have "allocate_indirect p (int m) s = Inr (- ENOSPC, s)"
      by (simp add: allocate_indirect_def)
    with nospace kept_refl [OF o ok] show ?thesis by auto
  next
    case (got t s1)
    note t = got
    let ?x1 = "x\<lparr>block_count := block_count x + 1\<rparr>"
    let ?g = "\<lambda>x. x\<lparr>i_indirect := int t\<rparr>"
    have t32: "is_s32 (int t)" "0 < t" using t(3,4) by simp_all
    have "dinode_valid (?g ?x1)" using valid_fields(1) [OF opened_valid [OF t(7)] t32(1)] .
    from upd_clean [OF t(7), where g = ?g, OF this] obtain s2 where
      s2: "upd_inode p (\<lambda>i. i\<lparr>din := ?g (din i)\<rparr>) s1 = Inr s2" "opened s2 p k (?g ?x1) True"
        "kframe p k {} s1 s2" "dev s2 = dev s1" "bused s2 = bused s1" .
    have f2: "kframe p k {} s s2" using kframe_trans [OF t(6) s2(3)] by simp
    have u2: "bused s2 = insert t (bused s)" using s2(5) t(5) by simp
    have m2: "max_fs_blocks (sb s2) = max_fs_blocks (sb s)" using f2 by (simp add: kframe_def)
    from opened_deref [OF s2(2)] obtain i2 where i2: "deref p s2 = Inr i2" "din i2 = ?g ?x1" by blast
    have c2: "is_s32 (block_count (?g ?x1) + 1)" using c(2) by simp
    from s2(2) c2 show ?thesis
    proof (cases rule: alloc_for_inode)
      case nospace
      have "t \<in> bused s2" using u2 by simp
      moreover have "is_s32 (block_count (?g ?x1) - 1)" using count_valid [OF ok opened_super [OF o], of 0] by simp
      ultimately obtain s3 where
        s3: "testfs_free_block_from_inode p (int t) s2 = Inr s3" "bused s3 = bused s2 - {t}"
          "opened s3 p k ((?g ?x1)\<lparr>block_count := block_count (?g ?x1) - 1\<rparr>) True" "kframe p k {t} s2 s3"
        by (rule free_from_inode [OF s2(2)])
      let ?x3 = "(?g ?x1)\<lparr>block_count := block_count (?g ?x1) - 1\<rparr>"
      let ?h = "\<lambda>x. x\<lparr>i_indirect := (0 :: int)\<rparr>"
      have restored: "?h ?x3 = x" using z by simp
      have "dinode_valid (?h ?x3)" unfolding restored by (rule opened_valid [OF o])
      from upd_clean [OF s3(3), where g = ?h, OF this] obtain s4 where
        s4: "upd_inode p (\<lambda>i. i\<lparr>din := ?h (din i)\<rparr>) s3 = Inr s4" "opened s4 p k (?h ?x3) True"
          "kframe p k {} s3 s4" "dev s4 = dev s3" "bused s4 = bused s3" .
      have f4: "kframe p k {t} s s4" using kframe_trans4 [OF f2 s3(4) s4(3)] by simp
      have u4: "bused s4 = bused s" using s4(5) s3(2) u2 t(2) by simp
      have a4: "addr (dev s4) x = ?a"
      proof (rule ext, rule addr_cong)
        fix sl assume p: "0 < ?a sl"
        show "dblk (dev s4) (nat (?a sl)) = dblk (dev s) (nat (?a sl))"
          using slot_block_used [OF ok p] t(2) by (intro kframe_dblk [OF f4]) auto
      qed simp_all
      have "file_ok s4 x"
        using ok amap_same [OF ok_amap [OF ok] u4] readable_kept [OF ok f4]
        by (simp add: file_okx_def a4 del: addr.simps)
      moreover have "opened s4 p k x False" using opened_weaken [OF s4(2)] unfolding restored .
      ultimately have "kept p k s x s4"
        unfolding kept_def using a4 u4 f4 t(2) by (auto intro: exI [of _ "{t}"])
      moreover have "allocate_indirect p (int m) s = Inr (- ENOSPC, s4)"
        using i i2 z t(1) s2(1) gm nospace(1) s3(1) s4(1) by (simp add: allocate_indirect_def)
      moreover have "max_fs_blocks (sb s) \<le> int (card (bused s)) + 1"
        using nospace(2) u2 t(2) m2 by simp
      ultimately show ?thesis by blast
    next
      case (got b s3)
      let ?x3 = "(?g ?x1)\<lparr>block_count := block_count (?g ?x1) + 1\<rparr>"
      let ?T = "set_entry (replicate BLOCK_SIZE 0) m (int b)"
      have b32: "is_s32 (int b)" using got(4) by simp
      have lenT: "length ?T = BLOCK_SIZE" using m by (simp add: length_set_block)
      from write_opened [OF got(7) t(3) lenT] obtain s' where
        s': "write_blocks ?T (int t) 1 s3 = Inr s'" "opened s' p k ?x3 True" "kframe p k {t} s3 s'"
          "dblk (dev s') t = ?T" "readable (dev s') t" "bused s' = bused s3" .
      have fr: "kframe p k {t} s s'" using kframe_trans4 [OF f2 got(6) s'(3)] by simp
      have bt: "b \<noteq> t" "b \<notin> bused s" using got(2) u2 by auto
      have a': "addr (dev s') ?x3 = ?a(Ind := int t, Data (10 + m) := int b)"
      proof (rule addr_set_indirect [OF _ t32(2) m])
        fix m' assume m': "m' < (2048 :: nat)"
        show "entry (dblk (dev s') t) m' = (if m' = m then int b else ?a (Data (10 + m')))"
          using m' m b32 z by (simp add: s'(4) entry_set_block tent_def entry_zero_block)
      next
        fix sl assume p: "0 < ?a sl"
        show "dblk (dev s') (nat (?a sl)) = dblk (dev s) (nat (?a sl))"
          using slot_block_used [OF ok p] t(2) by (intro kframe_dblk [OF fr]) auto
      qed simp_all
      have u: "bused s' = insert b (bused s2)" using s'(6) got(5) by simp
      have e1: "?a Ind = 0" using z by simp
      have e2: "(?a(Ind := int t)) (Data (10 + m)) = 0" using m z by (simp add: tent_def)
      note add1 = amap_add [OF ok_amap [OF ok] t(2) t32(2) e1 u2]
      have b0: "0 < b" using got(3) by simp
      note add2 = amap_add [OF add1(1) got(2) b0 e2 u]
      have okx: "file_okx {b} s' ?x3"
        unfolding file_okx_def a'
      proof (intro conjI allI impI)
        fix sl assume p: "0 < (?a(Ind := int t, Data (10 + m) := int b)) sl
          \<and> nat ((?a(Ind := int t, Data (10 + m) := int b)) sl) \<notin> {b}"
        then consider "sl = Ind" | "sl \<noteq> Ind" "sl \<noteq> Data (10 + m)" "0 < ?a sl"
          by (cases "sl = Data (10 + m)"; cases "sl = Ind") (simp_all del: addr.simps)
        then show "readable (dev s') (nat ((?a(Ind := int t, Data (10 + m) := int b)) sl))"
        proof cases
          case 1
          with s'(5) show ?thesis by simp
        next
          case 2
          with readable_kept [OF ok fr] show ?thesis by (simp del: addr.simps)
        qed
      next
        show "block_count ?x3 = int (card (held (?a(Ind := int t, Data (10 + m) := int b))))"
          unfolding add2(4) add1(4) using ok_count [OF ok] by simp
      qed (rule add2(1), use ok_len [OF ok] ok_size [OF ok] in simp_all)
      have own: "own (?a(Ind := int t, Data (10 + m) := int b)) = insert b (insert t (own ?a))"
        by (simp only: add2(3) add1(3))
      have kc: "\<forall>sl. 0 < ?a sl \<longrightarrow> (?a(Ind := int t, Data (10 + m) := int b)) sl = ?a sl"
          "card (bused s') \<le> card (bused s) + 3"
        using e1 e2 by (auto simp: u u2 card_insert_if simp del: addr.simps split: if_splits)
      have "grown p k s x (10 + m) s' b ?x3"
        unfolding grown_def a' own
        using kc s'(2) okx fr bt(2) t(2) got(3) u u2 own_le [OF ok_amap [OF ok]]
        by (auto simp del: addr.simps intro: exI [of _ "{t}"])
      moreover have "allocate_indirect p (int m) s = Inr (int b, s')"
      proof -
        from opened_deref [OF got(7)] obtain i3 where i3: "deref p s3 = Inr i3" "din i3 = ?x3" by blast
        have "int_set (replicate BLOCK_SIZE 0) (int m) (int b) = Inr ?T" using m by (simp add: int_set_block)
        with i i2 i3 z t(1) s2(1) gm got(1) s'(1) show ?thesis
          by (simp add: allocate_indirect_def del: One_nat_def)
      qed
      ultimately show ?thesis by blast
    qed
  qed
qed

section \<open>Below the double-indirect table\<close>

text \<open>
  A stage of the allocation: the file that started as \<open>x\<close> in \<open>s\<close> now has the map \<open>a1\<close>, whose new
  blocks are fresh and, of the blocks in use in \<open>s\<close>, only tables of the file have been written.
\<close>

definition dstage :: "nat \<Rightarrow> nat \<Rightarrow> fs \<Rightarrow> dinode \<Rightarrow> fs \<Rightarrow> dinode \<Rightarrow> (slot \<Rightarrow> int) \<Rightarrow> bool" where
  "dstage p k s x s1 x1 a1 \<longleftrightarrow> opened s1 p k x1 False \<and> amap_ok s1 a1
     \<and> block_count x1 = int (card (held a1)) \<and> i_block_nr x1 = i_block_nr x
     \<and> i_indirect x1 = i_indirect x \<and> i_size x1 = i_size x \<and> i_type x1 = i_type x
     \<and> bused s1 = bused s \<union> own a1 \<and> own a1 \<inter> bused s = own (addr (dev s) x)"

lemma dstage_start: "opened s p k x d \<Longrightarrow> file_ok s x \<Longrightarrow> dstage p k s x s x (addr (dev s) x)"
  using own_le [OF ok_amap [of "{}" s x]]
  by (auto simp: dstage_def ok_amap ok_count intro: opened_weaken)

lemma dstage_count: "dstage p k s x s1 x1 a1 \<Longrightarrow> -10 \<le> c \<Longrightarrow> c \<le> 10 \<Longrightarrow> is_s32 (block_count x1 + c)"
proof -
  assume d: "dstage p k s x s1 x1 a1" and c: "-10 \<le> c" "c \<le> 10"
  then have o: "opened s1 p k x1 False" and a: "amap_ok s1 a1" and n: "block_count x1 = int (card (held a1))"
    by (simp_all add: dstage_def)
  have "card (own a1) \<le> card (bused s1)" using a by (intro card_mono) (simp_all add: amap_ok_def)
  then have "card (held a1) \<le> 1048576"
    using amap_card [OF a] card_bused [OF opened_super [OF o]] by simp
  with n c show ?thesis by simp
qed

lemma dstage_alloc:
  assumes d: "dstage p k s x s1 x1 a1" and e: "a1 sl = 0"
  obtains (nospace) "testfs_alloc_block_for_inode p s1 = Inr (- ENOSPC, s1)"
      "max_fs_blocks (sb s1) \<le> int (card (bused s1))"
  | (got) b s2 where "testfs_alloc_block_for_inode p s1 = Inr (int b, s2)" "b \<notin> bused s1" "146 \<le> b"
      "is_s32 (int b)" "bused s2 = insert b (bused s1)" "kframe p k {} s1 s2"
      "opened s2 p k (x1\<lparr>block_count := block_count x1 + 1\<rparr>) True"
      "dstage p k s x s2 (x1\<lparr>block_count := block_count x1 + 1\<rparr>) (a1(sl := int b))"
proof -
  from d have o: "opened s1 p k x1 False" and a: "amap_ok s1 a1" by (simp_all add: dstage_def)
  have c: "is_s32 (block_count x1 + 1)" by (rule dstage_count [OF d]) simp_all
  from o c show thesis
  proof (cases rule: alloc_for_inode)
    case nospace
    then show ?thesis by (rule that(1))
  next
    case (got b s2)
    have b0: "0 < b" using got(3) by simp
    note add = amap_add [OF a got(2) b0 e got(5)]
    have "b \<notin> bused s" using got(2) d by (auto simp: dstage_def)
    then have "dstage p k s x s2 (x1\<lparr>block_count := block_count x1 + 1\<rparr>) (a1(sl := int b))"
      unfolding dstage_def using d add(1,3,4) got(5) opened_weaken [OF got(7)]
      by (auto simp: dstage_def simp del: fun_upd_apply)
    moreover have "is_s32 (int b)" using got(4) by simp
    ultimately show ?thesis using got by (intro that(2)) auto
  qed
qed

text \<open>A failed allocation below the double-indirect table: what else exists is not affected.\<close>

definition dfailed :: "nat \<Rightarrow> nat \<Rightarrow> fs \<Rightarrow> dinode \<Rightarrow> fs \<Rightarrow> bool" where
  "dfailed p k s x s' \<longleftrightarrow> (\<exists>x' B. opened s' p k x' False \<and> kframe p k B s s'
     \<and> B \<inter> bused s \<subseteq> tabs (addr (dev s) x) \<and> bused s \<subseteq> bused s')"

lemma dfailed_now:
  "opened s' p k x' d \<Longrightarrow> kframe p k B s s' \<Longrightarrow> B \<inter> bused s \<subseteq> tabs (addr (dev s) x) \<Longrightarrow>
   bused s \<subseteq> bused s' \<Longrightarrow> dfailed p k s x s'"
  unfolding dfailed_def using opened_weaken by blast

text \<open>Step 1.  \<open>dd\<close> is the double-indirect table, \<open>new\<close> whether it has just been allocated.\<close>

lemma dind_root_cases:
  assumes o: "opened s p k x d" and ok: "file_ok s x"
  obtains (nospace) "dind_root p s = Inr (- ENOSPC, zero, False, s)"
      "max_fs_blocks (sb s) \<le> int (card (bused s))" "i_dindirect x = 0"
  | (root) r D new s1 x1 dd where "dind_root p s = Inr (r, D, new, s1)" "0 \<le> r" "i_dindirect x1 = int dd"
      "146 \<le> dd" "length D = BLOCK_SIZE" "\<forall>q < 2048. entry D q = addr (dev s) x (Tab q)"
      "kframe p k {} s s1" "dstage p k s x s1 x1 ((addr (dev s) x)(Dind := int dd))"
      "if new then i_dindirect x = 0 \<and> dd \<notin> bused s
       else s1 = s \<and> x1 = x \<and> D = dblk (dev s) dd \<and> readable (dev s) dd"
proof -
  let ?a = "addr (dev s) x"
  from opened_deref [OF o] obtain i where i: "deref p s = Inr i" "din i = x" by blast
  note st = dstage_start [OF o ok]
  show thesis
  proof (cases "i_dindirect x = 0")
    case False
    then have pos: "0 < ?a Dind" using amap_nonneg [OF ok_amap [OF ok], of Dind] by simp
    define dd where "dd = nat (i_dindirect x)"
    have dd: "i_dindirect x = int dd" "0 < dd" using pos by (simp_all add: dd_def)
    have "dind_root p s = Inr (0, dblk (dev s) dd, False, s)"
      using i dd False read_slot [OF ok pos] by (simp add: dind_root_def del: One_nat_def)
    moreover have "?a(Dind := int dd) = ?a" using dd by (simp add: fun_upd_idem)
    moreover have "entry (dblk (dev s) dd) q = ?a (Tab q)" if "q < 2048" for q
      using that dd by (simp add: tent_def)
    ultimately show thesis
      using slot_block_used [OF ok pos] ok_read [OF ok pos] dd st
      by (intro root [of 0 "dblk (dev s) dd" False s x dd]) (simp_all add: fun_upd_idem)
  next
    case True
    then have e: "?a Dind = 0" by simp
    from st e show thesis
    proof (cases rule: dstage_alloc)
      case nospace
      with i True show thesis by (intro that(1)) (simp_all add: dind_root_def zero_def)
    next
      case (got dd s1)
      let ?x1 = "x\<lparr>block_count := block_count x + 1\<rparr>"
      let ?g = "\<lambda>x. x\<lparr>i_dindirect := int dd\<rparr>"
      have "dinode_valid (?g ?x1)" using valid_fields(2) [OF opened_valid [OF got(7)] got(4)] .
      from upd_clean [OF got(7), where g = ?g, OF this] obtain s2 where
        s2: "upd_inode p (\<lambda>i. i\<lparr>din := ?g (din i)\<rparr>) s1 = Inr s2" "opened s2 p k (?g ?x1) True"
          "kframe p k {} s1 s2" "dev s2 = dev s1" "bused s2 = bused s1" .
      have f2: "kframe p k {} s s2" using kframe_trans [OF got(6) s2(3)] by simp
      have "dstage p k s x s2 (?g ?x1) (?a(Dind := int dd))"
        using got(8) opened_weaken [OF s2(2)] s2(5) amap_same [OF _ s2(5), of "?a(Dind := int dd)"]
        by (simp add: dstage_def)
      moreover have "dind_root p s = Inr (int dd, replicate BLOCK_SIZE 0, True, s2)"
        using i True got(1) s2(1) by (simp add: dind_root_def)
      moreover have "entry (replicate BLOCK_SIZE 0) q = ?a (Tab q)" if "q < 2048" for q
        using that True entry_zero_block by (simp add: tent_def)
      ultimately show thesis
        using got(2,3) f2 True
        by (intro root [of "int dd" "replicate BLOCK_SIZE 0" True s2 "?g ?x1" dd]) simp_all
    qed
  qed
qed

lemma dstage_open:
  assumes "dstage p k s x s1 x1 a1"
  shows "opened s1 p k x1 False" "amap_ok s1 a1" "bused s \<subseteq> bused s1" "own a1 \<subseteq> bused s1"
  using assms by (auto simp: dstage_def)

lemma dstage_same:
  "dstage p k s x s1 x1 a1 \<Longrightarrow> opened s2 p k x1 d \<Longrightarrow> bused s2 = bused s1 \<Longrightarrow> dstage p k s x s2 x1 a1"
  using amap_same opened_weaken by (auto simp: dstage_def)

text \<open>
  Step 2.  After it the double-indirect table is on disk and lists \<open>t\<close> at \<open>q\<close>, and \<open>I\<close> holds the
  entries of table \<open>t\<close>.
\<close>

lemma dind_table_cases:
  assumes ok: "file_ok s x" and q: "q < 2048" and st: "dstage p k s x s1 x1 ((addr (dev s) x)(Dind := int dd))"
    and dd: "i_dindirect x1 = int dd" "146 \<le> dd" and D: "length D = BLOCK_SIZE"
      "\<forall>q < 2048. entry D q = addr (dev s) x (Tab q)" and f: "kframe p k {} s s1"
    and new: "if new then i_dindirect x = 0 \<and> dd \<notin> bused s
       else s1 = s \<and> x1 = x \<and> D = dblk (dev s) dd \<and> readable (dev s) dd"
  obtains (nospace) D' s' where "dind_table p (int q) D new s1 = Inr (- ENOSPC, D', [], False, s')"
      "dfailed p k s x s'" "max_fs_blocks (sb s) \<le> int (card (bused s1))"
  | (table) r D' I fresh t s2 x2 where "dind_table p (int q) D new s1 = Inr (r, D', I, fresh, s2)" "0 \<le> r"
      "int_get D' (int q) = Inr (int t)" "146 \<le> t" "length I = BLOCK_SIZE" "i_dindirect x2 = int dd"
      "\<And>m. m < 2048 \<Longrightarrow> entry I m = addr (dev s) x (Data (2058 + 2048 * q + m))"
      "dstage p k s x s2 x2 ((addr (dev s) x)(Dind := int dd, Tab q := int t))"
      "kframe p k {dd} s s2" "readable (dev s2) dd"
      "\<And>q'. q' < 2048 \<Longrightarrow> entry (dblk (dev s2) dd) q' = (if q' = q then int t else addr (dev s) x (Tab q'))"
      "if fresh then t \<notin> bused s \<and> t \<noteq> dd \<and> addr (dev s) x (Tab q) = 0 else t \<in> bused s \<and> \<not> new \<and> addr (dev s) x (Tab q) = int t"
      "{dd} \<inter> bused s \<subseteq> tabs (addr (dev s) x)"
proof -
  let ?a = "addr (dev s) x"
  let ?a1 = "?a(Dind := int dd)"
  note so = dstage_open [OF st]
  from opened_deref [OF so(1)] obtain i where i: "deref p s1 = Inr i" "din i = x1" by blast
  have gD: "int_get D (int q) = Inr (?a (Tab q))"
    using int_get_entry [of q D] D entry_fits [OF q] q by simp
  have tabsD: "{dd} \<inter> bused s \<subseteq> tabs ?a"
  proof (cases new)
    case True
    with new show ?thesis by simp
  next
    case False
    with new dd have "?a Dind = int dd" "0 < dd" by simp_all
    then show ?thesis by (auto simp: tabs_def intro!: image_eqI [of _ _ Dind])
  qed
  show thesis
  proof (cases "?a (Tab q) = 0")
    case False
    then have pos: "0 < ?a (Tab q)" using amap_nonneg [OF ok_amap [OF ok], of "Tab q"] by (simp del: addr.simps)
    have old: "\<not> new" using new False q by (auto simp: tent_def)
    with new have s1: "s1 = s" "x1 = x" "D = dblk (dev s) dd" "readable (dev s) dd" by auto
    define t where "t = nat (?a (Tab q))"
    have t: "?a (Tab q) = int t" "0 < t" using pos by (simp_all add: t_def del: addr.simps)
    have tt: "t \<in> bused s" "146 \<le> t" using slot_block_used [OF ok pos] by (simp_all add: t_def del: addr.simps)
    have "read_blocks (int t) 1 s = Inr (dblk (dev s) t)" using read_slot [OF ok pos] t by (simp del: addr.simps One_nat_def)
    then have eq: "dind_table p (int q) D new s1 = Inr (0, D, dblk (dev s) t, False, s1)"
      using gD t False s1 by (simp add: dind_table_def del: addr.simps One_nat_def)
    have "entry (dblk (dev s) t) m = ?a (Data (2058 + 2048 * q + m))" if "m < 2048" for m
      using dindex [OF q that] t q by (simp add: tent_def)
    moreover have "?a(Dind := int dd, Tab q := int t) = ?a1" using t by (simp add: fun_upd_idem_iff del: addr.simps)
    moreover have "entry (dblk (dev s) dd) q' = (if q' = q then int t else ?a (Tab q'))" if "q' < 2048" for q'
      using D(2) that s1(3) t(1) by (simp del: addr.simps)
    ultimately show thesis
      using gD t tt st dd(1) s1 old tabsD
      by (intro table [OF eq, of t x1]) (simp_all del: addr.simps fun_upd_apply)
  next
    case True
    have e1: "?a1 (Tab q) = 0" using True by (simp del: addr.simps)
    from st e1 show thesis
    proof (cases rule: dstage_alloc)
      case nospace
      have max: "max_fs_blocks (sb s) = max_fs_blocks (sb s1)" using f by (simp add: kframe_def)
      show thesis
      proof (cases new)
        case False
        then have "dind_table p (int q) D new s1 = Inr (- ENOSPC, D, [], False, s1)"
          using gD True nospace(1) i by (simp add: dind_table_def del: addr.simps)
        moreover have "dfailed p k s x s1" using dfailed_now [OF so(1) f] so(3) by simp
        ultimately show thesis using that(1) nospace(2) max by simp
      next
        case isnew: True
        have "dd \<in> bused s1" "is_s32 (block_count x1 - 1)"
          using so(4) dd dstage_count [OF st, of "-1"] by (auto simp: own_def held_def intro!: image_eqI [of _ _ Dind])
        then obtain s2 where s2: "testfs_free_block_from_inode p (int dd) s1 = Inr s2" "bused s2 = bused s1 - {dd}"
            "opened s2 p k (x1\<lparr>block_count := block_count x1 - 1\<rparr>) True" "kframe p k {dd} s1 s2"
          by (rule free_from_inode [OF so(1)])
        have "dind_table p (int q) D new s1 = Inr (- ENOSPC, D, [], False, s2)"
          using gD True nospace(1) i s2(1) isnew dd(1) by (simp add: dind_table_def del: addr.simps)
        moreover have "dfailed p k s x s2"
          using dfailed_now [OF s2(3) kframe_trans [OF f s2(4)], of x] tabsD so(3) s2(2) new isnew by auto
        ultimately show thesis using that(1) nospace(2) max by simp
      qed
    next
      case (got t s2)
      let ?x2 = "x1\<lparr>block_count := block_count x1 + 1\<rparr>"
      let ?D = "set_entry D q (int t)"
      have lenD: "length ?D = BLOCK_SIZE" using D(1) q by (simp add: length_set_block)
      from write_opened [OF got(7) dd(2) lenD] obtain s3 where
        s3: "write_blocks ?D (int dd) 1 s2 = Inr s3" "opened s3 p k ?x2 True" "kframe p k {dd} s2 s3"
          "dblk (dev s3) dd = ?D" "readable (dev s3) dd" "bused s3 = bused s2" .
      from opened_deref [OF got(7)] obtain i2 where i2: "deref p s2 = Inr i2" "din i2 = ?x2" by blast
      have g2: "int_set D (int q) (int t) = Inr ?D" using D(1) q by (simp add: int_set_block)
      have eq: "dind_table p (int q) D new s1 = Inr (int t, ?D, replicate BLOCK_SIZE 0, True, s3)"
        using gD True got(1) i2 dd(1) g2 s3(1) by (simp add: dind_table_def del: addr.simps One_nat_def)
      have "int_get ?D (int q) = Inr (int t)"
        using int_get_entry [of q ?D] lenD entry_fits [OF q] entry_set_block [OF D(1) q q got(4)] by simp
      moreover have "entry (dblk (dev s3) dd) q' = (if q' = q then int t else ?a (Tab q'))" if "q' < 2048" for q'
        using entry_set_block [OF D(1) q that got(4)] D(2) that s3(4) by (simp del: addr.simps)
      moreover have "entry (replicate BLOCK_SIZE 0) m = ?a (Data (2058 + 2048 * q + m))" if "m < 2048" for m
        using dindex [OF q that] True q entry_zero_block [OF that] by (simp add: tent_def)
      moreover have "dstage p k s x s3 ?x2 (?a1(Tab q := int t))"
        by (rule dstage_same [OF got(8) s3(2,6)])
      moreover have "kframe p k {dd} s s3" using kframe_trans4 [OF f got(6) s3(3)] by simp
      moreover have "t \<notin> bused s \<and> t \<noteq> dd"
        using got(2) so(3,4) dd by (auto simp: own_def held_def intro!: image_eqI [of _ _ Dind])
      ultimately show thesis
        using got(3) dd(1) s3(5) tabsD True
        by (intro table [OF eq, of t ?x2]) (simp_all del: addr.simps fun_upd_apply)
    qed
  qed
qed

text \<open>Step 3, and the three together.\<close>

lemma allocate_dindirect_spec:
  assumes o: "opened s p k x d" and ok: "file_ok s x" and r: "r < 2048 * 2048"
    and e: "addr (dev s) x (Data (2058 + r)) = 0"
  shows "(\<exists>s'. allocate_dindirect p (int r) s = Inr (- ENOSPC, s') \<and> dfailed p k s x s'
        \<and> max_fs_blocks (sb s) \<le> int (card (bused s)) + 2)
    \<or> (\<exists>b s' x'. allocate_dindirect p (int r) s = Inr (int b, s') \<and> grown p k s x (2058 + r) s' b x')"
proof -
  let ?a = "addr (dev s) x"
  define q where "q = r div 2048"
  define m where "m = r mod 2048"
  have q: "q < 2048" "m < 2048" using r by (simp_all add: q_def m_def less_mult_imp_div_less)
  have rq: "r = 2048 * q + m" by (simp add: q_def m_def)
  have dm: "int r div 2048 = int q" "int r mod 2048 = int m" by (simp_all add: q_def m_def zdiv_int zmod_int)
  have n: "2058 + r = 2058 + 2048 * q + m" using rq by simp
  from o ok show ?thesis
  proof (cases rule: dind_root_cases)
    case nospace
    have "dfailed p k s x s" by (rule dfailed_now [OF o kframe_refl [of p k "{}"]]) simp_all
    with nospace show ?thesis by (simp add: allocate_dindirect_def)
  next
    case (root rr D new s1 x1 dd)
    let ?a1 = "?a(Dind := int dd)"
    note so1 = dstage_open [OF root(8)]
    have card1: "int (card (bused s1)) \<le> int (card (bused s)) + 1"
    proof -
      have "own ?a1 \<subseteq> insert dd (bused s)"
        using own_le [OF ok_amap [OF ok]] by (fastforce simp: own_def held_def split: if_splits)
      then have "bused s1 \<subseteq> insert dd (bused s)" using root(8) by (auto simp: dstage_def)
      then have "card (bused s1) \<le> card (insert dd (bused s))" by (intro card_mono) simp_all
      also have "\<dots> \<le> card (bused s) + 1" by (simp add: card_insert_if)
      finally show ?thesis by simp
    qed
    from ok q(1) root(8,3-7,9) show ?thesis
    proof (cases rule: dind_table_cases)
      case (nospace D' s')
      have "allocate_dindirect p (int r) s = Inr (- ENOSPC, s')"
        using root(1,2) nospace(1) dm by (simp add: allocate_dindirect_def)
      with nospace card1 show ?thesis by auto
    next
      case (table rt D' I fresh t s2 x2)
      let ?a2 = "?a(Dind := int dd, Tab q := int t)"
      note so2 = dstage_open [OF table(8)]
      have eq: "allocate_dindirect p (int r) s = dind_data p (int r) D' I new fresh s2"
        using root(1,2) table(1,2) dm by (simp add: allocate_dindirect_def)
      have e2: "?a2 (Data (2058 + r)) = 0" using e by simp
      have dd0: "0 < dd" "0 < t" using root(4) table(4) by auto
      have a2t: "?a2 (Tab q) = int t" "?a2 Dind = int dd" by simp_all
      have "t = nat (?a2 (Tab q))" "dd = nat (?a2 Dind)" "Tab q \<in> held ?a2" "Dind \<in> held ?a2"
        using dd0 by (simp_all add: held_def)
      then have owns: "t \<in> own ?a2" "dd \<in> own ?a2" unfolding own_def by blast+
      have tdd: "t \<noteq> dd"
        using amap_eq [OF so2(2), of "Tab q" Dind] dd0 by auto
      from table(8) e2 show ?thesis
      proof (cases rule: dstage_alloc)
        case nospace
        have c: "is_s32 (block_count x2 - 1)" "is_s32 (block_count x2 - 2)"
          using dstage_count [OF table(8), of "-1"] dstage_count [OF table(8), of "-2"] by simp_all
        have room: "max_fs_blocks (sb s) \<le> int (card (bused s)) + 2"
        proof -
          have "own ?a2 \<subseteq> insert t (insert dd (bused s))"
            using own_le [OF ok_amap [OF ok]] by (fastforce simp: own_def held_def split: if_splits)
          then have "bused s2 \<subseteq> insert t (insert dd (bused s))" using table(8) by (auto simp: dstage_def)
          then have "card (bused s2) \<le> card (insert t (insert dd (bused s)))" by (intro card_mono) simp_all
          also have "\<dots> \<le> card (bused s) + 2" by (simp add: card_insert_if)
          finally have "card (bused s2) \<le> card (bused s) + 2" .
          moreover have "max_fs_blocks (sb s2) = max_fs_blocks (sb s)" using table(9) by (simp add: kframe_def)
          ultimately show ?thesis using nospace(2) by simp
        qed
        show ?thesis
        proof (cases fresh)
          case False
          with table(12) have "\<not> new" by simp
          with False have "allocate_dindirect p (int r) s = Inr (- ENOSPC, s2)"
            using eq nospace(1) table(3) dm by (simp add: dind_data_def)
          moreover have "dfailed p k s x s2" using dfailed_now [OF so2(1) table(9,13)] so2(3) by simp
          ultimately show ?thesis using room by blast
        next
          case True
          with table(12) have tn: "t \<notin> bused s" by simp
          have "t \<in> bused s2" using owns(1) so2(4) by blast
          from free_from_inode [OF so2(1) this c(1)] obtain s3 where
            s3: "testfs_free_block_from_inode p (int t) s2 = Inr s3" "bused s3 = bused s2 - {t}"
              "opened s3 p k (x2\<lparr>block_count := block_count x2 - 1\<rparr>) True" "kframe p k {t} s2 s3" .
          have f3: "kframe p k ({dd} \<union> {t}) s s3" by (rule kframe_trans [OF table(9) s3(4)])
          show ?thesis
          proof (cases new)
            case False
            have "allocate_dindirect p (int r) s = Inr (- ENOSPC, s3)"
              using eq nospace(1) table(3) dm False True s3(1) by (simp add: dind_data_def)
            moreover have "dfailed p k s x s3"
              using dfailed_now [OF s3(3) f3, of x] table(13) tn so2(3) s3(2) by auto
            ultimately show ?thesis using room by blast
          next
            case isnew: True
            have "dd \<in> bused s3" using owns(2) so2(4) s3(2) tdd by auto
            moreover have "is_s32 (block_count (x2\<lparr>block_count := block_count x2 - 1\<rparr>) - 1)" using c(2) by simp
            ultimately obtain s4 where
              s4: "testfs_free_block_from_inode p (int dd) s3 = Inr s4" "bused s4 = bused s3 - {dd}"
                "opened s4 p k (x2\<lparr>block_count := block_count x2 - 1 - 1\<rparr>) True" "kframe p k {dd} s3 s4"
              by (rule free_from_inode [OF s3(3)]) simp
            from opened_deref [OF s3(3)] obtain i3 where "deref p s3 = Inr i3" "i_dindirect (din i3) = int dd"
              using table(6) by auto
            then have "allocate_dindirect p (int r) s = Inr (- ENOSPC, s4)"
              using eq nospace(1) table(3) dm isnew s3(1) s4(1) by (simp add: dind_data_def)
            moreover have "dfailed p k s x s4"
              using dfailed_now [OF s4(3) kframe_trans [OF f3 s4(4)], of x] table(13) tn so2(3) s3(2) s4(2)
                root(9) isnew by auto
            ultimately show ?thesis using room by blast
          qed
        qed
      next
        case (got b s3)
        let ?x3 = "x2\<lparr>block_count := block_count x2 + 1\<rparr>"
        let ?I = "set_entry I m (int b)"
        have lenI: "length ?I = BLOCK_SIZE" using table(5) q(2) by (simp add: length_set_block)
        from write_opened [OF got(7) table(4) lenI] obtain s' where
          s': "write_blocks ?I (int t) 1 s3 = Inr s'" "opened s' p k ?x3 True" "kframe p k {t} s3 s'"
            "dblk (dev s') t = ?I" "readable (dev s') t" "bused s' = bused s3" .
        have fr: "kframe p k ({dd} \<union> {} \<union> {t}) s s'" by (rule kframe_trans4 [OF table(9) got(6) s'(3)])
        have fr2: "kframe p k {t} s2 s'" using kframe_trans [OF got(6) s'(3)] by simp
        have "int_set I (int m) (int b) = Inr ?I" using table(5) q(2) by (simp add: int_set_block)
        then have eq2: "allocate_dindirect p (int r) s = Inr (int b, s')"
          using eq table(3) dm got(1) s'(1) by (simp add: dind_data_def del: One_nat_def)
        have st: "dstage p k s x s' ?x3 (?a2(Data (2058 + r) := int b))"
          by (rule dstage_same [OF got(8) s'(2,6)])
        have ddblk: "dblk (dev s') dd = dblk (dev s2) dd"
          by (rule kframe_dblk [OF fr2 root(4)]) (use tdd in auto)
        have a': "addr (dev s') ?x3 = ?a2(Data (2058 + r) := int b)"
          unfolding n
        proof (rule addr_set_dindirect [OF _ dd0 q])
          show "i_dindirect ?x3 = int dd" using table(6) by simp
          show "entry (dblk (dev s') dd) q' = (if q' = q then int t else ?a (Tab q'))" if "q' < 2048" for q'
            unfolding ddblk by (rule table(11) [OF that])
          show "entry (dblk (dev s') t) m' = (if m' = m then int b else ?a (Data (2058 + 2048 * q + m')))"
            if "m' < 2048" for m'
            using entry_set_block [OF table(5) q(2) that got(4)] table(7) [OF that] s'(4) by simp
        next
          fix sl assume sl: "sl = Ind \<or> (\<exists>k'. sl = Tab k' \<and> k' \<noteq> q)" and p: "0 < ?a sl"
          then have same: "?a2 sl = ?a sl" by auto
          with amap_eq [OF so2(2), of sl "Tab q"] amap_eq [OF so2(2), of sl Dind] p sl a2t
          have "?a sl \<noteq> int t" "?a sl \<noteq> int dd" by auto
          then have "nat (?a sl) \<notin> {dd} \<union> {} \<union> {t}" using p by auto
          then show "dblk (dev s') (nat (?a sl)) = dblk (dev s) (nat (?a sl))"
            using slot_block_used [OF ok p] by (intro kframe_dblk [OF fr]) auto
        qed (use table(8) in \<open>simp_all add: dstage_def\<close>)
        have "readable (dev s') dd" using kframe_readable [OF fr2 table(10)] .
        have rd: "readable (dev s') (nat ((?a2(Data (2058 + r) := int b)) sl))"
          if p: "0 < (?a2(Data (2058 + r) := int b)) sl" and nb: "nat ((?a2(Data (2058 + r) := int b)) sl) \<notin> {b}" for sl
        proof -
          consider "sl = Dind" | "sl = Tab q" | "sl \<noteq> Dind" "sl \<noteq> Tab q" "sl \<noteq> Data (2058 + r)" "0 < ?a sl"
            using p nb by (cases "sl = Data (2058 + r)"; cases "sl = Dind"; cases "sl = Tab q") (simp_all del: addr.simps)
          then show ?thesis
          proof cases
            case 1
            then show ?thesis using \<open>readable (dev s') dd\<close> by simp
          next
            case 2
            then show ?thesis using s'(5) by simp
          next
            case 3
            then show ?thesis using readable_kept [OF ok fr] by (simp del: addr.simps)
          qed
        qed
        have okx: "file_okx {b} s' ?x3"
          unfolding file_okx_def a' using st rd ok_len [OF ok] ok_size [OF ok]
          by (auto simp: dstage_def simp del: addr.simps fun_upd_apply)
        have tabsT: "({dd} \<union> {} \<union> {t}) \<inter> bused s \<subseteq> tabs ?a"
        proof (cases "t \<in> bused s")
          case False
          then show ?thesis using table(13) by auto
        next
          case True
          with table(12) have "?a (Tab q) = int t" by (auto split: if_splits)
          then have "t \<in> tabs ?a" using dd0(2) by (auto simp: tabs_def simp del: addr.simps intro!: image_eqI [of _ _ "Tab q"])
          then show ?thesis using table(13) by auto
        qed
        have bn: "b \<notin> bused s" using got(2) so2(3) by blast
        have "(?a2(Data (2058 + r) := int b)) (Data (2058 + r)) = int b"
          "\<forall>m. m \<noteq> 2058 + r \<longrightarrow> (?a2(Data (2058 + r) := int b)) (Data m) = ?a (Data m)"
          by simp_all
        moreover have "\<forall>sl. 0 < ?a sl \<longrightarrow> (?a2(Data (2058 + r) := int b)) sl = ?a sl"
        proof (intro allI impI)
          fix sl assume p: "0 < ?a sl"
          have "?a Dind = int dd" if "0 < ?a Dind"
            using that root(3,9) by (auto split: if_splits)
          moreover have "?a (Tab q) = int t" if "0 < ?a (Tab q)"
            using that table(12) by (auto simp del: addr.simps split: if_splits)
          ultimately show "(?a2(Data (2058 + r) := int b)) sl = ?a sl"
            using p e by (auto simp del: addr.simps)
        qed
        moreover have "card (bused s') \<le> card (bused s) + 3"
        proof -
          have "own (?a2(Data (2058 + r) := int b)) \<subseteq> insert b (insert t (insert dd (bused s)))"
            using own_le [OF ok_amap [OF ok]] by (fastforce simp: own_def held_def split: if_splits)
          then have "bused s' \<subseteq> insert b (insert t (insert dd (bused s)))" using st by (auto simp: dstage_def)
          then have "card (bused s') \<le> card (insert b (insert t (insert dd (bused s))))"
            by (intro card_mono) simp_all
          also have "\<dots> \<le> card (bused s) + 3" by (simp add: card_insert_if)
          finally show ?thesis .
        qed
        ultimately have "grown p k s x (2058 + r) s' b ?x3"
          unfolding grown_def a' using s'(2) okx bn got(3) st fr tabsT
          unfolding dstage_def by blast
        with eq2 show ?thesis by blast
      qed
    qed
  qed
qed

text \<open>A block that exists has a table, so reading it is regular.\<close>

lemma held_table:
  assumes "0 < addr d x (Data n)" "n < MAX_BLOCKS" "2058 \<le> n"
  shows "0 < addr d x (Tab ((n - 2058) div 2048))"
  using assms tab_bound [OF assms(2)] by (auto simp: tent_def split: if_splits)

lemma read_result_held:
  assumes "0 < addr d x (Data n)" "n < MAX_BLOCKS"
  shows "read_result d x n = file_block d x n"
  using held_table [OF assms] by (auto simp: read_result_def regular_def simp del: addr.simps)

lemma allocate_block_spec:
  assumes o: "opened s p k x d" and ok: "file_ok s x" and n: "n < MAX_BLOCKS"
  shows "(0 < addr (dev s) x (Data n)
      \<and> testfs_allocate_block p (int n) block s = Inr (addr (dev s) x (Data n), file_block (dev s) x n, s))
    \<or> (addr (dev s) x (Data n) = 0 \<and> (\<exists>b s' x'. testfs_allocate_block p (int n) block s
        = Inr (int b, read_result (dev s) x n, s') \<and> grown p k s x n s' b x'))
    \<or> (addr (dev s) x (Data n) = 0 \<and> max_fs_blocks (sb s) \<le> int (card (bused s)) + 2
        \<and> (\<exists>s'. testfs_allocate_block p (int n) block s = Inr (- ENOSPC, read_result (dev s) x n, s')
             \<and> (if n < 2058 then kept p k s x s' else dfailed p k s x s')))"
proof -
  let ?a = "addr (dev s) x"
  note rb = read_block_eq [OF o ok n, of block]
  show ?thesis
  proof (cases "?a (Data n) = 0")
    case False
    then have p: "0 < ?a (Data n)" using amap_nonneg [OF ok_amap [OF ok], of "Data n"] by (simp del: addr.simps)
    have "read_result (dev s) x n = file_block (dev s) x n" by (rule read_result_held [OF p n])
    with rb False p show ?thesis by (simp add: testfs_allocate_block_def del: addr.simps)
  next
    case e: True
    consider "n < 10" | "10 \<le> n" "n < 2058" | "2058 \<le> n" by linarith
    then show ?thesis
    proof cases
      case 1
      then have rr: "read_result (dev s) x n = zero" using e by (simp add: read_result_def regular_def file_block_def)
      from allocate_direct [OF o ok 1 e, of block] show ?thesis
        using e rr kept_refl [OF o ok] 1 by auto
    next
      case 2
      define m where "m = n - 10"
      have m: "n = 10 + m" "m < 2048" using 2 by (simp_all add: m_def)
      have eq: "testfs_allocate_block p (int n) block s
          = bindr (allocate_indirect p (int m) s) (\<lambda>(ret, s'). Inr (ret, read_result (dev s) x n, s'))"
        using rb e m by (simp add: testfs_allocate_block_def del: addr.simps)
      show ?thesis
      proof (cases "i_indirect x = 0")
        case True
        from allocate_indirect_new [OF o ok m(2) True] show ?thesis
          unfolding eq using e m 2 by auto
      next
        case False
        then have "0 < i_indirect x" using amap_nonneg [OF ok_amap [OF ok], of Ind] by simp
        from allocate_indirect_old [OF o ok m(2) this] show ?thesis
          unfolding eq using e m 2 kept_refl [OF o ok] by auto
      qed
    next
      case 3
      define r where "r = n - 2058"
      have r: "n = 2058 + r" "r < 2048 * 2048" using 3 n by (simp_all add: r_def)
      have "\<not> 4194304 \<le> int r" using r(2) by simp
      then have eq: "testfs_allocate_block p (int n) block s
          = bindr (allocate_dindirect p (int r) s) (\<lambda>(ret, s'). Inr (ret, read_result (dev s) x n, s'))"
        using rb e r(1) by (simp add: testfs_allocate_block_def Let_def del: addr.simps)
      from allocate_dindirect_spec [OF o ok r(2)] e r(1) show ?thesis
        unfolding eq by auto
    qed
  qed
qed

lemma allocate_block_big:
  assumes "opened s p k x d" "int MAX_BLOCKS \<le> n"
  shows "testfs_allocate_block p n block s = Inr (- EFBIG, block, s)"
  using read_block_big [OF assms] assms(2) by (simp add: testfs_allocate_block_def)

end
