(* ===== verification/FileData.thy ===== *)
theory FileData
  imports Allocate
begin

text \<open>
  The contents of a file as a sequence of bytes, and what \<open>testfs_read_data\<close> and
  \<open>testfs_write_data\<close> do to it.  A file is the function \<open>file_byte\<close>; a read copies a range of
  it, a write replaces a range and leaves every other byte, every other file and every other
  block alone.
\<close>

section \<open>Files as byte sequences\<close>

definition file_byte :: "byte list \<Rightarrow> dinode \<Rightarrow> nat \<Rightarrow> byte" where
  "file_byte d x j = file_block d x (j div BLOCK_SIZE) ! (j mod BLOCK_SIZE)"

definition file_bytes :: "byte list \<Rightarrow> dinode \<Rightarrow> nat \<Rightarrow> nat \<Rightarrow> byte list" where
  "file_bytes d x off len = map (file_byte d x) [off..<off + len]"

lemma length_read_result [simp]: "length (read_result d x n) = BLOCK_SIZE"
  by (simp add: read_result_def file_block_def zero_def)

lemma length_file_block [simp]: "length (file_block d x n) = BLOCK_SIZE"
  by (simp add: file_block_def)

lemma length_file_bytes [simp]: "length (file_bytes d x off len) = len"
  by (simp add: file_bytes_def)

lemma file_bytes_append: "file_bytes d x off (a + b) = file_bytes d x off a @ file_bytes d x (off + a) b"
proof -
  have "[off..<off + (a + b)] = [off..<off + a] @ [off + a..<off + a + b]"
    by (metis upt_add_eq_append le_add1 add.assoc)
  then show ?thesis by (simp add: file_bytes_def)
qed

lemma file_bytes_block:
  assumes "i + c \<le> BLOCK_SIZE"
  shows "file_bytes d x (n * BLOCK_SIZE + i) c = take c (drop i (file_block d x n))"
proof (rule nth_equalityI)
  show "length (file_bytes d x (n * BLOCK_SIZE + i) c) = length (take c (drop i (file_block d x n)))"
    using assms by simp
  fix k assume "k < length (file_bytes d x (n * BLOCK_SIZE + i) c)"
  then have k: "k < c" by simp
  then have "i + k < BLOCK_SIZE" using assms by simp
  then have "(n * BLOCK_SIZE + (i + k)) div BLOCK_SIZE = n" "(n * BLOCK_SIZE + (i + k)) mod BLOCK_SIZE = i + k"
    by simp_all
  with k assms show "file_bytes d x (n * BLOCK_SIZE + i) c ! k = take c (drop i (file_block d x n)) ! k"
    by (simp add: file_bytes_def file_byte_def add.assoc)
qed

section \<open>Reading\<close>

lemma read_block_regular:
  assumes "opened s p k x d" "file_ok s x" "n < MAX_BLOCKS" "regular (dev s) x n"
  obtains r where "testfs_read_block p (s32 (int n)) block s = Inr (r, file_block (dev s) x n)" "0 \<le> r"
proof -
  have "s32 (int n) = int n" using assms(3) by (simp add: s32_id)
  moreover have "0 \<le> addr (dev s) x (Data n)" by (rule amap_nonneg [OF ok_amap [OF assms(2)]])
  ultimately show thesis
    using that read_block_eq [OF assms(1-3), of block] assms(4) by (simp add: read_result_def)
qed

lemma memcpy_buf:
  assumes "base + n \<le> length buf" "soff + n \<le> length src"
  shows "memcpy buf (int base) src (int soff) (int n)
    = Inr (take base buf @ take n (drop soff src) @ drop (base + n) buf)"
  using assms by (rule memcpy_in)

lemma take_drop_patched:
  assumes "b + n \<le> length buf" "length f = n"
  shows "take (b + n) (take b buf @ f @ drop (b + n) buf) = take b buf @ f"
    "drop (b + n + m) (take b buf @ f @ drop (b + n) buf) = drop (b + (n + m)) buf"
  using assms by (simp_all add: min_def add.commute add.left_commute)

lemma read_blocks_loop_eq:
  assumes o: "opened s p k x d" and ok: "file_ok s x"
  shows "ix < BLOCK_SIZE \<Longrightarrow> 1 \<le> inc \<Longrightarrow> 0 < left
    \<Longrightarrow> inc * BLOCK_SIZE - ix + left \<le> length buf
    \<Longrightarrow> (n0 + inc) * BLOCK_SIZE + left \<le> MAX_BLOCKS * BLOCK_SIZE
    \<Longrightarrow> (\<And>n. n0 + inc \<le> n \<Longrightarrow> n * BLOCK_SIZE < (n0 + inc) * BLOCK_SIZE + left \<Longrightarrow> regular (dev s) x n)
    \<Longrightarrow> read_blocks_loop p (int n0) (int ix) sz (int inc) (int left) buf block s
      = Inr (s32 sz, take (inc * BLOCK_SIZE - ix) buf @ file_bytes (dev s) x ((n0 + inc) * BLOCK_SIZE) left
              @ drop (inc * BLOCK_SIZE - ix + left) buf)"
proof (induction left arbitrary: inc buf block rule: less_induct)
  case (less left)
  let ?n = "n0 + inc" and ?base = "inc * BLOCK_SIZE - ix"
  have base: "int BLOCK_SIZE * int inc - int ix = int ?base"
  proof -
    have "BLOCK_SIZE \<le> inc * BLOCK_SIZE" using less.prems(2) by simp
    then have "ix \<le> inc * BLOCK_SIZE" using less.prems(1) by linarith
    then show ?thesis by (simp add: of_nat_diff mult.commute)
  qed
  have lt: "?n * BLOCK_SIZE < MAX_BLOCKS * BLOCK_SIZE" using less.prems(3,5) by linarith
  then have n: "?n < MAX_BLOCKS" by (simp only: mult_less_cancel2)
  have reg: "regular (dev s) x ?n" using less.prems(3) by (intro less.prems(6)) simp_all
  obtain r where rb: "testfs_read_block p (s32 (int n0 + int inc)) block s = Inr (r, file_block (dev s) x ?n)" "0 \<le> r"
    using read_block_regular [OF o ok n reg, of block] by auto
  show ?case
  proof (cases "left \<le> BLOCK_SIZE")
    case True
    have "memcpy buf (int ?base) (file_block (dev s) x ?n) (int 0) (int left)
        = Inr (take ?base buf @ take left (drop 0 (file_block (dev s) x ?n)) @ drop (?base + left) buf)"
      using less.prems(4) True by (intro memcpy_buf) simp_all
    moreover have "file_bytes (dev s) x (?n * BLOCK_SIZE) left = take left (file_block (dev s) x ?n)"
      using file_bytes_block [of 0 left "dev s" x ?n] True by simp
    ultimately show ?thesis
      using rb True by (subst read_blocks_loop.simps) (simp add: base)
  next
    case False
    let ?buf = "take ?base buf @ file_block (dev s) x ?n @ drop (?base + BLOCK_SIZE) buf"
    have m: "memcpy buf (int ?base) (file_block (dev s) x ?n) (int 0) (int BLOCK_SIZE) = Inr ?buf"
      using memcpy_buf [of ?base BLOCK_SIZE buf 0 "file_block (dev s) x ?n"] less.prems(4) False by simp
    define left' where "left' = left - BLOCK_SIZE"
    have left: "left = BLOCK_SIZE + left'" "0 < left'" "left' < left" using False by (simp_all add: left'_def)
    have base': "Suc inc * BLOCK_SIZE - ix = ?base + BLOCK_SIZE"
    proof -
      have "BLOCK_SIZE \<le> inc * BLOCK_SIZE" using less.prems(2) by simp
      with less.prems(1) have "ix \<le> inc * BLOCK_SIZE" by linarith
      then show ?thesis by simp
    qed
    have IH: "read_blocks_loop p (int n0) (int ix) sz (int (Suc inc)) (int left') ?buf (file_block (dev s) x ?n) s
      = Inr (s32 sz, take (Suc inc * BLOCK_SIZE - ix) ?buf
          @ file_bytes (dev s) x ((n0 + Suc inc) * BLOCK_SIZE) left'
          @ drop (Suc inc * BLOCK_SIZE - ix + left') ?buf)"
    proof (rule less.IH [OF left(3) less.prems(1) _ left(2)])
      show "Suc inc * BLOCK_SIZE - ix + left' \<le> length ?buf"
        unfolding base' using less.prems(4) left(1) by simp
      show "(n0 + Suc inc) * BLOCK_SIZE + left' \<le> MAX_BLOCKS * BLOCK_SIZE"
        using less.prems(5) left(1) by simp
      show "regular (dev s) x n" if "n0 + Suc inc \<le> n" "n * BLOCK_SIZE < (n0 + Suc inc) * BLOCK_SIZE + left'" for n
        using that left(1) by (intro less.prems(6)) simp_all
    qed simp
    have len: "?base + BLOCK_SIZE \<le> length buf" using less.prems(4) left(1) by simp
    have split: "file_bytes (dev s) x (?n * BLOCK_SIZE) left
        = file_block (dev s) x ?n @ file_bytes (dev s) x ((n0 + Suc inc) * BLOCK_SIZE) left'"
      unfolding left(1) file_bytes_append
      using file_bytes_block [of 0 BLOCK_SIZE "dev s" x ?n] by (simp add: add.commute)
    have t: "take (?base + BLOCK_SIZE) ?buf = take ?base buf @ file_block (dev s) x ?n"
      "drop (?base + BLOCK_SIZE + left') ?buf = drop (?base + left) buf"
      unfolding left(1) by (rule take_drop_patched [OF len]; simp)+
    have "read_blocks_loop p (int n0) (int ix) sz (int inc) (int left) buf block s
      = read_blocks_loop p (int n0) (int ix) sz (int (Suc inc)) (int left') ?buf (file_block (dev s) x ?n) s"
      using rb m False left(1) by (subst read_blocks_loop.simps) (simp add: base add.commute)
    then show ?thesis
      unfolding IH base' t split by simp
  qed
qed

lemma sdiv_block: "int a sdiv int BLOCK_SIZE = int (a div BLOCK_SIZE)"
  by (rule sdiv_int)

lemma smod_block: "int a smod int BLOCK_SIZE = int (a mod BLOCK_SIZE)"
  by (cases "a = 0") (simp_all add: signed_modulo_int_def zmod_int)

lemma block_parts: "off div BLOCK_SIZE * BLOCK_SIZE + off mod BLOCK_SIZE = off" "off mod BLOCK_SIZE < BLOCK_SIZE"
  by simp_all

lemma read_data_eq:
  assumes o: "opened s p k x d" and ok: "file_ok s x"
    and len: "len < 2 ^ 31" "len \<le> length buf" "int (off + len) \<le> i_size x"
    and max: "off < MAX_BLOCKS * BLOCK_SIZE" "off + len \<le> MAX_BLOCKS * BLOCK_SIZE"
    and reg: "\<And>n. off div BLOCK_SIZE \<le> n \<Longrightarrow> n * BLOCK_SIZE < off + len \<or> n = off div BLOCK_SIZE \<Longrightarrow> regular (dev s) x n"
  shows "testfs_read_data p buf (int off) (int len) s
    = Inr (int len, file_bytes (dev s) x off len @ drop len buf)"
proof -
  define n0 where "n0 = off div BLOCK_SIZE"
  define ix where "ix = off mod BLOCK_SIZE"
  have off: "off = n0 * BLOCK_SIZE + ix" "ix < BLOCK_SIZE"
    using block_parts [of off] by (simp_all add: n0_def ix_def)
  have bs: "BLOCK_SIZE < 2 ^ 31" "(2 :: nat) ^ 31 * 4 < 2 ^ 63" by (simp_all add: BLOCK_SIZE_def)
  have offmax: "off + len < 2 ^ 63" using max(2) by (simp add: BLOCK_SIZE_def)
  have conv: "s64 (int len) = int len" "s64 (int off + int len) = int off + int len"
    "u64 (int ix + int len) = int ix + int len"
    using offmax len(1) off(2) bs by (auto simp: s64_id u64_id)
  have n: "n0 < MAX_BLOCKS" using max(1) by (simp add: n0_def less_mult_imp_div_less)
  have reg0: "regular (dev s) x n0" by (rule reg) (simp_all add: n0_def)
  obtain i where i: "deref p s = Inr i" "din i = x" using opened_deref [OF o] by blast
  obtain r where rb: "testfs_read_block p (s32 (int n0)) (replicate BLOCK_SIZE 0) s = Inr (r, file_block (dev s) x n0)"
      "0 \<le> r" using read_block_regular [OF o ok n reg0] .
  have s32len: "s32 (int len) = int len" using len(1) by (simp add: s32_id)
  have size: "\<not> i_size x < int off + int len" using len(3) by simp
  show ?thesis
  proof (cases "ix + len \<le> BLOCK_SIZE")
    case True
    then have small: "\<not> int BLOCK_SIZE < int ix + int len" by simp
    have "memcpy buf (int 0) (file_block (dev s) x n0) (int ix) (int len)
        = Inr (take 0 buf @ take len (drop ix (file_block (dev s) x n0)) @ drop (0 + len) buf)"
      using len(2) True by (intro memcpy_buf) simp_all
    moreover have "file_bytes (dev s) x off len = take len (drop ix (file_block (dev s) x n0))"
      unfolding off(1) by (rule file_bytes_block [OF True])
    ultimately show ?thesis
      using i rb size small s32len
      by (simp add: testfs_read_data_def Let_def sdiv_block smod_block n0_def [symmetric] ix_def [symmetric] conv)
  next
    case False
    define c where "c = BLOCK_SIZE - ix"
    define left where "left = len - c"
    have c: "ix + c = BLOCK_SIZE" "0 < c" using off(2) by (simp_all add: c_def)
    have left: "len = c + left" "0 < left" using False c by (simp_all add: left_def)
    have big: "int BLOCK_SIZE < int ix + int len" using False by simp
    let ?buf = "file_bytes (dev s) x off c @ drop c buf"
    have fb: "file_bytes (dev s) x off c = take c (drop ix (file_block (dev s) x n0))"
      unfolding off(1) using c(1) by (intro file_bytes_block) simp
    have "memcpy buf (int 0) (file_block (dev s) x n0) (int ix) (int c)
        = Inr (take 0 buf @ take c (drop ix (file_block (dev s) x n0)) @ drop (0 + c) buf)"
      using len(2) left(1) c(1) by (intro memcpy_buf) simp_all
    then have m: "memcpy buf 0 (file_block (dev s) x n0) (int ix) (int BLOCK_SIZE - int ix) = Inr ?buf"
      using fb c(1) by (simp flip: of_nat_diff add: c_def [symmetric])
    have lf: "int len - int BLOCK_SIZE + int ix = int left" using left(1) c(1) by simp
    have s32l: "s32 (int left) = int left" using len(1) left(1) by (simp add: s32_id)
    have b1: "1 * BLOCK_SIZE - ix = c" using c(1) by simp
    have pos: "(n0 + 1) * BLOCK_SIZE = off + c" using off(1) c(1) by simp
    have loop: "read_blocks_loop p (int n0) (int ix) (int len) (int 1) (int left) ?buf (file_block (dev s) x n0) s
      = Inr (s32 (int len), take (1 * BLOCK_SIZE - ix) ?buf @ file_bytes (dev s) x ((n0 + 1) * BLOCK_SIZE) left
              @ drop (1 * BLOCK_SIZE - ix + left) ?buf)"
    proof (rule read_blocks_loop_eq [OF o ok off(2) _ left(2)])
      show "1 * BLOCK_SIZE - ix + left \<le> length ?buf" unfolding b1 using len(2) left(1) by simp
      show "(n0 + 1) * BLOCK_SIZE + left \<le> MAX_BLOCKS * BLOCK_SIZE"
        unfolding pos using max(2) left(1) by simp
      show "regular (dev s) x n" if "n0 + 1 \<le> n" "n * BLOCK_SIZE < (n0 + 1) * BLOCK_SIZE + left" for n
        using that pos left(1) unfolding n0_def by (intro reg) simp_all
    qed simp
    have "take c ?buf = file_bytes (dev s) x off c" "drop (c + left) ?buf = drop len buf"
      using left(1) by (simp_all add: add.commute)
    then have "read_blocks_loop p (int n0) (int ix) (int len) 1 (int left) ?buf (file_block (dev s) x n0) s
      = Inr (int len, file_bytes (dev s) x off len @ drop len buf)"
      using loop s32len unfolding b1 pos left(1) file_bytes_append by simp
    then show ?thesis
      using i rb size big m lf s32l
      by (simp add: testfs_read_data_def Let_def sdiv_block smod_block n0_def [symmetric] ix_def [symmetric] conv)
  qed
qed

section \<open>Writing\<close>

text \<open>
  From \<open>x\<close> in \<open>s\<close> to \<open>x'\<close> in \<open>s'\<close> the file took only fresh blocks, and of the blocks that were in
  use only its own were written.
\<close>

definition wframe :: "nat \<Rightarrow> nat \<Rightarrow> fs \<Rightarrow> dinode \<Rightarrow> fs \<Rightarrow> dinode \<Rightarrow> bool" where
  "wframe p k s x s' x' \<longleftrightarrow> bused s' = bused s \<union> own (addr (dev s') x')
     \<and> own (addr (dev s') x') \<inter> bused s = own (addr (dev s) x)
     \<and> i_type x' = i_type x
     \<and> (\<exists>B. kframe p k B s s' \<and> B \<inter> bused s \<subseteq> own (addr (dev s) x))"

lemma wframe_refl: "amap_ok s (addr (dev s) x) \<Longrightarrow> wframe p k s x s x"
  using own_le by (fastforce simp: wframe_def intro: exI [of _ "{}"])

lemma wframe_trans:
  assumes "wframe p k s x s1 x1" "wframe p k s1 x1 s2 x2"
  shows "wframe p k s x s2 x2"
proof -
  from assms(1) obtain A where A: "kframe p k A s s1" "A \<inter> bused s \<subseteq> own (addr (dev s) x)"
    and u1: "bused s1 = bused s \<union> own (addr (dev s1) x1)"
      "own (addr (dev s1) x1) \<inter> bused s = own (addr (dev s) x)" "i_type x1 = i_type x"
    by (auto simp: wframe_def)
  from assms(2) obtain B where B: "kframe p k B s1 s2" "B \<inter> bused s1 \<subseteq> own (addr (dev s1) x1)"
    and u2: "bused s2 = bused s1 \<union> own (addr (dev s2) x2)"
      "own (addr (dev s2) x2) \<inter> bused s1 = own (addr (dev s1) x1)" "i_type x2 = i_type x1"
    by (auto simp: wframe_def)
  have "(A \<union> B) \<inter> bused s \<subseteq> own (addr (dev s) x)" using A(2) B(2) u1 by blast
  moreover have "bused s2 = bused s \<union> own (addr (dev s2) x2)"
    "own (addr (dev s2) x2) \<inter> bused s = own (addr (dev s) x)"
    using u1 u2 by blast+
  ultimately show ?thesis
    using kframe_trans [OF A(1) B(1)] u1(3) u2(3) unfolding wframe_def by metis
qed

lemma tabs_own: "tabs a \<subseteq> own a"
  by (auto simp: tabs_def own_def held_def)

lemma own_slot: "0 < a sl \<Longrightarrow> nat (a sl) \<in> own a"
  by (simp add: own_def held_def)

lemma data_not_tab: "amap_ok s a \<Longrightarrow> 0 < a (Data n) \<Longrightarrow> nat (a (Data n)) \<notin> tabs a"
proof
  assume a: "amap_ok s a" "0 < a (Data n)" and t: "nat (a (Data n)) \<in> tabs a"
  then obtain sl where sl: "0 < a sl" "sl \<noteq> Data n" "nat (a sl) = nat (a (Data n))"
    unfolding tabs_def by auto
  with a(2) have "a (Data n) = a sl" by linarith
  with amap_eq [OF a] sl(2) show False by blast
qed

text \<open>Contents only depend on the blocks of the data slots.\<close>

lemma file_block_cong:
  assumes "addr d' x' (Data n) = addr d x (Data n)"
    and "0 < addr d x (Data n) \<Longrightarrow> dblk d' (nat (addr d x (Data n))) = dblk d (nat (addr d x (Data n)))"
  shows "file_block d' x' n = file_block d x n"
  unfolding file_block_def assms(1) using assms(2) by simp

lemma kept_same:
  assumes ok: "file_ok s x" and kp: "kept p k s x s'"
  shows "file_block (dev s') x n = file_block (dev s) x n" "wframe p k s x s' x"
    "opened s' p k x False" "file_ok s' x" "bused s' = bused s"
proof -
  from kp obtain B where B: "kframe p k B s s'" "B \<inter> bused s = {}"
    and a: "addr (dev s') x = addr (dev s) x" and u: "bused s' = bused s"
    and oo: "opened s' p k x False" "file_ok s' x"
    by (auto simp: kept_def)
  show "file_block (dev s') x n = file_block (dev s) x n"
  proof (rule file_block_cong [OF fun_cong [OF a]])
    assume "0 < addr (dev s) x (Data n)"
    from slot_block_used [OF ok this] B(2)
    show "dblk (dev s') (nat (addr (dev s) x (Data n))) = dblk (dev s) (nat (addr (dev s) x (Data n)))"
      by (intro kframe_dblk [OF B(1)]) auto
  qed
  have "wframe p k s x s' x"
    unfolding wframe_def a u using own_le [OF ok_amap [OF ok]] B by blast
  then show "wframe p k s x s' x" "opened s' p k x False" "file_ok s' x" "bused s' = bused s"
    using oo u by auto
qed

text \<open>A data block of the file that exists is written.\<close>

lemma write_existing:
  assumes o: "opened s p k x d" and ok: "file_okx {b} s x" and b: "addr (dev s) x (Data n) = int b" "0 < b"
    and len: "length bs = BLOCK_SIZE"
  obtains s' where "write_blocks bs (int b) 1 s = Inr s'" "opened s' p k x d" "file_ok s' x"
    "kframe p k {b} s s'" "addr (dev s') x = addr (dev s) x" "bused s' = bused s"
    "\<And>m. file_block (dev s') x m = (if m = n then bs else file_block (dev s) x m)"
proof -
  let ?a = "addr (dev s) x"
  note am = ok_amap [OF ok]
  have pos: "0 < ?a (Data n)" using b by simp
  have b146: "146 \<le> b" using amap_used [OF am pos] bused_ge b by fastforce
  from write_opened [OF o b146 len] obtain s' where
    s': "write_blocks bs (int b) 1 s = Inr s'" "opened s' p k x d" "kframe p k {b} s s'"
      "dblk (dev s') b = bs" "readable (dev s') b" "bused s' = bused s" .
  have blk: "dblk (dev s') (nat (?a sl)) = dblk (dev s) (nat (?a sl))" if "0 < ?a sl" "sl \<noteq> Data n" for sl
  proof (rule kframe_dblk [OF s'(3)])
    show "146 \<le> nat (?a sl)" using amap_used [OF am that(1)] bused_ge by blast
    have "?a sl \<noteq> ?a (Data n)" using amap_eq [OF am that(1), of "Data n"] that(2) by blast
    then show "nat (?a sl) \<notin> {b}" using that(1) b by auto
  qed
  have a': "addr (dev s') x = ?a"
  proof (rule ext, rule addr_cong)
    fix sl assume "sl = Ind \<or> sl = Dind \<or> (\<exists>k. sl = Tab k)" "0 < ?a sl"
    then show "dblk (dev s') (nat (?a sl)) = dblk (dev s) (nat (?a sl))" by (intro blk) auto
  qed simp_all
  have "readable (dev s') (nat (?a sl))" if "0 < ?a sl" for sl
  proof (cases "nat (?a sl) = b")
    case False
    then show ?thesis using ok_read [OF ok that] kframe_readable [OF s'(3)] by simp
  qed (use s'(5) in simp)
  then have ok': "file_ok s' x"
    using ok amap_same [OF am s'(6)] unfolding file_okx_def a' by simp
  have "file_block (dev s') x m = (if m = n then bs else file_block (dev s) x m)" for m
  proof (cases "m = n")
    case True
    then show ?thesis unfolding file_block_def a' using b s'(4) by (simp del: addr.simps)
  next
    case False
    then show ?thesis using file_block_cong [OF fun_cong [OF a']] blk [of "Data m"] by simp
  qed
  with that s' ok' a' show thesis by blast
qed

text \<open>
  One block: allocate it, fill the buffer from its contents, write it.  \<open>bs\<close> is what the caller has
  made of the buffer in between.
\<close>

lemma write_one_block:
  assumes o: "opened s p k x d" and ok: "file_ok s x" and n: "n < MAX_BLOCKS"
  shows "(\<exists>s'. testfs_allocate_block p (int n) block s = Inr (- ENOSPC, read_result (dev s) x n, s')
        \<and> (if n < 2058 then kept p k s x s' else dfailed p k s x s')
        \<and> max_fs_blocks (sb s) \<le> int (card (bused s)) + 2)
    \<or> (\<exists>b s1. testfs_allocate_block p (int n) block s = Inr (int b, read_result (dev s) x n, s1)
        \<and> (\<forall>bs. length bs = BLOCK_SIZE \<longrightarrow> (\<exists>s2 x2 d2. write_blocks bs (int b) 1 s1 = Inr s2
             \<and> opened s2 p k x2 d2 \<and> file_ok s2 x2 \<and> wframe p k s x s2 x2 \<and> i_size x2 = i_size x
             \<and> (\<forall>m. file_block (dev s2) x2 m = (if m = n then bs else file_block (dev s) x m))
             \<and> (\<forall>sl. 0 < addr (dev s) x sl \<longrightarrow> addr (dev s2) x2 sl = addr (dev s) x sl)
             \<and> 0 < addr (dev s2) x2 (Data n) \<and> card (bused s2) \<le> card (bused s) + 3)))"
proof -
  let ?a = "addr (dev s) x"
  let ?R = "read_result (dev s) x n"
  consider (old) "0 < ?a (Data n)"
      "testfs_allocate_block p (int n) block s = Inr (?a (Data n), ?R, s)"
    | (new) b s1 x1 where "testfs_allocate_block p (int n) block s = Inr (int b, ?R, s1)"
        "grown p k s x n s1 b x1" "?a (Data n) = 0"
    | (fail) s' where "testfs_allocate_block p (int n) block s = Inr (- ENOSPC, ?R, s')"
        "if n < 2058 then kept p k s x s' else dfailed p k s x s'" "max_fs_blocks (sb s) \<le> int (card (bused s)) + 2"
    using allocate_block_spec [OF o ok n, of block] read_result_held [OF _ n] by (auto simp del: addr.simps)
  then show ?thesis
  proof cases
    case old
    define b where "b = nat (?a (Data n))"
    have b: "?a (Data n) = int b" "0 < b" using old(1) by (simp_all add: b_def del: addr.simps)
    have "\<exists>s2 x2 d2. write_blocks bs (int b) 1 s = Inr s2
             \<and> opened s2 p k x2 d2 \<and> file_ok s2 x2 \<and> wframe p k s x s2 x2 \<and> i_size x2 = i_size x
             \<and> (\<forall>m. file_block (dev s2) x2 m = (if m = n then bs else file_block (dev s) x m))
             \<and> (\<forall>sl. 0 < ?a sl \<longrightarrow> addr (dev s2) x2 sl = ?a sl)
             \<and> 0 < addr (dev s2) x2 (Data n) \<and> card (bused s2) \<le> card (bused s) + 3"
      if len: "length bs = BLOCK_SIZE" for bs
    proof -
      have okx: "file_okx {b} s x" using ok by (simp add: file_okx_def)
      obtain s2 where s2: "write_blocks bs (int b) 1 s = Inr s2" "opened s2 p k x d" "file_ok s2 x"
          "kframe p k {b} s s2" "addr (dev s2) x = ?a" "bused s2 = bused s"
          "\<And>m. file_block (dev s2) x m = (if m = n then bs else file_block (dev s) x m)"
        by (rule write_existing [OF o okx b len]) blast
      have "{b} \<inter> bused s \<subseteq> own ?a" using own_slot [of ?a "Data n"] old(1) by (auto simp: b_def simp del: addr.simps)
      then have "wframe p k s x s2 x"
        unfolding wframe_def s2(5,6) using own_le [OF ok_amap [OF ok]] s2(4) by blast
      with s2 old(1) show ?thesis by (intro exI [of _ s2] exI [of _ x] exI [of _ d]) (simp del: addr.simps)
    qed
    with old(2) b(1) show ?thesis by metis
  next
    case (new b s1 x1)
    note g = new(2) [unfolded grown_def]
    from g obtain B where B: "kframe p k B s s1" "B \<inter> bused s \<subseteq> tabs ?a" by blast
    from g have o1: "opened s1 p k x1 True" and ok1: "file_okx {b} s1 x1"
      and ab: "addr (dev s1) x1 (Data n) = int b" and bf: "b \<notin> bused s" "146 \<le> b"
      and same: "\<And>m. m \<noteq> n \<Longrightarrow> addr (dev s1) x1 (Data m) = ?a (Data m)"
      and slots: "\<And>sl. 0 < ?a sl \<Longrightarrow> addr (dev s1) x1 sl = ?a sl"
      and grow: "card (bused s1) \<le> card (bused s) + 3"
      and sz: "i_size x1 = i_size x" "i_type x1 = i_type x"
      and u: "bused s1 = bused s \<union> own (addr (dev s1) x1)" "own (addr (dev s1) x1) \<inter> bused s = own ?a"
      by auto
    have blk: "file_block (dev s1) x1 m = file_block (dev s) x m" if "m \<noteq> n" for m
    proof (rule file_block_cong [OF same [OF that]])
      assume p: "0 < ?a (Data m)"
      show "dblk (dev s1) (nat (?a (Data m))) = dblk (dev s) (nat (?a (Data m)))"
        using slot_block_used [OF ok p] data_not_tab [OF ok_amap [OF ok] p] B(2)
        by (intro kframe_dblk [OF B(1)]) auto
    qed
    have "\<exists>s2 x2 d2. write_blocks bs (int b) 1 s1 = Inr s2
             \<and> opened s2 p k x2 d2 \<and> file_ok s2 x2 \<and> wframe p k s x s2 x2 \<and> i_size x2 = i_size x
             \<and> (\<forall>m. file_block (dev s2) x2 m = (if m = n then bs else file_block (dev s) x m))
             \<and> (\<forall>sl. 0 < ?a sl \<longrightarrow> addr (dev s2) x2 sl = ?a sl)
             \<and> 0 < addr (dev s2) x2 (Data n) \<and> card (bused s2) \<le> card (bused s) + 3"
      if len: "length bs = BLOCK_SIZE" for bs
    proof -
      have b0: "0 < b" using bf(2) by simp
      obtain s2 where s2: "write_blocks bs (int b) 1 s1 = Inr s2" "opened s2 p k x1 True" "file_ok s2 x1"
          "kframe p k {b} s1 s2" "addr (dev s2) x1 = addr (dev s1) x1" "bused s2 = bused s1"
          "\<And>m. file_block (dev s2) x1 m = (if m = n then bs else file_block (dev s1) x1 m)"
        by (rule write_existing [OF o1 ok1 ab b0 len]) blast
      have "(B \<union> {b}) \<inter> bused s \<subseteq> own ?a" using B(2) tabs_own bf(1) by blast
      then have "wframe p k s x s2 x1"
        unfolding wframe_def s2(5,6) using u sz(2) kframe_trans [OF B(1) s2(4)] by blast
      moreover have "\<forall>m. file_block (dev s2) x1 m = (if m = n then bs else file_block (dev s) x m)"
        using s2(7) blk by simp
      moreover have "0 < addr (dev s2) x1 (Data n)" unfolding s2(5) ab using b0 by simp
      ultimately show ?thesis using s2(1,2,3,5,6) slots grow sz(1)
        by (intro exI [of _ s2] exI [of _ x1] exI [of _ True]) (simp del: addr.simps)
    qed
    with new(1) show ?thesis by blast
  next
    case fail
    then show ?thesis by blast
  qed
qed

text \<open>
  What a write of the bytes \<open>w\<close> at position \<open>pos\<close> stores.  No block is moved; the range holds the new
  bytes, in blocks whose tables exist.  A byte outside the range is kept, except where its block was
  a hole without a table that the range reaches into: such a block is filled from the buffer in which
  \<open>testfs_read_block\<close> left the double-indirect table.
\<close>

definition tabled :: "byte list \<Rightarrow> dinode \<Rightarrow> nat \<Rightarrow> bool" where
  "tabled d x n \<longleftrightarrow> n < 2058 \<or> 0 < addr d x (Tab ((n - 2058) div 2048))"

definition touched :: "nat \<Rightarrow> nat \<Rightarrow> nat \<Rightarrow> bool" where
  "touched pos l n \<longleftrightarrow> (\<exists>j. pos \<le> j \<and> j < pos + l \<and> j div BLOCK_SIZE = n)"

definition stored :: "byte list \<Rightarrow> dinode \<Rightarrow> byte list \<Rightarrow> dinode \<Rightarrow> nat \<Rightarrow> byte list \<Rightarrow> bool" where
  "stored d x d' x' pos w \<longleftrightarrow>
     (\<forall>sl. 0 < addr d x sl \<longrightarrow> addr d' x' sl = addr d x sl)
   \<and> (\<forall>j. pos \<le> j \<and> j < pos + length w \<longrightarrow>
        file_byte d' x' j = w ! (j - pos) \<and> tabled d' x' (j div BLOCK_SIZE))
   \<and> (\<forall>j. (j < pos \<or> pos + length w \<le> j)
        \<and> (tabled d x (j div BLOCK_SIZE) \<or> \<not> touched pos (length w) (j div BLOCK_SIZE)) \<longrightarrow>
        file_byte d' x' j = file_byte d x j)"

lemma tabled_regular: "tabled d x n \<Longrightarrow> regular d x n"
  by (auto simp: tabled_def regular_def)

lemma held_tabled: "0 < addr d x (Data n) \<Longrightarrow> n < MAX_BLOCKS \<Longrightarrow> tabled d x n"
  using held_table by (fastforce simp: tabled_def simp del: addr.simps)

lemma tabled_kept:
  "(\<forall>sl. 0 < addr d x sl \<longrightarrow> addr d' x' sl = addr d x sl) \<Longrightarrow> tabled d x n \<Longrightarrow> tabled d' x' n"
  by (auto simp: tabled_def simp del: addr.simps)

lemma stored_refl:
  "(\<And>n. file_block d' x' n = file_block d x n) \<Longrightarrow> addr d' x' = addr d x \<Longrightarrow> stored d x d' x' pos []"
  by (auto simp: stored_def file_byte_def simp del: addr.simps)

lemma touched_append: "touched pos (l + m) n \<longleftrightarrow> touched pos l n \<or> touched (pos + l) m n"
proof -
  have "pos \<le> j \<and> j < pos + (l + m) \<longleftrightarrow> (pos \<le> j \<and> j < pos + l) \<or> (pos + l \<le> j \<and> j < pos + l + m)" for j by auto
  then show ?thesis unfolding touched_def by blast
qed

lemma stored_append:
  assumes u: "stored d x d1 x1 pos u" and w: "stored d1 x1 d2 x2 (pos + length u) w"
  shows "stored d x d2 x2 pos (u @ w)"
proof -
  from u w have s1: "\<forall>sl. 0 < addr d x sl \<longrightarrow> addr d1 x1 sl = addr d x sl"
    and s2: "\<forall>sl. 0 < addr d1 x1 sl \<longrightarrow> addr d2 x2 sl = addr d1 x1 sl" by (simp_all add: stored_def del: addr.simps)
  have in_u: "file_byte d2 x2 j = u ! (j - pos) \<and> tabled d2 x2 (j div BLOCK_SIZE)"
    if "pos \<le> j" "j < pos + length u" for j
    using that u w tabled_kept [OF s2] by (simp add: stored_def del: addr.simps)
  have in_w: "file_byte d2 x2 j = w ! (j - (pos + length u)) \<and> tabled d2 x2 (j div BLOCK_SIZE)"
    if "pos + length u \<le> j" "j < pos + length u + length w" for j
    using that w by (simp add: stored_def del: addr.simps)
  have out: "file_byte d2 x2 j = file_byte d x j"
    if "j < pos \<or> pos + length u + length w \<le> j"
      "tabled d x (j div BLOCK_SIZE) \<or> \<not> touched pos (length u + length w) (j div BLOCK_SIZE)" for j
  proof -
    have "file_byte d1 x1 j = file_byte d x j"
      using that u by (auto simp: stored_def touched_append simp del: addr.simps)
    moreover have "file_byte d2 x2 j = file_byte d1 x1 j"
      using that w tabled_kept [OF s1] by (auto simp: stored_def touched_append simp del: addr.simps)
    ultimately show ?thesis by simp
  qed
  have "\<forall>sl. 0 < addr d x sl \<longrightarrow> addr d2 x2 sl = addr d x sl" using s1 s2 by simp
  moreover have "file_byte d2 x2 j = (u @ w) ! (j - pos) \<and> tabled d2 x2 (j div BLOCK_SIZE)"
    if "pos \<le> j" "j < pos + length (u @ w)" for j
    using that in_u [of j] in_w [of j] by (cases "j < pos + length u") (auto simp: nth_append)
  moreover have "file_byte d2 x2 j = file_byte d x j"
    if "(j < pos \<or> pos + length (u @ w) \<le> j)
      \<and> (tabled d x (j div BLOCK_SIZE) \<or> \<not> touched pos (length (u @ w)) (j div BLOCK_SIZE))" for j
    using that out [of j] by (simp add: add.assoc)
  ultimately show ?thesis unfolding stored_def by blast
qed

text \<open>Replacing a range of one block.\<close>

lemma stored_block:
  assumes fits: "i + length w \<le> BLOCK_SIZE" and some: "0 < length w" and n: "n < MAX_BLOCKS"
    and new: "\<And>m. file_block d' x' m = (if m = n then take i (read_result d x n) @ w @ drop (i + length w) (read_result d x n)
                                  else file_block d x m)"
    and slots: "\<forall>sl. 0 < addr d x sl \<longrightarrow> addr d' x' sl = addr d x sl" and held: "0 < addr d' x' (Data n)"
  shows "stored d x d' x' (n * BLOCK_SIZE + i) w"
proof -
  have byte: "file_byte d' x' j = (if j div BLOCK_SIZE = n
      then (if i \<le> j mod BLOCK_SIZE \<and> j mod BLOCK_SIZE < i + length w then w ! (j mod BLOCK_SIZE - i)
            else read_result d x n ! (j mod BLOCK_SIZE)) else file_byte d x j)" for j
    using fits by (auto simp: file_byte_def new nth_append)
  have range: "n * BLOCK_SIZE + i \<le> j \<and> j < n * BLOCK_SIZE + i + length w \<longleftrightarrow>
      j div BLOCK_SIZE = n \<and> i \<le> j mod BLOCK_SIZE \<and> j mod BLOCK_SIZE < i + length w" for j
  proof -
    have j: "j = j div BLOCK_SIZE * BLOCK_SIZE + j mod BLOCK_SIZE" by simp
    show ?thesis
    proof (cases "j div BLOCK_SIZE = n")
      case True
      then have "j = n * BLOCK_SIZE + j mod BLOCK_SIZE" using j by simp
      with True show ?thesis by linarith
    next
      case False
      have "\<not> (n * BLOCK_SIZE \<le> j \<and> j < Suc n * BLOCK_SIZE)"
        using False by (metis div_nat_eqI mult.commute)
      with False fits show ?thesis by auto
    qed
  qed
  have tc: "touched (n * BLOCK_SIZE + i) (length w) n"
  proof -
    have "i < BLOCK_SIZE" using some fits by linarith
    then show ?thesis
      unfolding touched_def using some
      by (intro exI [of _ "n * BLOCK_SIZE + i"] conjI div_nat_eqI) (simp_all add: mult.commute)
  qed
  have "file_byte d' x' j = w ! (j - (n * BLOCK_SIZE + i)) \<and> tabled d' x' (j div BLOCK_SIZE)"
    if j: "n * BLOCK_SIZE + i \<le> j \<and> j < n * BLOCK_SIZE + i + length w" for j
  proof -
    from j [unfolded range] have r: "j div BLOCK_SIZE = n" "i \<le> j mod BLOCK_SIZE" "j mod BLOCK_SIZE < i + length w" by auto
    have "j = n * BLOCK_SIZE + j mod BLOCK_SIZE" unfolding r(1) [symmetric] by simp
    then have "j - (n * BLOCK_SIZE + i) = j mod BLOCK_SIZE - i" by simp
    with r show ?thesis using held_tabled [OF held n] unfolding byte by simp
  qed
  moreover have "file_byte d' x' j = file_byte d x j"
    if "(j < n * BLOCK_SIZE + i \<or> n * BLOCK_SIZE + i + length w \<le> j)
      \<and> (tabled d x (j div BLOCK_SIZE) \<or> \<not> touched (n * BLOCK_SIZE + i) (length w) (j div BLOCK_SIZE))" for j
  proof (cases "j div BLOCK_SIZE = n")
    case True
    have "\<not> (n * BLOCK_SIZE + i \<le> j \<and> j < n * BLOCK_SIZE + i + length w)" using that by linarith
    moreover have "tabled d x n" using that tc True by auto
    ultimately show ?thesis
      using True unfolding byte range by (auto simp: read_result_def tabled_regular file_byte_def)
  qed (simp add: byte)
  ultimately show ?thesis using slots unfolding stored_def by blast
qed

text \<open>What every outcome of a write guarantees that leaves the block map of the file intact.\<close>

definition wpost :: "nat \<Rightarrow> nat \<Rightarrow> fs \<Rightarrow> dinode \<Rightarrow> fs \<Rightarrow> dinode \<Rightarrow> bool" where
  "wpost p k s x s' x' \<longleftrightarrow> opened s' p k x' False \<and> file_ok s' x' \<and> wframe p k s x s' x'"

lemma wpost_trans: "wpost p k s x s1 x1 \<Longrightarrow> wpost p k s1 x1 s2 x2 \<Longrightarrow> wpost p k s x s2 x2"
  by (auto simp: wpost_def intro: wframe_trans)

text \<open>
  What is left after the one failure that does not: below the double-indirect table an allocation
  that runs out of space can leave freed blocks in the map of the file.  Other files are not touched.
\<close>

definition spoiled :: "nat \<Rightarrow> nat \<Rightarrow> fs \<Rightarrow> dinode \<Rightarrow> fs \<Rightarrow> bool" where
  "spoiled p k s x s' \<longleftrightarrow> (\<exists>x' B. opened s' p k x' False \<and> kframe p k B s s'
     \<and> B \<inter> bused s \<subseteq> own (addr (dev s) x) \<and> bused s \<subseteq> bused s')"

lemma dfailed_spoiled:
  assumes w: "wpost p k s x s1 x1" and f: "dfailed p k s1 x1 s2"
  shows "spoiled p k s x s2"
proof -
  from w obtain A where A: "kframe p k A s s1" "A \<inter> bused s \<subseteq> own (addr (dev s) x)"
    and u: "bused s1 = bused s \<union> own (addr (dev s1) x1)" "own (addr (dev s1) x1) \<inter> bused s = own (addr (dev s) x)"
    by (auto simp: wpost_def wframe_def)
  from f obtain x' B where B: "opened s2 p k x' False" "kframe p k B s1 s2"
      "B \<inter> bused s1 \<subseteq> tabs (addr (dev s1) x1)" "bused s1 \<subseteq> bused s2" by (auto simp: dfailed_def)
  have "(A \<union> B) \<inter> bused s \<subseteq> own (addr (dev s) x)" using A(2) B(3) u tabs_own by blast
  moreover have "bused s \<subseteq> bused s2" using B(4) u(1) by blast
  ultimately show ?thesis using B(1) kframe_trans [OF A(1) B(2)] unfolding spoiled_def by blast
qed

text \<open>Setting the size at the end touches nothing else.\<close>

lemma set_size:
  assumes w: "wpost p k s x s1 x1" and v: "is_s64 z" "0 \<le> z"
  obtains s2 where "upd_inode p (\<lambda>i. set_dirty (i\<lparr>din := (din i)\<lparr>i_size := z\<rparr>\<rparr>)) s1 = Inr s2"
    "wpost p k s x s2 (x1\<lparr>i_size := z\<rparr>)" "opened s2 p k (x1\<lparr>i_size := z\<rparr>) True"
    "\<And>n. file_block (dev s2) (x1\<lparr>i_size := z\<rparr>) n = file_block (dev s1) x1 n" "bused s2 = bused s1"
    "addr (dev s2) (x1\<lparr>i_size := z\<rparr>) = addr (dev s1) x1" "max_fs_blocks (sb s2) = max_fs_blocks (sb s1)"
proof -
  let ?g = "\<lambda>x :: dinode. x\<lparr>i_size := z\<rparr>"
  from w have o: "opened s1 p k x1 False" and ok: "file_ok s1 x1" and wf: "wframe p k s x s1 x1"
    by (simp_all add: wpost_def)
  have "dinode_valid (?g x1)" using valid_fields(3) [OF opened_valid [OF o] v(1)] .
  from upd_dirty [OF o, where g = ?g, OF this] obtain s2 where
    s2: "upd_inode p (\<lambda>i. set_dirty (i\<lparr>din := ?g (din i)\<rparr>)) s1 = Inr s2" "opened s2 p k (?g x1) True"
      "kframe p k {} s1 s2" "dev s2 = dev s1" "bused s2 = bused s1" .
  have a: "addr d (?g x1) = addr d x1" for d by (rule ext, rule addr_cong) simp_all
  have ok2: "file_ok s2 (?g x1)"
    using ok amap_same [OF ok_amap [OF ok] s2(5)] v(2) by (simp add: file_okx_def s2(4) a)
  from wf obtain B where "kframe p k B s s1" "B \<inter> bused s \<subseteq> own (addr (dev s) x)" by (auto simp: wframe_def)
  with kframe_trans [OF _ s2(3)] have "kframe p k B s s2 \<and> B \<inter> bused s \<subseteq> own (addr (dev s) x)" by fastforce
  with wf have "wframe p k s x s2 (?g x1)"
    unfolding wframe_def s2(4,5) a by auto
  moreover have "file_block (dev s2) (?g x1) n = file_block (dev s1) x1 n" for n
    by (simp add: file_block_def a s2(4) del: addr.simps)
  moreover have "addr (dev s2) (?g x1) = addr (dev s1) x1" by (simp add: s2(4) a)
  moreover have "max_fs_blocks (sb s2) = max_fs_blocks (sb s1)" using s2(3) by (simp add: kframe_def)
  ultimately show thesis
    using that [OF s2(1)] s2(2,5) ok2 opened_weaken [OF s2(2)] unfolding wpost_def by blast
qed

lemma spoiled_size:
  assumes sp: "spoiled p k s x s1" and v: "is_s64 z"
  obtains s2 where "upd_inode p (\<lambda>i. set_dirty (i\<lparr>din := (din i)\<lparr>i_size := z\<rparr>\<rparr>)) s1 = Inr s2"
    "spoiled p k s x s2" "bused s2 = bused s1" "max_fs_blocks (sb s2) = max_fs_blocks (sb s1)"
proof -
  let ?g = "\<lambda>x :: dinode. x\<lparr>i_size := z\<rparr>"
  from sp obtain x1 B where o: "opened s1 p k x1 False" and B: "kframe p k B s s1"
      "B \<inter> bused s \<subseteq> own (addr (dev s) x)" "bused s \<subseteq> bused s1" by (auto simp: spoiled_def)
  have "dinode_valid (?g x1)" using valid_fields(3) [OF opened_valid [OF o] v(1)] .
  from upd_dirty [OF o, where g = ?g, OF this] obtain s2 where
    s2: "upd_inode p (\<lambda>i. set_dirty (i\<lparr>din := ?g (din i)\<rparr>)) s1 = Inr s2" "opened s2 p k (?g x1) True"
      "kframe p k {} s1 s2" "dev s2 = dev s1" "bused s2 = bused s1" .
  have "kframe p k B s s2" using kframe_trans [OF B(1) s2(3)] by simp
  then have "spoiled p k s x s2"
    using opened_weaken [OF s2(2)] B(2,3) s2(5) unfolding spoiled_def by blast
  moreover have "max_fs_blocks (sb s2) = max_fs_blocks (sb s1)" using s2(3) by (simp add: kframe_def)
  ultimately show thesis by (rule that [OF s2(1) _ s2(5)])
qed

lemma magic_valid: "is_s64 magic_size" "0 \<le> magic_size"
  by (simp_all add: magic_size_def)

text \<open>
  The outcome of writing the bytes \<open>w\<close> at position \<open>pos\<close>, the rest of a write of \<open>len\<close> bytes at \<open>off\<close>
  to the file \<open>x\<close> of \<open>s\<close>.  \<open>c\<close> bounds the blocks that it takes: three blocks for each of its blocks.
\<close>

definition short :: "fs \<Rightarrow> nat \<Rightarrow> fs \<Rightarrow> bool" where
  "short s1 c s' \<longleftrightarrow> max_fs_blocks (sb s') \<le> int (card (bused s')) + 2
     \<and> int BLOCK_SIZE * max_fs_blocks (sb s') \<le> int BLOCK_SIZE * (int (card (bused s1)) + 2) + 3 * int c"

definition grew :: "fs \<Rightarrow> nat \<Rightarrow> fs \<Rightarrow> bool" where
  "grew s1 c s' \<longleftrightarrow> BLOCK_SIZE * card (bused s') \<le> BLOCK_SIZE * card (bused s1) + 3 * c"

definition data_outcome ::
  "nat \<Rightarrow> nat \<Rightarrow> fs \<Rightarrow> dinode \<Rightarrow> fs \<Rightarrow> dinode \<Rightarrow> nat \<Rightarrow> byte list \<Rightarrow> nat \<Rightarrow> nat \<Rightarrow> nat \<Rightarrow> int \<Rightarrow> fs \<Rightarrow> bool" where
  "data_outcome p k s x s1 x1 pos w off len c r s' \<longleftrightarrow>
     ((\<exists>x'. wpost p k s x s' x'
        \<and> (r = int len \<and> stored (dev s1) x1 (dev s') x' pos w \<and> i_size x' = max (i_size x) (int (off + len))
             \<and> opened s' p k x' True
         \<or> (r = - ENOSPC \<or> r = - EFBIG) \<and> (\<exists>m \<le> length w. stored (dev s1) x1 (dev s') x' pos (take m w))
             \<and> (i_size x' = i_size x \<or> i_size x' = magic_size)))
      \<or> r = - ENOSPC \<and> 2058 * BLOCK_SIZE < off + len \<and> spoiled p k s x s')
   \<and> (r = - ENOSPC \<longrightarrow> short s1 c s')
   \<and> (r = - EFBIG \<longrightarrow> MAX_BLOCKS * BLOCK_SIZE < off + len)
   \<and> (0 \<le> r \<longrightarrow> off + len \<le> MAX_BLOCKS * BLOCK_SIZE \<and> grew s1 c s')"

lemma data_outcome_append:
  assumes u: "stored (dev s1) x1 (dev s2) x2 pos u" and g: "card (bused s2) \<le> card (bused s1) + 3"
    and w: "data_outcome p k s x s2 x2 (pos + length u) w off len c r s'"
  shows "data_outcome p k s x s1 x1 pos (u @ w) off len (c + BLOCK_SIZE) r s'"
proof -
  have part: "\<exists>m \<le> length (u @ w). stored (dev s1) x1 d' x' pos (take m (u @ w))"
    if "m \<le> length w" "stored (dev s2) x2 d' x' (pos + length u) (take m w)" for m d' x'
    using that stored_append [OF u that(2)] by (intro exI [of _ "length u + m"]) simp
  have "short s1 (c + BLOCK_SIZE) s'" if "short s2 c s'"
    using that g by (simp add: short_def BLOCK_SIZE_def)
  moreover have "grew s1 (c + BLOCK_SIZE) s'" if "grew s2 c s'"
    using that g by (simp add: grew_def BLOCK_SIZE_def)
  moreover have "stored (dev s1) x1 d' x' pos (u @ w)" if "stored (dev s2) x2 d' x' (pos + length u) w" for d' x'
    by (rule stored_append [OF u that])
  ultimately show ?thesis
    using w part unfolding data_outcome_def by blast
qed

lemma grow_eq:
  assumes "0 < len" "off + len < 2 ^ 62"
  shows "grow (int off) (int len)
    = (\<lambda>i. set_dirty (i\<lparr>din := (din i)\<lparr>i_size := max (i_size (din i)) (int (off + len))\<rparr>\<rparr>))"
proof -
  have "s64 (int len) = int len" "s64 (int off + int len) = int off + int len"
    using assms(2) by (auto simp: s64_id)
  then show ?thesis using assms(1) by (intro ext) (simp add: grow_def)
qed

text \<open>The end of a successful write.\<close>

lemma grow_size:
  assumes w: "wpost p k s x s1 x1" and sz: "i_size x1 = i_size x" and c: "stored (dev s0) x0 (dev s1) x1 pos u"
    and g: "card (bused s1) \<le> card (bused s0) + 3" "BLOCK_SIZE \<le> c'"
    and len: "0 < len" "off + len < 2 ^ 62" "off + len \<le> MAX_BLOCKS * BLOCK_SIZE"
  obtains s2 where "upd_inode p (grow (int off) (int len)) s1 = Inr s2"
    "data_outcome p k s x s0 x0 pos u off len c' (int len) s2"
proof -
  let ?z = "max (i_size x1) (int (off + len))"
  from w have o: "opened s1 p k x1 False" and ok: "file_ok s1 x1" by (simp_all add: wpost_def)
  have "is_s64 (i_size x1)" using opened_valid [OF o] by (simp add: dinode_valid_def)
  then have z: "is_s64 ?z" "0 \<le> ?z" using len(2) ok_size [OF ok] by auto
  obtain s2 where
    s2: "upd_inode p (\<lambda>i. set_dirty (i\<lparr>din := (din i)\<lparr>i_size := ?z\<rparr>\<rparr>)) s1 = Inr s2"
      "wpost p k s x s2 (x1\<lparr>i_size := ?z\<rparr>)" "opened s2 p k (x1\<lparr>i_size := ?z\<rparr>) True"
      "\<And>n. file_block (dev s2) (x1\<lparr>i_size := ?z\<rparr>) n = file_block (dev s1) x1 n" "bused s2 = bused s1"
      "addr (dev s2) (x1\<lparr>i_size := ?z\<rparr>) = addr (dev s1) x1" "max_fs_blocks (sb s2) = max_fs_blocks (sb s1)"
    by (rule set_size [OF w z]) (rule that)
  from o obtain i where i: "iheap s1 p = Some i" "din i = x1" by (auto simp: opened_def)
  have "upd_inode p (grow (int off) (int len)) s1 = Inr s2"
    using s2(1) i by (simp add: grow_eq [OF len(1,2)])
  moreover have "data_outcome p k s x s0 x0 pos u off len c' (int len) s2"
  proof -
    have "stored (dev s0) x0 (dev s2) (x1\<lparr>i_size := ?z\<rparr>) pos (u @ [])"
      by (rule stored_append [OF c stored_refl [OF s2(4,6)]])
    moreover have "grew s0 c' s2" using g s2(5) by (simp add: grew_def BLOCK_SIZE_def)
    ultimately show ?thesis
      unfolding data_outcome_def using s2(2,3) sz len
      by (auto intro!: exI [of _ "x1\<lparr>i_size := ?z\<rparr>"])
  qed
  ultimately show thesis by (rule that)
qed

text \<open>Where a write stops with an error: at once, and after storing the size that stands for it.\<close>

lemma stop_outcome:
  assumes w: "wpost p k s x s2 x1" and sz: "i_size x1 = i_size x \<or> i_size x1 = magic_size"
    and c: "stored (dev s1) x1' (dev s2) x1 pos []"
    and r: "r = - ENOSPC \<and> short s1 c' s2 \<or> r = - EFBIG \<and> MAX_BLOCKS * BLOCK_SIZE < off + len"
  shows "data_outcome p k s x s1 x1' pos u off len c' r s2"
proof -
  have e: "\<exists>m \<le> length u. stored (dev s1) x1' (dev s2) x1 pos (take m u)" using c by (intro exI [of _ 0]) simp
  with w sz have "\<exists>x'. wpost p k s x s2 x' \<and> (\<exists>m \<le> length u. stored (dev s1) x1' (dev s2) x' pos (take m u))
     \<and> (i_size x' = i_size x \<or> i_size x' = magic_size)" by blast
  moreover have "(r = - ENOSPC \<or> r = - EFBIG) \<and> (r = - ENOSPC \<longrightarrow> short s1 c' s2)
     \<and> (r = - EFBIG \<longrightarrow> MAX_BLOCKS * BLOCK_SIZE < off + len) \<and> \<not> 0 \<le> r" using r by auto
  ultimately show ?thesis unfolding data_outcome_def by blast
qed

lemma spoiled_outcome:
  assumes "spoiled p k s x s2" "short s1 c' s2" "2058 * BLOCK_SIZE < off + len"
  shows "data_outcome p k s x s1 x1' pos u off len c' (- ENOSPC) s2"
  using assms by (simp add: data_outcome_def)

lemma short_start:
  assumes "max_fs_blocks (sb s1) \<le> int (card (bused s1)) + 2" "bused s1 \<subseteq> bused s2"
    "max_fs_blocks (sb s2) = max_fs_blocks (sb s1)"
  shows "short s1 c s2"
  using assms card_mono [OF _ assms(2)] by (simp add: short_def BLOCK_SIZE_def)

text \<open>One block, as a \<open>wpost\<close> step: the bytes \<open>u\<close> go to offset \<open>i\<close> of block \<open>n\<close>.\<close>

lemma write_step:
  assumes w: "wpost p k s x s1 x1" and sz: "i_size x1 = i_size x" and e: "n * BLOCK_SIZE < off + len"
    and i: "i + length u \<le> BLOCK_SIZE" "0 < length u"
  obtains (fail) r R s2 s3 where "testfs_allocate_block p (int n) block s1 = Inr (r, R, s2)" "r < 0"
      "\<forall>pos w c. data_outcome p k s x s1 x1 pos w off len c r s2"
      "upd_inode p (\<lambda>i. set_dirty (i\<lparr>din := (din i)\<lparr>i_size := magic_size\<rparr>\<rparr>)) s2 = Inr s3"
      "\<forall>pos w c. data_outcome p k s x s1 x1 pos w off len c r s3"
  | (ok) b R s2 s3 x3 where "testfs_allocate_block p (int n) block s1 = Inr (int b, R, s2)" "length R = BLOCK_SIZE"
      "write_blocks (take i R @ u @ drop (i + length u) R) (int b) 1 s2 = Inr s3" "wpost p k s x s3 x3"
      "stored (dev s1) x1 (dev s3) x3 (n * BLOCK_SIZE + i) u" "i_size x3 = i_size x1"
      "card (bused s3) \<le> card (bused s1) + 3" "n < MAX_BLOCKS"
proof -
  from w have o: "opened s1 p k x1 False" and f: "file_ok s1 x1" and wf: "wframe p k s x s1 x1"
    by (simp_all add: wpost_def)
  have stop: thesis if a: "testfs_allocate_block p (int n) block s1 = Inr (r, R, s2)" "r < 0"
    and p2: "wpost p k s x s2 x1" and st: "\<forall>pos. stored (dev s1) x1 (dev s2) x1 pos []"
    and r: "r = - ENOSPC \<and> (\<forall>c s3. bused s3 = bused s2 \<longrightarrow> max_fs_blocks (sb s3) = max_fs_blocks (sb s2) \<longrightarrow> short s1 c s3)
       \<or> r = - EFBIG \<and> MAX_BLOCKS * BLOCK_SIZE < off + len" for r R s2
  proof -
    obtain s3 where
      s3: "upd_inode p (\<lambda>i. set_dirty (i\<lparr>din := (din i)\<lparr>i_size := magic_size\<rparr>\<rparr>)) s2 = Inr s3"
        "wpost p k s x s3 (x1\<lparr>i_size := magic_size\<rparr>)" "opened s3 p k (x1\<lparr>i_size := magic_size\<rparr>) True"
        "\<And>n. file_block (dev s3) (x1\<lparr>i_size := magic_size\<rparr>) n = file_block (dev s2) x1 n"
        "bused s3 = bused s2" "addr (dev s3) (x1\<lparr>i_size := magic_size\<rparr>) = addr (dev s2) x1"
        "max_fs_blocks (sb s3) = max_fs_blocks (sb s2)"
      by (rule set_size [OF p2 magic_valid]) (rule that)
    have st3: "stored (dev s1) x1 (dev s3) (x1\<lparr>i_size := magic_size\<rparr>) pos []" for pos
    proof -
      have "stored (dev s2) x1 (dev s3) (x1\<lparr>i_size := magic_size\<rparr>) (pos + length []) []"
        by (rule stored_refl [OF s3(4,6)])
      from stored_append [OF st [rule_format] this] show ?thesis by simp
    qed
    have "data_outcome p k s x s1 x1 pos w off len c r s2" for pos w c
      using r st sz by (intro stop_outcome [OF p2]) blast+
    moreover have "data_outcome p k s x s1 x1 pos w off len c r s3" for pos w c
      using r st3 s3(5,7) by (intro stop_outcome [OF s3(2)]) auto
    ultimately show thesis using fail [OF a _ s3(1)] by blast
  qed
  show thesis
  proof (cases "n < MAX_BLOCKS")
    case False
    then have "testfs_allocate_block p (int n) block s1 = Inr (- EFBIG, block, s1)"
      by (intro allocate_block_big [OF o]) simp
    moreover have "MAX_BLOCKS * BLOCK_SIZE < off + len"
      using False e mult_le_mono1 [of MAX_BLOCKS n BLOCK_SIZE] by linarith
    ultimately show thesis using w stored_refl by (intro stop) auto
  next
    case n: True
    let ?R = "read_result (dev s1) x1 n"
    let ?bs = "take i ?R @ u @ drop (i + length u) ?R"
    have len: "length ?bs = BLOCK_SIZE" using i by simp
    from write_one_block [OF o f n, of block] show thesis
    proof (elim disjE exE conjE)
      fix s2 assume a: "testfs_allocate_block p (int n) block s1 = Inr (- ENOSPC, ?R, s2)"
        and kp: "if n < 2058 then kept p k s1 x1 s2 else dfailed p k s1 x1 s2"
        and full: "max_fs_blocks (sb s1) \<le> int (card (bused s1)) + 2"
      show thesis
      proof (cases "n < 2058")
        case True
        with kp have kp: "kept p k s1 x1 s2" by simp
        note ks = kept_same [OF f kp]
        from kp have m: "max_fs_blocks (sb s2) = max_fs_blocks (sb s1)" "addr (dev s2) x1 = addr (dev s1) x1"
          by (auto simp: kept_def kframe_def)
        have "wpost p k s x s2 x1" using ks(3,4) wframe_trans [OF wf ks(2)] by (simp add: wpost_def)
        then show thesis
          using stop [OF a] stored_refl [OF ks(1) m(2)] short_start [OF full] m(1) ks(5) by simp
      next
        case False
        with kp have kp: "dfailed p k s1 x1 s2" by simp
        have m: "max_fs_blocks (sb s2) = max_fs_blocks (sb s1)" "bused s1 \<subseteq> bused s2"
          using kp by (auto simp: dfailed_def kframe_def)
        note sp = dfailed_spoiled [OF w kp]
        from spoiled_size [OF sp magic_valid(1)] obtain s3 where
          s3: "upd_inode p (\<lambda>i. set_dirty (i\<lparr>din := (din i)\<lparr>i_size := magic_size\<rparr>\<rparr>)) s2 = Inr s3"
            "spoiled p k s x s3" "bused s3 = bused s2" "max_fs_blocks (sb s3) = max_fs_blocks (sb s2)" .
        have far: "2058 * BLOCK_SIZE < off + len"
          using False e mult_le_mono1 [of 2058 n BLOCK_SIZE] by linarith
        have "data_outcome p k s x s1 x1 pos w off len c (- ENOSPC) s2" for pos w c
          by (intro spoiled_outcome sp far short_start full m)
        moreover have "data_outcome p k s x s1 x1 pos w off len c (- ENOSPC) s3" for pos w c
          using m s3(3,4) by (intro spoiled_outcome s3(2) far short_start full) simp_all
        ultimately show thesis using fail [OF a _ _ s3(1)] by simp
      qed
    next
      fix b s2 assume a: "testfs_allocate_block p (int n) block s1 = Inr (int b, ?R, s2)"
        and wr: "\<forall>bs. length bs = BLOCK_SIZE \<longrightarrow> (\<exists>s3 x3 d3. write_blocks bs (int b) 1 s2 = Inr s3
             \<and> opened s3 p k x3 d3 \<and> file_ok s3 x3 \<and> wframe p k s1 x1 s3 x3 \<and> i_size x3 = i_size x1
             \<and> (\<forall>m. file_block (dev s3) x3 m = (if m = n then bs else file_block (dev s1) x1 m))
             \<and> (\<forall>sl. 0 < addr (dev s1) x1 sl \<longrightarrow> addr (dev s3) x3 sl = addr (dev s1) x1 sl)
             \<and> 0 < addr (dev s3) x3 (Data n) \<and> card (bused s3) \<le> card (bused s1) + 3)"
      from wr [rule_format, OF len] obtain s3 x3 d3 where s3: "write_blocks ?bs (int b) 1 s2 = Inr s3" "opened s3 p k x3 d3"
          "file_ok s3 x3" "wframe p k s1 x1 s3 x3" "i_size x3 = i_size x1"
          "\<And>m. file_block (dev s3) x3 m = (if m = n then ?bs else file_block (dev s1) x1 m)"
          "\<forall>sl. 0 < addr (dev s1) x1 sl \<longrightarrow> addr (dev s3) x3 sl = addr (dev s1) x1 sl"
          "0 < addr (dev s3) x3 (Data n)" "card (bused s3) \<le> card (bused s1) + 3"
        by blast
      have "wpost p k s x s3 x3"
        using s3(3) opened_weaken [OF s3(2)] wframe_trans [OF wf s3(4)] by (simp add: wpost_def)
      moreover have "length ?R = BLOCK_SIZE" by simp
      ultimately show thesis
        using ok [OF a _ s3(1)] stored_block [OF i n s3(6,7,8)] s3(5,9) n by blast
    qed
  qed
qed

lemma write_blocks_loop_spec:
  assumes len: "0 < len" "len < 2 ^ 31" "off + len < 2 ^ 44"
  shows "wpost p k s x s1 x1 \<Longrightarrow> i_size x1 = i_size x \<Longrightarrow> ix < BLOCK_SIZE \<Longrightarrow> 1 \<le> inc \<Longrightarrow> 0 < left
    \<Longrightarrow> inc * BLOCK_SIZE - ix + left \<le> length buf
    \<Longrightarrow> (n0 + inc) * BLOCK_SIZE + left = off + len
    \<Longrightarrow> \<exists>r s'. write_blocks_loop p buf (int off) (int len) (int n0) (int ix) (int inc) (int left) block s1 = Inr (r, s')
      \<and> data_outcome p k s x s1 x1 ((n0 + inc) * BLOCK_SIZE)
          (take left (drop (inc * BLOCK_SIZE - ix) buf)) off len (left + BLOCK_SIZE) r s'"
proof (induction left arbitrary: inc block s1 x1 rule: less_induct)
  case (less left)
  let ?n = "n0 + inc" and ?base = "inc * BLOCK_SIZE - ix"
  have ixle: "ix \<le> inc * BLOCK_SIZE"
  proof -
    have "BLOCK_SIZE \<le> inc * BLOCK_SIZE" using less.prems(4) by simp
    then show ?thesis using less.prems(3) by linarith
  qed
  have base: "int BLOCK_SIZE * int inc - int ix = int ?base"
    using ixle by (simp add: of_nat_diff mult.commute)
  have e: "?n * BLOCK_SIZE < off + len" using less.prems(5,7) by linarith
  then have "?n * BLOCK_SIZE < 2 ^ 44" using len(3) by linarith
  then have "?n < 2 ^ 31" by (simp add: BLOCK_SIZE_def)
  then have nn: "s32 (int n0 + int inc) = int ?n" by (simp add: s32_id)
  have s32len: "s32 (int len) = int len" using len(2) by (simp add: s32_id)
  have big: "off + len < 2 ^ 62" using len(3) by simp
  show ?case
  proof (cases "left \<le> BLOCK_SIZE")
    case True
    let ?u = "take left (drop ?base buf)"
    have lu: "length ?u = left" using less.prems(6) by simp
    have fits: "0 + length ?u \<le> BLOCK_SIZE" "0 < length ?u" using True lu less.prems(5) by simp_all
    from less.prems(1,2) e fits show ?thesis
    proof (cases rule: write_step [where block = block])
      case (fail r R s2 s3)
      then have "write_blocks_loop p buf (int off) (int len) (int n0) (int ix) (int inc) (int left) block s1 = Inr (r, s3)"
        using True nn by (subst write_blocks_loop.simps) simp
      with fail(5) show ?thesis by blast
    next
      case (ok b R s2 s3 x3)
      have st: "stored (dev s1) x1 (dev s3) x3 (?n * BLOCK_SIZE) ?u" using ok(5) by simp
      have "off + len \<le> MAX_BLOCKS * BLOCK_SIZE"
        using less.prems(7) True ok(8) by (simp add: BLOCK_SIZE_def)
      moreover have "BLOCK_SIZE \<le> left + BLOCK_SIZE" by simp
      ultimately obtain s4 where
        s4: "upd_inode p (grow (int off) (int len)) s3 = Inr s4"
          "data_outcome p k s x s1 x1 (?n * BLOCK_SIZE) ?u off len (left + BLOCK_SIZE) (int len) s4"
        using grow_size [OF ok(4) _ st ok(7) _ len(1) big] ok(6) less.prems(2) by metis
      have "memcpy R (int 0) buf (int ?base) (int left) = Inr (take 0 R @ ?u @ drop (0 + left) R)"
        using less.prems(6) True ok(2) by (intro memcpy_buf) simp_all
      then have "write_blocks_loop p buf (int off) (int len) (int n0) (int ix) (int inc) (int left) block s1
          = Inr (int len, s4)"
        using ok(1,3) s4(1) True nn base s32len lu
        by (subst write_blocks_loop.simps) (simp del: One_nat_def)
      with s4(2) show ?thesis by blast
    qed
  next
    case False
    define left' where "left' = left - BLOCK_SIZE"
    have left: "left = BLOCK_SIZE + left'" "0 < left'" "left' < left" using False by (simp_all add: left'_def)
    let ?u = "take BLOCK_SIZE (drop ?base buf)"
    have lu: "length ?u = BLOCK_SIZE" using less.prems(6) left(1) by simp
    have base': "Suc inc * BLOCK_SIZE - ix = ?base + BLOCK_SIZE" using ixle by simp
    have fits: "0 + length ?u \<le> BLOCK_SIZE" "0 < length ?u" using lu by simp_all
    have split: "take left (drop ?base buf) = ?u @ take left' (drop (Suc inc * BLOCK_SIZE - ix) buf)"
      unfolding base' left(1) by (simp add: take_add add.commute)
    from less.prems(1,2) e fits show ?thesis
    proof (cases rule: write_step [where block = block])
      case (fail r R s2 s3)
      then have "write_blocks_loop p buf (int off) (int len) (int n0) (int ix) (int inc) (int left) block s1 = Inr (r, s2)"
        using False nn by (subst write_blocks_loop.simps) simp
      with fail(3) show ?thesis by blast
    next
      case (ok b R s2 s3 x3)
      let ?blk = "take 0 R @ ?u @ drop (0 + length ?u) R"
      have m: "memcpy R (int 0) buf (int ?base) (int BLOCK_SIZE) = Inr ?blk"
        using memcpy_buf [of 0 BLOCK_SIZE R ?base buf] less.prems(6) left(1) lu ok(2) by simp
      have "\<exists>r s'. write_blocks_loop p buf (int off) (int len) (int n0) (int ix) (int (Suc inc)) (int left') ?blk s3
          = Inr (r, s')
        \<and> data_outcome p k s x s3 x3 ((n0 + Suc inc) * BLOCK_SIZE)
            (take left' (drop (Suc inc * BLOCK_SIZE - ix) buf)) off len (left' + BLOCK_SIZE) r s'"
      proof (rule less.IH [OF left(3) ok(4) _ less.prems(3) _ left(2)])
        show "Suc inc * BLOCK_SIZE - ix + left' \<le> length buf" unfolding base' using less.prems(6) left(1) by simp
        show "(n0 + Suc inc) * BLOCK_SIZE + left' = off + len" using less.prems(7) left(1) by simp
      qed (use ok(6) less.prems(2) in simp_all)
      then obtain r s' where IH:
        "write_blocks_loop p buf (int off) (int len) (int n0) (int ix) (int (Suc inc)) (int left') ?blk s3 = Inr (r, s')"
        "data_outcome p k s x s3 x3 ((n0 + Suc inc) * BLOCK_SIZE)
            (take left' (drop (Suc inc * BLOCK_SIZE - ix) buf)) off len (left' + BLOCK_SIZE) r s'" by blast
      have pos: "(n0 + Suc inc) * BLOCK_SIZE = ?n * BLOCK_SIZE + length ?u" using lu by simp
      have "stored (dev s1) x1 (dev s3) x3 (?n * BLOCK_SIZE) ?u" using ok(5) by simp
      from data_outcome_append [OF this ok(7) IH(2) [unfolded pos]]
      have "data_outcome p k s x s1 x1 (?n * BLOCK_SIZE) (take left (drop ?base buf)) off len (left + BLOCK_SIZE) r s'"
        unfolding split left(1) [symmetric] by (simp only: left(1) add.commute)
      moreover have "write_blocks_loop p buf (int off) (int len) (int n0) (int ix) (int inc) (int left) block s1
          = Inr (r, s')"
      proof -
        have "int left - int BLOCK_SIZE = int left'" using left(1) by simp
        moreover have "int (Suc inc) = int inc + 1" by simp
        note IH(1) [unfolded this]
        ultimately show ?thesis
          using ok(1,3) m nn base False
          by (subst write_blocks_loop.simps) (simp del: One_nat_def)
      qed
      ultimately show ?thesis by blast
    qed
  qed
qed

end
