(* ===== verification/FileOps.thy ===== *)
theory FileOps
  imports FileData
begin

text \<open>
  What a caller of \<open>read_write.c\<close> can rely on: \<open>testfs_read_data\<close> returns the bytes of the file,
  \<open>testfs_write_data\<close> replaces the bytes it was given or reports that the disk is full or the file too
  large, and a read after a write returns what was written.  Offsets are kept below \<open>2 ^ 44\<close>, where
  the number of a block is an \<open>int\<close>; larger ones the code truncates.
\<close>

section \<open>The whole of testfs_write_data\<close>

lemma wpost_refl: "opened s p k x d \<Longrightarrow> file_ok s x \<Longrightarrow> wpost p k s x s x"
  by (auto simp: wpost_def intro: opened_weaken wframe_refl ok_amap)

lemma write_data_full:
  assumes o: "opened s p k x d" and ok: "file_ok s x"
    and len: "0 < len" "len < 2 ^ 31" "len \<le> length buf" and max: "off + len < 2 ^ 44"
  shows "\<exists>r s'. testfs_write_data p buf (int off) (int len) s = Inr (r, s')
    \<and> data_outcome p k s x s x off (take len buf) off len (off mod BLOCK_SIZE + len + BLOCK_SIZE) r s'"
proof -
  define n0 where "n0 = off div BLOCK_SIZE"
  define ix where "ix = off mod BLOCK_SIZE"
  have off: "off = n0 * BLOCK_SIZE + ix" "ix < BLOCK_SIZE"
    using block_parts [of off] by (simp_all add: n0_def ix_def)
  have big: "off + len < 2 ^ 62" using max by simp
  have bs: "BLOCK_SIZE < 2 ^ 31" by (simp add: BLOCK_SIZE_def)
  have u: "u64 (int ix + int len) = int ix + int len"
    using off(2) len(2) bs by (intro u64_id) auto
  have e: "n0 * BLOCK_SIZE < off + len" using off(1) len(1) by simp
  then have "n0 * BLOCK_SIZE < 2 ^ 44" using max by linarith
  then have "n0 < 2 ^ 31" by (simp add: BLOCK_SIZE_def)
  then have s32n: "s32 (int n0) = int n0" by (simp add: s32_id)
  have s32len: "s32 (int len) = int len" using len(2) by (simp add: s32_id)
  let ?z = "replicate BLOCK_SIZE 0 :: byte list"
  note w0 = wpost_refl [OF o ok]
  note unfold = testfs_write_data_def Let_def sdiv_block smod_block n0_def [symmetric] ix_def [symmetric] u s32n
  show ?thesis
    unfolding ix_def [symmetric]
  proof (cases "ix + len \<le> BLOCK_SIZE")
    case True
    then have small: "\<not> int BLOCK_SIZE < int ix + int len" by simp
    let ?u = "take len buf"
    have lu: "length ?u = len" using len(3) by simp
    have fits: "ix + length ?u \<le> BLOCK_SIZE" "0 < length ?u" using True lu len(1) by simp_all
    from w0 refl e fits show "\<exists>r s'. testfs_write_data p buf (int off) (int len) s = Inr (r, s')
      \<and> data_outcome p k s x s x off (take len buf) off len (ix + len + BLOCK_SIZE) r s'"
    proof (cases rule: write_step [where block = ?z])
      case (fail r R s2 s3)
      then have "testfs_write_data p buf (int off) (int len) s = Inr (r, s2)"
        using small by (simp add: unfold)
      with fail(3) show ?thesis by blast
    next
      case (ok b R s2 s3 x3)
      have st: "stored (dev s) x (dev s3) x3 off ?u" using ok(5) off(1) by simp
      have "off + len \<le> MAX_BLOCKS * BLOCK_SIZE" using off(1) True ok(8) by (simp add: BLOCK_SIZE_def)
      moreover have "BLOCK_SIZE \<le> ix + len + BLOCK_SIZE" by simp
      ultimately obtain s4 where
        s4: "upd_inode p (grow (int off) (int len)) s3 = Inr s4"
          "data_outcome p k s x s x off ?u off len (ix + len + BLOCK_SIZE) (int len) s4"
        using grow_size [OF ok(4,6) st ok(7) _ len(1) big] by metis
      have "memcpy R (int ix) buf (int 0) (int len) = Inr (take ix R @ take len (drop 0 buf) @ drop (ix + len) R)"
        using len(3) True ok(2) by (intro memcpy_buf) simp_all
      then have "testfs_write_data p buf (int off) (int len) s = Inr (int len, s4)"
        using ok(1,3) s4(1) small s32len lu by (simp add: unfold)
      with s4(2) show ?thesis by blast
    qed
  next
    case False
    define c where "c = BLOCK_SIZE - ix"
    define left where "left = len - c"
    have c: "ix + c = BLOCK_SIZE" "0 < c" using off(2) by (simp_all add: c_def)
    have left: "len = c + left" "0 < left" using False c by (simp_all add: left_def)
    have many: "int BLOCK_SIZE < int ix + int len" using False by simp
    let ?u = "take c buf"
    have lu: "length ?u = c" using len(3) left(1) by simp
    have fits: "ix + length ?u \<le> BLOCK_SIZE" "0 < length ?u" using c lu by simp_all
    have split: "take len buf = ?u @ take left (drop c buf)" unfolding left(1) by (rule take_add)
    from w0 refl e fits show "\<exists>r s'. testfs_write_data p buf (int off) (int len) s = Inr (r, s')
      \<and> data_outcome p k s x s x off (take len buf) off len (ix + len + BLOCK_SIZE) r s'"
    proof (cases rule: write_step [where block = ?z])
      case (fail r R s2 s3)
      then have "testfs_write_data p buf (int off) (int len) s = Inr (r, s2)"
        using many by (simp add: unfold)
      with fail(3) show ?thesis by blast
    next
      case (ok b R s2 s3 x3)
      let ?blk = "take ix R @ ?u @ drop (ix + length ?u) R"
      have "memcpy R (int ix) buf (int 0) (int c) = Inr ?blk"
        using memcpy_buf [of ix c R 0 buf] len(3) left(1) c(1) lu ok(2) by simp
      then have m: "memcpy R (int ix) buf 0 (int BLOCK_SIZE - int ix) = Inr ?blk"
        using c(1) by (simp flip: of_nat_diff add: c_def [symmetric])
      have b1: "1 * BLOCK_SIZE - ix = c" using c(1) by simp
      have pos: "(n0 + 1) * BLOCK_SIZE = off + length ?u" using off(1) c(1) lu by simp
      have "\<exists>r s'. write_blocks_loop p buf (int off) (int len) (int n0) (int ix) (int 1) (int left) ?blk s3 = Inr (r, s')
        \<and> data_outcome p k s x s3 x3 ((n0 + 1) * BLOCK_SIZE) (take left (drop (1 * BLOCK_SIZE - ix) buf)) off len
            (left + BLOCK_SIZE) r s'"
      proof (rule write_blocks_loop_spec [OF len(1,2) max ok(4,6) off(2) _ left(2)])
        show "1 * BLOCK_SIZE - ix + left \<le> length buf" unfolding b1 using len(3) left(1) by simp
        show "(n0 + 1) * BLOCK_SIZE + left = off + len" unfolding pos lu using left(1) by simp
      qed simp
      then obtain r s' where loop:
        "write_blocks_loop p buf (int off) (int len) (int n0) (int ix) 1 (int left) ?blk s3 = Inr (r, s')"
        "data_outcome p k s x s3 x3 (off + length ?u) (take left (drop c buf)) off len (left + BLOCK_SIZE) r s'"
        unfolding b1 pos by auto
      have "stored (dev s) x (dev s3) x3 off ?u" using ok(5) off(1) by simp
      from data_outcome_append [OF this ok(7) loop(2)]
      have "data_outcome p k s x s x off (take len buf) off len (left + BLOCK_SIZE + BLOCK_SIZE) r s'" unfolding split .
      moreover have "left + BLOCK_SIZE + BLOCK_SIZE = ix + len + BLOCK_SIZE" using left(1) c(1) by simp
      moreover have "int len - int BLOCK_SIZE + int ix = int left" "s32 (int left) = int left"
        using left c(1) len(2) by (simp_all add: s32_id)
      then have "testfs_write_data p buf (int off) (int len) s = Inr (r, s')"
        using ok(1,3) m many loop(1) by (simp add: unfold)
      ultimately show ?thesis by metis
    qed
  qed
qed

text \<open>
  Enough free blocks for a write of \<open>len\<close> bytes: three for each block of its range, since a block may
  need two tables of its own.
\<close>

definition room :: "fs \<Rightarrow> nat \<Rightarrow> bool" where
  "room s len \<longleftrightarrow> int (card (bused s)) + 3 * int (len div BLOCK_SIZE) + 12 \<le> max_fs_blocks (sb s)"

lemma short_no_room:
  assumes "short s (off mod BLOCK_SIZE + len + BLOCK_SIZE) s'" "max_fs_blocks (sb s') = max_fs_blocks (sb s)"
  shows "\<not> room s len"
proof
  assume r: "room s len"
  let ?c = "off mod BLOCK_SIZE + len + BLOCK_SIZE"
  have "int BLOCK_SIZE * max_fs_blocks (sb s) \<le> int BLOCK_SIZE * (int (card (bused s)) + 2) + 3 * int ?c"
    using assms by (simp add: short_def)
  moreover have "len = len div BLOCK_SIZE * BLOCK_SIZE + len mod BLOCK_SIZE" "len mod BLOCK_SIZE < BLOCK_SIZE"
    "off mod BLOCK_SIZE < BLOCK_SIZE" by (simp_all add: BLOCK_SIZE_def)
  moreover have "int BLOCK_SIZE * (int (card (bused s)) + 3 * int (len div BLOCK_SIZE) + 12)
      \<le> int BLOCK_SIZE * max_fs_blocks (sb s)"
    using r by (intro mult_left_mono) (simp_all add: room_def)
  ultimately show False by (simp add: BLOCK_SIZE_def)
qed

lemma outcome_max:
  assumes "data_outcome p k s x s1 x1 pos w off len c r s'"
  shows "max_fs_blocks (sb s') = max_fs_blocks (sb s)"
  using assms by (auto simp: data_outcome_def wpost_def wframe_def spoiled_def kframe_def)

section \<open>Writes below the first 2058 blocks\<close>

text \<open>
  There the only failure is a full disk, and it leaves the file intact.  \<open>written\<close> is \<open>stored\<close> in this
  range.
\<close>

definition written :: "byte list \<Rightarrow> dinode \<Rightarrow> byte list \<Rightarrow> dinode \<Rightarrow> nat \<Rightarrow> byte list \<Rightarrow> bool" where
  "written d x d' x' pos w \<longleftrightarrow>
     (\<forall>j. file_byte d' x' j = (if pos \<le> j \<and> j < pos + length w then w ! (j - pos) else file_byte d x j))"

definition partly_written :: "byte list \<Rightarrow> dinode \<Rightarrow> byte list \<Rightarrow> dinode \<Rightarrow> nat \<Rightarrow> byte list \<Rightarrow> bool" where
  "partly_written d x d' x' pos w \<longleftrightarrow>
     (\<exists>m \<le> length w. written d x d' x' pos (take m w))"

lemma stored_written:
  assumes st: "stored d x d' x' pos w" and max: "pos + length w \<le> 2058 * BLOCK_SIZE"
  shows "written d x d' x' pos w"
  unfolding written_def
proof
  fix j
  have "tabled d x n" if "touched pos (length w) n" for n
  proof -
    from that obtain i where i: "i < pos + length w" "i div BLOCK_SIZE = n"
      unfolding touched_def by blast
    from i(1) max have "i < 2058 * BLOCK_SIZE" by linarith
    with i(2) have "n < 2058" by (auto simp: BLOCK_SIZE_def)
    then show ?thesis by (simp add: tabled_def)
  qed
  then have "tabled d x (j div BLOCK_SIZE) \<or> \<not> touched pos (length w) (j div BLOCK_SIZE)" by blast
  with st show "file_byte d' x' j = (if pos \<le> j \<and> j < pos + length w then w ! (j - pos) else file_byte d x j)"
    unfolding stored_def by (cases "pos \<le> j \<and> j < pos + length w") auto
qed

definition write_outcome ::
  "nat \<Rightarrow> nat \<Rightarrow> fs \<Rightarrow> dinode \<Rightarrow> byte list \<Rightarrow> dinode \<Rightarrow> nat \<Rightarrow> byte list \<Rightarrow> nat \<Rightarrow> nat \<Rightarrow> int \<Rightarrow> fs \<Rightarrow> bool" where
  "write_outcome p k s x d1 x1 pos w off len r s' \<longleftrightarrow> (\<exists>x'. wpost p k s x s' x'
     \<and> ((r = int len \<and> written d1 x1 (dev s') x' pos w \<and> i_size x' = max (i_size x) (int (off + len))
          \<and> opened s' p k x' True)
       \<or> (r = - ENOSPC \<and> partly_written d1 x1 (dev s') x' pos w
          \<and> (i_size x' = i_size x \<or> i_size x' = magic_size)
          \<and> max_fs_blocks (sb s') \<le> int (card (bused s')) + 2)))"

lemma write_data_spec:
  assumes o: "opened s p k x d" and ok: "file_ok s x"
    and len: "0 < len" "len < 2 ^ 31" "len \<le> length buf" and max: "off + len \<le> 2058 * BLOCK_SIZE"
  shows "\<exists>r s'. testfs_write_data p buf (int off) (int len) s = Inr (r, s')
    \<and> write_outcome p k s x (dev s) x off (take len buf) off len r s' \<and> (room s len \<longrightarrow> r = int len)
    \<and> (0 \<le> r \<longrightarrow> grew s (off mod BLOCK_SIZE + len + BLOCK_SIZE) s')"
proof -
  have "off + len < 2 ^ 44" using max by (simp add: BLOCK_SIZE_def)
  from write_data_full [OF o ok len this] obtain r s' where
    eq: "testfs_write_data p buf (int off) (int len) s = Inr (r, s')"
    and out: "data_outcome p k s x s x off (take len buf) off len (off mod BLOCK_SIZE + len + BLOCK_SIZE) r s'" by blast
  have wr: "written (dev s) x d' x' off (take m buf)" if "stored (dev s) x d' x' off (take m buf)" "m \<le> len" for d' x' m
    using that max len(3) by (intro stored_written) simp_all
  have efbig: "r \<noteq> - EFBIG" using out max by (auto simp: data_outcome_def BLOCK_SIZE_def)
  have full: "max_fs_blocks (sb s') \<le> int (card (bused s')) + 2" "\<not> room s len" if "r = - ENOSPC"
    using that out short_no_room [OF _ outcome_max [OF out]] by (auto simp: data_outcome_def short_def)
  from out efbig max obtain x' where x': "wpost p k s x s' x'"
      "r = int len \<and> stored (dev s) x (dev s') x' off (take len buf) \<and> i_size x' = max (i_size x) (int (off + len))
             \<and> opened s' p k x' True
         \<or> r = - ENOSPC \<and> (\<exists>m \<le> length (take len buf). stored (dev s) x (dev s') x' off (take m (take len buf)))
             \<and> (i_size x' = i_size x \<or> i_size x' = magic_size)"
    unfolding data_outcome_def by (metis not_less)
  have "partly_written (dev s) x (dev s') x' off (take len buf)"
    if "m \<le> length (take len buf)" "stored (dev s) x (dev s') x' off (take m (take len buf))" for m
  proof -
    have m: "m \<le> len" "take m (take len buf) = take m buf" using that(1) by (simp_all add: min_absorb1)
    from wr [OF _ m(1)] that(2) have "written (dev s) x (dev s') x' off (take m (take len buf))" unfolding m(2) by simp
    with that(1) show ?thesis unfolding partly_written_def by blast
  qed
  with x' wr [of _ x' len] full have "write_outcome p k s x (dev s) x off (take len buf) off len r s'"
    unfolding write_outcome_def by blast
  moreover have "room s len \<longrightarrow> r = int len" using x'(2) full(2) by blast
  moreover have "0 \<le> r \<longrightarrow> grew s (off mod BLOCK_SIZE + len + BLOCK_SIZE) s'" using out by (simp add: data_outcome_def)
  ultimately show ?thesis using eq by blast
qed

text \<open>A write inside one block succeeds unless at most two blocks are free.\<close>

lemma write_small:
  assumes o: "opened s p k x d" and ok: "file_ok s x" and one: "off mod BLOCK_SIZE + len \<le> BLOCK_SIZE"
    and len: "0 < len" "len \<le> length buf" and max: "off + len \<le> 2058 * BLOCK_SIZE"
    and free: "int (card (bused s)) + 2 < max_fs_blocks (sb s)"
  shows "\<exists>s'. testfs_write_data p buf (int off) (int len) s = Inr (int len, s')"
proof -
  have l31: "len < 2 ^ 31" using one by (simp add: BLOCK_SIZE_def)
  obtain r s' where w: "testfs_write_data p buf (int off) (int len) s = Inr (r, s')"
      "r = int len \<or> r = - ENOSPC"
    using write_data_spec [OF o ok len(1) l31 len(2) max] unfolding write_outcome_def by blast
  have "r \<noteq> - ENOSPC"
  proof
    assume r: "r = - ENOSPC"
    define n0 where "n0 = off div BLOCK_SIZE"
    define ix where "ix = off mod BLOCK_SIZE"
    have "off < 2058 * BLOCK_SIZE" using max len(1) by simp
    then have n: "n0 < MAX_BLOCKS" by (simp add: n0_def less_mult_imp_div_less)
    have ix: "ix + len \<le> BLOCK_SIZE" using one by (simp add: ix_def)
    have u: "u64 (int ix + int len) = int ix + int len" "\<not> int BLOCK_SIZE < int ix + int len"
      using ix by (auto simp: u64_id BLOCK_SIZE_def)
    from write_one_block [OF o ok n, of "replicate BLOCK_SIZE 0"] free obtain b s1 where
      a: "testfs_allocate_block p (int n0) (replicate BLOCK_SIZE 0) s = Inr (int b, read_result (dev s) x n0, s1)"
      by force
    have "s32 (int len) = int len" "s32 (int n0) = int n0" using l31 n by (simp_all add: s32_id)
    then show False
      using w(1) a len(1) unfolding r
      by (auto simp: testfs_write_data_def Let_def sdiv_block smod_block u
          n0_def [symmetric] ix_def [symmetric] bindr_eq_Inr)
  qed
  with w show ?thesis by auto
qed

section \<open>An empty file\<close>

lemma le_val_zeros: "le_val (replicate n 0) = 0"
  by (induction n) simp_all

lemma dec_zeros: "dec_s32 (replicate n 0) = 0" "dec_s64 (replicate n 0) = 0"
  by (simp_all add: dec_s32_def dec_s64_def signed_def le_val_zeros)

lemma dec_dinode_zeros: "dec_dinode (drop a zero) = zero_dinode"
  by (simp add: dec_dinode_def zero_dinode_def zero_def dec_zeros map_replicate_const)

lemma blank_view:
  assumes "0 \<le> m" "m \<le> nr_blocks_max" "k < NR_INODES"
  shows "iview (blank_fs mal m) k = zero_dinode"
proof -
  have "cached (blank_fs mal m) (int k) = None"
    using blank_fs_inv(5) [OF assms(1,2), of mal] by (auto simp: cached_def split: sum.splits option.splits)
  moreover have "dev (blank_fs mal m) = blank_dev m" by (simp add: blank_fs_def fresh_fs_def)
  moreover have "18 + k div 128 < 146" using assms(3) by linarith
  ultimately show ?thesis by (simp add: iview_def disk_inode_def dblk_blank dec_dinode_zeros)
qed

lemma empty_map:
  assumes "i_block_nr x = replicate 10 0" "i_indirect x = 0" "i_dindirect x = 0"
  shows "addr d x sl = 0"
  using assms by (cases sl) (simp_all add: tent_def)

lemma empty_file_ok:
  assumes "i_block_nr x = replicate 10 0" "i_indirect x = 0" "i_dindirect x = 0" "block_count x = 0" "0 \<le> i_size x"
  shows "file_ok s x"
  using assms empty_map [OF assms(1-3)] by (simp add: file_okx_def amap_ok_def held_def own_def)

definition empty_file :: dinode where
  "empty_file = zero_dinode\<lparr>i_type := I_FILE\<rparr>"

lemma empty_file_simps [simp]: "file_ok s empty_file" "i_size empty_file = 0" "i_dindirect empty_file = 0"
  "i_type empty_file = I_FILE" "addr d empty_file sl = 0" "i_block_nr empty_file = replicate 10 0" "block_count empty_file = 0"
  by (rule empty_file_ok; simp add: empty_file_def zero_dinode_def)
     (simp_all add: empty_file_def zero_dinode_def empty_map)

text \<open>An empty inode on a newly formatted disk of \<open>m\<close> blocks.\<close>

lemma inode_on_blank:
  assumes m: "0 \<le> m" "m \<le> nr_blocks_max" and t: "is_s32 t"
  obtains p k s where "testfs_create_inode t (blank_fs (\<lambda>_. True) m) = Inr (0, Some p, s)"
    "opened s p k (zero_dinode\<lparr>i_type := t\<rparr>) True" "k < NR_INODES" "bused s = {}" "iused s = {k}"
    "max_fs_blocks (sb s) = m" "data_frame (blank_fs (\<lambda>_. True) m) s" "irefs s k = 1"
    "\<And>j. j \<noteq> k \<Longrightarrow> irefs s j = 0"
proof -
  let ?b = "blank_fs (\<lambda>_. True) m"
  note b = blank_fs_inv [OF m, of "\<lambda>_. True"]
  have ib: "inode_inv ?b" by (rule blank_inode_inv [OF m]) simp
  from ib t show thesis
  proof (cases rule: create_inode_cases)
    case (full s')
    have "(0 :: nat) \<in> {..<NR_INODES}" by simp
    with full(2) show thesis unfolding b(4) by blast
  next
    case (made k p s)
    have v: "iview ?b k = zero_dinode" by (rule blank_view [OF m made(2)])
    have "irefs ?b j = 0" for j
      using b(5) by (auto simp: irefs_def cached_def split: sum.splits option.splits)
    then have "irefs s k = 1" and others: "\<And>j. j \<noteq> k \<Longrightarrow> irefs s j = 0" using made(9) by simp_all
    moreover have "opened s p k (zero_dinode\<lparr>i_type := t\<rparr>) True"
      using opened_iobj [OF made(6,7)] v by simp
    moreover have "max_fs_blocks (sb ?b) = m" by (simp add: blank_fs_def blank_sb_def)
    then have "max_fs_blocks (sb s) = m" using made(11) by (simp add: data_frame_def)
    ultimately show thesis using that [OF made(1)] others made(2,4,5,11) b(3,4) by simp
  qed
qed

lemma file_on_blank:
  assumes m: "0 \<le> m" "m \<le> nr_blocks_max"
  obtains p k s where "testfs_create_inode I_FILE (blank_fs (\<lambda>_. True) m) = Inr (0, Some p, s)"
    "opened s p k empty_file True" "k < NR_INODES" "bused s = {}" "iused s = {k}" "max_fs_blocks (sb s) = m"
    "data_frame (blank_fs (\<lambda>_. True) m) s" "irefs s k = 1"
  by (rule inode_on_blank [OF m, of I_FILE]) (simp_all add: empty_file_def)

text \<open>An empty file on a disk of 1024 blocks.\<close>

lemma test_file:
  obtains p k s where "testfs_create_inode I_FILE test_fs = Inr (0, Some p, s)" "opened s p k empty_file True"
    "k < NR_INODES" "bused s = {}" "iused s = {k}" "max_fs_blocks (sb s) = 1024" "data_frame test_fs s"
    "irefs s k = 1"
  by (rule file_on_blank [of 1024]) simp_all

section \<open>Properties\<close>


text \<open>A write of ten bytes to the new file, for the witnesses.\<close>

lemma written_test_file:
  assumes "off + 10 < 2 ^ 35"
  obtains p k s s' x' where "testfs_create_inode I_FILE test_fs = Inr (0, Some p, s)" "k < NR_INODES" "iused s = {k}"
    "opened s p k empty_file True" "bused s = {}"
    "testfs_write_data p (replicate 10 7) (int off) 10 s = Inr (10, s')" "opened s' p k x' True" "file_ok s' x'"
    "i_size x' = int (off + 10)" "stored (dev s) empty_file (dev s') x' off (replicate 10 7)"
proof -
  obtain p k s where c: "testfs_create_inode I_FILE test_fs = Inr (0, Some p, s)" "k < NR_INODES" "iused s = {k}"
      and s: "opened s p k empty_file True" "bused s = {}" "max_fs_blocks (sb s) = 1024"
    by (rule test_file)
  have big: "off + 10 < 2 ^ 44" "off + 10 \<le> MAX_BLOCKS * BLOCK_SIZE" using assms by (simp_all add: BLOCK_SIZE_def)
  from write_data_full [OF s(1) _ _ _ _ big(1), of "replicate 10 7"] obtain r s' where
    w: "testfs_write_data p (replicate 10 7) (int off) 10 s = Inr (r, s')"
      "data_outcome p k s empty_file s empty_file off (replicate 10 7) off 10 (off mod BLOCK_SIZE + 10 + BLOCK_SIZE) r s'"
    by auto
  have "room s 10" by (simp add: room_def s BLOCK_SIZE_def)
  then have "r \<noteq> - ENOSPC" "r \<noteq> - EFBIG"
    using w(2) short_no_room [OF _ outcome_max [OF w(2)]] big(2) by (auto simp: data_outcome_def)
  with w(2) obtain x' where "wpost p k s empty_file s' x'" "r = 10" "opened s' p k x' True"
      "stored (dev s) empty_file (dev s') x' off (replicate 10 7)" "i_size x' = int (off + 10)"
    unfolding data_outcome_def by auto
  with c s w(1) show thesis by (intro that) (auto simp: wpost_def)
qed




text \<open>
  C16: what a successful write stored, a read returns: whenever the write succeeds, reading the range again gives exactly the
  bytes written, wherever in the file the range lies (below \<open>2 ^ 44\<close>, where block numbers are
  \<open>int\<close>s).
\<close>

theorem write_then_read:
  assumes "opened s p k x d" "file_ok s x"
    and "0 < len" "len < 2 ^ 31" "len \<le> length buf" "off + len < 2 ^ 44"
    and "testfs_write_data p buf (int off) (int len) s = Inr (r, s')" "0 \<le> r" "length buf' = len"
  shows "r = int len \<and> testfs_read_data p buf' (int off) (int len) s' = Inr (int len, take len buf)"
proof -
  from write_data_full [OF assms(1,2,3-6)] assms(7,8) obtain x' where
    w: "r = int len" "opened s' p k x' False" "file_ok s' x'" "i_size x' = max (i_size x) (int (off + len))"
      "stored (dev s) x (dev s') x' off (take len buf)" "off + len \<le> MAX_BLOCKS * BLOCK_SIZE"
    unfolding data_outcome_def wpost_def by auto
  have tab: "tabled (dev s') x' (j div BLOCK_SIZE)" and byte: "file_byte (dev s') x' j = take len buf ! (j - off)"
    if "off \<le> j" "j < off + len" for j
    using that w(5) assms(5) by (simp_all add: stored_def)
  have "testfs_read_data p buf' (int off) (int len) s' = Inr (int len, file_bytes (dev s') x' off len @ drop len buf')"
  proof (rule read_data_eq [OF w(2,3) assms(4)])
    show "regular (dev s') x' n" if n: "off div BLOCK_SIZE \<le> n" "n * BLOCK_SIZE < off + len \<or> n = off div BLOCK_SIZE" for n
    proof (cases "n = off div BLOCK_SIZE")
      case True
      then show ?thesis using tab [of off] assms(3) by (auto intro: tabled_regular)
    next
      case False
      with n have "off div BLOCK_SIZE < n" "n * BLOCK_SIZE < off + len" by auto
      then have "off \<le> n * BLOCK_SIZE" using block_parts [of off] mult_le_mono1 [of "Suc (off div BLOCK_SIZE)" n BLOCK_SIZE] unfolding mult_Suc by linarith
      with tab [of "n * BLOCK_SIZE"] \<open>n * BLOCK_SIZE < off + len\<close> show ?thesis by (auto intro: tabled_regular)
    qed
  qed (use assms(3,9) w(4,6) in simp_all)
  moreover have "file_bytes (dev s') x' off len = take len buf"
    using assms(5) by (intro nth_equalityI) (simp_all add: file_bytes_def byte)
  ultimately show ?thesis using w(1) assms(9) by simp
qed

theorem write_then_read_witness:
  "\<exists>p k s s'. opened s p k empty_file True
    \<and> testfs_write_data p (replicate 10 7) 20000000 10 s = Inr (10, s')
    \<and> testfs_read_data p (replicate 10 0) 20000000 10 s' = Inr (10, replicate 10 7)"
proof -
  obtain p k s s' where s: "opened s p k empty_file True"
      "testfs_write_data p (replicate 10 7) (int 20000000) 10 s = Inr (10, s')"
    by (rule written_test_file [of 20000000]) simp_all
  with write_then_read [OF s(1), of 10 "replicate 10 7" 20000000 10 s' "replicate 10 0"]
  show ?thesis by (intro exI [of _ p] exI [of _ k] exI [of _ s] exI [of _ s']) simp
qed

text \<open>
  C29: \<open>testfs_read_block\<close>.  Below the largest block number it returns the address of the data
  block (0 for a hole) and the contents of the block (zeros for a hole), and above it \<open>-EFBIG\<close>.
  The one exception is a hole below a double-indirect table that does not list the table of the
  hole: there the buffer holds the double-indirect table and not zeros.
\<close>

theorem read_block_correct:
  assumes "opened s p k x d" "file_ok s x"
  shows "testfs_read_block p (int n) block s =
    (if MAX_BLOCKS \<le> n then Inr (- EFBIG, block)
     else Inr (addr (dev s) x (Data n),
       if 2058 \<le> n \<and> i_dindirect x \<noteq> 0 \<and> addr (dev s) x (Tab ((n - 2058) div 2048)) = 0
       then dblk (dev s) (nat (i_dindirect x)) else file_block (dev s) x n))"
proof (cases "MAX_BLOCKS \<le> n")
  case True
  then show ?thesis using read_block_big [OF assms(1), of "int n" block] by simp
next
  case False
  have "0 \<le> addr (dev s) x (Tab ((n - 2058) div 2048))" by (rule amap_nonneg [OF ok_amap [OF assms(2)]])
  then have "regular (dev s) x n \<longleftrightarrow>
      \<not> (2058 \<le> n \<and> i_dindirect x \<noteq> 0 \<and> addr (dev s) x (Tab ((n - 2058) div 2048)) = 0)"
    by (auto simp: regular_def simp del: addr.simps)
  then show ?thesis
    using False read_block_eq [OF assms, of n block] by (simp add: read_result_def del: addr.simps)
qed

theorem read_block_correct_witness:
  "\<exists>p k s. opened s p k empty_file True
    \<and> testfs_read_block p 4196362 (replicate BLOCK_SIZE 1) s = Inr (- EFBIG, replicate BLOCK_SIZE 1)
    \<and> testfs_read_block p 2058 (replicate BLOCK_SIZE 1) s = Inr (0, zero)"
proof -
  obtain p k s where s: "opened s p k empty_file True" by (rule test_file)
  note r = read_block_correct [OF s, of 4196362] read_block_correct [OF s, of 2058]
  from r [of "replicate BLOCK_SIZE 1"] s show ?thesis
    by (intro exI [of _ p] exI [of _ k] exI [of _ s]) (simp add: file_block_def del: addr.simps)
qed

text \<open>
  \<open>testfs_allocate_block\<close> is total on well-formed files.  A block that exists is returned with
  its contents; a missing one is created, with the tables on the way to it, out of free blocks,
  and the map of the file changes in that block only; or the disk has at most two free blocks,
  \<open>-ENOSPC\<close> is returned and (below the double-indirect range) the file is as before.
\<close>

theorem allocate_block_correct:
  assumes "opened s p k x d" "file_ok s x" "n < MAX_BLOCKS"
  shows "\<exists>ret bs s'. testfs_allocate_block p (int n) block s = Inr (ret, bs, s')
    \<and> (0 < addr (dev s) x (Data n) \<and> ret = addr (dev s) x (Data n) \<and> bs = file_block (dev s) x n \<and> s' = s
      \<or> addr (dev s) x (Data n) = 0 \<and> (\<exists>b x'. ret = int b \<and> grown p k s x n s' b x')
      \<or> addr (dev s) x (Data n) = 0 \<and> ret = - ENOSPC \<and> max_fs_blocks (sb s) \<le> int (card (bused s)) + 2
         \<and> (n < 2058 \<and> kept p k s x s' \<or> 2058 \<le> n \<and> dfailed p k s x s'))"
proof -
  note a = allocate_block_spec [OF assms, of block, unfolded if_bool_eq_disj not_less]
  show ?thesis using a by blast
qed

theorem allocate_block_correct_witness:
  "\<exists>p k s b bs s' x'. opened s p k empty_file True
    \<and> testfs_allocate_block p 2058 (replicate BLOCK_SIZE 1) s = Inr (int b, bs, s')
    \<and> grown p k s empty_file 2058 s' b x'"
proof -
  obtain p k s where s: "opened s p k empty_file True" "bused s = {}" "max_fs_blocks (sb s) = 1024"
    by (rule test_file)
  from allocate_block_correct [OF s(1), of 2058 "replicate BLOCK_SIZE 1"] s(2,3) obtain b bs s' x' where
    "testfs_allocate_block p 2058 (replicate BLOCK_SIZE 1) s = Inr (int b, bs, s')"
    "grown p k s empty_file 2058 s' b x'"
    by (auto simp del: addr.simps)
  with s(1) show ?thesis by blast
qed

section \<open>Running out of space\<close>

text \<open>The two steps of \<open>testfs_allocate_block\<close> on a direct block, with and without a free block.\<close>

lemma direct_hole:
  assumes o: "opened s p k x d" and n: "n < 10" "length (i_block_nr x) = 10" "i_block_nr x ! n = 0"
  shows "testfs_allocate_block p (int n) block s
    = bindr (testfs_alloc_block_for_inode p s) (\<lambda>(b, s1).
        if b \<ge> 0 then
          bindr (upd_inode p (\<lambda>i. i\<lparr>din := (din i)\<lparr>i_block_nr := (i_block_nr (din i))[n := b]\<rparr>\<rparr>) s1) (\<lambda>s2.
          Inr (b, zero, s2))
        else Inr (b, zero, s1))"
proof -
  from opened_deref [OF o] obtain i where i: "deref p s = Inr i" "din i = x" by blast
  have "testfs_read_block p (int n) block s = Inr (0, zero)"
    using i n by (simp add: testfs_read_block_def read_phys_def zero_def)
  then show ?thesis using i n unfolding testfs_allocate_block_def nat_int by simp
qed

text \<open>
  A write that runs out of space in its last block leaves a wrong size.  If exactly one block is
  free, writing \<open>BLOCK_SIZE + 1\<close> bytes at the start of a file without blocks stores the
  first block, returns \<open>-ENOSPC\<close>, and sets the size to 34376597504, the limit meant for
  \<open>-EFBIG\<close>, while the file holds one block.
\<close>

theorem write_enospc_size:
  assumes "opened s p k x d" "file_ok s x" "i_block_nr x = replicate 10 0"
    and "max_fs_blocks (sb s) = int (card (bused s)) + 1" "length buf = BLOCK_SIZE + 1"
  shows "\<exists>s' x'. testfs_write_data p buf 0 (int BLOCK_SIZE + 1) s = Inr (- ENOSPC, s')
    \<and> opened s' p k x' True \<and> i_size x' = 34376597504 \<and> block_count x' = block_count x + 1
    \<and> card (bused s') = card (bused s) + 1"
proof -
  note o = assms(1) and ok = assms(2)
  have c: "is_s32 (block_count x + 1)" by (rule count_valid [OF ok opened_super [OF o]]) simp_all
  have v: "dinode_valid x" by (rule opened_valid [OF o])
  obtain b s1 where a1: "testfs_alloc_block_for_inode p s = Inr (int b, s1)" "b \<notin> bused s" "146 \<le> b"
      "b < 146 + 1048576" "bused s1 = insert b (bused s)" "kframe p k {} s s1"
      "opened s1 p k (x\<lparr>block_count := block_count x + 1\<rparr>) True"
    using o c by (cases rule: alloc_for_inode) (use assms(4) in auto)
  let ?g = "\<lambda>x :: dinode. x\<lparr>i_block_nr := (i_block_nr x)[0 := int b]\<rparr>"
  let ?x = "?g (x\<lparr>block_count := block_count x + 1\<rparr>)"
  have "dinode_valid ?x" by (rule valid_set_direct [OF opened_valid [OF a1(7)]]) (use a1(4) in simp)
  from upd_clean [OF a1(7), where g = ?g, OF this] obtain s2 where
    s2: "upd_inode p (\<lambda>i. i\<lparr>din := ?g (din i)\<rparr>) s1 = Inr s2" "opened s2 p k ?x True"
      "kframe p k {} s1 s2" "dev s2 = dev s1" "bused s2 = bused s1" .
  have first: "testfs_allocate_block p 0 blk s = Inr (int b, zero, s2)" for blk
    using direct_hole [OF o, of 0 blk] assms(3) a1(1) s2(1) by simp
  let ?blk = "take BLOCK_SIZE buf"
  have len: "length ?blk = BLOCK_SIZE" using assms(5) by simp
  from write_opened [OF s2(2) a1(3) len] obtain s3 where
    s3: "write_blocks ?blk (int b) 1 s2 = Inr s3" "opened s3 p k ?x True" "kframe p k {b} s2 s3"
      "bused s3 = bused s2" by auto
  have full: "max_fs_blocks (sb s3) = int (card (bused s3))"
  proof -
    have "card (bused s3) = card (bused s) + 1" using a1(2,5) s2(5) s3(4) by simp
    moreover have "max_fs_blocks (sb s3) = max_fs_blocks (sb s)"
      using a1(6) s2(3) s3(3) by (simp add: kframe_def)
    ultimately show ?thesis using assms(4) by simp
  qed
  have c2: "is_s32 (block_count ?x + 1)"
    using count_valid [OF ok opened_super [OF o], of 2] by simp
  have "testfs_alloc_block_for_inode p s3 = Inr (- ENOSPC, s3)"
    using s3(2) c2 by (cases rule: alloc_for_inode) (use full in auto)
  then have second: "testfs_allocate_block p 1 blk s3 = Inr (- ENOSPC, zero, s3)" for blk
    using direct_hole [OF s3(2), of 1 blk] assms(3) by simp
  let ?h = "\<lambda>x :: dinode. x\<lparr>i_size := magic_size\<rparr>"
  have "dinode_valid (?h ?x)" using valid_fields(3) [OF opened_valid [OF s3(2)] magic_valid(1)] .
  from upd_dirty [OF s3(2), where g = ?h, OF this] obtain s4 where
    s4: "upd_inode p (\<lambda>i. set_dirty (i\<lparr>din := ?h (din i)\<rparr>)) s3 = Inr s4" "opened s4 p k (?h ?x) True"
      "bused s4 = bused s3" by blast
  have m: "memcpy zero 0 buf 0 (int BLOCK_SIZE) = Inr ?blk"
    using memcpy_buf [of 0 BLOCK_SIZE zero 0 buf] assms(5) by simp
  have u: "u64 (int BLOCK_SIZE + 1) = int BLOCK_SIZE + 1" by (simp add: u64_id BLOCK_SIZE_def)
  have nz: "BLOCK_SIZE \<noteq> 0" by (simp add: BLOCK_SIZE_def)
  have "testfs_write_data p buf 0 (int BLOCK_SIZE + 1) s = Inr (- ENOSPC, s4)"
    using first second s3(1) s4(1) m u
    by (simp add: testfs_write_data_def Let_def s32_id) (subst write_blocks_loop.simps, simp add: s32_id nz)
  moreover have "card (bused s4) = card (bused s) + 1" using a1(2,5) s2(5) s3(4) s4(3) by simp
  ultimately show ?thesis using s4(2) by (intro exI [of _ s4] exI [of _ "?h ?x"]) (simp add: magic_size_def)
qed

theorem write_enospc_size_witness:
  "\<exists>p k s s' x'. opened s p k empty_file True
    \<and> testfs_write_data p (replicate (BLOCK_SIZE + 1) 7) 0 (int BLOCK_SIZE + 1) s = Inr (- ENOSPC, s')
    \<and> opened s' p k x' True \<and> i_size x' = 34376597504 \<and> block_count x' = 1"
proof -
  obtain p k s where s: "opened s p k empty_file True" "bused s = {}" "max_fs_blocks (sb s) = 1"
    by (rule file_on_blank [of 1]) simp_all
  from write_enospc_size [OF s(1), of "replicate (BLOCK_SIZE + 1) 7"] s(2,3) obtain s' x' where
    "testfs_write_data p (replicate (BLOCK_SIZE + 1) 7) 0 (int BLOCK_SIZE + 1) s = Inr (- ENOSPC, s')"
    "opened s' p k x' True" "i_size x' = 34376597504" "block_count x' = 1"
    by (auto simp del: replicate.simps)
  with s(1) show ?thesis by blast
qed

text \<open>
  A failed allocation in the double-indirect range leaves a dangling pointer.  If the file has
  no double-indirect table and exactly one block is free, the block is taken for that table and
  given back when the next one cannot be allocated; but \<open>i_dindirect\<close> still names it, so the inode
  refers to a block that is free (the single-indirect path resets its pointer).
\<close>

theorem dindirect_enospc_dangles:
  assumes "opened s p k x d" "file_ok s x" "i_dindirect x = 0"
    and "max_fs_blocks (sb s) = int (card (bused s)) + 1" "2058 \<le> n" "n < MAX_BLOCKS"
  shows "\<exists>b s' x'. testfs_allocate_block p (int n) block s = Inr (- ENOSPC, zero, s')
    \<and> opened s' p k x' True \<and> i_dindirect x' = int b \<and> 146 \<le> b \<and> b \<notin> bused s'
    \<and> block_count x' = block_count x \<and> bused s' = bused s"
proof -
  note o = assms(1) and ok = assms(2)
  define r where "r = n - 2058"
  have r: "n = 2058 + r" "r < 2048 * 2048" using assms(5,6) by (simp_all add: r_def)
  have rq: "r div 2048 < 2048" using r(2) by (simp add: less_mult_imp_div_less)
  have c: "is_s32 (block_count x + 1)" by (rule count_valid [OF ok opened_super [OF o]]) simp_all
  from opened_deref [OF o] obtain i where i: "deref p s = Inr i" "din i = x" by blast
  obtain b s1 where a1: "testfs_alloc_block_for_inode p s = Inr (int b, s1)" "b \<notin> bused s" "146 \<le> b"
      "b < 146 + 1048576" "bused s1 = insert b (bused s)" "kframe p k {} s s1"
      "opened s1 p k (x\<lparr>block_count := block_count x + 1\<rparr>) True"
    using o c by (cases rule: alloc_for_inode) (use assms(4) in auto)
  let ?g = "\<lambda>x :: dinode. x\<lparr>i_dindirect := int b\<rparr>"
  let ?x = "?g (x\<lparr>block_count := block_count x + 1\<rparr>)"
  have "dinode_valid ?x" by (rule valid_fields(2) [OF opened_valid [OF a1(7)]]) (use a1(4) in simp)
  from upd_clean [OF a1(7), where g = ?g, OF this] obtain s2 where
    s2: "upd_inode p (\<lambda>i. i\<lparr>din := ?g (din i)\<rparr>) s1 = Inr s2" "opened s2 p k ?x True"
      "kframe p k {} s1 s2" "dev s2 = dev s1" "bused s2 = bused s1" .
  have root: "dind_root p s = Inr (int b, replicate BLOCK_SIZE 0, True, s2)"
    using i assms(3) a1(1) s2(1) by (simp add: dind_root_def)
  from opened_deref [OF s2(2)] obtain i2 where i2: "deref p s2 = Inr i2" "din i2 = ?x" by blast
  have full: "max_fs_blocks (sb s2) \<le> int (card (bused s2))"
    using a1(2,5,6) s2(3,5) assms(4) by (simp add: kframe_def)
  have c2: "is_s32 (block_count ?x + 1)" "is_s32 (block_count ?x - 1)"
    using count_valid [OF ok opened_super [OF o], of 2] count_valid [OF ok opened_super [OF o], of 0] by simp_all
  have none: "testfs_alloc_block_for_inode p s2 = Inr (- ENOSPC, s2)"
    using s2(2) c2(1) by (cases rule: alloc_for_inode) (use full in auto)
  have bu: "b \<in> bused s2" using a1(5) s2(5) by simp
  from free_from_inode [OF s2(2) bu c2(2)] obtain s3 where
    s3: "testfs_free_block_from_inode p (int b) s2 = Inr s3" "bused s3 = bused s2 - {b}"
      "opened s3 p k (?x\<lparr>block_count := block_count ?x - 1\<rparr>) True" by blast
  have "int_get (replicate BLOCK_SIZE 0) (int (r div 2048)) = Inr 0"
    using int_get_dblk [OF rq, of "[]" 0] entry_zero_block [OF rq] by (simp add: dblk_nil zero_def)
  then have table: "dind_table p (int r div 2048) (replicate BLOCK_SIZE 0) True s2
      = Inr (- ENOSPC, replicate BLOCK_SIZE 0, [], False, s3)"
    using none i2 s3(1) by (simp add: dind_table_def zdiv_int)
  have "regular (dev s) x n" "file_block (dev s) x n = zero"
    using assms(3,5) by (simp_all add: regular_def file_block_def tent_def)
  then have rb: "testfs_read_block p (int n) block s = Inr (0, zero)"
    using read_block_eq [OF o ok assms(6), of block] assms(3,5) by (simp add: read_result_def tent_def)
  have "\<not> 4194304 \<le> int r" using r(2) by simp
  then have "testfs_allocate_block p (int n) block s = Inr (- ENOSPC, zero, s3)"
    using rb r(1) root table by (simp add: testfs_allocate_block_def allocate_dindirect_def Let_def)
  moreover have "bused s3 = bused s" using s3(2) s2(5) a1(2,5) by simp
  ultimately show ?thesis
    using s3(3) a1(2,3) by (intro exI [of _ b] exI [of _ s3] exI [of _ "?x\<lparr>block_count := block_count ?x - 1\<rparr>"]) simp
qed

theorem dindirect_enospc_dangles_witness:
  "\<exists>p k s b s' x'. opened s p k empty_file True
    \<and> testfs_allocate_block p 2058 zero s = Inr (- ENOSPC, zero, s')
    \<and> opened s' p k x' True \<and> i_dindirect x' = int b \<and> 146 \<le> b \<and> bused s' = {}"
proof -
  obtain p k s where s: "opened s p k empty_file True" "bused s = {}" "max_fs_blocks (sb s) = 1"
    by (rule file_on_blank [of 1]) simp_all
  from dindirect_enospc_dangles [OF s(1), of 2058 zero] s(2,3) obtain b s' x' where
    "testfs_allocate_block p 2058 zero s = Inr (- ENOSPC, zero, s')"
    "opened s' p k x' True" "i_dindirect x' = int b" "146 \<le> b" "bused s' = {}"
    by auto
  with s(1) show ?thesis by blast
qed

end
