(* ===== verification/Truncate.thy ===== *)
theory Truncate
  imports FileOps
begin

text \<open>
  \<open>testfs_free_blocks\<close> and \<open>testfs_remove_inode\<close>: on a file whose blocks all lie below its size,
  truncation gives back every block the file owns, tables included, and removal also gives back the
  inode number.  The loops are verified against the set of slots released so far.
\<close>

section \<open>Releasing a set of slots\<close>

definition without :: "(slot \<Rightarrow> int) \<Rightarrow> slot set \<Rightarrow> slot \<Rightarrow> int" where
  "without a F sl = (if sl \<in> F then 0 else a sl)"

lemma without_insert: "without a (insert sl F) = (without a F)(sl := 0)"
  by (rule ext) (simp add: without_def)

lemma without_zero: "\<forall>sl \<in> G. a sl = 0 \<Longrightarrow> without a (F \<union> G) = without a F"
  by (rule ext) (simp add: without_def)

lemma own_without: "own (without a F) \<subseteq> own a"
  by (auto simp: own_def held_def without_def)

text \<open>
  Between two steps of a truncation: the slots in \<open>F\<close> are released, the inode is \<open>y\<close> up to its
  block count, which counts the slots that are left.
\<close>

definition ftrunc ::
  "nat \<Rightarrow> nat \<Rightarrow> fs \<Rightarrow> (slot \<Rightarrow> int) \<Rightarrow> slot set \<Rightarrow> dinode \<Rightarrow> bool \<Rightarrow> fs \<Rightarrow> bool" where
  "ftrunc p k s a F y d s1 \<longleftrightarrow> opened s1 p k (y\<lparr>block_count := int (card (held (without a F)))\<rparr>) d
     \<and> amap_ok s1 (without a F) \<and> bused s1 = bused s - (own a - own (without a F))
     \<and> kframe p k (own a - own (without a F)) s s1"

lemma ftrunc_start:
  assumes "opened s p k x d" "file_ok s x"
  shows "ftrunc p k s (addr (dev s) x) {} x d s"
proof -
  have "without (addr (dev s) x) {} = addr (dev s) x" by (rule ext) (simp add: without_def)
  moreover have "x\<lparr>block_count := int (card (held (addr (dev s) x)))\<rparr> = x"
    using ok_count [OF assms(2)] by simp
  ultimately show ?thesis using assms ok_amap [OF assms(2)] by (simp add: ftrunc_def)
qed

lemma ftrunc_skip: "ftrunc p k s a F y d s1 \<Longrightarrow> \<forall>sl \<in> G. a sl = 0 \<Longrightarrow> ftrunc p k s a (F \<union> G) y d s1"
  by (simp add: ftrunc_def without_zero)

lemma ftrunc_skip1: "ftrunc p k s a F y d s1 \<Longrightarrow> a sl = 0 \<Longrightarrow> ftrunc p k s a (insert sl F) y d s1"
  using ftrunc_skip [of p k s a F y d s1 "{sl}"] by simp

lemma ftrunc_opened: "ftrunc p k s a F y d s1 \<Longrightarrow>
    opened s1 p k (y\<lparr>block_count := int (card (held (without a F)))\<rparr>) d"
  by (simp add: ftrunc_def)

lemma ftrunc_count:
  assumes "ftrunc p k s a F y d s1" "-10 \<le> c" "c \<le> 10"
  shows "is_s32 (int (card (held (without a F))) + c)"
proof -
  from assms(1) have o: "super_inv s1" and a: "amap_ok s1 (without a F)"
    using opened_super by (auto simp: ftrunc_def)
  have "card (own (without a F)) \<le> card (bused s1)"
    using a by (intro card_mono) (simp_all add: amap_ok_def)
  then show ?thesis using amap_card [OF a] card_bused [OF o] assms(2,3) by simp
qed

lemma release:
  assumes f: "ftrunc p k s a F y d s1" and a: "amap_ok s a" and sl: "sl \<notin> F"
  obtains s2 where "testfs_free_block_from_inode p (a sl) s1 = Inr s2"
    "ftrunc p k s a (insert sl F) y (d \<or> 0 < a sl) s2"
proof (cases "a sl = 0")
  case True
  then show thesis
    using that [of s1] ftrunc_skip1 [OF f True] by (simp add: testfs_free_block_from_inode_def)
next
  case False
  then have p: "0 < a sl" using amap_nonneg [OF a, of sl] by simp
  define b where "b = nat (a sl)"
  have b: "a sl = int b" using p by (simp add: b_def)
  let ?w = "without a F"
  have w: "0 < ?w sl" "nat (?w sl) = b" using p sl by (simp_all add: without_def b_def)
  from f have o: "opened s1 p k (y\<lparr>block_count := int (card (held ?w))\<rparr>) d" and am: "amap_ok s1 ?w"
    and u: "bused s1 = bused s - (own a - own ?w)" and kf: "kframe p k (own a - own ?w) s s1"
    by (simp_all add: ftrunc_def)
  have bu: "b \<in> bused s1" using amap_used [OF am w(1)] w(2) by simp
  have c: "is_s32 (block_count (y\<lparr>block_count := int (card (held ?w))\<rparr>) - 1)"
    using ftrunc_count [OF f, of "-1"] by simp
  from free_from_inode [OF o bu c] obtain s2 where
    s2: "testfs_free_block_from_inode p (int b) s1 = Inr s2" "bused s2 = bused s1 - {b}"
      "opened s2 p k (y\<lparr>block_count := int (card (held ?w)) - 1\<rparr>) True" "kframe p k {b} s1 s2" by auto
  note r = amap_remove [OF am w(1), of s2, unfolded w(2), OF s2(2)]
  have bo: "b \<in> own ?w" "b \<in> own a"
    using own_slot [of ?w sl] w own_without by auto
  then have "own a - own (?w(sl := 0)) = (own a - own ?w) \<union> {b}" unfolding r(3) by blast
  moreover from this have "bused s2 = bused s - (own a - own (?w(sl := 0)))" using s2(2) u by auto
  moreover have "int (card (held ?w)) - 1 = int (card (held (?w(sl := 0))))" using r(4) by linarith
  ultimately have "ftrunc p k s a (insert sl F) y True s2"
    unfolding ftrunc_def without_insert using r(1) s2(3) kframe_trans [OF kf s2(4)] by simp
  with that s2(1) b p show thesis by simp
qed

text \<open>The pointers of the inode are cleared one by one, after the block they name is released.\<close>

lemma set_pointer:
  assumes f: "ftrunc p k s a F y True s1"
    and g: "\<And>c. g (y\<lparr>block_count := c\<rparr>) = y'\<lparr>block_count := c\<rparr>" and v: "\<And>x. dinode_valid x \<Longrightarrow> dinode_valid (g x)"
  obtains s2 where "upd_inode p (\<lambda>i. i\<lparr>din := g (din i)\<rparr>) s1 = Inr s2" "ftrunc p k s a F y' True s2"
proof -
  note o = ftrunc_opened [OF f]
  from upd_clean [OF o, where g = g, OF v [OF opened_valid [OF o]]] obtain s2 where
    s2: "upd_inode p (\<lambda>i. i\<lparr>din := g (din i)\<rparr>) s1 = Inr s2"
      "opened s2 p k (y'\<lparr>block_count := int (card (held (without a F)))\<rparr>) True"
      "kframe p k {} s1 s2" "bused s2 = bused s1" unfolding g by blast
  have "ftrunc p k s a F y' True s2"
    using f s2(2,4) kframe_trans [OF _ s2(3)] amap_same [OF _ s2(4)] by (fastforce simp: ftrunc_def)
  with that s2(1) show thesis by blast
qed

text \<open>A table that has not been released yet is intact.\<close>

lemma table_intact:
  assumes f: "ftrunc p k s a F y d s1" and a: "amap_ok s a" and sl: "sl \<notin> F" "0 < a sl"
    and r: "readable (dev s) (nat (a sl))"
  shows "read_blocks (a sl) 1 s1 = Inr (dblk (dev s) (nat (a sl)))"
proof -
  have "0 < without a F sl" "nat (without a F sl) = nat (a sl)" using sl by (simp_all add: without_def)
  then have "nat (a sl) \<in> own (without a F)" using own_slot [of "without a F" sl] by simp
  moreover from f have kf: "kframe p k (own a - own (without a F)) s s1" by (simp add: ftrunc_def)
  moreover have "146 \<le> nat (a sl)" using amap_used [OF a sl(2)] bused_ge by blast
  ultimately have "dblk (dev s1) (nat (a sl)) = dblk (dev s) (nat (a sl))"
    by (intro kframe_dblk [OF kf]) auto
  moreover have "readable (dev s1) (nat (a sl))" by (rule kframe_readable [OF kf r])
  ultimately show ?thesis using read_block [of s1 "nat (a sl)"] sl(2) by simp
qed

section \<open>The loops\<close>

lemma zero_tail:
  assumes "length l = (10 :: nat)" "i \<le> 10" "\<And>j. i \<le> j \<Longrightarrow> j < 10 \<Longrightarrow> l ! j = (0 :: int)"
  shows "replicate i 0 @ drop i l = replicate 10 0"
  by (rule nth_equalityI) (use assms in \<open>auto simp: nth_append\<close>)

lemma free_direct_spec:
  assumes a: "amap_ok s a" and l: "length (i_block_nr x) = 10" "\<And>n. n < 10 \<Longrightarrow> i_block_nr x ! n = a (Data n)"
    and z: "\<And>n. n < 10 \<Longrightarrow> e \<le> int n \<Longrightarrow> a (Data n) = 0"
  shows "i \<le> 10 \<Longrightarrow> ftrunc p k s a (Data ` {..<i}) (x\<lparr>i_block_nr := replicate i 0 @ drop i (i_block_nr x)\<rparr>) d s1
    \<Longrightarrow> \<exists>s2 d2. free_direct p (int i) e s1 = Inr s2
      \<and> ftrunc p k s a (Data ` {..<10}) (x\<lparr>i_block_nr := replicate 10 0\<rparr>) d2 s2"
proof (induction "10 - i" arbitrary: i s1 d)
  case 0
  then have "i = 10" by simp
  with 0 l(1) show ?case by (subst free_direct.simps) auto
next
  case (Suc m)
  let ?y = "\<lambda>i. x\<lparr>i_block_nr := replicate i 0 @ drop i (i_block_nr x)\<rparr>"
  have i: "i < 10" using Suc(2) by simp
  show ?case
  proof (cases "int i < e")
    case False
    have "Data ` {..<10} = Data ` {..<i} \<union> Data ` {i..<10}"
      using i unfolding image_Un [symmetric] by (intro arg_cong [where f = "(`) Data"]) auto
    moreover have "\<forall>sl \<in> Data ` {i..<10}. a sl = 0" using z False by auto
    moreover have "?y i = x\<lparr>i_block_nr := replicate 10 0\<rparr>"
      using zero_tail [OF l(1)] l(2) z i False by simp
    ultimately show ?thesis
      using ftrunc_skip [OF Suc(4), of "Data ` {i..<10}"] False by (subst free_direct.simps) auto
  next
    case True
    from opened_deref [OF ftrunc_opened [OF Suc(4)]] obtain n where
      n: "deref p s1 = Inr n" "i_block_nr (din n) = i_block_nr (?y i)" by auto
    have b: "arr_get (i_block_nr (din n)) (nat (int i)) = Inr (a (Data i))"
      using n(2) l i by (simp add: nth_append)
    have sl: "Data i \<notin> Data ` {..<i}" by auto
    have ins: "insert (Data i) (Data ` {..<i}) = Data ` {..<Suc i}" by (simp add: lessThan_Suc)
    from release [OF Suc(4) a sl] obtain s2 where
      s2: "testfs_free_block_from_inode p (a (Data i)) s1 = Inr s2"
        "ftrunc p k s a (Data ` {..<Suc i}) (?y i) (d \<or> 0 < a (Data i)) s2" unfolding ins by blast
    have y: "(i_block_nr (?y i))[i := 0] = i_block_nr (?y (Suc i))"
      using l(1) i by (intro nth_equalityI) (auto simp: nth_append nth_list_update less_Suc_eq simp del: replicate.simps)
    have m: "m = 10 - Suc i" "Suc i \<le> 10" using Suc(2) by simp_all
    show ?thesis
    proof (cases "a (Data i) = 0")
      case z: True
      then have "s2 = s1" using s2(1) by (simp add: testfs_free_block_from_inode_def)
      moreover have "?y (Suc i) = ?y i"
      proof -
        have "(i_block_nr (?y i))[i := 0] = i_block_nr (?y i)"
          using z l i by (intro list_update_same_conv [THEN iffD2]) (simp_all add: nth_append)
        with y show ?thesis by simp
      qed
      ultimately obtain s3 d3 where "free_direct p (int (Suc i)) e s1 = Inr s3"
          "ftrunc p k s a (Data ` {..<10}) (x\<lparr>i_block_nr := replicate 10 0\<rparr>) d3 s3"
        using Suc(1) [OF m, of "d \<or> 0 < a (Data i)" s2] s2(2) by auto
      then show ?thesis
        using n(1) b z True i by (subst free_direct.simps) (auto simp: add.commute)
    next
      case False
      then have "0 < a (Data i)" using amap_nonneg [OF a, of "Data i"] by simp
      with s2(2) have f: "ftrunc p k s a (Data ` {..<Suc i}) (?y i) True s2" by simp
      have "dinode_valid (x\<lparr>i_block_nr := (i_block_nr x)[i := 0]\<rparr>)" if "dinode_valid x" for x
        by (rule valid_set_direct [OF that]) simp
      from set_pointer [OF f, of "\<lambda>x. x\<lparr>i_block_nr := (i_block_nr x)[i := 0]\<rparr>" "?y (Suc i)", OF _ this]
      obtain s3 where s3: "upd_inode p (\<lambda>n. n\<lparr>din := (din n)\<lparr>i_block_nr := (i_block_nr (din n))[i := 0]\<rparr>\<rparr>) s2 = Inr s3"
          "ftrunc p k s a (Data ` {..<Suc i}) (?y (Suc i)) True s3" using y by auto
      from Suc(1) [OF m s3(2)] obtain s4 d4 where "free_direct p (int (Suc i)) e s3 = Inr s4"
          "ftrunc p k s a (Data ` {..<10}) (x\<lparr>i_block_nr := replicate 10 0\<rparr>) d4 s4" by blast
      then show ?thesis
        using n(1) b False True i s2(1) s3(1) by (subst free_direct.simps) (auto simp: add.commute)
    qed
  qed
qed

text \<open>A table of data blocks: its entries are the slots \<open>f j\<close>.\<close>

lemma free_table_spec:
  assumes a: "amap_ok s a" and len: "length block = BLOCK_SIZE"
    and b: "\<And>j. j < 2048 \<Longrightarrow> entry block j = a (f j)" and f: "inj f" "\<And>j. f j \<notin> F"
    and z: "\<And>j. j < 2048 \<Longrightarrow> e \<le> int j \<Longrightarrow> a (f j) = 0"
  shows "i \<le> 2048 \<Longrightarrow> ftrunc p k s a (F \<union> f ` {..<i}) y d s1
    \<Longrightarrow> \<exists>s2 d2. free_table p block (int i) e s1 = Inr s2 \<and> ftrunc p k s a (F \<union> f ` {..<2048}) y d2 s2"
proof (induction "2048 - i" arbitrary: i s1 d)
  case 0
  then have "i = 2048" by simp
  with 0 show ?case by (subst free_table.simps) auto
next
  case (Suc m)
  have i: "i < 2048" using Suc(2) by simp
  show ?case
  proof (cases "int i < e")
    case False
    have "{..<2048} = {..<i} \<union> {i..<2048}" using i by auto
    then have "F \<union> f ` {..<2048} = (F \<union> f ` {..<i}) \<union> f ` {i..<2048}" by (metis image_Un sup_assoc)
    moreover have "\<forall>sl \<in> f ` {i..<2048}. a sl = 0" using z False by auto
    ultimately show ?thesis
      using ftrunc_skip [OF Suc(4), of "f ` {i..<2048}"] False by (subst free_table.simps) auto
  next
    case True
    have g: "int_get block (int i) = Inr (a (f i))"
      using int_get_entry [of i block] b [OF i] entry_fits [OF i] len by simp
    have sl: "f i \<notin> F \<union> f ` {..<i}" using f(2) injD [OF f(1)] by auto
    have ins: "insert (f i) (F \<union> f ` {..<i}) = F \<union> f ` {..<Suc i}" by (simp add: lessThan_Suc)
    from release [OF Suc(4) a sl] obtain s2 where
      s2: "testfs_free_block_from_inode p (a (f i)) s1 = Inr s2"
        "ftrunc p k s a (F \<union> f ` {..<Suc i}) y (d \<or> 0 < a (f i)) s2" unfolding ins by blast
    have "m = 2048 - Suc i" "Suc i \<le> 2048" using Suc(2) by simp_all
    from Suc(1) [OF this s2(2)] obtain s3 d3 where "free_table p block (int (Suc i)) e s2 = Inr s3"
        "ftrunc p k s a (F \<union> f ` {..<2048}) y d3 s3" by blast
    then show ?thesis using g s2(1) True i by (subst free_table.simps) (auto simp: add.commute)
  qed
qed

text \<open>The same loop inside the double-indirect one; it also counts, from \<open>c\<close>.\<close>

lemma free_dtable_spec:
  assumes a: "amap_ok s a" and len: "length block = BLOCK_SIZE"
    and b: "\<And>j. j < 2048 \<Longrightarrow> entry block j = a (f j)" and f: "inj f" "\<And>j. f j \<notin> F"
    and z: "\<And>j. j < 2048 \<Longrightarrow> e \<le> c + int j \<Longrightarrow> a (f j) = 0"
  shows "i \<le> 2048 \<Longrightarrow> ftrunc p k s a (F \<union> f ` {..<i}) y d s1
    \<Longrightarrow> \<exists>s2 d2 c'. free_dtable p block (int i) (c + int i) e s1 = Inr (c', s2)
      \<and> ftrunc p k s a (F \<union> f ` {..<2048}) y d2 s2 \<and> (c' = c + 2048 \<or> e \<le> c' \<and> e \<le> c + 2048)"
proof (induction "2048 - i" arbitrary: i s1 d)
  case 0
  then have "i = 2048" by simp
  with 0 show ?case by (subst free_dtable.simps) auto
next
  case (Suc m)
  have i: "i < 2048" using Suc(2) by simp
  show ?case
  proof (cases "c + int i < e")
    case False
    have "{..<2048} = {..<i} \<union> {i..<2048}" using i by auto
    then have "F \<union> f ` {..<2048} = (F \<union> f ` {..<i}) \<union> f ` {i..<2048}" by (metis image_Un sup_assoc)
    moreover have "\<forall>sl \<in> f ` {i..<2048}. a sl = 0" using z False by auto
    ultimately show ?thesis
      using ftrunc_skip [OF Suc(4), of "f ` {i..<2048}"] False i by (subst free_dtable.simps) auto
  next
    case True
    have g: "int_get block (int i) = Inr (a (f i))"
      using int_get_entry [of i block] b [OF i] entry_fits [OF i] len by simp
    have sl: "f i \<notin> F \<union> f ` {..<i}" using f(2) injD [OF f(1)] by auto
    have ins: "insert (f i) (F \<union> f ` {..<i}) = F \<union> f ` {..<Suc i}" by (simp add: lessThan_Suc)
    from release [OF Suc(4) a sl] obtain s2 where
      s2: "testfs_free_block_from_inode p (a (f i)) s1 = Inr s2"
        "ftrunc p k s a (F \<union> f ` {..<Suc i}) y (d \<or> 0 < a (f i)) s2" unfolding ins by blast
    have "m = 2048 - Suc i" "Suc i \<le> 2048" using Suc(2) by simp_all
    from Suc(1) [OF this s2(2)] obtain s3 d3 c' where
      "free_dtable p block (int i + 1) (c + int i + 1) e s2 = Inr (c', s3)"
      "ftrunc p k s a (F \<union> f ` {..<2048}) y d3 s3" "c' = c + 2048 \<or> e \<le> c' \<and> e \<le> c + 2048"
      by (auto simp: ac_simps)
    then show ?thesis using g s2(1) True i by (subst free_dtable.simps) auto
  qed
qed

text \<open>The slots released after \<open>i\<close> tables of the double-indirect block.\<close>

definition released :: "nat \<Rightarrow> slot set" where
  "released i = insert Ind (Data ` {..<2058 + 2048 * i}) \<union> Tab ` {..<i}"

lemma released_step:
  "released i \<union> (\<lambda>j. Data (2058 + 2048 * i + j)) ` {..<2048} = released (Suc i) - {Tab i}"
  "insert (Tab i) (released i \<union> (\<lambda>j. Data (2058 + 2048 * i + j)) ` {..<2048}) = released (Suc i)"
proof -
  have "{..<2058 + 2048 * Suc i} = {..<2058 + 2048 * i} \<union> (\<lambda>j. 2058 + 2048 * i + j) ` {..<2048}"
  proof (intro set_eqI iffI)
    fix n assume "n \<in> {..<2058 + 2048 * Suc i}"
    then show "n \<in> {..<2058 + 2048 * i} \<union> (\<lambda>j. 2058 + 2048 * i + j) ` {..<2048}"
      by (cases "n < 2058 + 2048 * i") (auto intro: image_eqI [of _ _ "n - (2058 + 2048 * i)"])
  qed auto
  then have "Data ` {..<2058 + 2048 * Suc i}
      = Data ` {..<2058 + 2048 * i} \<union> (\<lambda>j. Data (2058 + 2048 * i + j)) ` {..<2048}"
    by (simp only: image_Un image_image)
  moreover have "{..<Suc i} = insert i {..<i}" by (rule lessThan_Suc)
  ultimately show "released i \<union> (\<lambda>j. Data (2058 + 2048 * i + j)) ` {..<2048} = released (Suc i) - {Tab i}"
    "insert (Tab i) (released i \<union> (\<lambda>j. Data (2058 + 2048 * i + j)) ` {..<2048}) = released (Suc i)"
    unfolding released_def by auto
qed

lemma data_below_missing_table:
  assumes "i < 2048" "addr d x (Tab i) = 0" "j < 2048"
  shows "addr d x (Data (2058 + 2048 * i + j)) = 0"
  using assms dindex [OF assms(1,3)] by (simp add: tent_def)

lemma free_dindirect_spec:
  assumes ok: "file_ok s x" and dd: "0 < i_dindirect x" and e: "e \<le> 2048 * 2048"
    and z: "\<And>n. 2058 + e \<le> int n \<Longrightarrow> addr (dev s) x (Data n) = 0"
      "\<And>q. q < 2048 \<Longrightarrow> e \<le> 2048 * int q \<Longrightarrow> addr (dev s) x (Tab q) = 0"
  shows "i \<le> 2048 \<Longrightarrow> ftrunc p k s (addr (dev s) x) (released i) y d s1
    \<Longrightarrow> c = 2048 * int i \<or> e \<le> c \<and> e \<le> 2048 * int i
    \<Longrightarrow> \<exists>s2 d2. free_dindirect p (dblk (dev s) (nat (i_dindirect x))) (int i) c e s1 = Inr s2
      \<and> ftrunc p k s (addr (dev s) x) (released 2048) y d2 s2"
proof (induction "2048 - i" arbitrary: i s1 d c)
  case 0
  then have "i = 2048" by simp
  with 0 show ?case by (subst free_dindirect.simps) auto
next
  case (Suc m)
  let ?a = "addr (dev s) x" and ?f = "\<lambda>j. Data (2058 + 2048 * i + j)"
  note am = ok_amap [OF ok]
  have i: "i < 2048" using Suc(2) by simp
  have m: "m = 2048 - Suc i" "Suc i \<le> 2048" using Suc(2) by simp_all
  show ?case
  proof (cases "c < e")
    case False
    have le: "e \<le> 2048 * int i" using False Suc(5) by linarith
    have "\<forall>sl \<in> released 2048 - released i. ?a sl = 0"
    proof
      fix sl assume sl: "sl \<in> released 2048 - released i"
      show "?a sl = 0"
      proof (cases sl)
        case (Data n)
        with sl have "2058 + 2048 * i \<le> n" by (cases "2058 + 2048 * i \<le> n") (auto simp: released_def)
        with Data show ?thesis using z(1) [of n] le by simp
      next
        case (Tab q)
        with sl have "i \<le> q" "q < 2048" by (cases "i \<le> q"; auto simp: released_def)+
        with Tab show ?thesis using z(2) [of q] le by simp
      qed (use sl in \<open>auto simp: released_def\<close>)
    qed
    moreover have "released i \<union> (released 2048 - released i) = released 2048"
    proof -
      have "{..<2058 + 2048 * i} \<subseteq> {..<2058 + 2048 * 2048}" "{..<i} \<subseteq> {..<2048}" using i by auto
      then have "released i \<subseteq> released 2048" unfolding released_def by (intro Un_mono insert_mono image_mono)
      then show ?thesis by blast
    qed
    ultimately have "ftrunc p k s ?a (released 2048) y d s1"
      using ftrunc_skip [OF Suc(4), of "released 2048 - released i"] by simp
    with False show ?thesis by (subst free_dindirect.simps) auto
  next
    case True
    then have c: "c = 2048 * int i" using Suc(5) by linarith
    have g: "int_get (dblk (dev s) (nat (i_dindirect x))) (int i) = Inr (?a (Tab i))"
      using int_get_dblk [OF i] i dd by (simp add: tent_def)
    show ?thesis
    proof (cases "?a (Tab i) = 0")
      case t: True
      have "\<forall>sl \<in> insert (Tab i) (?f ` {..<2048}). ?a sl = 0"
        using t data_below_missing_table [OF i t] by auto
      from ftrunc_skip [OF Suc(4) this] released_step(2) [of i]
      have f: "ftrunc p k s ?a (released (Suc i)) y d s1" by (simp add: Un_insert_right)
      from Suc(1) [OF m f, of "c + 2048"] c obtain s2 d2 where
        "free_dindirect p (dblk (dev s) (nat (i_dindirect x))) (int i + 1) (c + 2048) e s1 = Inr s2"
        "ftrunc p k s ?a (released 2048) y d2 s2" by (auto simp: add.commute)
      then show ?thesis using g t True i by (subst free_dindirect.simps) auto
    next
      case t: False
      then have pos: "0 < ?a (Tab i)" using amap_nonneg [OF am, of "Tab i"] by simp
      have sl: "Tab i \<notin> released i" by (auto simp: released_def)
      have "readable (dev s) (nat (?a (Tab i)))" by (rule ok_read [OF ok pos]) simp
      note rd = table_intact [OF Suc(4) am sl pos this]
      have ent: "entry (dblk (dev s) (nat (?a (Tab i)))) j = ?a (?f j)" if "j < 2048" for j
        using dindex [OF i that] i pos by (simp add: tent_def)
      have len: "length (dblk (dev s) (nat (?a (Tab i)))) = BLOCK_SIZE" by simp
      have inj: "inj ?f" by (rule injI) simp
      have new: "?f j \<notin> released i" for j by (auto simp: released_def)
      have zz: "?a (?f j) = 0" if "e \<le> c + int j" for j using z(1) [of "2058 + 2048 * i + j"] that c by simp
      have f0: "ftrunc p k s ?a (released i \<union> ?f ` {..<0}) y d s1" using Suc(4) by simp
      from free_dtable_spec [where e = e and c = c, OF am len ent inj new zz _ f0] obtain s2 d2 c' where
        s2: "free_dtable p (dblk (dev s) (nat (?a (Tab i)))) 0 c e s1 = Inr (c', s2)"
          "ftrunc p k s ?a (released i \<union> ?f ` {..<2048}) y d2 s2" "c' = c + 2048 \<or> e \<le> c' \<and> e \<le> c + 2048"
        by auto
      have sl2: "Tab i \<notin> released i \<union> ?f ` {..<2048}" using sl by auto
      from release [OF s2(2) am sl2] obtain s3 d3 where
        s3: "testfs_free_block_from_inode p (?a (Tab i)) s2 = Inr s3"
          "ftrunc p k s ?a (released (Suc i)) y d3 s3" unfolding released_step(2) by blast
      have "c' = 2048 * int (Suc i) \<or> e \<le> c' \<and> e \<le> 2048 * int (Suc i)" using s2(3) c by auto
      from Suc(1) [OF m s3(2) this] obtain s4 d4 where
        "free_dindirect p (dblk (dev s) (nat (i_dindirect x))) (int i + 1) c' e s3 = Inr s4"
        "ftrunc p k s ?a (released 2048) y d4 s4" by (auto simp: add.commute)
      then show ?thesis using g pos rd s2(1) s3(1) True i
        by (subst free_dindirect.simps) (auto simp del: addr.simps One_nat_def)
    qed
  qed
qed

section \<open>The whole of testfs_free_blocks\<close>

text \<open>
  \<open>within x a\<close>: every block the file holds lies below its size, and a file that reaches past the
  indirect range has a double-indirect table.
\<close>

definition file_blocks :: "dinode \<Rightarrow> nat" where
  "file_blocks x = nat ((i_size x + int BLOCK_SIZE - 1) div int BLOCK_SIZE)"

fun first_block :: "slot \<Rightarrow> nat" where
  "first_block (Data n) = n"
| "first_block (Tab q) = 2058 + 2048 * q"
| "first_block Dind = 2057"
| "first_block Ind = 0"

definition within :: "dinode \<Rightarrow> (slot \<Rightarrow> int) \<Rightarrow> bool" where
  "within x a \<longleftrightarrow> file_blocks x \<le> MAX_BLOCKS \<and> (\<forall>sl. sl \<noteq> Ind \<and> 0 < a sl \<longrightarrow> first_block sl < file_blocks x)
     \<and> (2058 < file_blocks x \<longrightarrow> 0 < a Dind)"

lemma within_zero:
  assumes "within x a" "amap_ok s a" "sl \<noteq> Ind" "file_blocks x \<le> first_block sl"
  shows "a sl = 0"
proof (rule ccontr)
  assume "a sl \<noteq> 0"
  then have "0 < a sl" using amap_nonneg [OF assms(2), of sl] by simp
  with assms(1,3,4) show False by (auto simp: within_def)
qed

lemma s32_small: "0 \<le> m \<Longrightarrow> m \<le> 4196362 \<Longrightarrow> s32 m = m"
  by (simp add: s32_id)

lemma file_blocks_eq:
  assumes "0 \<le> i_size x" "file_blocks x \<le> MAX_BLOCKS"
  shows "s32 ((i_size x + int BLOCK_SIZE - 1) sdiv int BLOCK_SIZE) = int (file_blocks x)"
proof -
  have nn: "0 \<le> i_size x + int BLOCK_SIZE - 1" using assms(1) by (simp add: BLOCK_SIZE_def)
  define m where "m = nat (i_size x + int BLOCK_SIZE - 1)"
  have m: "i_size x + int BLOCK_SIZE - 1 = int m" using nn by (simp add: m_def)
  have fb: "file_blocks x = m div BLOCK_SIZE" by (simp add: file_blocks_def m flip: zdiv_int)
  then have "int (m div BLOCK_SIZE) \<le> 4196362" using assms(2) by linarith
  then have "s32 (int (m div BLOCK_SIZE)) = int (m div BLOCK_SIZE)" by (rule s32_small [OF of_nat_0_le_iff])
  then show ?thesis unfolding m sdiv_block fb .
qed

text \<open>The part for the indirect table.\<close>

lemma data_10: "insert Ind (Data ` {..<10} \<union> (\<lambda>j. Data (10 + j)) ` {..<2048}) = released 0"
proof -
  have "{..<2058} = {..<10} \<union> (\<lambda>j. 10 + j) ` {..<2048 :: nat}"
  proof (intro set_eqI iffI)
    fix n :: nat assume "n \<in> {..<2058}"
    then show "n \<in> {..<10} \<union> (\<lambda>j. 10 + j) ` {..<2048}"
      by (cases "n < 10") (auto intro: image_eqI [of _ _ "n - 10"])
  qed auto
  then have "Data ` {..<2058} = Data ` {..<10} \<union> (\<lambda>j. Data (10 + j)) ` {..<2048}"
    by (simp only: image_Un image_image)
  then show ?thesis by (simp add: released_def)
qed

definition free_indirect_part :: "nat \<Rightarrow> int \<Rightarrow> int \<Rightarrow> fs \<Rightarrow> fs result" where
  "free_indirect_part p t e s1 =
     (if t > 0 then
        bindr (read_blocks t 1 s1) (\<lambda>block.
        bindr (free_table p block 0 e s1) (\<lambda>s2.
        bindr (testfs_free_block_from_inode p t s2) (\<lambda>s3.
        upd_inode p (\<lambda>i. i\<lparr>din := (din i)\<lparr>i_indirect := 0\<rparr>\<rparr>) s3)))
      else Inr s1)"

lemma free_indirect_spec:
  assumes ok: "file_ok s x" and z: "\<And>n. 10 + e \<le> int n \<Longrightarrow> n < 2058 \<Longrightarrow> addr (dev s) x (Data n) = 0"
    and f: "ftrunc p k s (addr (dev s) x) (Data ` {..<10}) y d s1" and y: "i_indirect y = i_indirect x"
  shows "\<exists>s2 d2. free_indirect_part p (i_indirect x) e s1 = Inr s2
    \<and> ftrunc p k s (addr (dev s) x) (released 0) (y\<lparr>i_indirect := 0\<rparr>) d2 s2"
proof (cases "0 < i_indirect x")
  case False
  then have i0: "i_indirect x = 0" using amap_nonneg [OF ok_amap [OF ok], of Ind] by simp
  have "\<forall>sl \<in> insert Ind ((\<lambda>j. Data (10 + j)) ` {..<2048}). addr (dev s) x sl = 0"
    using i0 by (auto simp: tent_def)
  from ftrunc_skip [OF f this] have "ftrunc p k s (addr (dev s) x) (released 0) y d s1"
    using data_10 by (simp add: Un_insert_right del: addr.simps)
  moreover have "y\<lparr>i_indirect := 0\<rparr> = y" using i0 y by simp
  ultimately show ?thesis using False by (auto simp: free_indirect_part_def)
next
  case True
  let ?a = "addr (dev s) x" and ?f = "\<lambda>j. Data (10 + j)"
  note am = ok_amap [OF ok]
  have pos: "0 < ?a Ind" using True by simp
  have sl: "Ind \<notin> Data ` {..<10}" by auto
  have "readable (dev s) (nat (?a Ind))" by (rule ok_read [OF ok pos]) simp
  note rd = table_intact [OF f am sl pos this]
  have ent: "entry (dblk (dev s) (nat (?a Ind))) j = ?a (?f j)" if "j < 2048" for j
    using that True by (simp add: tent_def)
  have len: "length (dblk (dev s) (nat (?a Ind))) = BLOCK_SIZE" by simp
  have inj: "inj ?f" by (rule injI) simp
  have new: "?f j \<notin> Data ` {..<10}" for j by auto
  have zz: "?a (?f j) = 0" if "j < 2048" "e \<le> int j" for j using z [of "10 + j"] that by simp
  have f0: "ftrunc p k s ?a (Data ` {..<10} \<union> ?f ` {..<0}) y d s1" using f by simp
  from free_table_spec [where e = e, OF am len ent inj new zz _ f0] obtain s2 d2 where
    s2: "free_table p (dblk (dev s) (nat (?a Ind))) 0 e s1 = Inr s2"
      "ftrunc p k s ?a (Data ` {..<10} \<union> ?f ` {..<2048}) y d2 s2" by auto
  have sl2: "Ind \<notin> Data ` {..<10} \<union> ?f ` {..<2048}" by auto
  from release [OF s2(2) am sl2] pos obtain s3 where
    s3: "testfs_free_block_from_inode p (?a Ind) s2 = Inr s3"
      "ftrunc p k s ?a (released 0) y True s3" unfolding data_10 by auto
  have "dinode_valid (w\<lparr>i_indirect := 0\<rparr>)" if "dinode_valid w" for w
    using valid_fields(1) [OF that, of 0] by simp
  from set_pointer [OF s3(2), of "\<lambda>w. w\<lparr>i_indirect := 0\<rparr>" "y\<lparr>i_indirect := 0\<rparr>", OF _ this]
  obtain s4 where "upd_inode p (\<lambda>i. i\<lparr>din := (din i)\<lparr>i_indirect := 0\<rparr>\<rparr>) s3 = Inr s4"
      "ftrunc p k s ?a (released 0) (y\<lparr>i_indirect := 0\<rparr>) True s4" by auto
  then show ?thesis using True rd s2(1) s3(1) by (auto simp: free_indirect_part_def simp del: One_nat_def)
qed

text \<open>The part for the double-indirect table.\<close>

definition free_dindirect_part :: "nat \<Rightarrow> int \<Rightarrow> int \<Rightarrow> fs \<Rightarrow> fs result" where
  "free_dindirect_part p t e s1 =
     (if e \<ge> 0 then
        bindr (read_blocks t 1 s1) (\<lambda>block.
        bindr (free_dindirect p block 0 0 e s1) (\<lambda>s2.
        bindr (testfs_free_block_from_inode p t s2) (\<lambda>s3.
        upd_inode p (\<lambda>i. i\<lparr>din := (din i)\<lparr>i_dindirect := 0\<rparr>\<rparr>) s3)))
      else Inr s1)"

lemma upd_nothing:
  assumes "opened s p k x d" "g x = x"
  shows "upd_inode p (\<lambda>i. i\<lparr>din := g (din i)\<rparr>) s = Inr s"
  using assms by (auto simp: opened_def upd_inode_def fun_upd_idem)

definition all_slots :: "slot set" where
  "all_slots = insert Dind (released 2048)"

lemma outside_slots: "sl \<notin> all_slots \<Longrightarrow> addr d x sl = 0"
  by (cases sl) (auto simp: all_slots_def released_def image_iff)

lemma free_dindirect_part_spec:
  assumes ok: "file_ok s x" and w: "within x (addr (dev s) x)"
    and f: "ftrunc p k s (addr (dev s) x) (released 0) y d s1" and y: "i_dindirect y = i_dindirect x"
    and r0: "readable (dev s1) 0"
  shows "\<exists>s2 d2. free_dindirect_part p (i_dindirect x) (int (file_blocks x) - 2058) s1 = Inr s2
    \<and> ftrunc p k s (addr (dev s) x) all_slots (y\<lparr>i_dindirect := 0\<rparr>) d2 s2"
proof -
  let ?a = "addr (dev s) x" and ?e = "int (file_blocks x) - 2058"
  note am = ok_amap [OF ok]
  show ?thesis
  proof (cases "0 < i_dindirect x")
    case False
    then have d0: "i_dindirect x = 0" using amap_nonneg [OF am, of Dind] by simp
    have e: "?e \<le> 0" using w d0 by (auto simp: within_def)
    have "\<forall>sl \<in> insert Dind (released 2048 - released 0). ?a sl = 0"
    proof
      fix sl assume "sl \<in> insert Dind (released 2048 - released 0)"
      then show "?a sl = 0" by (cases sl) (use d0 in \<open>auto simp: released_def tent_def\<close>)
    qed
    moreover have "released 0 \<union> insert Dind (released 2048 - released 0) = all_slots"
    proof -
      have "{..<2058 :: nat} \<subseteq> {..<2058 + 2048 * 2048}" by auto
      then have "released 0 \<subseteq> released 2048" by (auto simp: released_def)
      then show ?thesis unfolding all_slots_def by blast
    qed
    ultimately have g: "ftrunc p k s ?a all_slots y d s1"
      using ftrunc_skip [OF f, of "insert Dind (released 2048 - released 0)"] by simp
    have yy: "y\<lparr>i_dindirect := 0\<rparr> = y" using d0 y by simp
    have "free_dindirect_part p (i_dindirect x) ?e s1 = Inr s1"
    proof (cases "0 \<le> ?e")
      case True
      have "upd_inode p (\<lambda>i. i\<lparr>din := (din i)\<lparr>i_dindirect := 0\<rparr>\<rparr>) s1 = Inr s1"
        using upd_nothing [OF ftrunc_opened [OF g], of "\<lambda>w. w\<lparr>i_dindirect := 0\<rparr>"] yy d0 y by simp
      moreover have "read_blocks 0 1 s1 = Inr (dblk (dev s1) 0)" using read_block [OF r0] by simp
      moreover have "free_dindirect p b 0 0 ?e s1 = Inr s1" for b
        using e by (subst free_dindirect.simps) simp
      ultimately show ?thesis
        using True d0 by (simp add: free_dindirect_part_def testfs_free_block_from_inode_def del: One_nat_def)
    qed (simp add: free_dindirect_part_def)
    with g yy show ?thesis by auto
  next
    case True
    have pos: "0 < ?a Dind" using True by simp
    have e0: "0 \<le> ?e" using w pos by (fastforce simp: within_def)
    have e: "?e \<le> 2048 * 2048" using w by (simp add: within_def)
    have sl: "Dind \<notin> released 0" "Dind \<notin> released 2048" by (auto simp: released_def)
    have "readable (dev s) (nat (?a Dind))" by (rule ok_read [OF ok pos]) simp
    note rd = table_intact [OF f am sl(1) pos this]
    have z: "?a (Data n) = 0" if "2058 + ?e \<le> int n" for n
      by (rule within_zero [OF w am]) (use that in simp_all)
    have zt: "?a (Tab q) = 0" if "q < 2048" "?e \<le> 2048 * int q" for q
      by (rule within_zero [OF w am]) (use that in simp_all)
    from free_dindirect_spec [OF ok True e z zt _ f, of 0] obtain s2 d2 where
      s2: "free_dindirect p (dblk (dev s) (nat (?a Dind))) 0 0 ?e s1 = Inr s2"
        "ftrunc p k s ?a (released 2048) y d2 s2" by auto
    from release [OF s2(2) am sl(2)] pos obtain s3 where
      s3: "testfs_free_block_from_inode p (?a Dind) s2 = Inr s3"
        "ftrunc p k s ?a all_slots y True s3" unfolding all_slots_def by auto
    have "dinode_valid (w\<lparr>i_dindirect := 0\<rparr>)" if "dinode_valid w" for w
      using valid_fields(2) [OF that, of 0] by simp
    from set_pointer [OF s3(2), of "\<lambda>w. w\<lparr>i_dindirect := 0\<rparr>" "y\<lparr>i_dindirect := 0\<rparr>", OF _ this]
    obtain s4 where "upd_inode p (\<lambda>i. i\<lparr>din := (din i)\<lparr>i_dindirect := 0\<rparr>\<rparr>) s3 = Inr s4"
        "ftrunc p k s ?a all_slots (y\<lparr>i_dindirect := 0\<rparr>) True s4" by auto
    then show ?thesis using e0 rd s2(1) s3(1) by (auto simp: free_dindirect_part_def simp del: One_nat_def)
  qed
qed

lemma testfs_free_blocks_parts:
  "testfs_free_blocks p s =
     bindr (deref p s) (\<lambda>i.
     let e = s32 ((i_size (din i) + int BLOCK_SIZE - 1) sdiv int BLOCK_SIZE) in
     bindr (free_direct p 0 e s) (\<lambda>s1.
     bindr (deref p s1) (\<lambda>i1.
     bindr (free_indirect_part p (i_indirect (din i1)) (e - NR_DIRECT_BLOCKS) s1) (\<lambda>s4.
     bindr (deref p s4) (\<lambda>i4.
     bindr (free_dindirect_part p (i_dindirect (din i4)) (e - NR_DIRECT_BLOCKS - NR_INDIRECT_BLOCKS) s4) (\<lambda>s7.
     bindr (upd_inode p (\<lambda>i. set_dirty (i\<lparr>din := (din i)\<lparr>i_size := 0\<rparr>\<rparr>)) s7) (\<lambda>s8.
     Inr (0, s8))))))))"
  unfolding testfs_free_blocks_def free_indirect_part_def free_dindirect_part_def Let_def ..

lemma all_released: "without (addr d x) all_slots = (\<lambda>_. 0)"
  by (rule ext) (auto simp: without_def outside_slots)

lemma cleared:
  "length (i_block_nr x) = 10 \<Longrightarrow>
   x\<lparr>i_block_nr := replicate 10 0, i_indirect := 0, i_dindirect := 0, block_count := 0, i_size := 0\<rparr>
    = zero_dinode\<lparr>i_type := i_type x\<rparr>"
  by (simp add: zero_dinode_def)

lemma free_blocks_spec:
  assumes o: "opened s p k x d" and ok: "file_ok s x" and w: "within x (addr (dev s) x)"
  obtains s' where "testfs_free_blocks p s = Inr (0, s')"
    "opened s' p k (zero_dinode\<lparr>i_type := i_type x\<rparr>) True"
    "bused s' = bused s - own (addr (dev s) x)" "kframe p k (own (addr (dev s) x)) s s'"
proof -
  let ?a = "addr (dev s) x" and ?e = "int (file_blocks x)"
  note am = ok_amap [OF ok]
  have fb: "file_blocks x \<le> MAX_BLOCKS" using w by (simp add: within_def)
  from opened_deref [OF o] obtain i where i: "deref p s = Inr i" "din i = x" by blast
  note e = file_blocks_eq [OF ok_size [OF ok] fb]
  have z: "?a (Data n) = 0" if "?e \<le> int n" for n
    by (rule within_zero [OF w am]) (use that in simp_all)
  have "x\<lparr>i_block_nr := replicate 0 0 @ drop 0 (i_block_nr x)\<rparr> = x" by simp
  then have f0: "ftrunc p k s ?a (Data ` {..<0}) (x\<lparr>i_block_nr := replicate 0 0 @ drop 0 (i_block_nr x)\<rparr>) d s"
    using ftrunc_start [OF o ok] by simp
  have dir: "i_block_nr x ! n = ?a (Data n)" if "n < 10" for n using that by simp
  let ?x1 = "x\<lparr>i_block_nr := replicate 10 0\<rparr>"
  from free_direct_spec [where e = ?e, OF am ok_len [OF ok] dir z _ f0] obtain s1 d1 where
    s1: "free_direct p 0 ?e s = Inr s1" "ftrunc p k s ?a (Data ` {..<10}) ?x1 d1 s1" by auto
  from opened_deref [OF ftrunc_opened [OF s1(2)]] obtain i1 where
    i1: "deref p s1 = Inr i1" "i_indirect (din i1) = i_indirect x" by auto
  have "?a (Data n) = 0" if "10 + (?e - 10) \<le> int n" "n < 2058" for n using z that by simp
  from free_indirect_spec [where e = "?e - 10", OF ok this s1(2)] obtain s2 d2 where
    s2: "free_indirect_part p (i_indirect x) (?e - 10) s1 = Inr s2"
      "ftrunc p k s ?a (released 0) (?x1\<lparr>i_indirect := 0\<rparr>) d2 s2" by auto
  from opened_deref [OF ftrunc_opened [OF s2(2)]] obtain i2 where
    i2: "deref p s2 = Inr i2" "i_dindirect (din i2) = i_dindirect x" by auto
  have "146 * BLOCK_SIZE \<le> length (dev s2)"
    using opened_super [OF ftrunc_opened [OF s2(2)]] by (simp add: super_inv_def)
  then have "readable (dev s2) 0" by (simp add: readable_def)
  with free_dindirect_part_spec [OF ok w s2(2)] obtain s3 d3 where
    s3: "free_dindirect_part p (i_dindirect x) (?e - 2058) s2 = Inr s3"
      "ftrunc p k s ?a all_slots (?x1\<lparr>i_indirect := 0, i_dindirect := 0\<rparr>) d3 s3" by auto
  have own0: "own (without ?a all_slots) = {}" "held (without ?a all_slots) = {}"
    unfolding all_released by (simp_all add: own_def held_def)
  let ?x3 = "?x1\<lparr>i_indirect := 0, i_dindirect := 0, block_count := 0\<rparr>"
  from s3(2) own0 have o3: "opened s3 p k ?x3 d3" and u3: "bused s3 = bused s - own ?a"
    and k3: "kframe p k (own ?a) s s3" by (simp_all add: ftrunc_def)
  let ?g = "\<lambda>w :: dinode. w\<lparr>i_size := 0\<rparr>"
  have "dinode_valid (?g ?x3)" using valid_fields(3) [OF opened_valid [OF o3], of 0] by simp
  from upd_dirty [OF o3, where g = ?g, OF this] obtain s4 where
    s4: "upd_inode p (\<lambda>i. set_dirty (i\<lparr>din := ?g (din i)\<rparr>)) s3 = Inr s4" "opened s4 p k (?g ?x3) True"
      "kframe p k {} s3 s4" "bused s4 = bused s3" by blast
  have "testfs_free_blocks p s = Inr (0, s4)"
    using i e s1(1) i1 s2(1) i2 s3(1) s4(1) by (simp add: testfs_free_blocks_parts Let_def)
  moreover have "?g ?x3 = zero_dinode\<lparr>i_type := i_type x\<rparr>" using cleared [OF ok_len [OF ok]] by simp
  then have "opened s4 p k (zero_dinode\<lparr>i_type := i_type x\<rparr>) True" using s4(2) by (simp only:)
  ultimately show thesis
    using that u3 s4(4) kframe_trans [OF k3 s4(3)] by simp
qed

section \<open>Removing the inode\<close>

definition blocks_kept :: "nat set \<Rightarrow> fs \<Rightarrow> fs \<Rightarrow> bool" where
  "blocks_kept B s s' \<longleftrightarrow> (\<forall>c. readable (dev s) c \<longrightarrow> readable (dev s') c)
     \<and> (\<forall>c \<ge> 146. c \<notin> B \<longrightarrow> dblk (dev s') c = dblk (dev s) c)"

lemma remove_inode_spec:
  assumes o: "opened s p k x d" and ok: "file_ok s x" and w: "within x (addr (dev s) x)" and u: "k \<in> iused s"
  obtains s' where "testfs_remove_inode p s = Inr s'" "inode_inv s'" "iused s' = iused s - {k}"
    "bused s' = bused s - own (addr (dev s) x)" "iview s' k = zero_dinode"
    "\<And>j. j < NR_INODES \<Longrightarrow> j \<noteq> k \<Longrightarrow> iview s' j = iview s j" "irefs s' = (irefs s)(k := irefs s k - 1)"
    "\<And>q. q \<noteq> p \<Longrightarrow> iobj s' q = iobj s q" "blocks_kept (own (addr (dev s) x)) s s'" "out s' = out s"
proof -
  let ?B = "own (addr (dev s) x)"
  from free_blocks_spec [OF o ok w] obtain s1 where
    s1: "testfs_free_blocks p s = Inr (0, s1)" "opened s1 p k (zero_dinode\<lparr>i_type := i_type x\<rparr>) True"
      "bused s1 = bused s - ?B" "kframe p k ?B s s1" .
  from opened_deref [OF s1(2)] obtain i where
    i: "deref p s1 = Inr i" "i_nr i = int k" "block_count (din i) = 0" by (auto simp: zero_dinode_def)
  let ?g = "\<lambda>_. zero_dinode"
  from upd_dirty [OF s1(2), where g = ?g, OF zero_dinode_valid] obtain s2 where
    s2: "upd_inode p (\<lambda>i. set_dirty (i\<lparr>din := zero_dinode\<rparr>)) s1 = Inr s2" "opened s2 p k zero_dinode True"
      "kframe p k {} s1 s2" "bused s2 = bused s1" by auto
  have k2: "kframe p k ?B s s2" using kframe_trans [OF s1(4) s2(3)] by simp
  have u2: "k \<in> iused s2" using u k2 by (simp add: kframe_def)
  from put_inode_freemap_used [OF opened_super [OF s2(2)] u2] obtain s3 where
    s3: "testfs_put_inode_freemap (int k) s2 = Inr s3" "iused s3 = iused s2 - {k}" "bused s3 = bused s2"
      "super_inv s3" "same_mem s2 s3" "dev_frame {} s2 s3" .
  note i3 = inode_inv_super [OF opened_inv [OF s2(2)] s3(4-6), simplified]
  from iobj_opened [OF s2(2)] i3(4) have ob3: "iobj s3 p = Some (k, zero_dinode, True)" by auto
  from ic.sync_spec [OF i3(1) ob3] obtain s4 where
    s4: "testfs_sync_inode p s3 = Inr s4" "inode_inv s4" "cache_frame s3 s4" "iobj s4 p = Some (k, zero_dinode, False)"
      "\<forall>q. q \<noteq> p \<longrightarrow> iobj s4 q = iobj s3 q" "iview s4 = iview s3" "irefs s4 = irefs s3" by auto
  from ic.put_spec [OF s4(2,4)] obtain s5 where
    s5: "testfs_put_inode p s4 = Inr s5" "inode_inv s5" "cache_frame s4 s5"
      "\<forall>q. q \<noteq> p \<longrightarrow> iobj s5 q = iobj s4 q" "iview s5 = iview s4" "irefs s5 = (irefs s4)(k := irefs s4 k - 1)" by auto
  note cf = cache_frame_trans [OF s4(3) s5(3)]
  have kn: "k < NR_INODES" using opened_view [OF s2(2)] by blast
  have v: "iview s5 j = iview s2 j" if "j < NR_INODES" for j
    using s5(5) s4(6) i3(2) [of j] that by simp
  show thesis
  proof (rule that [of s5])
    show "testfs_remove_inode p s = Inr s5"
      using s1(1) i s2(1) s3(1) s4(1) s5(1) by (simp add: testfs_remove_inode_def)
    show "iused s5 = iused s - {k}" "bused s5 = bused s - ?B"
      using cache_frame_used [OF cf] s3(2,3) s2(4) s1(3) k2 by (simp_all add: kframe_def)
    show "iview s5 k = zero_dinode" using v [OF kn] opened_view [OF s2(2)] by simp
    show "iview s5 j = iview s j" if "j < NR_INODES" "j \<noteq> k" for j
      using v [OF that(1)] that k2 by (simp add: kframe_def)
    show "irefs s5 = (irefs s)(k := irefs s k - 1)"
      using s5(6) s4(7) i3(3) k2 by (simp add: kframe_def)
    show "iobj s5 q = iobj s q" if "q \<noteq> p" for q
      using s5(4) s4(5) i3(4) k2 that by (simp add: kframe_def)
    show "blocks_kept ?B s s5"
      using k2 data_frame_super [OF s3(5,6)] data_frame_cache [OF cf]
      by (simp add: blocks_kept_def kframe_def data_frame_def)
    show "out s5 = out s" using k2 s3(5) cf by (simp add: kframe_def same_mem_def cache_frame_def)
  qed (rule s5(2))
qed

section \<open>Properties\<close>

text \<open>
  Truncation.  On a file whose blocks lie below its size, \<open>testfs_free_blocks\<close> succeeds, gives
  back exactly the blocks the file owns, direct, indirect and double-indirect, data and
  tables, leaves an empty inode of the same type, and changes no other block.
\<close>

theorem free_blocks_complete:
  assumes "opened s p k x d" "file_ok s x" "within x (addr (dev s) x)"
  shows "\<exists>s'. testfs_free_blocks p s = Inr (0, s')
    \<and> opened s' p k (zero_dinode\<lparr>i_type := i_type x\<rparr>) True
    \<and> bused s' = bused s - own (addr (dev s) x)
    \<and> (\<forall>c \<ge> 146. c \<notin> own (addr (dev s) x) \<longrightarrow> dblk (dev s') c = dblk (dev s) c)"
  using free_blocks_spec [OF assms] unfolding kframe_def by metis

lemma empty_within: "within empty_file (addr d empty_file)"
proof -
  have "\<not> 2058 < file_blocks empty_file" "file_blocks empty_file \<le> MAX_BLOCKS"
    by (simp_all add: file_blocks_def BLOCK_SIZE_def)
  then show ?thesis by (auto simp: within_def simp del: addr.simps)
qed

theorem free_blocks_complete_witness:
  "\<exists>p k s s'. opened s p k empty_file True \<and> testfs_free_blocks p s = Inr (0, s') \<and> bused s' = {}"
proof -
  obtain p k s where s: "opened s p k empty_file True" "bused s = {}" by (rule test_file)
  from free_blocks_complete [OF s(1) _ empty_within] s show ?thesis by auto
qed

text \<open>
  C17: removal.  \<open>testfs_remove_inode\<close> on such a file with a used number passes its assertion that
  no block is left, gives back the number and the blocks, clears the inode on disk and in
  memory, drops one reference, and leaves every other inode, pointer and block as it was.
\<close>

theorem remove_inode_complete:
  assumes "opened s p k x d" "file_ok s x" "within x (addr (dev s) x)" "k \<in> iused s"
  shows "\<exists>s'. testfs_remove_inode p s = Inr s' \<and> inode_inv s' \<and> iused s' = iused s - {k}
    \<and> bused s' = bused s - own (addr (dev s) x) \<and> iview s' k = zero_dinode
    \<and> (\<forall>j < NR_INODES. j \<noteq> k \<longrightarrow> iview s' j = iview s j)
    \<and> irefs s' = (irefs s)(k := irefs s k - 1) \<and> (\<forall>q. q \<noteq> p \<longrightarrow> iobj s' q = iobj s q)
    \<and> blocks_kept (own (addr (dev s) x)) s s'"
  using remove_inode_spec [OF assms] by metis

theorem remove_inode_complete_witness:
  "\<exists>p k s s'. testfs_create_inode I_FILE test_fs = Inr (0, Some p, s)
    \<and> testfs_remove_inode p s = Inr s' \<and> iused s' = {} \<and> iview s' k = zero_dinode \<and> irefs s' k = 0"
proof -
  obtain p k s where s: "testfs_create_inode I_FILE test_fs = Inr (0, Some p, s)" "opened s p k empty_file True"
      "iused s = {k}" "irefs s k = 1" by (rule test_file)
  from remove_inode_complete [OF s(2) _ empty_within] s show ?thesis by auto
qed

end
