(* ===== verification/Consistent.thy ===== *)
theory Consistent
  imports Truncate
begin

text \<open>
  The invariant of the whole file system, what a checker would establish: every inode has a
  well-formed block map, no block belongs to two inodes, every block in use belongs to one,
  and a number that is not in use has an empty inode.  A formatted disk satisfies it, and so
  does every state that the inode and file operations lead to, but for the kinds of failures that
  the step relation \<open>fs_step\<close> leaves out.
\<close>

section \<open>The invariant\<close>

abbreviation blocks_of :: "fs \<Rightarrow> nat \<Rightarrow> nat set" where
  "blocks_of s k \<equiv> own (addr (dev s) (iview s k))"

definition consistent :: "fs \<Rightarrow> bool" where
  "consistent s \<longleftrightarrow> inode_inv s
     \<and> (\<forall>k < NR_INODES. file_ok s (iview s k))
     \<and> (\<forall>j < NR_INODES. \<forall>k < NR_INODES. j \<noteq> k \<longrightarrow> blocks_of s j \<inter> blocks_of s k = {})
     \<and> bused s = (\<Union>k \<in> {..<NR_INODES}. blocks_of s k)
     \<and> (\<forall>k < NR_INODES. k \<notin> iused s \<longrightarrow> iview s k = zero_dinode)"

lemma consistentI:
  assumes "inode_inv s" "\<And>k. k < NR_INODES \<Longrightarrow> file_ok s (iview s k)"
    and "\<And>j k. j < NR_INODES \<Longrightarrow> k < NR_INODES \<Longrightarrow> j \<noteq> k \<Longrightarrow> blocks_of s j \<inter> blocks_of s k = {}"
    and "bused s = (\<Union>k \<in> {..<NR_INODES}. blocks_of s k)"
    and "\<And>k. k < NR_INODES \<Longrightarrow> k \<notin> iused s \<Longrightarrow> iview s k = zero_dinode"
  shows "consistent s"
  unfolding consistent_def using assms by (intro conjI allI impI) simp_all

lemma consistent_facts:
  assumes "consistent s"
  shows cons_inv: "inode_inv s"
    and cons_file: "k < NR_INODES \<Longrightarrow> file_ok s (iview s k)"
    and cons_disjoint: "j < NR_INODES \<Longrightarrow> k < NR_INODES \<Longrightarrow> j \<noteq> k \<Longrightarrow> blocks_of s j \<inter> blocks_of s k = {}"
    and cons_used: "bused s = (\<Union>k \<in> {..<NR_INODES}. blocks_of s k)"
    and cons_unused: "k < NR_INODES \<Longrightarrow> k \<notin> iused s \<Longrightarrow> iview s k = zero_dinode"
  using assms unfolding consistent_def by simp_all

lemma cons_own_used: "consistent s \<Longrightarrow> k < NR_INODES \<Longrightarrow> blocks_of s k \<subseteq> bused s"
  using cons_used by auto

text \<open>A file none of whose blocks is touched keeps its map.\<close>

lemma untouched_file:
  assumes ok: "file_ok s x" and bk: "blocks_kept B s s'" and d: "own (addr (dev s) x) \<inter> B = {}"
    and u: "own (addr (dev s) x) \<subseteq> bused s'"
  shows "addr (dev s') x = addr (dev s) x" "file_ok s' x" "file_block (dev s') x n = file_block (dev s) x n"
proof -
  note am = ok_amap [OF ok]
  have blk: "dblk (dev s') (nat (addr (dev s) x sl)) = dblk (dev s) (nat (addr (dev s) x sl))"
    if "0 < addr (dev s) x sl" for sl
    using bk d own_slot [of "addr (dev s) x" sl, OF that] slot_block_used [OF ok that]
    unfolding blocks_kept_def by blast
  show a: "addr (dev s') x = addr (dev s) x"
    by (rule ext, rule addr_cong) (use blk in auto)
  have "amap_ok s' (addr (dev s) x)" using am u by (simp add: amap_ok_def)
  then show "file_ok s' x" using ok bk unfolding file_okx_def a blocks_kept_def by simp
  show "file_block (dev s') x n = file_block (dev s) x n"
    by (rule file_block_cong [OF fun_cong [OF a]]) (rule blk)
qed

text \<open>One inode \<open>k\<close> changes: its old blocks are exchanged for its new ones.\<close>

lemma consistent_step:
  assumes c: "consistent s" and k: "k < NR_INODES" and i: "inode_inv s'"
    and v: "\<And>j. j < NR_INODES \<Longrightarrow> j \<noteq> k \<Longrightarrow> iview s' j = iview s j"
    and ok: "file_ok s' (iview s' k)" and bk: "blocks_kept B s s'" and B: "B \<inter> bused s \<subseteq> blocks_of s k"
    and u: "bused s' = (bused s - blocks_of s k) \<union> blocks_of s' k" and f: "blocks_of s' k \<inter> bused s \<subseteq> blocks_of s k"
    and z: "\<And>j. j < NR_INODES \<Longrightarrow> j \<notin> iused s' \<Longrightarrow> iview s' j = zero_dinode"
  shows "consistent s'"
proof -
  have other: "addr (dev s') (iview s' j) = addr (dev s) (iview s j)" "file_ok s' (iview s' j)"
    "blocks_of s' j = blocks_of s j" "blocks_of s j \<subseteq> bused s" "blocks_of s j \<inter> blocks_of s k = {}"
    if j: "j < NR_INODES" "j \<noteq> k" for j
  proof -
    note d = cons_disjoint [OF c j(1) k j(2)] and o = cons_own_used [OF c j(1)]
    have "blocks_of s j \<inter> B = {}" "blocks_of s j \<subseteq> bused s'" using d o B u by blast+
    note t = untouched_file [OF cons_file [OF c j(1)] bk this]
    show "addr (dev s') (iview s' j) = addr (dev s) (iview s j)" "file_ok s' (iview s' j)"
      "blocks_of s' j = blocks_of s j" "blocks_of s j \<subseteq> bused s" "blocks_of s j \<inter> blocks_of s k = {}"
      using t(1,2) v [OF j] d o by simp_all
  qed
  show ?thesis
  proof (rule consistentI [OF i])
    show "file_ok s' (iview s' j)" if "j < NR_INODES" for j
      using other(2) [OF that] ok by (cases "j = k") auto
    have dk: "blocks_of s' j \<inter> blocks_of s' k = {}" if "j < NR_INODES" "j \<noteq> k" for j
      using other(3-5) [OF that] f by blast
    show "blocks_of s' j \<inter> blocks_of s' l = {}" if "j < NR_INODES" "l < NR_INODES" "j \<noteq> l" for j l
    proof (cases "j = k \<or> l = k")
      case True
      with dk that show ?thesis by blast
    next
      case False
      with other(3) that cons_disjoint [OF c that] show ?thesis by simp
    qed
    have "bused s - blocks_of s k = (\<Union>j \<in> {..<NR_INODES} - {k}. blocks_of s j)"
      using cons_used [OF c] cons_disjoint [OF c _ k] by blast
    also have "\<dots> = (\<Union>j \<in> {..<NR_INODES} - {k}. blocks_of s' j)" using other(3) by simp
    finally show "bused s' = (\<Union>j \<in> {..<NR_INODES}. blocks_of s' j)"
      unfolding u using k by blast
  qed (rule z)
qed

section \<open>Every operation keeps it\<close>

lemma blocks_kept_data: "data_frame s s' \<Longrightarrow> blocks_kept {} s s'"
  by (simp add: data_frame_def blocks_kept_def)

lemma blocks_kept_kframe: "kframe p k B s s' \<Longrightarrow> blocks_kept B s s'"
  by (simp add: kframe_def blocks_kept_def)

text \<open>No block changes hands and at most the type of one inode changes.\<close>

lemma consistent_frame:
  assumes c: "consistent s" and k: "k < NR_INODES" and i: "inode_inv s'"
    and v: "\<And>j. j < NR_INODES \<Longrightarrow> j \<noteq> k \<Longrightarrow> iview s' j = iview s j"
    and t: "iview s' k = (iview s k)\<lparr>i_type := t\<rparr>" and d: "blocks_kept {} s s'" and u: "bused s' = bused s"
    and z: "\<And>j. j < NR_INODES \<Longrightarrow> j \<notin> iused s' \<Longrightarrow> iview s' j = zero_dinode"
  shows "consistent s'"
proof -
  let ?x = "iview s k" and ?y = "(iview s k)\<lparr>i_type := t\<rparr>"
  have a: "addr e ?y = addr e ?x" for e by (rule ext, rule addr_cong) simp_all
  have own: "blocks_of s k \<subseteq> bused s'" using cons_own_used [OF c k] u by simp
  note f = untouched_file [OF cons_file [OF c k] d _ own, simplified]
  have "file_ok s' ?y" using f(2) by (simp add: file_okx_def a)
  moreover have "blocks_of s' k = blocks_of s k" unfolding t a using f(1) by simp
  ultimately show ?thesis
    using own u t by (intro consistent_step [OF c k i v _ d _ _ _ z]) auto
qed

lemma consistent_same:
  assumes c: "consistent s" and i: "inode_inv s'" and v: "\<And>j. j < NR_INODES \<Longrightarrow> iview s' j = iview s j"
    and d: "blocks_kept {} s s'" and u: "bused s' = bused s" "iused s' = iused s"
  shows "consistent s'"
proof (rule consistent_frame [OF c _ i v _ d u(1)])
  show "iview s' 0 = (iview s 0)\<lparr>i_type := i_type (iview s 0)\<rparr>" using v [of 0] by simp
qed (use v cons_unused [OF c] u in simp_all)

lemma consistent_cache: "consistent s \<Longrightarrow> inode_inv s' \<Longrightarrow> iview s' = iview s \<Longrightarrow> cache_frame s s' \<Longrightarrow> consistent s'"
  by (rule consistent_same) (simp_all add: blocks_kept_data data_frame_cache cache_frame_used)

lemma consistent_get:
  assumes "consistent s" "k < NR_INODES" "testfs_get_inode (int k) s = Inr (p, s')"
  shows "consistent s'"
  using get_inode_spec [OF cons_inv [OF assms(1)] assms(2)] assms(1,3) by (auto intro: consistent_cache)

lemma consistent_sync:
  assumes "consistent s" "iobj s p = Some (k, x, d)" "testfs_sync_inode p s = Inr s'"
  shows "consistent s'"
  using sync_inode_spec [OF cons_inv [OF assms(1)] assms(2)] assms(1,3) by (auto intro: consistent_cache)

lemma consistent_put:
  assumes "consistent s" "iobj s p = Some (k, x, d)" "testfs_put_inode p s = Inr s'"
  shows "consistent s'"
proof -
  have "\<not> d" using ic.put_dirty [OF cons_inv [OF assms(1)]] assms(2,3) by (cases d) auto
  with put_inode_spec [OF cons_inv [OF assms(1)]] assms show ?thesis by (fastforce intro: consistent_cache)
qed

lemma consistent_create:
  assumes c: "consistent s" and t: "is_s32 t" and e: "testfs_create_inode t s = Inr (r, q, s')"
  shows "consistent s'"
  using cons_inv [OF c] t
proof (cases rule: create_inode_cases)
  case (full s1)
  with e have "s' = s1" by simp
  with full show ?thesis by (auto intro!: consistent_same [OF c] blocks_kept_data data_frame_super)
next
  case (made k p s1)
  with e have s: "s' = s1" by simp
  have "iview s1 k = (iview s k)\<lparr>i_type := t\<rparr>" using opened_view(2) [OF opened_iobj [OF made(6,7)]] .
  moreover have "iview s1 j = zero_dinode" if "j < NR_INODES" "j \<notin> iused s1" for j
    using that made(4,8) cons_unused [OF c] by simp
  ultimately show ?thesis
    unfolding s using made blocks_kept_data [OF made(11)] by (intro consistent_frame [OF c made(2)]) auto
qed

lemma consistent_wpost:
  assumes c: "consistent s" and o: "opened s p k x d" and u: "k \<in> iused s" and w: "wpost p k s x s' x'"
  shows "consistent s'"
proof -
  note k = opened_view [OF o]
  from w have o': "opened s' p k x' False" and ok': "file_ok s' x'" and f: "wframe p k s x s' x'"
    by (simp_all add: wpost_def)
  note k' = opened_view [OF o']
  from f obtain B where B: "kframe p k B s s'" "B \<inter> bused s \<subseteq> own (addr (dev s) x)"
    and us: "bused s' = bused s \<union> own (addr (dev s') x')" "own (addr (dev s') x') \<inter> bused s = own (addr (dev s) x)"
    by (auto simp: wframe_def)
  show ?thesis
  proof (rule consistent_step [OF c k(1) opened_inv [OF o'] _ _ blocks_kept_kframe [OF B(1)]])
    show "iview s' j = zero_dinode" if "j < NR_INODES" "j \<notin> iused s'" for j
      using that B(1) u cons_unused [OF c that(1)] by (cases "j = k") (auto simp: kframe_def)
    show "bused s' = (bused s - blocks_of s k) \<union> blocks_of s' k"
      unfolding k(2) k'(2) using us by blast
  qed (use B us ok' k(2) k'(2) in \<open>auto simp: kframe_def\<close>)
qed

lemma opened_file_ok: "consistent s \<Longrightarrow> opened s p k x d \<Longrightarrow> file_ok s x"
  using opened_view cons_file by blast

lemma consistent_write:
  assumes c: "consistent s" and o: "opened s p k x d" and u: "k \<in> iused s"
    and len: "0 < len" "len < 2 ^ 31" "len \<le> length buf" "off + len < 2 ^ 44"
    and e: "testfs_write_data p buf (int off) (int len) s = Inr (r, s')"
    and far: "r = - ENOSPC \<longrightarrow> off + len \<le> 2058 * BLOCK_SIZE"
  shows "consistent s'"
proof -
  from write_data_full [OF o opened_file_ok [OF c o] len] e
  have "data_outcome p k s x s x off (take len buf) off len (off mod BLOCK_SIZE + len + BLOCK_SIZE) r s'" by auto
  with far obtain x' where "wpost p k s x s' x'" unfolding data_outcome_def by (metis not_less)
  then show ?thesis by (rule consistent_wpost [OF c o u])
qed

lemma consistent_free_blocks:
  assumes c: "consistent s" and o: "opened s p k x d" and u: "k \<in> iused s" and w: "within x (addr (dev s) x)"
    and e: "testfs_free_blocks p s = Inr (r, s')"
  shows "consistent s'"
proof -
  note k = opened_view [OF o]
  have ok: "file_ok s x" using cons_file [OF c k(1)] k(2) by simp
  from free_blocks_spec [OF o ok w] e have
    s': "opened s' p k (zero_dinode\<lparr>i_type := i_type x\<rparr>) True"
      "bused s' = bused s - own (addr (dev s) x)" "kframe p k (own (addr (dev s) x)) s s'" by auto
  note k' = opened_view [OF s'(1)]
  have z: "file_ok s' (iview s' k)" "blocks_of s' k = {}"
    unfolding k'(2) by (auto intro!: empty_file_ok simp: zero_dinode_def own_def held_def empty_map simp del: addr.simps)
  show ?thesis
  proof (rule consistent_step [OF c k(1) opened_inv [OF s'(1)] _ z(1) blocks_kept_kframe [OF s'(3)]])
    show "iview s' j = zero_dinode" if "j < NR_INODES" "j \<notin> iused s'" for j
      using that s'(3) u cons_unused [OF c that(1)] by (cases "j = k") (auto simp: kframe_def)
  qed (use s' z(2) k(2) in \<open>auto simp: kframe_def\<close>)
qed

lemma consistent_remove:
  assumes c: "consistent s" and o: "opened s p k x d" and u: "k \<in> iused s" and w: "within x (addr (dev s) x)"
    and e: "testfs_remove_inode p s = Inr s'"
  shows "consistent s'"
proof -
  note k = opened_view [OF o]
  have ok: "file_ok s x" using cons_file [OF c k(1)] k(2) by simp
  obtain s1 where "testfs_remove_inode p s = Inr s1" and s: "inode_inv s1" "iused s1 = iused s - {k}"
    "bused s1 = bused s - own (addr (dev s) x)" "iview s1 k = zero_dinode"
    "\<And>j. j < NR_INODES \<Longrightarrow> j \<noteq> k \<Longrightarrow> iview s1 j = iview s j" "blocks_kept (own (addr (dev s) x)) s s1"
    by (rule remove_inode_spec [OF o ok w u], rule that) assumption+
  with e have eq: "s' = s1" by simp
  have z: "file_ok s1 (iview s1 k)" "blocks_of s1 k = {}"
    unfolding s(4) by (auto intro!: empty_file_ok simp: zero_dinode_def own_def held_def empty_map simp del: addr.simps)
  show ?thesis unfolding eq
  proof (rule consistent_step [OF c k(1) s(1) s(5) z(1) s(6)])
    show "iview s1 j = zero_dinode" if "j < NR_INODES" "j \<notin> iused s1" for j
      using that s(2,4,5) cons_unused [OF c that(1)] by (cases "j = k") auto
  qed (use s z(2) k(2) in auto)
qed

section \<open>Reachable states\<close>

text \<open>
  What a client of the library does to a mounted file system: the calls of \<open>inode.c\<close> and
  \<open>read_write.c\<close> on valid inode numbers and pointers, and unmounting with mounting again.  Two kinds of
  call are no steps, since the code damages the file system there.  A write that runs out of space
  must lie in the first 2058 blocks: past them the failed allocation can leave freed blocks in the
  map of the file (\<open>dindirect_enospc_dangles\<close>).  A file that is truncated or removed must have no
  block past its size and, if it reaches past the first 2058 blocks, a double-indirect table
  (\<open>within\<close>): other blocks would be lost, and without the table the code reads block 0 for it.
\<close>

inductive fs_step :: "fs \<Rightarrow> fs \<Rightarrow> bool" where
  step_get: "k < NR_INODES \<Longrightarrow> testfs_get_inode (int k) s = Inr (p, s') \<Longrightarrow> fs_step s s'"
| step_create: "is_s32 t \<Longrightarrow> testfs_create_inode t s = Inr (r, q, s') \<Longrightarrow> fs_step s s'"
| step_sync: "iobj s p = Some (k, x, d) \<Longrightarrow> testfs_sync_inode p s = Inr s' \<Longrightarrow> fs_step s s'"
| step_put: "iobj s p = Some (k, x, d) \<Longrightarrow> testfs_put_inode p s = Inr s' \<Longrightarrow> fs_step s s'"
| step_write: "iobj s p = Some (k, x, d) \<Longrightarrow> k \<in> iused s \<Longrightarrow> 0 < len \<Longrightarrow> len < 2 ^ 31 \<Longrightarrow> len \<le> length buf
    \<Longrightarrow> off + len < 2 ^ 44 \<Longrightarrow> testfs_write_data p buf (int off) (int len) s = Inr (r, s')
    \<Longrightarrow> (r = - ENOSPC \<longrightarrow> off + len \<le> 2058 * BLOCK_SIZE) \<Longrightarrow> fs_step s s'"
| step_truncate: "iobj s p = Some (k, x, d) \<Longrightarrow> k \<in> iused s \<Longrightarrow> within x (addr (dev s) x)
    \<Longrightarrow> testfs_free_blocks p s = Inr (r, s') \<Longrightarrow> fs_step s s'"
| step_remove: "iobj s p = Some (k, x, d) \<Longrightarrow> k \<in> iused s \<Longrightarrow> within x (addr (dev s) x)
    \<Longrightarrow> testfs_remove_inode p s = Inr s' \<Longrightarrow> fs_step s s'"
| step_remount: "iheap s = Map.empty \<Longrightarrow> testfs_close_super_block s = Inr e
    \<Longrightarrow> testfs_init_super_block (malloc_ok s) (Inr e) = Inr (0, Some s') \<Longrightarrow> fs_step s s'"

lemma consistent_remount:
  assumes c: "consistent s" and h: "iheap s = Map.empty" and e: "testfs_close_super_block s = Inr e"
    and m: "testfs_init_super_block (malloc_ok s) (Inr e) = Inr (0, Some s')"
  shows "consistent s'"
proof -
  obtain s1 where s: "testfs_init_super_block (malloc_ok s) (Inr e) = Inr (0, Some s1)" "inode_inv s1"
    "\<And>k. k < NR_INODES \<Longrightarrow> iview s1 k = iview s k" "iused s1 = iused s" "bused s1 = bused s"
    "\<And>c. dblk (dev s1) c = dblk (dev s) c" "\<And>c. readable (dev s) c \<Longrightarrow> readable (dev s1) c"
    by (rule remount_spec [OF cons_inv [OF c] h]) (use e in simp)
  from s(6,7) have "blocks_kept {} s s1" by (simp add: blocks_kept_def)
  with s consistent_same [OF c s(2,3)] m show ?thesis by simp
qed

lemma step_consistent:
  assumes "fs_step s s'" "consistent s"
  shows "consistent s'"
  using assms
proof (cases rule: fs_step.cases)
  case step_get
  then show ?thesis using consistent_get assms(2) by metis
next
  case step_create
  then show ?thesis using consistent_create assms(2) by metis
next
  case step_sync
  then show ?thesis using consistent_sync assms(2) by metis
next
  case step_put
  then show ?thesis using consistent_put assms(2) by metis
next
  case (step_write p k x d len buf off r)
  from opened_iobj [OF cons_inv [OF assms(2)] step_write(1)] show ?thesis
    by (rule consistent_write [OF assms(2) _ step_write(2-8)])
next
  case (step_truncate p k x d r)
  from opened_iobj [OF cons_inv [OF assms(2)] step_truncate(1)] show ?thesis
    by (rule consistent_free_blocks [OF assms(2) _ step_truncate(2-4)])
next
  case (step_remove p k x d)
  from opened_iobj [OF cons_inv [OF assms(2)] step_remove(1)] show ?thesis
    by (rule consistent_remove [OF assms(2) _ step_remove(2-4)])
next
  case (step_remount e)
  then show ?thesis using consistent_remount assms(2) by metis
qed

lemma blank_consistent:
  assumes m: "0 \<le> m" "m \<le> nr_blocks_max" and mal: "\<And>n. mal n"
  shows "consistent (blank_fs mal m)"
proof (rule consistentI)
  show "inode_inv (blank_fs mal m)" by (rule blank_inode_inv [OF m mal])
  note v = blank_view [OF m]
  have a: "addr d zero_dinode sl = 0" for d sl by (rule empty_map) (simp_all add: zero_dinode_def)
  have o: "own (addr d zero_dinode) = {}" for d by (simp add: own_def held_def a)
  show "file_ok (blank_fs mal m) (iview (blank_fs mal m) k)" if "k < NR_INODES" for k
    unfolding v [OF that] by (rule empty_file_ok) (simp_all add: zero_dinode_def)
  show "blocks_of (blank_fs mal m) j \<inter> blocks_of (blank_fs mal m) k = {}" if "j < NR_INODES" "k < NR_INODES" for j k
    by (simp add: v [OF that(1)] o)
  show "bused (blank_fs mal m) = (\<Union>k \<in> {..<NR_INODES}. blocks_of (blank_fs mal m) k)"
    using blank_fs_inv(3) [OF m] by (simp add: v o)
qed (rule blank_view [OF m])

lemma run_consistent:
  assumes "0 \<le> m" "m \<le> nr_blocks_max" "\<forall>n. mal n" "fs_step\<^sup>*\<^sup>* (blank_fs mal m) s"
  shows "consistent s"
  using assms(4) by (induction rule: rtranclp_induct) (use assms(1-3) blank_consistent step_consistent in blast)+

section \<open>Properties\<close>

text \<open>
  C1: the consistency of the file system is an invariant.  In every state that the steps above
  lead to from a newly formatted disk, each inode has a well-formed block map and the right block
  count, no two inodes share a block, the freemap marks exactly the blocks that the inodes
  own (no block is leaked), and free inode numbers have empty inodes.  The steps are the calls of
  \<open>inode.c\<close> and \<open>read_write.c\<close> and a remount, with writes anywhere below \<open>2 ^ 44\<close>, failing ones
  included, except for one kind of failure: a write that reaches past the first 2058 blocks must not run out of
  space.  A file that is truncated or removed must have no block past its size and, where it is that
  long, a double-indirect table.  Memory suffices (\<open>mal\<close>).
\<close>

theorem reachable_consistent:
  assumes "0 \<le> m" "m \<le> nr_blocks_max" "\<forall>n. mal n" "fs_step\<^sup>*\<^sup>* (blank_fs mal m) s"
  shows "inode_inv s \<and> (\<forall>k < NR_INODES. file_ok s (iview s k))
    \<and> (\<forall>j < NR_INODES. \<forall>k < NR_INODES. j \<noteq> k \<longrightarrow> blocks_of s j \<inter> blocks_of s k = {})
    \<and> bused s = (\<Union>k \<in> {..<NR_INODES}. blocks_of s k)
    \<and> (\<forall>k < NR_INODES. k \<notin> iused s \<longrightarrow> iview s k = zero_dinode)"
proof -
  show ?thesis using run_consistent [OF assms] unfolding consistent_def .
qed

text \<open>A run for the witness: create a file and write to it past its first 2058 blocks.\<close>

theorem reachable_consistent_witness:
  "\<exists>k p s s'. testfs_create_inode I_FILE test_fs = Inr (0, Some p, s)
    \<and> testfs_write_data p (replicate 10 7) 20000000 10 s = Inr (10, s')
    \<and> fs_step\<^sup>*\<^sup>* test_fs s' \<and> bused s' = (\<Union>k \<in> {..<NR_INODES}. blocks_of s' k) \<and> file_ok s' (iview s' k)"
proof -
  obtain p k s s' where s: "testfs_create_inode I_FILE test_fs = Inr (0, Some p, s)" "k < NR_INODES" "iused s = {k}"
      "opened s p k empty_file True" "testfs_write_data p (replicate 10 7) (int 20000000) 10 s = Inr (10, s')"
    by (rule written_test_file [of 20000000]) simp_all
  from iobj_opened [OF s(4)] obtain d where ob: "iobj s p = Some (k, empty_file, d)" by blast
  have t: "is_s32 I_FILE" by simp
  have "fs_step s s'"
    by (rule step_write [where buf = "replicate 10 7" and off = 20000000 and len = 10 and r = 10, OF ob])
       (use s(3,5) in simp_all)
  with step_create [OF t s(1)] have r: "fs_step\<^sup>*\<^sup>* test_fs s'" by auto
  with reachable_consistent [OF _ _ _ r] s(1,2,5) show ?thesis
    by (intro exI [of _ k] exI [of _ p] exI [of _ s] exI [of _ s']) auto
qed

text \<open>
  C20: The cached inodes are well typed and can be written back.  In every state that the steps above (with
  the conditions of C1 on failed writes and on truncated and removed files) lead to from a newly formatted disk,
  an inode in memory has the number of a slot on disk, at least one reference, ten direct block numbers, and in every
  field a value of its C type.  Unless it is dirty, the disk holds it in that slot; if it is, \<open>testfs_sync_inode\<close>
  succeeds and leaves it there.  No other inode in memory has its number.
\<close>

theorem cached_inodes_typed:
  assumes "0 \<le> m" "m \<le> nr_blocks_max" "\<forall>n. mal n" "fs_step\<^sup>*\<^sup>* (blank_fs mal m) s" "iheap s p = Some i"
  shows "0 \<le> i_nr i \<and> i_nr i < int NR_INODES \<and> 0 < i_count i
    \<and> is_s32 (i_type (din i)) \<and> is_s64 (i_size (din i)) \<and> is_s32 (block_count (din i))
    \<and> length (i_block_nr (din i)) = 10 \<and> (\<forall>b \<in> set (i_block_nr (din i)). is_s32 b)
    \<and> is_s32 (i_indirect (din i)) \<and> is_s32 (i_dindirect (din i))
    \<and> (dirty i \<or> disk_inode (dev s) (nat (i_nr i)) = din i)
    \<and> (\<exists>s'. testfs_sync_inode p s = Inr s' \<and> disk_inode (dev s') (nat (i_nr i)) = din i
         \<and> (\<forall>k < NR_INODES. iview s' k = iview s k))
    \<and> (\<forall>q j. iheap s q = Some j \<and> i_nr j = i_nr i \<longrightarrow> q = p)"
proof -
  have c: "inode_inv s" by (rule cons_inv [OF run_consistent [OF assms(1-4)]])
  from c assms(5) have i: "0 \<le> i_nr i" "i_nr i < int NR_INODES" "dinode_valid (din i)"
    "dirty i \<or> disk_inode (dev s) (nat (i_nr i)) = din i" by (auto simp: inode_inv_def)
  have "0 < i_count i" using inv_hash [OF c] assms(5) by (simp add: hash_inv_def)
  moreover have "\<exists>s'. testfs_sync_inode p s = Inr s' \<and> disk_inode (dev s') (nat (i_nr i)) = din i
         \<and> (\<forall>k < NR_INODES. iview s' k = iview s k)"
  proof -
    have "iobj s p = Some (nat (i_nr i), din i, dirty i)" using assms(5) by (simp add: iobj_def)
    from sync_inode_spec [OF c this] obtain s' where s': "testfs_sync_inode p s = Inr s'" "inode_inv s'"
      "iobj s' p = Some (nat (i_nr i), din i, False)" "iview s' = iview s" by blast
    from s'(3) obtain i' where i': "iheap s' p = Some i'" "nat (i_nr i') = nat (i_nr i)" "din i' = din i" "\<not> dirty i'"
      unfolding iobj_Some by blast
    from inv_clean [OF s'(2) i'(1,4)] show ?thesis using s'(1,4) i'(2,3) by auto
  qed
  moreover have "q = p" if "iheap s q = Some j" "i_nr j = i_nr i" for q j
    by (rule hash_inj [OF inv_hash [OF c] that(1) assms(5) that(2)])
  ultimately show ?thesis using i by (auto simp: dinode_valid_def list_all_iff)
qed

theorem cached_inodes_typed_witness:
  "\<exists>p k s i s'. testfs_create_inode I_FILE test_fs = Inr (0, Some p, s) \<and> iheap s p = Some i \<and> i_nr i = int k \<and> k < NR_INODES
    \<and> testfs_sync_inode p s = Inr s' \<and> disk_inode (dev s') k = empty_file"
proof -
  obtain p k s where s: "testfs_create_inode I_FILE test_fs = Inr (0, Some p, s)" "opened s p k empty_file True"
      "k < NR_INODES" by (rule test_file)
  from opened_deref [OF s(2)] obtain i where i: "iheap s p = Some i" "i_nr i = int k" "din i = empty_file"
    by (auto simp: deref_def split: option.splits)
  have "fs_step test_fs s" by (rule step_create [OF _ s(1)]) simp
  then have "fs_step\<^sup>*\<^sup>* test_fs s" by blast
  from cached_inodes_typed [OF _ _ _ this i(1)] i s(1,3) show ?thesis by auto
qed

end
