(* ===== verification/Results.thy ===== *)
theory Results
  imports Prelude
begin

text \<open>
  What loops that can fault share: the congruence rule by which the recursive calls under a
  \<open>bindr\<close> may use that the first computation returned.
\<close>

lemma bindr_cong [fundef_cong]:
  "m = m' \<Longrightarrow> (\<And>x. m' = Inr x \<Longrightarrow> f x = g x) \<Longrightarrow> bindr m f = bindr m' g"
  by (cases m') simp_all

end
