(* ===== verification/Dir.thy ===== *)
theory Dir
  imports Consistent Results
begin

text \<open>
  \<open>src/fs/dir.c\<close>: directories.  A directory is a file that holds its entries one after the other,
  each a \<open>struct dirent\<close> (the length of the name with its terminating zero, and an inode number,
  negative in a removed entry) followed by the name.  This theory holds the code; what it does
  to well-formed directories is in \<open>DirData\<close>.

  Loops over the entries recurse on the offset, which grows with each entry and is bounded
  by the size of the directory.  \<open>testfs_pwd\<close> and \<open>testfs_ls\<close> follow the tree, which the
  code does not know to be finite: they take fuel, and are \<open>None\<close> when it runs out.  The buffers
  that C leaves uninitialised start as zeros here; on directories that the code wrote they are
  filled before they are used.
\<close>

section \<open>Strings\<close>

text \<open>\<open>strcmp(D_NAME(d), name) == 0\<close>, where the buffer may lack a terminating zero.\<close>

fun c_streq :: "byte list \<Rightarrow> cstr \<Rightarrow> bool result" where
  "c_streq [] n = Inl OutOfBounds"
| "c_streq (b # bs) [] = Inr (b = 0)"
| "c_streq (b # bs) (c # cs) = (if b = c then c_streq bs cs else Inr False)"

definition print :: "printed list \<Rightarrow> fs \<Rightarrow> fs" where
  "print xs s = s\<lparr>out := out s @ xs\<rparr>"

text \<open>The argument \<open>c->cmd[i]\<close>, used as a string.\<close>

definition cmd_arg :: "cmd_context \<Rightarrow> nat \<Rightarrow> cstr result" where
  "cmd_arg c i = bindr (arr_get (cmd c) i) (\<lambda>a. case a of None \<Rightarrow> Inl BadPointer | Some w \<Rightarrow> Inr w)"

section \<open>Entries\<close>

text \<open>A \<open>struct dirent\<close> with the name that follows it in memory.\<close>

record dirent =
  d_name_len :: int
  d_inode_nr :: int
  d_name :: "byte list"

abbreviation (input) sizeof_dirent :: int where "sizeof_dirent \<equiv> 8"
abbreviation (input) INVALID_INODE_NR :: int where "INVALID_INODE_NR \<equiv> - 1"

definition enc_dirent :: "dirent \<Rightarrow> byte list" where
  "enc_dirent d = enc32 (d_name_len d) @ enc32 (d_inode_nr d) @ d_name d"

text \<open>The result is the entry (\<open>None\<close> for \<open>NULL\<close>) and the new value of \<open>*offset\<close>.\<close>

definition testfs_next_dirent :: "nat \<Rightarrow> int \<Rightarrow> fs \<Rightarrow> (dirent option \<times> int) result" where
  "testfs_next_dirent dir offset s =
     bindr (testfs_inode_get_type dir s) (\<lambda>t.
     bindr (c_assert (t = I_DIR)) (\<lambda>_.
     bindr (testfs_inode_get_size dir s) (\<lambda>sz.
     if offset \<ge> sz then Inr (None, offset)
     else
       bindr (testfs_read_data dir (replicate 8 0) offset sizeof_dirent s) (\<lambda>(ret, b).
       if ret < 0 then Inr (None, offset)
       else
         let name_len = dec_s32 b; inode_nr = dec_s32 (drop 4 b) in
         bindr (c_assert (name_len > 0)) (\<lambda>_.
         if \<not> malloc_ok s (8 + nat name_len) then Inr (None, offset)
         else
           let offset = offset + sizeof_dirent in
           bindr (testfs_read_data dir (replicate (nat name_len) 0) offset name_len s) (\<lambda>(ret, nm).
           if ret < 0 then Inr (None, offset)
           else Inr (Some \<lparr>d_name_len = name_len, d_inode_nr = inode_nr, d_name = nm\<rparr>,
                     offset + name_len)))))))"

definition dir_size :: "nat \<Rightarrow> fs \<Rightarrow> int" where
  "dir_size p s = (case iheap s p of None \<Rightarrow> 0 | Some i \<Rightarrow> i_size (din i))"

lemma next_dirent_progress:
  assumes "testfs_next_dirent p off s = Inr (Some e, off')"
  shows "off < off'" "off < dir_size p s"
  using assms
  by (auto simp: testfs_next_dirent_def testfs_inode_get_size_def deref_def dir_size_def bindr_eq_Inr
      c_assert_def Let_def split: if_splits prod.splits option.splits)

text \<open>The measure of every loop over the entries.\<close>

lemma next_dirent_measure:
  "testfs_next_dirent p off s = Inr (Some e, off') \<Longrightarrow> nat (dir_size p s - off') < nat (dir_size p s - off)"
  using next_dirent_progress [of p off s e off'] by linarith

section \<open>Looking up\<close>

function find_loop :: "nat \<Rightarrow> int \<Rightarrow> int \<Rightarrow> fs \<Rightarrow> dirent option result" where
  "find_loop dir inode_nr offset s =
     bindr (testfs_next_dirent dir offset s) (\<lambda>(d, offset').
     case d of None \<Rightarrow> Inr None
     | Some d \<Rightarrow> if d_inode_nr d = inode_nr then Inr (Some d) else find_loop dir inode_nr offset' s)"
  by pat_completeness auto
termination
  by (relation "measure (\<lambda>(p, nr, off, s). nat (dir_size p s - off))") (auto dest: next_dirent_measure)

declare find_loop.simps [simp del]

definition testfs_find_dirent :: "nat \<Rightarrow> int \<Rightarrow> fs \<Rightarrow> dirent option result" where
  "testfs_find_dirent dir inode_nr s =
     bindr (testfs_inode_get_type dir s) (\<lambda>t.
     bindr (c_assert (t = I_DIR)) (\<lambda>_.
     bindr (c_assert (inode_nr \<ge> 0)) (\<lambda>_.
     find_loop dir inode_nr 0 s)))"

function name_loop :: "nat \<Rightarrow> cstr \<Rightarrow> int \<Rightarrow> fs \<Rightarrow> int result" where
  "name_loop dir name offset s =
     bindr (testfs_next_dirent dir offset s) (\<lambda>(d, offset').
     case d of None \<Rightarrow> Inr (- ENOENT)
     | Some d \<Rightarrow>
         if d_inode_nr d < 0 then name_loop dir name offset' s
         else bindr (c_streq (d_name d) name) (\<lambda>eq.
              if \<not> eq then name_loop dir name offset' s else Inr (d_inode_nr d)))"
  by pat_completeness auto
termination
  by (relation "measure (\<lambda>(p, nm, off, s). nat (dir_size p s - off))") (auto dest: next_dirent_measure)

declare name_loop.simps [simp del]

definition testfs_dir_name_to_inode_nr :: "nat \<Rightarrow> cstr \<Rightarrow> fs \<Rightarrow> int result" where
  "testfs_dir_name_to_inode_nr dir name s =
     bindr (testfs_inode_get_type dir s) (\<lambda>t.
     bindr (c_assert (t = I_DIR)) (\<lambda>_.
     name_loop dir name 0 s))"

section \<open>Adding an entry\<close>

text \<open>\<open>strcpy(D_NAME(d), name)\<close> into a buffer of \<open>len\<close> bytes.\<close>

definition testfs_write_dirent :: "nat \<Rightarrow> cstr \<Rightarrow> int \<Rightarrow> int \<Rightarrow> int \<Rightarrow> fs \<Rightarrow> (int \<times> fs) result" where
  "testfs_write_dirent dir name len inode_nr offset s =
     (if \<not> malloc_ok s (nat (8 + len)) then Inr (- ENOMEM, s)
      else
        bindr (c_assert (inode_nr \<ge> 0)) (\<lambda>_.
        if int (length name) + 1 > len then Inl OutOfBounds
        else
          let d = \<lparr>d_name_len = len, d_inode_nr = inode_nr,
                   d_name = name @ 0 # replicate (nat len - length name - 1) 0\<rparr>
          in testfs_write_data dir (enc_dirent d) offset (sizeof_dirent + len) s))"

text \<open>The loop of \<open>testfs_add_dirent\<close>: its values of \<open>ret\<close>, \<open>found\<close> and \<open>p_offset\<close>.\<close>

function add_loop :: "nat \<Rightarrow> cstr \<Rightarrow> int \<Rightarrow> int \<Rightarrow> fs \<Rightarrow> (int \<times> bool \<times> int) result" where
  "add_loop dir name len offset s =
     bindr (testfs_next_dirent dir offset s) (\<lambda>(d, offset').
     case d of None \<Rightarrow> Inr (0, False, offset)
     | Some d \<Rightarrow>
         bindr (if d_inode_nr d \<ge> 0 then c_streq (d_name d) name else Inr False) (\<lambda>same.
         if same then Inr (- EEXIST, False, offset)
         else if d_inode_nr d \<ge> 0 \<or> d_name_len d \<noteq> len then add_loop dir name len offset' s
         else Inr (0, True, offset)))"
  by pat_completeness auto
termination
  by (relation "measure (\<lambda>(p, nm, len, off, s). nat (dir_size p s - off))") (auto dest: next_dirent_measure)

declare add_loop.simps [simp del]

definition testfs_add_dirent :: "nat \<Rightarrow> cstr \<Rightarrow> int \<Rightarrow> fs \<Rightarrow> (int \<times> fs) result" where
  "testfs_add_dirent dir name inode_nr s =
     (let len = s32 (int (length name) + 1) in
      bindr (testfs_inode_get_type dir s) (\<lambda>t.
      bindr (c_assert (t = I_DIR)) (\<lambda>_.
      bindr (add_loop dir name len 0 s) (\<lambda>(ret, found, p_offset).
      if ret < 0 then Inr (ret, s)
      else
        bindr (testfs_inode_get_size dir s) (\<lambda>sz.
        bindr (c_assert (found \<or> p_offset = sz)) (\<lambda>_.
        testfs_write_dirent dir name len inode_nr (s32 p_offset) s))))))"

section \<open>Removing an entry\<close>

function allowed_loop :: "nat \<Rightarrow> int \<Rightarrow> fs \<Rightarrow> int result" where
  "allowed_loop dir offset s =
     bindr (testfs_next_dirent dir offset s) (\<lambda>(d, offset').
     case d of None \<Rightarrow> Inr 0
     | Some d \<Rightarrow>
         if d_inode_nr d < 0 then allowed_loop dir offset' s
         else
           bindr (c_streq (d_name d) (lit ''.'')) (\<lambda>dot.
           if dot then allowed_loop dir offset' s
           else
             bindr (c_streq (d_name d) (lit ''..'')) (\<lambda>dotdot.
             if dotdot then allowed_loop dir offset' s else Inr (- ENOTEMPTY))))"
  by pat_completeness auto
termination
  by (relation "measure (\<lambda>(p, off, s). nat (dir_size p s - off))") (auto dest: next_dirent_measure)

declare allowed_loop.simps [simp del]

definition testfs_remove_dirent_allowed :: "int \<Rightarrow> fs \<Rightarrow> (int \<times> fs) result" where
  "testfs_remove_dirent_allowed inode_nr s =
     bindr (testfs_get_inode inode_nr s) (\<lambda>(dir, s1).
     bindr (testfs_inode_get_type dir s1) (\<lambda>t.
     bindr (if t \<noteq> I_DIR then Inr 0 else allowed_loop dir 0 s1) (\<lambda>ret.
     bindr (testfs_put_inode dir s1) (\<lambda>s2.
     Inr (ret, s2)))))"

text \<open>The loop of \<open>testfs_remove_dirent\<close> up to the entry it looks for, with \<open>p_offset\<close>.\<close>

function entry_loop :: "nat \<Rightarrow> cstr \<Rightarrow> int \<Rightarrow> fs \<Rightarrow> (dirent \<times> int) option result" where
  "entry_loop dir name offset s =
     bindr (testfs_next_dirent dir offset s) (\<lambda>(d, offset').
     case d of None \<Rightarrow> Inr None
     | Some d \<Rightarrow>
         if d_inode_nr d < 0 then entry_loop dir name offset' s
         else bindr (c_streq (d_name d) name) (\<lambda>eq.
              if \<not> eq then entry_loop dir name offset' s else Inr (Some (d, offset))))"
  by pat_completeness auto
termination
  by (relation "measure (\<lambda>(p, nm, off, s). nat (dir_size p s - off))") (auto dest: next_dirent_measure)

declare entry_loop.simps [simp del]

definition testfs_remove_dirent :: "nat \<Rightarrow> cstr \<Rightarrow> fs \<Rightarrow> (int \<times> fs) result" where
  "testfs_remove_dirent dir name s =
     (if name = lit ''.'' \<or> name = lit ''..'' then Inr (- EINVAL, s)
      else
        bindr (entry_loop dir name 0 s) (\<lambda>r.
        case r of None \<Rightarrow> Inr (- ENOENT, s)
        | Some (d, p_offset) \<Rightarrow>
            let inode_nr = d_inode_nr d in
            bindr (testfs_remove_dirent_allowed inode_nr s) (\<lambda>(ret, s1).
            if ret < 0 then Inr (ret, s1)
            else
              let d = d\<lparr>d_inode_nr := INVALID_INODE_NR\<rparr> in
              bindr (testfs_write_data dir (enc_dirent d) p_offset (sizeof_dirent + d_name_len d) s1)
                (\<lambda>(ret, s2).
              Inr (if ret \<ge> 0 then inode_nr else ret, s2)))))"

section \<open>Creating files and directories\<close>

definition testfs_create_empty_dir :: "int \<Rightarrow> nat \<Rightarrow> fs \<Rightarrow> (int \<times> fs) result" where
  "testfs_create_empty_dir p_inode_nr cdir s =
     bindr (testfs_inode_get_type cdir s) (\<lambda>t.
     bindr (c_assert (t = I_DIR)) (\<lambda>_.
     bindr (testfs_inode_get_nr cdir s) (\<lambda>nr.
     bindr (testfs_add_dirent cdir (lit ''.'') nr s) (\<lambda>(ret, s1).
     if ret < 0 then Inr (ret, s1)
     else
       bindr (testfs_add_dirent cdir (lit ''..'') p_inode_nr s1) (\<lambda>(ret, s2).
       if ret < 0 then
         bindr (testfs_remove_dirent cdir (lit ''.'') s2) (\<lambda>(_, s3). Inr (ret, s3))
       else Inr (0, s2))))))"

text \<open>\<open>dir\<close> is \<open>None\<close> where the code passes \<open>NULL\<close>, for the root directory.\<close>

definition testfs_create_file_or_dir :: "nat option \<Rightarrow> int \<Rightarrow> cstr \<Rightarrow> fs \<Rightarrow> (int \<times> fs) result" where
  "testfs_create_file_or_dir dir type name s =
     bindr (case dir of None \<Rightarrow> Inr (- 1) | Some dir \<Rightarrow> testfs_dir_name_to_inode_nr dir name s) (\<lambda>old.
     if old \<ge> 0 then Inr (- EEXIST, s)
     else
       bindr (testfs_create_inode type s) (\<lambda>(ret, inp, s1).
       if ret < 0 then Inr (ret, s1)
       else
         bindr (not_null inp) (\<lambda>p.
         bindr (testfs_inode_get_nr p s1) (\<lambda>inode_nr.
         bindr (if type = I_DIR then
                  bindr (case dir of None \<Rightarrow> Inr inode_nr | Some dir \<Rightarrow> testfs_inode_get_nr dir s1) (\<lambda>p_inode_nr.
                  testfs_create_empty_dir p_inode_nr p s1)
                else Inr (ret, s1)) (\<lambda>(ret, s2).
         if ret < 0 then bindr (testfs_remove_inode p s2) (\<lambda>s3. Inr (ret, s3))
         else
           bindr (case dir of None \<Rightarrow> Inr (ret, s2)
                  | Some dir \<Rightarrow>
                      bindr (testfs_add_dirent dir name inode_nr s2) (\<lambda>(ret, s3).
                      if ret < 0 then Inr (ret, s3)
                      else bindr (testfs_sync_inode dir s3) (\<lambda>s4. Inr (ret, s4)))) (\<lambda>(ret, s5).
           if ret < 0 then bindr (testfs_remove_inode p s5) (\<lambda>s6. Inr (ret, s6))
           else
             bindr (testfs_sync_inode p s5) (\<lambda>s6.
             bindr (testfs_put_inode p s6) (\<lambda>s7.
             Inr (0, s7)))))))))"

definition testfs_make_root_dir :: "fs \<Rightarrow> (int \<times> fs) result" where
  "testfs_make_root_dir s = testfs_create_file_or_dir None I_DIR [] s"

end
