(* ===== verification/DirData.thy ===== *)
theory DirData
  imports Dir
begin

text \<open>
  Directories as lists of entries.  \<open>dir_holds s x es\<close> says that the file \<open>x\<close> is a directory whose
  bytes are the encodings of the entries \<open>es\<close>; on such a directory the scanning loops of \<open>dir.c\<close>
  are functions of \<open>es\<close>, and adding or removing an entry gives the directory of the changed list.
\<close>

section \<open>Entries and their encoding\<close>

definition dirent_ok :: "dirent \<Rightarrow> bool" where
  "dirent_ok e \<longleftrightarrow> 0 < d_name_len e \<and> d_name_len e < 2 ^ 31 - 8 \<and> is_s32 (d_inode_nr e)
     \<and> length (d_name e) = nat (d_name_len e) \<and> 0 \<in> set (d_name e)"

definition name_of :: "dirent \<Rightarrow> cstr" where
  "name_of e = takeWhile (\<lambda>b. b \<noteq> 0) (d_name e)"

definition dir_bytes :: "dirent list \<Rightarrow> byte list" where
  "dir_bytes es = concat (map enc_dirent es)"

definition dir_holds :: "fs \<Rightarrow> dinode \<Rightarrow> dirent list \<Rightarrow> bool" where
  "dir_holds s x es \<longleftrightarrow> i_type x = I_DIR \<and> i_size x = int (length (dir_bytes es))
     \<and> file_bytes (dev s) x 0 (length (dir_bytes es)) = dir_bytes es
     \<and> (\<forall>e \<in> set es. dirent_ok e) \<and> length (dir_bytes es) \<le> 2058 * BLOCK_SIZE"

lemma dir_bytes_simps [simp]: "dir_bytes [] = []" "dir_bytes (e # es) = enc_dirent e @ dir_bytes es"
  "dir_bytes (es @ fs) = dir_bytes es @ dir_bytes fs"
  by (simp_all add: dir_bytes_def)

lemma length_enc_dirent [simp]: "length (enc_dirent e) = 8 + length (d_name e)"
  by (simp add: enc_dirent_def)

lemma dirent_decode:
  assumes "dirent_ok e"
  shows "dec_s32 (take 8 (enc_dirent e @ r)) = d_name_len e" "dec_s32 (drop 4 (take 8 (enc_dirent e @ r))) = d_inode_nr e"
    "drop 8 (enc_dirent e @ r) = d_name e @ r"
proof -
  have t: "dec_s32 (take k bs) = dec_s32 bs" if "4 \<le> k" for k bs
    using that by (simp add: dec_s32_def min_absorb1)
  show "dec_s32 (take 8 (enc_dirent e @ r)) = d_name_len e"
    unfolding t [of 8, simplified] enc_dirent_def using assms by (simp add: dirent_ok_def dec_enc_s32)
  have "drop 4 (take 8 (enc_dirent e @ r)) = take 4 (enc32 (d_inode_nr e) @ d_name e @ r)"
    by (simp add: enc_dirent_def drop_take)
  then show "dec_s32 (drop 4 (take 8 (enc_dirent e @ r))) = d_inode_nr e"
    unfolding t [of 4, simplified] using assms t [of 4] by (simp only: order_refl) (simp add: dirent_ok_def dec_enc_s32)
  show "drop 8 (enc_dirent e @ r) = d_name e @ r" by (simp add: enc_dirent_def)
qed

lemma file_bytes_part:
  assumes "file_bytes d x 0 n = bs" "off + len \<le> n"
  shows "file_bytes d x off len = take len (drop off bs)"
  using assms by (intro nth_equalityI) (auto simp: file_bytes_def)

lemma read_dir:
  assumes o: "opened s p k x d" and ok: "file_ok s x" and h: "dir_holds s x es"
    and len: "off + len \<le> length (dir_bytes es)" "len < 2 ^ 31" "0 < len"
  shows "testfs_read_data p (replicate len 0) (int off) (int len) s = Inr (int len, take len (drop off (dir_bytes es)))"
proof -
  have max: "length (dir_bytes es) \<le> 2058 * BLOCK_SIZE" "i_size x = int (length (dir_bytes es))"
    and b: "file_bytes (dev s) x 0 (length (dir_bytes es)) = dir_bytes es" using h by (simp_all add: dir_holds_def)
  have "testfs_read_data p (replicate len 0) (int off) (int len) s
      = Inr (int len, file_bytes (dev s) x off len @ drop len (replicate len 0))"
  proof (rule read_data_eq [OF o ok len(2)])
    show "regular (dev s) x n" if "n * BLOCK_SIZE < off + len \<or> n = off div BLOCK_SIZE" for n
    proof -
      have "off div BLOCK_SIZE * BLOCK_SIZE < off + len" using len(3) block_parts(1) [of off] by linarith
      with that have "n * BLOCK_SIZE < off + len" by blast
      then have "n * BLOCK_SIZE < 2058 * BLOCK_SIZE" using len(1) max(1) by linarith
      then have "n < 2058" by (simp only: mult_less_cancel2)
      then show ?thesis by (simp add: regular_def)
    qed
  qed (use len max in simp_all)
  then show ?thesis using file_bytes_part [OF b len(1)] by simp
qed

text \<open>One step of a scan.\<close>

lemma next_dirent_at:
  assumes o: "opened s p k x d" and ok: "file_ok s x" and h: "dir_holds s x (pre @ e # post)"
  shows "testfs_next_dirent p (int (length (dir_bytes pre))) s
    = Inr (Some e, int (length (dir_bytes (pre @ [e]))))"
proof -
  let ?es = "pre @ e # post" and ?off = "length (dir_bytes pre)"
  have e: "dirent_ok e" and t: "i_type x = I_DIR" "i_size x = int (length (dir_bytes ?es))"
    using h by (simp_all add: dir_holds_def)
  have nl: "length (d_name e) = nat (d_name_len e)" "0 < d_name_len e" "d_name_len e < 2 ^ 31 - 8"
    using e by (simp_all add: dirent_ok_def)
  from opened_deref [OF o] obtain i where i: "deref p s = Inr i" "din i = x" by blast
  have mal: "malloc_ok s n" for n by (rule inv_malloc [OF opened_inv [OF o]])
  have drop0: "drop ?off (dir_bytes ?es) = enc_dirent e @ dir_bytes post" by simp
  have r1: "testfs_read_data p (replicate 8 0) (int ?off) 8 s = Inr (8, take 8 (enc_dirent e @ dir_bytes post))"
    using read_dir [OF o ok h, of ?off 8] by (simp add: drop0 del: take_append)
  have "drop (?off + 8) (dir_bytes ?es) = drop 8 (drop ?off (dir_bytes ?es))" by (simp add: add.commute)
  then have drop8: "drop (?off + 8) (dir_bytes ?es) = d_name e @ dir_bytes post"
    unfolding drop0 dirent_decode(3) [OF e] .
  have len: "?off + 8 + length (d_name e) \<le> length (dir_bytes ?es)" by simp
  have "length (d_name e) < 2 ^ 31" "0 < length (d_name e)" using nl by auto
  from read_dir [OF o ok h len this] have r2: "testfs_read_data p (replicate (nat (d_name_len e)) 0) (int ?off + 8) (d_name_len e) s
      = Inr (d_name_len e, d_name e)"
    using nl by (simp add: drop8 del: dir_bytes_simps(3))
  have sz: "\<not> i_size x \<le> int ?off" unfolding t(2) by simp
  show ?thesis
    using i t(1) sz r1 r2 nl mal
    by (simp add: testfs_next_dirent_def testfs_inode_get_type_def testfs_inode_get_size_def Let_def
        dirent_decode(1,2) [OF e] del: take_append)
qed

lemma next_dirent_end:
  assumes o: "opened s p k x d" and h: "dir_holds s x es"
  shows "testfs_next_dirent p (int (length (dir_bytes es))) s = Inr (None, int (length (dir_bytes es)))"
proof -
  from opened_deref [OF o] obtain i where "deref p s = Inr i" "din i = x" by blast
  with h show ?thesis
    by (simp add: testfs_next_dirent_def testfs_inode_get_type_def testfs_inode_get_size_def dir_holds_def)
qed

lemma c_streq_name:
  assumes "0 \<in> set bs" "0 \<notin> set name"
  shows "c_streq bs name = Inr (takeWhile (\<lambda>b. b \<noteq> 0) bs = name)"
  using assms
proof (induction bs arbitrary: name)
  case (Cons b bs)
  then show ?case by (cases name) auto
qed simp

section \<open>Looking up\<close>

fun dir_lookup :: "dirent list \<Rightarrow> cstr \<Rightarrow> int option" where
  "dir_lookup [] name = None"
| "dir_lookup (e # es) name =
     (if 0 \<le> d_inode_nr e \<and> name_of e = name then Some (d_inode_nr e) else dir_lookup es name)"

lemma dirent_ok_in: "dir_holds s x es \<Longrightarrow> e \<in> set es \<Longrightarrow> dirent_ok e"
  by (simp add: dir_holds_def)

lemma streq_entry: "dirent_ok e \<Longrightarrow> 0 \<notin> set name \<Longrightarrow> c_streq (d_name e) name = Inr (name_of e = name)"
  by (simp add: dirent_ok_def c_streq_name name_of_def)

lemma name_loop_eq:
  assumes o: "opened s p k x d" and ok: "file_ok s x" and nm: "0 \<notin> set name"
  shows "dir_holds s x (pre @ post) \<Longrightarrow> name_loop p name (int (length (dir_bytes pre))) s
    = Inr (case dir_lookup post name of None \<Rightarrow> - ENOENT | Some nr \<Rightarrow> nr)"
proof (induction post arbitrary: pre)
  case Nil
  then show ?case using next_dirent_end [OF o, of pre] by (subst name_loop.simps) simp
next
  case (Cons e post)
  have e: "dirent_ok e" using dirent_ok_in [OF Cons.prems] by simp
  have "dir_holds s x ((pre @ [e]) @ post)" using Cons.prems by simp
  from Cons.IH [OF this] show ?case
    using next_dirent_at [OF o ok Cons.prems] streq_entry [OF e nm]
    by (subst name_loop.simps) (simp del: dir_bytes_simps(3))
qed

lemma name_to_nr_eq:
  assumes o: "opened s p k x d" and ok: "file_ok s x" and h: "dir_holds s x es" and nm: "0 \<notin> set name"
  shows "testfs_dir_name_to_inode_nr p name s = Inr (case dir_lookup es name of None \<Rightarrow> - ENOENT | Some nr \<Rightarrow> nr)"
proof -
  from opened_deref [OF o] obtain i where "deref p s = Inr i" "din i = x" by blast
  moreover have "i_type x = I_DIR" using h by (simp add: dir_holds_def)
  ultimately show ?thesis
    using name_loop_eq [OF o ok nm, of "[]" es] h
    by (simp add: testfs_dir_name_to_inode_nr_def testfs_inode_get_type_def)
qed

section \<open>Adding\<close>

definition new_dirent :: "cstr \<Rightarrow> int \<Rightarrow> dirent" where
  "new_dirent name nr = \<lparr>d_name_len = int (length name) + 1, d_inode_nr = nr, d_name = name @ [0]\<rparr>"

text \<open>Where a new entry goes: the first removed entry of the same length, or the end.\<close>

fun add_place :: "dirent list \<Rightarrow> cstr \<Rightarrow> int \<Rightarrow> nat option" where
  "add_place [] name len = Some 0"
| "add_place (e # es) name len =
     (if 0 \<le> d_inode_nr e \<and> name_of e = name then None
      else if 0 \<le> d_inode_nr e \<or> d_name_len e \<noteq> len then map_option Suc (add_place es name len)
      else Some 0)"

definition put_entry :: "dirent list \<Rightarrow> nat \<Rightarrow> dirent \<Rightarrow> dirent list" where
  "put_entry es i e = take i es @ e # drop (Suc i) es"

lemma put_entry_simps [simp]: "put_entry [] i e = [e]" "put_entry (a # es) 0 e = e # es"
  "put_entry (a # es) (Suc i) e = a # put_entry es i e"
  by (simp_all add: put_entry_def)

lemma add_place_slot:
  "add_place es name len = Some i \<Longrightarrow> i \<le> length es
    \<and> (i < length es \<longrightarrow> d_name_len (es ! i) = len \<and> d_inode_nr (es ! i) < 0)"
  by (induction es arbitrary: i) (auto split: if_splits simp: less_Suc_eq_0_disj)

text \<open>Said without the loop: the first removed entry of the length, if the name is not live before it.\<close>

definition reuse_place :: "dirent list \<Rightarrow> int \<Rightarrow> nat" where
  "reuse_place es len = length (takeWhile (\<lambda>e. \<not> (d_inode_nr e < 0 \<and> d_name_len e = len)) es)"

lemma add_place_reuse:
  "add_place es name len
    = (if dir_lookup (take (reuse_place es len) es) name = None then Some (reuse_place es len) else None)"
  by (induction es) (auto simp: reuse_place_def)

lemma add_place_exists: "add_place es name len = None \<Longrightarrow> dir_lookup es name \<noteq> None"
  by (induction es) (auto split: if_splits)

lemma takeWhile_name [simp]: "0 \<notin> set name \<Longrightarrow> takeWhile (\<lambda>b. b \<noteq> 0) (name @ [0]) = name"
  by (induction name) auto

lemma name_of_new [simp]: "0 \<notin> set name \<Longrightarrow> name_of (new_dirent name nr) = name"
  "d_inode_nr (new_dirent name nr) = nr" "d_name_len (new_dirent name nr) = int (length name) + 1"
  by (simp_all add: name_of_def new_dirent_def)

lemma lookup_put_same:
  assumes "0 \<le> nr" "0 \<notin> set name" "add_place es name len = Some i"
  shows "dir_lookup (put_entry es i (new_dirent name nr)) name = Some nr"
  using assms(3)
proof (induction es arbitrary: i)
  case Nil
  then show ?case using assms(1,2) by simp
next
  case (Cons e es)
  then show ?case
    using assms(1,2) by (auto split: if_splits)
qed

lemma lookup_put_other:
  assumes "0 \<notin> set name" "add_place es name len = Some i" "name' \<noteq> name"
  shows "dir_lookup (put_entry es i (new_dirent name nr)) name' = dir_lookup es name'"
  using assms(2)
proof (induction es arbitrary: i)
  case Nil
  then show ?case using assms(1,3) by simp
next
  case (Cons e es)
  then show ?case
    using assms(1,3) by (auto split: if_splits)
qed

lemma add_loop_eq:
  assumes o: "opened s p k x d" and ok: "file_ok s x" and nm: "0 \<notin> set name"
  shows "dir_holds s x (pre @ post) \<Longrightarrow>
    (case add_place post name len of
       None \<Rightarrow> \<exists>off. add_loop p name len (int (length (dir_bytes pre))) s = Inr (- EEXIST, False, off)
     | Some i \<Rightarrow> add_loop p name len (int (length (dir_bytes pre))) s
         = Inr (0, i < length post, int (length (dir_bytes (pre @ take i post)))))"
proof (induction post arbitrary: pre)
  case Nil
  then show ?case using next_dirent_end [OF o, of pre] by (subst add_loop.simps) simp
next
  case (Cons e post)
  have e: "dirent_ok e" using dirent_ok_in [OF Cons.prems] by simp
  have h: "dir_holds s x ((pre @ [e]) @ post)" using Cons.prems by simp
  note nx = next_dirent_at [OF o ok Cons.prems]
  show ?case
  proof (cases "(0 \<le> d_inode_nr e \<and> name_of e = name) \<or> (d_inode_nr e < 0 \<and> d_name_len e = len)")
    case True
    then show ?thesis
      using nx streq_entry [OF e nm]
      by (subst (1 2) add_loop.simps) (auto simp del: dir_bytes_simps(3))
  next
    case False
    have "add_loop p name len (int (length (dir_bytes pre))) s
        = add_loop p name len (int (length (dir_bytes (pre @ [e])))) s"
      using nx streq_entry [OF e nm] False
      by (subst add_loop.simps) (auto simp del: dir_bytes_simps(3))
    moreover have "add_place (e # post) name len = map_option Suc (add_place post name len)"
      using False by auto
    ultimately show ?thesis
      using Cons.IH [OF h] by (cases "add_place post name len") (simp_all del: dir_bytes_simps(3))
  qed
qed

text \<open>Writing a range of a file, on its list of bytes.\<close>

lemma written_bytes:
  assumes b: "file_bytes d x 0 n = bs" and w: "written d x d' x' off w" and off: "off \<le> n"
  shows "file_bytes d' x' 0 (max n (off + length w)) = take off bs @ w @ drop (off + length w) bs"
proof (rule nth_equalityI)
  have len: "length bs = n" using b by auto
  then show "length (file_bytes d' x' 0 (max n (off + length w))) = length (take off bs @ w @ drop (off + length w) bs)"
    using off by simp
  fix j assume "j < length (file_bytes d' x' 0 (max n (off + length w)))"
  then have j: "j < max n (off + length w)" by simp
  have old: "file_byte d x j = bs ! j" if "j < n"
  proof -
    have "file_bytes d x 0 n ! j = file_byte d x j" using that by (simp add: file_bytes_def)
    then show ?thesis unfolding b by simp
  qed
  have "file_bytes d' x' 0 (max n (off + length w)) ! j = file_byte d' x' j" using j by (simp add: file_bytes_def)
  also have "\<dots> = (take off bs @ w @ drop (off + length w) bs) ! j"
    using w j old off len by (auto simp: written_def nth_append)
  finally show "file_bytes d' x' 0 (max n (off + length w)) ! j = (take off bs @ w @ drop (off + length w) bs) ! j" .
qed

lemma put_entry_bytes:
  assumes "i \<le> length es" "i < length es \<longrightarrow> length (d_name e) = length (d_name (es ! i))"
  shows "dir_bytes (put_entry es i e) = take (length (dir_bytes (take i es))) (dir_bytes es) @ enc_dirent e
      @ drop (length (dir_bytes (take i es)) + length (enc_dirent e)) (dir_bytes es)"
    and "length (dir_bytes (put_entry es i e))
      = max (length (dir_bytes es)) (length (dir_bytes (take i es)) + length (enc_dirent e))"
proof -
  have *: "dir_bytes (put_entry es i e) = take (length (dir_bytes (take i es))) (dir_bytes es) @ enc_dirent e
      @ drop (length (dir_bytes (take i es)) + length (enc_dirent e)) (dir_bytes es)
    \<and> length (dir_bytes (put_entry es i e))
      = max (length (dir_bytes es)) (length (dir_bytes (take i es)) + length (enc_dirent e))"
  proof (cases "i < length es")
    case True
    then obtain a e0 b where es: "es = a @ e0 # b" "length a = i" using id_take_nth_drop [OF True] by force
    then have "length (d_name e) = length (d_name e0)" using assms(2) True by (simp add: nth_append)
    then show ?thesis using es by (simp add: put_entry_def)
  next
    case False
    then have "i = length es" using assms(1) by simp
    then show ?thesis by (simp add: put_entry_def)
  qed
  show "dir_bytes (put_entry es i e) = take (length (dir_bytes (take i es))) (dir_bytes es) @ enc_dirent e
      @ drop (length (dir_bytes (take i es)) + length (enc_dirent e)) (dir_bytes es)" by (rule conjunct1 [OF *])
  show "length (dir_bytes (put_entry es i e))
      = max (length (dir_bytes es)) (length (dir_bytes (take i es)) + length (enc_dirent e))" by (rule conjunct2 [OF *])
qed

lemma holds_put:
  assumes h: "dir_holds s x es" and i: "i \<le> length es" "i < length es \<longrightarrow> length (d_name e) = length (d_name (es ! i))"
    and e: "dirent_ok e" and w: "written (dev s) x (dev s') x' (length (dir_bytes (take i es))) (enc_dirent e)"
    and sz: "i_size x' = max (i_size x) (int (length (dir_bytes (take i es)) + length (enc_dirent e)))"
    and t: "i_type x' = i_type x" and max: "length (dir_bytes (take i es)) + length (enc_dirent e) \<le> 2058 * BLOCK_SIZE"
  shows "dir_holds s' x' (put_entry es i e)"
proof -
  note pb = put_entry_bytes [OF i]
  have "dir_bytes es = dir_bytes (take i es) @ dir_bytes (drop i es)"
    by (metis append_take_drop_id dir_bytes_simps(3))
  then have off: "length (dir_bytes (take i es)) \<le> length (dir_bytes es)" by simp
  have "file_bytes (dev s) x 0 (length (dir_bytes es)) = dir_bytes es" using h by (simp add: dir_holds_def)
  from written_bytes [OF this w off] have
    "file_bytes (dev s') x' 0 (length (dir_bytes (put_entry es i e))) = dir_bytes (put_entry es i e)"
    unfolding pb(2) by (simp only: pb(1) [symmetric])
  moreover have "\<forall>e' \<in> set (put_entry es i e). dirent_ok e'"
    using h e set_take_subset [of i es] set_drop_subset [of "Suc i" es] by (auto simp: put_entry_def dir_holds_def)
  moreover have "i_size x' = int (length (dir_bytes (put_entry es i e)))"
    unfolding sz pb(2) using h by (simp only: dir_holds_def of_nat_max)
  moreover have "length (dir_bytes (put_entry es i e)) \<le> 2058 * BLOCK_SIZE"
    unfolding pb(2) using h max by (simp only: dir_holds_def max.bounded_iff)
  moreover have "i_type x' = I_DIR" using h t by (simp only: dir_holds_def)
  ultimately show ?thesis unfolding dir_holds_def by blast
qed

text \<open>The whole of \<open>testfs_add_dirent\<close>.\<close>

lemma new_dirent_ok: "0 \<le> nr \<Longrightarrow> nr < 2 ^ 31 \<Longrightarrow> int (length name) < 2 ^ 31 - 9 \<Longrightarrow> dirent_ok (new_dirent name nr)"
  by (simp add: dirent_ok_def new_dirent_def)

lemma put_place:
  assumes h: "dir_holds s x es" and p: "add_place es name (int (length name) + 1) = Some i"
  shows "i \<le> length es" "i < length es \<longrightarrow> length (d_name (new_dirent name nr)) = length (d_name (es ! i))"
proof -
  note sl = add_place_slot [OF p]
  show "i \<le> length es" using sl by simp
  show "i < length es \<longrightarrow> length (d_name (new_dirent name nr)) = length (d_name (es ! i))"
  proof
    assume i: "i < length es"
    with dirent_ok_in [OF h] have "dirent_ok (es ! i)" by simp
    with sl i show "length (d_name (new_dirent name nr)) = length (d_name (es ! i))"
      by (simp add: dirent_ok_def new_dirent_def)
  qed
qed

lemma add_dirent_spec:
  assumes o: "opened s p k x d" and ok: "file_ok s x" and h: "dir_holds s x es"
    and nm: "0 \<notin> set name" and nr: "0 \<le> nr" "nr < 2 ^ 31"
    and room: "length (dir_bytes es) + 9 + length name \<le> 2058 * BLOCK_SIZE"
  shows "case add_place es name (int (length name) + 1) of
    None \<Rightarrow> testfs_add_dirent p name nr s = Inr (- EEXIST, s)
  | Some i \<Rightarrow> \<exists>r s' x'. testfs_add_dirent p name nr s = Inr (r, s') \<and> wpost p k s x s' x'
      \<and> (r = int (length name) + 9 \<and> opened s' p k x' True \<and> dir_holds s' x' (put_entry es i (new_dirent name nr))
            \<and> (length (dir_bytes es) + 9 + length name \<le> BLOCK_SIZE \<longrightarrow> card (bused s') \<le> card (bused s) + 6)
         \<or> r = - ENOSPC \<and> max_fs_blocks (sb s') \<le> int (card (bused s')) + 2
            \<and> (length (dir_bytes es) + 9 + length name \<le> BLOCK_SIZE \<longrightarrow> max_fs_blocks (sb s) \<le> int (card (bused s)) + 2))"
proof -
  from opened_deref [OF o] obtain ino where ino: "deref p s = Inr ino" "din ino = x" by blast
  have t: "i_type x = I_DIR" and sz: "i_size x = int (length (dir_bytes es))" using h by (simp_all add: dir_holds_def)
  have nl: "int (length name) < 2 ^ 31 - 9" using room by (simp add: BLOCK_SIZE_def)
  have len: "s32 (int (length name) + 1) = int (length name) + 1" using nl by (intro s32_id) auto
  have mal: "malloc_ok s n" for n by (rule inv_malloc [OF opened_inv [OF o]])
  let ?len = "int (length name) + 1"
  note loop = add_loop_eq [OF o ok nm, of "[]" es ?len, simplified, OF h]
  show ?thesis
  proof (cases "add_place es name ?len")
    case None
    with loop obtain off where "add_loop p name ?len 0 s = Inr (- EEXIST, False, off)" by auto
    then show ?thesis using ino t len None by (simp add: testfs_add_dirent_def testfs_inode_get_type_def)
  next
    case (Some i)
    note i = put_place [OF h Some]
    let ?e = "new_dirent name nr" and ?off = "length (dir_bytes (take i es))"
    have l: "add_loop p name ?len 0 s = Inr (0, i < length es, int ?off)" using loop Some by simp
    have "dir_bytes es = dir_bytes (take i es) @ dir_bytes (drop i es)"
      by (metis append_take_drop_id dir_bytes_simps(3))
    then have off: "?off \<le> length (dir_bytes es)" by simp
    have off31: "s32 (int ?off) = int ?off" using off room by (intro s32_id) (simp_all add: BLOCK_SIZE_def)
    have le: "length (enc_dirent ?e) = length name + 9" by (simp add: new_dirent_def)
    have "enc_dirent \<lparr>d_name_len = ?len, d_inode_nr = nr,
        d_name = name @ 0 # replicate (nat ?len - length name - 1) 0\<rparr> = enc_dirent ?e" by (simp add: new_dirent_def nat_add_distrib)
    moreover have "i < length es \<or> length (dir_bytes (take i es)) = length (dir_bytes es)"
      using i(1) by (cases "i = length es") simp_all
    ultimately have eq: "testfs_add_dirent p name nr s = testfs_write_data p (enc_dirent ?e) (int ?off) (int (length name + 9)) s"
      using ino t len l sz off31 mal nr
      by (simp add: testfs_add_dirent_def testfs_inode_get_type_def testfs_inode_get_size_def testfs_write_dirent_def
          Let_def algebra_simps)
    have max: "?off + (length name + 9) \<le> 2058 * BLOCK_SIZE" using off room by linarith
    have len9: "0 < length name + 9" "length name + 9 < 2 ^ 31" "length name + 9 \<le> length (enc_dirent ?e)"
      using nl le by auto
    from write_data_spec [OF o ok len9 max] obtain r s' x' where w: "testfs_add_dirent p name nr s = Inr (r, s')"
      "wpost p k s x s' x'"
      "r = int (length name + 9) \<and> written (dev s) x (dev s') x' ?off (enc_dirent ?e)
          \<and> i_size x' = max (i_size x) (int (?off + (length name + 9))) \<and> opened s' p k x' True
       \<or> r = - ENOSPC \<and> max_fs_blocks (sb s') \<le> int (card (bused s')) + 2"
      "0 \<le> r \<longrightarrow> grew s (?off mod BLOCK_SIZE + (length name + 9) + BLOCK_SIZE) s'"
      unfolding eq write_outcome_def using le by auto
    have one: "?off mod BLOCK_SIZE + (length name + 9) \<le> BLOCK_SIZE" if "length (dir_bytes es) + 9 + length name \<le> BLOCK_SIZE"
      using off that by simp
    have few: "card (bused s') \<le> card (bused s) + 6" if "0 \<le> r" "length (dir_bytes es) + 9 + length name \<le> BLOCK_SIZE"
      using w(4) one [OF that(2)] that(1) by (simp add: grew_def BLOCK_SIZE_def)
    have full: "max_fs_blocks (sb s) \<le> int (card (bused s)) + 2"
      if "r = - ENOSPC" "length (dir_bytes es) + 9 + length name \<le> BLOCK_SIZE"
    proof (rule ccontr)
      assume "\<not> ?thesis"
      with one [OF that(2)] show False
        using write_small [OF o ok _ len9(1,3) max] w(1) that(1) unfolding eq by fastforce
    qed
    have ty: "i_type x' = i_type x" using w(2) by (simp add: wpost_def wframe_def)
    have "dir_holds s' x' (put_entry es i ?e)"
      if "written (dev s) x (dev s') x' ?off (enc_dirent ?e)" "i_size x' = max (i_size x) (int (?off + (length name + 9)))"
      using that max ty unfolding le [symmetric]
      by (intro holds_put [OF h i new_dirent_ok [OF nr nl]]) simp_all
    with w full few Some show ?thesis by fastforce
  qed
qed

end
