(* ===== verification/DirOps.thy ===== *)
theory DirOps
  imports DirData
begin

text \<open>
  The operations of \<open>dir.c\<close> on a consistent file system: looking a name up, adding an entry and
  creating a file.
\<close>

section \<open>Lemmas\<close>

text \<open>The pointer that \<open>testfs_create_inode\<close> returns is not one that is in use for another inode.\<close>

lemma created_other:
  assumes s: "inode_inv s" and s': "inode_inv s'" and p: "opened s p k x d" and q: "opened s' q k' x' d'"
    and ne: "k \<noteq> k'" and refs: "irefs s' = (irefs s)(k' := irefs s k' + 1)"
    and same: "\<And>r. r \<noteq> q \<Longrightarrow> iobj s' r = iobj s r"
  shows "p \<noteq> q"
proof
  assume pq: "p = q"
  from p obtain i where i: "iheap s p = Some i" "i_nr i = int k" by (auto simp: opened_def)
  have pos: "0 < i_count i" using inv_hash [OF s] i(1) by (simp add: hash_inv_def)
  have "cached s (int k) = Some i" using cached_Some [OF inv_hash [OF s]] i by blast
  then have "irefs s' k = i_count i" using ne by (simp add: irefs_def refs)
  with pos obtain j where "cached s' (int k) = Some j" by (auto simp: irefs_def split: option.splits)
  then obtain p' where p': "iheap s' p' = Some j" "i_nr j = int k" using cached_Some [OF inv_hash [OF s']] by blast
  have "p' \<noteq> q" using q p' ne by (auto simp: opened_def)
  then have "iobj s p' = iobj s' p'" using same by simp
  then obtain j' where j': "iheap s p' = Some j'" "nat (i_nr j') = k" using p' by (auto simp: iobj_def)
  then have "i_nr j' = i_nr i" using inv_nr [OF s j'(1)] i(2) by (auto simp: nat_eq_iff)
  then have "p' = p" using hash_inj [OF inv_hash [OF s] j'(1) i(1)] by simp
  with pq \<open>p' \<noteq> q\<close> show False by simp
qed

lemma opened_same:
  assumes o: "opened s p k x d" and i: "inode_inv s'" and same: "iobj s' p = iobj s p"
  shows "opened s' p k x d"
proof -
  obtain d' where d': "iobj s p = Some (k, x, d')" "d \<longrightarrow> d'" using iobj_opened [OF o] by blast
  then have "opened s' p k x d'" using opened_iobj [OF i] same by simp
  with d'(2) opened_weaken show ?thesis by (cases d) auto
qed

text \<open>A directory keeps its entries when its blocks are kept.\<close>

lemma dir_holds_same:
  assumes "dir_holds s x es" "\<And>n. file_block (dev s') x n = file_block (dev s) x n"
  shows "dir_holds s' x es"
proof -
  have "file_bytes (dev s') x 0 n = file_bytes (dev s) x 0 n" for n
    using assms(2) by (simp add: file_bytes_def file_byte_def)
  with assms(1) show ?thesis by (simp add: dir_holds_def)
qed

lemma dir_holds_kept:
  assumes c: "consistent s" and c': "consistent s'" and o: "opened s p k x d" and b: "blocks_kept {} s s'"
    and u: "bused s \<subseteq> bused s'" and h: "dir_holds s x es"
  shows "dir_holds s' x es"
proof -
  have "own (addr (dev s) x) \<subseteq> bused s'" using cons_own_used [OF c] opened_view [OF o] u by blast
  from untouched_file(3) [OF opened_file_ok [OF c o] b _ this] show ?thesis by (intro dir_holds_same [OF h]) simp
qed

text \<open>Creating a regular file in a directory, on every outcome.\<close>

definition created_file :: "fs \<Rightarrow> nat \<Rightarrow> nat \<Rightarrow> dinode \<Rightarrow> dirent list \<Rightarrow> cstr \<Rightarrow> fs \<Rightarrow> bool" where
  "created_file s p k x es name s' \<longleftrightarrow> (\<exists>nr i x'. nr < NR_INODES \<and> nr \<notin> iused s \<and> iused s' = insert nr (iused s)
     \<and> add_place es name (int (length name) + 1) = Some i
     \<and> opened s' p k x' False \<and> dir_holds s' x' (put_entry es i (new_dirent name (int nr)))
     \<and> iview s' nr = empty_file \<and> (\<forall>j < NR_INODES. j \<noteq> k \<and> j \<noteq> nr \<longrightarrow> iview s' j = iview s j)
     \<and> irefs s' = irefs s \<and> out s' = out s
     \<and> (length (dir_bytes es) + 9 + length name \<le> BLOCK_SIZE \<longrightarrow> card (bused s') \<le> card (bused s) + 6)
     \<and> max_fs_blocks (sb s') = max_fs_blocks (sb s))"

text \<open>Why there is no room: all inode numbers are in use, or at most two blocks are free at the end; and if the
  entry fits into the first block of the directory, at most two blocks were free before.\<close>

definition no_room :: "fs \<Rightarrow> nat \<Rightarrow> fs \<Rightarrow> bool" where
  "no_room s len s' \<longleftrightarrow> {..<NR_INODES} \<subseteq> iused s
     \<or> max_fs_blocks (sb s) \<le> int (card (bused s')) + 2
       \<and> (len \<le> BLOCK_SIZE \<longrightarrow> max_fs_blocks (sb s) \<le> int (card (bused s)) + 2)"

lemma create_file_finish:
  assumes c: "consistent s" and p: "opened s p k x d" and q: "iobj s q = Some (nr, y, e)" and ne: "p \<noteq> q"
    and h: "dir_holds s x es"
  obtains s1 s2 s3 where "testfs_sync_inode p s = Inr s1" "testfs_sync_inode q s1 = Inr s2"
    "testfs_put_inode q s2 = Inr s3" "consistent s3" "opened s3 p k x False" "dir_holds s3 x es"
    "iview s3 = iview s" "irefs s3 = (irefs s)(nr := irefs s nr - 1)" "iused s3 = iused s" "out s3 = out s" "bused s3 = bused s" "max_fs_blocks (sb s3) = max_fs_blocks (sb s)"
proof -
  note i = cons_inv [OF c]
  from iobj_opened [OF p] obtain d' where "iobj s p = Some (k, x, d')" by blast
  from ic.sync_spec [OF i this] obtain s1 where s1: "testfs_sync_inode p s = Inr s1" "inode_inv s1" "cache_frame s s1"
    "iobj s1 p = Some (k, x, False)" "iobj s1 q = iobj s q" "iview s1 = iview s" "irefs s1 = irefs s"
    using ne by auto
  from s1(5) q have "iobj s1 q = Some (nr, y, e)" by simp
  from ic.sync_put [OF s1(2) this] obtain s2 s3 where s3: "testfs_sync_inode q s1 = Inr s2"
    "testfs_put_inode q s2 = Inr s3" "inode_inv s3" "cache_frame s1 s3" "iview s3 = iview s1"
    "irefs s3 = (irefs s1)(nr := irefs s1 nr - 1)" "iobj s3 p = iobj s1 p"
    using ne by metis
  have f: "cache_frame s s3" by (rule cache_frame_trans [OF s1(3) s3(4)])
  have v: "iview s3 = iview s" using s1(6) s3(5) by simp
  have c3: "consistent s3" by (rule consistent_cache [OF c s3(3) v f])
  have "opened s3 p k x False" using opened_iobj [OF s3(3)] s3(7) s1(4) by simp
  moreover have "dir_holds s3 x es"
    using dir_holds_kept [OF c c3 p blocks_kept_data [OF data_frame_cache [OF f]] _ h] cache_frame_used [OF f] by simp
  moreover have "out s3 = out s" "max_fs_blocks (sb s3) = max_fs_blocks (sb s)" using f by (simp_all add: cache_frame_def)
  ultimately show thesis
    using that [OF s1(1) s3(1,2) c3] v s1(7) s3(6) cache_frame_used [OF f] by simp
qed

lemma create_file_spec:
  assumes c: "consistent s" and p: "opened s p k x d" and u: "k \<in> iused s" and h: "dir_holds s x es"
    and nm: "0 \<notin> set name" and room: "length (dir_bytes es) + 9 + length name \<le> 2058 * BLOCK_SIZE"
  shows "\<exists>r s'. testfs_create_file_or_dir (Some p) I_FILE name s = Inr (r, s') \<and> consistent s'
    \<and> (if dir_lookup es name \<noteq> None then r = - EEXIST \<and> s' = s
       else r = 0 \<and> created_file s p k x es name s'
         \<or> r = - ENOSPC \<and> iused s' = iused s \<and> no_room s (length (dir_bytes es) + 9 + length name) s')"
proof (cases "dir_lookup es name")
  case (Some nr)
  have "0 \<le> nr" using Some by (induction es) (auto split: if_splits)
  then show ?thesis
    using name_to_nr_eq [OF p opened_file_ok [OF c p] h nm] Some c by (simp add: testfs_create_file_or_dir_def)
next
  case None
  have look: "testfs_dir_name_to_inode_nr p name s = Inr (- ENOENT)"
    using name_to_nr_eq [OF p opened_file_ok [OF c p] h nm] None by simp
  have t: "is_s32 I_FILE" by simp
  note i = cons_inv [OF c]
  from i t show ?thesis
  proof (cases rule: create_inode_cases)
    case (full s1)
    have "consistent s1" by (rule consistent_create [OF c t full(1)])
    with full look None show ?thesis by (simp add: testfs_create_file_or_dir_def no_room_def)
  next
    case (made nr q s1)
    have c1: "consistent s1" by (rule consistent_create [OF c t made(1)])
    have z: "iview s nr = zero_dinode" by (rule cons_unused [OF c made(2,3)])
    have q: "opened s1 q nr empty_file True" using opened_iobj [OF made(6,7)] z by (simp add: empty_file_def)
    have kn: "k \<noteq> nr" using u made(3) by auto
    have pq: "p \<noteq> q" by (rule created_other [OF i made(6) p q kn made(9,10)])
    have p1: "opened s1 p k x d" by (rule opened_same [OF p made(6) made(10) [OF pq]])
    have h1: "dir_holds s1 x es"
      using dir_holds_kept [OF c c1 p blocks_kept_data [OF made(11)] _ h] made(5) by simp
    have nr: "0 \<le> int nr" "int nr < 2 ^ 31" using made(2) by auto
    from None add_place_exists obtain j where j: "add_place es name (int (length name) + 1) = Some j" by blast
    from add_dirent_spec [OF p1 opened_file_ok [OF c1 p1] h1 nm nr room] j obtain r s2 x' where
      w: "testfs_add_dirent p name (int nr) s1 = Inr (r, s2)" "wpost p k s1 x s2 x'" and
      r: "r = int (length name) + 9 \<and> dir_holds s2 x' (put_entry es j (new_dirent name (int nr)))
          \<and> (length (dir_bytes es) + 9 + length name \<le> BLOCK_SIZE \<longrightarrow> card (bused s2) \<le> card (bused s1) + 6)
        \<or> r = - ENOSPC \<and> max_fs_blocks (sb s2) \<le> int (card (bused s2)) + 2
          \<and> (length (dir_bytes es) + 9 + length name \<le> BLOCK_SIZE \<longrightarrow> max_fs_blocks (sb s1) \<le> int (card (bused s1)) + 2)"
      by auto
    have c2: "consistent s2" using made(4) u by (intro consistent_wpost [OF c1 p1 _ w(2)]) simp
    from w(2) obtain B where o2: "opened s2 p k x' False" and B: "kframe p k B s1 s2"
      by (auto simp: wpost_def wframe_def)
    have same: "max_fs_blocks (sb s1) = max_fs_blocks (sb s)" "max_fs_blocks (sb s2) = max_fs_blocks (sb s)"
      "out s2 = out s" "bused s1 = bused s" using made(5,11) B by (simp_all add: data_frame_def kframe_def)
    have fr: "iused s2 = iused s1" "irefs s2 = irefs s1" "iobj s2 q = iobj s1 q"
      "\<And>j. j < NR_INODES \<Longrightarrow> j \<noteq> k \<Longrightarrow> iview s2 j = iview s1 j" using B pq by (auto simp: kframe_def)
    have q2: "opened s2 q nr empty_file True" by (rule opened_same [OF q cons_inv [OF c2] fr(3)])
    from opened_deref [OF q] obtain ino where ino: "deref q s1 = Inr ino" "i_nr ino = int nr" by blast
    note start = look made(1) ino w(1)
    show ?thesis
    proof (cases "r = - ENOSPC")
      case True
      have "nr \<in> iused s2" using fr(1) made(4) by simp
      from remove_inode_spec [OF q2 opened_file_ok [OF c2 q2] empty_within this] obtain s3 where
        s3: "testfs_remove_inode q s2 = Inr s3" "iused s3 = iused s2 - {nr}" "bused s3 = bused s2 - own (addr (dev s2) empty_file)"
        by metis
      have "own (addr (dev s2) empty_file) = {}" by (simp add: own_def held_def empty_map empty_file_def zero_dinode_def)
      with s3(3) r True same have full: "no_room s (length (dir_bytes es) + 9 + length name) s3" by (auto simp: no_room_def)
      have "consistent s3" by (rule consistent_remove [OF c2 q2 \<open>nr \<in> iused s2\<close> empty_within s3(1)])
      with full start s3 True made(3,4) fr(1) None show ?thesis
        by (simp add: testfs_create_file_or_dir_def testfs_inode_get_nr_def not_null_def)
    next
      case False
      with r have r': "r = int (length name) + 9" and h2: "dir_holds s2 x' (put_entry es j (new_dirent name (int nr)))"
        and few: "length (dir_bytes es) + 9 + length name \<le> BLOCK_SIZE \<longrightarrow> card (bused s2) \<le> card (bused s1) + 6"
        by auto
      from iobj_opened [OF q2] obtain e where "iobj s2 q = Some (nr, empty_file, e)" by blast
      from create_file_finish [OF c2 o2 this pq h2] obtain s3 s4 s5 where
        f: "testfs_sync_inode p s2 = Inr s3" "testfs_sync_inode q s3 = Inr s4" "testfs_put_inode q s4 = Inr s5"
          "consistent s5" "opened s5 p k x' False" "dir_holds s5 x' (put_entry es j (new_dirent name (int nr)))"
          "iview s5 = iview s2" "irefs s5 = (irefs s2)(nr := irefs s2 nr - 1)" "iused s5 = iused s2" "out s5 = out s2" "bused s5 = bused s2" "max_fs_blocks (sb s5) = max_fs_blocks (sb s2)" by metis
      have res: "testfs_create_file_or_dir (Some p) I_FILE name s = Inr (0, s5)"
        using start f(1-3) r' by (simp add: testfs_create_file_or_dir_def testfs_inode_get_nr_def not_null_def)
      have "iview s5 nr = empty_file" using opened_view(2) [OF q2] f(7) by simp
      moreover have "iview s5 j = iview s j" if "j < NR_INODES" "j \<noteq> k \<and> j \<noteq> nr" for j
        using fr(4) made(8) f(7) that by simp
      moreover have "irefs s5 = irefs s" using f(8) fr(2) made(9) by auto
      ultimately have "created_file s p k x es name s5"
        unfolding created_file_def using made(2,3,4) fr(1) f(5,6,9,10,11,12) same(2,3,4) j few by auto
      with res f(4) None show ?thesis by auto
    qed
  qed
qed

text \<open>An empty directory on a disk of 1024 blocks, for the examples.\<close>

definition empty_dir :: dinode where
  "empty_dir = zero_dinode\<lparr>i_type := I_DIR\<rparr>"

lemma empty_dir_holds: "dir_holds s empty_dir []"
  by (simp add: dir_holds_def empty_dir_def zero_dinode_def file_bytes_def)

lemma test_dir:
  obtains p k s where "testfs_create_inode I_DIR test_fs = Inr (0, Some p, s)" "opened s p k empty_dir True"
    "consistent s" "k \<in> iused s" "iused s = {k}" "file_ok s empty_dir" "max_fs_blocks (sb s) = 1024" "bused s = {}"
    "\<And>j. j \<noteq> k \<Longrightarrow> irefs s j = 0"
proof -
  have t: "is_s32 I_DIR" by simp
  obtain p k s where s: "testfs_create_inode I_DIR test_fs = Inr (0, Some p, s)"
    "opened s p k empty_dir True" "iused s = {k}" "max_fs_blocks (sb s) = 1024" "bused s = {}"
    "\<And>j. j \<noteq> k \<Longrightarrow> irefs s j = 0"
    by (rule inode_on_blank [OF _ _ t, of 1024]) (simp_all add: empty_dir_def)
  have c: "consistent s" by (rule consistent_create [OF _ t s(1)], rule blank_consistent) simp_all
  show thesis using that [OF s(1,2) c _ s(3) opened_file_ok [OF c s(2)] s(4-6)] s(3) by simp
qed

lemma one_inode: "\<not> {..<NR_INODES} \<subseteq> {k}"
  using card_mono [of "{k}" "{..<NR_INODES}"] by auto

section \<open>Properties\<close>

text \<open>
  Looking a name up in a directory returns the inode number of the first live entry of that name,
  and \<open>-ENOENT\<close> when there is none; removed entries are not seen.
\<close>

theorem dir_lookup_correct:
  assumes "opened s p k x d" "file_ok s x" "dir_holds s x es" "0 \<notin> set name"
  shows "testfs_dir_name_to_inode_nr p name s = Inr (case dir_lookup es name of None \<Rightarrow> - ENOENT | Some nr \<Rightarrow> nr)"
  by (rule name_to_nr_eq [OF assms])

theorem dir_lookup_correct_witness:
  "\<exists>p k s. opened s p k empty_dir True \<and> testfs_dir_name_to_inode_nr p (lit ''a'') s = Inr (- ENOENT)"
proof -
  obtain p k s where s: "opened s p k empty_dir True" "file_ok s empty_dir" by (rule test_dir)
  have "0 \<notin> set (lit ''a'')" by (simp add: lit_def)
  from dir_lookup_correct [OF s empty_dir_holds this] s(1) show ?thesis by auto
qed

text \<open>
  C18: adding an entry to a directory (of at most 2058 blocks).  Its place \<open>i\<close> is that of the first
  removed entry of the same length, or the end if there is none.  When the name is live before that
  place the result is \<open>-EEXIST\<close> and nothing changes; else the entry goes to place \<open>i\<close> and the size of the
  entry is returned; or the disk is full, which an entry in the first block of the directory meets
  only when at most two blocks were free before.  After success the new name is found, with its
  number, and every other name is found as before.
\<close>

theorem add_dirent_correct:
  assumes "opened s p k x d" "file_ok s x" "dir_holds s x es" "0 \<notin> set name"
    and "0 \<le> nr" "nr < 2 ^ 31" "length (dir_bytes es) + 9 + length name \<le> 2058 * BLOCK_SIZE"
    and "i = reuse_place es (int (length name) + 1)"
  shows "\<exists>r s' x'. testfs_add_dirent p name nr s = Inr (r, s') \<and> opened s' p k x' False \<and> file_ok s' x'
    \<and> (if dir_lookup (take i es) name \<noteq> None then r = - EEXIST \<and> s' = s
       else r = int (length name) + 9
          \<and> dir_holds s' x' (put_entry es i (new_dirent name nr))
          \<and> testfs_dir_name_to_inode_nr p name s' = Inr nr
          \<and> (\<forall>n. n \<noteq> name \<and> 0 \<notin> set n \<longrightarrow>
                    testfs_dir_name_to_inode_nr p n s' = testfs_dir_name_to_inode_nr p n s)
         \<or> r = - ENOSPC \<and> max_fs_blocks (sb s') \<le> int (card (bused s')) + 2
          \<and> (length (dir_bytes es) + 9 + length name \<le> BLOCK_SIZE \<longrightarrow> max_fs_blocks (sb s) \<le> int (card (bused s)) + 2))"
proof (cases "dir_lookup (take i es) name = None")
  case False
  then have "add_place es name (int (length name) + 1) = None" by (simp add: add_place_reuse assms(8))
  with add_dirent_spec [OF assms(1-7)] False assms(1,2) show ?thesis
    by (auto intro: opened_weaken)
next
  case True
  then have Some: "add_place es name (int (length name) + 1) = Some i" by (simp add: add_place_reuse assms(8))
  with add_dirent_spec [OF assms(1-7)] obtain r s' x' where
    w: "testfs_add_dirent p name nr s = Inr (r, s')" "opened s' p k x' False" "file_ok s' x'" and
    r: "r = int (length name) + 9 \<and> dir_holds s' x' (put_entry es i (new_dirent name nr))
         \<or> r = - ENOSPC \<and> max_fs_blocks (sb s') \<le> int (card (bused s')) + 2
          \<and> (length (dir_bytes es) + 9 + length name \<le> BLOCK_SIZE \<longrightarrow> max_fs_blocks (sb s) \<le> int (card (bused s)) + 2)"
    by (auto simp: wpost_def)
  have "testfs_dir_name_to_inode_nr p name s' = Inr nr"
    and "\<forall>n. n \<noteq> name \<and> 0 \<notin> set n \<longrightarrow> testfs_dir_name_to_inode_nr p n s' = testfs_dir_name_to_inode_nr p n s"
    if h: "dir_holds s' x' (put_entry es i (new_dirent name nr))"
    using name_to_nr_eq [OF w(2,3) h] name_to_nr_eq [OF assms(1-3)] assms(4)
      lookup_put_same [OF assms(5,4) Some] lookup_put_other [OF assms(4) Some] by auto
  with w r True show ?thesis by metis
qed

theorem add_dirent_correct_witness:
  "\<exists>p k s s' x'. opened s p k empty_dir True \<and> testfs_add_dirent p (lit ''ab'') 7 s = Inr (11, s') \<and> file_ok s' x'
    \<and> dir_holds s' x' [new_dirent (lit ''ab'') 7] \<and> testfs_dir_name_to_inode_nr p (lit ''ab'') s' = Inr 7
    \<and> testfs_dir_name_to_inode_nr p (lit ''b'') s' = Inr (- ENOENT)"
proof -
  obtain p k s where s: "opened s p k empty_dir True" "file_ok s empty_dir" and free: "max_fs_blocks (sb s) = 1024" "bused s = {}"
    by (rule test_dir)
  have nm: "0 \<notin> set (lit ''ab'')" "0 \<notin> set (lit ''b'')" "lit ''b'' \<noteq> lit ''ab''" by (simp_all add: lit_def)
  have i: "0 = reuse_place [] (int (length (lit ''ab'')) + 1)" "dir_lookup (take 0 []) (lit ''ab'') = None"
    by (simp_all add: reuse_place_def)
  have len: "length (dir_bytes []) + 9 + length (lit ''ab'') \<le> 2058 * BLOCK_SIZE"
    "length (dir_bytes []) + 9 + length (lit ''ab'') \<le> BLOCK_SIZE" by (simp_all add: BLOCK_SIZE_def lit_def)
  from add_dirent_correct [OF s empty_dir_holds nm(1) _ _ len(1) i(1), of 7] obtain r s' x' where
    w: "testfs_add_dirent p (lit ''ab'') 7 s = Inr (r, s')" "file_ok s' x'" and
    r: "r = 11 \<and> dir_holds s' x' [new_dirent (lit ''ab'') 7] \<and> testfs_dir_name_to_inode_nr p (lit ''ab'') s' = Inr 7
       \<and> testfs_dir_name_to_inode_nr p (lit ''b'') s' = testfs_dir_name_to_inode_nr p (lit ''b'') s"
    using nm(2,3) i(2) len(2) free by (auto simp: lit_def)
  have "testfs_dir_name_to_inode_nr p (lit ''b'') s = Inr (- ENOENT)"
    using name_to_nr_eq [OF s empty_dir_holds nm(2)] by simp
  with r w s(1) show ?thesis by metis
qed

text \<open>
  C9: creating a regular file.  In a consistent file system the operation is total and leaves it
  consistent.  A name that the directory holds gives \<open>-EEXIST\<close> and nothing changes.  Else either all
  inodes or all blocks but two are in use, \<open>-ENOSPC\<close> is returned and the inode of the file is released again; or a
  fresh inode holds an empty file, the directory holds one more entry that names it, the directory is
  still open, no other inode changes, and no reference to an inode is leaked.
\<close>

theorem create_file_correct:
  assumes "consistent s" "opened s p k x d" "k \<in> iused s" "dir_holds s x es"
    and "0 \<notin> set name" "length (dir_bytes es) + 9 + length name \<le> 2058 * BLOCK_SIZE"
  shows "\<exists>r s'. testfs_create_file_or_dir (Some p) I_FILE name s = Inr (r, s') \<and> consistent s'
    \<and> (r = - EEXIST \<and> s' = s \<and> dir_lookup es name \<noteq> None
       \<or> r = - ENOSPC \<and> iused s' = iused s \<and> no_room s (length (dir_bytes es) + 9 + length name) s'
       \<or> r = 0 \<and> (\<exists>nr i x'. nr < NR_INODES \<and> nr \<notin> iused s \<and> iused s' = insert nr (iused s)
            \<and> opened s' p k x' False \<and> dir_holds s' x' (put_entry es i (new_dirent name (int nr)))
            \<and> testfs_dir_name_to_inode_nr p name s' = Inr (int nr) \<and> iview s' nr = empty_file
            \<and> (\<forall>j < NR_INODES. j \<noteq> k \<and> j \<noteq> nr \<longrightarrow> iview s' j = iview s j) \<and> irefs s' = irefs s))"
proof -
  obtain r s' where c: "testfs_create_file_or_dir (Some p) I_FILE name s = Inr (r, s')" "consistent s'"
    and o: "if dir_lookup es name \<noteq> None then r = - EEXIST \<and> s' = s
       else r = 0 \<and> created_file s p k x es name s'
         \<or> r = - ENOSPC \<and> iused s' = iused s \<and> no_room s (length (dir_bytes es) + 9 + length name) s'"
    using create_file_spec [OF assms] by blast
  have "\<exists>nr i x'. nr < NR_INODES \<and> nr \<notin> iused s \<and> iused s' = insert nr (iused s)
            \<and> opened s' p k x' False \<and> dir_holds s' x' (put_entry es i (new_dirent name (int nr)))
            \<and> testfs_dir_name_to_inode_nr p name s' = Inr (int nr) \<and> iview s' nr = empty_file
            \<and> (\<forall>j < NR_INODES. j \<noteq> k \<and> j \<noteq> nr \<longrightarrow> iview s' j = iview s j) \<and> irefs s' = irefs s"
    if cf: "created_file s p k x es name s'"
  proof -
    from cf obtain nr i x' where n: "nr < NR_INODES" "nr \<notin> iused s" "iused s' = insert nr (iused s)"
      "add_place es name (int (length name) + 1) = Some i" "opened s' p k x' False"
      "dir_holds s' x' (put_entry es i (new_dirent name (int nr)))" "iview s' nr = empty_file"
      "\<forall>j < NR_INODES. j \<noteq> k \<and> j \<noteq> nr \<longrightarrow> iview s' j = iview s j" "irefs s' = irefs s"
      unfolding created_file_def by metis
    have "testfs_dir_name_to_inode_nr p name s' = Inr (int nr)"
      using name_to_nr_eq [OF n(5) opened_file_ok [OF c(2) n(5)] n(6) assms(5)]
        lookup_put_same [OF _ assms(5) n(4), of "int nr"] by simp
    with n show ?thesis by blast
  qed
  with c o show ?thesis by (cases "dir_lookup es name") auto
qed

theorem create_file_correct_witness:
  "\<exists>p k s s' nr. opened s p k empty_dir True \<and> testfs_create_file_or_dir (Some p) I_FILE (lit ''f'') s = Inr (0, s')
    \<and> consistent s' \<and> iused s' = {nr, k} \<and> testfs_dir_name_to_inode_nr p (lit ''f'') s' = Inr (int nr)"
proof -
  obtain p k s where s: "opened s p k empty_dir True" "consistent s" "k \<in> iused s" "iused s = {k}"
    "max_fs_blocks (sb s) = 1024" "bused s = {}" by (rule test_dir)
  have nm: "0 \<notin> set (lit ''f'')" by (simp add: lit_def)
  have len: "length (dir_bytes []) + 9 + length (lit ''f'') \<le> BLOCK_SIZE"
    "length (dir_bytes []) + 9 + length (lit ''f'') \<le> 2058 * BLOCK_SIZE" by (simp_all add: BLOCK_SIZE_def lit_def)
  have "\<not> no_room s (length (dir_bytes []) + 9 + length (lit ''f'')) s'" for s'
    using s(5,6) len(1) one_inode unfolding no_room_def s(4) by auto
  then have "\<exists>s' nr. testfs_create_file_or_dir (Some p) I_FILE (lit ''f'') s = Inr (0, s') \<and> consistent s'
      \<and> iused s' = insert nr (iused s) \<and> testfs_dir_name_to_inode_nr p (lit ''f'') s' = Inr (int nr)"
    using create_file_correct [OF s(2,1,3) empty_dir_holds nm len(2)] by fastforce
  then show ?thesis using s(1) unfolding s(4) by blast
qed

end
