(* ===== verification/DirCmd.thy ===== *)
theory DirCmd
  imports Dir
begin

text \<open>
  The commands of \<open>src/fs/dir.c\<close>: changing and printing the current directory, listing,
  creating and removing.  A command takes the context and the state and gives its return value,
  the context and the state.  Those that walk the tree take fuel: each call of \<open>testfs_pwd\<close> or
  each entry that \<open>testfs_ls\<close> looks at uses one unit, and \<open>None\<close> means that it ran out.
\<close>

type_synonym 'a run = "'a result option"
type_synonym cmd_result = "(int \<times> cmd_context \<times> fs) result"

definition bindo :: "'a run \<Rightarrow> ('a \<Rightarrow> 'b run) \<Rightarrow> 'b run" where
  "bindo m f = (case m of None \<Rightarrow> None | Some (Inl e) \<Rightarrow> Some (Inl e) | Some (Inr x) \<Rightarrow> f x)"

lemma bindo_simps [simp]: "bindo None f = None" "bindo (Some (Inl e)) f = Some (Inl e)" "bindo (Some (Inr x)) f = f x"
  by (simp_all add: bindo_def)

section \<open>Walking the tree\<close>

primrec testfs_pwd :: "nat \<Rightarrow> nat \<Rightarrow> fs \<Rightarrow> (int \<times> fs) run" where
  "testfs_pwd 0 p s = None"
| "testfs_pwd (Suc n) p s =
     bindo (Some (testfs_inode_get_nr p s)) (\<lambda>nr.
     bindo (Some (c_assert (nr \<ge> 0))) (\<lambda>_.
     bindo (Some (testfs_dir_name_to_inode_nr p (lit ''..'') s)) (\<lambda>p_inode_nr.
     bindo (Some (c_assert (p_inode_nr \<ge> 0))) (\<lambda>_.
     if p_inode_nr = nr then Some (Inr (1, print [OutStr (lit ''/'')] s))
     else
       bindo (Some (testfs_get_inode p_inode_nr s)) (\<lambda>(p_in, s1).
       bindo (Some (testfs_find_dirent p_in nr s1)) (\<lambda>d.
       bindo (Some (not_null d)) (\<lambda>d.
       bindo (testfs_pwd n p_in s1) (\<lambda>(ret, s2).
       bindo (Some (testfs_put_inode p_in s2)) (\<lambda>s3.
       bindo (Some (c_string (d_name d))) (\<lambda>nm.
       Some (Inr (0, print [OutStr (if ret = 1 then [] else lit ''/''), OutStr nm] s3))))))))))))"

primrec testfs_ls :: "nat \<Rightarrow> nat \<Rightarrow> int \<Rightarrow> bool \<Rightarrow> fs \<Rightarrow> fs run" where
  "testfs_ls 0 p offset recursive s = None"
| "testfs_ls (Suc n) p offset recursive s =
     bindo (Some (testfs_next_dirent p offset s)) (\<lambda>(d, offset').
     case d of None \<Rightarrow> Some (Inr s)
     | Some d \<Rightarrow>
         if d_inode_nr d < 0 then testfs_ls n p offset' recursive s
         else
           bindo (Some (testfs_get_inode (d_inode_nr d) s)) (\<lambda>(cin, s1).
           bindo (Some (c_string (d_name d))) (\<lambda>nm.
           bindo (Some (testfs_inode_get_type cin s1)) (\<lambda>t.
           let s2 = print [OutStr nm, OutStr (if t = I_DIR then lit ''/'' else []), OutStr [10]] s1 in
           bindo (if recursive \<and> t = I_DIR \<and> nm \<noteq> lit ''.'' \<and> nm \<noteq> lit ''..''
                  then testfs_ls n cin 0 recursive s2 else Some (Inr s2)) (\<lambda>s3.
           bindo (Some (testfs_put_inode cin s3)) (\<lambda>s4.
           testfs_ls n p offset' recursive s4))))))"

section \<open>Commands\<close>

text \<open>A directory that is not one is returned from with its reference still held, as in the code.\<close>

definition cmd_ls_internal :: "nat \<Rightarrow> bool \<Rightarrow> cmd_context \<Rightarrow> fs \<Rightarrow> (int \<times> cmd_context \<times> fs) run" where
  "cmd_ls_internal n recursive c s =
     (if nargs c \<noteq> 2 then Some (Inr (- EINVAL, c, s))
      else
        bindo (Some (cmd_arg c 1)) (\<lambda>cdir.
        bindo (Some (testfs_dir_name_to_inode_nr (cur_dir c) cdir s)) (\<lambda>inode_nr.
        if inode_nr < 0 then Some (Inr (inode_nr, c, s))
        else
          bindo (Some (testfs_get_inode inode_nr s)) (\<lambda>(p, s1).
          bindo (Some (testfs_inode_get_type p s1)) (\<lambda>t.
          if t = I_DIR then
            bindo (testfs_ls n p 0 recursive s1) (\<lambda>s2.
            bindo (Some (testfs_put_inode p s2)) (\<lambda>s3.
            Some (Inr (0, c, s3))))
          else Some (Inr (- ENOTDIR, c, s1)))))))"

definition cmd_ls :: "nat \<Rightarrow> cmd_context \<Rightarrow> fs \<Rightarrow> (int \<times> cmd_context \<times> fs) run" where
  "cmd_ls n = cmd_ls_internal n False"

definition cmd_lsr :: "nat \<Rightarrow> cmd_context \<Rightarrow> fs \<Rightarrow> (int \<times> cmd_context \<times> fs) run" where
  "cmd_lsr n = cmd_ls_internal n True"

definition cmd_pwd :: "nat \<Rightarrow> cmd_context \<Rightarrow> fs \<Rightarrow> (int \<times> cmd_context \<times> fs) run" where
  "cmd_pwd n c s =
     (if nargs c \<noteq> 1 then Some (Inr (- EINVAL, c, s))
      else
        bindo (testfs_pwd n (cur_dir c) s) (\<lambda>(_, s1).
        Some (Inr (0, c, print [OutStr [10]] s1))))"

definition cmd_cd :: "cmd_context \<Rightarrow> fs \<Rightarrow> cmd_result" where
  "cmd_cd c s =
     (if nargs c \<noteq> 2 then Inr (- EINVAL, c, s)
      else
        bindr (cmd_arg c 1) (\<lambda>name.
        bindr (testfs_dir_name_to_inode_nr (cur_dir c) name s) (\<lambda>inode_nr.
        if inode_nr < 0 then Inr (inode_nr, c, s)
        else
          bindr (testfs_get_inode inode_nr s) (\<lambda>(dir_inode, s1).
          bindr (testfs_inode_get_type dir_inode s1) (\<lambda>t.
          if t \<noteq> I_DIR then
            bindr (testfs_put_inode dir_inode s1) (\<lambda>s2. Inr (- ENOTDIR, c, s2))
          else
            bindr (testfs_put_inode (cur_dir c) s1) (\<lambda>s2.
            Inr (0, c\<lparr>cur_dir := dir_inode\<rparr>, s2)))))))"

definition cmd_create :: "cmd_context \<Rightarrow> fs \<Rightarrow> cmd_result" where
  "cmd_create c s =
     (if nargs c \<noteq> 2 then Inr (- EINVAL, c, s)
      else
        bindr (cmd_arg c 1) (\<lambda>name.
        bindr (testfs_create_file_or_dir (Some (cur_dir c)) I_FILE name s) (\<lambda>(ret, s1).
        Inr (ret, c, s1))))"

definition cmd_mkdir :: "cmd_context \<Rightarrow> fs \<Rightarrow> cmd_result" where
  "cmd_mkdir c s =
     (if nargs c \<noteq> 2 then Inr (- EINVAL, c, s)
      else
        bindr (cmd_arg c 1) (\<lambda>name.
        bindr (testfs_create_file_or_dir (Some (cur_dir c)) I_DIR name s) (\<lambda>(ret, s1).
        Inr (ret, c, s1))))"

definition cmd_rm :: "cmd_context \<Rightarrow> fs \<Rightarrow> cmd_result" where
  "cmd_rm c s =
     (if nargs c \<noteq> 2 then Inr (- EINVAL, c, s)
      else
        bindr (cmd_arg c 1) (\<lambda>name.
        bindr (testfs_remove_dirent (cur_dir c) name s) (\<lambda>(inode_nr, s1).
        if inode_nr < 0 then Inr (inode_nr, c, s1)
        else
          bindr (testfs_get_inode inode_nr s1) (\<lambda>(p, s2).
          bindr (testfs_remove_inode p s2) (\<lambda>s3.
          bindr (testfs_sync_inode (cur_dir c) s3) (\<lambda>s4.
          Inr (0, c, s4)))))))"

definition cmd_stat :: "cmd_context \<Rightarrow> fs \<Rightarrow> cmd_result" where
  "cmd_stat c s =
     (if nargs c \<noteq> 2 then Inr (- EINVAL, c, s)
      else
        bindr (cmd_arg c 1) (\<lambda>name.
        bindr (testfs_dir_name_to_inode_nr (cur_dir c) name s) (\<lambda>inode_nr.
        if inode_nr < 0 then Inr (inode_nr, c, s)
        else
          bindr (testfs_get_inode inode_nr s) (\<lambda>(p, s1).
          bindr (testfs_inode_get_nr p s1) (\<lambda>nr.
          bindr (testfs_inode_get_type p s1) (\<lambda>t.
          bindr (testfs_inode_get_size p s1) (\<lambda>sz.
          bindr (testfs_inode_get_block_count p s1) (\<lambda>bc.
          let s2 = print [OutStr name, OutInt nr, OutInt t, OutInt sz, OutInt bc] s1 in
          bindr (testfs_put_inode p s2) (\<lambda>s3.
          Inr (0, c, s3))))))))))"

end
