(* ===== verification/FileCmd.thy ===== *)
theory FileCmd
  imports DirCmd
begin

text \<open>
  The commands \<open>read\<close> and \<open>write\<close> (\<open>src/fs/file.c\<close>) with the conversion of their arguments
  (\<open>src/fs/common.c\<close>).
\<close>

section \<open>Numbers\<close>

text \<open>The return value and, if it is 0, the number stored.\<close>

definition str_to_offset :: "cstr \<Rightarrow> int \<times> int" where
  "str_to_offset str = (let (n, end) = strtoll10 str in if length end > 0 then (- EINVAL, 0) else (0, n))"

definition str_to_size :: "cstr \<Rightarrow> int \<times> int" where
  "str_to_size str = (let (n, end) = strtoull10 str in if length end > 0 then (- EINVAL, 0) else (0, n))"

section \<open>Reading and writing\<close>

definition testfs_get_file_inode :: "nat \<Rightarrow> cstr \<Rightarrow> fs \<Rightarrow> (int \<times> nat option \<times> fs) result" where
  "testfs_get_file_inode dir name s =
     bindr (testfs_dir_name_to_inode_nr dir name s) (\<lambda>inode_nr.
     if inode_nr < 0 then Inr (inode_nr, None, s)
     else
       bindr (testfs_get_inode inode_nr s) (\<lambda>(p, s1).
       bindr (testfs_inode_get_type p s1) (\<lambda>t.
       if t = I_DIR then bindr (testfs_put_inode p s1) (\<lambda>s2. Inr (- EISDIR, None, s2))
       else Inr (0, Some p, s1))))"

definition cmd_read :: "cmd_context \<Rightarrow> fs \<Rightarrow> cmd_result" where
  "cmd_read c s =
     (if nargs c \<noteq> 4 then Inr (- EINVAL, c, s)
      else
        bindr (cmd_arg c 1) (\<lambda>filename.
        bindr (cmd_arg c 2) (\<lambda>a2.
        let (ret, offset) = str_to_offset a2 in
        if ret < 0 then Inr (ret, c, s)
        else if offset < 0 then Inr (- EINVAL, c, s)
        else
          bindr (cmd_arg c 3) (\<lambda>a3.
          let (ret, sz) = str_to_size a3 in
          if ret < 0 then Inr (ret, c, s)
          else
            bindr (testfs_get_file_inode (cur_dir c) filename s) (\<lambda>(ret, inp, s1).
            if ret < 0 then Inr (ret, c, s1)
            else
              bindr (not_null inp) (\<lambda>p.
              bindr (testfs_inode_get_size p s1) (\<lambda>file_size.
              bindr (if s64 (offset + s64 sz) > file_size then Inr (- EINVAL, s1)
                     else if \<not> malloc_ok s1 (nat (u64 (sz + 1))) then Inr (- ENOMEM, s1)
                     else
                       bindr (testfs_read_data p (replicate (nat (u64 (sz + 1))) 0) offset sz s1) (\<lambda>(ret, buf).
                       if ret \<ge> 0 then
                         bindr (arr_set buf (nat sz) 0) (\<lambda>buf.
                         bindr (c_string buf) (\<lambda>str.
                         Inr (ret, print [OutStr str, OutStr [10]] s1)))
                       else Inr (ret, s1))) (\<lambda>(ret, s2).
              bindr (testfs_put_inode p s2) (\<lambda>s3.
              Inr (ret, c, s3))))))))))"

definition cmd_write :: "cmd_context \<Rightarrow> fs \<Rightarrow> cmd_result" where
  "cmd_write c s =
     (if nargs c \<noteq> 4 then Inr (- EINVAL, c, s)
      else
        bindr (cmd_arg c 1) (\<lambda>filename.
        bindr (cmd_arg c 2) (\<lambda>a2.
        let (ret, offset) = str_to_offset a2 in
        if ret < 0 then Inr (ret, c, s)
        else if offset < 0 then Inr (- EINVAL, c, s)
        else
          bindr (cmd_arg c 3) (\<lambda>buf.
          bindr (testfs_get_file_inode (cur_dir c) filename s) (\<lambda>(ret, inp, s1).
          if ret < 0 then Inr (ret, c, s1)
          else
            bindr (not_null inp) (\<lambda>p.
            bindr (testfs_write_data p (buf @ [0]) offset (int (length buf)) s1) (\<lambda>(ret, s2).
            bindr (testfs_sync_inode p s2) (\<lambda>s3.
            bindr (testfs_put_inode p s3) (\<lambda>s4.
            Inr (ret, c, s4))))))))))"

end
