(* ===== verification/Shell.thy ===== *)
theory Shell
  imports FileCmd
begin

text \<open>
  The programs: \<open>src/fs/testfs.c\<close>, which reads commands from a terminal and runs them on a mounted
  file system, and \<open>src/fs/mktestfs.c\<close>, which makes one.

  Command-line options are parsed by the popt library: the programs start here with the values it
  stores.  The standard input is the list of its lines.  Messages to the standard error
  and the allocator statistics that \<open>main\<close> checks last are not modelled.  ISO C does not define
  \<open>strtok_r(NULL, d, &save)\<close> with a null \<open>save\<close>; \<open>null_ok\<close> says whether the C library at hand
  returns \<open>NULL\<close> there or dereferences it.
\<close>

section \<open>Words\<close>

definition is_space_nl :: "byte \<Rightarrow> bool" where
  "is_space_nl b \<longleftrightarrow> b = 32 \<or> b = 9 \<or> b = 13 \<or> b = 10"

definition is_eol :: "byte \<Rightarrow> bool" where
  "is_eol b \<longleftrightarrow> b = 13 \<or> b = 10"

text \<open>\<open>strtok_r(str, delim, &save)\<close>: the token, and the new value of \<open>save\<close>.\<close>

definition strtok_r ::
  "bool \<Rightarrow> (byte \<Rightarrow> bool) \<Rightarrow> cstr option \<Rightarrow> cstr option \<Rightarrow> (cstr option \<times> cstr option) result" where
  "strtok_r null_ok delim str save =
     (case (if str = None then save else str) of
        None \<Rightarrow> if null_ok then Inr (None, None) else Inl BadPointer
      | Some w \<Rightarrow>
          let w1 = dropWhile delim w in
          if w1 = [] then Inr (None, Some [])
          else Inr (Some (takeWhile (\<lambda>b. \<not> delim b) w1), Some (tl (dropWhile (\<lambda>b. \<not> delim b) w1))))"

section \<open>The command table\<close>

datatype cmd_func = CmdHelp | CmdCd | CmdPwd | CmdLs | CmdLsr | CmdCreate | CmdStat | CmdRm | CmdMkdir
  | CmdRead | CmdWrite | CmdFsstat | CmdQuit

record cmd_entry =
  c_name :: cstr
  c_func :: cmd_func
  max_args :: nat
  c_help :: cstr
  c_usage :: cstr

definition entry_of :: "string \<Rightarrow> cmd_func \<Rightarrow> nat \<Rightarrow> string \<Rightarrow> string \<Rightarrow> cmd_entry" where
  "entry_of n f m h u = \<lparr>c_name = lit n, c_func = f, max_args = m, c_help = lit h, c_usage = lit u\<rparr>"

definition cmdtable :: "cmd_entry list" where
  "cmdtable =
     [entry_of ''help'' CmdHelp 1 ''prints this help message.'' ''usage: help'',
      entry_of ''cd'' CmdCd 2 ''changes to directory DIR.'' ''usage: cd DIR'',
      entry_of ''pwd'' CmdPwd 1 ''prints current directory.'' ''usage: pwd'',
      entry_of ''ls'' CmdLs 2 ''lists files and directories in directory DIR.'' ''usage: ls DIR'',
      entry_of ''lsr'' CmdLsr 2 ''recursively lists files and directories in directory DIR.'' ''usage: lsr DIR'',
      entry_of ''create'' CmdCreate 2 ''creates a new file FILE in the current directory.'' ''usage: create FILE'',
      entry_of ''stat'' CmdStat 2 ''prints information on file or dir named NAME.'' ''usage: stat NAME'',
      entry_of ''rm'' CmdRm 2 ''removes a file or directory with name NAME.'' ''usage: rm NAME'',
      entry_of ''mkdir'' CmdMkdir 2 ''creates a new directory DIR in the current directory.'' ''usage: mkdir DIR'',
      entry_of ''read'' CmdRead 4 ''reads SIZE bytes of ascii data from file FILE at offset OFFSET.''
        ''usage: read FILE OFFSET SIZE'',
      entry_of ''write'' CmdWrite 4 ''write ascii data DATA to file FILE at offset OFFSET.''
        ''usage: write FILE OFFSET DATA'',
      entry_of ''fsstat'' CmdFsstat 1 ''print inode and block usage.'' ''usage: fsstat'',
      entry_of ''quit'' CmdQuit 1 ''quits this program.'' ''usage: quit'']"

definition cmd_help :: "cmd_context \<Rightarrow> fs \<Rightarrow> cmd_result" where
  "cmd_help c s = Inr (0, c, print (OutStr (lit ''Commands:'' @ [10])
     # concat (map (\<lambda>e. [OutStr (c_name e), OutStr (c_help e), OutStr (c_usage e)]) cmdtable)) s)"

definition cmd_quit :: "cmd_context \<Rightarrow> fs \<Rightarrow> cmd_result" where
  "cmd_quit c s = Inr (0, c, print [OutStr (lit ''Bye!'' @ [10])] s)"

text \<open>\<open>cmdtable[i].func(sb, c)\<close>.\<close>

definition run_cmd :: "nat \<Rightarrow> cmd_func \<Rightarrow> cmd_context \<Rightarrow> fs \<Rightarrow> (int \<times> cmd_context \<times> fs) run" where
  "run_cmd n f c s =
     (case f of CmdHelp \<Rightarrow> Some (cmd_help c s) | CmdCd \<Rightarrow> Some (cmd_cd c s) | CmdPwd \<Rightarrow> cmd_pwd n c s
      | CmdLs \<Rightarrow> cmd_ls n c s | CmdLsr \<Rightarrow> cmd_lsr n c s | CmdCreate \<Rightarrow> Some (cmd_create c s)
      | CmdStat \<Rightarrow> Some (cmd_stat c s) | CmdRm \<Rightarrow> Some (cmd_rm c s) | CmdMkdir \<Rightarrow> Some (cmd_mkdir c s)
      | CmdRead \<Rightarrow> Some (cmd_read c s) | CmdWrite \<Rightarrow> Some (cmd_write c s)
      | CmdFsstat \<Rightarrow> Some (bindr (cmd_fsstat c s) (\<lambda>(ret, s'). Inr (ret, c, s')))
      | CmdQuit \<Rightarrow> Some (cmd_quit c s))"

section \<open>Parsing and running a line\<close>

text \<open>The \<open>while\<close> loop: \<open>j\<close>, \<open>args\<close> and \<open>save\<close> after it, and the words.\<close>

function arg_loop :: "bool \<Rightarrow> nat \<Rightarrow> nat \<Rightarrow> cstr option \<Rightarrow> cstr option \<Rightarrow> cstr option list
    \<Rightarrow> (nat \<times> cstr option \<times> cstr option \<times> cstr option list) result" where
  "arg_loop null_ok mx j args save ws =
     (if j < mx then
        bindr (strtok_r null_ok is_space_nl args save) (\<lambda>(tok, save').
        bindr (arr_set ws j tok) (\<lambda>ws'.
        if tok \<noteq> None then arg_loop null_ok mx (j + 1) None save' ws' else Inr (j, args, save', ws')))
      else Inr (j, args, save, ws))"
  by pat_completeness auto
termination
  by (relation "measure (\<lambda>(b, mx, j, args, save, ws). mx - j)") auto

declare arg_loop.simps [simp del]

definition clear_from :: "nat \<Rightarrow> cstr option list \<Rightarrow> cstr option list" where
  "clear_from j ws = take j ws @ replicate (length ws - j) None"

definition parse_command ::
  "bool \<Rightarrow> cmd_entry \<Rightarrow> cmd_context \<Rightarrow> cstr \<Rightarrow> cstr option \<Rightarrow> cmd_context result" where
  "parse_command null_ok e c name args =
     bindr (arr_set (cmd c) 0 (Some name)) (\<lambda>ws.
     bindr (arg_loop null_ok (max_args e) 1 args None ws) (\<lambda>(j, args, save, ws).
     bindr (strtok_r null_ok is_eol args save) (\<lambda>(tok, _).
     bindr (arr_set ws j tok) (\<lambda>ws.
     let j = (if tok \<noteq> None then j + 1 else j)
     in Inr (c\<lparr>nargs := int j, cmd := clear_from (j + 1) ws\<rparr>)))))"

fun find_cmd :: "cstr \<Rightarrow> cmd_entry list \<Rightarrow> cmd_entry option" where
  "find_cmd name [] = None"
| "find_cmd name (e # es) = (if name = c_name e then Some e else find_cmd name es)"

text \<open>The result also says whether the command was \<open>quit\<close>, which sets \<open>can_quit\<close>.\<close>

definition handle_command ::
  "nat \<Rightarrow> bool \<Rightarrow> cmd_context \<Rightarrow> cstr option \<Rightarrow> cstr option \<Rightarrow> fs \<Rightarrow> (bool \<times> cmd_context \<times> fs) run" where
  "handle_command n null_ok c name args s =
     (case name of None \<Rightarrow> Some (Inr (False, c, s))
      | Some name \<Rightarrow>
          (case find_cmd name cmdtable of None \<Rightarrow> Some (Inr (False, c, s))
           | Some e \<Rightarrow>
               bindo (Some (parse_command null_ok e c name args)) (\<lambda>c.
               bindo (run_cmd n (c_func e) c s) (\<lambda>(ret, c, s).
               Some (Inr (c_func e = CmdQuit, c, s))))))"

section \<open>testfs\<close>

text \<open>The loop of \<open>main\<close> over the lines of the input, each with its newline.\<close>

primrec main_loop ::
  "nat \<Rightarrow> bool \<Rightarrow> bool \<Rightarrow> bool \<Rightarrow> byte list list \<Rightarrow> cmd_context \<Rightarrow> fs \<Rightarrow> (cmd_context \<times> fs) run" where
  "main_loop n null_ok hide_prompt verbose [] c s =
     Some (Inr (c, if hide_prompt then s else print [OutStr (lit ''% '')] s))"
| "main_loop n null_ok hide_prompt verbose (line # lines) c s =
     (let s1 = (if hide_prompt then s else print [OutStr (lit ''% '')] s) in
      if hd line = 35 then main_loop n null_ok hide_prompt verbose lines c s1
      else
        let s2 = (if verbose then print [OutStr line] s1 else s1) in
        bindo (Some (strtok_r null_ok is_space_nl (Some line) None)) (\<lambda>(cname, save).
        bindo (Some (strtok_r null_ok is_eol None save)) (\<lambda>(pargs, _).
        bindo (handle_command n null_ok c cname pargs s2) (\<lambda>(quit, c, s3).
        if quit then Some (Inr (c, s3)) else main_loop n null_ok hide_prompt verbose lines c s3))))"

text \<open>The result is what is on the disk and on the terminal at the end.\<close>

definition testfs_main ::
  "nat \<Rightarrow> bool \<Rightarrow> (nat \<Rightarrow> bool) \<Rightarrow> int + byte list \<Rightarrow> bool \<Rightarrow> bool \<Rightarrow> byte list list \<Rightarrow> (byte list \<times> printed list) run" where
  "testfs_main n null_ok mal disk hide_prompt verbose lines =
     bindo (Some (testfs_init_super_block mal disk)) (\<lambda>(ret, sp).
     if ret \<noteq> 0 then Some (Inl ExitFailure)
     else
       bindo (Some (not_null sp)) (\<lambda>s.
       bindo (Some (testfs_get_inode 0 s)) (\<lambda>(root, s1).
       let c = \<lparr>nargs = 0, cmd = replicate (MAX_ARGS + 1) None, cur_dir = root\<rparr> in
       bindo (main_loop n null_ok hide_prompt verbose lines c s1) (\<lambda>(c, s2).
       bindo (Some (testfs_put_inode (cur_dir c) s2)) (\<lambda>s3.
       bindo (Some (testfs_close_super_block s3)) (\<lambda>d.
       Some (Inr (d, out s3))))))))"

section \<open>mktestfs\<close>

definition mktestfs_main :: "(nat \<Rightarrow> bool) \<Rightarrow> bool \<Rightarrow> int \<Rightarrow> byte list result" where
  "mktestfs_main mal fopen_ok fs_size_mb =
     (let max_fs_size_mb = (int BLOCK_FREEMAP_SIZE * int BLOCK_SIZE * 8 * int BLOCK_SIZE) div 2 ^ 20 in
      if fs_size_mb < 1 \<or> fs_size_mb > max_fs_size_mb then Inl ExitFailure
      else
        bindr (mktestfs_format mal fopen_ok (fs_size_mb * 2 ^ 20 div int BLOCK_SIZE)) (\<lambda>d.
        bindr (testfs_init_super_block mal (Inr d)) (\<lambda>(ret, sp).
        if ret \<noteq> 0 then Inl ExitFailure
        else
          bindr (not_null sp) (\<lambda>s.
          bindr (testfs_make_root_dir s) (\<lambda>(_, s1).
          testfs_close_super_block s1)))))"

end
