(* ===== verification/CmdProps.thy ===== *)
theory CmdProps
  imports DirOps Shell
begin

text \<open>
  What the commands of the shell do on a consistent file system: a command opens a file by its name in the current
  directory, works on it, and gives the reference back; \<open>read\<close> prints the bytes of a file and \<open>write\<close> replaces
  them.
\<close>

section \<open>Opening a file by name\<close>

lemma opened_refs:
  assumes "opened s p k x d"
  shows "0 < irefs s k"
proof -
  from assms obtain i where i: "inode_inv s" "iheap s p = Some i" "i_nr i = int k" by (auto simp: opened_def)
  then have "cached s (int k) = Some i" using cached_Some [OF inv_hash [OF i(1)]] by blast
  then show ?thesis using hash_live(2) [OF inv_hash [OF i(1)] i(2)] by (simp add: irefs_def)
qed

lemma opened_inj: "opened s p k x d \<Longrightarrow> opened s q k y e \<Longrightarrow> p = q"
  unfolding opened_def using hash_inj inv_hash by metis

text \<open>The current directory: an open directory with its entries.\<close>

definition in_dir :: "fs \<Rightarrow> nat \<Rightarrow> nat \<Rightarrow> dinode \<Rightarrow> dirent list \<Rightarrow> bool" where
  "in_dir s p k x es \<longleftrightarrow> consistent s \<and> opened s p k x False \<and> dir_holds s x es"

lemma in_dirI: "consistent s \<Longrightarrow> opened s p k x d \<Longrightarrow> dir_holds s x es \<Longrightarrow> in_dir s p k x es"
  by (auto simp: in_dir_def intro: opened_weaken)

lemma in_dir_lookup:
  "in_dir s p k x es \<Longrightarrow> 0 \<notin> set name \<Longrightarrow>
   testfs_dir_name_to_inode_nr p name s = Inr (case dir_lookup es name of None \<Rightarrow> - ENOENT | Some nr \<Rightarrow> nr)"
  by (auto simp: in_dir_def intro: name_to_nr_eq opened_file_ok)

lemma in_dir_frame:
  assumes "in_dir s p k x es" "consistent s'" "cache_frame s s'" "iobj s' p = iobj s p"
  shows "in_dir s' p k x es"
proof -
  from assms(1) have c: "consistent s" and o: "opened s p k x False" and h: "dir_holds s x es" by (simp_all add: in_dir_def)
  have "dir_holds s' x es"
    using dir_holds_kept [OF c assms(2) o blocks_kept_data [OF data_frame_cache [OF assms(3)]] _ h] cache_frame_used [OF assms(3)]
    by simp
  with opened_same [OF o cons_inv [OF assms(2)] assms(4)] show ?thesis using assms(2) by (simp add: in_dir_def)
qed

lemma in_dir_get:
  assumes D: "in_dir s p k x es" and nr: "nr < NR_INODES" "irefs s nr = 0"
  obtains q s1 where "testfs_get_inode (int nr) s = Inr (q, s1)" "in_dir s1 p k x es" "p \<noteq> q"
    "iobj s1 q = Some (nr, iview s nr, False)" "iview s1 = iview s" "irefs s1 = (irefs s)(nr := 1)" "cache_frame s s1"
proof -
  from D have c: "consistent s" and o: "opened s p k x False" by (simp_all add: in_dir_def)
  note i = cons_inv [OF c]
  from get_inode_spec [OF i nr(1)] obtain q s1 d where g: "testfs_get_inode (int nr) s = Inr (q, s1)" "inode_inv s1"
    "cache_frame s s1" "iobj s1 q = Some (nr, iview s nr, d)" "d \<longrightarrow> iobj s q = iobj s1 q"
    "\<forall>r. r \<noteq> q \<longrightarrow> iobj s1 r = iobj s r" "iview s1 = iview s" "irefs s1 = (irefs s)(nr := irefs s nr + 1)" by blast
  have clean: "\<not> d"
  proof
    assume d
    with g(4,5) have "iobj s q = Some (nr, iview s nr, True)" by simp
    from opened_refs [OF opened_iobj [OF i this]] nr(2) show False by simp
  qed
  have "k \<noteq> nr" using opened_refs [OF o] nr(2) by auto
  then have pq: "p \<noteq> q" using created_other [OF i g(2) o opened_iobj [OF g(2,4)] _ g(8)] g(6) by blast
  have c1: "consistent s1" by (rule consistent_cache [OF c g(2,7,3)])
  have "in_dir s1 p k x es" by (rule in_dir_frame [OF D c1 g(3)]) (use g(6) pq in simp)
  with that [OF g(1) _ pq] g(3,4,7,8) clean nr(2) show thesis by simp
qed

lemma in_dir_put:
  assumes D: "in_dir s p k x es" and q: "iobj s q = Some (nr, y, False)" "p \<noteq> q"
  obtains s1 where "testfs_put_inode q s = Inr s1" "in_dir s1 p k x es" "iview s1 = iview s"
    "irefs s1 = (irefs s)(nr := irefs s nr - 1)" "cache_frame s s1"
proof -
  from D have c: "consistent s" by (simp add: in_dir_def)
  from ic.put_spec [OF cons_inv [OF c] q(1)] obtain s1 where g: "testfs_put_inode q s = Inr s1" "inode_inv s1" "cache_frame s s1"
    "\<forall>r. r \<noteq> q \<longrightarrow> iobj s1 r = iobj s r" "iview s1 = iview s" "irefs s1 = (irefs s)(nr := irefs s nr - 1)" by blast
  have c1: "consistent s1" by (rule consistent_cache [OF c g(2,5,3)])
  have "in_dir s1 p k x es" by (rule in_dir_frame [OF D c1 g(3)]) (use g(4) q(2) in simp)
  with that g show thesis by blast
qed

text \<open>Printing changes nothing else.\<close>

lemma print_simps [simp]: "dev (print xs s) = dev s" "sb (print xs s) = sb s" "iheap (print xs s) = iheap s"
  "inode_hash_table (print xs s) = inode_hash_table s" "malloc_ok (print xs s) = malloc_ok s"
  "out (print xs s) = out s @ xs" "iused (print xs s) = iused s" "bused (print xs s) = bused s"
  by (simp_all add: print_def iused_def bused_def)

lemma print_find [simp]: "inode_hash_find nr (print xs s) = inode_hash_find nr s"
proof -
  have "bucket_find ps nr (print xs s) = bucket_find ps nr s" for ps
    by (induction ps) (auto simp: deref_def split: option.splits)
  then show ?thesis by (simp add: inode_hash_find_def)
qed

lemma print_cached [simp]: "cached (print xs s) nr = cached s nr"
  by (auto simp: cached_def split: sum.splits option.splits)

lemma print_views [simp]: "iview (print xs s) = iview s" "irefs (print xs s) = irefs s" "iobj (print xs s) = iobj s"
  by (simp_all add: fun_eq_iff iview_def irefs_def iobj_def split: option.splits)

lemma print_inv [simp]: "inode_inv (print xs s) = inode_inv s" "hash_inv (print xs s) = hash_inv s"
  by (simp_all add: inode_inv_def super_inv_def hash_inv_def print_def)

lemma print_consistent [simp]: "consistent (print xs s) = consistent s"
  by (simp add: consistent_def file_okx_def amap_ok_def)

lemma in_dir_print [simp]: "in_dir (print xs s) p k x es = in_dir s p k x es"
  by (simp add: in_dir_def opened_def dir_holds_def)

section \<open>Reading\<close>

lemma offset_arg: "int n < 2 ^ 63 \<Longrightarrow> str_to_offset (dec_nat n) = (0, int n)"
  and size_arg: "int n < 2 ^ 63 \<Longrightarrow> str_to_size (dec_nat n) = (0, int n)"
proof -
  have "scan_int (dec_nat n @ []) = (False, dec_nat n, [])"
    using scan_int_dec_nat [of "[]" n] dec_nat_nonempty [of n, symmetric]
    by (auto simp: scan_int_def is_blank_def [of 32] Let_def split: prod.splits if_splits)
  then show "int n < 2 ^ 63 \<Longrightarrow> str_to_offset (dec_nat n) = (0, int n)" "int n < 2 ^ 63 \<Longrightarrow> str_to_size (dec_nat n) = (0, int n)"
    by (simp_all add: str_to_offset_def str_to_size_def strtoll10_def strtoull10_def digits_val_dec_nat)
qed

lemma in_dir_file:
  assumes D: "in_dir s p k x es" and nm: "0 \<notin> set name" "dir_lookup es name = Some (int nr)"
    and nr: "nr < NR_INODES" "irefs s nr = 0" and t: "i_type (iview s nr) \<noteq> I_DIR"
  obtains q s1 where "testfs_get_file_inode p name s = Inr (0, Some q, s1)" "in_dir s1 p k x es" "p \<noteq> q"
    "iobj s1 q = Some (nr, iview s nr, False)" "iview s1 = iview s" "irefs s1 = (irefs s)(nr := 1)" "cache_frame s s1"
proof -
  obtain q s1 where q: "testfs_get_inode (int nr) s = Inr (q, s1)" "in_dir s1 p k x es" "p \<noteq> q"
    "iobj s1 q = Some (nr, iview s nr, False)" "iview s1 = iview s" "irefs s1 = (irefs s)(nr := 1)" "cache_frame s s1"
    by (rule in_dir_get [OF D nr])
  from q(4) obtain i where "iheap s1 q = Some i" "din i = iview s nr" by (auto simp: iobj_Some)
  then have "testfs_inode_get_type q s1 = Inr (i_type (iview s nr))" by (simp add: testfs_inode_get_type_def deref_def)
  with in_dir_lookup [OF D nm(1)] nm(2) q(1) t have "testfs_get_file_inode p name s = Inr (0, Some q, s1)"
    by (simp add: testfs_get_file_inode_def)
  with that q show thesis by blast
qed

lemma frame_bytes:
  assumes c: "consistent s" and nr: "nr < NR_INODES" and f: "cache_frame s s'"
  shows "file_bytes (dev s') (iview s nr) off len = file_bytes (dev s) (iview s nr) off len"
proof -
  have "own (addr (dev s) (iview s nr)) \<subseteq> bused s'" using cons_own_used [OF c nr] cache_frame_used [OF f] by simp
  from untouched_file(3) [OF cons_file [OF c nr] blocks_kept_data [OF data_frame_cache [OF f]] _ this]
  show ?thesis by (simp add: file_bytes_def file_byte_def)
qed

lemma frame_regular:
  assumes c: "consistent s" and nr: "nr < NR_INODES" and f: "cache_frame s s'"
  shows "regular (dev s') (iview s nr) n = regular (dev s) (iview s nr) n"
proof -
  have "own (addr (dev s) (iview s nr)) \<subseteq> bused s'" using cons_own_used [OF c nr] cache_frame_used [OF f] by simp
  from untouched_file(1) [OF cons_file [OF c nr] blocks_kept_data [OF data_frame_cache [OF f]] _ this]
  show ?thesis by (simp add: regular_def del: addr.simps)
qed

text \<open>Every block of a range can be read.\<close>

definition readable_range :: "fs \<Rightarrow> dinode \<Rightarrow> nat \<Rightarrow> nat \<Rightarrow> bool" where
  "readable_range s x off len \<longleftrightarrow> (\<forall>n. off div BLOCK_SIZE \<le> n \<and> n * BLOCK_SIZE < off + len \<longrightarrow> regular (dev s) x n)"

definition read_words :: "cmd_context \<Rightarrow> cstr \<Rightarrow> nat \<Rightarrow> nat \<Rightarrow> bool" where
  "read_words c name off len \<longleftrightarrow> nargs c = 4 \<and> 3 < length (cmd c)
     \<and> cmd c ! 1 = Some name \<and> cmd c ! 2 = Some (dec_nat off) \<and> cmd c ! 3 = Some (dec_nat len)"

lemma cmd_arg_at: "i < length (cmd c) \<Longrightarrow> cmd c ! i = Some w \<Longrightarrow> cmd_arg c i = Inr w"
  by (simp add: cmd_arg_def)

text \<open>What \<open>printf("%s")\<close> shows of a buffer that is terminated by a zero.\<close>

definition shown :: "byte list \<Rightarrow> cstr" where
  "shown bs = takeWhile (\<lambda>b. b \<noteq> 0) bs"

lemma c_string_shown: "c_string (bs @ [0]) = Inr (shown bs)"
  by (induction bs) (auto simp: c_string_def shown_def)

lemma cmd_read_spec:
  assumes D: "in_dir s (cur_dir c) k x es" and nm: "0 \<notin> set name" "dir_lookup es name = Some (int nr)"
    and nr: "nr < NR_INODES" "irefs s nr = 0" and t: "i_type (iview s nr) \<noteq> I_DIR"
    and w: "read_words c name off len" and max: "0 < len" "len < 2 ^ 31" "off + len \<le> MAX_BLOCKS * BLOCK_SIZE"
    and range: "readable_range s (iview s nr) off len"
  shows "\<exists>s'. in_dir s' (cur_dir c) k x es \<and> irefs s' = irefs s \<and> iview s' = iview s \<and> sb s' = sb s \<and> bused s' = bused s \<and> iused s' = iused s
    \<and> (if int (off + len) \<le> i_size (iview s nr)
       then cmd_read c s = Inr (int len, c, s') \<and> out s' = out s @ [OutStr (shown (file_bytes (dev s) (iview s nr) off len)), OutStr [10]]
       else cmd_read c s = Inr (- EINVAL, c, s') \<and> out s' = out s)"
proof -
  let ?y = "iview s nr" and ?p = "cur_dir c"
  have big: "int off < 2 ^ 36" "int len < 2 ^ 31" using max by (simp_all add: BLOCK_SIZE_def)
  then have conv: "s64 (int off + s64 (int len)) = int off + int len" "nat (u64 (int len + 1)) = len + 1"
    by (simp_all add: s64_id u64_id nat_add_distrib)
  obtain q s1 where q: "testfs_get_file_inode ?p name s = Inr (0, Some q, s1)" "in_dir s1 ?p k x es" "?p \<noteq> q"
    "iobj s1 q = Some (nr, ?y, False)" "iview s1 = iview s" "irefs s1 = (irefs s)(nr := 1)" "cache_frame s s1"
    by (rule in_dir_file [OF D nm nr t])
  have c1: "consistent s1" using q(2) by (simp add: in_dir_def)
  have o: "opened s1 q nr ?y False" by (rule opened_iobj [OF cons_inv [OF c1] q(4)])
  have ok: "file_ok s1 ?y" by (rule opened_file_ok [OF c1 o])
  have mal: "malloc_ok s1 n" for n by (rule inv_malloc [OF cons_inv [OF c1]])
  from opened_deref [OF o] have sz: "testfs_inode_get_size q s1 = Inr (i_size ?y)" by (auto simp: testfs_inode_get_size_def)
  have args: "cmd_arg c 1 = Inr name" "cmd_arg c 2 = Inr (dec_nat off)" "cmd_arg c 3 = Inr (dec_nat len)"
    using w by (simp_all add: read_words_def cmd_arg_at)
  have na: "nargs c = 4" using w by (simp add: read_words_def)
  have num: "str_to_offset (dec_nat off) = (0, int off)" "str_to_size (dec_nat len) = (0, int len)"
    using big by (simp_all add: offset_arg size_arg)
  note start = na args num q(1) sz conv mal
  show ?thesis
  proof (cases "int (off + len) \<le> i_size ?y")
    case False
    obtain s2 where s2: "testfs_put_inode q s1 = Inr s2" "in_dir s2 ?p k x es" "iview s2 = iview s1"
      "irefs s2 = (irefs s1)(nr := irefs s1 nr - 1)" "cache_frame s1 s2" by (rule in_dir_put [OF q(2,4,3)])
    have "cmd_read c s = Inr (- EINVAL, c, s2)" using start s2(1) False by (simp add: cmd_read_def not_null_def)
    moreover have "out s2 = out s" "sb s2 = sb s" "bused s2 = bused s" "iused s2 = iused s"
      using q(7) s2(5) cache_frame_used [OF q(7)] cache_frame_used [OF s2(5)] by (simp_all add: cache_frame_def)
    moreover have "irefs s2 = irefs s" using s2(4) q(6) nr(2) by (simp add: fun_eq_iff)
    ultimately show ?thesis using False s2(2,3) q(5) by auto
  next
    case True
    have reg: "regular (dev s1) ?y n" if "off div BLOCK_SIZE \<le> n" "n * BLOCK_SIZE < off + len \<or> n = off div BLOCK_SIZE" for n
    proof -
      have "off div BLOCK_SIZE * BLOCK_SIZE < off + len" using max(1) block_parts(1) [of off] by linarith
      with that have "n * BLOCK_SIZE < off + len" by blast
      with range that(1) show ?thesis
        using frame_regular [OF _ nr(1) q(7)] D by (simp add: readable_range_def in_dir_def)
    qed
    let ?fb = "file_bytes (dev s1) ?y off len"
    have "drop len (replicate (len + 1) 0) = [0 :: byte]" by (simp only: drop_replicate) simp
    then have rd: "testfs_read_data q (replicate (len + 1) 0) (int off) (int len) s1 = Inr (int len, ?fb @ [0])"
      by (subst read_data_eq [OF o ok _ _ True]) (use reg max big in \<open>auto simp: BLOCK_SIZE_def simp del: replicate_Suc\<close>)
    have f: "file_bytes (dev s1) ?y off len = file_bytes (dev s) ?y off len"
      using frame_bytes [OF _ nr(1) q(7)] D by (simp add: in_dir_def)
    let ?s1 = "print [OutStr (shown ?fb), OutStr [10]] s1"
    have "in_dir ?s1 ?p k x es" "iobj ?s1 q = Some (nr, ?y, False)" using q(2,4) by simp_all
    from in_dir_put [OF this q(3)] obtain s2 where s2: "testfs_put_inode q ?s1 = Inr s2" "in_dir s2 ?p k x es" "iview s2 = iview ?s1"
      "irefs s2 = (irefs ?s1)(nr := irefs ?s1 nr - 1)" "cache_frame ?s1 s2" by blast
    have "(?fb @ [0])[len := 0] = ?fb @ [0]" by (simp add: list_update_append)
    then have "cmd_read c s = Inr (int len, c, s2)"
      using start rd s2(1) True c_string_shown [of ?fb] by (simp add: cmd_read_def not_null_def arr_set_def)
    moreover have "out s2 = out s @ [OutStr (shown ?fb), OutStr [10]]" "sb s2 = sb s" "bused s2 = bused s" "iused s2 = iused s"
      using q(7) s2(5) cache_frame_used [OF q(7)] cache_frame_used [OF s2(5)] by (simp_all add: cache_frame_def)
    moreover have "irefs s2 = irefs s" using s2(4) q(6) nr(2) by (simp add: fun_eq_iff)
    ultimately show ?thesis using True s2(2,3) q(5) f by auto
  qed
qed

section \<open>Writing\<close>

text \<open>Writing into another file does not touch the directory.\<close>

lemma in_dir_wpost:
  assumes D: "in_dir s p k x es" and q: "opened s q nr y d" "nr \<in> iused s" "p \<noteq> q" and w: "wpost q nr s y s' y'"
  shows "in_dir s' p k x es"
proof -
  from D have c: "consistent s" and o: "opened s p k x False" and h: "dir_holds s x es" by (simp_all add: in_dir_def)
  have c': "consistent s'" by (rule consistent_wpost [OF c q(1,2) w])
  from w obtain B where B: "kframe q nr B s s'" "B \<inter> bused s \<subseteq> own (addr (dev s) y)" "bused s \<subseteq> bused s'"
    by (auto simp: wpost_def wframe_def)
  then have same: "iobj s' p = iobj s p" using q(3) by (simp add: kframe_def)
  have kn: "k \<noteq> nr" using opened_inj [OF o] q(1,3) by blast
  note vk = opened_view [OF o] and vn = opened_view [OF q(1)]
  have "blocks_of s k \<inter> blocks_of s nr = {}" by (rule cons_disjoint [OF c vk(1) vn(1) kn])
  moreover have "blocks_of s k \<subseteq> bused s" by (rule cons_own_used [OF c vk(1)])
  ultimately have "own (addr (dev s) x) \<inter> B = {}" "own (addr (dev s) x) \<subseteq> bused s'"
    using B(2,3) vk(2) vn(2) by auto
  from untouched_file(3) [OF opened_file_ok [OF c o] blocks_kept_kframe [OF B(1)] this]
  have "dir_holds s' x es" by (intro dir_holds_same [OF h])
  with c' opened_same [OF o cons_inv [OF c'] same] show ?thesis by (simp add: in_dir_def)
qed

definition write_words :: "cmd_context \<Rightarrow> cstr \<Rightarrow> nat \<Rightarrow> cstr \<Rightarrow> bool" where
  "write_words c name off bs \<longleftrightarrow> nargs c = 4 \<and> 3 < length (cmd c)
     \<and> cmd c ! 1 = Some name \<and> cmd c ! 2 = Some (dec_nat off) \<and> cmd c ! 3 = Some bs"

lemma stored_bytes: "stored d y d' y' off w \<Longrightarrow> file_bytes d' y' off (length w) = w"
  by (rule nth_equalityI) (simp_all add: file_bytes_def stored_def)

lemma stored_range:
  assumes st: "stored d y (dev s') y' off w" and some: "w \<noteq> []"
  shows "readable_range s' y' off (length w)"
  unfolding readable_range_def
proof (intro allI impI, elim conjE)
  fix n assume n: "off div BLOCK_SIZE \<le> n" "n * BLOCK_SIZE < off + length w"
  have tab: "tabled (dev s') y' (j div BLOCK_SIZE)" if "off \<le> j" "j < off + length w" for j
    using st that by (simp add: stored_def)
  show "regular (dev s') y' n"
  proof (cases "n = off div BLOCK_SIZE")
    case True
    then show ?thesis using tab [of off] some by (auto intro: tabled_regular)
  next
    case False
    with n(1) have "off \<le> n * BLOCK_SIZE"
      using block_parts [of off] mult_le_mono1 [of "Suc (off div BLOCK_SIZE)" n BLOCK_SIZE] unfolding mult_Suc by linarith
    with tab [of "n * BLOCK_SIZE"] n(2) show ?thesis by (auto intro: tabled_regular)
  qed
qed

lemma cmd_write_spec:
  assumes D: "in_dir s (cur_dir c) k x es" and nm: "0 \<notin> set name" "dir_lookup es name = Some (int nr)"
    and nr: "nr < NR_INODES" "irefs s nr = 0" "nr \<in> iused s" and t: "i_type (iview s nr) \<noteq> I_DIR"
    and w: "write_words c name off bs" and max: "bs \<noteq> []" "length bs < 2 ^ 31" "off + length bs \<le> MAX_BLOCKS * BLOCK_SIZE"
    and room: "room s (length bs)"
  shows "\<exists>s'. cmd_write c s = Inr (int (length bs), c, s') \<and> in_dir s' (cur_dir c) k x es \<and> irefs s' = irefs s \<and> out s' = out s
    \<and> iused s' = iused s \<and> i_type (iview s' nr) = i_type (iview s nr)
    \<and> (\<forall>j < NR_INODES. j \<noteq> nr \<longrightarrow> iview s' j = iview s j)
    \<and> file_bytes (dev s') (iview s' nr) off (length bs) = bs \<and> readable_range s' (iview s' nr) off (length bs)
    \<and> i_size (iview s' nr) = max (i_size (iview s nr)) (int (off + length bs))"
proof -
  let ?y = "iview s nr" and ?p = "cur_dir c" and ?len = "length bs"
  have big: "int off < 2 ^ 36" "off + ?len < 2 ^ 44" using max by (simp_all add: BLOCK_SIZE_def)
  obtain q s1 where q: "testfs_get_file_inode ?p name s = Inr (0, Some q, s1)" "in_dir s1 ?p k x es" "?p \<noteq> q"
    "iobj s1 q = Some (nr, ?y, False)" "iview s1 = iview s" "irefs s1 = (irefs s)(nr := 1)" "cache_frame s s1"
    by (rule in_dir_file [OF D nm nr(1,2) t])
  have c1: "consistent s1" using q(2) by (simp add: in_dir_def)
  have o: "opened s1 q nr ?y False" by (rule opened_iobj [OF cons_inv [OF c1] q(4)])
  have ok: "file_ok s1 ?y" by (rule opened_file_ok [OF c1 o])
  have u1: "nr \<in> iused s1" using nr(3) cache_frame_used [OF q(7)] by simp
  have "0 < ?len" "?len \<le> length (bs @ [0])" using max(1) by simp_all
  from write_data_full [OF o ok this(1) max(2) this(2) big(2)] obtain r s2 where
    wr: "testfs_write_data q (bs @ [0]) (int off) (int ?len) s1 = Inr (r, s2)" and
    out: "data_outcome q nr s1 ?y s1 ?y off bs off ?len (off mod BLOCK_SIZE + ?len + BLOCK_SIZE) r s2" by auto
  have "room s1 ?len" using room q(7) cache_frame_used [OF q(7)] by (simp add: room_def cache_frame_def)
  then have "r \<noteq> - ENOSPC" "r \<noteq> - EFBIG"
    using out short_no_room [OF _ outcome_max [OF out]] max(3) by (auto simp: data_outcome_def)
  with out obtain y' where wp: "wpost q nr s1 ?y s2 y'" and r: "r = int ?len" and st: "stored (dev s1) ?y (dev s2) y' off bs"
    and sz: "i_size y' = max (i_size ?y) (int (off + ?len))"
    unfolding data_outcome_def by blast
  have D2: "in_dir s2 ?p k x es" by (rule in_dir_wpost [OF q(2) o u1 q(3) wp])
  then have c2: "consistent s2" by (simp add: in_dir_def)
  from wp obtain B where o2: "opened s2 q nr y' False" and B: "kframe q nr B s1 s2" and ty: "i_type y' = i_type ?y"
    by (auto simp: wpost_def wframe_def)
  note v2 = opened_view [OF o2]
  from iobj_opened [OF o2] obtain d where "iobj s2 q = Some (nr, y', d)" by blast
  from ic.sync_put [OF cons_inv [OF c2] this] obtain s3 s4 where s4: "testfs_sync_inode q s2 = Inr s3" "testfs_put_inode q s3 = Inr s4"
    "inode_inv s4" "cache_frame s2 s4" "iview s4 = iview s2" "irefs s4 = (irefs s2)(nr := irefs s2 nr - 1)"
    "iobj s4 ?p = iobj s2 ?p" using q(3) by metis
  have c4: "consistent s4" by (rule consistent_cache [OF c2 s4(3,5,4)])
  have D4: "in_dir s4 ?p k x es" by (rule in_dir_frame [OF D2 c4 s4(4,7)])
  have args: "cmd_arg c 1 = Inr name" "cmd_arg c 2 = Inr (dec_nat off)" "cmd_arg c 3 = Inr bs" and na: "nargs c = 4"
    using w by (simp_all add: write_words_def cmd_arg_at)
  have num: "str_to_offset (dec_nat off) = (0, int off)" using big by (simp add: offset_arg)
  have run: "cmd_write c s = Inr (int ?len, c, s4)" using na args num q(1) wr r s4(1,2) by (simp add: cmd_write_def not_null_def)
  have fb: "file_bytes (dev s4) y' off ?len = file_bytes (dev s2) y' off ?len"
    using frame_bytes [OF c2 v2(1) s4(4)] v2(2) by simp
  have fr: "irefs s4 = irefs s" "out s4 = out s" "iused s4 = iused s" "iview s4 nr = y'"
    "\<forall>j < NR_INODES. j \<noteq> nr \<longrightarrow> iview s4 j = iview s j" "max_fs_blocks (sb s4) = max_fs_blocks (sb s2)" "bused s4 = bused s2"
    using B s4(4-6) q(5-7) nr(2) v2 cache_frame_used [OF s4(4)] cache_frame_used [OF q(7)]
    by (auto simp: kframe_def cache_frame_def)
  have "readable_range s2 y' off ?len" by (rule stored_range [OF st max(1)])
  then have "readable_range s4 y' off ?len"
    using frame_regular [OF c2 v2(1) s4(4)] v2(2) by (simp add: readable_range_def)
  moreover have "file_bytes (dev s4) y' off ?len = bs" using fb stored_bytes [OF st] by simp
  ultimately show ?thesis using run D4 fr ty sz by auto
qed

section \<open>Lines of words\<close>

definition word :: "cstr \<Rightarrow> bool" where
  "word w \<longleftrightarrow> w \<noteq> [] \<and> (\<forall>b \<in> set w. \<not> is_space_nl b \<and> b \<noteq> 0)"

fun spaced :: "cstr list \<Rightarrow> cstr" where
  "spaced [] = []"
| "spaced [w] = w"
| "spaced (w # ws) = w @ 32 # spaced ws"

definition source :: "cstr option \<Rightarrow> cstr option \<Rightarrow> cstr option" where
  "source args save = (if args = None then save else args)"

lemma spaced_Cons: "spaced (w # ws) = w @ (if ws = [] then [] else 32 # spaced ws)"
  by (cases ws) simp_all

lemma spaced_start: "word w \<Longrightarrow> spaced (w # ws) \<noteq> [] \<and> \<not> is_space_nl (hd (spaced (w # ws)))"
  by (auto simp: spaced_Cons word_def)

lemma strtok_none: "source args save = Some [] \<Longrightarrow> strtok_r b delim args save = Inr (None, Some [])"
  by (simp add: strtok_r_def source_def)

lemma strtok_token:
  assumes "source args save = Some (w @ r)" "w \<noteq> []" "\<forall>b \<in> set w. \<not> delim b" "r \<noteq> [] \<longrightarrow> delim (hd r)"
  shows "strtok_r b delim args save = Inr (Some w, Some (tl r))"
proof -
  have "dropWhile delim (w @ r) = w @ r" using assms(2,3) by (cases w) simp_all
  moreover have "takeWhile (\<lambda>b. \<not> delim b) (w @ r) = w" "dropWhile (\<lambda>b. \<not> delim b) (w @ r) = r"
    using assms(3,4) by (cases r; simp add: takeWhile_append2 dropWhile_append2)+
  ultimately show ?thesis using assms(1,2) by (simp add: strtok_r_def source_def Let_def)
qed

lemma strtok_word:
  assumes "source args save = Some (spaced (w # ws))" "word w"
  shows "strtok_r b is_space_nl args save = Inr (Some w, Some (spaced ws))"
proof -
  have "source args save = Some (w @ (if ws = [] then [] else 32 # spaced ws))" using assms(1) by (simp add: spaced_Cons)
  from strtok_token [OF this, of is_space_nl b] assms(2) show ?thesis by (auto simp: word_def is_space_nl_def [of 32])
qed

lemma arg_loop_spec:
  assumes "source args save = Some (spaced us)" "\<forall>w \<in> set us. word w" "j \<le> mx" "mx < length ws"
  shows "\<exists>args' save' ws'. arg_loop b mx j args save ws = Inr (j + min (length us) (mx - j), args', save', ws')
    \<and> source args' save' = Some (spaced (drop (mx - j) us)) \<and> length ws' = length ws
    \<and> take (j + min (length us) (mx - j)) ws' = take j ws @ map Some (take (mx - j) us)"
  using assms
proof (induction us arbitrary: j args save ws)
  case Nil
  show ?case
  proof (cases "j < mx")
    case True
    with Nil strtok_none [of args save b is_space_nl] show ?thesis
      by (auto simp: arg_loop.simps [of b mx j] arr_set_def source_def)
  next
    case False
    then have "arg_loop b mx j args save ws = Inr (j, args, save, ws)" by (simp add: arg_loop.simps [of b mx j])
    with Nil show ?thesis by auto
  qed
next
  case (Cons w us)
  show ?case
  proof (cases "j < mx")
    case True
    have "strtok_r b is_space_nl args save = Inr (Some w, Some (spaced us))"
      using strtok_word [OF Cons.prems(1)] Cons.prems(2) by simp
    then have step: "arg_loop b mx j args save ws = arg_loop b mx (j + 1) None (Some (spaced us)) (ws[j := Some w])"
      using True Cons.prems(4) by (simp add: arg_loop.simps [of b mx j])
    have pre: "source None (Some (spaced us)) = Some (spaced us)" "\<forall>w \<in> set us. word w" "j + 1 \<le> mx" "mx < length (ws[j := Some w])"
      using Cons.prems True by (simp_all add: source_def)
    have "mx - j = Suc (mx - (j + 1))" "take (j + 1) (ws[j := Some w]) = take j ws @ [Some w]"
      using True Cons.prems(4) by (simp_all add: take_Suc_conv_app_nth)
    with Cons.IH [OF pre] step show ?thesis by auto
  next
    case False
    then have "arg_loop b mx j args save ws = Inr (j, args, save, ws)" by (simp add: arg_loop.simps [of b mx j])
    with False Cons.prems show ?thesis by auto
  qed
qed

lemma word_char: "word w \<Longrightarrow> c \<in> set w \<Longrightarrow> c \<noteq> 10 \<and> c \<noteq> 13 \<and> c \<noteq> 0"
  unfolding word_def is_space_nl_def by blast

lemma spaced_chars: "\<forall>w \<in> set us. word w \<Longrightarrow> c \<in> set (spaced us) \<Longrightarrow> c \<noteq> 10 \<and> c \<noteq> 13 \<and> c \<noteq> 0"
proof (induction us)
  case (Cons w us)
  then consider "c \<in> set w" | "c = 32" | "c \<in> set (spaced us)" by (auto simp: spaced_Cons split: if_splits)
  then show ?case by cases (use Cons word_char [of w c] in simp_all)
qed simp

lemma length_clear_from [simp]: "length (clear_from j ws) = length ws"
  by (cases "j \<le> length ws") (simp_all add: clear_from_def)

lemma last_token:
  assumes "source args save = Some (spaced us)" "\<forall>w \<in> set us. word w"
  shows "\<exists>save'. strtok_r b is_eol args save = Inr (if us = [] then None else Some (spaced us), save')"
proof (cases us)
  case Nil
  with assms(1) strtok_none [of args save b is_eol] show ?thesis by simp
next
  case (Cons w ws)
  have "\<forall>b \<in> set (spaced us). \<not> is_eol b" using spaced_chars [OF assms(2)] by (auto simp: is_eol_def)
  moreover have "spaced us \<noteq> []" using Cons assms(2) spaced_start by simp
  ultimately show ?thesis using strtok_token [of args save "spaced us" "[]" is_eol b] assms(1) Cons by simp
qed

text \<open>The words that a command of at most \<open>m\<close> arguments gets: the last one is the rest of the line.\<close>

definition arg_words :: "nat \<Rightarrow> cstr \<Rightarrow> cstr list \<Rightarrow> cstr list" where
  "arg_words m name ws = name # take (m - 1) ws @ (if length ws < m then [] else [spaced (drop (m - 1) ws)])"

lemma parse_words_spec:
  assumes ws: "\<forall>w \<in> set ws. word w" and m: "1 \<le> max_args e" "max_args e \<le> MAX_ARGS" and len: "length (cmd c) = MAX_ARGS + 1"
  obtains c' where "parse_command b e c name (Some (spaced ws)) = Inr c'" "cur_dir c' = cur_dir c" "length (cmd c') = MAX_ARGS + 1"
    "nargs c' = int (length (arg_words (max_args e) name ws))"
    "take (length (arg_words (max_args e) name ws)) (cmd c') = map Some (arg_words (max_args e) name ws)"
proof -
  let ?m = "max_args e" and ?ws = "(cmd c)[0 := Some name]" and ?k = "min (length ws) (max_args e - 1)"
  have "source (Some (spaced ws)) None = Some (spaced ws)" "?m < length ?ws" using m(2) len by (simp_all add: source_def)
  from arg_loop_spec [OF this(1) ws m(1) this(2), of b] obtain args' save' ws' where
    l: "arg_loop b ?m 1 (Some (spaced ws)) None ?ws = Inr (1 + ?k, args', save', ws')"
      "source args' save' = Some (spaced (drop (?m - 1) ws))" "length ws' = length ?ws"
      "take (1 + ?k) ws' = take 1 ?ws @ map Some (take (?m - 1) ws)" by blast
  have "\<forall>w \<in> set (drop (?m - 1) ws). word w" using ws by (meson in_set_dropD)
  from last_token [OF l(2) this, of b] obtain s2 where
    tok: "strtok_r b is_eol args' save' = Inr (if drop (?m - 1) ws = [] then None else Some (spaced (drop (?m - 1) ws)), s2)" by blast
  have t1: "take 1 ?ws = [Some name]" using len by (cases "cmd c") simp_all
  have j: "1 + ?k < length ws'" using l(3) len m by simp
  let ?tok = "if drop (?m - 1) ws = [] then None else Some (spaced (drop (?m - 1) ws))"
  let ?j = "if ?tok \<noteq> None then 1 + ?k + 1 else 1 + ?k"
  let ?c = "c\<lparr>nargs := int ?j, cmd := clear_from (?j + 1) (ws'[1 + ?k := ?tok])\<rparr>"
  have p: "parse_command b e c name (Some (spaced ws)) = Inr ?c"
    using l(1) tok j len by (simp add: parse_command_def Let_def)
  have ln: "?j = length (arg_words ?m name ws)" using m(1) by (auto simp: arg_words_def)
  have tk: "take ?j (ws'[1 + ?k := ?tok]) = map Some (arg_words ?m name ws)"
  proof (cases "length ws < ?m")
    case True
    then show ?thesis using l(4) t1 m(1) by (simp add: arg_words_def)
  next
    case False
    then have "?tok \<noteq> None" "?k = ?m - 1" using m(1) by auto
    then show ?thesis using l(4) t1 j m(1) False by (simp add: arg_words_def take_Suc_conv_app_nth)
  qed
  have "take ?j (cmd ?c) = take ?j (ws'[1 + ?k := ?tok])"
    using j by (auto simp: clear_from_def)
  then have "take (length (arg_words ?m name ws)) (cmd ?c) = map Some (arg_words ?m name ws)" unfolding ln [symmetric] tk by simp
  moreover have "length (cmd ?c) = MAX_ARGS + 1" using l(3) len by simp
  ultimately show thesis using that [OF p] ln by simp
qed

lemma find_cmd_args:
  assumes "find_cmd name cmdtable = Some e"
  shows "1 \<le> max_args e \<and> max_args e \<le> 4"
proof -
  have "find_cmd name es = Some e \<Longrightarrow> e \<in> set es" for es by (induction es) (auto split: if_splits)
  with assms have "e \<in> set cmdtable" by blast
  then show ?thesis by (auto simp: cmdtable_def entry_of_def)
qed

text \<open>A line of at least two words that is no comment: the command runs with its words.\<close>

abbreviation line_of :: "cstr list \<Rightarrow> byte list" where
  "line_of ws \<equiv> spaced ws @ [10]"

lemma run_line:
  assumes w: "word name" "hd name \<noteq> 35" "find_cmd name cmdtable = Some e" "c_func e \<noteq> CmdQuit"
    and ws: "ws \<noteq> []" "\<forall>w \<in> set ws. word w" and len: "length (cmd c) = MAX_ARGS + 1"
  obtains c' where "cur_dir c' = cur_dir c" "length (cmd c') = MAX_ARGS + 1"
    "nargs c' = int (length (arg_words (max_args e) name ws))"
    "take (length (arg_words (max_args e) name ws)) (cmd c') = map Some (arg_words (max_args e) name ws)"
    "\<And>lines s. main_loop n b True False (line_of (name # ws) # lines) c s
       = bindo (run_cmd n (c_func e) c' s) (\<lambda>(ret, c, s). main_loop n b True False lines c s)"
proof -
  obtain c' where p: "parse_command b e c name (Some (spaced ws)) = Inr c'" "cur_dir c' = cur_dir c" "length (cmd c') = MAX_ARGS + 1"
    "nargs c' = int (length (arg_words (max_args e) name ws))"
    "take (length (arg_words (max_args e) name ws)) (cmd c') = map Some (arg_words (max_args e) name ws)"
    by (rule parse_words_spec [OF ws(2) _ _ len, of e b name]) (use find_cmd_args [OF w(3)] in auto)
  let ?line = "line_of (name # ws)"
  have line: "?line = name @ 32 # spaced ws @ [10]" using ws(1) by (simp add: spaced_Cons)
  have "source (Some ?line) None = Some (name @ (32 # spaced ws @ [10]))" using line by (simp add: source_def)
  from strtok_token [OF this, of is_space_nl b] w(1) have t1: "strtok_r b is_space_nl (Some ?line) None = Inr (Some name, Some (spaced ws @ [10]))"
    by (simp add: word_def is_space_nl_def [of 32])
  have "spaced ws \<noteq> []" using ws spaced_start by (cases ws) simp_all
  moreover have "\<forall>b \<in> set (spaced ws). \<not> is_eol b" using spaced_chars [OF ws(2)] by (auto simp: is_eol_def)
  moreover have "source None (Some (spaced ws @ [10])) = Some (spaced ws @ [10])" by (simp add: source_def)
  ultimately have t2: "strtok_r b is_eol None (Some (spaced ws @ [10])) = Inr (Some (spaced ws), Some [])"
    using strtok_token [of None "Some (spaced ws @ [10])" "spaced ws" "[10]" is_eol b] by (simp add: is_eol_def [of 10])
  have "hd ?line \<noteq> 35" using w(1,2) line by (cases name) (simp_all add: word_def)
  then have "main_loop n b True False (?line # lines) c s
       = bindo (run_cmd n (c_func e) c' s) (\<lambda>(ret, c, s). main_loop n b True False lines c s)" for lines s
    using t1 t2 w(3,4) p(1) by (simp add: handle_command_def bindo_def split: option.splits sum.splits prod.splits)
  with p that show thesis by blast
qed

lemma word_dec_nat: "word (dec_nat n)"
proof -
  have "\<not> is_space_nl b \<and> b \<noteq> 0" if "is_digit b" for b
    using that by (auto simp: is_digit_def is_space_nl_def word_le_def)
  then show ?thesis using dec_nat_digits dec_nat_nonempty by (auto simp: word_def)
qed

lemma word_zero: "word w \<Longrightarrow> 0 \<notin> set w"
  by (auto simp: word_def)

lemma two_words:
  assumes "nargs c = int (length (arg_words 2 w0 [w1]))" "take (length (arg_words 2 w0 [w1])) (cmd c) = map Some (arg_words 2 w0 [w1])"
    "length (cmd c) = MAX_ARGS + 1"
  shows "nargs c = 2" "cmd_arg c 1 = Inr w1"
proof -
  have a: "arg_words 2 w0 [w1] = [w0, w1]" by (simp add: arg_words_def)
  show "nargs c = 2" using assms(1) a by simp
  have l: "length [w0, w1] = 2" by simp
  have "take 2 (cmd c) ! i = [Some w0, Some w1] ! i" for i using assms(2) unfolding a l by simp
  from this [of 1] show "cmd_arg c 1 = Inr w1" using assms(3) by (simp add: cmd_arg_at)
qed

lemma four_words:
  assumes "nargs c = int (length (arg_words 4 w0 [w1, w2, w3]))" "take (length (arg_words 4 w0 [w1, w2, w3])) (cmd c)
    = map Some (arg_words 4 w0 [w1, w2, w3])" "length (cmd c) = MAX_ARGS + 1"
  shows "nargs c = 4" "cmd c ! 1 = Some w1" "cmd c ! 2 = Some w2" "cmd c ! 3 = Some w3"
proof -
  have a: "arg_words 4 w0 [w1, w2, w3] = [w0, w1, w2, w3]" by (simp add: arg_words_def)
  show "nargs c = 4" using assms(1) a by simp
  have l: "length [w0, w1, w2, w3] = 4" by simp
  have "take 4 (cmd c) ! i = [Some w0, Some w1, Some w2, Some w3] ! i" for i using assms(2) unfolding a l by simp
  from this [of 1] this [of 2] this [of 3] show "cmd c ! 1 = Some w1" "cmd c ! 2 = Some w2" "cmd c ! 3 = Some w3" by simp_all
qed

text \<open>The lines \<open>write NAME OFFSET DATA\<close> and \<open>read NAME OFFSET SIZE\<close> for a file that nobody else has open.\<close>

lemma write_read_lines:
  assumes D: "in_dir s (cur_dir c) k x es"
    and "word name" "dir_lookup es name = Some (int nr)" "nr < NR_INODES" "nr \<in> iused s" "irefs s nr = 0"
    and "i_type (iview s nr) \<noteq> I_DIR" "length (cmd c) = MAX_ARGS + 1"
    and "word bs" "length bs < 2 ^ 31" "off + length bs \<le> MAX_BLOCKS * BLOCK_SIZE" "room s (length bs)"
  shows "\<exists>c' s'. main_loop n b True False [line_of [lit ''write'', name, dec_nat off, bs],
        line_of [lit ''read'', name, dec_nat off, dec_nat (length bs)]] c s = Some (Inr (c', s'))
    \<and> cur_dir c' = cur_dir c \<and> in_dir s' (cur_dir c) k x es \<and> irefs s' = irefs s \<and> iused s' = iused s
    \<and> out s' = out s @ [OutStr bs, OutStr [10]] \<and> i_size (iview s' nr) = max (i_size (iview s nr)) (int (off + length bs))"
proof -
  have nm: "0 \<notin> set name" and bs: "0 \<notin> set bs" "bs \<noteq> []" "0 < length bs"
    using assms(2,9) word_zero by (auto simp: word_def)
  obtain e1 where e1: "find_cmd (lit ''write'') cmdtable = Some e1" "c_func e1 = CmdWrite" "max_args e1 = 4"
    by (simp add: cmdtable_def entry_of_def lit_def)
  obtain e2 where e2: "find_cmd (lit ''read'') cmdtable = Some e2" "c_func e2 = CmdRead" "max_args e2 = 4"
    by (simp add: cmdtable_def entry_of_def lit_def)
  have w: "word (lit ''write'')" "hd (lit ''write'') \<noteq> 35" "word (lit ''read'')" "hd (lit ''read'') \<noteq> 35"
    by (simp_all add: word_def lit_def is_space_nl_def)
  let ?ws1 = "[name, dec_nat off, bs]" and ?ws2 = "[name, dec_nat off, dec_nat (length bs)]"
  have ws: "\<forall>w \<in> set ?ws1. word w" "\<forall>w \<in> set ?ws2. word w" "?ws1 \<noteq> []" "?ws2 \<noteq> []" using assms(2,9) word_dec_nat by simp_all
  have nq: "c_func e1 \<noteq> CmdQuit" "c_func e2 \<noteq> CmdQuit" using e1 e2 by simp_all
  obtain c1 where c1: "cur_dir c1 = cur_dir c" "length (cmd c1) = MAX_ARGS + 1"
    "nargs c1 = int (length (arg_words (max_args e1) (lit ''write'') ?ws1))"
    "take (length (arg_words (max_args e1) (lit ''write'') ?ws1)) (cmd c1) = map Some (arg_words (max_args e1) (lit ''write'') ?ws1)"
    "\<And>lines s. main_loop n b True False (line_of (lit ''write'' # ?ws1) # lines) c s
       = bindo (run_cmd n (c_func e1) c1 s) (\<lambda>(ret, c, s). main_loop n b True False lines c s)"
    by (rule run_line [OF w(1,2) e1(1) nq(1) ws(3,1) assms(8), of n b]) blast
  obtain c2 where c2: "cur_dir c2 = cur_dir c1" "length (cmd c2) = MAX_ARGS + 1"
    "nargs c2 = int (length (arg_words (max_args e2) (lit ''read'') ?ws2))"
    "take (length (arg_words (max_args e2) (lit ''read'') ?ws2)) (cmd c2) = map Some (arg_words (max_args e2) (lit ''read'') ?ws2)"
    "\<And>lines s. main_loop n b True False (line_of (lit ''read'' # ?ws2) # lines) c1 s
       = bindo (run_cmd n (c_func e2) c2 s) (\<lambda>(ret, c, s). main_loop n b True False lines c s)"
    by (rule run_line [OF w(3,4) e2(1) nq(2) ws(4,2) c1(2), of n b]) blast
  have ww: "write_words c1 name off bs" using four_words [OF c1(3,4) [unfolded e1] c1(2)] c1(2) by (simp add: write_words_def)
  have rw: "read_words c2 name off (length bs)" using four_words [OF c2(3,4) [unfolded e2] c2(2)] c2(2) by (simp add: read_words_def)
  have D1: "in_dir s (cur_dir c1) k x es" using D c1(1) by simp
  from cmd_write_spec [OF D1 nm assms(3,4,6,5,7) ww bs(2) assms(10-12)] obtain s1 where
    s1: "cmd_write c1 s = Inr (int (length bs), c1, s1)" "in_dir s1 (cur_dir c2) k x es" "irefs s1 = irefs s" "out s1 = out s"
      "i_type (iview s1 nr) = i_type (iview s nr)" "iused s1 = iused s" "file_bytes (dev s1) (iview s1 nr) off (length bs) = bs"
      "readable_range s1 (iview s1 nr) off (length bs)"
      "i_size (iview s1 nr) = max (i_size (iview s nr)) (int (off + length bs))" using c2(1) by auto
  have ref1: "irefs s1 nr = 0" and ty1: "i_type (iview s1 nr) \<noteq> I_DIR" using s1(3,5) assms(6,7) by simp_all
  have "int (off + length bs) \<le> i_size (iview s1 nr)" using s1(9) by simp
  with cmd_read_spec [OF s1(2) nm assms(3,4) ref1 ty1 rw bs(3) assms(10,11) s1(8)] obtain s2 where
    s2: "cmd_read c2 s1 = Inr (int (length bs), c2, s2)" "in_dir s2 (cur_dir c2) k x es" "irefs s2 = irefs s1" "iview s2 = iview s1" "iused s2 = iused s1"
      "out s2 = out s1 @ [OutStr (shown (file_bytes (dev s1) (iview s1 nr) off (length bs))), OutStr [10]]" by auto
  have run: "main_loop n b True False [line_of [lit ''write'', name, dec_nat off, bs],
        line_of [lit ''read'', name, dec_nat off, dec_nat (length bs)]] c s = Some (Inr (c2, s2))"
    using c1(5) c2(5) e1(2) e2(2) s1(1) s2(1) by (simp add: run_cmd_def)
  have "shown bs = bs" using bs(1) by (auto simp: shown_def takeWhile_eq_all_conv)
  with s1(4,7) s2(6) have "out s2 = out s @ [OutStr bs, OutStr [10]]" by simp
  with run s2(2-5) s1(3,6,9) c1(1) c2(1) show ?thesis by auto
qed

section \<open>Creating\<close>

lemma cmd_create_spec:
  assumes D: "in_dir s (cur_dir c) k x es" and u: "k \<in> iused s" and nm: "0 \<notin> set name" "dir_lookup es name = None"
    and w: "nargs c = 2" "cmd_arg c 1 = Inr name" and fits: "length (dir_bytes es) + 9 + length name \<le> BLOCK_SIZE"
    and free: "\<not> {..<NR_INODES} \<subseteq> iused s" "int (card (bused s)) + 2 < max_fs_blocks (sb s)"
  obtains s' nr x' es' where "cmd_create c s = Inr (0, c, s')" "in_dir s' (cur_dir c) k x' es'" "dir_lookup es' name = Some (int nr)"
    "nr < NR_INODES" "nr \<notin> iused s" "iused s' = insert nr (iused s)" "iview s' nr = empty_file" "irefs s' = irefs s" "out s' = out s"
    "card (bused s') \<le> card (bused s) + 6" "max_fs_blocks (sb s') = max_fs_blocks (sb s)"
proof -
  from D have o: "consistent s" "opened s (cur_dir c) k x False" "dir_holds s x es" by (simp_all add: in_dir_def)
  have "length (dir_bytes es) + 9 + length name \<le> 2058 * BLOCK_SIZE" using fits by linarith
  from create_file_spec [OF o(1,2) u o(3) nm(1) this] nm(2) obtain r s' where
    s': "testfs_create_file_or_dir (Some (cur_dir c)) I_FILE name s = Inr (r, s')" "consistent s'" and
    r: "r = 0 \<and> created_file s (cur_dir c) k x es name s' \<or> no_room s (length (dir_bytes es) + 9 + length name) s'" by auto
  have "\<not> no_room s (length (dir_bytes es) + 9 + length name) s'" using free fits by (simp add: no_room_def)
  with r have "r = 0" "created_file s (cur_dir c) k x es name s'" by simp_all
  then obtain nr i x' where n: "nr < NR_INODES" "nr \<notin> iused s" "iused s' = insert nr (iused s)"
      "add_place es name (int (length name) + 1) = Some i" "opened s' (cur_dir c) k x' False"
      "dir_holds s' x' (put_entry es i (new_dirent name (int nr)))" "iview s' nr = empty_file" "irefs s' = irefs s" "out s' = out s"
      "card (bused s') \<le> card (bused s) + 6" "max_fs_blocks (sb s') = max_fs_blocks (sb s)"
    unfolding created_file_def using fits by blast
  show thesis
  proof (rule that [of s' x' "put_entry es i (new_dirent name (int nr))" nr])
    show "cmd_create c s = Inr (0, c, s')" using w s'(1) \<open>r = 0\<close> by (simp add: cmd_create_def)
    show "in_dir s' (cur_dir c) k x' (put_entry es i (new_dirent name (int nr)))" by (rule in_dirI [OF s'(2) n(5,6)])
    show "dir_lookup (put_entry es i (new_dirent name (int nr))) name = Some (int nr)"
      by (rule lookup_put_same [OF _ nm(1) n(4)]) simp
  qed (use n in simp_all)
qed

section \<open>Properties\<close>

text \<open>
  C3: A session: the shell gets the lines \<open>create NAME\<close>, \<open>write NAME OFFSET DATA\<close> and \<open>read NAME OFFSET SIZE\<close>
  in a directory that does not hold the name and whose entries with the new one fit into a block.  Nobody has an
  unused inode open, an inode is free, and so are blocks: three for each block of the data, and eighteen.  The data lies below the
  largest file (its offset may be anything up to there) and is shorter than \<open>2 ^ 31\<close>.  Then the shell comes to the end of its
  input, has printed exactly the data, and leaves a consistent file system, the same directory open and no reference
  left over; the name stands for a new inode, and the data is the end of its file.
\<close>

theorem shell_create_write_read:
  assumes "consistent s" "opened s (cur_dir c) k x d" "dir_holds s x es" "k \<in> iused s"
    and "\<forall>j. j \<notin> iused s \<longrightarrow> irefs s j = 0" "\<not> {..<NR_INODES} \<subseteq> iused s"
    and "int (card (bused s)) + 3 * int (length bs div BLOCK_SIZE) + 18 \<le> max_fs_blocks (sb s)"
    and "word name" "dir_lookup es name = None" "length (dir_bytes es) + 9 + length name \<le> BLOCK_SIZE"
    and "word bs" "length bs < 2 ^ 31" "off + length bs \<le> MAX_BLOCKS * BLOCK_SIZE" "length (cmd c) = MAX_ARGS + 1"
  shows "\<exists>c' s' nr. main_loop n b True False [line_of [lit ''create'', name], line_of [lit ''write'', name, dec_nat off, bs],
        line_of [lit ''read'', name, dec_nat off, dec_nat (length bs)]] c s = Some (Inr (c', s'))
    \<and> cur_dir c' = cur_dir c \<and> consistent s' \<and> (\<exists>x'. opened s' (cur_dir c) k x' False) \<and> irefs s' = irefs s
    \<and> nr \<notin> iused s \<and> iused s' = insert nr (iused s) \<and> testfs_dir_name_to_inode_nr (cur_dir c) name s' = Inr (int nr)
    \<and> out s' = out s @ [OutStr bs, OutStr [10]] \<and> i_size (iview s' nr) = int (off + length bs)"
proof -
  have D: "in_dir s (cur_dir c) k x es" by (rule in_dirI [OF assms(1-3)])
  have nm: "0 \<notin> set name" by (rule word_zero [OF assms(8)])
  obtain e where e: "find_cmd (lit ''create'') cmdtable = Some e" "c_func e = CmdCreate" "max_args e = 2"
    by (simp add: cmdtable_def entry_of_def lit_def)
  have w: "word (lit ''create'')" "hd (lit ''create'') \<noteq> 35" "c_func e \<noteq> CmdQuit" "[name] \<noteq> []" "\<forall>w \<in> set [name]. word w"
    using assms(8) e by (simp_all add: word_def lit_def is_space_nl_def)
  obtain c1 where c1: "cur_dir c1 = cur_dir c" "length (cmd c1) = MAX_ARGS + 1"
    "nargs c1 = int (length (arg_words (max_args e) (lit ''create'') [name]))"
    "take (length (arg_words (max_args e) (lit ''create'') [name])) (cmd c1) = map Some (arg_words (max_args e) (lit ''create'') [name])"
    "\<And>lines s. main_loop n b True False (line_of (lit ''create'' # [name]) # lines) c s
       = bindo (run_cmd n (c_func e) c1 s) (\<lambda>(ret, c, s). main_loop n b True False lines c s)"
    by (rule run_line [OF w(1,2) e(1) w(3-5) assms(14), of n b]) blast
  have D1: "in_dir s (cur_dir c1) k x es" using D c1(1) by simp
  have free: "int (card (bused s)) + 2 < max_fs_blocks (sb s)" using assms(7) by linarith
  obtain s1 nr x1 es1 where s1: "cmd_create c1 s = Inr (0, c1, s1)" "in_dir s1 (cur_dir c1) k x1 es1"
    "dir_lookup es1 name = Some (int nr)" "nr < NR_INODES" "nr \<notin> iused s" "iused s1 = insert nr (iused s)"
    "iview s1 nr = empty_file" "irefs s1 = irefs s" "out s1 = out s"
    "card (bused s1) \<le> card (bused s) + 6" "max_fs_blocks (sb s1) = max_fs_blocks (sb s)"
    by (rule cmd_create_spec [OF D1 assms(4) nm assms(9) two_words [OF c1(3,4) [unfolded e] c1(2)] assms(10,6) free])
  have new: "nr \<in> iused s1" "irefs s1 nr = 0" "i_type (iview s1 nr) \<noteq> I_DIR" "i_size (iview s1 nr) = 0"
    using s1(5-8) assms(5) by (simp_all add: empty_file_def zero_dinode_def)
  have "room s1 (length bs)" using assms(7) s1(10,11) by (simp add: room_def)
  from write_read_lines [OF s1(2) assms(8) s1(3,4) new(1-3) c1(2) assms(11-13) this, of n b] obtain c' s' where
    run: "main_loop n b True False [line_of [lit ''write'', name, dec_nat off, bs],
        line_of [lit ''read'', name, dec_nat off, dec_nat (length bs)]] c1 s1 = Some (Inr (c', s'))" and
    s': "cur_dir c' = cur_dir c1" "in_dir s' (cur_dir c) k x1 es1" "irefs s' = irefs s1" "iused s' = iused s1"
      "out s' = out s1 @ [OutStr bs, OutStr [10]]" "i_size (iview s' nr) = max (i_size (iview s1 nr)) (int (off + length bs))"
    using c1(1) by auto
  have all: "main_loop n b True False [line_of [lit ''create'', name], line_of [lit ''write'', name, dec_nat off, bs],
        line_of [lit ''read'', name, dec_nat off, dec_nat (length bs)]] c s = Some (Inr (c', s'))"
    using c1(5) e(2) s1(1) run by (simp add: run_cmd_def)
  have "testfs_dir_name_to_inode_nr (cur_dir c) name s' = Inr (int nr)" using in_dir_lookup [OF s'(2) nm] s1(3) by simp
  with all s' s1(5,6,8,9) new(4) c1(1) show ?thesis by (auto simp: in_dir_def)
qed

theorem shell_create_write_read_witness:
  "\<exists>c s c' s' nr. consistent s \<and> main_loop 0 False True False
        [lit ''create f'' @ [10], lit ''write f 20000000 hi'' @ [10], lit ''read f 20000000 2'' @ [10]] c s = Some (Inr (c', s'))
    \<and> consistent s' \<and> testfs_dir_name_to_inode_nr (cur_dir c') (lit ''f'') s' = Inr (int nr)
    \<and> out s' = out s @ [OutStr (lit ''hi''), OutStr [10]] \<and> i_size (iview s' nr) = 20000002"
proof -
  obtain p k s where s: "opened s p k empty_dir True" "consistent s" "k \<in> iused s" "iused s = {k}"
    "max_fs_blocks (sb s) = 1024" "bused s = {}" "\<And>j. j \<noteq> k \<Longrightarrow> irefs s j = 0" by (rule test_dir) blast
  define c where "c = \<lparr>nargs = 0, cmd = replicate (MAX_ARGS + 1) None, cur_dir = p\<rparr>"
  have c: "opened s (cur_dir c) k empty_dir True" "length (cmd c) = MAX_ARGS + 1" using s(1) by (simp_all add: c_def)
  have w: "word (lit ''f'')" "word (lit ''hi'')" by (simp_all add: word_def lit_def is_space_nl_def)
  have len: "length (dir_bytes []) + 9 + length (lit ''f'') \<le> BLOCK_SIZE" "length (lit ''hi'') < 2 ^ 31"
    "20000000 + length (lit ''hi'') \<le> MAX_BLOCKS * BLOCK_SIZE"
    by (simp_all add: BLOCK_SIZE_def lit_def)
  have refs: "\<forall>j. j \<notin> iused s \<longrightarrow> irefs s j = 0" and room: "\<not> {..<NR_INODES} \<subseteq> iused s"
      "int (card (bused s)) + 3 * int (length (lit ''hi'') div BLOCK_SIZE) + 18 \<le> max_fs_blocks (sb s)"
    using s(4-7) one_inode by (auto simp: BLOCK_SIZE_def lit_def)
  have lines: "line_of [lit ''create'', lit ''f''] = lit ''create f'' @ [10]"
    "line_of [lit ''write'', lit ''f'', dec_nat 20000000, lit ''hi''] = lit ''write f 20000000 hi'' @ [10]"
    "line_of [lit ''read'', lit ''f'', dec_nat 20000000, dec_nat (length (lit ''hi''))] = lit ''read f 20000000 2'' @ [10]"
    by (simp_all add: lit_def dec_nat.simps)
  have "dir_lookup [] (lit ''f'') = None" by simp
  from shell_create_write_read [OF s(2) c(1) empty_dir_holds s(3) refs room w(1) this len(1) w(2) len(2,3) c(2), of 0 False,
      unfolded lines]
  obtain c' s' nr where "main_loop 0 False True False
        [lit ''create f'' @ [10], lit ''write f 20000000 hi'' @ [10], lit ''read f 20000000 2'' @ [10]] c s = Some (Inr (c', s'))"
    "cur_dir c' = cur_dir c" "consistent s'" "testfs_dir_name_to_inode_nr (cur_dir c) (lit ''f'') s' = Inr (int nr)" and
    o: "out s' = out s @ [OutStr (lit ''hi''), OutStr [10]]" "i_size (iview s' nr) = int (20000000 + length (lit ''hi''))" by blast
  moreover have "int (20000000 + length (lit ''hi'')) = 20000002" by (simp add: lit_def)
  ultimately show ?thesis using s(2) by (intro exI [of _ c] exI [of _ s] exI [of _ c'] exI [of _ s'] exI [of _ nr]) simp
qed

end
