(* ===== verification/RemoveProps.thy ===== *)
theory RemoveProps
  imports CmdProps
begin

text \<open>
  Removing a name (\<open>testfs_remove_dirent\<close> and \<open>cmd_rm\<close> of \<open>src/fs/dir.c\<close>) on a consistent file system: the entry is
  marked as removed, and the inode with its blocks is given back; a directory that is not empty is kept.
\<close>

section \<open>The loops over the entries\<close>








section \<open>The list of entries after a removal\<close>

definition removed :: "dirent \<Rightarrow> dirent" where
  "removed e = e\<lparr>d_inode_nr := - 1\<rparr>"

lemma removed_simps [simp]: "d_inode_nr (removed e) = - 1" "d_name (removed e) = d_name e" "d_name_len (removed e) = d_name_len e"
  "name_of (removed e) = name_of e" "dirent_ok e \<Longrightarrow> dirent_ok (removed e)"
  by (simp_all add: removed_def name_of_def dirent_ok_def)


section \<open>Removing an entry\<close>



lemma lookup_nonneg: "dir_lookup es name = Some nr \<Longrightarrow> 0 \<le> nr"
  by (induction es) (auto split: if_splits)


section \<open>The command\<close>










section \<open>Properties\<close>



end
