(* ===== verification/HList.thy ===== *)
theory HList
  imports Super
begin

text \<open>
  The lists with a single pointer head of \<open>src/fs/list.h\<close>, as pointers: \<open>pprev\<close> of a node is the address of
  the pointer to the node, which is the \<open>first\<close> of a head or the \<open>next\<close> of another node.  The theory shows
  that the pointer operations implement the list operations by which \<open>InodeHash\<close> models the buckets.
\<close>

section \<open>The code\<close>

datatype cell = First nat | Next nat

record hlist_node =
  nxt :: "nat option"
  pprev :: "cell option"

record hheap =
  heads :: "nat \<rightharpoonup> nat option"
  nodes :: "nat \<rightharpoonup> hlist_node"

definition node_at :: "nat \<Rightarrow> hheap \<Rightarrow> hlist_node result" where
  "node_at x H = (case nodes H x of None \<Rightarrow> Inl BadPointer | Some n \<Rightarrow> Inr n)"

definition upd_node :: "nat \<Rightarrow> (hlist_node \<Rightarrow> hlist_node) \<Rightarrow> hheap \<Rightarrow> hheap result" where
  "upd_node x f H = bindr (node_at x H) (\<lambda>n. Inr (H\<lparr>nodes := (nodes H)(x \<mapsto> f n)\<rparr>))"

text \<open>\<open>*pprev\<close>, and the assignment to it.\<close>

definition read_cell :: "cell \<Rightarrow> hheap \<Rightarrow> nat option result" where
  "read_cell c H = (case c of First h \<Rightarrow> (case heads H h of None \<Rightarrow> Inl BadPointer | Some p \<Rightarrow> Inr p)
     | Next x \<Rightarrow> bindr (node_at x H) (\<lambda>n. Inr (nxt n)))"

definition write_cell :: "cell option \<Rightarrow> nat option \<Rightarrow> hheap \<Rightarrow> hheap result" where
  "write_cell c p H = (case c of None \<Rightarrow> Inl BadPointer
     | Some (First h) \<Rightarrow> if heads H h = None then Inl BadPointer else Inr (H\<lparr>heads := (heads H)(h \<mapsto> p)\<rparr>)
     | Some (Next x) \<Rightarrow> upd_node x (\<lambda>n. n\<lparr>nxt := p\<rparr>) H)"

definition set_pprev :: "nat option \<Rightarrow> cell option \<Rightarrow> hheap \<Rightarrow> hheap result" where
  "set_pprev p c H = (case p of None \<Rightarrow> Inr H | Some x \<Rightarrow> upd_node x (\<lambda>n. n\<lparr>pprev := c\<rparr>) H)"

definition INIT_HLIST_NODE :: "nat \<Rightarrow> hheap \<Rightarrow> hheap result" where
  "INIT_HLIST_NODE x H = upd_node x (\<lambda>n. n\<lparr>nxt := None, pprev := None\<rparr>) H"

definition hlist_empty :: "nat \<Rightarrow> hheap \<Rightarrow> bool result" where
  "hlist_empty h H = bindr (read_cell (First h) H) (\<lambda>p. Inr (p = None))"

definition hlist_add_head :: "nat \<Rightarrow> nat \<Rightarrow> hheap \<Rightarrow> hheap result" where
  "hlist_add_head n h H =
     bindr (read_cell (First h) H) (\<lambda>first.
     bindr (upd_node n (\<lambda>x. x\<lparr>nxt := first\<rparr>) H) (\<lambda>H.
     bindr (set_pprev first (Some (Next n)) H) (\<lambda>H.
     bindr (write_cell (Some (First h)) (Some n) H) (\<lambda>H.
     upd_node n (\<lambda>x. x\<lparr>pprev := Some (First h)\<rparr>) H))))"

definition hlist_del :: "nat \<Rightarrow> hheap \<Rightarrow> hheap result" where
  "hlist_del n H =
     bindr (node_at n H) (\<lambda>x.
     bindr (write_cell (pprev x) (nxt x) H) (\<lambda>H.
     bindr (set_pprev (nxt x) (pprev x) H) (\<lambda>H.
     INIT_HLIST_NODE n H)))"

text \<open>
  The nodes that \<open>hlist_for_each_entry\<close> visits from the pointer \<open>pos\<close> on, if there are at most \<open>k\<close>; the
  walk changes nothing, so one of more steps than there are nodes never ends.
\<close>

fun hlist_for_each :: "nat \<Rightarrow> nat option \<Rightarrow> hheap \<Rightarrow> nat list result" where
  "hlist_for_each k None H = Inr []"
| "hlist_for_each 0 (Some x) H = Inl Diverges"
| "hlist_for_each (Suc k) (Some x) H =
     bindr (node_at x H) (\<lambda>n. bindr (hlist_for_each k (nxt n) H) (\<lambda>xs. Inr (x # xs)))"

section \<open>Lists in the heap\<close>

text \<open>A heap as two maps: what each pointer holds, and the back pointer of each node.\<close>

definition cell_of :: "hheap \<Rightarrow> cell \<Rightarrow> nat option option" where
  "cell_of H c = (case c of First h \<Rightarrow> heads H h | Next x \<Rightarrow> map_option nxt (nodes H x))"

definition back_of :: "hheap \<Rightarrow> nat \<Rightarrow> cell option option" where
  "back_of H x = map_option pprev (nodes H x)"

text \<open>The pointer \<open>c\<close> leads through the nodes \<open>xs\<close> to \<open>p\<close>.\<close>

fun hseg :: "(cell \<Rightarrow> nat option option) \<Rightarrow> (nat \<Rightarrow> cell option option) \<Rightarrow> cell \<Rightarrow> nat list \<Rightarrow> nat option \<Rightarrow> bool" where
  "hseg C B c [] p \<longleftrightarrow> C c = Some p"
| "hseg C B c (x # xs) p \<longleftrightarrow> C c = Some (Some x) \<and> B x = Some (Some c) \<and> hseg C B (Next x) xs p"

text \<open>Every head of \<open>hs\<close> has its list, and no node is in two lists.\<close>

definition hlists :: "hheap \<Rightarrow> nat set \<Rightarrow> (nat \<Rightarrow> nat list) \<Rightarrow> bool" where
  "hlists H hs T \<longleftrightarrow> (\<forall>h \<in> hs. hseg (cell_of H) (back_of H) (First h) (T h) None \<and> distinct (T h))
     \<and> (\<forall>h \<in> hs. \<forall>h' \<in> hs. h \<noteq> h' \<longrightarrow> set (T h) \<inter> set (T h') = {})"

definition unlinked :: "hheap \<Rightarrow> nat set \<Rightarrow> (nat \<Rightarrow> nat list) \<Rightarrow> nat \<Rightarrow> bool" where
  "unlinked H hs T x \<longleftrightarrow> nodes H x \<noteq> None \<and> (\<forall>h \<in> hs. x \<notin> set (T h))"

lemma read_cell_eq: "read_cell c H = (case cell_of H c of None \<Rightarrow> Inl BadPointer | Some p \<Rightarrow> Inr p)"
  by (auto simp: read_cell_def cell_of_def node_at_def split: cell.splits option.splits)

lemma node_exists: "cell_of H (Next x) = None \<longleftrightarrow> nodes H x = None" "back_of H x = None \<longleftrightarrow> nodes H x = None"
  by (simp_all add: cell_of_def back_of_def)

lemma node_at_eq:
  assumes "cell_of H (Next x) = Some p" "back_of H x = Some b"
  shows "node_at x H = Inr \<lparr>nxt = p, pprev = b\<rparr>"
  using assms by (auto simp: cell_of_def back_of_def node_at_def)

lemma set_next_ok:
  assumes "nodes H x \<noteq> None"
  obtains H' where "upd_node x (\<lambda>n. n\<lparr>nxt := p\<rparr>) H = Inr H'" "cell_of H' = (cell_of H)(Next x \<mapsto> p)" "back_of H' = back_of H"
  using assms that [of "H\<lparr>nodes := (nodes H)(x \<mapsto> the (nodes H x)\<lparr>nxt := p\<rparr>)\<rparr>"]
  by (auto simp: upd_node_def node_at_def cell_of_def back_of_def fun_eq_iff split: cell.splits)

lemma set_back_ok:
  assumes "nodes H x \<noteq> None"
  obtains H' where "upd_node x (\<lambda>n. n\<lparr>pprev := b\<rparr>) H = Inr H'" "cell_of H' = cell_of H" "back_of H' = (back_of H)(x \<mapsto> b)"
  using assms that [of "H\<lparr>nodes := (nodes H)(x \<mapsto> the (nodes H x)\<lparr>pprev := b\<rparr>)\<rparr>"]
  by (auto simp: upd_node_def node_at_def cell_of_def back_of_def fun_eq_iff split: cell.splits)

lemma write_cell_ok:
  assumes "cell_of H c \<noteq> None"
  obtains H' where "write_cell (Some c) p H = Inr H'" "cell_of H' = (cell_of H)(c \<mapsto> p)" "back_of H' = back_of H"
proof (cases c)
  case (First h)
  with assms show thesis
    by (intro that [of "H\<lparr>heads := (heads H)(h \<mapsto> p)\<rparr>"]) (auto simp: write_cell_def cell_of_def back_of_def fun_eq_iff split: cell.splits)
next
  case (Next x)
  with assms have "nodes H x \<noteq> None" by (simp add: node_exists)
  from set_next_ok [OF this, of p] Next that show thesis by (auto simp: write_cell_def)
qed

lemma set_pprev_ok:
  assumes "\<And>x. p = Some x \<Longrightarrow> nodes H x \<noteq> None"
  obtains H' where "set_pprev p b H = Inr H'" "cell_of H' = cell_of H"
    "back_of H' = (case p of None \<Rightarrow> back_of H | Some x \<Rightarrow> (back_of H)(x \<mapsto> b))"
proof (cases p)
  case None
  then show thesis by (intro that [of H]) (simp_all add: set_pprev_def)
next
  case (Some x)
  with set_back_ok [of H x b] assms that show thesis by (auto simp: set_pprev_def)
qed

lemma nodes_kept: "cell_of H' = (cell_of H)(c \<mapsto> p) \<Longrightarrow> nodes H x \<noteq> None \<Longrightarrow> nodes H' x \<noteq> None"
  "back_of H' = back_of H \<Longrightarrow> nodes H x \<noteq> None \<Longrightarrow> nodes H' x \<noteq> None"
  "cell_of H' = cell_of H \<Longrightarrow> nodes H x \<noteq> None \<Longrightarrow> nodes H' x \<noteq> None"
  by (metis fun_upd_other fun_upd_same node_exists(1) option.distinct(1)) (metis node_exists)+

definition last_cell :: "cell \<Rightarrow> nat list \<Rightarrow> cell" where
  "last_cell c xs = (if xs = [] then c else Next (last xs))"

lemma hseg_append: "hseg C B c (xs @ y # ys) p \<longleftrightarrow> hseg C B c xs (Some y)
    \<and> B y = Some (Some (last_cell c xs)) \<and> hseg C B (Next y) ys p"
  by (induction xs arbitrary: c) (auto simp: last_cell_def)

lemma hseg_end: "hseg C B c xs p \<Longrightarrow> C (last_cell c xs) = Some p"
  by (induction xs arbitrary: c) (auto simp: last_cell_def)

lemma hseg_cong:
  assumes "C' c = C c" "\<And>x. x \<in> set xs \<Longrightarrow> C' (Next x) = C (Next x)" "\<And>x. x \<in> set xs \<Longrightarrow> B' x = B x"
  shows "hseg C' B' c xs p = hseg C B c xs p"
  using assms by (induction xs arbitrary: c) simp_all

lemma hseg_set_end:
  assumes "hseg C B c xs p" "distinct xs" "c \<notin> Next ` set xs"
  shows "hseg (C(last_cell c xs \<mapsto> q)) B c xs q"
  using assms
proof (induction xs arbitrary: c)
  case (Cons x xs)
  then have "last_cell c (x # xs) = last_cell (Next x) xs" by (simp add: last_cell_def)
  moreover have "c \<noteq> last_cell (Next x) xs" using Cons.prems(3) last_in_set [of xs] by (auto simp: last_cell_def)
  ultimately show ?case using Cons by auto
qed (simp add: last_cell_def)

section \<open>The operations on the lists\<close>

lemma hlists_head:
  assumes "hlists H hs T" "h \<in> hs"
  shows "hseg (cell_of H) (back_of H) (First h) (T h) None" "distinct (T h)"
    "cell_of H (First h) = Some (if T h = [] then None else Some (hd (T h)))"
  using assms by (auto simp: hlists_def) (cases "T h"; fastforce)+

lemma hlists_disjoint: "hlists H hs T \<Longrightarrow> h \<in> hs \<Longrightarrow> h' \<in> hs \<Longrightarrow> h \<noteq> h' \<Longrightarrow> z \<in> set (T h) \<Longrightarrow> z \<notin> set (T h')"
  unfolding hlists_def by blast

lemma hlists_node: "hlists H hs T \<Longrightarrow> h \<in> hs \<Longrightarrow> x \<in> set (T h) \<Longrightarrow> nodes H x \<noteq> None"
proof -
  assume "hlists H hs T" "h \<in> hs" "x \<in> set (T h)"
  then obtain us vs where "hseg (cell_of H) (back_of H) (First h) (us @ x # vs) None"
    using hlists_head(1) by (metis in_set_conv_decomp)
  then show ?thesis using node_exists(2) [of H x] by (auto simp: hseg_append)
qed

lemma hlists_upd:
  assumes H: "hlists H hs T" and seg: "hseg (cell_of H') (back_of H') (First h) ys None" "distinct ys"
    and other: "\<And>h'. h' \<in> hs \<Longrightarrow> h' \<noteq> h \<Longrightarrow> hseg (cell_of H') (back_of H') (First h') (T h') None"
    and dj: "\<And>h'. h' \<in> hs \<Longrightarrow> h' \<noteq> h \<Longrightarrow> set ys \<inter> set (T h') = {}"
  shows "hlists H' hs (T(h := ys))"
  unfolding hlists_def
proof (intro conjI ballI impI)
  fix h1 assume h1: "h1 \<in> hs"
  show "hseg (cell_of H') (back_of H') (First h1) ((T(h := ys)) h1) None" using seg other [OF h1] by simp
  show "distinct ((T(h := ys)) h1)" using seg(2) hlists_head(2) [OF H h1] by simp
  fix h2 assume h2: "h2 \<in> hs" "h1 \<noteq> h2"
  have "set (T h1) \<inter> set (T h2) = {}" using H h1 h2 unfolding hlists_def by blast
  then show "set ((T(h := ys)) h1) \<inter> set ((T(h := ys)) h2) = {}"
    using dj [OF h1] dj [OF h2(1)] h2(2) by (cases "h1 = h"; cases "h2 = h") (simp_all add: Int_commute)
qed

text \<open>What the operations write.\<close>

lemma hlist_add_head_effect:
  assumes cp: "cell_of H (First h) = Some p" and nx: "nodes H x \<noteq> None" and py: "\<And>y. p = Some y \<Longrightarrow> nodes H y \<noteq> None \<and> y \<noteq> x"
  obtains H' where "hlist_add_head x h H = Inr H'" "cell_of H' = (cell_of H)(Next x \<mapsto> p, First h \<mapsto> Some x)"
    "back_of H' x = Some (Some (First h))" "\<forall>y. p = Some y \<longrightarrow> back_of H' y = Some (Some (Next x))"
    "\<forall>z. z \<noteq> x \<and> p \<noteq> Some z \<longrightarrow> back_of H' z = back_of H z"
proof -
  from set_next_ok [OF nx, of p] obtain H1 where
    H1: "upd_node x (\<lambda>n. n\<lparr>nxt := p\<rparr>) H = Inr H1" "cell_of H1 = (cell_of H)(Next x \<mapsto> p)" "back_of H1 = back_of H" .
  have "nodes H1 y \<noteq> None" if "p = Some y" for y using py [OF that] nodes_kept(2) [OF H1(3), of y] by simp
  from set_pprev_ok [of p H1 "Some (Next x)", OF this] obtain H2 where
    H2: "set_pprev p (Some (Next x)) H1 = Inr H2" "cell_of H2 = cell_of H1"
      "back_of H2 = (case p of None \<Rightarrow> back_of H1 | Some y \<Rightarrow> (back_of H1)(y \<mapsto> Some (Next x)))" by blast
  have "cell_of H2 (First h) \<noteq> None" using H2(2) H1(2) cp by simp
  from write_cell_ok [OF this, of "Some x"] obtain H3 where
    H3: "write_cell (Some (First h)) (Some x) H2 = Inr H3" "cell_of H3 = (cell_of H2)(First h \<mapsto> Some x)" "back_of H3 = back_of H2" .
  have "nodes H3 x \<noteq> None"
    using nodes_kept(2) [OF H3(3)] nodes_kept(3) [OF H2(2)] nodes_kept(2) [OF H1(3)] nx by blast
  from set_back_ok [OF this, of "Some (First h)"] obtain H4 where
    H4: "upd_node x (\<lambda>n. n\<lparr>pprev := Some (First h)\<rparr>) H3 = Inr H4" "cell_of H4 = cell_of H3" "back_of H4 = (back_of H3)(x \<mapsto> Some (First h))" .
  show thesis
  proof (rule that [of H4])
    show "hlist_add_head x h H = Inr H4" using H1(1) H2(1) H3(1) H4(1) cp by (simp add: hlist_add_head_def read_cell_eq)
  qed (use py in \<open>auto simp: H4(2,3) H3(2,3) H2(2,3) H1(2,3) split: option.splits\<close>)
qed

lemma hlist_del_effect:
  assumes cx: "cell_of H (Next x) = Some p" and bx: "back_of H x = Some (Some c)" and cc: "cell_of H c \<noteq> None"
    and py: "\<And>y. p = Some y \<Longrightarrow> nodes H y \<noteq> None \<and> y \<noteq> x"
  obtains H' where "hlist_del x H = Inr H'" "cell_of H' = (cell_of H)(c \<mapsto> p, Next x \<mapsto> None)"
    "back_of H' x = Some None" "\<forall>y. p = Some y \<longrightarrow> back_of H' y = Some (Some c)"
    "\<forall>z. z \<noteq> x \<and> p \<noteq> Some z \<longrightarrow> back_of H' z = back_of H z"
proof -
  from write_cell_ok [OF cc, of p] obtain H1 where
    H1: "write_cell (Some c) p H = Inr H1" "cell_of H1 = (cell_of H)(c \<mapsto> p)" "back_of H1 = back_of H" .
  have "nodes H1 y \<noteq> None" if "p = Some y" for y using py [OF that] nodes_kept(2) [OF H1(3), of y] by simp
  from set_pprev_ok [of p H1 "Some c", OF this] obtain H2 where
    H2: "set_pprev p (Some c) H1 = Inr H2" "cell_of H2 = cell_of H1"
      "back_of H2 = (case p of None \<Rightarrow> back_of H1 | Some y \<Rightarrow> (back_of H1)(y \<mapsto> Some c))" by blast
  have "nodes H x \<noteq> None" using cx node_exists(1) [of H x] by simp
  then have n2: "nodes H2 x \<noteq> None" using nodes_kept(3) [OF H2(2)] nodes_kept(2) [OF H1(3)] by blast
  from set_next_ok [OF n2, of None] obtain H3 where
    H3: "upd_node x (\<lambda>n. n\<lparr>nxt := None\<rparr>) H2 = Inr H3" "cell_of H3 = (cell_of H2)(Next x \<mapsto> None)" "back_of H3 = back_of H2" .
  from set_back_ok [OF nodes_kept(2) [OF H3(3) n2], of None] obtain H4 where
    H4: "upd_node x (\<lambda>n. n\<lparr>pprev := None\<rparr>) H3 = Inr H4" "cell_of H4 = cell_of H3" "back_of H4 = (back_of H3)(x \<mapsto> None)" .
  have init: "INIT_HLIST_NODE x H2 = Inr H4"
    using H3(1) H4(1) by (auto simp: INIT_HLIST_NODE_def upd_node_def node_at_def split: option.splits)
  show thesis
  proof (rule that [of H4])
    show "hlist_del x H = Inr H4" using node_at_eq [OF cx bx] H1(1) H2(1) init by (simp add: hlist_del_def)
  qed (use py in \<open>auto simp: H4(2,3) H3(2,3) H2(2,3) H1(2,3) split: option.splits\<close>)
qed

lemma hlist_add_head_spec:
  assumes H: "hlists H hs T" and h: "h \<in> hs" and x: "unlinked H hs T x"
  obtains H' where "hlist_add_head x h H = Inr H'" "hlists H' hs (T(h := x # T h))"
proof -
  define p where "p = (if T h = [] then None else Some (hd (T h)))"
  have cp: "cell_of H (First h) = Some p" using hlists_head(3) [OF H h] by (simp add: p_def)
  have nx: "nodes H x \<noteq> None" "\<And>h. h \<in> hs \<Longrightarrow> x \<notin> set (T h)" using x by (auto simp: unlinked_def)
  have py: "nodes H y \<noteq> None \<and> y \<noteq> x" if "p = Some y" for y
    using that hlists_node [OF H h, of y] nx(2) [OF h] by (auto simp: p_def split: if_splits)
  from hlist_add_head_effect [OF cp nx(1) py] obtain H4 where
    H4: "hlist_add_head x h H = Inr H4" and C: "cell_of H4 = (cell_of H)(Next x \<mapsto> p, First h \<mapsto> Some x)"
    and Bx: "back_of H4 x = Some (Some (First h))" "\<forall>y. p = Some y \<longrightarrow> back_of H4 y = Some (Some (Next x))"
    and B: "\<forall>z. z \<noteq> x \<and> p \<noteq> Some z \<longrightarrow> back_of H4 z = back_of H z" .
  have seg: "hseg (cell_of H4) (back_of H4) (First h) (x # T h) None"
  proof (cases "T h")
    case Nil
    then show ?thesis by (simp add: C Bx p_def)
  next
    case (Cons y ys)
    with hlists_head(1,2) [OF H h] nx(2) [OF h] have y: "hseg (cell_of H) (back_of H) (Next y) ys None" "y \<notin> set ys" "x \<noteq> y" "x \<notin> set ys" by auto
    then have "hseg (cell_of H4) (back_of H4) (Next y) ys None"
      using Cons by (subst hseg_cong [of _ _ "cell_of H" _ _ "back_of H"]) (auto simp: C p_def intro!: B [rule_format])
    with Cons y(3) show ?thesis by (simp add: C Bx p_def)
  qed
  have other: "hseg (cell_of H4) (back_of H4) (First h') (T h') None" if "h' \<in> hs" "h' \<noteq> h" for h'
  proof -
    have "p \<noteq> Some z" if "z \<in> set (T h')" for z
      using that hlists_disjoint [OF H h \<open>h' \<in> hs\<close>] \<open>h' \<noteq> h\<close> by (auto simp: p_def split: if_splits)
    with that nx(2) [OF that(1)] hlists_head(1) [OF H that(1)] show ?thesis
      by (subst hseg_cong [of _ _ "cell_of H" _ _ "back_of H"]) (auto simp: C intro!: B [rule_format])
  qed
  have "set (x # T h) \<inter> set (T h') = {}" if "h' \<in> hs" "h' \<noteq> h" for h'
    using nx(2) [OF that(1)] hlists_disjoint [OF H h that(1)] that(2) by auto
  then have "hlists H4 hs (T(h := x # T h))"
    using nx(2) [OF h] hlists_head(2) [OF H h] by (intro hlists_upd [OF H seg _ other]) simp_all
  with H4 show thesis using that by blast
qed

lemma hlist_del_spec:
  assumes H: "hlists H hs T" and h: "h \<in> hs" and x: "x \<in> set (T h)"
  obtains H' where "hlist_del x H = Inr H'" "hlists H' hs (T(h := remove1 x (T h)))" "unlinked H' hs (T(h := remove1 x (T h))) x"
proof -
  from x obtain us vs where T: "T h = us @ x # vs" "x \<notin> set us" by (metis split_list_first)
  define c where "c = last_cell (First h) us"
  define p where "p = (if vs = [] then None else Some (hd vs))"
  note sh = hlists_head(1,2) [OF H h, unfolded T(1)]
  then have us: "hseg (cell_of H) (back_of H) (First h) us (Some x)" and bx: "back_of H x = Some (Some c)"
    and vs: "hseg (cell_of H) (back_of H) (Next x) vs None" and dist: "distinct us" "distinct vs" "x \<notin> set vs" "set us \<inter> set vs = {}"
    by (auto simp: hseg_append c_def)
  have cx: "cell_of H (Next x) = Some p" using vs by (cases vs) (simp_all add: p_def)
  have cc: "cell_of H c = Some (Some x)" using hseg_end [OF us] by (simp add: c_def)
  have cne: "c \<noteq> Next x" using T(2) last_in_set [of us] by (auto simp: c_def last_cell_def split: if_splits)
  have py: "nodes H y \<noteq> None \<and> y \<noteq> x" if "p = Some y" for y
    using that hlists_node [OF H h, of y] T(1) dist(3) by (auto simp: p_def split: if_splits)
  have ccn: "cell_of H c \<noteq> None" using cc by simp
  from hlist_del_effect [OF cx bx ccn py] obtain H4 where
    H4: "hlist_del x H = Inr H4" and C: "cell_of H4 = (cell_of H)(c \<mapsto> p, Next x \<mapsto> None)"
    and Bx: "back_of H4 x = Some None" "\<forall>y. p = Some y \<longrightarrow> back_of H4 y = Some (Some c)"
    and B: "\<forall>z. z \<noteq> x \<and> p \<noteq> Some z \<longrightarrow> back_of H4 z = back_of H z" .
  have fst': "First h \<notin> Next ` set us" by auto
  have usp: "hseg (cell_of H4) (back_of H4) (First h) us p"
  proof -
    have "hseg ((cell_of H)(c \<mapsto> p)) (back_of H) (First h) us p"
      using hseg_set_end [OF us dist(1) fst', of p] by (simp add: c_def)
    moreover have "p \<noteq> Some z" if "z \<in> set us" for z using that dist(4) by (auto simp: p_def split: if_splits)
    ultimately show ?thesis
      using T(2) by (subst hseg_cong [of _ _ "(cell_of H)(c \<mapsto> p)" _ _ "back_of H"]) (auto simp: C intro!: B [rule_format])
  qed
  have lus: "us \<noteq> [] \<Longrightarrow> last us \<notin> set vs" using dist(4) last_in_set [of us] by (meson disjoint_iff)
  have seg: "hseg (cell_of H4) (back_of H4) (First h) (us @ vs) None"
  proof (cases vs)
    case Nil
    then show ?thesis using usp by (simp add: p_def)
  next
    case (Cons v vs')
    with vs have "hseg (cell_of H) (back_of H) (Next v) vs' None" by simp
    moreover have "c \<noteq> Next z" if "z \<in> set vs" for z
      using that lus by (auto simp: c_def last_cell_def split: if_splits)
    ultimately have "hseg (cell_of H4) (back_of H4) (Next v) vs' None"
      using dist(2,3) Cons by (subst hseg_cong [of _ _ "cell_of H" _ _ "back_of H"]) (auto simp: C p_def intro!: B [rule_format])
    moreover have "back_of H4 v = Some (Some c)" using Cons Bx(2) by (simp add: p_def)
    ultimately show ?thesis using usp Cons by (simp add: hseg_append p_def c_def)
  qed
  have r: "remove1 x (T h) = us @ vs" using T by (simp add: remove1_append)
  have other: "hseg (cell_of H4) (back_of H4) (First h') (T h') None" if "h' \<in> hs" "h' \<noteq> h" for h'
  proof -
    have z: "z \<noteq> x \<and> p \<noteq> Some z \<and> c \<noteq> Next z" if "z \<in> set (T h')" for z
      using that hlists_disjoint [OF H h \<open>h' \<in> hs\<close>] \<open>h' \<noteq> h\<close> T(1) last_in_set [of us]
      by (auto simp: p_def c_def last_cell_def split: if_splits)
    moreover have "c \<noteq> First h'" using \<open>h' \<noteq> h\<close> by (auto simp: c_def last_cell_def)
    ultimately show ?thesis using hlists_head(1) [OF H \<open>h' \<in> hs\<close>]
      by (subst hseg_cong [of _ _ "cell_of H" _ _ "back_of H"]) (auto simp: C intro!: B [rule_format])
  qed
  have dj: "set (us @ vs) \<inter> set (T h') = {}" if "h' \<in> hs" "h' \<noteq> h" for h'
    using hlists_disjoint [OF H h that(1)] that(2) T(1) by fastforce
  have "hlists H4 hs (T(h := us @ vs))"
    using dist by (intro hlists_upd [OF H seg _ other dj]) simp_all
  moreover have "unlinked H4 hs (T(h := us @ vs)) x"
    using T dist hlists_disjoint [OF H h] node_exists(2) [of H4 x] Bx(1) by (auto simp: unlinked_def)
  ultimately show thesis using that H4 r by simp
qed

lemma hlist_init_spec:
  assumes "hlists H hs T" "unlinked H hs T x"
  obtains H' where "INIT_HLIST_NODE x H = Inr H'" "hlists H' hs T" "unlinked H' hs T x"
proof -
  from assms(2) obtain n where n: "nodes H x = Some n" "\<And>h. h \<in> hs \<Longrightarrow> x \<notin> set (T h)" by (auto simp: unlinked_def)
  define H' where "H' = H\<lparr>nodes := (nodes H)(x \<mapsto> n\<lparr>nxt := None, pprev := None\<rparr>)\<rparr>"
  have same: "cell_of H' (First h) = cell_of H (First h)" "z \<noteq> x \<Longrightarrow> cell_of H' (Next z) = cell_of H (Next z)"
    "z \<noteq> x \<Longrightarrow> back_of H' z = back_of H z" for h z
    by (simp_all add: H'_def cell_of_def back_of_def)
  have "hseg (cell_of H') (back_of H') (First h) (T h) None" if "h \<in> hs" for h
  proof -
    have "z \<noteq> x" if "z \<in> set (T h)" for z using n(2) [OF \<open>h \<in> hs\<close>] that by blast
    with hlists_head(1) [OF assms(1) that] show ?thesis
      by (subst hseg_cong [of _ _ "cell_of H" _ _ "back_of H"]) (auto simp: same)
  qed
  then have "hlists H' hs T" using assms(1) by (auto simp: hlists_def)
  moreover have "INIT_HLIST_NODE x H = Inr H'" using n(1) by (simp add: INIT_HLIST_NODE_def upd_node_def node_at_def H'_def)
  moreover have "unlinked H' hs T x" using n(2) by (simp add: unlinked_def H'_def)
  ultimately show thesis using that by blast
qed

lemma hlist_walk: "hseg (cell_of H) (back_of H) c xs None \<Longrightarrow> length xs \<le> k \<Longrightarrow>
    bindr (read_cell c H) (\<lambda>p. hlist_for_each k p H) = Inr xs"
proof (induction xs arbitrary: c k)
  case (Cons x xs)
  then obtain k' where k: "k = Suc k'" "length xs \<le> k'" by (cases k) auto
  from Cons.prems(1) obtain p where p: "cell_of H (Next x) = Some p" by (cases xs) auto
  with Cons.prems(1) have "node_at x H = Inr \<lparr>nxt = p, pprev = Some c\<rparr>" by (simp add: node_at_eq)
  moreover have "hlist_for_each k' p H = Inr xs"
    using Cons.IH [OF _ k(2), of "Next x"] Cons.prems(1) p by (simp add: read_cell_eq)
  ultimately show ?case using Cons.prems(1) k(1) by (simp add: read_cell_eq)
qed (simp add: read_cell_eq)

lemma hlist_empty_spec: "hlists H hs T \<Longrightarrow> h \<in> hs \<Longrightarrow> hlist_empty h H = Inr (T h = [])"
  using hlists_head(3) [of H hs T h] by (simp add: hlist_empty_def read_cell_eq)

lemma hlists_cong: "(\<And>h. h \<in> hs \<Longrightarrow> T h = T' h) \<Longrightarrow> hlists H hs T = hlists H hs T'"
  by (auto simp: hlists_def)

section \<open>The inode hash table\<close>

text \<open>The heads of the buckets and the \<open>hnode\<close> fields of the inodes, against the buckets of \<open>InodeHash\<close>.\<close>

definition bucket_heap :: "hheap \<Rightarrow> fs \<Rightarrow> bool" where
  "bucket_heap H s \<longleftrightarrow> length (inode_hash_table s) = inode_hash_size
     \<and> hlists H {..<inode_hash_size} (\<lambda>h. inode_hash_table s ! h)"

lemma bucket_heap_head: "bucket_heap H s \<Longrightarrow> hlists H {..<256} (\<lambda>h. inode_hash_table s ! h) \<and> length (inode_hash_table s) = 256"
  by (simp add: bucket_heap_def)

lemma insert_refines:
  assumes H: "bucket_heap H s" and x: "unlinked H {..<256} (\<lambda>h. inode_hash_table s ! h) p" and i: "iheap s p = Some i"
  shows "\<exists>s' H'. inode_hash_insert p s = Inr s' \<and> bucket_heap H' s'
    \<and> bindr (INIT_HLIST_NODE p H) (hlist_add_head p (inode_hashfn (i_nr i))) = Inr H'"
proof -
  let ?h = "inode_hashfn (i_nr i)" and ?T = "\<lambda>h. inode_hash_table s ! h"
  define s' where "s' = s\<lparr>inode_hash_table := (inode_hash_table s)[?h := p # ?T ?h]\<rparr>"
  note L = bucket_heap_head [OF H]
  have hs: "?h \<in> {..<256}" by simp
  obtain H1 where H1: "INIT_HLIST_NODE p H = Inr H1" "hlists H1 {..<256} ?T" "unlinked H1 {..<256} ?T p"
    using hlist_init_spec [OF conjunct1 [OF L] x] .
  obtain H2 where H2: "hlist_add_head p ?h H1 = Inr H2" "hlists H2 {..<256} (?T(?h := p # ?T ?h))"
    using hlist_add_head_spec [OF H1(2) hs H1(3)] .
  have "hlists H2 {..<256} (\<lambda>h. inode_hash_table s' ! h) = hlists H2 {..<256} (?T(?h := p # ?T ?h))"
    using L by (intro hlists_cong) (simp add: s'_def nth_list_update)
  then have "bucket_heap H2 s'" using H2(2) L by (simp add: bucket_heap_def s'_def)
  moreover have "inode_hash_insert p s = Inr s'" using i L by (simp add: inode_hash_insert_def s'_def deref_def)
  ultimately show ?thesis using H1(1) H2(1) by auto
qed

lemma remove_refines:
  assumes H: "bucket_heap H s" and r: "inode_hash_remove p s = Inr s'"
  shows "\<exists>H'. hlist_del p H = Inr H' \<and> bucket_heap H' s' \<and> unlinked H' {..<256} (\<lambda>h. inode_hash_table s' ! h) p"
proof -
  let ?T = "\<lambda>h. inode_hash_table s ! h"
  note L = conjunct1 [OF bucket_heap_head [OF H]] conjunct2 [OF bucket_heap_head [OF H]]
  from r have s': "s' = s\<lparr>inode_hash_table := map (remove1 p) (inode_hash_table s)\<rparr>"
    and "list_ex (\<lambda>b. p \<in> set b) (inode_hash_table s)" by (simp_all add: inode_hash_remove_def split: if_splits)
  then obtain h where h: "h \<in> {..<256}" "p \<in> set (?T h)" using L(2) by (auto simp: list_ex_length)
  obtain H1 where H1: "hlist_del p H = Inr H1" "hlists H1 {..<256} (?T(h := remove1 p (?T h)))"
    "unlinked H1 {..<256} (?T(h := remove1 p (?T h))) p" using hlist_del_spec [OF L(1) h] .
  have "p \<notin> set (?T h')" if "h' < 256" "h' \<noteq> h" for h' using hlists_disjoint [OF L(1) h(1) _ _ h(2), of h'] that by simp
  then have T: "inode_hash_table s' ! h' = (?T(h := remove1 p (?T h))) h'" if "h' \<in> {..<256}" for h'
    using that L(2) by (simp add: s' remove1_idem)
  have "unlinked H1 {..<256} (\<lambda>h. inode_hash_table s' ! h) p" using H1(3) T by (simp add: unlinked_def)
  moreover have "bucket_heap H1 s'"
    using H1(2) L(2) unfolding bucket_heap_def
    by (subst hlists_cong [of "{..<256}" "\<lambda>h. inode_hash_table s' ! h", OF T]) (simp_all add: s')
  ultimately show ?thesis using H1(1) by blast
qed

lemma find_refines:
  assumes H: "bucket_heap H s" and k: "length (inode_hash_table s ! inode_hashfn nr) \<le> k"
  shows "bindr (bindr (read_cell (First (inode_hashfn nr)) H) (\<lambda>pos. hlist_for_each k pos H)) (\<lambda>b. bucket_find b nr s)
    = inode_hash_find nr s"
proof -
  note L = bucket_heap_head [OF H]
  have "inode_hashfn nr \<in> {..<256}" by simp
  from hlist_walk [OF hlists_head(1) [OF conjunct1 [OF L] this] k] show ?thesis
    using L by (simp add: inode_hash_find_def)
qed

lemma init_refines:
  assumes "inode_hash_init s = Inr s'"
  shows "bucket_heap \<lparr>heads = (\<lambda>h. if h < inode_hash_size then Some None else None), nodes = N\<rparr> s'"
  using assms by (auto simp: inode_hash_init_def bucket_heap_def hlists_def cell_of_def split: if_splits)

text \<open>
  C34: the pointer lists of \<open>list.h\<close> implement the buckets of the inode table: from a heap of fresh heads on,
  hashing a node that is in no bucket, unlinking one that is in a bucket, walking a bucket and asking
  whether it is empty do what the operations on the lists do, and never follow a bad pointer.
\<close>

theorem buckets_refined:
  assumes "bucket_heap H s"
  shows "(\<forall>p i. unlinked H {..<256} (\<lambda>h. inode_hash_table s ! h) p \<and> iheap s p = Some i \<longrightarrow>
      (\<exists>s' H'. inode_hash_insert p s = Inr s' \<and> bucket_heap H' s'
        \<and> bindr (INIT_HLIST_NODE p H) (hlist_add_head p (inode_hashfn (i_nr i))) = Inr H'))
    \<and> (\<forall>p s'. inode_hash_remove p s = Inr s' \<longrightarrow>
      (\<exists>H'. hlist_del p H = Inr H' \<and> bucket_heap H' s' \<and> unlinked H' {..<256} (\<lambda>h. inode_hash_table s' ! h) p))
    \<and> (\<forall>nr k. length (inode_hash_table s ! inode_hashfn nr) \<le> k \<longrightarrow>
      bindr (bindr (read_cell (First (inode_hashfn nr)) H) (\<lambda>pos. hlist_for_each k pos H)) (\<lambda>b. bucket_find b nr s)
        = inode_hash_find nr s)
    \<and> (\<forall>h < 256. hlist_empty h H = Inr (inode_hash_table s ! h = []))"
  using insert_refines [OF assms] remove_refines [OF assms] find_refines [OF assms]
    hlist_empty_spec [OF conjunct1 [OF bucket_heap_head [OF assms]]] by simp

theorem buckets_refined_witness:
  "\<exists>H s s'. inode_hash_insert 7 s = Inr s' \<and> bucket_heap H s' \<and> hlist_empty (inode_hashfn 3) H = Inr (inode_hash_table s' ! inode_hashfn 3 = [])"
proof -
  define i where "i = \<lparr>din = dec_dinode (replicate 64 0), i_flags = 0, i_nr = 3, i_count = 1\<rparr>"
  define s where "s = test_fs\<lparr>iheap := [7 \<mapsto> i], malloc_ok := \<lambda>_. True, inode_hash_table := replicate 256 []\<rparr>"
  define H where "H = \<lparr>heads = (\<lambda>h. if h < 256 then Some None else None), nodes = [7 \<mapsto> \<lparr>nxt = None, pprev = None\<rparr>]\<rparr>"
  have H: "bucket_heap H s" unfolding H_def
    by (rule init_refines [of "test_fs\<lparr>iheap := [7 \<mapsto> i], malloc_ok := \<lambda>_. True\<rparr>"]) (simp add: inode_hash_init_def s_def)
  have "unlinked H {..<256} (\<lambda>h. inode_hash_table s ! h) 7 \<and> iheap s 7 = Some i" by (simp add: unlinked_def H_def s_def)
  with buckets_refined [OF H] obtain s' H' where s': "inode_hash_insert 7 s = Inr s'" "bucket_heap H' s'" by blast
  with buckets_refined [OF s'(2)] show ?thesis by (metis inode_hashfn_bound)
qed

end
