(* ===== verification/Threads.thy ===== *)
theory Threads
  imports Results
begin

text \<open>
  \<open>src/threads/thread.c\<close>: a user-level thread library, with the interrupt handler of
  \<open>interrupt.c\<close> that preempts the running thread.

  A \<open>struct thread *\<close> is \<open>NULL\<close> (\<open>None\<close>) or points into the array \<open>TCB\<close> (\<open>Some i\<close>).  The queues
  are chained through the \<open>next\<close> fields of that array.  \<open>getcontext\<close> saves what remains to be
  done of the calls in progress, as a list of \<^emph>\<open>frames\<close> (innermost first, below them the code
  of the user), with the signal mask; \<open>setcontext\<close> continues the saved frames.  So a call of the
  library, given the frames \<open>fs\<close> of its callers, gives the control state that follows: a value is
  returned to some frames, or \<open>lock_acquire\<close> is at the head of its loop.  The library allocates memory
  with \<open>malloc\<close>, whose result is an argument of the operation (0 for \<open>NULL\<close>).
\<close>

section \<open>Data\<close>

abbreviation (input) THREAD_MAX_THREADS :: nat where "THREAD_MAX_THREADS \<equiv> 1024"
abbreviation (input) THREAD_MIN_STACK :: int where "THREAD_MIN_STACK \<equiv> 32768"
abbreviation (input) THREAD_ANY :: int where "THREAD_ANY \<equiv> - 1"
abbreviation (input) THREAD_SELF :: int where "THREAD_SELF \<equiv> - 2"
abbreviation (input) THREAD_INVALID :: int where "THREAD_INVALID \<equiv> - 3"
abbreviation (input) THREAD_NONE :: int where "THREAD_NONE \<equiv> - 4"
abbreviation (input) THREAD_NOMORE :: int where "THREAD_NOMORE \<equiv> - 5"
abbreviation (input) THREAD_NOMEMORY :: int where "THREAD_NOMEMORY \<equiv> - 6"
abbreviation (input) THREAD_FAILED :: int where "THREAD_FAILED \<equiv> - 7"

type_synonym tptr = "nat option"
type_synonym addr = int

text \<open>
  The calls in progress: the start of a thread (function, argument and stack pointer); a yield
  or a sleep after its context switch (\<open>temp_head\<close> or \<open>want_tid\<close>, and \<open>enable\<close>); the loop of
  \<open>lock_acquire\<close>; \<open>cv_wait\<close> in its sleep and in its \<open>lock_acquire\<close>; the interrupt handler; and
  \<open>thread_stub\<close> in its call of \<open>thread_exit\<close>.
\<close>

datatype frame =
    FStub int int int
  | FYieldAny tptr bool
  | FYieldTo int bool
  | FSleep tptr bool
  | FAcquire addr bool
  | FCvSleep addr bool
  | FCvAcquire bool
  | FHandler
  | FStubExit

record ucontext =
  frames :: "frame list"
  sigmask :: bool

record thread =
  isValid :: bool
  index :: nat
  hasLock :: bool
  thread_context :: ucontext
  stack_memory :: addr
  next_thread :: tptr

record queue =
  head :: tptr
  tail :: tptr

record lock =
  lock_waitQ :: addr
  available :: bool

record cv =
  cv_waitQ :: addr

text \<open>
  The globals of \<open>thread.c\<close>, whether interrupts are enabled, the stacks that are allocated, and the
  heap objects.
\<close>

record sched =
  current_thread_id :: nat
  stack_mem_to_be_deleted :: addr
  readyQ :: queue
  TCB :: "thread list"
  interrupts :: bool
  stacks :: "addr set"
  wait_queues :: "addr \<rightharpoonup> queue"
  locks :: "addr \<rightharpoonup> lock"
  cvs :: "addr \<rightharpoonup> cv"

datatype ctl =
    Ret "frame list" int
  | Acquire addr bool "frame list"
  | ProcessExit

type_synonym step = "(ctl \<times> sched) result"

section \<open>Pointers\<close>

definition thread_at :: "tptr \<Rightarrow> sched \<Rightarrow> thread result" where
  "thread_at p s = (case p of None \<Rightarrow> Inl BadPointer | Some i \<Rightarrow> arr_get (TCB s) i)"

definition upd_thread :: "tptr \<Rightarrow> (thread \<Rightarrow> thread) \<Rightarrow> sched \<Rightarrow> sched result" where
  "upd_thread p f s =
     bindr (thread_at p s) (\<lambda>t. case p of None \<Rightarrow> Inl BadPointer | Some i \<Rightarrow> Inr (s\<lparr>TCB := (TCB s)[i := f t]\<rparr>))"

definition set_next :: "tptr \<Rightarrow> tptr \<Rightarrow> sched \<Rightarrow> sched result" where
  "set_next p q s = upd_thread p (\<lambda>t. t\<lparr>next_thread := q\<rparr>) s"

definition get_next :: "tptr \<Rightarrow> sched \<Rightarrow> tptr result" where
  "get_next p s = bindr (thread_at p s) (\<lambda>t. Inr (next_thread t))"

definition lookup :: "(addr \<rightharpoonup> 'a) \<Rightarrow> addr \<Rightarrow> 'a result" where
  "lookup m a = (case m a of None \<Rightarrow> Inl BadPointer | Some x \<Rightarrow> Inr x)"

text \<open>\<open>free\<close> of a stack.\<close>

definition free_stack :: "addr \<Rightarrow> sched \<Rightarrow> sched result" where
  "free_stack a s =
     (if a = 0 then Inr s else if a \<in> stacks s then Inr (s\<lparr>stacks := stacks s - {a}\<rparr>) else Inl BadPointer)"

definition free_pending :: "sched \<Rightarrow> sched result" where
  "free_pending s =
     (if stack_mem_to_be_deleted s \<noteq> 0
      then bindr (free_stack (stack_mem_to_be_deleted s) s) (\<lambda>s. Inr (s\<lparr>stack_mem_to_be_deleted := 0\<rparr>))
      else Inr s)"

text \<open>
  The three statements \<open>tail->next = p; tail = tail->next; tail->next = NULL\<close> on the ready queue,
  and \<open>head = head->next\<close>.
\<close>

definition ready_append :: "tptr \<Rightarrow> sched \<Rightarrow> sched result" where
  "ready_append p s =
     bindr (set_next (tail (readyQ s)) p s) (\<lambda>s.
     bindr (get_next (tail (readyQ s)) s) (\<lambda>t.
     let s = s\<lparr>readyQ := (readyQ s)\<lparr>tail := t\<rparr>\<rparr> in
     set_next t None s))"

definition ready_pop :: "sched \<Rightarrow> sched result" where
  "ready_pop s = bindr (get_next (head (readyQ s)) s) (\<lambda>h. Inr (s\<lparr>readyQ := (readyQ s)\<lparr>head := h\<rparr>\<rparr>))"

text \<open>The end of \<open>thread_create\<close>: \<open>p\<close> is put at the end of a ready queue that may be empty.\<close>

definition ready_enqueue :: "tptr \<Rightarrow> sched \<Rightarrow> sched result" where
  "ready_enqueue p s =
     bindr (if tail (readyQ s) = None then Inr (s\<lparr>readyQ := (readyQ s)\<lparr>tail := p\<rparr>\<rparr>)
            else
              bindr (set_next (tail (readyQ s)) p s) (\<lambda>s.
              bindr (get_next (tail (readyQ s)) s) (\<lambda>t.
              Inr (s\<lparr>readyQ := (readyQ s)\<lparr>tail := t\<rparr>\<rparr>)))) (\<lambda>s.
     Inr (if head (readyQ s) = None then s\<lparr>readyQ := (readyQ s)\<lparr>head := tail (readyQ s)\<rparr>\<rparr> else s))"

text \<open>In \<open>thread_sleep\<close>: \<open>p\<close> is put at the end of a wait queue.\<close>

definition wait_append :: "addr \<Rightarrow> tptr \<Rightarrow> sched \<Rightarrow> sched result" where
  "wait_append queue p s =
     bindr (lookup (wait_queues s) queue) (\<lambda>q.
     bindr (if head q = None then Inr (\<lparr>head = p, tail = p\<rparr>, s)
            else bindr (set_next (tail q) p s) (\<lambda>s.
                 bindr (get_next (tail q) s) (\<lambda>t. Inr (q\<lparr>tail := t\<rparr>, s)))) (\<lambda>(q, s).
     bindr (set_next (tail q) None s) (\<lambda>s.
     Inr (s\<lparr>wait_queues := (wait_queues s)(queue \<mapsto> q)\<rparr>))))"

text \<open>
  In \<open>thread_wakeup\<close>: the chain of the wait queue \<open>q\<close> is put at the end of the ready queue, or
  its first thread is taken out and put there.
\<close>

definition wake_all :: "queue \<Rightarrow> sched \<Rightarrow> sched result" where
  "wake_all q s =
     bindr (if head (readyQ s) = None then Inr (s\<lparr>readyQ := \<lparr>head = head q, tail = tail q\<rparr>\<rparr>)
            else
              bindr (set_next (tail (readyQ s)) (head q) s) (\<lambda>s.
              Inr (s\<lparr>readyQ := (readyQ s)\<lparr>tail := tail q\<rparr>\<rparr>))) (\<lambda>s.
     set_next (tail (readyQ s)) None s)"

definition wake_one :: "addr \<Rightarrow> queue \<Rightarrow> sched \<Rightarrow> sched result" where
  "wake_one queue q s =
     bindr (if head (readyQ s) = None then Inr (s\<lparr>readyQ := \<lparr>head = head q, tail = head q\<rparr>\<rparr>)
            else
              bindr (set_next (tail (readyQ s)) (head q) s) (\<lambda>s.
              bindr (get_next (tail (readyQ s)) s) (\<lambda>t.
              Inr (s\<lparr>readyQ := (readyQ s)\<lparr>tail := t\<rparr>\<rparr>)))) (\<lambda>s.
     bindr (get_next (head q) s) (\<lambda>h.
     set_next (tail (readyQ s)) None (s\<lparr>wait_queues := (wait_queues s)(queue \<mapsto> q\<lparr>head := h\<rparr>)\<rparr>)))"

section \<open>Contexts\<close>

definition interrupts_set :: "bool \<Rightarrow> sched \<Rightarrow> bool \<times> sched" where
  "interrupts_set enabled s = (interrupts s, s\<lparr>interrupts := enabled\<rparr>)"

text \<open>The common end of the calls: \<open>interrupts_set(enable)\<close> and \<open>return r\<close>.\<close>

definition finish :: "bool \<Rightarrow> frame list \<Rightarrow> int \<Rightarrow> sched \<Rightarrow> ctl \<times> sched" where
  "finish enable fs r s = (Ret fs r, s\<lparr>interrupts := enable\<rparr>)"

definition getcontext :: "tptr \<Rightarrow> frame list \<Rightarrow> sched \<Rightarrow> sched result" where
  "getcontext p fs s =
     upd_thread p (\<lambda>t. t\<lparr>thread_context := \<lparr>frames = fs, sigmask = \<not> interrupts s\<rparr>\<rparr>) s"

text \<open>
  What the innermost frame does once its context is restored.  In a yield or a sleep, \<open>getcontext\<close>
  then returns 0 a second time, with \<open>setcontext_flag\<close> set: the call takes the path past the switch.
\<close>

definition resume :: "frame list \<Rightarrow> sched \<Rightarrow> step" where
  "resume fs s = (case fs of
     FStub fn arg sp # fs \<Rightarrow> Inr (Ret [] 0, snd (interrupts_set True s))
   | FYieldAny temp_head enable # fs \<Rightarrow>
       bindr (thread_at temp_head s) (\<lambda>t. Inr (finish enable fs (int (index t)) s))
   | FYieldTo want_tid enable # fs \<Rightarrow> Inr (finish enable fs want_tid s)
   | FSleep temp_head enable # fs \<Rightarrow>
       bindr (thread_at temp_head s) (\<lambda>t. Inr (finish enable fs (int (index t)) s))
   | _ \<Rightarrow> Inl BadPointer)"

definition setcontext :: "tptr \<Rightarrow> sched \<Rightarrow> step" where
  "setcontext p s =
     bindr (thread_at p s) (\<lambda>t.
     resume (frames (thread_context t)) (s\<lparr>interrupts := \<not> sigmask (thread_context t)\<rparr>))"

section \<open>Threads\<close>

definition thread_ret_ok :: "int \<Rightarrow> bool" where
  "thread_ret_ok ret \<longleftrightarrow> ret \<ge> 0"

definition thread_init :: "sched \<Rightarrow> sched" where
  "thread_init s =
     (let (enabled, s) = interrupts_set False s;
          s = s\<lparr>readyQ := \<lparr>head = None, tail = None\<rparr>, current_thread_id := 0\<rparr>;
          tcb = (TCB s)[0 := (TCB s ! 0)\<lparr>isValid := True, index := 0, hasLock := False\<rparr>];
          tcb = take 1 tcb @ map (\<lambda>t. t\<lparr>isValid := False, hasLock := False\<rparr>) (drop 1 tcb)
      in snd (interrupts_set enabled (s\<lparr>TCB := tcb\<rparr>)))"

text \<open>The statement that would enable the interrupts again comes after the \<open>return\<close>.\<close>

definition thread_id :: "frame list \<Rightarrow> sched \<Rightarrow> step" where
  "thread_id fs s =
     (let (enable, s) = interrupts_set False s in Inr (Ret fs (int (current_thread_id s)), s))"

text \<open>The first slot that is not in use, or \<open>None\<close> for \<open>THREAD_NOMORE\<close>.\<close>

function free_slot :: "nat \<Rightarrow> sched \<Rightarrow> nat option result" where
  "free_slot i s =
     bindr (arr_get (TCB s) i) (\<lambda>t.
     if \<not> isValid t then Inr (Some i)
     else if i = THREAD_MAX_THREADS - 1 then Inr None
     else free_slot (i + 1) s)"
  by pat_completeness auto
termination
  by (relation "measure (\<lambda>(i, s). length (TCB s) - i)") (auto simp: arr_get_def split: if_splits)

declare free_slot.simps [simp del]

text \<open>\<open>m\<close> is what \<open>malloc(THREAD_MIN_STACK)\<close> returns.\<close>

definition stack_pointer :: "addr \<Rightarrow> int" where
  "stack_pointer m = (let sp = m + THREAD_MIN_STACK; align = sp mod 16 in sp - align - 8)"

definition thread_create :: "int \<Rightarrow> int \<Rightarrow> addr \<Rightarrow> frame list \<Rightarrow> sched \<Rightarrow> step" where
  "thread_create fn parg m fs s =
     (let (enable, s) = interrupts_set False s in
      bindr (free_slot 0 s) (\<lambda>slot.
      case slot of None \<Rightarrow> Inr (finish enable fs THREAD_NOMORE s)
      | Some i \<Rightarrow>
          let p = Some i in
          bindr (upd_thread p (\<lambda>t. t\<lparr>isValid := True, index := i, next_thread := None\<rparr>) s) (\<lambda>s.
          bindr (getcontext p [FStub fn parg 0] s) (\<lambda>s.
          bindr (upd_thread p (\<lambda>t. t\<lparr>stack_memory := m\<rparr>) s) (\<lambda>s.
          if m = 0 then Inr (finish enable fs THREAD_NOMEMORY s)
          else
            let s = s\<lparr>stacks := insert m (stacks s)\<rparr> in
            bindr (getcontext p [FStub fn parg (stack_pointer m)] s) (\<lambda>s.
            bindr (ready_enqueue p s) (\<lambda>s.
            Inr (finish enable fs (int i) s))))))))"

text \<open>
  The search for a thread from the head of the ready queue: its predecessor and itself.  The walk
  changes nothing and the array has \<open>THREAD_MAX_THREADS\<close> entries, so a walk of more steps meets an
  entry again and never ends.
\<close>

fun find_ready :: "nat \<Rightarrow> int \<Rightarrow> tptr \<Rightarrow> tptr \<Rightarrow> sched \<Rightarrow> (tptr \<times> tptr) option result" where
  "find_ready n tid pre None s = Inr None"
| "find_ready 0 tid pre (Some i) s = Inl Diverges"
| "find_ready (Suc n) tid pre (Some i) s =
     bindr (thread_at (Some i) s) (\<lambda>t.
     if int (index t) = tid then Inr (Some (pre, Some i))
     else find_ready n tid (Some i) (next_thread t) s)"

text \<open>Unlink the thread \<open>temp\<close> whose predecessor is \<open>pre\<close>.\<close>

definition unlink_ready :: "tptr \<Rightarrow> tptr \<Rightarrow> sched \<Rightarrow> sched result" where
  "unlink_ready pre temp s =
     (if pre = None then ready_pop s
      else bindr (get_next temp s) (\<lambda>t. set_next pre t s))"

definition thread_yield :: "int \<Rightarrow> frame list \<Rightarrow> sched \<Rightarrow> step" where
  "thread_yield want_tid fs s =
     (let (enable, s) = interrupts_set False s in
      bindr (free_pending s) (\<lambda>s.
      let cur = current_thread_id s in
      if want_tid = THREAD_SELF then Inr (finish enable fs (int cur) s)
      else if want_tid = int cur then Inr (finish enable fs (int cur) s)
      else if want_tid = THREAD_ANY then
        if head (readyQ s) = None then Inr (finish enable fs THREAD_NONE s)
        else
          bindr (set_next (Some cur) None s) (\<lambda>s.
          let temp_head = head (readyQ s) in
          bindr (getcontext (Some cur) (FYieldAny temp_head enable # fs) s) (\<lambda>s.
          bindr (ready_append (Some cur) s) (\<lambda>s.
          bindr (ready_pop s) (\<lambda>s.
          bindr (thread_at temp_head s) (\<lambda>t.
          setcontext temp_head (s\<lparr>current_thread_id := index t\<rparr>))))))
      else if \<not> thread_ret_ok want_tid \<or> want_tid > int THREAD_MAX_THREADS
      then Inr (finish enable fs THREAD_INVALID s)
      else
        bindr (thread_at (Some (nat want_tid)) s) (\<lambda>w.
        if \<not> isValid w then Inr (finish enable fs THREAD_INVALID s)
        else
          bindr (find_ready THREAD_MAX_THREADS want_tid None (head (readyQ s)) s) (\<lambda>found.
          case found of
            Some (pre, temp) \<Rightarrow>
              bindr (getcontext (Some cur) (FYieldTo want_tid enable # fs) s) (\<lambda>s.
              bindr (ready_append (Some cur) s) (\<lambda>s.
              bindr (unlink_ready pre temp s) (\<lambda>s.
              setcontext temp (s\<lparr>current_thread_id := nat want_tid\<rparr>))))
          | None \<Rightarrow>
              if head (readyQ s) = None then Inr (finish enable fs THREAD_NONE s)
              else Inr (finish enable fs THREAD_INVALID s)))))"

definition thread_exit :: "frame list \<Rightarrow> sched \<Rightarrow> step" where
  "thread_exit fs s =
     (let (enable, s) = interrupts_set False s in
      bindr (free_pending s) (\<lambda>s.
      if head (readyQ s) = None then Inr (finish enable fs THREAD_NONE s)
      else
        let cur = Some (current_thread_id s) in
        bindr (upd_thread cur (\<lambda>t. t\<lparr>isValid := False\<rparr>) s) (\<lambda>s.
        let temp_head = head (readyQ s) in
        bindr (ready_pop s) (\<lambda>s.
        bindr (thread_at cur s) (\<lambda>c.
        let s = s\<lparr>stack_mem_to_be_deleted := stack_memory c\<rparr> in
        bindr (thread_at temp_head s) (\<lambda>t.
        setcontext temp_head (s\<lparr>current_thread_id := index t\<rparr>)))))))"

text \<open>The end of \<open>thread_stub\<close>, after \<open>thread_main\<close> has returned.\<close>

definition thread_stub_end :: "sched \<Rightarrow> step" where
  "thread_stub_end s = thread_exit [FStubExit] s"

definition thread_kill :: "int \<Rightarrow> frame list \<Rightarrow> sched \<Rightarrow> step" where
  "thread_kill tid fs s =
     (let (enable, s) = interrupts_set False s in
      if tid = int (current_thread_id s) \<or> \<not> (tid \<ge> 0 \<and> tid < int THREAD_MAX_THREADS)
      then Inr (finish enable fs THREAD_INVALID s)
      else
        let p = Some (nat tid) in
        bindr (thread_at p s) (\<lambda>k.
        if \<not> isValid k \<or> head (readyQ s) = None then Inr (finish enable fs THREAD_INVALID s)
        else
          bindr (find_ready THREAD_MAX_THREADS tid None (head (readyQ s)) s) (\<lambda>found.
          case found of None \<Rightarrow> Inr (finish enable fs THREAD_INVALID s)
          | Some (pre, temp) \<Rightarrow>
              bindr (unlink_ready pre temp s) (\<lambda>s.
              bindr (get_next temp s) (\<lambda>t.
              let s = (if t = None then s\<lparr>readyQ := (readyQ s)\<lparr>tail := pre\<rparr>\<rparr> else s) in
              bindr (upd_thread p (\<lambda>t. t\<lparr>isValid := False\<rparr>) s) (\<lambda>s.
              bindr (if tid \<noteq> 0 then
                       bindr (thread_at p s) (\<lambda>k.
                       bindr (free_stack (stack_memory k) s) (\<lambda>s.
                       upd_thread p (\<lambda>t. t\<lparr>stack_memory := 0\<rparr>) s))
                     else Inr s) (\<lambda>s.
              Inr (finish enable fs tid s))))))))"

section \<open>Sleeping and waking up\<close>

definition wait_queue_create :: "addr \<Rightarrow> sched \<Rightarrow> (addr \<times> sched) result" where
  "wait_queue_create m s =
     bindr (c_assert (m \<noteq> 0)) (\<lambda>_.
     Inr (m, s\<lparr>wait_queues := (wait_queues s)(m \<mapsto> \<lparr>head = None, tail = None\<rparr>)\<rparr>))"

definition wait_queue_destroy :: "addr \<Rightarrow> sched \<Rightarrow> sched result" where
  "wait_queue_destroy wq s =
     (if wq = 0 then Inr s
      else bindr (lookup (wait_queues s) wq) (\<lambda>_. Inr (s\<lparr>wait_queues := (wait_queues s)(wq := None)\<rparr>)))"

definition thread_sleep :: "addr \<Rightarrow> frame list \<Rightarrow> sched \<Rightarrow> step" where
  "thread_sleep queue fs s =
     (let (enable, s) = interrupts_set False s in
      if queue = 0 then Inr (finish enable fs THREAD_INVALID s)
      else if head (readyQ s) = None then Inr (finish enable fs THREAD_NONE s)
      else
        let temp_head = head (readyQ s); cur = Some (current_thread_id s) in
        bindr (getcontext cur (FSleep temp_head enable # fs) s) (\<lambda>s.
        bindr (wait_append queue cur s) (\<lambda>s.
        bindr (ready_pop s) (\<lambda>s.
        bindr (thread_at temp_head s) (\<lambda>t.
        setcontext temp_head (s\<lparr>current_thread_id := index t\<rparr>))))))"

text \<open>The loop that counts a chain, see \<open>find_ready\<close> on its bound.\<close>

fun count_chain :: "nat \<Rightarrow> tptr \<Rightarrow> int \<Rightarrow> sched \<Rightarrow> int result" where
  "count_chain n None c s = Inr c"
| "count_chain 0 (Some i) c s = Inl Diverges"
| "count_chain (Suc n) (Some i) c s = bindr (get_next (Some i) s) (\<lambda>t. count_chain n t (c + 1) s)"

definition thread_wakeup :: "addr \<Rightarrow> bool \<Rightarrow> frame list \<Rightarrow> sched \<Rightarrow> step" where
  "thread_wakeup queue all fs s =
     (let (enable, s) = interrupts_set False s in
      if queue = 0 then Inr (finish enable fs 0 s)
      else
        bindr (lookup (wait_queues s) queue) (\<lambda>q.
        if head q = None then Inr (finish enable fs 0 s)
        else if all then
          bindr (wake_all q s) (\<lambda>s.
          bindr (count_chain THREAD_MAX_THREADS (head q) 0 s) (\<lambda>c.
          let s = s\<lparr>wait_queues := (wait_queues s)(queue \<mapsto> \<lparr>head = None, tail = None\<rparr>)\<rparr> in
          Inr (finish enable fs c s)))
        else bindr (wake_one queue q s) (\<lambda>s. Inr (finish enable fs 1 s))))"

end
