(* ===== verification/Sync.thy ===== *)
theory Sync
  imports Threads
begin

text \<open>
  The locks and condition variables of \<open>src/threads/thread.c\<close>, the interrupt handler of
  \<open>interrupt.c\<close>, and the machine: user code that calls the library, and is preempted, in any order.
\<close>

section \<open>Locks\<close>

text \<open>\<open>m\<close> and \<open>m'\<close> are the results of the two allocations.  A \<open>void\<close> function returns 0.\<close>

definition lock_create :: "addr \<Rightarrow> addr \<Rightarrow> frame list \<Rightarrow> sched \<Rightarrow> step" where
  "lock_create m m' fs s =
     (let (enable, s) = interrupts_set False s in
      bindr (c_assert (m \<noteq> 0)) (\<lambda>_.
      bindr (wait_queue_create m' s) (\<lambda>(wq, s).
      Inr (finish enable fs m (s\<lparr>locks := (locks s)(m \<mapsto> \<lparr>lock_waitQ = wq, available = True\<rparr>)\<rparr>)))))"

definition lock_destroy :: "addr \<Rightarrow> frame list \<Rightarrow> sched \<Rightarrow> step" where
  "lock_destroy lock fs s =
     (let (enable, s) = interrupts_set False s in
      bindr (c_assert (lock \<noteq> 0)) (\<lambda>_.
      bindr (lookup (locks s) lock) (\<lambda>l.
      bindr (if available l then
               bindr (wait_queue_destroy (lock_waitQ l) s) (\<lambda>s. Inr (s\<lparr>locks := (locks s)(lock := None)\<rparr>))
             else Inr s) (\<lambda>s.
      Inr (finish enable fs 0 s)))))"

definition lock_acquire :: "addr \<Rightarrow> frame list \<Rightarrow> sched \<Rightarrow> step" where
  "lock_acquire lock fs s =
     (let (enable, s) = interrupts_set False s in
      bindr (c_assert (lock \<noteq> 0)) (\<lambda>_. Inr (Acquire lock enable fs, s)))"

text \<open>One round of the loop of \<open>lock_acquire\<close>: the test, then a sleep, or the statements after the loop.\<close>

definition acquire_round :: "addr \<Rightarrow> bool \<Rightarrow> frame list \<Rightarrow> sched \<Rightarrow> step" where
  "acquire_round lock enable fs s =
     bindr (lookup (locks s) lock) (\<lambda>l.
     if \<not> available l then thread_sleep (lock_waitQ l) (FAcquire lock enable # fs) s
     else
       bindr (upd_thread (Some (current_thread_id s)) (\<lambda>t. t\<lparr>hasLock := True\<rparr>) s) (\<lambda>s.
       Inr (finish enable fs 0 (s\<lparr>locks := (locks s)(lock \<mapsto> l\<lparr>available := False\<rparr>)\<rparr>))))"

definition lock_release :: "addr \<Rightarrow> frame list \<Rightarrow> sched \<Rightarrow> step" where
  "lock_release lock fs s =
     (let (enable, s) = interrupts_set False s in
      bindr (c_assert (lock \<noteq> 0)) (\<lambda>_.
      bindr (lookup (locks s) lock) (\<lambda>l.
      if \<not> available l then
        let s = s\<lparr>locks := (locks s)(lock \<mapsto> l\<lparr>available := True\<rparr>)\<rparr> in
        bindr (upd_thread (Some (current_thread_id s)) (\<lambda>t. t\<lparr>hasLock := False\<rparr>) s) (\<lambda>s.
        bindr (thread_wakeup (lock_waitQ l) True [] s) (\<lambda>(_, s).
        Inr (finish enable fs 0 s)))
      else Inr (finish enable fs 0 s))))"

section \<open>Condition variables\<close>

definition cv_create :: "addr \<Rightarrow> addr \<Rightarrow> frame list \<Rightarrow> sched \<Rightarrow> step" where
  "cv_create m m' fs s =
     (let (enable, s) = interrupts_set False s in
      bindr (c_assert (m \<noteq> 0)) (\<lambda>_.
      if m' = 0 then Inl BadPointer
      else
        Inr (finish enable fs m
          (s\<lparr>wait_queues := (wait_queues s)(m' \<mapsto> \<lparr>head = None, tail = None\<rparr>),
             cvs := (cvs s)(m \<mapsto> \<lparr>cv_waitQ = m'\<rparr>)\<rparr>))))"

definition cv_destroy :: "addr \<Rightarrow> frame list \<Rightarrow> sched \<Rightarrow> step" where
  "cv_destroy cv fs s =
     (let (enable, s) = interrupts_set False s in
      bindr (c_assert (cv \<noteq> 0)) (\<lambda>_.
      bindr (lookup (cvs s) cv) (\<lambda>c.
      bindr (wait_queue_destroy (cv_waitQ c) s) (\<lambda>s.
      Inr (finish enable fs 0 (s\<lparr>cvs := (cvs s)(cv := None)\<rparr>))))))"

definition cv_wait :: "addr \<Rightarrow> addr \<Rightarrow> frame list \<Rightarrow> sched \<Rightarrow> step" where
  "cv_wait cv lock fs s =
     (let (enable, s) = interrupts_set False s in
      bindr (c_assert (cv \<noteq> 0)) (\<lambda>_.
      bindr (c_assert (lock \<noteq> 0)) (\<lambda>_.
      bindr (lookup (locks s) lock) (\<lambda>l.
      if \<not> available l then
        bindr (lock_release lock [] s) (\<lambda>(_, s).
        bindr (lookup (cvs s) cv) (\<lambda>c.
        thread_sleep (cv_waitQ c) (FCvSleep lock enable # fs) s))
      else Inr (finish enable fs 0 s)))))"

text \<open>\<open>cv_signal\<close> and \<open>cv_broadcast\<close> differ in the argument \<open>all\<close> of \<open>thread_wakeup\<close>.\<close>

definition cv_wakeup :: "bool \<Rightarrow> addr \<Rightarrow> addr \<Rightarrow> frame list \<Rightarrow> sched \<Rightarrow> step" where
  "cv_wakeup all cv lock fs s =
     (let (enable, s) = interrupts_set False s in
      bindr (c_assert (cv \<noteq> 0)) (\<lambda>_.
      bindr (c_assert (lock \<noteq> 0)) (\<lambda>_.
      bindr (lookup (locks s) lock) (\<lambda>l.
      if \<not> available l then
        bindr (lookup (cvs s) cv) (\<lambda>c.
        bindr (thread_wakeup (cv_waitQ c) all [] s) (\<lambda>(_, s).
        Inr (finish enable fs 0 s)))
      else Inr (finish enable fs 0 s)))))"

definition cv_signal :: "addr \<Rightarrow> addr \<Rightarrow> frame list \<Rightarrow> sched \<Rightarrow> step" where
  "cv_signal = cv_wakeup False"

definition cv_broadcast :: "addr \<Rightarrow> addr \<Rightarrow> frame list \<Rightarrow> sched \<Rightarrow> step" where
  "cv_broadcast = cv_wakeup True"

section \<open>The machine\<close>

text \<open>
  \<open>interrupt_handler\<close>: the signal is blocked while the handler runs; it yields, and when it returns
  the mask of the interrupted code is restored (the timer and the verbose output are left out).
\<close>

definition interrupt_handler :: "frame list \<Rightarrow> sched \<Rightarrow> step" where
  "interrupt_handler fs s =
     bindr (c_assert (\<not> interrupts s)) (\<lambda>_. thread_yield THREAD_ANY (FHandler # fs) s)"

definition deliver_interrupt :: "sched \<Rightarrow> step" where
  "deliver_interrupt s = interrupt_handler [] (s\<lparr>interrupts := False\<rparr>)"

text \<open>A call in progress goes on: a value is returned to the innermost frame, or a loop goes round.\<close>

definition continue :: "ctl \<Rightarrow> sched \<Rightarrow> step" where
  "continue c s = (case c of
     Acquire lock enable fs \<Rightarrow> acquire_round lock enable fs s
   | Ret (FAcquire lock enable # fs) r \<Rightarrow> Inr (Acquire lock enable fs, s)
   | Ret (FCvSleep lock enable # fs) r \<Rightarrow> lock_acquire lock (FCvAcquire enable # fs) s
   | Ret (FCvAcquire enable # fs) r \<Rightarrow> Inr (finish enable fs 0 s)
   | Ret (FHandler # fs) r \<Rightarrow> Inr (Ret fs 0, s\<lparr>interrupts := True\<rparr>)
   | Ret (FStubExit # fs) r \<Rightarrow> bindr (c_assert (r = THREAD_NONE)) (\<lambda>_. Inr (ProcessExit, s))
   | _ \<Rightarrow> Inr (c, s))"

datatype call =
    ThreadId
  | ThreadCreate int int addr
  | ThreadYield int
  | ThreadExit
  | ThreadReturn
  | ThreadKill int
  | ThreadSleep addr
  | ThreadWakeup addr bool
  | WaitQueueCreate addr
  | WaitQueueDestroy addr
  | LockCreate addr addr
  | LockDestroy addr
  | LockAcquire addr
  | LockRelease addr
  | CvCreate addr addr
  | CvDestroy addr
  | CvWait addr addr
  | CvSignal addr addr
  | CvBroadcast addr addr

fun do_call :: "call \<Rightarrow> sched \<Rightarrow> step" where
  "do_call ThreadId s = thread_id [] s"
| "do_call (ThreadCreate fn arg m) s = thread_create fn arg m [] s"
| "do_call (ThreadYield tid) s = thread_yield tid [] s"
| "do_call ThreadExit s = thread_exit [] s"
| "do_call ThreadReturn s = thread_stub_end s"
| "do_call (ThreadKill tid) s = thread_kill tid [] s"
| "do_call (ThreadSleep q) s = thread_sleep q [] s"
| "do_call (ThreadWakeup q all) s = thread_wakeup q all [] s"
| "do_call (WaitQueueCreate m) s = bindr (wait_queue_create m s) (\<lambda>(q, s). Inr (Ret [] q, s))"
| "do_call (WaitQueueDestroy q) s = bindr (wait_queue_destroy q s) (\<lambda>s. Inr (Ret [] 0, s))"
| "do_call (LockCreate m m') s = lock_create m m' [] s"
| "do_call (LockDestroy l) s = lock_destroy l [] s"
| "do_call (LockAcquire l) s = lock_acquire l [] s"
| "do_call (LockRelease l) s = lock_release l [] s"
| "do_call (CvCreate m m') s = cv_create m m' [] s"
| "do_call (CvDestroy c) s = cv_destroy c [] s"
| "do_call (CvWait c l) s = cv_wait c l [] s"
| "do_call (CvSignal c l) s = cv_signal c l [] s"
| "do_call (CvBroadcast c l) s = cv_broadcast c l [] s"

end
