(* ===== verification/ThreadQueues.thy ===== *)
theory ThreadQueues
  imports Sync
begin

text \<open>
  The queues of the thread library as lists.  All threads that wait are in one family of lists:
  the ready queue is at address 0, the wait queues at their own addresses.  Every statement
  of \<open>thread.c\<close> that changes pointers is an operation on this family.
\<close>

section \<open>Chains\<close>

fun chain :: "thread list \<Rightarrow> tptr \<Rightarrow> nat list \<Rightarrow> bool" where
  "chain T p [] \<longleftrightarrow> p = None"
| "chain T p (x # xs) \<longleftrightarrow> p = Some x \<and> x < length T \<and> chain T (next_thread (T ! x)) xs"

abbreviation link :: "thread list \<Rightarrow> nat \<Rightarrow> tptr \<Rightarrow> thread list" where
  "link T i p \<equiv> T[i := (T ! i)\<lparr>next_thread := p\<rparr>]"

lemma chain_cong:
  "length T' = length T \<Longrightarrow> (\<And>i. i \<in> set xs \<Longrightarrow> next_thread (T' ! i) = next_thread (T ! i)) \<Longrightarrow>
   chain T' p xs = chain T p xs"
  by (induction xs arbitrary: p) auto

lemma chain_link: "i \<notin> set xs \<Longrightarrow> chain (link T i q) p xs = chain T p xs"
  by (rule chain_cong) (simp, metis nth_list_update_neq)

lemma chain_in: "chain T p xs \<Longrightarrow> x \<in> set xs \<Longrightarrow> x < length T"
  by (induction xs arbitrary: p) auto

lemma chain_head: "chain T p xs \<Longrightarrow> p = (case xs of [] \<Rightarrow> None | x # _ \<Rightarrow> Some x)"
  by (cases xs) auto

lemma chain_None [simp]: "chain T None xs \<longleftrightarrow> xs = []"
  by (cases xs) auto

lemma chain_split:
  "chain T p (xs @ y # ys) \<longleftrightarrow> chain (link T y None) p (xs @ [y]) \<and> y < length T \<and> chain T (next_thread (T ! y)) ys"
  if "y \<notin> set xs"
  using that by (induction xs arbitrary: p) (auto simp: nth_list_update)

text \<open>Joining two chains at the end of the first.\<close>

lemma chain_join:
  assumes "chain T p (xs @ [y])" "distinct (xs @ [y])" "chain T q ys" "y \<notin> set ys"
  shows "chain (link T y q) p (xs @ y # ys)"
  using assms
proof (induction xs arbitrary: p)
  case Nil
  then show ?case by (auto simp: chain_link)
next
  case (Cons a xs)
  then have "a \<noteq> y" by auto
  with Cons show ?case by (auto simp: nth_list_update)
qed

text \<open>Taking an element out.\<close>

lemma chain_remove:
  assumes "chain T p (xs @ z # y # ys)" "distinct (xs @ z # y # ys)"
  shows "chain (link T z (next_thread (T ! y))) p (xs @ z # ys)"
  using assms
proof (induction xs arbitrary: p)
  case Nil
  then show ?case by (auto simp: chain_link)
next
  case (Cons a xs)
  then show ?case by (auto simp: nth_list_update)
qed

definition holds_queue :: "thread list \<Rightarrow> queue \<Rightarrow> nat list \<Rightarrow> bool" where
  "holds_queue T q xs \<longleftrightarrow> chain T (head q) xs \<and> (xs \<noteq> [] \<longrightarrow> tail q = Some (last xs))"

lemma holds_queue_cong:
  "length T' = length T \<Longrightarrow> (\<And>i. i \<in> set xs \<Longrightarrow> next_thread (T' ! i) = next_thread (T ! i)) \<Longrightarrow>
   holds_queue T' q xs = holds_queue T q xs"
  unfolding holds_queue_def using chain_cong by blast

section \<open>The family of queues\<close>

definition queue_at :: "sched \<Rightarrow> addr \<Rightarrow> queue option" where
  "queue_at s a = (if a = 0 then Some (readyQ s) else wait_queues s a)"

definition queues_ok :: "sched \<Rightarrow> (addr \<Rightarrow> nat list) \<Rightarrow> bool" where
  "queues_ok s Q \<longleftrightarrow> length (TCB s) = THREAD_MAX_THREADS \<and> wait_queues s 0 = None
     \<and> (\<forall>a. case queue_at s a of None \<Rightarrow> Q a = [] | Some q \<Rightarrow> holds_queue (TCB s) q (Q a))
     \<and> (\<forall>a. distinct (Q a)) \<and> (\<forall>a b. a \<noteq> b \<longrightarrow> set (Q a) \<inter> set (Q b) = {})"

text \<open>An operation on queues changes nothing else.\<close>

definition core :: "thread \<Rightarrow> thread" where
  "core t = t\<lparr>next_thread := None\<rparr>"

definition only_queues :: "sched \<Rightarrow> sched \<Rightarrow> bool" where
  "only_queues s s' \<longleftrightarrow> map core (TCB s') = map core (TCB s) \<and> dom (wait_queues s') = dom (wait_queues s)
     \<and> current_thread_id s' = current_thread_id s \<and> stack_mem_to_be_deleted s' = stack_mem_to_be_deleted s
     \<and> interrupts s' = interrupts s \<and> stacks s' = stacks s \<and> locks s' = locks s \<and> cvs s' = cvs s"

lemma only_queues_refl [simp]: "only_queues s s"
  by (simp add: only_queues_def)

lemma only_queues_trans: "only_queues s t \<Longrightarrow> only_queues t u \<Longrightarrow> only_queues s u"
  by (simp add: only_queues_def)

lemma core_eq:
  assumes "map core T' = map core T"
  shows "length T' = length T" "i < length T \<Longrightarrow> core (T' ! i) = core (T ! i)"
    "i < length T \<Longrightarrow> isValid (T' ! i) = isValid (T ! i)" "i < length T \<Longrightarrow> index (T' ! i) = index (T ! i)"
    "i < length T \<Longrightarrow> hasLock (T' ! i) = hasLock (T ! i)"
    "i < length T \<Longrightarrow> thread_context (T' ! i) = thread_context (T ! i)"
    "i < length T \<Longrightarrow> stack_memory (T' ! i) = stack_memory (T ! i)"
proof -
  show l: "length T' = length T" using assms by (metis length_map)
  show c: "core (T' ! i) = core (T ! i)" if "i < length T" for i
    using arg_cong [OF assms, of "\<lambda>xs. xs ! i"] that l by simp
  show "isValid (T' ! i) = isValid (T ! i)" if "i < length T" using arg_cong [OF c [OF that], of isValid] by (simp add: core_def)
  show "index (T' ! i) = index (T ! i)" if "i < length T" using arg_cong [OF c [OF that], of index] by (simp add: core_def)
  show "hasLock (T' ! i) = hasLock (T ! i)" if "i < length T" using arg_cong [OF c [OF that], of hasLock] by (simp add: core_def)
  show "thread_context (T' ! i) = thread_context (T ! i)" if "i < length T"
    using arg_cong [OF c [OF that], of thread_context] by (simp add: core_def)
  show "stack_memory (T' ! i) = stack_memory (T ! i)" if "i < length T"
    using arg_cong [OF c [OF that], of stack_memory] by (simp add: core_def)
qed

lemma core_link [simp]: "map core (link T i p) = map core T"
proof (rule nth_equalityI)
  fix j assume "j < length (map core (link T i p))"
  then show "map core (link T i p) ! j = map core T ! j" by (cases "j = i") (simp_all add: core_def)
qed simp

section \<open>The pointer operations\<close>

lemma set_next_in [simp]:
  "i < length (TCB s) \<Longrightarrow> set_next (Some i) q s = Inr (s\<lparr>TCB := link (TCB s) i q\<rparr>)"
  by (simp add: set_next_def upd_thread_def thread_at_def)

lemma get_next_in [simp]: "i < length (TCB s) \<Longrightarrow> get_next (Some i) s = Inr (next_thread (TCB s ! i))"
  by (simp add: get_next_def thread_at_def)

lemma thread_at_in [simp]: "i < length (TCB s) \<Longrightarrow> thread_at (Some i) s = Inr (TCB s ! i)"
  by (simp add: thread_at_def)

lemma upd_thread_in [simp]: "i < length (TCB s) \<Longrightarrow> upd_thread (Some i) f s = Inr (s\<lparr>TCB := (TCB s)[i := f (TCB s ! i)]\<rparr>)"
  by (simp add: upd_thread_def)

lemma queues_ok_facts:
  assumes "queues_ok s Q"
  shows qo_length: "length (TCB s) = THREAD_MAX_THREADS"
    and qo_ready: "holds_queue (TCB s) (readyQ s) (Q 0)"
    and qo_wait: "wait_queues s a = Some q \<Longrightarrow> holds_queue (TCB s) q (Q a)"
    and qo_none: "wait_queues s a = None \<Longrightarrow> a \<noteq> 0 \<Longrightarrow> Q a = []"
    and qo_null: "wait_queues s 0 = None"
    and qo_distinct: "distinct (Q a)" and qo_disjoint: "a \<noteq> b \<Longrightarrow> set (Q a) \<inter> set (Q b) = {}"
proof -
  have all: "\<And>a. case queue_at s a of None \<Rightarrow> Q a = [] | Some q \<Rightarrow> holds_queue (TCB s) q (Q a)"
    and n: "wait_queues s 0 = None"
    using assms by (auto simp: queues_ok_def)
  show "length (TCB s) = THREAD_MAX_THREADS" "wait_queues s 0 = None" "distinct (Q a)"
    "a \<noteq> b \<Longrightarrow> set (Q a) \<inter> set (Q b) = {}"
    using assms by (simp_all add: queues_ok_def)
  show "holds_queue (TCB s) (readyQ s) (Q 0)" using all [of 0] by (simp add: queue_at_def)
  show "holds_queue (TCB s) q (Q a)" if "wait_queues s a = Some q"
    using all [of a] that n by (auto simp: queue_at_def split: if_splits)
  show "Q a = []" if "wait_queues s a = None" "a \<noteq> 0" using all [of a] that by (simp add: queue_at_def)
qed

lemma qo_in: "queues_ok s Q \<Longrightarrow> x \<in> set (Q a) \<Longrightarrow> x < THREAD_MAX_THREADS"
proof -
  assume q: "queues_ok s Q" and x: "x \<in> set (Q a)"
  then have "queue_at s a \<noteq> None" by (auto simp: queues_ok_def split: option.splits)
  then obtain q' where "queue_at s a = Some q'" by auto
  then have "holds_queue (TCB s) q' (Q a)" using q by (auto simp: queues_ok_def split: option.splits)
  then show ?thesis using chain_in x qo_length [OF q] by (metis holds_queue_def)
qed

lemma qo_head: "queues_ok s Q \<Longrightarrow> head (readyQ s) = (case Q 0 of [] \<Rightarrow> None | x # _ \<Rightarrow> Some x)"
  using qo_ready chain_head by (fastforce simp: holds_queue_def)

lemma qo_tail: "queues_ok s Q \<Longrightarrow> Q 0 \<noteq> [] \<Longrightarrow> tail (readyQ s) = Some (last (Q 0))"
  using qo_ready by (simp add: holds_queue_def)

text \<open>
  The rule for an operation that changes the queues at \<open>A\<close> and pointers in no other queue.
\<close>

lemma queues_okI:
  assumes q: "queues_ok s Q" and len: "length (TCB s') = length (TCB s)"
    and A: "\<And>a. a \<in> A \<Longrightarrow> \<exists>q. queue_at s' a = Some q \<and> holds_queue (TCB s') q (Q' a)"
    and other: "\<And>a. a \<notin> A \<Longrightarrow> queue_at s' a = queue_at s a \<and> Q' a = Q a
      \<and> (\<forall>i \<in> set (Q a). next_thread (TCB s' ! i) = next_thread (TCB s ! i))"
    and z: "wait_queues s' 0 = None" and d: "\<And>a. distinct (Q' a)" "\<And>a b. a \<noteq> b \<Longrightarrow> set (Q' a) \<inter> set (Q' b) = {}"
  shows "queues_ok s' Q'"
proof -
  have "case queue_at s' a of None \<Rightarrow> Q' a = [] | Some r \<Rightarrow> holds_queue (TCB s') r (Q' a)" for a
  proof (cases "a \<in> A")
    case True
    then show ?thesis using A by fastforce
  next
    case False
    note o = other [OF this]
    have "case queue_at s a of None \<Rightarrow> Q a = [] | Some r \<Rightarrow> holds_queue (TCB s) r (Q a)"
      using q by (simp add: queues_ok_def)
    moreover have "holds_queue (TCB s') r (Q a) = holds_queue (TCB s) r (Q a)" for r
      using holds_queue_cong [OF len] o by blast
    ultimately show ?thesis using o by (cases "queue_at s a") simp_all
  qed
  then show ?thesis
    unfolding queues_ok_def using len qo_length [OF q] z d by simp
qed

lemma chain_snoc:
  assumes "chain T p (xs @ [y])" "distinct (xs @ [y, c])" "c < length T"
  shows "chain (link (link T y (Some c)) c None) p (xs @ [y, c])"
proof -
  have "y \<noteq> c" using assms(2) by simp
  then have eq: "link (link T y (Some c)) c None = link (link T c None) y (Some c)"
    by (simp add: list_update_swap [of y c])
  have "chain (link T c None) p (xs @ [y])" using assms(1,2) chain_link [of c] by simp
  moreover have "chain (link T c None) (Some c) [c]" using assms(3) by simp
  ultimately show ?thesis unfolding eq using chain_join [of "link T c None" p xs y "Some c" "[c]"] assms(2) by simp
qed

lemma same_queues_at: "readyQ s' = readyQ s \<Longrightarrow> wait_queues s' = wait_queues s \<Longrightarrow> queue_at s' = queue_at s"
  by (simp add: queue_at_def fun_eq_iff)

lemma ready_append_ok:
  assumes q: "queues_ok s Q" and ne: "Q 0 \<noteq> []" and c: "c < THREAD_MAX_THREADS" "\<And>a. c \<notin> set (Q a)"
  obtains s' where "ready_append (Some c) s = Inr s'" "queues_ok s' (Q(0 := Q 0 @ [c]))" "only_queues s s'"
    "wait_queues s' = wait_queues s"
proof -
  obtain xs y where xy: "Q 0 = xs @ [y]" using ne by (metis append_butlast_last_id)
  note len = qo_length [OF q] and t = qo_tail [OF q ne]
  have y: "y < length (TCB s)" "tail (readyQ s) = Some y" "y \<noteq> c"
    using qo_in [OF q, of y 0] c(2) [of 0] len t xy by auto
  have d: "distinct (xs @ [y, c])" using qo_distinct [OF q, of 0] c(2) [of 0] xy by simp
  let ?T = "link (link (TCB s) y (Some c)) c None"
  let ?s = "s\<lparr>readyQ := (readyQ s)\<lparr>tail := Some c\<rparr>, TCB := ?T\<rparr>"
  have "ready_append (Some c) s = Inr ?s"
    using y c(1) len by (simp add: ready_append_def Let_def)
  moreover have "queues_ok ?s (Q(0 := Q 0 @ [c]))"
  proof (rule queues_okI [where A = "{0}", OF q])
    have "chain (TCB s) (head (readyQ s)) (xs @ [y])" using qo_ready [OF q] xy by (simp add: holds_queue_def)
    from chain_snoc [OF this d] c(1) len xy
    show "\<exists>r. queue_at ?s a = Some r \<and> holds_queue (TCB ?s) r ((Q(0 := Q 0 @ [c])) a)" if "a \<in> {0}" for a
      using that by (simp add: queue_at_def holds_queue_def)
    show "queue_at ?s a = queue_at s a \<and> (Q(0 := Q 0 @ [c])) a = Q a
        \<and> (\<forall>i \<in> set (Q a). next_thread (TCB ?s ! i) = next_thread (TCB s ! i))" if "a \<notin> {0}" for a
    proof -
      have "y \<notin> set (Q a)" using qo_disjoint [OF q, of a 0] that xy by auto
      then have "next_thread (?T ! i) = next_thread (TCB s ! i)" if "i \<in> set (Q a)" for i
        using that c(2) [of a] by (metis nth_list_update_neq)
      with that show ?thesis by (simp add: queue_at_def)
    qed
  qed (use q c qo_distinct [OF q] qo_disjoint [OF q] qo_null [OF q] in auto)
  moreover have "only_queues s ?s" by (simp add: only_queues_def)
  ultimately show thesis using that by simp
qed

lemma ready_pop_ok:
  assumes q: "queues_ok s Q" and ne: "Q 0 = x # xs"
  obtains s' where "ready_pop s = Inr s'" "queues_ok s' (Q(0 := xs))" "only_queues s s'"
    "wait_queues s' = wait_queues s" "tail (readyQ s') = tail (readyQ s)" "TCB s' = TCB s"
proof -
  note len = qo_length [OF q]
  have x: "x < length (TCB s)" "head (readyQ s) = Some x" using qo_in [OF q, of x 0] len qo_head [OF q] ne by auto
  let ?s = "s\<lparr>readyQ := (readyQ s)\<lparr>head := next_thread (TCB s ! x)\<rparr>\<rparr>"
  have "ready_pop s = Inr ?s" using x by (simp add: ready_pop_def)
  moreover have "queues_ok ?s (Q(0 := xs))"
  proof (rule queues_okI [where A = "{0}", OF q])
    show "\<exists>r. queue_at ?s a = Some r \<and> holds_queue (TCB ?s) r ((Q(0 := xs)) a)" if "a \<in> {0}" for a
      using that qo_ready [OF q] ne by (auto simp: queue_at_def holds_queue_def)
    show "queue_at ?s a = queue_at s a \<and> (Q(0 := xs)) a = Q a
        \<and> (\<forall>i \<in> set (Q a). next_thread (TCB ?s ! i) = next_thread (TCB s ! i))" if "a \<notin> {0}" for a
      using that by (simp add: queue_at_def)
    show "set ((Q(0 := xs)) a) \<inter> set ((Q(0 := xs)) b) = {}" if "a \<noteq> b" for a b
      using qo_disjoint [OF q that] ne by (cases "a = 0"; cases "b = 0") (auto simp: that)
    show "distinct ((Q(0 := xs)) a)" for a using qo_distinct [OF q, of a] ne by auto
  qed (use qo_null [OF q] in simp_all)
  moreover have "only_queues s ?s" by (simp add: only_queues_def)
  ultimately show thesis using that by simp
qed

lemma family_upd:
  assumes "queues_ok s Q" "distinct xs" "\<And>b. b \<noteq> a \<Longrightarrow> set xs \<inter> set (Q b) = {}"
  shows "distinct ((Q(a := xs)) b)" "b \<noteq> c \<Longrightarrow> set ((Q(a := xs)) b) \<inter> set ((Q(a := xs)) c) = {}"
proof -
  show "distinct ((Q(a := xs)) b)" using assms(2) qo_distinct [OF assms(1)] by simp
  assume bc: "b \<noteq> c"
  show "set ((Q(a := xs)) b) \<inter> set ((Q(a := xs)) c) = {}"
    using qo_disjoint [OF assms(1) bc] assms(3) [of b] assms(3) [of c] bc by (cases "b = a"; cases "c = a") auto
qed

text \<open>Replacing the list of one queue.\<close>

lemma queues_ok_upd:
  assumes q: "queues_ok s Q" and len: "length (TCB s') = length (TCB s)"
    and at: "queue_at s' a = Some r" and h: "holds_queue (TCB s') r xs"
    and other: "\<And>b. b \<noteq> a \<Longrightarrow> queue_at s' b = queue_at s b"
    and T: "\<And>b i. b \<noteq> a \<Longrightarrow> i \<in> set (Q b) \<Longrightarrow> next_thread (TCB s' ! i) = next_thread (TCB s ! i)"
    and z: "wait_queues s' 0 = None" and d: "distinct xs" "\<And>b. b \<noteq> a \<Longrightarrow> set xs \<inter> set (Q b) = {}"
  shows "queues_ok s' (Q(a := xs))"
proof (rule queues_okI [where A = "{a}", OF q len _ _ z family_upd [OF q d]])
  show "\<exists>q. queue_at s' b = Some q \<and> holds_queue (TCB s') q ((Q(a := xs)) b)" if "b \<in> {a}" for b
    using that at h by simp
  show "queue_at s' b = queue_at s b \<and> (Q(a := xs)) b = Q b
      \<and> (\<forall>i \<in> set (Q b). next_thread (TCB s' ! i) = next_thread (TCB s ! i))" if "b \<notin> {a}" for b
    using that other T by simp
qed assumption+

lemma last_next: "chain T p (xs @ [y]) \<Longrightarrow> next_thread (T ! y) = None"
  by (induction xs arbitrary: p) auto

lemma link_same: "next_thread (T ! y) = p \<Longrightarrow> link T y p = T"
  by (metis list_update_id thread.surjective thread.update_convs(6))

lemma ready_enqueue_ok:
  assumes q: "queues_ok s Q" and c: "c < THREAD_MAX_THREADS" "\<And>a. c \<notin> set (Q a)" "next_thread (TCB s ! c) = None"
    and st: "Q 0 = [] \<Longrightarrow> tail (readyQ s) = None \<or>
      (\<exists>j. tail (readyQ s) = Some j \<and> j < THREAD_MAX_THREADS \<and> j \<noteq> c \<and> (\<forall>a. j \<notin> set (Q a)))"
  obtains s' where "ready_enqueue (Some c) s = Inr s'" "queues_ok s' (Q(0 := Q 0 @ [c]))" "only_queues s s'"
    "wait_queues s' = wait_queues s"
proof -
  note len = qo_length [OF q]
  have fam: "distinct (Q 0 @ [c])" "\<And>b. b \<noteq> 0 \<Longrightarrow> set (Q 0 @ [c]) \<inter> set (Q b) = {}"
    using qo_distinct [OF q] qo_disjoint [OF q, of 0] c(2) by auto
  have hd: "head (readyQ s) = None \<longleftrightarrow> Q 0 = []" using qo_head [OF q] by (simp split: list.splits)
  note goal = that
  have main: "thesis" if s': "ready_enqueue (Some c) s = Inr s'" "only_queues s s'" "wait_queues s' = wait_queues s"
    and h: "holds_queue (TCB s') (readyQ s') (Q 0 @ [c])"
    and T: "\<And>i a. a \<noteq> 0 \<Longrightarrow> i \<in> set (Q a) \<Longrightarrow> next_thread (TCB s' ! i) = next_thread (TCB s ! i)" for s'
  proof (rule goal [OF s'(1) _ s'(2,3)])
    have "length (TCB s') = length (TCB s)" using s'(2) by (intro core_eq(1)) (simp add: only_queues_def)
    then show "queues_ok s' (Q(0 := Q 0 @ [c]))"
    proof (rule queues_ok_upd [OF q _ _ h])
      show "queue_at s' 0 = Some (readyQ s')" using s'  by (simp add: queue_at_def)
      show "queue_at s' b = queue_at s b" if "b \<noteq> 0" for b using that s' by (simp add: queue_at_def)
      show "wait_queues s' 0 = None" using s' qo_null [OF q]  by simp
    qed (fact T fam)+
  qed
  show thesis
  proof (cases "Q 0 = []")
    case True
    from st [OF True] show thesis
    proof (elim disjE exE conjE)
      assume "tail (readyQ s) = None"
      then show thesis using True hd c len
        by (intro main [of "s\<lparr>readyQ := \<lparr>head = Some c, tail = Some c\<rparr>\<rparr>"])
           (simp_all add: ready_enqueue_def only_queues_def holds_queue_def)
    next
      fix j assume j: "tail (readyQ s) = Some j" "j < THREAD_MAX_THREADS" "j \<noteq> c" "\<forall>a. j \<notin> set (Q a)"
      have "next_thread (link (TCB s) j (Some c) ! i) = next_thread (TCB s ! i)" if "i \<in> set (Q a)" for i a
        using j(4) that by (metis nth_list_update_neq)
      with j show thesis using True hd c len
        by (intro main [of "s\<lparr>TCB := link (TCB s) j (Some c), readyQ := \<lparr>head = Some c, tail = Some c\<rparr>\<rparr>"])
           (simp_all add: ready_enqueue_def only_queues_def holds_queue_def)
    qed
  next
    case False
    then obtain xs y where xy: "Q 0 = xs @ [y]" by (metis append_butlast_last_id)
    have y: "y < length (TCB s)" "tail (readyQ s) = Some y" "y \<noteq> c"
      using qo_in [OF q, of y 0] c(2) [of 0] len qo_tail [OF q False] xy by auto
    have "chain (TCB s) (head (readyQ s)) (xs @ [y])" using qo_ready [OF q] xy by (simp add: holds_queue_def)
    from chain_join [OF this _ _, of "Some c" "[c]"] y(3) c(1,3) len qo_distinct [OF q, of 0] xy
    have ch: "chain (link (TCB s) y (Some c)) (head (readyQ s)) (xs @ [y, c])" by simp
    have "y \<notin> set (Q a)" if "a \<noteq> 0" for a using qo_disjoint [OF q that] xy by auto
    then have "next_thread (link (TCB s) y (Some c) ! i) = next_thread (TCB s ! i)" if "a \<noteq> 0" "i \<in> set (Q a)" for i a
      using that by (metis nth_list_update_neq)
    with ch y hd False xy show thesis
      by (intro main [of "s\<lparr>TCB := link (TCB s) y (Some c), readyQ := (readyQ s)\<lparr>tail := Some c\<rparr>\<rparr>"])
         (simp_all add: ready_enqueue_def only_queues_def holds_queue_def)
  qed
qed

lemma wait_append_ok:
  assumes q: "queues_ok s Q" and a: "wait_queues s a = Some r" and c: "c < THREAD_MAX_THREADS" "\<And>b. c \<notin> set (Q b)"
  obtains s' where "wait_append a (Some c) s = Inr s'" "queues_ok s' (Q(a := Q a @ [c]))" "only_queues s s'"
    "readyQ s' = readyQ s"
proof -
  note len = qo_length [OF q]
  have a0: "a \<noteq> 0" using qo_null [OF q] a by auto
  note h = qo_wait [OF q a]
  have fam: "distinct (Q a @ [c])" "\<And>b. b \<noteq> a \<Longrightarrow> set (Q a @ [c]) \<inter> set (Q b) = {}"
    using qo_distinct [OF q] qo_disjoint [OF q, of a] c(2) by auto
  have hd: "head r = None \<longleftrightarrow> Q a = []"
    using chain_head [of "TCB s" "head r" "Q a"] h by (simp add: holds_queue_def split: list.splits)
  note goal = that
  have main: "thesis" if s': "wait_append a (Some c) s = Inr s'" "only_queues s s'" "readyQ s' = readyQ s"
      "wait_queues s' = (wait_queues s)(a \<mapsto> r')"
    and h: "holds_queue (TCB s') r' (Q a @ [c])"
    and T: "\<And>i b. b \<noteq> a \<Longrightarrow> i \<in> set (Q b) \<Longrightarrow> next_thread (TCB s' ! i) = next_thread (TCB s ! i)" for s' r'
  proof (rule goal [OF s'(1) _ s'(2,3)])
    have "length (TCB s') = length (TCB s)" using s'(2) by (intro core_eq(1)) (simp add: only_queues_def)
    then show "queues_ok s' (Q(a := Q a @ [c]))"
    proof (rule queues_ok_upd [OF q _ _ h])
      show "queue_at s' a = Some (r')" using s' a0 by (simp add: queue_at_def)
      show "queue_at s' b = queue_at s b" if "b \<noteq> a" for b using that s' by (simp add: queue_at_def)
      show "wait_queues s' 0 = None" using s' qo_null [OF q] a0 by simp
    qed (fact T fam)+
  qed
  have dom: "insert a (dom (wait_queues s)) = dom (wait_queues s)" using a by auto
  show thesis
  proof (cases "Q a = []")
    case True
    have "next_thread (link (TCB s) c None ! i) = next_thread (TCB s ! i)" if "i \<in> set (Q b)" for i b
      using c(2) [of b] that by (metis nth_list_update_neq)
    then show thesis using True hd c a len dom
      by (intro main [of "s\<lparr>TCB := link (TCB s) c None, wait_queues := (wait_queues s)(a \<mapsto> \<lparr>head = Some c, tail = Some c\<rparr>)\<rparr>"
            "\<lparr>head = Some c, tail = Some c\<rparr>"])
         (simp_all add: wait_append_def lookup_def only_queues_def holds_queue_def)
  next
    case False
    then obtain xs y where xy: "Q a = xs @ [y]" by (metis append_butlast_last_id)
    have y: "y < length (TCB s)" "tail r = Some y" "y \<noteq> c"
      using qo_in [OF q, of y a] c(2) [of a] len h xy by (auto simp: holds_queue_def)
    let ?T = "link (link (TCB s) y (Some c)) c None"
    have "chain (TCB s) (head r) (xs @ [y])" using h xy by (simp add: holds_queue_def)
    from chain_snoc [OF this] qo_distinct [OF q, of a] c len xy y(3)
    have ch: "chain ?T (head r) (xs @ [y, c])" using c(2) [of a] by simp
    have "y \<notin> set (Q b)" if "b \<noteq> a" for b using qo_disjoint [OF q that] xy by auto
    then have "next_thread (?T ! i) = next_thread (TCB s ! i)" if "b \<noteq> a" "i \<in> set (Q b)" for i b
      using that c(2) [of b] by (metis nth_list_update_neq)
    moreover have "map core ?T = map core (TCB s)" by (simp only: core_link)
    moreover obtain h0 where "head r = Some h0" using hd False by auto
    ultimately show thesis using ch y xy c(1) len a dom
      by (intro main [of "s\<lparr>TCB := ?T, wait_queues := (wait_queues s)(a \<mapsto> r\<lparr>tail := Some c\<rparr>)\<rparr>" "r\<lparr>tail := Some c\<rparr>"])
         (simp_all add: wait_append_def lookup_def only_queues_def holds_queue_def)
  qed
qed

text \<open>Waking up: the ready queue and the queue at \<open>a\<close> change together.\<close>

lemma queues_ok_move:
  assumes q: "queues_ok s Q" and len: "length (TCB s') = length (TCB s)" and a: "a \<noteq> 0"
    and r: "holds_queue (TCB s') (readyQ s') xs" and w: "wait_queues s' = (wait_queues s)(a \<mapsto> r')" "holds_queue (TCB s') r' ys"
    and T: "\<And>b i. b \<noteq> 0 \<Longrightarrow> b \<noteq> a \<Longrightarrow> i \<in> set (Q b) \<Longrightarrow> next_thread (TCB s' ! i) = next_thread (TCB s ! i)"
    and part: "distinct (xs @ ys)" "set (xs @ ys) \<subseteq> set (Q 0) \<union> set (Q a)"
  shows "queues_ok s' (Q(0 := xs, a := ys))"
proof (rule queues_okI [where A = "{0, a}", OF q len])
  show "\<exists>q. queue_at s' b = Some q \<and> holds_queue (TCB s') q ((Q(0 := xs, a := ys)) b)" if "b \<in> {0, a}" for b
    using that a r w by (auto simp: queue_at_def)
  show "queue_at s' b = queue_at s b \<and> (Q(0 := xs, a := ys)) b = Q b
      \<and> (\<forall>i \<in> set (Q b). next_thread (TCB s' ! i) = next_thread (TCB s ! i))" if "b \<notin> {0, a}" for b
    using that w(1) T [of b] by (simp add: queue_at_def)
  show "wait_queues s' 0 = None" using qo_null [OF q] a w by simp
  show "distinct ((Q(0 := xs, a := ys)) b)" for b using part(1) qo_distinct [OF q] by simp
  have o: "set (Q b) \<inter> (set xs \<union> set ys) = {}" if "b \<noteq> 0" "b \<noteq> a" for b
    using qo_disjoint [OF q that(1)] qo_disjoint [OF q that(2)] part(2) by auto
  show "set ((Q(0 := xs, a := ys)) b) \<inter> set ((Q(0 := xs, a := ys)) c) = {}" if "b \<noteq> c" for b c
    using that o [of b] o [of c] qo_disjoint [OF q that] part(1) a
    by (cases "b = a"; cases "b = 0"; cases "c = a"; cases "c = 0") auto
qed

lemma wake_all_ok:
  assumes q: "queues_ok s Q" and a: "wait_queues s a = Some r" and ne: "Q a \<noteq> []"
  obtains s' where "wake_all r s = Inr s'" "only_queues s s'" "wait_queues s' = wait_queues s"
    "chain (TCB s') (head r) (Q a)"
    "queues_ok (s'\<lparr>wait_queues := (wait_queues s')(a \<mapsto> \<lparr>head = None, tail = None\<rparr>)\<rparr>) (Q(0 := Q 0 @ Q a, a := []))"
proof -
  note len = qo_length [OF q] and h = qo_wait [OF q a]
  have a0: "a \<noteq> 0" using qo_null [OF q] a by auto
  obtain zs z where z: "Q a = zs @ [z]" using ne by (metis append_butlast_last_id)
  have zl: "z < length (TCB s)" "tail r = Some z" "z \<notin> set (Q 0)"
    using qo_in [OF q, of z a] len h z qo_disjoint [OF q a0] by (auto simp: holds_queue_def)
  have hd: "head (readyQ s) = None \<longleftrightarrow> Q 0 = []" using qo_head [OF q] by (simp split: list.splits)
  have ch: "chain (TCB s) (head r) (Q a)" using h by (simp add: holds_queue_def)
  then have zn: "next_thread (TCB s ! z) = None" using last_next z by simp
  let ?e = "\<lparr>head = None, tail = None\<rparr> :: queue"
  have part: "distinct ((Q 0 @ Q a) @ [])" "set ((Q 0 @ Q a) @ []) \<subseteq> set (Q 0) \<union> set (Q a)"
    using qo_distinct [OF q] qo_disjoint [OF q a0] by auto
  show thesis
  proof (cases "Q 0 = []")
    case True
    let ?s = "s\<lparr>readyQ := r\<rparr>"
    have "wake_all r s = Inr ?s" using True hd zl link_same [OF zn] by (simp add: wake_all_def)
    moreover have "queues_ok (?s\<lparr>wait_queues := (wait_queues ?s)(a \<mapsto> ?e)\<rparr>) (Q(0 := Q 0 @ Q a, a := []))"
      by (rule queues_ok_move [where r' = ?e, OF q _ a0 _ _ _ _ part]) (use h True in \<open>simp_all add: holds_queue_def\<close>)
    ultimately show thesis using that [of ?s] ch by (simp add: only_queues_def)
  next
    case False
    then obtain xs y where xy: "Q 0 = xs @ [y]" by (metis append_butlast_last_id)
    have y: "y < length (TCB s)" "tail (readyQ s) = Some y" "y \<noteq> z" "y \<notin> set (Q a)"
      using qo_in [OF q, of y 0] len qo_tail [OF q False] xy zl(3) qo_disjoint [OF q a0] by auto
    let ?T = "link (TCB s) y (head r)"
    let ?s = "s\<lparr>TCB := ?T, readyQ := (readyQ s)\<lparr>tail := Some z\<rparr>\<rparr>"
    have "next_thread (?T ! z) = None" using y(3) zn by simp
    then have "link ?T z None = ?T" by (rule link_same)
    then have w: "wake_all r s = Inr ?s" using False hd zl y by (auto simp: wake_all_def)
    have "chain (TCB s) (head (readyQ s)) (xs @ [y])" using qo_ready [OF q] xy by (simp add: holds_queue_def)
    from chain_join [OF this _ ch y(4)] qo_distinct [OF q, of 0] xy
    have "chain ?T (head (readyQ s)) (Q 0 @ Q a)" by simp
    then have hr: "holds_queue ?T ((readyQ s)\<lparr>tail := Some z\<rparr>) (Q 0 @ Q a)" using z by (simp add: holds_queue_def)
    have T: "next_thread (?T ! i) = next_thread (TCB s ! i)" if "b \<noteq> 0" "i \<in> set (Q b)" for b i
      using qo_disjoint [OF q that(1)] that xy by (metis disjoint_iff in_set_conv_decomp nth_list_update_neq)
    have "queues_ok (?s\<lparr>wait_queues := (wait_queues ?s)(a \<mapsto> ?e)\<rparr>) (Q(0 := Q 0 @ Q a, a := []))"
    proof (rule queues_ok_move [where r' = ?e, OF q _ a0 _ _ _ _ part])
      show "next_thread (TCB (?s\<lparr>wait_queues := (wait_queues ?s)(a \<mapsto> ?e)\<rparr>) ! i) = next_thread (TCB s ! i)"
        if "b \<noteq> 0" "b \<noteq> a" "i \<in> set (Q b)" for b i using T [OF that(1,3)] by simp
    qed (use hr in \<open>simp_all add: holds_queue_def\<close>)
    moreover have "chain ?T (head r) (Q a)" using ch chain_link [OF y(4)] by simp
    ultimately show thesis using that [of ?s] w by (simp add: only_queues_def)
  qed
qed

lemma wake_one_ok:
  assumes q: "queues_ok s Q" and a: "wait_queues s a = Some r" and ne: "Q a = x # xs"
  obtains s' where "wake_one a r s = Inr s'" "only_queues s s'" "queues_ok s' (Q(0 := Q 0 @ [x], a := xs))"
proof -
  note len = qo_length [OF q] and h = qo_wait [OF q a]
  have a0: "a \<noteq> 0" using qo_null [OF q] a by auto
  have x: "x < length (TCB s)" "head r = Some x" "x \<notin> set (Q 0)" "x \<notin> set xs"
    using qo_in [OF q, of x a] len h ne qo_disjoint [OF q a0] qo_distinct [OF q, of a] by (auto simp: holds_queue_def)
  have other: "x \<notin> set (Q b)" if "b \<noteq> a" for b using qo_disjoint [OF q that] ne by auto
  have hd: "head (readyQ s) = None \<longleftrightarrow> Q 0 = []" using qo_head [OF q] by (simp split: list.splits)
  have ch: "chain (TCB s) (next_thread (TCB s ! x)) xs" "xs \<noteq> [] \<longrightarrow> tail r = Some (last xs)"
    using h ne x(2) by (auto simp: holds_queue_def)
  have dom: "insert a (dom (wait_queues s)) = dom (wait_queues s)" using a by auto
  have part: "distinct ((Q 0 @ [x]) @ xs)" "set ((Q 0 @ [x]) @ xs) \<subseteq> set (Q 0) \<union> set (Q a)"
    using qo_distinct [OF q, of 0] qo_distinct [OF q, of a] qo_disjoint [OF q a0] ne by auto
  let ?r = "r\<lparr>head := next_thread (TCB s ! x)\<rparr>"
  show thesis
  proof (cases "Q 0 = []")
    case True
    let ?T = "link (TCB s) x None"
    let ?s = "s\<lparr>TCB := ?T, readyQ := \<lparr>head = Some x, tail = Some x\<rparr>, wait_queues := (wait_queues s)(a \<mapsto> ?r)\<rparr>"
    have w: "wake_one a r s = Inr ?s" using True hd x by (simp add: wake_one_def)
    have T: "next_thread (?T ! i) = next_thread (TCB s ! i)" if "b \<noteq> a" "i \<in> set (Q b)" for b i
      using other [OF that(1)] that by (metis nth_list_update_neq)
    have "queues_ok ?s (Q(0 := Q 0 @ [x], a := xs))"
    proof (rule queues_ok_move [where r' = ?r, OF q _ a0 _ _ _ _ part])
      show "holds_queue (TCB ?s) ?r xs" using ch chain_link [OF x(4)] by (simp add: holds_queue_def)
      show "next_thread (TCB ?s ! i) = next_thread (TCB s ! i)" if "b \<noteq> 0" "b \<noteq> a" "i \<in> set (Q b)" for b i
        using T [OF that(2,3)] by simp
    qed (use True x in \<open>simp_all add: holds_queue_def\<close>)
    then show thesis using that [OF w] dom by (simp add: only_queues_def)
  next
    case False
    then obtain ys y where xy: "Q 0 = ys @ [y]" by (metis append_butlast_last_id)
    have y: "y < length (TCB s)" "tail (readyQ s) = Some y" "y \<noteq> x" "y \<notin> set xs"
      using qo_in [OF q, of y 0] len qo_tail [OF q False] xy x(3) qo_disjoint [OF q a0] ne by auto
    let ?T = "link (link (TCB s) y (Some x)) x None"
    let ?s = "s\<lparr>TCB := ?T, readyQ := (readyQ s)\<lparr>tail := Some x\<rparr>, wait_queues := (wait_queues s)(a \<mapsto> ?r)\<rparr>"
    have w: "wake_one a r s = Inr ?s" using False hd x y by (auto simp: wake_one_def)
    have "chain (TCB s) (head (readyQ s)) (ys @ [y])" using qo_ready [OF q] xy by (simp add: holds_queue_def)
    from chain_snoc [OF this _ x(1)] part xy
    have hr: "holds_queue ?T ((readyQ s)\<lparr>tail := Some x\<rparr>) (Q 0 @ [x])" by (simp add: holds_queue_def)
    have T: "next_thread (?T ! i) = next_thread (TCB s ! i)" if "i \<noteq> x" "i \<noteq> y" for i using that by simp
    have "queues_ok ?s (Q(0 := Q 0 @ [x], a := xs))"
    proof (rule queues_ok_move [where r' = ?r, OF q _ a0 _ _ _ _ part])
      have "chain ?T (next_thread (TCB s ! x)) xs"
        using ch(1) chain_cong [of ?T "TCB s" xs] T x(4) y(4) by (metis length_list_update)
      then show "holds_queue (TCB ?s) ?r xs" using ch(2) by (simp add: holds_queue_def)
      show "next_thread (TCB ?s ! i) = next_thread (TCB s ! i)" if "b \<noteq> 0" "b \<noteq> a" "i \<in> set (Q b)" for b i
      proof -
        have "i \<noteq> x" using other [OF that(2)] that(3) by auto
        moreover have "i \<noteq> y" using qo_disjoint [OF q that(1)] that(3) xy by auto
        ultimately show ?thesis using T by simp
      qed
    qed (use hr in simp_all)
    moreover have "map core ?T = map core (TCB s)" by (simp only: core_link)
    ultimately show thesis using that [OF w] dom by (simp add: only_queues_def)
  qed
qed

text \<open>Searching and unlinking.\<close>

lemma find_ready_none:
  "chain (TCB s) p xs \<Longrightarrow> (\<And>i. i \<in> set xs \<Longrightarrow> int (index (TCB s ! i)) \<noteq> tid) \<Longrightarrow> length xs \<le> n \<Longrightarrow>
   find_ready n tid pre p s = Inr None"
proof (induction xs arbitrary: n p pre)
  case (Cons x xs)
  then show ?case by (cases n) auto
qed simp

lemma find_ready_some:
  "chain (TCB s) p (xs @ x # ys) \<Longrightarrow> (\<And>i. i \<in> set xs \<Longrightarrow> int (index (TCB s ! i)) \<noteq> tid) \<Longrightarrow>
   int (index (TCB s ! x)) = tid \<Longrightarrow> length xs < n \<Longrightarrow>
   find_ready n tid pre p s = Inr (Some (if xs = [] then pre else Some (last xs), Some x))"
proof (induction xs arbitrary: n p pre)
  case Nil
  then show ?case by (cases n) auto
next
  case (Cons a xs)
  then show ?case by (cases n) auto
qed

lemma count_chain_eq: "chain (TCB s) p xs \<Longrightarrow> length xs \<le> n \<Longrightarrow> count_chain n p c s = Inr (c + int (length xs))"
proof (induction xs arbitrary: n p c)
  case (Cons x xs)
  then show ?case by (cases n) auto
qed simp

lemma queue_length: "queues_ok s Q \<Longrightarrow> length (Q a) \<le> THREAD_MAX_THREADS"
proof -
  assume q: "queues_ok s Q"
  have "set (Q a) \<subseteq> {..<THREAD_MAX_THREADS}" using qo_in [OF q] by auto
  then have "card (set (Q a)) \<le> card {..<THREAD_MAX_THREADS}" by (rule card_mono [OF finite_lessThan])
  then show ?thesis using distinct_card [OF qo_distinct [OF q]] by simp
qed

lemma unlink_ready_ok:
  assumes q: "queues_ok s Q" and x: "Q 0 = xs @ x # ys"
  defines "pre \<equiv> (if xs = [] then None else Some (last xs))"
  obtains s' where "unlink_ready pre (Some x) s = Inr s'" "only_queues s s'" "wait_queues s' = wait_queues s"
    "get_next (Some x) s' = Inr (case ys of [] \<Rightarrow> None | y # _ \<Rightarrow> Some y)" "tail (readyQ s') = tail (readyQ s)"
    "ys \<noteq> [] \<Longrightarrow> queues_ok s' (Q(0 := xs @ ys))"
    "ys = [] \<Longrightarrow> queues_ok (s'\<lparr>readyQ := (readyQ s')\<lparr>tail := pre\<rparr>\<rparr>) (Q(0 := xs))"
proof -
  note len = qo_length [OF q]
  have xl: "x < length (TCB s)" "x \<notin> set xs" "x \<notin> set ys"
    using qo_in [OF q, of x 0] len x qo_distinct [OF q, of 0] by auto
  have ch: "chain (TCB s) (head (readyQ s)) (xs @ x # ys)" using qo_ready [OF q] x by (simp add: holds_queue_def)
  have d: "distinct (xs @ x # ys)" using qo_distinct [OF q, of 0] x by simp
  have nx: "chain (TCB s) (next_thread (TCB s ! x)) ys" using ch chain_split [OF xl(2)] by blast
  then have nxt: "next_thread (TCB s ! x) = (case ys of [] \<Rightarrow> None | y # _ \<Rightarrow> Some y)" by (rule chain_head)
  have fam: "distinct (xs @ ys)" "\<And>b. b \<noteq> 0 \<Longrightarrow> set (xs @ ys) \<inter> set (Q b) = {}"
    using d qo_disjoint [OF q, of 0] x by auto
  note goal = that
  have main: "thesis" if s': "unlink_ready pre (Some x) s = Inr s'" "only_queues s s'" "wait_queues s' = wait_queues s"
      "tail (readyQ s') = tail (readyQ s)" "next_thread (TCB s' ! x) = next_thread (TCB s ! x)"
    and h: "chain (TCB s') (head (readyQ s')) (xs @ ys)"
    and T: "\<And>b i. b \<noteq> 0 \<Longrightarrow> i \<in> set (Q b) \<Longrightarrow> next_thread (TCB s' ! i) = next_thread (TCB s ! i)" for s'
  proof (rule goal [OF s'(1-3)])
    have l: "length (TCB s') = length (TCB s)" using s'(2) by (intro core_eq(1)) (simp add: only_queues_def)
    with xl s'(5) nxt show "get_next (Some x) s' = Inr (case ys of [] \<Rightarrow> None | y # _ \<Rightarrow> Some y)" by simp
    have ok: "queues_ok t (Q(0 := xs @ ys))"
      if t: "TCB t = TCB s'" "wait_queues t = wait_queues s'" "holds_queue (TCB s') (readyQ t) (xs @ ys)" for t
    proof (rule queues_ok_upd [OF q])
      show "queue_at t 0 = Some (readyQ t)" by (simp add: queue_at_def)
      show "queue_at t b = queue_at s b" if "b \<noteq> 0" for b using that t(2) s'(3) by (simp add: queue_at_def)
      show "wait_queues t 0 = None" using qo_null [OF q] t(2) s'(3) by simp
      show "next_thread (TCB t ! i) = next_thread (TCB s ! i)" if "b \<noteq> 0" "i \<in> set (Q b)" for b i
        using T [OF that] t(1) by simp
    qed (use l t fam in simp_all)
    show "queues_ok s' (Q(0 := xs @ ys))" if "ys \<noteq> []"
    proof (rule ok)
      have "tail (readyQ s') = Some (last ys)" using s'(4) qo_tail [OF q] x that by simp
      then show "holds_queue (TCB s') (readyQ s') (xs @ ys)" using h that by (simp add: holds_queue_def)
    qed simp_all
    show "queues_ok (s'\<lparr>readyQ := (readyQ s')\<lparr>tail := pre\<rparr>\<rparr>) (Q(0 := xs))" if "ys = []"
      using ok [of "s'\<lparr>readyQ := (readyQ s')\<lparr>tail := pre\<rparr>\<rparr>"] h that by (simp add: holds_queue_def pre_def)
  qed (use s' in simp)
  show thesis
  proof (cases xs rule: rev_cases)
    case Nil
    have "unlink_ready pre (Some x) s = Inr (s\<lparr>readyQ := (readyQ s)\<lparr>head := next_thread (TCB s ! x)\<rparr>\<rparr>)"
      using Nil ch xl by (simp add: unlink_ready_def ready_pop_def pre_def)
    then show thesis by (rule main) (use Nil nx in \<open>simp_all add: only_queues_def\<close>)
  next
    case (snoc zs z)
    have z: "z < length (TCB s)" "z \<noteq> x" using qo_in [OF q, of z 0] len x snoc d by auto
    let ?T = "link (TCB s) z (next_thread (TCB s ! x))"
    have "unlink_ready pre (Some x) s = Inr (s\<lparr>TCB := ?T\<rparr>)"
      using snoc xl z by (simp add: unlink_ready_def pre_def)
    then show thesis
    proof (rule main)
      show "chain (TCB (s\<lparr>TCB := ?T\<rparr>)) (head (readyQ (s\<lparr>TCB := ?T\<rparr>))) (xs @ ys)"
        using chain_remove [of "TCB s" "head (readyQ s)" zs z x ys] ch d snoc by simp
      show "next_thread (TCB (s\<lparr>TCB := ?T\<rparr>) ! i) = next_thread (TCB s ! i)" if "b \<noteq> 0" "i \<in> set (Q b)" for b i
        using qo_disjoint [OF q that(1)] that(2) x snoc by (cases "i = z") auto
    qed (use z in \<open>simp_all add: only_queues_def\<close>)
  qed
qed

end
