(* ===== verification/ThreadSpec.thy ===== *)
theory ThreadSpec
  imports ThreadQueues
begin

text \<open>
  The scheduler: the invariant \<open>sched_ok\<close> of its states, and what each operation does to the lists
  of waiting threads, to the saved contexts and to the stacks.
\<close>

section \<open>The invariant\<close>

abbreviation "current \<equiv> current_thread_id"
abbreviation "pending \<equiv> stack_mem_to_be_deleted"

definition saved :: "sched \<Rightarrow> nat \<Rightarrow> frame list" where
  "saved s i = frames (thread_context (TCB s ! i))"

text \<open>What a saved context does when it is continued: the control state, and whether interrupts are on.\<close>

fun resume_of :: "frame list \<Rightarrow> ctl \<times> bool" where
  "resume_of (FYieldAny (Some t) en # fs) = (Ret fs (int t), en)"
| "resume_of (FYieldTo w en # fs) = (Ret fs w, en)"
| "resume_of (FSleep (Some t) en # fs) = (Ret fs (int t), en)"
| "resume_of fs = (Ret [] 0, True)"

fun ctx_ok :: "thread list \<Rightarrow> frame list \<Rightarrow> bool" where
  "ctx_ok T (FStub fn arg sp # fs) \<longleftrightarrow> fs = []"
| "ctx_ok T (FYieldAny (Some t) en # fs) \<longleftrightarrow> t < length T \<and> index (T ! t) = t"
| "ctx_ok T (FYieldTo w en # fs) \<longleftrightarrow> True"
| "ctx_ok T (FSleep (Some t) en # fs) \<longleftrightarrow> t < length T \<and> index (T ! t) = t"
| "ctx_ok T fs \<longleftrightarrow> False"

definition active :: "sched \<Rightarrow> (addr \<Rightarrow> nat list) \<Rightarrow> nat \<Rightarrow> bool" where
  "active s Q i \<longleftrightarrow> i = current s \<or> (\<exists>a. i \<in> set (Q a))"

definition stacks_ok :: "sched \<Rightarrow> bool" where
  "stacks_ok s \<longleftrightarrow> 0 \<notin> stacks s
     \<and> (\<forall>i < THREAD_MAX_THREADS. isValid (TCB s ! i) \<longrightarrow>
          stack_memory (TCB s ! i) = 0 \<or> stack_memory (TCB s ! i) \<in> stacks s \<and> stack_memory (TCB s ! i) \<noteq> pending s)
     \<and> (\<forall>i < THREAD_MAX_THREADS. \<forall>j < THREAD_MAX_THREADS. i \<noteq> j \<and> isValid (TCB s ! i) \<and> isValid (TCB s ! j)
          \<and> stack_memory (TCB s ! i) \<noteq> 0 \<longrightarrow> stack_memory (TCB s ! i) \<noteq> stack_memory (TCB s ! j))
     \<and> (pending s = 0 \<or> pending s \<in> stacks s)"

definition sched_ok :: "sched \<Rightarrow> (addr \<Rightarrow> nat list) \<Rightarrow> bool" where
  "sched_ok s Q \<longleftrightarrow> queues_ok s Q \<and> stacks_ok s
     \<and> current s < THREAD_MAX_THREADS \<and> (\<forall>a. current s \<notin> set (Q a))
     \<and> (Q 0 = [] \<longrightarrow> tail (readyQ s) = None \<or> tail (readyQ s) = Some (current s))
     \<and> (\<forall>i. active s Q i \<longrightarrow> isValid (TCB s ! i) \<and> index (TCB s ! i) = i)
     \<and> (\<forall>a. \<forall>i \<in> set (Q a). ctx_ok (TCB s) (saved s i) \<and> sigmask (thread_context (TCB s ! i)))"

lemma sched_ok_facts:
  assumes "sched_ok s Q"
  shows so_queues: "queues_ok s Q" and so_stacks: "stacks_ok s" and so_current: "current s < THREAD_MAX_THREADS"
    and so_not_queued: "current s \<notin> set (Q a)"
    and so_tail: "Q 0 = [] \<Longrightarrow> tail (readyQ s) = None \<or> tail (readyQ s) = Some (current s)"
    and so_valid: "active s Q i \<Longrightarrow> isValid (TCB s ! i)" and so_index: "active s Q i \<Longrightarrow> index (TCB s ! i) = i"
    and so_ctx: "i \<in> set (Q a) \<Longrightarrow> ctx_ok (TCB s) (saved s i)"
    and so_mask: "i \<in> set (Q a) \<Longrightarrow> sigmask (thread_context (TCB s ! i))"
    and so_length: "length (TCB s) = THREAD_MAX_THREADS"
  using assms by (auto simp: sched_ok_def queues_ok_def)

lemma active_simps [simp]: "active s Q (current s)" "i \<in> set (Q a) \<Longrightarrow> active s Q i"
  by (auto simp: active_def)

lemma active_lt: "sched_ok s Q \<Longrightarrow> active s Q i \<Longrightarrow> i < THREAD_MAX_THREADS"
  by (auto simp: active_def intro: qo_in [OF so_queues] so_current)

lemma queues_ok_cong:
  assumes "length (TCB s') = length (TCB s)" "\<And>i. i < length (TCB s) \<Longrightarrow> next_thread (TCB s' ! i) = next_thread (TCB s ! i)"
    "readyQ s' = readyQ s" "wait_queues s' = wait_queues s"
  shows "queues_ok s Q \<Longrightarrow> queues_ok s' Q"
proof -
  assume q: "queues_ok s Q"
  have "\<forall>i \<in> set (Q a). next_thread (TCB s' ! i) = next_thread (TCB s ! i)" for a
    using assms(2) qo_in [OF q] qo_length [OF q] by simp
  then show ?thesis
    using q assms(1) same_queues_at [OF assms(3,4)] assms(4)
    by (intro queues_okI [where A = "{}", OF q]) (auto simp: queues_ok_def)
qed

lemma queues_ok_unqueued:
  assumes q: "queues_ok s Q" and i: "\<And>a. i \<notin> set (Q a)"
  shows "queues_ok (s\<lparr>TCB := (TCB s)[i := t]\<rparr>) Q"
proof (rule queues_okI [where A = "{}", OF q])
  show "queue_at (s\<lparr>TCB := (TCB s)[i := t]\<rparr>) a = queue_at s a \<and> Q a = Q a
      \<and> (\<forall>j \<in> set (Q a). next_thread (TCB (s\<lparr>TCB := (TCB s)[i := t]\<rparr>) ! j) = next_thread (TCB s ! j))" for a
  proof -
    have "i \<noteq> j" if "j \<in> set (Q a)" for j using that i by auto
    then show ?thesis by (simp add: queue_at_def)
  qed
qed (use q in \<open>auto simp: queues_ok_def\<close>)

lemma ctx_ok_mono: "ctx_ok T F \<Longrightarrow> length T' = length T \<Longrightarrow>
    (\<And>t. t < length T \<Longrightarrow> index (T ! t) = t \<Longrightarrow> index (T' ! t) = t) \<Longrightarrow> ctx_ok T' F"
  by (cases "(T, F)" rule: ctx_ok.cases) auto

lemma ctx_ok_cong: "length T' = length T \<Longrightarrow> (\<And>i. i < length T \<Longrightarrow> index (T' ! i) = index (T ! i)) \<Longrightarrow> ctx_ok T' F = ctx_ok T F"
  by (cases "(T, F)" rule: ctx_ok.cases) auto

text \<open>What the rest of the development uses of the context switch.\<close>

lemma setcontext_eq:
  assumes "x < length (TCB s)" "ctx_ok (TCB s) (saved s x)" "sigmask (thread_context (TCB s ! x))"
  shows "setcontext (Some x) s = Inr (fst (resume_of (saved s x)), s\<lparr>interrupts := snd (resume_of (saved s x))\<rparr>)"
proof -
  have "setcontext (Some x) s = resume (saved s x) (s\<lparr>interrupts := False\<rparr>)"
    using assms by (simp add: setcontext_def saved_def)
  also have "\<dots> = Inr (fst (resume_of (saved s x)), s\<lparr>interrupts := snd (resume_of (saved s x))\<rparr>)"
    using assms(2) by (cases "(TCB s, saved s x)" rule: ctx_ok.cases)
      (simp_all add: resume_def interrupts_set_def finish_def)
  finally show ?thesis .
qed

text \<open>
  A switch away from the current thread, with \<open>F\<close> saved for it: nothing but queues and that
  context changes.
\<close>

definition switched :: "sched \<Rightarrow> frame list \<Rightarrow> sched \<Rightarrow> bool" where
  "switched s F s' \<longleftrightarrow> length (TCB s') = length (TCB s)
     \<and> (\<forall>i < THREAD_MAX_THREADS. isValid (TCB s' ! i) = isValid (TCB s ! i) \<and> index (TCB s' ! i) = index (TCB s ! i)
          \<and> stack_memory (TCB s' ! i) = stack_memory (TCB s ! i) \<and> hasLock (TCB s' ! i) = hasLock (TCB s ! i)
          \<and> (i \<noteq> current s \<longrightarrow> thread_context (TCB s' ! i) = thread_context (TCB s ! i)))
     \<and> thread_context (TCB s' ! current s) = \<lparr>frames = F, sigmask = True\<rparr>
     \<and> stacks s' = stacks s \<and> pending s' = pending s \<and> locks s' = locks s \<and> cvs s' = cvs s
     \<and> dom (wait_queues s') = dom (wait_queues s)"

lemma switchedI:
  assumes c: "c = current s" "c < THREAD_MAX_THREADS" "length (TCB s) = THREAD_MAX_THREADS"
    and T: "map core (TCB s') = map core ((TCB s)[c := (TCB s ! c)\<lparr>thread_context := \<lparr>frames = F, sigmask = True\<rparr>\<rparr>])"
    and "stacks s' = stacks s" "pending s' = pending s" "locks s' = locks s" "cvs s' = cvs s"
      "dom (wait_queues s') = dom (wait_queues s)"
  shows "switched s F s'"
  unfolding switched_def using assms core_eq [OF T] by (auto simp: nth_list_update)

lemma stacks_ok_cong:
  assumes "stacks_ok s" "stacks s' = stacks s" "pending s' = pending s"
    "\<And>i. i < THREAD_MAX_THREADS \<Longrightarrow> isValid (TCB s' ! i) = isValid (TCB s ! i)
      \<and> stack_memory (TCB s' ! i) = stack_memory (TCB s ! i)"
  shows "stacks_ok s'"
  using assms unfolding stacks_ok_def by simp

lemma sched_ok_switched:
  assumes s: "sched_ok s Q" and sw: "switched s F s'" and F: "ctx_ok (TCB s) F" and q: "queues_ok s' Q'"
    and x: "current s' = x" "x \<in> set (Q 0)"
    and act: "\<And>a i. i \<in> set (Q' a) \<Longrightarrow> i \<noteq> x \<and> active s Q i"
    and t: "Q' 0 = [] \<Longrightarrow> tail (readyQ s') = Some x"
  shows "sched_ok s' Q'"
proof -
  have ctx: "ctx_ok (TCB s') G = ctx_ok (TCB s) G" for G
    using sw so_length [OF s] by (cases "(TCB s, G)" rule: ctx_ok.cases) (auto simp: switched_def)
  have a: "i < THREAD_MAX_THREADS \<and> isValid (TCB s' ! i) \<and> index (TCB s' ! i) = i" if "active s' Q' i" for i
  proof -
    have "active s Q i" using that act x by (auto simp: active_def)
    then show ?thesis using active_lt [OF s] so_valid [OF s] so_index [OF s] sw by (simp add: switched_def)
  qed
  have "ctx_ok (TCB s') (saved s' i) \<and> sigmask (thread_context (TCB s' ! i))" if i: "i \<in> set (Q' b)" for i b
  proof (cases "i = current s")
    case True
    then show ?thesis using sw F ctx by (simp add: switched_def saved_def)
  next
    case False
    then obtain c where "i \<in> set (Q c)" using act [OF i] by (auto simp: active_def)
    moreover have "thread_context (TCB s' ! i) = thread_context (TCB s ! i)"
      using False sw active_lt [OF s] act [OF i] by (simp add: switched_def)
    ultimately show ?thesis using so_ctx [OF s] so_mask [OF s] ctx by (simp add: saved_def)
  qed
  moreover have "stacks_ok s'" by (rule stacks_ok_cong [OF so_stacks [OF s]]) (use sw in \<open>simp_all add: switched_def\<close>)
  moreover have "current s' < THREAD_MAX_THREADS" using a [of "current s'"] by simp
  ultimately show ?thesis unfolding sched_ok_def using q a act x t by blast
qed

section \<open>Yielding\<close>

text \<open>The stack of a thread that has exited is freed by the next thread that yields or exits.\<close>

definition freed :: "sched \<Rightarrow> sched" where
  "freed s = s\<lparr>stacks := stacks s - {pending s}, stack_mem_to_be_deleted := 0\<rparr>"

lemma freed_simps [simp]:
  "current (freed s) = current s" "TCB (freed s) = TCB s" "readyQ (freed s) = readyQ s" "pending (freed s) = 0"
  "interrupts (freed s) = interrupts s" "wait_queues (freed s) = wait_queues s" "locks (freed s) = locks s"
  "cvs (freed s) = cvs s" "stacks (freed s) = stacks s - {pending s}"
  by (simp_all add: freed_def)

lemma free_pending_eq: "stacks_ok s \<Longrightarrow> free_pending (s\<lparr>interrupts := b\<rparr>) = Inr ((freed s)\<lparr>interrupts := b\<rparr>)"
  by (auto simp: free_pending_def free_stack_def freed_def stacks_ok_def)

lemma stacks_ok_freed: "stacks_ok s \<Longrightarrow> stacks_ok (freed s)"
  by (auto simp: stacks_ok_def)

lemma sched_ok_cong:
  assumes s: "sched_ok s Q" and T: "length (TCB s') = length (TCB s)" "\<And>i. i < THREAD_MAX_THREADS \<Longrightarrow>
      isValid (TCB s' ! i) = isValid (TCB s ! i) \<and> index (TCB s' ! i) = index (TCB s ! i)
      \<and> thread_context (TCB s' ! i) = thread_context (TCB s ! i) \<and> next_thread (TCB s' ! i) = next_thread (TCB s ! i)"
    and "stacks_ok s'" "current s' = current s" "readyQ s' = readyQ s" "wait_queues s' = wait_queues s"
  shows "sched_ok s' Q"
proof -
  have "queues_ok s' Q" by (rule queues_ok_cong [OF _ _ _ _ so_queues [OF s]]) (use T so_length [OF s] assms in simp_all)
  moreover have act: "active s' Q i = active s Q i" for i by (simp add: active_def assms)
  moreover have "ctx_ok (TCB s') G = ctx_ok (TCB s) G" for G
    using T so_length [OF s] by (cases "(TCB s, G)" rule: ctx_ok.cases) auto
  moreover have "i < THREAD_MAX_THREADS" if "i \<in> set (Q a)" for i a using that by (rule qo_in [OF so_queues [OF s]])
  ultimately show ?thesis
    using s T active_lt [OF s] assms(4-7) unfolding sched_ok_def saved_def by metis
qed

lemma sched_ok_interrupts [simp]: "sched_ok (s\<lparr>interrupts := b\<rparr>) = sched_ok s"
  by (rule ext) (auto simp: sched_ok_def queues_ok_def queue_at_def stacks_ok_def active_def saved_def cong: option.case_cong)

lemma sched_ok_freed: "sched_ok s Q \<Longrightarrow> sched_ok (freed s) Q"
  by (rule sched_ok_cong) (simp_all add: stacks_ok_freed so_stacks)

lemma so_head: "sched_ok s Q \<Longrightarrow> head (readyQ s) = (case Q 0 of [] \<Rightarrow> None | x # _ \<Rightarrow> Some x)"
  by (rule qo_head [OF so_queues])

lemma yield_any_none:
  assumes s: "sched_ok s Q" and e: "Q 0 = []"
  shows "thread_yield THREAD_ANY fs s = Inr (Ret fs THREAD_NONE, freed s)"
  using free_pending_eq [OF so_stacks [OF s]] so_head [OF s] e
  by (simp add: thread_yield_def interrupts_set_def finish_def Let_def)

lemma yield_self:
  assumes s: "sched_ok s Q" and "tid = THREAD_SELF \<or> tid = int (current s)"
  shows "thread_yield tid fs s = Inr (Ret fs (int (current s)), freed s)"
  using free_pending_eq [OF so_stacks [OF s]] assms(2)
  by (auto simp: thread_yield_def interrupts_set_def finish_def Let_def)

text \<open>The saved context of the current thread, and the queues after it.\<close>

lemma getcontext_ok:
  assumes q: "queues_ok s Q" and c: "c < THREAD_MAX_THREADS" "\<And>a. c \<notin> set (Q a)"
  shows "getcontext (Some c) F s = Inr (s\<lparr>TCB := (TCB s)[c := (TCB s ! c)\<lparr>thread_context := \<lparr>frames = F, sigmask = \<not> interrupts s\<rparr>\<rparr>]\<rparr>)"
    "queues_ok (s\<lparr>TCB := (TCB s)[c := (TCB s ! c)\<lparr>thread_context := \<lparr>frames = F, sigmask = \<not> interrupts s\<rparr>\<rparr>]\<rparr>) Q"
  using c qo_length [OF q] queues_ok_unqueued [OF q] by (simp_all add: getcontext_def)

text \<open>A thread that is not the head of the ready queue.\<close>

lemma not_head:
  assumes s: "sched_ok s Q" and r: "Q 0 = x # xs" and i: "i = current s \<or> i \<in> set xs \<or> a \<noteq> 0 \<and> i \<in> set (Q a)"
  shows "i \<noteq> x" "active s Q i"
proof -
  note q = so_queues [OF s]
  have "x \<in> set (Q 0)" "set xs \<subseteq> set (Q 0)" "x \<notin> set xs" using r qo_distinct [OF q, of 0] by auto
  moreover have "a \<noteq> 0 \<Longrightarrow> set (Q a) \<inter> set (Q 0) = {}" by (rule qo_disjoint [OF q])
  ultimately show "i \<noteq> x" "active s Q i" using i so_not_queued [OF s, of 0] by (auto simp: active_def)
qed

text \<open>The last step of a switch, to the thread \<open>x\<close>.\<close>

lemma switch_to:
  assumes s: "sched_ok s Q" and sw: "switched s F s'" and F: "ctx_ok (TCB s) F" and q: "queues_ok s' Q'"
    and x: "x \<in> set (Q 0)" and act: "\<And>a i. i \<in> set (Q' a) \<Longrightarrow> i \<noteq> x \<and> active s Q i"
    and t: "Q' 0 = [] \<Longrightarrow> tail (readyQ s') = Some x"
  shows "setcontext (Some x) (s'\<lparr>current_thread_id := x\<rparr>) = Inr (fst (resume_of (saved s x)),
      s'\<lparr>current_thread_id := x, interrupts := snd (resume_of (saved s x))\<rparr>)"
    "sched_ok (s'\<lparr>current_thread_id := x\<rparr>) Q'" "switched s F (s'\<lparr>current_thread_id := x\<rparr>)"
    "thread_at (Some x) s' = Inr (TCB s' ! x)" "index (TCB s' ! x) = x"
proof -
  let ?s = "s'\<lparr>current_thread_id := x\<rparr>"
  show sw': "switched s F ?s" using sw by (simp add: switched_def)
  have "queues_ok ?s Q'" by (rule queues_ok_cong [OF _ _ _ _ q]) simp_all
  from sched_ok_switched [OF s sw' F this _ x] act t show ok: "sched_ok ?s Q'" by simp
  have xl: "x < THREAD_MAX_THREADS" "x \<noteq> current s" "length (TCB s') = THREAD_MAX_THREADS"
    using qo_in [OF so_queues [OF s] x] so_not_queued [OF s, of 0] x so_length [OF ok] by auto
  show "thread_at (Some x) s' = Inr (TCB s' ! x)" using xl by simp
  show "index (TCB s' ! x) = x" using sw so_index [OF s, of x] x xl by (simp add: switched_def)
  have "saved ?s x = saved s x" "sigmask (thread_context (TCB ?s ! x))"
    using sw xl so_mask [OF s x] by (simp_all add: switched_def saved_def)
  moreover have "ctx_ok (TCB ?s) (saved s x)"
    using so_ctx [OF s x] sw so_length [OF s] by (cases "(TCB s, saved s x)" rule: ctx_ok.cases) (auto simp: switched_def)
  ultimately show "setcontext (Some x) ?s = Inr (fst (resume_of (saved s x)),
      s'\<lparr>current_thread_id := x, interrupts := snd (resume_of (saved s x))\<rparr>)"
    using setcontext_eq [of x ?s] xl by simp
qed

text \<open>
  The result of a switch from \<open>s\<close>, with \<open>F\<close> saved for the caller, to \<open>x\<close>: the calls of \<open>x\<close> that
  were in progress go on, in a state \<open>s'\<close> with the queues \<open>Q'\<close>.
\<close>

definition goes_to :: "step \<Rightarrow> sched \<Rightarrow> frame list \<Rightarrow> nat \<Rightarrow> (addr \<Rightarrow> nat list) \<Rightarrow> bool" where
  "goes_to m s F x Q' \<longleftrightarrow> (\<exists>s'. m = Inr (fst (resume_of (saved s x)), s') \<and> sched_ok s' Q' \<and> current s' = x
     \<and> interrupts s' = snd (resume_of (saved s x)) \<and> switched s F s')"

lemma goes_toI:
  assumes s: "sched_ok s Q" and sw: "switched s F s'" and F: "ctx_ok (TCB s) F" and q: "queues_ok s' Q'"
    and x: "x \<in> set (Q 0)" and act: "\<And>a i. i \<in> set (Q' a) \<Longrightarrow> i \<noteq> x \<and> active s Q i"
    and t: "Q' 0 = [] \<Longrightarrow> tail (readyQ s') = Some x"
    and m: "m = setcontext (Some x) (s'\<lparr>current_thread_id := x\<rparr>)"
  shows "goes_to m s F x Q'"
  using switch_to [OF s sw F q x act t] unfolding goes_to_def m switched_def by simp

lemma saved_freed [simp]: "saved (freed s) = saved s"
  by (simp add: saved_def fun_eq_iff)

lemma yield_any_some:
  assumes s: "sched_ok s Q" and r: "Q 0 = x # xs"
  shows "goes_to (thread_yield THREAD_ANY fs s) (freed s) (FYieldAny (Some x) (interrupts s) # fs) x
    (Q(0 := xs @ [current s]))"
proof -
  let ?c = "current s" and ?F = "FYieldAny (Some x) (interrupts s) # fs"
  let ?s0 = "(freed s)\<lparr>interrupts := False\<rparr>"
  have f: "sched_ok (freed s) Q" by (rule sched_ok_freed [OF s])
  then have ok0: "sched_ok ?s0 Q" by simp
  note q0 = so_queues [OF ok0] and len = so_length [OF s] and c = so_current [OF s] and nq = so_not_queued [OF s]
  let ?T1 = "link (TCB s) ?c None"
  let ?s1 = "?s0\<lparr>TCB := ?T1\<rparr>"
  have q1: "queues_ok ?s1 Q" using queues_ok_unqueued [OF q0, of ?c] nq by simp
  let ?s2 = "?s1\<lparr>TCB := ?T1[?c := (?T1 ! ?c)\<lparr>thread_context := \<lparr>frames = ?F, sigmask = True\<rparr>\<rparr>]\<rparr>"
  note g = getcontext_ok [OF q1 c nq, of ?F, simplified]
  have q2: "queues_ok ?s2 Q" using g(2) c len by simp
  from ready_append_ok [OF q2 _ c nq] r obtain s3 where s3: "ready_append (Some ?c) ?s2 = Inr s3"
    "queues_ok s3 (Q(0 := Q 0 @ [?c]))" "only_queues ?s2 s3" "wait_queues s3 = wait_queues ?s2" by auto
  from ready_pop_ok [OF s3(2), of x "xs @ [?c]"] r obtain s4 where s4: "ready_pop s3 = Inr s4"
    "queues_ok s4 (Q(0 := xs @ [?c]))" "only_queues s3 s4" by auto
  have x: "x \<in> set (Q 0)" "x < THREAD_MAX_THREADS" using qo_in [OF so_queues [OF s], of x 0] r by auto
  have oq: "only_queues ?s2 s4" by (rule only_queues_trans [OF s3(3) s4(3)])
  have "map core (TCB ?s2) = map core ((TCB s)[?c := (TCB s ! ?c)\<lparr>thread_context := \<lparr>frames = ?F, sigmask = True\<rparr>\<rparr>])"
    using c len by (simp add: map_update core_def)
  then have sw: "switched (freed s) ?F s4"
    using oq c len by (intro switchedI) (simp_all add: only_queues_def)
  have F: "ctx_ok (TCB (freed s)) ?F" using x len so_index [OF s, of x] by simp
  have act: "i \<noteq> x \<and> active (freed s) Q i" if "i \<in> set ((Q(0 := xs @ [?c])) a)" for a i
    using that not_head [OF s r, of i a] by (auto simp: active_def split: if_splits)
  note sw_to = switch_to [OF f sw F s4(2) x(1) act]
  have "thread_yield THREAD_ANY fs s = setcontext (Some x) (s4\<lparr>current_thread_id := x\<rparr>)"
    using free_pending_eq [OF so_stacks [OF s]] so_head [OF s] r c len g(1) s3(1) s4(1) x(2) sw_to(4,5)
    by (simp add: thread_yield_def interrupts_set_def Let_def)
  from goes_toI [OF f sw F s4(2) x(1) act _ this] show ?thesis by simp
qed

lemma found_ready:
  assumes s: "sched_ok s Q" and r: "Q 0 = xs @ x # ys"
  shows "find_ready THREAD_MAX_THREADS (int x) pre (head (readyQ s)) s
    = Inr (Some (if xs = [] then pre else Some (last xs), Some x))"
proof (rule find_ready_some)
  note q = so_queues [OF s]
  show "chain (TCB s) (head (readyQ s)) (xs @ x # ys)" using qo_ready [OF q] r by (simp add: holds_queue_def)
  show "length xs < THREAD_MAX_THREADS" using queue_length [OF q, of 0] r by simp
  show "int (index (TCB s ! i)) \<noteq> int x" if "i \<in> set xs" for i
  proof -
    have "i \<in> set (Q 0)" "i \<noteq> x" using that r qo_distinct [OF q, of 0] by auto
    then show ?thesis using so_index [OF s, of i] by simp
  qed
  have "x \<in> set (Q 0)" using r by simp
  then have "active s Q x" by (rule active_simps(2))
  with so_index [OF s this] show "int (index (TCB s ! x)) = int x" by simp
qed

lemma not_found_ready:
  assumes s: "sched_ok s Q" and r: "\<And>i. i \<in> set (Q 0) \<Longrightarrow> int i \<noteq> tid"
  shows "find_ready THREAD_MAX_THREADS tid pre (head (readyQ s)) s = Inr None"
proof (rule find_ready_none)
  note q = so_queues [OF s]
  show "chain (TCB s) (head (readyQ s)) (Q 0)" using qo_ready [OF q] by (simp add: holds_queue_def)
  show "length (Q 0) \<le> THREAD_MAX_THREADS" by (rule queue_length [OF q])
  show "int (index (TCB s ! i)) \<noteq> tid" if "i \<in> set (Q 0)" for i using r [OF that] so_index [OF s, of i] that by simp
qed

lemma yield_to_some:
  assumes s: "sched_ok s Q" and r: "Q 0 = xs @ x # ys"
  shows "goes_to (thread_yield (int x) fs s) (freed s) (FYieldTo (int x) (interrupts s) # fs) x
    (Q(0 := xs @ ys @ [current s]))"
proof -
  let ?c = "current s" and ?F = "FYieldTo (int x) (interrupts s) # fs"
  let ?s0 = "(freed s)\<lparr>interrupts := False\<rparr>"
  have f: "sched_ok (freed s) Q" by (rule sched_ok_freed [OF s])
  then have ok0: "sched_ok ?s0 Q" by simp
  note q0 = so_queues [OF ok0] and len = so_length [OF s] and c = so_current [OF s] and nq = so_not_queued [OF s]
  have x: "x \<in> set (Q 0)" "x < THREAD_MAX_THREADS" "x \<noteq> ?c"
    using qo_in [OF so_queues [OF s], of x 0] r nq [of 0] by auto
  let ?s2 = "?s0\<lparr>TCB := (TCB s)[?c := (TCB s ! ?c)\<lparr>thread_context := \<lparr>frames = ?F, sigmask = True\<rparr>\<rparr>]\<rparr>"
  note g = getcontext_ok [OF q0 c nq, of ?F, simplified]
  have q2: "queues_ok ?s2 Q" using g(2) c len by simp
  from ready_append_ok [OF q2 _ c nq] r obtain s3 where s3: "ready_append (Some ?c) ?s2 = Inr s3"
    "queues_ok s3 (Q(0 := Q 0 @ [?c]))" "only_queues ?s2 s3" "wait_queues s3 = wait_queues ?s2" by auto
  have "(Q(0 := Q 0 @ [?c])) 0 = xs @ x # (ys @ [?c])" using r by simp
  then obtain s4 where s4: "unlink_ready (if xs = [] then None else Some (last xs)) (Some x) s3 = Inr s4"
    "queues_ok s4 (Q(0 := xs @ ys @ [?c]))" "only_queues s3 s4"
  proof (rule unlink_ready_ok [OF s3(2)])
    fix t assume "unlink_ready (if xs = [] then None else Some (last xs)) (Some x) s3 = Inr t" "only_queues s3 t"
      and "ys @ [?c] \<noteq> [] \<Longrightarrow> queues_ok t ((Q(0 := Q 0 @ [?c]))(0 := xs @ ys @ [?c]))"
    then show thesis using that [of t] by simp
  qed
  have oq: "only_queues ?s2 s4" by (rule only_queues_trans [OF s3(3) s4(3)])
  then have sw: "switched (freed s) ?F s4"
    using c len by (intro switchedI) (simp_all add: only_queues_def)
  have act: "i \<noteq> x \<and> active (freed s) Q i" if "i \<in> set ((Q(0 := xs @ ys @ [?c])) a)" for a i
  proof -
    have "x \<notin> set (xs @ ys @ [?c])" "set (xs @ ys) \<subseteq> set (Q 0)" "a \<noteq> 0 \<Longrightarrow> x \<notin> set (Q a)"
      using qo_distinct [OF so_queues [OF s], of 0] qo_disjoint [OF so_queues [OF s], of a 0] x(1,3) r by auto
    with that show ?thesis by (auto simp: active_def split: if_splits)
  qed
  have valid: "isValid (TCB s ! x)" using so_valid [OF s, of x] x(1) by simp
  have "thread_yield (int x) fs s = setcontext (Some x) (s4\<lparr>current_thread_id := x\<rparr>)"
    using free_pending_eq [OF so_stacks [OF s]] r c len g(1) s3(1) s4(1) x valid found_ready [OF ok0 r]
    by (simp add: thread_yield_def interrupts_set_def Let_def thread_ret_ok_def)
  from goes_toI [OF f sw _ s4(2) x(1) act _ this] show ?thesis by simp
qed

section \<open>Sleeping and waking up\<close>

lemma sleep_none:
  assumes "sched_ok s Q" "a = 0 \<or> Q 0 = []"
  shows "thread_sleep a fs s = Inr (Ret fs (if a = 0 then THREAD_INVALID else THREAD_NONE), s)"
  using so_head [OF assms(1)] assms(2) by (auto simp: thread_sleep_def interrupts_set_def finish_def)

lemma sleep_some:
  assumes s: "sched_ok s Q" and a: "wait_queues s a = Some r" and r: "Q 0 = x # xs"
  shows "goes_to (thread_sleep a fs s) s (FSleep (Some x) (interrupts s) # fs) x (Q(a := Q a @ [current s], 0 := xs))"
proof -
  let ?c = "current s" and ?F = "FSleep (Some x) (interrupts s) # fs"
  let ?s0 = "s\<lparr>interrupts := False\<rparr>"
  have ok0: "sched_ok ?s0 Q" using s by simp
  note q0 = so_queues [OF ok0] and len = so_length [OF s] and c = so_current [OF s] and nq = so_not_queued [OF s]
  have a0: "a \<noteq> 0" using qo_null [OF so_queues [OF s]] a by auto
  have x: "x \<in> set (Q 0)" "x < THREAD_MAX_THREADS" using qo_in [OF so_queues [OF s], of x 0] r by auto
  let ?s2 = "?s0\<lparr>TCB := (TCB s)[?c := (TCB s ! ?c)\<lparr>thread_context := \<lparr>frames = ?F, sigmask = True\<rparr>\<rparr>]\<rparr>"
  note g = getcontext_ok [OF q0 c nq, of ?F, simplified]
  have q2: "queues_ok ?s2 Q" using g(2) c len by simp
  have "wait_queues ?s2 a = Some r" using a by simp
  from wait_append_ok [OF q2 this c nq] obtain s3 where s3: "wait_append a (Some ?c) ?s2 = Inr s3"
    "queues_ok s3 (Q(a := Q a @ [?c]))" "only_queues ?s2 s3" "readyQ s3 = readyQ ?s2" by metis
  have "(Q(a := Q a @ [?c])) 0 = x # xs" using a0 r by simp
  from ready_pop_ok [OF s3(2) this] obtain s4 where s4: "ready_pop s3 = Inr s4"
    "queues_ok s4 (Q(a := Q a @ [?c], 0 := xs))" "only_queues s3 s4" "tail (readyQ s4) = tail (readyQ s3)" by metis
  have oq: "only_queues ?s2 s4" by (rule only_queues_trans [OF s3(3) s4(3)])
  then have sw: "switched s ?F s4"
    using c len by (intro switchedI) (simp_all add: only_queues_def)
  have act: "i \<noteq> x \<and> active s Q i" if "i \<in> set ((Q(a := Q a @ [?c], 0 := xs)) b)" for b i
    using that not_head [OF s r, of i b] by (auto split: if_splits)
  have F: "ctx_ok (TCB s) ?F" using x len so_index [OF s, of x] by simp
  have t: "tail (readyQ s4) = Some x" if "(Q(a := Q a @ [?c], 0 := xs)) 0 = []"
    using that s4(4) s3(4) qo_tail [OF so_queues [OF s]] r by simp
  note sw_to = switch_to [OF s sw F s4(2) x(1) act t]
  have "thread_sleep a fs s = setcontext (Some x) (s4\<lparr>current_thread_id := x\<rparr>)"
    using so_head [OF s] r a0 g(1) s3(1) s4(1) sw_to(4,5)
    by (simp add: thread_sleep_def interrupts_set_def)
  from goes_toI [OF s sw F s4(2) x(1) act t this] show ?thesis by simp
qed

text \<open>An operation on queues that stays in the current thread.\<close>

definition runnable :: "sched \<Rightarrow> nat \<Rightarrow> bool" where
  "runnable s i \<longleftrightarrow> i < THREAD_MAX_THREADS \<and> i \<noteq> current s \<and> isValid (TCB s ! i) \<and> index (TCB s ! i) = i
     \<and> ctx_ok (TCB s) (saved s i) \<and> sigmask (thread_context (TCB s ! i))"

lemma queued_runnable: "sched_ok s Q \<Longrightarrow> i \<in> set (Q a) \<Longrightarrow> runnable s i"
  using so_not_queued so_valid so_index so_ctx so_mask qo_in [OF so_queues] unfolding runnable_def
  by (metis active_simps(2))

lemma sched_ok_requeue:
  assumes s: "sched_ok s Q" and T: "map core (TCB s') = map core (TCB s)" and cur: "current s' = current s"
    and st: "stacks s' = stacks s" "pending s' = pending s" and q: "queues_ok s' Q'"
    and sub: "\<And>a i. i \<in> set (Q' a) \<Longrightarrow> runnable s i"
    and t: "Q' 0 = [] \<Longrightarrow> tail (readyQ s') = None \<or> tail (readyQ s') = Some (current s)"
  shows "sched_ok s' Q'"
proof -
  note T' = core_eq [OF T] and len = so_length [OF s]
  have ctx: "ctx_ok (TCB s') G = ctx_ok (TCB s) G" for G by (rule ctx_ok_cong) (use T' in simp_all)
  have "stacks_ok s'" by (rule stacks_ok_cong [OF so_stacks [OF s] st]) (use T' len in simp)
  moreover have "isValid (TCB s' ! i) \<and> index (TCB s' ! i) = i" if "active s' Q' i" for i
    using that sub so_valid [OF s, of "current s"] so_index [OF s, of "current s"] so_current [OF s] T' len cur
    by (auto simp: active_def runnable_def)
  moreover have "ctx_ok (TCB s') (saved s' i) \<and> sigmask (thread_context (TCB s' ! i))" if i: "i \<in> set (Q' a)" for i a
    using sub [OF i] T'(6) len ctx by (simp add: runnable_def saved_def)
  moreover have "current s' \<notin> set (Q' a)" for a using sub cur by (auto simp: runnable_def)
  ultimately show ?thesis unfolding sched_ok_def using q t cur so_current [OF s] by simp
qed

lemma sched_ok_queues:
  assumes s: "sched_ok s Q" and oq: "only_queues s s'" and q: "queues_ok s' Q'"
    and sub: "\<And>a i. i \<in> set (Q' a) \<Longrightarrow> runnable s i"
    and t: "Q' 0 = [] \<Longrightarrow> tail (readyQ s') = None \<or> tail (readyQ s') = Some (current s)"
  shows "sched_ok s' Q'"
  by (rule sched_ok_requeue [OF s _ _ _ _ q sub t]) (use oq in \<open>simp_all add: only_queues_def\<close>)

text \<open>A call that returns \<open>r\<close> to its caller, and has changed queues only.\<close>

definition returns :: "step \<Rightarrow> sched \<Rightarrow> frame list \<Rightarrow> int \<Rightarrow> (addr \<Rightarrow> nat list) \<Rightarrow> bool" where
  "returns m s fs r Q' \<longleftrightarrow> (\<exists>s'. m = Inr (Ret fs r, s') \<and> sched_ok s' Q' \<and> only_queues s s')"

lemma wakeup_none:
  assumes s: "sched_ok s Q" and "a = 0 \<or> wait_queues s a \<noteq> None \<and> Q a = []"
  shows "thread_wakeup a all fs s = Inr (Ret fs 0, s)"
proof (cases "a = 0")
  case True
  then show ?thesis by (simp add: thread_wakeup_def interrupts_set_def finish_def)
next
  case False
  with assms(2) obtain r where r: "wait_queues s a = Some r" "Q a = []" by auto
  then have "head r = None" using qo_wait [OF so_queues [OF s] r(1)] by (simp add: holds_queue_def)
  with r False show ?thesis by (simp add: thread_wakeup_def interrupts_set_def finish_def lookup_def)
qed

lemma wakeup_all:
  assumes s: "sched_ok s Q" and a: "wait_queues s a = Some r"
  shows "returns (thread_wakeup a True fs s) s fs (int (length (Q a))) (Q(0 := Q 0 @ Q a, a := []))"
proof (cases "Q a = []")
  case True
  then have "Q(0 := Q 0 @ Q a, a := []) = Q" by auto
  with wakeup_none [OF s, of a True fs] a True s show ?thesis by (simp add: returns_def)
next
  case False
  have a0: "a \<noteq> 0" using qo_null [OF so_queues [OF s]] a by auto
  let ?s0 = "s\<lparr>interrupts := False\<rparr>" and ?e = "\<lparr>head = None, tail = None\<rparr> :: queue"
  have q0: "queues_ok ?s0 Q" and ok0: "sched_ok ?s0 Q" using so_queues [of ?s0 Q] s by simp_all
  obtain h0 where hr: "head r = Some h0" using qo_wait [OF so_queues [OF s] a] False by (cases "Q a") (auto simp: holds_queue_def)
  obtain s1 where s1: "wake_all r ?s0 = Inr s1" "only_queues ?s0 s1" "wait_queues s1 = wait_queues ?s0"
    "chain (TCB s1) (head r) (Q a)"
    "queues_ok (s1\<lparr>wait_queues := (wait_queues s1)(a \<mapsto> ?e)\<rparr>) (Q(0 := Q 0 @ Q a, a := []))"
    by (rule wake_all_ok [OF q0 _ False, of r]) (use a in simp_all)
  let ?s2 = "s1\<lparr>wait_queues := (wait_queues s1)(a \<mapsto> ?e)\<rparr>"
  have "only_queues ?s0 ?s2" using s1(2,3) a by (auto simp: only_queues_def)
  moreover have "(Q(0 := Q 0 @ Q a, a := [])) 0 \<noteq> []" using False a0 by simp
  moreover have "runnable ?s0 i" if "i \<in> set ((Q(0 := Q 0 @ Q a, a := [])) b)" for b i
    using that queued_runnable [OF ok0] by (auto split: if_splits)
  ultimately have "sched_ok ?s2 (Q(0 := Q 0 @ Q a, a := []))"
    by (intro sched_ok_queues [OF ok0 _ s1(5)]) blast+
  moreover have "thread_wakeup a True fs s = Inr (Ret fs (int (length (Q a))), ?s2\<lparr>interrupts := interrupts s\<rparr>)"
    using s1(1) count_chain_eq [OF s1(4) queue_length [OF q0]] a a0 hr
    by (simp add: thread_wakeup_def interrupts_set_def finish_def lookup_def)
  moreover have "only_queues s (?s2\<lparr>interrupts := interrupts s\<rparr>)"
    using s1(2,3) a by (auto simp: only_queues_def)
  ultimately show ?thesis by (simp add: returns_def)
qed

lemma wakeup_one:
  assumes s: "sched_ok s Q" and a: "wait_queues s a = Some r" and ne: "Q a = x # xs"
  shows "returns (thread_wakeup a False fs s) s fs 1 (Q(0 := Q 0 @ [x], a := xs))"
proof -
  have a0: "a \<noteq> 0" using qo_null [OF so_queues [OF s]] a by auto
  let ?s0 = "s\<lparr>interrupts := False\<rparr>"
  have q0: "queues_ok ?s0 Q" and ok0: "sched_ok ?s0 Q" using so_queues [of ?s0 Q] s by simp_all
  obtain h0 where hr: "head r = Some h0" using qo_wait [OF so_queues [OF s] a] ne by (auto simp: holds_queue_def)
  obtain s1 where s1: "wake_one a r ?s0 = Inr s1" "only_queues ?s0 s1" "queues_ok s1 (Q(0 := Q 0 @ [x], a := xs))"
    by (rule wake_one_ok [OF q0 _ ne, of r]) (use a in simp_all)
  have "x \<in> set (Q a)" "\<And>i. i \<in> set xs \<Longrightarrow> i \<in> set (Q a)" using ne by simp_all
  then have "runnable ?s0 i" if "i \<in> set ((Q(0 := Q 0 @ [x], a := xs)) b)" for b i
    using that queued_runnable [OF ok0] by (auto split: if_splits)
  then have "sched_ok s1 (Q(0 := Q 0 @ [x], a := xs))"
    using a0 by (intro sched_ok_queues [OF ok0 s1(2,3)]) auto
  moreover have "thread_wakeup a False fs s = Inr (Ret fs 1, s1\<lparr>interrupts := interrupts s\<rparr>)"
    using s1(1) a a0 hr by (simp add: thread_wakeup_def interrupts_set_def finish_def lookup_def)
  moreover have "only_queues s (s1\<lparr>interrupts := interrupts s\<rparr>)"
    using s1(2) by (simp add: only_queues_def)
  ultimately show ?thesis by (simp add: returns_def)
qed

section \<open>Exit, kill and create\<close>

lemma exit_none:
  assumes s: "sched_ok s Q" and e: "Q 0 = []"
  shows "thread_exit fs s = Inr (Ret fs THREAD_NONE, freed s)"
  using free_pending_eq [OF so_stacks [OF s]] so_head [OF s] e
  by (simp add: thread_exit_def interrupts_set_def finish_def Let_def)

lemma stacks_ok_exit:
  assumes "stacks_ok s" "pending s = 0" "c < THREAD_MAX_THREADS" "isValid (TCB s ! c)"
    and "stacks s' = stacks s" "pending s' = stack_memory (TCB s ! c)"
    and "\<And>i. i < THREAD_MAX_THREADS \<Longrightarrow> isValid (TCB s' ! i) = (isValid (TCB s ! i) \<and> i \<noteq> c)
      \<and> stack_memory (TCB s' ! i) = stack_memory (TCB s ! i)"
  shows "stacks_ok s'"
  using assms unfolding stacks_ok_def by auto

lemma exit_some:
  assumes s: "sched_ok s Q" and r: "Q 0 = x # xs"
  obtains s' where "thread_exit fs s = Inr (fst (resume_of (saved s x)), s')" "sched_ok s' (Q(0 := xs))"
    "current s' = x" "interrupts s' = snd (resume_of (saved s x))" "\<not> isValid (TCB s' ! current s)"
    "stacks s' = stacks s - {pending s}" "pending s' = stack_memory (TCB s ! current s)"
    "\<And>i. i \<noteq> current s \<Longrightarrow> TCB s' ! i = TCB s ! i" "wait_queues s' = wait_queues s" "locks s' = locks s" "cvs s' = cvs s"
proof -
  let ?c = "current s"
  let ?s0 = "(freed s)\<lparr>interrupts := False\<rparr>"
  have ok0: "sched_ok ?s0 Q" using sched_ok_freed [OF s] by simp
  note q0 = so_queues [OF ok0] and len = so_length [OF s] and c = so_current [OF s] and nq = so_not_queued [OF s]
  let ?T = "(TCB s)[?c := (TCB s ! ?c)\<lparr>isValid := False\<rparr>]"
  let ?s1 = "?s0\<lparr>TCB := ?T\<rparr>"
  have q1: "queues_ok ?s1 Q" using queues_ok_unqueued [OF q0, of ?c] nq by simp
  from ready_pop_ok [OF q1 r] obtain s2 where s2: "ready_pop ?s1 = Inr s2" "queues_ok s2 (Q(0 := xs))"
    "only_queues ?s1 s2" "wait_queues s2 = wait_queues ?s1" "tail (readyQ s2) = tail (readyQ ?s1)" "TCB s2 = TCB ?s1" by metis
  let ?m = "stack_memory (TCB s ! ?c)"
  let ?s4 = "s2\<lparr>stack_mem_to_be_deleted := ?m, current_thread_id := x\<rparr>"
  have x: "x \<in> set (Q 0)" "x < THREAD_MAX_THREADS" "x \<noteq> ?c"
    using qo_in [OF so_queues [OF s], of x 0] r nq [of 0] by auto
  have oth: "TCB ?s4 ! i = TCB s ! i" if "i \<noteq> ?c" for i using that s2(6) by simp
  have same: "i \<noteq> x \<and> i \<noteq> ?c \<and> (\<exists>b. i \<in> set (Q b))" if "i \<in> set ((Q(0 := xs)) a)" for a i
  proof -
    have "\<exists>b. i \<in> set (Q b)" using that r by (cases "a = 0") (auto intro: exI [of _ 0])
    then show ?thesis using that not_head [OF s r, of i a] nq by (auto split: if_splits)
  qed
  have ctx: "ctx_ok (TCB ?s4) F = ctx_ok (TCB s) F" for F
  proof (rule ctx_ok_cong)
    show "index (TCB ?s4 ! i) = index (TCB s ! i)" for i using s2(6) c len by (cases "i = ?c") simp_all
  qed (use s2(6) in simp)
  have v: "isValid (TCB s ! ?c)" using so_valid [OF s] by simp
  have st: "stacks_ok ?s4"
  proof (rule stacks_ok_exit [OF stacks_ok_freed [OF so_stacks [OF s]] _ c])
    have "TCB ?s4 ! i = (if i = ?c then (TCB s ! ?c)\<lparr>isValid := False\<rparr> else TCB s ! i)" for i
      using s2(6) c len by (cases "i = ?c") simp_all
    then show "isValid (TCB ?s4 ! i) = (isValid (TCB (freed s) ! i) \<and> i \<noteq> ?c)
        \<and> stack_memory (TCB ?s4 ! i) = stack_memory (TCB (freed s) ! i)" for i by simp
  qed (use s2(3) v in \<open>simp_all add: only_queues_def\<close>)
  have q4: "queues_ok ?s4 (Q(0 := xs))" by (rule queues_ok_cong [OF _ _ _ _ s2(2)]) simp_all
  have t: "tail (readyQ s2) = Some x" if "xs = []" using that s2(5) qo_tail [OF so_queues [OF s]] r by simp
  have ok: "sched_ok ?s4 (Q(0 := xs))"
    unfolding sched_ok_def
  proof (intro conjI allI ballI impI)
    show "isValid (TCB ?s4 ! i)" "index (TCB ?s4 ! i) = i" if "active ?s4 (Q(0 := xs)) i" for i
    proof -
      have "i \<noteq> ?c" "active s Q i" using that same x by (auto simp: active_def)
      then show "isValid (TCB ?s4 ! i)" "index (TCB ?s4 ! i) = i" using oth so_valid [OF s] so_index [OF s] by simp_all
    qed
    show "ctx_ok (TCB ?s4) (saved ?s4 i)" "sigmask (thread_context (TCB ?s4 ! i))" if i: "i \<in> set ((Q(0 := xs)) a)" for a i
    proof -
      obtain b where b: "i \<in> set (Q b)" "i \<noteq> ?c" using same [OF i] by blast
      show "ctx_ok (TCB ?s4) (saved ?s4 i)" "sigmask (thread_context (TCB ?s4 ! i))"
        unfolding ctx saved_def oth [OF b(2)] using so_ctx [OF s b(1)] so_mask [OF s b(1)] by (simp_all add: saved_def)
    qed
    show "current ?s4 \<notin> set ((Q(0 := xs)) a)" for a using same [of x a] by auto
  qed (use q4 st x t in simp_all)
  have sx: "saved ?s4 x = saved s x" "thread_context (TCB ?s4 ! x) = thread_context (TCB s ! x)" "index (TCB s2 ! x) = x"
    using oth [OF x(3)] so_index [OF s, of x] x(1) by (simp_all add: saved_def)
  then have "setcontext (Some x) ?s4 = Inr (fst (resume_of (saved s x)), ?s4\<lparr>interrupts := snd (resume_of (saved s x))\<rparr>)"
    using setcontext_eq [of x ?s4] ctx so_ctx [OF s x(1)] so_mask [OF s x(1)] so_length [OF ok] x(2) by simp
  moreover have "thread_exit fs s = setcontext (Some x) ?s4"
    using free_pending_eq [OF so_stacks [OF s]] so_head [OF s] r c len s2(1,6) x(2) sx(3)
    by (simp add: thread_exit_def interrupts_set_def Let_def)
  moreover have "stacks s2 = stacks s - {pending s}" "locks s2 = locks s" "cvs s2 = cvs s"
    using s2(3) by (simp_all add: only_queues_def)
  ultimately show thesis
    using that [of "?s4\<lparr>interrupts := snd (resume_of (saved s x))\<rparr>"] ok oth s2(4,6) c len by simp
qed

lemma kill_invalid:
  assumes s: "sched_ok s Q" and t: "\<And>i. i \<in> set (Q 0) \<Longrightarrow> int i \<noteq> tid"
  shows "thread_kill tid fs s = Inr (Ret fs THREAD_INVALID, s)"
proof (cases "tid = int (current s) \<or> \<not> (0 \<le> tid \<and> tid < int THREAD_MAX_THREADS)")
  case True
  then show ?thesis by (auto simp: thread_kill_def interrupts_set_def finish_def)
next
  case False
  have "sched_ok (s\<lparr>interrupts := False\<rparr>) Q" using s by simp
  note nf = not_found_ready [OF this t]
  have "thread_at (Some (nat tid)) (s\<lparr>interrupts := False\<rparr>) = Inr (TCB s ! nat tid)"
    using False so_length [OF s] by (intro trans [OF thread_at_in]) auto
  with nf [of None] False show ?thesis
    by (simp add: thread_kill_def interrupts_set_def finish_def Let_def)
qed

lemma stacks_ok_facts:
  assumes "stacks_ok s"
  shows stk_in: "i < THREAD_MAX_THREADS \<Longrightarrow> isValid (TCB s ! i) \<Longrightarrow> stack_memory (TCB s ! i) = 0
      \<or> stack_memory (TCB s ! i) \<in> stacks s \<and> stack_memory (TCB s ! i) \<noteq> pending s"
    and stk_inj: "i < THREAD_MAX_THREADS \<Longrightarrow> j < THREAD_MAX_THREADS \<Longrightarrow> i \<noteq> j \<Longrightarrow> isValid (TCB s ! i) \<Longrightarrow> isValid (TCB s ! j)
      \<Longrightarrow> stack_memory (TCB s ! i) \<noteq> 0 \<Longrightarrow> stack_memory (TCB s ! i) \<noteq> stack_memory (TCB s ! j)"
    and stk_null: "0 \<notin> stacks s" and stk_pending: "pending s = 0 \<or> pending s \<in> stacks s"
  using assms unfolding stacks_ok_def by blast+

lemma stacks_okI:
  assumes "\<And>i. i < THREAD_MAX_THREADS \<Longrightarrow> isValid (TCB s ! i) \<Longrightarrow> stack_memory (TCB s ! i) = 0
      \<or> stack_memory (TCB s ! i) \<in> stacks s \<and> stack_memory (TCB s ! i) \<noteq> pending s"
    and "\<And>i j. i < THREAD_MAX_THREADS \<Longrightarrow> j < THREAD_MAX_THREADS \<Longrightarrow> i \<noteq> j \<Longrightarrow> isValid (TCB s ! i) \<Longrightarrow> isValid (TCB s ! j)
      \<Longrightarrow> stack_memory (TCB s ! i) \<noteq> 0 \<Longrightarrow> stack_memory (TCB s ! i) \<noteq> stack_memory (TCB s ! j)"
    and "0 \<notin> stacks s" "pending s = 0 \<or> pending s \<in> stacks s"
  shows "stacks_ok s"
  using assms unfolding stacks_ok_def by blast

lemma stacks_ok_kill:
  assumes s: "stacks_ok s" and x: "x < THREAD_MAX_THREADS" "isValid (TCB s ! x)"
    and st: "stacks s' = stacks s - (if x = 0 then {} else {stack_memory (TCB s ! x)})" "pending s' = pending s"
    and T: "\<And>i. i < THREAD_MAX_THREADS \<Longrightarrow> isValid (TCB s' ! i) = (isValid (TCB s ! i) \<and> i \<noteq> x)"
      "\<And>i. i < THREAD_MAX_THREADS \<Longrightarrow> i \<noteq> x \<Longrightarrow> stack_memory (TCB s' ! i) = stack_memory (TCB s ! i)"
  shows "stacks_ok s'"
proof (rule stacks_okI)
  show "stack_memory (TCB s' ! i) = 0 \<or> stack_memory (TCB s' ! i) \<in> stacks s' \<and> stack_memory (TCB s' ! i) \<noteq> pending s'"
    if i: "i < THREAD_MAX_THREADS" "isValid (TCB s' ! i)" for i
    using stk_in [OF s i(1)] stk_inj [OF s i(1) x(1) _ _ x(2)] T [OF i(1)] i(2) st by auto
  show "stack_memory (TCB s' ! i) \<noteq> stack_memory (TCB s' ! j)"
    if "i < THREAD_MAX_THREADS" "j < THREAD_MAX_THREADS" "i \<noteq> j" "isValid (TCB s' ! i)" "isValid (TCB s' ! j)"
      "stack_memory (TCB s' ! i) \<noteq> 0" for i j
    using stk_inj [OF s that(1-3)] that(4-6) T [OF that(1)] T [OF that(2)] by simp
  show "0 \<notin> stacks s'" using stk_null [OF s] st by simp
  have "pending s \<noteq> stack_memory (TCB s ! x)" if "pending s \<noteq> 0" using stk_in [OF s x] that by metis
  then show "pending s' = 0 \<or> pending s' \<in> stacks s'" unfolding st using stk_pending [OF s] by auto
qed

lemma kill_some:
  assumes s: "sched_ok s Q" and r: "Q 0 = xs @ x # ys"
  obtains s' where "thread_kill (int x) fs s = Inr (Ret fs (int x), s')" "sched_ok s' (Q(0 := xs @ ys))"
    "current s' = current s" "interrupts s' = interrupts s" "\<not> isValid (TCB s' ! x)"
    "stacks s' = stacks s - (if x = 0 then {} else {stack_memory (TCB s ! x)})" "pending s' = pending s"
    "\<And>i. i < THREAD_MAX_THREADS \<Longrightarrow> i \<noteq> x \<Longrightarrow> core (TCB s' ! i) = core (TCB s ! i)"
    "wait_queues s' = wait_queues s" "locks s' = locks s" "cvs s' = cvs s"
proof -
  let ?s0 = "s\<lparr>interrupts := False\<rparr>"
  have ok0: "sched_ok ?s0 Q" using s by simp
  note q0 = so_queues [OF ok0] and len = so_length [OF s] and q = so_queues [OF s]
  let ?pre = "if xs = [] then None else Some (last xs)"
  have x: "x \<in> set (Q 0)" "x < THREAD_MAX_THREADS" "x \<noteq> current s"
    using qo_in [OF q, of x 0] r so_not_queued [OF s, of 0] by auto
  have v: "isValid (TCB s ! x)" "index (TCB s ! x) = x" using so_valid [OF s, of x] so_index [OF s, of x] x(1) by simp_all
  have notin: "x \<notin> set ((Q(0 := xs @ ys)) a)" for a
    using qo_distinct [OF q, of 0] qo_disjoint [OF q, of a 0] x(1) r by auto
  obtain s1 where s1: "unlink_ready ?pre (Some x) ?s0 = Inr s1" "only_queues ?s0 s1" "wait_queues s1 = wait_queues ?s0"
    "get_next (Some x) s1 = Inr (case ys of [] \<Rightarrow> None | y # _ \<Rightarrow> Some y)" "tail (readyQ s1) = tail (readyQ ?s0)"
    "ys \<noteq> [] \<Longrightarrow> queues_ok s1 (Q(0 := xs @ ys))"
    "ys = [] \<Longrightarrow> queues_ok (s1\<lparr>readyQ := (readyQ s1)\<lparr>tail := ?pre\<rparr>\<rparr>) (Q(0 := xs))"
    by (rule unlink_ready_ok [OF q0 r], rule that) assumption+
  let ?s2 = "if ys = [] then s1\<lparr>readyQ := (readyQ s1)\<lparr>tail := ?pre\<rparr>\<rparr> else s1"
  have q2: "queues_ok ?s2 (Q(0 := xs @ ys))" using s1(6,7) by simp
  have T2: "TCB ?s2 = TCB s1" "wait_queues ?s2 = wait_queues s" "current ?s2 = current s" "stacks ?s2 = stacks s"
    "pending ?s2 = pending s" "locks ?s2 = locks s" "cvs ?s2 = cvs s"
    using s1(2,3) by (simp_all add: only_queues_def)
  have core: "map core (TCB s1) = map core (TCB s)" using s1(2) by (simp add: only_queues_def)
  note T1 = core_eq [OF core]
  have t: "(Q(0 := xs @ ys)) 0 = [] \<Longrightarrow> tail (readyQ ?s2) = None \<or> tail (readyQ ?s2) = Some (current s)" by simp
  have sl: "stack_memory (TCB s1 ! x) = stack_memory (TCB s ! x)" using T1(7) x len by simp
  let ?m = "stack_memory (TCB s ! x)"
  let ?st = "if x = 0 then stacks s else stacks s - {?m}"
  let ?th = "if x = 0 then (TCB s1 ! x)\<lparr>isValid := False\<rparr> else (TCB s1 ! x)\<lparr>isValid := False, stack_memory := 0\<rparr>"
  let ?s3 = "?s2\<lparr>TCB := (TCB s1)[x := ?th], stacks := ?st\<rparr>"
  have oth: "TCB ?s3 ! i = TCB s1 ! i" if "i \<noteq> x" for i using that by simp
  have isv: "isValid (TCB ?s3 ! x) = False" using T1(1) x len by simp
  have ixs: "index (TCB ?s3 ! i) = index (TCB s ! i)" if "i < THREAD_MAX_THREADS" for i
    using that T1(1,4) len by (cases "i = x") auto
  have q3: "queues_ok ?s3 (Q(0 := xs @ ys))"
    by (rule queues_ok_cong [OF _ _ _ _ queues_ok_unqueued [OF q2, of x ?th]]) (use notin T2 in simp_all)
  have ctx: "ctx_ok (TCB ?s3) F = ctx_ok (TCB s) F" for F
    by (rule ctx_ok_cong) (use T1(1) ixs len in auto)
  have old: "i \<noteq> x \<and> (\<exists>b. i \<in> set (Q b))" if i: "i \<in> set ((Q(0 := xs @ ys)) a)" for i a
  proof
    show "i \<noteq> x" using i notin [of a] by auto
    show "\<exists>b. i \<in> set (Q b)" using i r by (cases "a = 0") (auto intro: exI [of _ 0])
  qed
  have st: "stacks_ok ?s3"
  proof (rule stacks_ok_kill [OF so_stacks [OF s] x(2) v(1)])
    show "isValid (TCB ?s3 ! i) = (isValid (TCB s ! i) \<and> i \<noteq> x)" if "i < THREAD_MAX_THREADS" for i
      using that isv oth T1(3) len by (cases "i = x") simp_all
    show "stack_memory (TCB ?s3 ! i) = stack_memory (TCB s ! i)" if "i < THREAD_MAX_THREADS" "i \<noteq> x" for i
      using that oth T1(7) len by simp
  qed (use T2(5) in simp_all)
  have ok: "sched_ok ?s3 (Q(0 := xs @ ys))"
    unfolding sched_ok_def
  proof (intro conjI allI ballI impI)
    show "isValid (TCB ?s3 ! i)" "index (TCB ?s3 ! i) = i" if a: "active ?s3 (Q(0 := xs @ ys)) i" for i
    proof -
      have i: "i \<noteq> x" "active s Q i" using a old x T2(3) by (auto simp: active_def)
      have "i < THREAD_MAX_THREADS" by (rule active_lt [OF s i(2)])
      then show "isValid (TCB ?s3 ! i)" "index (TCB ?s3 ! i) = i"
        using oth [OF i(1)] so_valid [OF s i(2)] so_index [OF s i(2)] T1(3,4) len by simp_all
    qed
    show "ctx_ok (TCB ?s3) (saved ?s3 i)" "sigmask (thread_context (TCB ?s3 ! i))"
      if i: "i \<in> set ((Q(0 := xs @ ys)) a)" for a i
    proof -
      obtain b where b: "i \<in> set (Q b)" "i \<noteq> x" using old [OF i] by blast
      have "thread_context (TCB s1 ! i) = thread_context (TCB s ! i)" using T1(6) qo_in [OF q b(1)] len by simp
      then show "ctx_ok (TCB ?s3) (saved ?s3 i)" "sigmask (thread_context (TCB ?s3 ! i))"
        unfolding ctx saved_def oth [OF b(2)] using so_ctx [OF s b(1)] so_mask [OF s b(1)] by (simp_all add: saved_def)
    qed
    show "current ?s3 \<notin> set ((Q(0 := xs @ ys)) a)" for a using old so_not_queued [OF s] T2(3) by fastforce
  qed (use q3 st t T2 so_current [OF s] in simp_all)
  have fr: "free_stack ?m t = Inr (t\<lparr>stacks := stacks t - {?m}\<rparr>)" if "stacks t = stacks s" for t
    using stk_in [OF so_stacks [OF s] x(2) v(1)] stk_null [OF so_stacks [OF s]] that by (auto simp: free_stack_def)
  have lx: "x < length (TCB ?s2)" using T1(1) T2(1) x len by simp
  have "thread_kill (int x) fs s = Inr (Ret fs (int x), ?s3\<lparr>interrupts := interrupts s\<rparr>)"
    using s1(1,4) found_ready [OF ok0 r, of None] so_head [OF s] r x v lx sl T2 fr len
    by (cases ys) (simp_all add: thread_kill_def interrupts_set_def finish_def Let_def split: list.splits)
  then show thesis
    using that [of "?s3\<lparr>interrupts := interrupts s\<rparr>"] ok isv oth T1(2) T2 len by simp
qed

lemma free_slot_some:
  assumes "length (TCB s) = THREAD_MAX_THREADS" "\<not> isValid (TCB s ! j)" "j < THREAD_MAX_THREADS"
  shows "i \<le> j \<Longrightarrow> (\<And>k. i \<le> k \<Longrightarrow> k < j \<Longrightarrow> isValid (TCB s ! k)) \<Longrightarrow> free_slot i s = Inr (Some j)"
proof (induction "j - i" arbitrary: i)
  case 0
  then show ?case using assms by (subst free_slot.simps) simp
next
  case (Suc n)
  then have "free_slot (i + 1) s = Inr (Some j)" by simp
  then show ?case using assms Suc by (subst free_slot.simps) simp
qed

lemma free_slot_none:
  assumes "length (TCB s) = THREAD_MAX_THREADS"
  shows "i < THREAD_MAX_THREADS \<Longrightarrow> (\<And>k. i \<le> k \<Longrightarrow> k < THREAD_MAX_THREADS \<Longrightarrow> isValid (TCB s ! k)) \<Longrightarrow>
    free_slot i s = Inr None"
proof (induction "THREAD_MAX_THREADS - i" arbitrary: i)
  case (Suc n)
  show ?case
  proof (cases "i = THREAD_MAX_THREADS - 1")
    case True
    then show ?thesis using assms Suc.prems by (subst free_slot.simps) simp
  next
    case False
    then have "free_slot (i + 1) s = Inr None" using Suc by simp
    then show ?thesis using assms Suc.prems False by (subst free_slot.simps) simp
  qed
qed simp

definition new_thread :: "thread \<Rightarrow> nat \<Rightarrow> int \<Rightarrow> int \<Rightarrow> int \<Rightarrow> addr \<Rightarrow> thread" where
  "new_thread t j fn arg sp m = t\<lparr>isValid := True, index := j, next_thread := None,
     thread_context := \<lparr>frames = [FStub fn arg sp], sigmask = True\<rparr>, stack_memory := m\<rparr>"

lemma create_none:
  assumes s: "sched_ok s Q" and v: "\<And>i. i < THREAD_MAX_THREADS \<Longrightarrow> isValid (TCB s ! i)"
  shows "thread_create fn arg m fs s = Inr (Ret fs THREAD_NOMORE, s)"
  using free_slot_none [of "s\<lparr>interrupts := False\<rparr>" 0] so_length [OF s] v
  by (simp add: thread_create_def interrupts_set_def finish_def)

lemma sched_ok_new:
  assumes s: "sched_ok s Q" and j: "j < THREAD_MAX_THREADS" "\<not> isValid (TCB s ! j)"
    and m: "m = 0 \<and> S = stacks s \<or> m \<noteq> 0 \<and> m \<notin> stacks s \<and> S = insert m (stacks s)"
  shows "sched_ok (s\<lparr>TCB := (TCB s)[j := new_thread (TCB s ! j) j fn arg sp m], stacks := S\<rparr>) Q" (is "sched_ok ?s Q")
proof -
  note len = so_length [OF s]
  have nj: "\<not> active s Q j" using so_valid [OF s] j(2) by blast
  have th: "TCB ?s ! i = (if i = j then new_thread (TCB s ! j) j fn arg sp m else TCB s ! i)" for i
    using j len by (cases "i = j") simp_all
  have q: "queues_ok ?s Q"
    by (rule queues_ok_cong [OF _ _ _ _ queues_ok_unqueued [OF so_queues [OF s], of j]]) (use nj in \<open>auto simp: active_def\<close>)
  have st: "stacks_ok ?s"
  proof (rule stacks_okI)
    show "stack_memory (TCB ?s ! i) = 0 \<or> stack_memory (TCB ?s ! i) \<in> stacks ?s \<and> stack_memory (TCB ?s ! i) \<noteq> pending ?s"
      if "i < THREAD_MAX_THREADS" "isValid (TCB ?s ! i)" for i
      using that stk_in [OF so_stacks [OF s], of i] stk_pending [OF so_stacks [OF s]] m
      unfolding th by (auto simp: new_thread_def)
    show "stack_memory (TCB ?s ! i) \<noteq> stack_memory (TCB ?s ! k)"
      if i: "i < THREAD_MAX_THREADS" "k < THREAD_MAX_THREADS" "i \<noteq> k" "isValid (TCB ?s ! i)" "isValid (TCB ?s ! k)"
        "stack_memory (TCB ?s ! i) \<noteq> 0" for i k
      using stk_inj [OF so_stacks [OF s] i(1-3)] stk_in [OF so_stacks [OF s] i(1)] stk_in [OF so_stacks [OF s] i(2)]
        i(3-6) m unfolding th by (auto simp: new_thread_def split: if_splits)
    show "0 \<notin> stacks ?s" "pending ?s = 0 \<or> pending ?s \<in> stacks ?s"
      using m stk_null [OF so_stacks [OF s]] stk_pending [OF so_stacks [OF s]] by auto
  qed
  have ix: "index (TCB s ! t) = t \<Longrightarrow> index (TCB ?s ! t) = t" for t unfolding th by (simp add: new_thread_def)
  have ctx: "ctx_ok (TCB s) F \<Longrightarrow> ctx_ok (TCB ?s) F" for F by (erule ctx_ok_mono) (simp, rule ix)
  have act: "active ?s Q i = active s Q i" for i by (simp add: active_def)
  have ne: "i \<noteq> j" if "active s Q i" for i using that nj by blast
  show ?thesis
    unfolding sched_ok_def
  proof (intro conjI allI ballI impI)
    show "isValid (TCB ?s ! i)" "index (TCB ?s ! i) = i" if "active ?s Q i" for i
      using that so_valid [OF s] so_index [OF s] ne unfolding act th by simp_all
    show "ctx_ok (TCB ?s) (saved ?s i)" "sigmask (thread_context (TCB ?s ! i))" if i: "i \<in> set (Q a)" for a i
      using so_ctx [OF s i] so_mask [OF s i] ctx ne [of i] i unfolding saved_def th by simp_all
  qed (use q st so_current [OF s] so_not_queued [OF s] so_tail [OF s] in simp_all)
qed

lemma create_some:
  assumes s: "sched_ok s Q" and j: "j < THREAD_MAX_THREADS" "\<not> isValid (TCB s ! j)"
    and v: "\<And>i. i < j \<Longrightarrow> isValid (TCB s ! i)" and m: "m \<notin> stacks s"
  obtains s' where "thread_create fn arg m fs s = Inr (Ret fs (if m = 0 then THREAD_NOMEMORY else int j), s')"
    "sched_ok s' (if m = 0 then Q else Q(0 := Q 0 @ [j]))" "current s' = current s" "interrupts s' = interrupts s"
    "stacks s' = (if m = 0 then stacks s else insert m (stacks s))" "pending s' = pending s"
    "core (TCB s' ! j) = core (new_thread (TCB s ! j) j fn arg (if m = 0 then 0 else stack_pointer m) m)"
    "\<And>i. i < THREAD_MAX_THREADS \<Longrightarrow> i \<noteq> j \<Longrightarrow> core (TCB s' ! i) = core (TCB s ! i)"
    "wait_queues s' = wait_queues s" "locks s' = locks s" "cvs s' = cvs s"
proof -
  note len = so_length [OF s]
  let ?s0 = "s\<lparr>interrupts := False\<rparr>"
  have s0: "sched_ok ?s0 Q" using s by simp
  have slot: "free_slot 0 ?s0 = Inr (Some j)" using free_slot_some [of ?s0 j 0] len j v by simp
  have sj: "stacks (s\<lparr>TCB := T, interrupts := b\<rparr>) = stacks s" for T b by simp
  let ?sp = "if m = 0 then 0 else stack_pointer m"
  let ?T = "(TCB s)[j := new_thread (TCB s ! j) j fn arg ?sp m]"
  let ?S = "if m = 0 then stacks s else insert m (stacks s)"
  let ?s5 = "?s0\<lparr>TCB := ?T, stacks := ?S\<rparr>"
  have ok5: "sched_ok ?s5 Q" using sched_ok_new [OF s0, of j m ?S fn arg ?sp] j m by simp
  have th: "?T ! i = (if i = j then new_thread (TCB s ! j) j fn arg ?sp m else TCB s ! i)" for i
    using j len by (cases "i = j") simp_all
  show thesis
  proof (cases "m = 0")
    case True
    have ok: "sched_ok (?s5\<lparr>interrupts := interrupts s\<rparr>) Q" using ok5 by (simp only: sched_ok_interrupts)
    have "thread_create fn arg m fs s = Inr (Ret fs THREAD_NOMEMORY, ?s0\<lparr>TCB := ?T, interrupts := interrupts s\<rparr>)"
      using slot j len True
      by (simp add: thread_create_def interrupts_set_def finish_def getcontext_def new_thread_def)
    then show thesis using that [of "?s5\<lparr>interrupts := interrupts s\<rparr>"] ok True th by simp
  next
    case False
    have nq: "j \<notin> set (Q a)" for a using so_valid [OF s, of j] j(2) by auto
    have jc: "j \<noteq> current s" using so_valid [OF s, of "current s"] j(2) by auto
    have nn: "next_thread (TCB ?s5 ! j) = None" using j(1) len by (simp add: new_thread_def)
    have run: "runnable ?s5 j"
      using j jc len by (simp add: runnable_def new_thread_def saved_def)
    have st: "tail (readyQ ?s5) = None \<or> (\<exists>i. tail (readyQ ?s5) = Some i \<and> i < THREAD_MAX_THREADS \<and> i \<noteq> j \<and> (\<forall>a. i \<notin> set (Q a)))"
      if "Q 0 = []" using so_tail [OF s that] so_current [OF s] jc so_not_queued [OF s] by auto
    obtain s6 where s6: "ready_enqueue (Some j) ?s5 = Inr s6" "queues_ok s6 (Q(0 := Q 0 @ [j]))"
      "only_queues ?s5 s6" "wait_queues s6 = wait_queues ?s5"
      by (rule ready_enqueue_ok [OF so_queues [OF ok5] j(1) nq nn st])
    have ok6: "sched_ok s6 (Q(0 := Q 0 @ [j]))"
      using queued_runnable [OF ok5] run by (intro sched_ok_queues [OF ok5 s6(3,2)]) (auto split: if_splits)
    have e: "(TCB s ! j)\<lparr>isValid := True, index := j, next_thread := None,
          thread_context := \<lparr>frames = [FStub fn arg (stack_pointer m)], sigmask = True\<rparr>, stack_memory := m\<rparr>
        = (TCB s ! j)\<lparr>isValid := True, index := j, next_thread := None, stack_memory := m,
          thread_context := \<lparr>frames = [FStub fn arg (stack_pointer m)], sigmask = True\<rparr>\<rparr>"
      by (rule thread.equality) simp_all
    have "?s5 = s\<lparr>interrupts := False, stacks := insert m (stacks s), TCB := (TCB s)[j := (TCB s ! j)\<lparr>isValid := True,
        index := j, next_thread := None, stack_memory := m,
        thread_context := \<lparr>frames = [FStub fn arg (stack_pointer m)], sigmask = True\<rparr>\<rparr>]\<rparr>"
      using False by (intro sched.equality) (simp_all add: new_thread_def e)
    note en = s6(1) [unfolded this]
    have "thread_create fn arg m fs s = Inr (Ret fs (int j), s6\<lparr>interrupts := interrupts s\<rparr>)"
      using slot j len False en
      by (simp add: thread_create_def interrupts_set_def finish_def getcontext_def new_thread_def)
    moreover have "map core (TCB s6) = map core ?T" using s6(3) by (simp add: only_queues_def)
    note T6 = core_eq(2) [OF this]
    ultimately show thesis
      using that [of "s6\<lparr>interrupts := interrupts s\<rparr>"] ok6 s6(3,4) False T6 th j len by (simp add: only_queues_def)
  qed
qed

end
