(* ===== verification/Machine.thy ===== *)
theory Machine
  imports ThreadSpec
begin

text \<open>
  Runs of the thread library: user code that calls it in any order, with its callers preempted
  between calls.  Every state of a run satisfies the invariant, and calls with valid arguments
  do not fault.
\<close>

section \<open>Steps\<close>

text \<open>What \<open>malloc\<close> promises: a block that it returns is not in use.\<close>

fun fresh_blocks :: "call \<Rightarrow> sched \<Rightarrow> bool" where
  "fresh_blocks (ThreadCreate fn arg m) s \<longleftrightarrow> m \<notin> stacks s"
| "fresh_blocks (WaitQueueCreate m) s \<longleftrightarrow> m \<notin> dom (wait_queues s)"
| "fresh_blocks (LockCreate m m') s \<longleftrightarrow> m \<notin> dom (locks s) \<and> m' \<notin> dom (wait_queues s)"
| "fresh_blocks (CvCreate m m') s \<longleftrightarrow> m \<notin> dom (cvs s) \<and> m' \<notin> dom (wait_queues s)"
| "fresh_blocks _ s \<longleftrightarrow> True"

definition in_progress :: "ctl \<Rightarrow> bool" where
  "in_progress c \<longleftrightarrow> (case c of Ret fs r \<Rightarrow> fs \<noteq> [] | Acquire l en fs \<Rightarrow> True | ProcessExit \<Rightarrow> False)"

inductive mstep :: "ctl \<times> sched \<Rightarrow> ctl \<times> sched \<Rightarrow> bool" where
  user_call: "fresh_blocks a s \<Longrightarrow> do_call a s = Inr cs \<Longrightarrow> mstep (Ret [] r, s) cs"
| proceed: "in_progress c \<Longrightarrow> continue c s = Inr cs \<Longrightarrow> mstep (c, s) cs"
| preempt: "interrupts s \<Longrightarrow> deliver_interrupt s = Inr cs \<Longrightarrow> mstep (Ret [] r, s) cs"

inductive_cases mstep_cases: "mstep (c, s) cs"

section \<open>Every operation keeps the invariant\<close>

text \<open>\<open>keeps m s\<close>: if \<open>m\<close> gives a new state, it satisfies the invariant and the locks are those of \<open>s\<close>.\<close>

definition keeps :: "step \<Rightarrow> sched \<Rightarrow> bool" where
  "keeps m s \<longleftrightarrow> (\<forall>c s'. m = Inr (c, s') \<longrightarrow> (\<exists>Q. sched_ok s' Q) \<and> locks s' = locks s)"

lemma keepsI: "m = Inr (c, s') \<Longrightarrow> sched_ok s' Q \<Longrightarrow> locks s' = locks s \<Longrightarrow> keeps m s"
  by (auto simp: keeps_def)

lemma keeps_Inl [simp]: "keeps (Inl e) s"
  by (simp add: keeps_def)

lemma keeps_goes_to: "goes_to m s F x Q' \<Longrightarrow> keeps m s"
  by (auto simp: goes_to_def keeps_def switched_def)

lemma keeps_returns: "returns m s fs r Q' \<Longrightarrow> keeps m s"
  by (auto simp: returns_def keeps_def only_queues_def)

lemma keeps_cong: "keeps m s \<Longrightarrow> locks s' = locks s \<Longrightarrow> keeps m s'"
  by (simp add: keeps_def)

lemma sched_ok_heap:
  assumes "sched_ok s Q"
  shows "sched_ok (s\<lparr>locks := l\<rparr>) Q" "sched_ok (s\<lparr>cvs := c\<rparr>) Q"
  using so_stacks [OF assms] by (auto intro!: sched_ok_cong [OF assms] simp: stacks_ok_def)

lemma sched_ok_hasLock:
  assumes s: "sched_ok s Q"
  shows "sched_ok (s\<lparr>TCB := (TCB s)[current s := (TCB s ! current s)\<lparr>hasLock := b\<rparr>]\<rparr>) Q" (is "sched_ok ?s Q")
proof (rule sched_ok_cong [OF s])
  have th: "TCB ?s ! i = (if i = current s then (TCB s ! i)\<lparr>hasLock := b\<rparr> else TCB s ! i)" for i
    using so_current [OF s] so_length [OF s] by (cases "i = current s") simp_all
  show "isValid (TCB ?s ! i) = isValid (TCB s ! i) \<and> index (TCB ?s ! i) = index (TCB s ! i)
      \<and> thread_context (TCB ?s ! i) = thread_context (TCB s ! i) \<and> next_thread (TCB ?s ! i) = next_thread (TCB s ! i)" for i
    unfolding th by simp
  show "stacks_ok ?s" by (rule stacks_ok_cong [OF so_stacks [OF s]]) (simp, simp, unfold th, simp)
qed simp_all

lemma yield_missing:
  assumes s: "sched_ok s Q" and t: "tid \<noteq> THREAD_SELF" "tid \<noteq> THREAD_ANY" "tid \<noteq> int (current s)"
      "\<And>i. i \<in> set (Q 0) \<Longrightarrow> int i \<noteq> tid"
  shows "thread_yield tid fs s =
    (if tid = int THREAD_MAX_THREADS then Inl OutOfBounds
     else Inr (Ret fs (if 0 \<le> tid \<and> tid < int THREAD_MAX_THREADS \<and> isValid (TCB s ! nat tid) \<and> Q 0 = []
                       then THREAD_NONE else THREAD_INVALID), freed s))"
proof (cases "0 \<le> tid \<and> tid \<le> int THREAD_MAX_THREADS")
  case False
  then show ?thesis using free_pending_eq [OF so_stacks [OF s]] t(1-3)
    by (auto simp: thread_yield_def interrupts_set_def finish_def Let_def thread_ret_ok_def)
next
  case True
  let ?s0 = "(freed s)\<lparr>interrupts := False\<rparr>"
  show ?thesis
  proof (cases "tid = int THREAD_MAX_THREADS")
    case True
    then have "thread_at (Some (nat tid)) ?s0 = Inl OutOfBounds" using so_length [OF s] by (simp add: thread_at_def arr_get_def)
    then show ?thesis using free_pending_eq [OF so_stacks [OF s]] t(1-3) True
      by (simp add: thread_yield_def interrupts_set_def finish_def Let_def thread_ret_ok_def)
  next
    case False
    have "sched_ok ?s0 Q" using sched_ok_freed [OF s] by simp
    from not_found_ready [OF this t(4), of None]
    have nf: "find_ready THREAD_MAX_THREADS tid None (head (readyQ s)) ?s0 = Inr None" by simp
    have "thread_at (Some (nat tid)) ?s0 = Inr (TCB s ! nat tid)"
      using True False so_length [OF s] by (intro trans [OF thread_at_in]) auto
    moreover have "head (readyQ s) = None \<longleftrightarrow> Q 0 = []" using so_head [OF s] by (simp split: list.splits)
    ultimately show ?thesis
      using free_pending_eq [OF so_stacks [OF s]] t(1-3) True False nf
      by (auto simp: thread_yield_def interrupts_set_def finish_def Let_def thread_ret_ok_def)
  qed
qed

lemma keeps_yield: "sched_ok s Q \<Longrightarrow> keeps (thread_yield tid fs s) s"
proof -
  assume s: "sched_ok s Q"
  have f: "sched_ok (freed s) Q" by (rule sched_ok_freed [OF s])
  have g: "goes_to m (freed s) F x Q' \<Longrightarrow> keeps m s" for m F x Q' using keeps_goes_to keeps_cong by fastforce
  consider "tid = THREAD_SELF \<or> tid = int (current s)" | "tid = THREAD_ANY"
    | x where "tid = int x" "x \<in> set (Q 0)"
    | "tid \<noteq> THREAD_SELF" "tid \<noteq> THREAD_ANY" "tid \<noteq> int (current s)" "\<And>i. i \<in> set (Q 0) \<Longrightarrow> int i \<noteq> tid"
    by metis
  then show ?thesis
  proof cases
    case 1
    show ?thesis by (rule keepsI [OF yield_self [OF s 1] f]) simp
  next
    case 2
    show ?thesis
    proof (cases "Q 0")
      case Nil
      show ?thesis unfolding 2 by (rule keepsI [OF yield_any_none [OF s Nil] f]) simp
    next
      case (Cons x xs)
      show ?thesis unfolding 2 by (rule g [OF yield_any_some [OF s Cons]])
    qed
  next
    case 3
    then obtain xs ys where "Q 0 = xs @ x # ys" by (meson split_list)
    then show ?thesis unfolding 3(1) by (rule g [OF yield_to_some [OF s]])
  next
    case 4
    have "keeps (Inr (c, freed s)) s" for c by (rule keepsI [OF refl f]) simp
    then show ?thesis using yield_missing [OF s 4, of fs] by simp
  qed
qed

lemma keeps_exit: "sched_ok s Q \<Longrightarrow> keeps (thread_exit fs s) s"
proof -
  assume s: "sched_ok s Q"
  show ?thesis
  proof (cases "Q 0")
    case Nil
    show ?thesis by (rule keepsI [OF exit_none [OF s Nil] sched_ok_freed [OF s]]) simp
  next
    case (Cons x xs)
    show ?thesis by (rule exit_some [OF s Cons, of fs]) (rule keepsI)
  qed
qed

lemma keeps_kill: "sched_ok s Q \<Longrightarrow> keeps (thread_kill tid fs s) s"
proof -
  assume s: "sched_ok s Q"
  show ?thesis
  proof (cases "\<exists>x \<in> set (Q 0). tid = int x")
    case True
    then obtain x xs ys where x: "tid = int x" "Q 0 = xs @ x # ys" by (meson split_list)
    show ?thesis unfolding x(1) by (rule kill_some [OF s x(2), of fs]) (rule keepsI)
  next
    case False
    show ?thesis by (rule keepsI [OF kill_invalid [OF s] s]) (use False in auto)
  qed
qed

lemma keeps_create: "sched_ok s Q \<Longrightarrow> m \<notin> stacks s \<Longrightarrow> keeps (thread_create fn arg m fs s) s"
proof -
  assume s: "sched_ok s Q" and m: "m \<notin> stacks s"
  show ?thesis
  proof (cases "\<forall>i < THREAD_MAX_THREADS. isValid (TCB s ! i)")
    case True
    show ?thesis by (rule keepsI [OF create_none [OF s] s]) (use True in auto)
  next
    case False
    define j where "j = (LEAST i. i < THREAD_MAX_THREADS \<and> \<not> isValid (TCB s ! i))"
    have j: "j < THREAD_MAX_THREADS" "\<not> isValid (TCB s ! j)"
      using LeastI_ex [of "\<lambda>i. i < THREAD_MAX_THREADS \<and> \<not> isValid (TCB s ! i)"] False unfolding j_def by blast+
    have v: "isValid (TCB s ! i)" if "i < j" for i
      using not_less_Least [of i "\<lambda>i. i < THREAD_MAX_THREADS \<and> \<not> isValid (TCB s ! i)"] that j(1) unfolding j_def by auto
    show ?thesis by (rule create_some [OF s j v m, of fn arg fs]) (assumption, rule keepsI)
  qed
qed

lemma keeps_sleep: "sched_ok s Q \<Longrightarrow> keeps (thread_sleep q fs s) s"
proof -
  assume s: "sched_ok s Q"
  show ?thesis
  proof (cases "q = 0 \<or> Q 0 = []")
    case True
    show ?thesis by (rule keepsI [OF sleep_none [OF s True] s refl])
  next
    case False
    then obtain x xs where r: "Q 0 = x # xs" by (cases "Q 0") auto
    show ?thesis
    proof (cases "wait_queues s q")
      case None
      have "thread_sleep q fs s = Inl BadPointer"
        using None False so_head [OF s] r so_current [OF s] so_length [OF s]
        by (simp add: thread_sleep_def interrupts_set_def getcontext_def wait_append_def lookup_def)
      then show ?thesis by simp
    next
      case (Some a)
      show ?thesis by (rule keeps_goes_to [OF sleep_some [OF s Some r]])
    qed
  qed
qed

lemma keeps_wakeup: "sched_ok s Q \<Longrightarrow> keeps (thread_wakeup q all fs s) s"
proof -
  assume s: "sched_ok s Q"
  show ?thesis
  proof (cases "q = 0")
    case True
    show ?thesis by (rule keepsI [OF wakeup_none [OF s] s refl]) (use True in simp)
  next
    case False
    show ?thesis
    proof (cases "wait_queues s q")
      case None
      have "thread_wakeup q all fs s = Inl BadPointer"
        using None False by (simp add: thread_wakeup_def interrupts_set_def lookup_def)
      then show ?thesis by simp
    next
      case (Some r)
      show ?thesis
      proof (cases "all \<or> Q q = []")
        case True
        then show ?thesis
          using keeps_returns [OF wakeup_all [OF s Some]] keepsI [OF wakeup_none [OF s] s refl, of q all] Some by (cases all) auto
      next
        case False
        then obtain x xs where "Q q = x # xs" by (cases "Q q") auto
        with False keeps_returns [OF wakeup_one [OF s Some]] show ?thesis by (cases all) auto
      qed
    qed
  qed
qed

section \<open>Wait queues, locks and condition variables\<close>

lemma wq_create_ok:
  assumes s: "sched_ok s Q" and m: "m \<noteq> 0" "wait_queues s m = None"
  shows "sched_ok (s\<lparr>wait_queues := (wait_queues s)(m \<mapsto> \<lparr>head = None, tail = None\<rparr>)\<rparr>) Q" (is "sched_ok ?s Q")
proof (rule sched_ok_requeue [OF s])
  note q = so_queues [OF s]
  have "Q m = []" by (rule qo_none [OF q m(2,1)])
  then have "queues_ok ?s (Q(m := []))"
    by (intro queues_ok_upd [OF q, where r = "\<lparr>head = None, tail = None\<rparr>"])
       (use m qo_null [OF q] in \<open>simp_all add: queue_at_def holds_queue_def\<close>)
  moreover have "Q(m := []) = Q" using \<open>Q m = []\<close> by auto
  ultimately show "queues_ok ?s Q" by simp
qed (use queued_runnable [OF s] so_tail [OF s] in simp_all)

lemma wq_destroy_ok:
  assumes s: "sched_ok s Q" and q: "wait_queues s a \<noteq> None"
  shows "sched_ok (s\<lparr>wait_queues := (wait_queues s)(a := None)\<rparr>) (Q(a := []))" (is "sched_ok ?s ?Q")
proof (rule sched_ok_requeue [OF s])
  note qk = so_queues [OF s]
  have a0: "a \<noteq> 0" using qo_null [OF qk] q by auto
  show "queues_ok ?s ?Q"
    unfolding queues_ok_def
  proof (intro conjI allI impI)
    show "case queue_at ?s b of None \<Rightarrow> ?Q b = [] | Some q \<Rightarrow> holds_queue (TCB ?s) q (?Q b)" for b
    proof (cases "b = a")
      case True
      then show ?thesis using a0 by (simp add: queue_at_def)
    next
      case False
      then have "queue_at ?s b = queue_at s b" by (simp add: queue_at_def)
      moreover have "case queue_at s b of None \<Rightarrow> Q b = [] | Some q \<Rightarrow> holds_queue (TCB s) q (Q b)"
        using qk by (simp add: queues_ok_def)
      ultimately show ?thesis using False by (simp split: option.splits)
    qed
  qed (use qk in \<open>auto simp: queues_ok_def\<close>)
  show "runnable s i" if "i \<in> set (?Q b)" for b i using that queued_runnable [OF s] by (auto split: if_splits)
  show "?Q 0 = [] \<Longrightarrow> tail (readyQ ?s) = None \<or> tail (readyQ ?s) = Some (current s)"
    using so_tail [OF s] a0 by simp
qed simp_all

definition inv_after :: "step \<Rightarrow> bool" where
  "inv_after m \<longleftrightarrow> (\<forall>c s'. m = Inr (c, s') \<longrightarrow> (\<exists>Q. sched_ok s' Q))"

lemma inv_after_keeps: "keeps m s \<Longrightarrow> inv_after m"
  by (auto simp: keeps_def inv_after_def)

lemma inv_after_simps [simp]:
  "inv_after (Inl e)" "inv_after (Inr (c, s)) \<longleftrightarrow> (\<exists>Q. sched_ok s Q)" "inv_after (bindr (Inl e) f)"
  by (auto simp: inv_after_def)

lemma inv_after_bindr: "(\<And>x. m = Inr x \<Longrightarrow> inv_after (f x)) \<Longrightarrow> inv_after (bindr m f)"
  by (cases m) simp_all

lemma inv_after_finish: "sched_ok s Q \<Longrightarrow> inv_after (Inr (finish en fs r s))"
  by (auto simp: finish_def)

text \<open>The calls that may change a lock.\<close>

fun lock_call :: "call \<Rightarrow> bool" where
  "lock_call (LockCreate m m') \<longleftrightarrow> True"
| "lock_call (LockDestroy l) \<longleftrightarrow> True"
| "lock_call (LockRelease l) \<longleftrightarrow> True"
| "lock_call (CvWait c l) \<longleftrightarrow> True"
| "lock_call _ \<longleftrightarrow> False"

lemma wait_queue_create_inv:
  assumes "sched_ok s Q" "wait_queue_create m s = Inr (a, s')" "m \<notin> dom (wait_queues s)"
  shows "sched_ok s' Q" "locks s' = locks s" "a = m"
proof -
  have m: "m \<noteq> 0" "s' = s\<lparr>wait_queues := (wait_queues s)(m \<mapsto> \<lparr>head = None, tail = None\<rparr>)\<rparr>" "a = m"
    using assms(2) by (auto simp: wait_queue_create_def bindr_eq_Inr c_assert_eq_Inr)
  show "sched_ok s' Q" unfolding m(2) by (rule wq_create_ok [OF assms(1) m(1)]) (use assms(3) in auto)
  show "locks s' = locks s" "a = m" using m by simp_all
qed

lemma wait_queue_destroy_inv:
  assumes "sched_ok s Q" "wait_queue_destroy a s = Inr s'"
  shows "\<exists>Q. sched_ok s' Q" "locks s' = locks s"
proof -
  have "s' = s \<or> wait_queues s a \<noteq> None \<and> s' = s\<lparr>wait_queues := (wait_queues s)(a := None)\<rparr>"
    using assms(2) by (auto simp: wait_queue_destroy_def bindr_eq_Inr lookup_def split: if_splits option.splits)
  then show "\<exists>Q. sched_ok s' Q" "locks s' = locks s" using wq_destroy_ok [OF assms(1), of a] assms(1) by auto
qed

lemma acquire_round_inv: "sched_ok s Q \<Longrightarrow> inv_after (acquire_round l en fs s)"
  unfolding acquire_round_def
proof (rule inv_after_bindr)
  fix k :: lock assume s: "sched_ok s Q"
  have "inv_after (thread_sleep (lock_waitQ k) (FAcquire l en # fs) s)" by (rule inv_after_keeps [OF keeps_sleep [OF s]])
  then show "inv_after (if \<not> available k then thread_sleep (lock_waitQ k) (FAcquire l en # fs) s
      else bindr (upd_thread (Some (current s)) (\<lambda>t. t\<lparr>hasLock := True\<rparr>) s)
        (\<lambda>s. Inr (finish en fs 0 (s\<lparr>locks := (locks s)(l \<mapsto> k\<lparr>available := False\<rparr>)\<rparr>))))"
    using sched_ok_heap(1) [OF sched_ok_hasLock [OF s]] so_current [OF s] so_length [OF s]
    by (auto simp: finish_def)
qed

lemma inv_after_finish_bindr: "inv_after m \<Longrightarrow> inv_after (bindr m (\<lambda>(c, s). Inr (finish en fs r s)))"
  by (cases m) (auto simp: inv_after_def finish_def)

lemma lock_release_eq:
  assumes s: "sched_ok s Q" and l: "locks s l = Some k" "l \<noteq> 0"
  shows "lock_release l fs s = (if available k then Inr (Ret fs 0, s)
    else bindr (thread_wakeup (lock_waitQ k) True []
      (s\<lparr>interrupts := False, locks := (locks s)(l \<mapsto> k\<lparr>available := True\<rparr>),
         TCB := (TCB s)[current s := (TCB s ! current s)\<lparr>hasLock := False\<rparr>]\<rparr>))
      (\<lambda>(_, t). Inr (finish (interrupts s) fs 0 t)))"
  using l so_current [OF s] so_length [OF s]
  by (simp add: lock_release_def interrupts_set_def lookup_def finish_def Let_def)

lemma released_ok:
  assumes s: "sched_ok s Q"
  shows "sched_ok (s\<lparr>interrupts := b, locks := L, TCB := (TCB s)[current s := (TCB s ! current s)\<lparr>hasLock := h\<rparr>]\<rparr>) Q"
proof -
  have "sched_ok (s\<lparr>interrupts := b, locks := L\<rparr>) Q" using sched_ok_heap(1) [of "s\<lparr>interrupts := b\<rparr>"] s by simp
  from sched_ok_hasLock [OF this] show ?thesis by simp
qed

lemma lock_release_inv:
  assumes s: "sched_ok s Q"
  shows "inv_after (lock_release l fs s)"
proof (cases "l \<noteq> 0 \<and> locks s l \<noteq> None")
  case False
  then show ?thesis by (auto simp: lock_release_def interrupts_set_def lookup_def c_assert_def)
next
  case True
  then obtain k where k: "locks s l = Some k" "l \<noteq> 0" by auto
  show ?thesis
    unfolding lock_release_eq [OF s k]
    using s inv_after_finish_bindr [OF inv_after_keeps [OF keeps_wakeup [OF released_ok [OF s]]]] by auto
qed

lemma release_state:
  assumes "inv_after (lock_release l fs s)" "lock_release l fs s = Inr (c, s')"
  obtains Q where "sched_ok s' Q"
  using assms by (auto simp: inv_after_def)

lemma cv_wait_inv:
  assumes s: "sched_ok s Q"
  shows "inv_after (cv_wait c l fs s)"
  unfolding cv_wait_def interrupts_set_def Let_def case_prod_conv
proof (intro inv_after_bindr)
  fix k u u' let ?s = "s\<lparr>interrupts := False\<rparr>"
  assume "lookup (locks ?s) l = Inr k"
  have s0: "sched_ok ?s Q" using s by simp
  show "inv_after (if \<not> available k then
      bindr (lock_release l [] ?s) (\<lambda>(_, t). bindr (lookup (cvs t) c) (\<lambda>v. thread_sleep (cv_waitQ v) (FCvSleep l (interrupts s) # fs) t))
    else Inr (finish (interrupts s) fs 0 ?s))"
  proof (cases "available k")
    case True
    then show ?thesis using inv_after_finish [OF s0] by simp
  next
    case False
    have "inv_after (bindr (lock_release l [] ?s)
        (\<lambda>(_, t). bindr (lookup (cvs t) c) (\<lambda>v. thread_sleep (cv_waitQ v) (FCvSleep l (interrupts s) # fs) t)))"
    proof (rule inv_after_bindr, clarify, rule inv_after_bindr)
      fix d t v assume "lock_release l [] ?s = Inr (d, t)"
      then obtain Q' where "sched_ok t Q'" by (rule release_state [OF lock_release_inv [OF s0]])
      then show "inv_after (thread_sleep (cv_waitQ v) (FCvSleep l (interrupts s) # fs) t)"
        by (rule inv_after_keeps [OF keeps_sleep])
    qed
    with False show ?thesis by simp
  qed
qed

lemma cv_wakeup_keeps:
  assumes s: "sched_ok s Q"
  shows "keeps (cv_wakeup all c l fs s) s"
proof -
  let ?s = "s\<lparr>interrupts := False\<rparr>"
  have s0: "sched_ok ?s Q" using s by simp
  have "keeps (bindr (thread_wakeup a all [] ?s) (\<lambda>(_, s'). Inr (finish (interrupts s) fs 0 s'))) s" for a
    using keeps_wakeup [OF s0, of a all "[]"]
    by (cases "thread_wakeup a all [] ?s") (auto simp: keeps_def finish_def)
  moreover have "keeps (Inr (finish (interrupts s) fs 0 ?s)) s" using s by (auto simp: keeps_def finish_def)
  ultimately show ?thesis
    by (auto simp: cv_wakeup_def interrupts_set_def lookup_def c_assert_def split: option.splits)
qed

lemma lock_create_inv:
  assumes s: "sched_ok s Q" and m: "m' \<notin> dom (wait_queues s)"
  shows "inv_after (lock_create m m' fs s)"
  unfolding lock_create_def interrupts_set_def Let_def case_prod_conv
proof (intro inv_after_bindr, clarify)
  fix a t assume "wait_queue_create m' (s\<lparr>interrupts := False\<rparr>) = Inr (a, t)"
  from wait_queue_create_inv(1) [OF _ this] s m have "sched_ok t Q" by simp
  from sched_ok_heap(1) [OF this]
  show "inv_after (Inr (finish (interrupts s) fs m (t\<lparr>locks := (locks t)(m \<mapsto> \<lparr>lock_waitQ = a, available = True\<rparr>)\<rparr>)))"
    by (rule inv_after_finish)
qed

lemma lock_destroy_inv:
  assumes s: "sched_ok s Q"
  shows "inv_after (lock_destroy l fs s)"
  unfolding lock_destroy_def interrupts_set_def Let_def case_prod_conv
proof (intro inv_after_bindr)
  fix k t let ?s = "s\<lparr>interrupts := False\<rparr>"
  assume "(if available k then bindr (wait_queue_destroy (lock_waitQ k) ?s) (\<lambda>s. Inr (s\<lparr>locks := (locks s)(l := None)\<rparr>)) else Inr ?s)
    = Inr t"
  then have "t = ?s \<or> (\<exists>t'. wait_queue_destroy (lock_waitQ k) ?s = Inr t' \<and> t = t'\<lparr>locks := (locks t')(l := None)\<rparr>)"
    by (auto simp: bindr_eq_Inr split: if_splits)
  moreover have "sched_ok ?s Q" using s by simp
  ultimately have "\<exists>Q. sched_ok t Q" using wait_queue_destroy_inv(1) sched_ok_heap(1) by blast
  then show "inv_after (Inr (finish (interrupts s) fs 0 t))" by (auto simp: finish_def)
qed

lemma cv_create_keeps:
  assumes s: "sched_ok s Q" and m: "m' \<notin> dom (wait_queues s)"
  shows "keeps (cv_create m m' fs s) s"
proof -
  let ?s = "s\<lparr>interrupts := False\<rparr>"
  have "sched_ok (?s\<lparr>wait_queues := (wait_queues ?s)(m' \<mapsto> \<lparr>head = None, tail = None\<rparr>)\<rparr>) Q" if "m' \<noteq> 0"
    by (rule wq_create_ok [OF _ that]) (use s m in auto)
  from sched_ok_heap(2) [OF this] have "sched_ok ((?s\<lparr>wait_queues := (wait_queues ?s)(m' \<mapsto> \<lparr>head = None, tail = None\<rparr>),
      cvs := (cvs ?s)(m \<mapsto> \<lparr>cv_waitQ = m'\<rparr>)\<rparr>)\<lparr>interrupts := interrupts s\<rparr>) Q" if "m' \<noteq> 0"
    using that unfolding sched_ok_interrupts by simp
  then show ?thesis
    by (auto simp: cv_create_def interrupts_set_def c_assert_def finish_def keeps_def)
qed

lemma cv_destroy_keeps:
  assumes s: "sched_ok s Q"
  shows "keeps (cv_destroy c fs s) s"
  unfolding keeps_def
proof (intro allI impI)
  fix d t assume e: "cv_destroy c fs s = Inr (d, t)"
  let ?s = "s\<lparr>interrupts := False\<rparr>"
  have s0: "sched_ok ?s Q" using s by simp
  from e obtain v :: cv and s1 where v: "wait_queue_destroy (cv_waitQ v) ?s = Inr s1"
    "t = s1\<lparr>cvs := (cvs s1)(c := None), interrupts := interrupts s\<rparr>"
    by (auto simp: cv_destroy_def interrupts_set_def bindr_eq_Inr finish_def)
  obtain Q' where "sched_ok s1 Q'" using wait_queue_destroy_inv(1) [OF s0 v(1)] by blast
  from sched_ok_heap(2) [OF this] have "sched_ok (s1\<lparr>cvs := (cvs s1)(c := None)\<rparr>\<lparr>interrupts := interrupts s\<rparr>) Q'"
    unfolding sched_ok_interrupts .
  then show "(\<exists>Q. sched_ok t Q) \<and> locks t = locks s" using v(2) wait_queue_destroy_inv(2) [OF s0 v(1)] by auto
qed

section \<open>The invariant of the machine\<close>

lemma do_call_inv:
  assumes s: "sched_ok s Q" and f: "fresh_blocks a s"
  shows "inv_after (do_call a s)" "\<not> lock_call a \<Longrightarrow> keeps (do_call a s) s"
proof -
  have wc: "keeps (bindr (wait_queue_create m s) (\<lambda>(q, s). Inr (Ret [] q, s))) s" if "m \<notin> dom (wait_queues s)" for m
    using wait_queue_create_inv [OF s _ that] by (cases "wait_queue_create m s") (auto simp: keeps_def)
  have wd: "keeps (bindr (wait_queue_destroy q s) (\<lambda>s. Inr (Ret [] 0, s))) s" for q
    using wait_queue_destroy_inv [OF s, of q] by (cases "wait_queue_destroy q s") (auto simp: keeps_def)
  have ac: "keeps (lock_acquire l [] s) s" for l
    using s by (auto simp: lock_acquire_def interrupts_set_def c_assert_def keeps_def)
  have id: "keeps (thread_id [] s) s"
    using s by (auto simp: thread_id_def interrupts_set_def keeps_def)
  show k: "\<not> lock_call a \<Longrightarrow> keeps (do_call a s) s"
    by (cases a) (use f wc wd ac id in \<open>simp_all add: thread_stub_end_def cv_signal_def cv_broadcast_def
      keeps_create [OF s] keeps_yield [OF s] keeps_exit [OF s] keeps_kill [OF s] keeps_sleep [OF s]
      keeps_wakeup [OF s] cv_create_keeps [OF s] cv_destroy_keeps [OF s] cv_wakeup_keeps [OF s]\<close>)
  show "inv_after (do_call a s)"
  proof (cases "lock_call a")
    case False
    then show ?thesis by (rule inv_after_keeps [OF k])
  next
    case True
    then show ?thesis using f lock_create_inv [OF s] lock_destroy_inv [OF s] lock_release_inv [OF s] cv_wait_inv [OF s]
      by (cases a) simp_all
  qed
qed

lemma continue_inv:
  assumes s: "sched_ok s Q"
  shows "inv_after (continue c s)"
proof (cases c)
  case (Acquire l en fs)
  then show ?thesis using acquire_round_inv [OF s] by (simp add: continue_def)
next
  case ProcessExit
  then show ?thesis using s by (auto simp: continue_def)
next
  case (Ret fs r)
  have "inv_after (lock_acquire l gs s)" for l gs
    using s by (auto simp: lock_acquire_def interrupts_set_def c_assert_def)
  moreover have "inv_after (Inr (d, s))" "inv_after (Inr (d, s\<lparr>interrupts := b\<rparr>))" for d b using s by auto
  moreover have "fs = [] \<or> (\<exists>f gs. fs = f # gs)" by (cases fs) auto
  ultimately show ?thesis unfolding Ret
  proof (elim disjE exE)
    fix f gs assume "fs = f # gs" and "\<And>l gs. inv_after (lock_acquire l gs s)" and "\<And>d. inv_after (Inr (d, s))"
      and "\<And>d b. inv_after (Inr (d, s\<lparr>interrupts := b\<rparr>))"
    then show "inv_after (continue (Ret fs r) s)" by (cases f) (simp_all add: continue_def finish_def c_assert_def)
  qed (simp add: continue_def)
qed

lemma interrupt_inv: "sched_ok s Q \<Longrightarrow> keeps (deliver_interrupt s) s"
proof -
  assume "sched_ok s Q"
  then have "sched_ok (s\<lparr>interrupts := False\<rparr>) Q" by simp
  from keeps_yield [OF this, of THREAD_ANY "[FHandler]"] show ?thesis
    by (simp add: deliver_interrupt_def interrupt_handler_def keeps_def)
qed

lemma mstep_inv:
  assumes "mstep (c, s) (c', s')" "sched_ok s Q"
  shows "\<exists>Q. sched_ok s' Q"
  using assms(1)
proof (rule mstep_cases)
  fix a assume "fresh_blocks a s" "do_call a s = Inr (c', s')"
  with do_call_inv(1) [OF assms(2)] show ?thesis by (auto simp: inv_after_def)
next
  assume "continue c s = Inr (c', s')"
  with continue_inv [OF assms(2)] show ?thesis by (auto simp: inv_after_def)
next
  assume "deliver_interrupt s = Inr (c', s')"
  with interrupt_inv [OF assms(2)] show ?thesis by (auto simp: keeps_def)
qed

text \<open>The state when the process starts: all static data is zero.\<close>

definition zero_thread :: thread where
  "zero_thread = \<lparr>isValid = False, index = 0, hasLock = False, thread_context = \<lparr>frames = [], sigmask = False\<rparr>,
     stack_memory = 0, next_thread = None\<rparr>"

definition process_start :: "bool \<Rightarrow> sched" where
  "process_start en = \<lparr>current_thread_id = 0, stack_mem_to_be_deleted = 0, readyQ = \<lparr>head = None, tail = None\<rparr>,
     TCB = replicate THREAD_MAX_THREADS zero_thread, interrupts = en, stacks = {},
     wait_queues = Map.empty, locks = Map.empty, cvs = Map.empty\<rparr>"

definition initial :: "bool \<Rightarrow> sched" where
  "initial en = thread_init (process_start en)"

lemma initial_TCB: "TCB (initial en) = zero_thread\<lparr>isValid := True\<rparr> # replicate 1023 zero_thread"
proof -
  have "replicate THREAD_MAX_THREADS zero_thread = zero_thread # replicate 1023 zero_thread"
    by (simp add: numeral_eq_Suc)
  then show ?thesis
    by (simp add: initial_def thread_init_def interrupts_set_def process_start_def zero_thread_def Let_def)
qed

lemma initial_simps [simp]:
  "current (initial en) = 0" "readyQ (initial en) = \<lparr>head = None, tail = None\<rparr>" "pending (initial en) = 0"
  "interrupts (initial en) = en" "stacks (initial en) = {}" "wait_queues (initial en) = Map.empty"
  "locks (initial en) = Map.empty" "cvs (initial en) = Map.empty"
  by (simp_all add: initial_def thread_init_def interrupts_set_def process_start_def Let_def)

lemma initial_ok: "sched_ok (initial en) (\<lambda>_. [])"
proof -
  have "TCB (initial en) ! 0 = zero_thread\<lparr>isValid := True\<rparr>" by (simp add: initial_TCB)
  moreover have "stack_memory (TCB (initial en) ! i) = 0" if "i < THREAD_MAX_THREADS" for i
    using that by (cases i) (simp_all add: initial_TCB zero_thread_def)
  ultimately show ?thesis
    by (simp add: sched_ok_def queues_ok_def stacks_ok_def active_def queue_at_def holds_queue_def zero_thread_def initial_TCB)
qed

end
