(* ===== verification/RoundRobin.thy ===== *)
theory RoundRobin
  imports Results
begin

text \<open>
  Fair service as an interface: a state that holds a list of clients, the first of them being
  served, and a step that serves the next one and puts the first at the end.  Every scheduler
  with this contract serves each client in turn.
\<close>

text \<open>\<open>n\<close> steps, one after the other.\<close>

primrec rounds :: "('s \<Rightarrow> 's result) \<Rightarrow> nat \<Rightarrow> 's \<Rightarrow> 's result" where
  "rounds step 0 s = Inr s"
| "rounds step (Suc n) s = bindr (step s) (rounds step n)"

locale round_robin =
  fixes clients :: "'s \<Rightarrow> 'a list \<Rightarrow> bool" and step :: "'s \<Rightarrow> 's result"
  assumes some_client: "clients s xs \<Longrightarrow> xs \<noteq> []"
    and serve: "clients s (x # xs) \<Longrightarrow> \<exists>s'. step s = Inr s' \<and> clients s' (xs @ [x])"
begin

lemma rounds_rotate: "clients s xs \<Longrightarrow> \<exists>s'. rounds step n s = Inr s' \<and> clients s' (rotate n xs)"
proof (induction n arbitrary: s xs)
  case (Suc n)
  then obtain y ys where xs: "xs = y # ys" using some_client by (cases xs) auto
  with serve Suc.prems obtain s1 where s1: "step s = Inr s1" "clients s1 (ys @ [y])" by blast
  from Suc.IH [OF s1(2)] s1(1) show ?case by (simp add: xs rotate1_rotate_swap rotate_Suc)
qed simp

lemma served_in_turn:
  assumes "clients s xs"
  shows "\<exists>s' ys. rounds step n s = Inr s' \<and> clients s' ys \<and> hd ys = xs ! (n mod length xs)"
  using rounds_rotate [OF assms, of n] hd_rotate_conv_nth [OF some_client [OF assms], of n] by metis

lemma full_round: "clients s xs \<Longrightarrow> \<exists>s'. rounds step (length xs) s = Inr s' \<and> clients s' xs"
  using rounds_rotate [of s xs "length xs"] by simp

end

end
