(* ===== verification/ThreadProps.thy ===== *)
theory ThreadProps
  imports Machine RoundRobin
begin

text \<open>
  The properties of the thread library: its reachable states, the behaviour of each operation on the
  ready and wait queues, that valid calls do not fault, fairness, and mutual exclusion.
\<close>

section \<open>Lemmas\<close>

lemma lock_release_locks:
  assumes s: "sched_ok s Q" and k: "locks s l = Some k" and e: "lock_release l fs s = Inr (c, s')"
  shows "locks s' = (locks s)(l \<mapsto> k\<lparr>available := True\<rparr>)"
proof -
  have l0: "l \<noteq> 0" using e by (auto simp: lock_release_def interrupts_set_def bindr_eq_Inr c_assert_eq_Inr)
  show ?thesis
  proof (cases "available k")
    case True
    then have "k\<lparr>available := True\<rparr> = k" by simp
    then have "(locks s)(l \<mapsto> k\<lparr>available := True\<rparr>) = locks s" using k by (simp add: fun_upd_idem)
    then show ?thesis using e lock_release_eq [OF s k l0, of fs] True by simp
  next
    case False
    let ?s = "s\<lparr>interrupts := False, locks := (locks s)(l \<mapsto> k\<lparr>available := True\<rparr>),
         TCB := (TCB s)[current s := (TCB s ! current s)\<lparr>hasLock := False\<rparr>]\<rparr>"
    obtain d t where t: "thread_wakeup (lock_waitQ k) True [] ?s = Inr (d, t)" "s' = t\<lparr>interrupts := interrupts s\<rparr>"
      using e lock_release_eq [OF s k l0, of fs] False by (auto simp: bindr_eq_Inr finish_def)
    have "locks t = locks ?s" using keeps_wakeup [OF released_ok [OF s]] t(1) by (auto simp: keeps_def)
    with t(2) show ?thesis by simp
  qed
qed

lemma cv_wait_locks:
  assumes s: "sched_ok s Q" and k: "locks s l = Some k" and e: "cv_wait v l fs s = Inr (c, s')"
  shows "locks s' = (locks s)(l \<mapsto> k\<lparr>available := True\<rparr>)"
proof (cases "available k")
  case True
  then have "k\<lparr>available := True\<rparr> = k" by simp
  then have "(locks s)(l \<mapsto> k\<lparr>available := True\<rparr>) = locks s" using k by (simp add: fun_upd_idem)
  then show ?thesis using e k True
    by (auto simp: cv_wait_def interrupts_set_def bindr_eq_Inr lookup_def finish_def)
next
  case False
  let ?s = "s\<lparr>interrupts := False\<rparr>"
  have s0: "sched_ok ?s Q" using s by simp
  from e k False obtain d t and w :: cv where t: "lock_release l [] ?s = Inr (d, t)"
    "thread_sleep (cv_waitQ w) (FCvSleep l (interrupts s) # fs) t = Inr (c, s')"
    by (auto simp: cv_wait_def interrupts_set_def bindr_eq_Inr lookup_def)
  obtain Q' where Q': "sched_ok t Q'" by (rule release_state [OF lock_release_inv [OF s0] t(1)])
  have "locks s' = locks t" using keeps_sleep [OF Q'] t(2) by (auto simp: keeps_def)
  also have "\<dots> = (locks s)(l \<mapsto> k\<lparr>available := True\<rparr>)" using lock_release_locks [OF s0 _ t(1)] k by simp
  finally show ?thesis .
qed

fun changes_lock :: "addr \<Rightarrow> call \<Rightarrow> bool" where
  "changes_lock l (LockRelease l') \<longleftrightarrow> l' = l"
| "changes_lock l (CvWait v l') \<longleftrightarrow> l' = l"
| "changes_lock l (LockDestroy l') \<longleftrightarrow> l' = l"
| "changes_lock l _ \<longleftrightarrow> False"

lemma other_call_locks:
  assumes s: "sched_ok s Q" and f: "fresh_blocks a s" and e: "do_call a s = Inr (c, s')"
    and n: "\<not> changes_lock l a" and k: "locks s l = Some k"
  shows "locks s' l = Some k"
proof (cases "lock_call a")
  case False
  then show ?thesis using do_call_inv(2) [OF s f False] e k by (auto simp: keeps_def)
next
  case True
  then consider m m' where "a = LockCreate m m'" | l' where "a = LockDestroy l'" "l' \<noteq> l"
    | l' where "a = LockRelease l'" "l' \<noteq> l" | v l' where "a = CvWait v l'" "l' \<noteq> l"
    using n by (cases a) auto
  then show ?thesis
  proof cases
    case 1
    then have "m \<noteq> l" using f k by auto
    with 1 e k show ?thesis
      by (auto simp: lock_create_def interrupts_set_def bindr_eq_Inr wait_queue_create_def finish_def)
  next
    case 2
    with e k show ?thesis
      by (auto simp: lock_destroy_def interrupts_set_def bindr_eq_Inr wait_queue_destroy_def finish_def split: if_splits)
  next
    case 3
    then have r: "lock_release l' [] s = Inr (c, s')" using e by simp
    then obtain k' where "locks s l' = Some k'"
      by (auto simp: lock_release_def interrupts_set_def bindr_eq_Inr lookup_def split: option.splits)
    then show ?thesis using lock_release_locks [OF s _ r] k 3 by auto
  next
    case 4
    then have r: "cv_wait v l' [] s = Inr (c, s')" using e by simp
    then obtain k' where "locks s l' = Some k'"
      by (auto simp: cv_wait_def interrupts_set_def bindr_eq_Inr lookup_def split: option.splits)
    then show ?thesis using cv_wait_locks [OF s _ r] k 4 by auto
  qed
qed

lemma acquire_locks:
  assumes s: "sched_ok s Q" and e: "acquire_round l en fs s = Inr (c, s')"
  shows "\<exists>k. locks s l = Some k \<and> locks s' = (if available k then (locks s)(l \<mapsto> k\<lparr>available := False\<rparr>) else locks s)"
proof -
  from e obtain k where k: "locks s l = Some k"
    by (auto simp: acquire_round_def lookup_def split: option.splits)
  show ?thesis
  proof (cases "available k")
    case True
    then show ?thesis using e k so_current [OF s] so_length [OF s] by (auto simp: acquire_round_def lookup_def finish_def)
  next
    case False
    then have "thread_sleep (lock_waitQ k) (FAcquire l en # fs) s = Inr (c, s')" using e k by (simp add: acquire_round_def lookup_def)
    then show ?thesis using keeps_sleep [OF s] k False by (auto simp: keeps_def)
  qed
qed

lemma continue_locks:
  assumes s: "sched_ok s Q" and e: "continue c s = Inr (c', s')" and n: "\<nexists>l en fs. c = Acquire l en fs"
  shows "locks s' = locks s"
proof (cases c)
  case (Ret fs r)
  have a: "locks s' = locks s" if "lock_acquire l gs s = Inr (c', s')" for l gs
    using that by (auto simp: lock_acquire_def interrupts_set_def bindr_eq_Inr)
  show ?thesis
  proof (cases fs)
    case Nil
    then show ?thesis using e Ret by (simp add: continue_def)
  next
    case (Cons f gs)
    then show ?thesis using e Ret a by (cases f) (auto simp: continue_def finish_def bindr_eq_Inr)
  qed
qed (use e n in \<open>auto simp: continue_def\<close>)

text \<open>
  Runs with the thread that holds the lock \<open>l\<close>: the one whose \<open>lock_acquire\<close> completed last.  User
  code is disciplined with respect to \<open>l\<close>: only the holder releases \<open>l\<close> or waits on a condition
  variable with \<open>l\<close>, and \<open>l\<close> is not destroyed.
\<close>

inductive lock_run :: "addr \<Rightarrow> ctl \<times> sched \<Rightarrow> nat option \<Rightarrow> bool" for l where
  run_start: "sched_ok s Q \<Longrightarrow> locks s l = Some k \<Longrightarrow> available k \<Longrightarrow> lock_run l (c, s) None"
| run_acquire: "lock_run l (Acquire l en fs, s) h \<Longrightarrow> locks s l = Some k \<Longrightarrow> available k
    \<Longrightarrow> continue (Acquire l en fs) s = Inr cs \<Longrightarrow> lock_run l cs (Some (current s))"
| run_release: "lock_run l (Ret [] r, s) (Some (current s)) \<Longrightarrow> a = LockRelease l \<or> a = CvWait v l
    \<Longrightarrow> do_call a s = Inr cs \<Longrightarrow> lock_run l cs None"
| run_call: "lock_run l (Ret [] r, s) h \<Longrightarrow> fresh_blocks a s \<Longrightarrow> \<not> changes_lock l a
    \<Longrightarrow> do_call a s = Inr cs \<Longrightarrow> lock_run l cs h"
| run_proceed: "lock_run l (c, s) h \<Longrightarrow> in_progress c \<Longrightarrow> (\<forall>en fs k. c = Acquire l en fs \<and> locks s l = Some k \<longrightarrow> \<not> available k)
    \<Longrightarrow> continue c s = Inr cs \<Longrightarrow> lock_run l cs h"
| run_preempt: "lock_run l (Ret [] r, s) h \<Longrightarrow> interrupts s \<Longrightarrow> deliver_interrupt s = Inr cs \<Longrightarrow> lock_run l cs h"

definition lock_inv :: "addr \<Rightarrow> sched \<Rightarrow> nat option \<Rightarrow> bool" where
  "lock_inv l s h \<longleftrightarrow> (\<exists>Q. sched_ok s Q) \<and> (\<exists>k. locks s l = Some k \<and> (available k \<longleftrightarrow> h = None))"

lemma lock_run_inv: "lock_run l cs h \<Longrightarrow> lock_inv l (snd cs) h"
proof (induction rule: lock_run.induct)
  case (run_start s Q k c)
  then show ?case by (auto simp: lock_inv_def)
next
  case (run_acquire en fs s h k cs)
  obtain c' s' where cs: "cs = (c', s')" by (cases cs)
  from run_acquire.IH obtain Q where Q: "sched_ok s Q" by (auto simp: lock_inv_def)
  have e: "acquire_round l en fs s = Inr (c', s')" using run_acquire.hyps(4) cs by (simp add: continue_def)
  have "\<exists>Q. sched_ok s' Q" using continue_inv [OF Q] run_acquire.hyps(4) cs by (auto simp: inv_after_def)
  then show ?case using acquire_locks [OF Q e] run_acquire.hyps(2,3) cs by (auto simp: lock_inv_def)
next
  case (run_release r s a v cs)
  obtain c' s' where cs: "cs = (c', s')" by (cases cs)
  from run_release.IH obtain Q k where Q: "sched_ok s Q" and k: "locks s l = Some k" by (auto simp: lock_inv_def)
  have "fresh_blocks a s" using run_release.hyps(2) by auto
  then have "\<exists>Q. sched_ok s' Q" using do_call_inv(1) [OF Q] run_release.hyps(3) cs by (auto simp: inv_after_def)
  moreover have "locks s' = (locks s)(l \<mapsto> k\<lparr>available := True\<rparr>)"
    using run_release.hyps(2,3) cs lock_release_locks [OF Q k] cv_wait_locks [OF Q k] by auto
  ultimately show ?case using cs by (auto simp: lock_inv_def)
next
  case (run_call r s h a cs)
  obtain c' s' where cs: "cs = (c', s')" by (cases cs)
  from run_call.IH obtain Q k where Q: "sched_ok s Q" and k: "locks s l = Some k" "available k \<longleftrightarrow> h = None"
    by (auto simp: lock_inv_def)
  have "\<exists>Q. sched_ok s' Q" using do_call_inv(1) [OF Q run_call.hyps(2)] run_call.hyps(4) cs by (auto simp: inv_after_def)
  then show ?case using other_call_locks [OF Q run_call.hyps(2) _ run_call.hyps(3) k(1)] run_call.hyps(4) cs k
    by (auto simp: lock_inv_def)
next
  case (run_proceed c s h cs)
  obtain c' s' where cs: "cs = (c', s')" by (cases cs)
  from run_proceed.IH obtain Q k where Q: "sched_ok s Q" and k: "locks s l = Some k" "available k \<longleftrightarrow> h = None"
    by (auto simp: lock_inv_def)
  have i: "\<exists>Q. sched_ok s' Q" using continue_inv [OF Q] run_proceed.hyps(4) cs by (auto simp: inv_after_def)
  have "locks s' l = locks s l"
  proof (cases c)
    case (Acquire l' en fs)
    then have "acquire_round l' en fs s = Inr (c', s')" using run_proceed.hyps(4) cs by (simp add: continue_def)
    from acquire_locks [OF Q this] run_proceed.hyps(3) Acquire show ?thesis by (cases "l' = l") (auto split: if_splits)
  qed (use continue_locks [OF Q] run_proceed.hyps(4) cs in auto)
  with i k cs show ?case by (auto simp: lock_inv_def)
next
  case (run_preempt r s h cs)
  obtain c' s' where cs: "cs = (c', s')" by (cases cs)
  from run_preempt.IH obtain Q where Q: "sched_ok s Q" by (auto simp: lock_inv_def)
  then show ?case using interrupt_inv [OF Q] run_preempt.hyps(3) run_preempt.IH cs by (auto simp: lock_inv_def keeps_def)
qed

text \<open>
  A yield to any thread, and the threads it serves: the running one, then those of the ready queue
  (the other queues are those of \<open>Q\<close>).
\<close>

definition yield_step :: "sched \<Rightarrow> sched result" where
  "yield_step s = bindr (thread_yield THREAD_ANY [] s) (\<lambda>(c, s'). Inr s')"

definition runnable :: "(addr \<Rightarrow> nat list) \<Rightarrow> sched \<Rightarrow> nat list \<Rightarrow> bool" where
  "runnable Q s ts \<longleftrightarrow> ts \<noteq> [] \<and> hd ts = current s \<and> sched_ok s (Q(0 := tl ts))"

lemma runnable_of: "sched_ok s Q \<Longrightarrow> runnable Q s (current s # Q 0)"
  by (simp add: runnable_def)

interpretation yr: round_robin "runnable Q" yield_step for Q
proof unfold_locales
  fix s :: sched and x xs assume "runnable Q s (x # xs)"
  then have s: "sched_ok s (Q(0 := xs))" and x: "x = current s" by (simp_all add: runnable_def)
  show "\<exists>s'. yield_step s = Inr s' \<and> runnable Q s' (xs @ [x])"
  proof (cases xs)
    case Nil
    with yield_any_none [OF s, of "[]"] sched_ok_freed [OF s] x show ?thesis
      by (auto simp: yield_step_def runnable_def)
  next
    case (Cons y ys)
    with yield_any_some [OF s, of y ys "[]"] x show ?thesis
      by (auto simp: yield_step_def runnable_def goes_to_def)
  qed
qed (simp add: runnable_def)




definition completes :: "step \<Rightarrow> bool" where
  "completes m \<longleftrightarrow> (\<exists>c s'. m = Inr (c, s'))"

lemma completes_simps [simp]: "completes (Inr (c, s))" "completes (Inr (finish en fs r s))"
  by (auto simp: completes_def finish_def)







section \<open>Properties\<close>

text \<open>
  C2: in every state that a process can reach, whatever its threads call and whenever they are
  preempted, the ready queue and the wait queues are well-formed chains without common
  threads, the running thread is in none of them, every thread in a queue or running is marked
  valid under its own number, and its stack is allocated, is not the stack that is about
  to be freed, and is the stack of no other valid thread.
\<close>

theorem thread_state_invariant:
  assumes "mstep\<^sup>*\<^sup>* (c0, initial en) (c, s)"
  shows "\<exists>Q. sched_ok s Q
    \<and> holds_queue (TCB s) (readyQ s) (Q 0) \<and> (\<forall>a q. wait_queues s a = Some q \<longrightarrow> holds_queue (TCB s) q (Q a))
    \<and> (\<forall>a. distinct (current s # Q a)) \<and> (\<forall>a b. a \<noteq> b \<longrightarrow> set (Q a) \<inter> set (Q b) = {})
    \<and> (\<forall>i. i = current s \<or> (\<exists>a. i \<in> set (Q a)) \<longrightarrow>
         i < THREAD_MAX_THREADS \<and> isValid (TCB s ! i) \<and> index (TCB s ! i) = i
         \<and> (stack_memory (TCB s ! i) \<noteq> 0 \<longrightarrow>
              stack_memory (TCB s ! i) \<in> stacks s \<and> stack_memory (TCB s ! i) \<noteq> pending s
              \<and> (\<forall>j < THREAD_MAX_THREADS. j \<noteq> i \<and> isValid (TCB s ! j) \<longrightarrow> stack_memory (TCB s ! j) \<noteq> stack_memory (TCB s ! i))))"
proof -
  have "\<exists>Q. sched_ok s Q" using assms
  proof (induction "(c, s)" arbitrary: c s rule: rtranclp_induct)
    case base
    then show ?case using initial_ok by auto
  next
    case (step cs)
    then show ?case using mstep_inv by (cases cs) blast
  qed
  then obtain Q where Q: "sched_ok s Q" by blast
  note q = so_queues [OF Q] and st = so_stacks [OF Q]
  have th: "i < THREAD_MAX_THREADS \<and> isValid (TCB s ! i) \<and> index (TCB s ! i) = i
     \<and> (stack_memory (TCB s ! i) \<noteq> 0 \<longrightarrow>
          stack_memory (TCB s ! i) \<in> stacks s \<and> stack_memory (TCB s ! i) \<noteq> pending s
          \<and> (\<forall>j < THREAD_MAX_THREADS. j \<noteq> i \<and> isValid (TCB s ! j) \<longrightarrow> stack_memory (TCB s ! j) \<noteq> stack_memory (TCB s ! i)))"
    if "i = current s \<or> (\<exists>a. i \<in> set (Q a))" for i
  proof -
    have a: "active s Q i" using that by (simp add: active_def)
    note v = active_lt [OF Q a] so_valid [OF Q a] so_index [OF Q a]
    show ?thesis using v stk_in [OF st v(1,2)] stk_inj [OF st v(1) _ _ v(2)] by metis
  qed
  show ?thesis
    by (intro exI [of _ Q] conjI allI impI)
       (use Q qo_ready [OF q] qo_wait [OF q] qo_distinct [OF q] qo_disjoint [OF q] so_not_queued [OF Q] th in auto)
qed

text \<open>A first thread, for the examples.\<close>

lemma first_thread:
  obtains s where "thread_create 7 8 4096 [] (initial True) = Inr (Ret [] 1, s)" "sched_ok s ((\<lambda>_. [])(0 := [1]))"
    "current s = 0" "interrupts s" "stacks s = {4096}" "saved s 1 = [FStub 7 8 (stack_pointer 4096)]"
    "wait_queues s = Map.empty" "locks s = Map.empty" "cvs s = Map.empty"
proof -
  have v: "\<not> isValid (TCB (initial True) ! 1)" "isValid (TCB (initial True) ! i)" if "i < 1" for i
    using that by (simp_all add: initial_TCB zero_thread_def)
  have v1: "\<not> isValid (TCB (initial True) ! 1)" by (simp add: initial_TCB zero_thread_def)
  have m: "4096 \<notin> stacks (initial True)" "(1 :: nat) < THREAD_MAX_THREADS" by simp_all
  show thesis
  proof (rule create_some [OF initial_ok m(2) v1 v(2) m(1), of 7 8 "[]"])
    fix s assume s: "thread_create 7 8 4096 [] (initial True) = Inr (Ret [] (if (4096 :: int) = 0 then THREAD_NOMEMORY else int 1), s)"
      "sched_ok s (if (4096 :: int) = 0 then \<lambda>_. [] else (\<lambda>_. [])(0 := [] @ [1]))" "current s = current (initial True)"
      "interrupts s = interrupts (initial True)"
      "stacks s = (if (4096 :: int) = 0 then stacks (initial True) else insert 4096 (stacks (initial True)))"
      "core (TCB s ! 1) = core (new_thread (TCB (initial True) ! 1) 1 7 8 (if (4096 :: int) = 0 then 0 else stack_pointer 4096) 4096)"
      "wait_queues s = wait_queues (initial True)" "locks s = locks (initial True)" "cvs s = cvs (initial True)"
    have "thread_context (TCB s ! 1) = thread_context (core (TCB s ! 1))" by (simp add: core_def)
    then have "saved s 1 = [FStub 7 8 (stack_pointer 4096)]"
      unfolding s(6) saved_def by (simp add: core_def new_thread_def)
    with s show thesis using that [of s] by simp
  qed
qed

theorem thread_state_invariant_witness:
  "\<exists>s c s' Q. do_call (ThreadCreate 7 8 4096) (initial True) = Inr (Ret [] 1, s)
    \<and> do_call (ThreadYield THREAD_ANY) s = Inr (c, s') \<and> sched_ok s' Q \<and> current s' = 1"
proof -
  obtain s where s: "thread_create 7 8 4096 [] (initial True) = Inr (Ret [] 1, s)" "sched_ok s ((\<lambda>_. [])(0 := [1]))"
    by (rule first_thread)
  from yield_any_some [OF s(2), of 1 "[]" "[]"] obtain c s' where
    y: "thread_yield THREAD_ANY [] s = Inr (c, s')" "current s' = 1" by (auto simp: goes_to_def)
  have "mstep (Ret [] 0, initial True) (Ret [] 1, s)" by (rule user_call [of "ThreadCreate 7 8 4096"]) (use s in simp_all)
  moreover have "mstep (Ret [] 1, s) (c, s')" by (rule user_call [of "ThreadYield THREAD_ANY"]) (use y in simp_all)
  ultimately have "mstep\<^sup>*\<^sup>* (Ret [] 0, initial True) (c, s')" by (meson r_into_rtranclp rtranclp_trans)
  from thread_state_invariant [OF this] s(1) y show ?thesis by auto
qed

text \<open>
  C14: \<open>thread_yield\<close> on every argument.  A yield to oneself returns at once.  A yield to any thread
  runs the head of the ready queue, and a yield to a given thread of the ready queue runs that one;
  the caller goes to the end of the queue, and its saved context will return the number of the thread
  that ran, with interrupts as they were.  A yield to a thread that is not ready reports an error
  and nothing changes but that a dead stack is freed; the number \<open>THREAD_MAX_THREADS\<close> itself passes the
  check and is an access outside \<open>TCB\<close>.
\<close>

theorem thread_yield_correct:
  assumes "sched_ok s Q"
  shows "thread_yield tid fs s = Inr (Ret fs (int (current s)), freed s) \<and> (tid = THREAD_SELF \<or> tid = int (current s))
    \<or> tid = THREAD_ANY \<and> Q 0 = [] \<and> thread_yield tid fs s = Inr (Ret fs THREAD_NONE, freed s)
    \<or> (\<exists>xs x ys s'. Q 0 = xs @ x # ys \<and> (tid = THREAD_ANY \<and> xs = [] \<or> tid = int x)
         \<and> thread_yield tid fs s = Inr (fst (resume_of (saved s x)), s')
         \<and> sched_ok s' (Q(0 := xs @ ys @ [current s])) \<and> current s' = x
         \<and> interrupts s' = snd (resume_of (saved s x)) \<and> resume_of (saved s' (current s)) = (Ret fs (int x), interrupts s))
    \<or> (\<forall>i \<in> set (Q 0). int i \<noteq> tid) \<and> tid \<noteq> THREAD_ANY \<and> thread_yield tid fs s =
        (if tid = int THREAD_MAX_THREADS then Inl OutOfBounds
         else Inr (Ret fs (if 0 \<le> tid \<and> tid < int THREAD_MAX_THREADS \<and> isValid (TCB s ! nat tid) \<and> Q 0 = []
                       then THREAD_NONE else THREAD_INVALID), freed s))"
proof -
  have res: "resume_of (saved s' (current s)) = resume_of F" if "switched (freed s) F s'" for F s'
    using that by (simp add: switched_def saved_def)
  consider (self) "tid = THREAD_SELF \<or> tid = int (current s)" | (none) "tid = THREAD_ANY" "Q 0 = []"
    | (any) x ys where "tid = THREAD_ANY" "Q 0 = [] @ x # ys" | (to) xs x ys where "tid = int x" "Q 0 = xs @ x # ys"
    | (missing) "tid \<noteq> THREAD_SELF" "tid \<noteq> THREAD_ANY" "tid \<noteq> int (current s)" "\<And>i. i \<in> set (Q 0) \<Longrightarrow> int i \<noteq> tid"
  proof (cases "\<exists>x \<in> set (Q 0). tid = int x")
    case True
    then show thesis using that(4) by (meson split_list)
  next
    case False
    then show thesis using that(1,2,3,5) by (cases "Q 0") fastforce+
  qed
  then show ?thesis
  proof cases
    case self
    with yield_self [OF assms self] show ?thesis by blast
  next
    case none
    from yield_any_none [OF assms none(2), of fs] have "thread_yield tid fs s = Inr (Ret fs THREAD_NONE, freed s)"
      unfolding none(1) .
    with none show ?thesis by blast
  next
    case any
    from yield_any_some [OF assms any(2) [simplified], of fs] obtain s' where
      "thread_yield tid fs s = Inr (fst (resume_of (saved s x)), s')" "sched_ok s' (Q(0 := ys @ [current s]))" "current s' = x"
      "interrupts s' = snd (resume_of (saved s x))" "switched (freed s) (FYieldAny (Some x) (interrupts s) # fs) s'"
      unfolding goes_to_def any(1) by auto
    with any res [of "FYieldAny (Some x) (interrupts s) # fs" s'] show ?thesis by fastforce
  next
    case to
    from yield_to_some [OF assms to(2), of fs] obtain s' where
      "thread_yield tid fs s = Inr (fst (resume_of (saved s x)), s')" "sched_ok s' (Q(0 := xs @ ys @ [current s]))" "current s' = x"
      "interrupts s' = snd (resume_of (saved s x))" "switched (freed s) (FYieldTo (int x) (interrupts s) # fs) s'"
      unfolding goes_to_def to(1) by auto
    with to res [of "FYieldTo (int x) (interrupts s) # fs" s'] show ?thesis by fastforce
  next
    case missing
    with yield_missing [OF assms missing, of fs] show ?thesis by blast
  qed
qed

theorem thread_yield_correct_witness:
  "\<exists>s s'. sched_ok s ((\<lambda>_. [])(0 := [1])) \<and> thread_yield 1 [] s = Inr (Ret [] 0, s') \<and> current s' = 1
    \<and> resume_of (saved s' 0) = (Ret [] 1, True)"
proof -
  obtain s where s: "sched_ok s ((\<lambda>_. [])(0 := [1]))" "current s = 0" "interrupts s"
    "saved s 1 = [FStub 7 8 (stack_pointer 4096)]" by (rule first_thread)
  from thread_yield_correct [OF s(1), of 1 "[]"] s(2-4) obtain s' where
    "thread_yield 1 [] s = Inr (Ret [] 0, s')" "current s' = 1" "resume_of (saved s' 0) = (Ret [] 1, True)"
    by (auto simp: Cons_eq_append_conv)
  with s(1) show ?thesis by blast
qed

text \<open>
  \<open>thread_sleep\<close>.  On a live queue the caller goes to the end of that queue, the head of the ready
  queue runs, and the saved context of the caller will return its number; with no queue or nobody
  ready the call returns an error and nothing changes.
\<close>

theorem thread_sleep_correct:
  assumes "sched_ok s Q" "a = 0 \<or> wait_queues s a \<noteq> None"
  shows "if a = 0 then thread_sleep a fs s = Inr (Ret fs THREAD_INVALID, s)
    else case Q 0 of
      [] \<Rightarrow> thread_sleep a fs s = Inr (Ret fs THREAD_NONE, s)
    | x # xs \<Rightarrow> \<exists>s'. thread_sleep a fs s = Inr (fst (resume_of (saved s x)), s')
        \<and> sched_ok s' (Q(a := Q a @ [current s], 0 := xs)) \<and> current s' = x
        \<and> interrupts s' = snd (resume_of (saved s x)) \<and> resume_of (saved s' (current s)) = (Ret fs (int x), interrupts s)"
proof (cases "a = 0 \<or> Q 0 = []")
  case True
  then show ?thesis using sleep_none [OF assms(1) True, of fs] by auto
next
  case False
  then obtain x xs r where r: "Q 0 = x # xs" "wait_queues s a = Some r" using assms(2) by (cases "Q 0") auto
  from sleep_some [OF assms(1) r(2,1), of fs] obtain s' where
    "thread_sleep a fs s = Inr (fst (resume_of (saved s x)), s')" "sched_ok s' (Q(a := Q a @ [current s], 0 := xs))"
    "current s' = x" "interrupts s' = snd (resume_of (saved s x))" "switched s (FSleep (Some x) (interrupts s) # fs) s'"
    unfolding goes_to_def by auto
  moreover from this(5) have "saved s' (current s) = FSleep (Some x) (interrupts s) # fs" by (simp add: switched_def saved_def)
  ultimately show ?thesis using False r by auto
qed

text \<open>
  C30: \<open>thread_wakeup\<close> is first in, first out: it takes one thread, or all, from the front of the wait
  queue, puts them in the same order at the end of the ready queue, and returns their number; the
  caller goes on.
\<close>

theorem thread_wakeup_fifo:
  assumes "sched_ok s Q" "wait_queues s a \<noteq> None"
    and "n = (if all then length (Q a) else min 1 (length (Q a)))"
  shows "\<exists>s'. thread_wakeup a all fs s = Inr (Ret fs (int n), s')
    \<and> sched_ok s' (Q(0 := Q 0 @ take n (Q a), a := drop n (Q a)))
    \<and> current s' = current s \<and> interrupts s' = interrupts s \<and> map core (TCB s') = map core (TCB s)"
proof (cases "Q a = []")
  case True
  then have "Q(0 := Q 0 @ take n (Q a), a := drop n (Q a)) = Q" "n = 0" using assms(3) by auto
  with wakeup_none [OF assms(1), of a all fs] assms(1,2) True show ?thesis by simp
next
  case False
  obtain r x xs where r: "wait_queues s a = Some r" "Q a = x # xs" using assms(2) False by (cases "Q a") auto
  show ?thesis
  proof (cases all)
    case True
    with wakeup_all [OF assms(1) r(1), of fs] assms(3) show ?thesis
      by (auto simp: returns_def only_queues_def simp del: fun_upd_apply)
  next
    case False
    with wakeup_one [OF assms(1) r, of fs] assms(3) r show ?thesis
      by (auto simp: returns_def only_queues_def simp del: fun_upd_apply)
  qed
qed

text \<open>A thread that sleeps, for the examples.\<close>

lemma sleeping_thread:
  obtains s q s1 s2 where "thread_create 7 8 4096 [] (initial True) = Inr (Ret [] 1, s)"
    "wait_queue_create 512 s = Inr (512, s1)" "sched_ok s1 ((\<lambda>_. [])(0 := [1]))" "wait_queues s1 512 = Some q" "current s1 = 0"
    "thread_sleep 512 [] s1 = Inr (Ret [] 0, s2)" "sched_ok s2 ((\<lambda>_. [])(512 := [0]))" "current s2 = 1"
    "wait_queues s2 512 \<noteq> None" "interrupts s2"
proof -
  obtain s where s: "thread_create 7 8 4096 [] (initial True) = Inr (Ret [] 1, s)" "sched_ok s ((\<lambda>_. [])(0 := [1]))"
    "current s = 0" "saved s 1 = [FStub 7 8 (stack_pointer 4096)]" "wait_queues s = Map.empty" by (rule first_thread)
  let ?s1 = "s\<lparr>wait_queues := (wait_queues s)(512 \<mapsto> \<lparr>head = None, tail = None\<rparr>)\<rparr>"
  have c: "wait_queue_create 512 s = Inr (512, ?s1)" by (simp add: wait_queue_create_def)
  have ok: "sched_ok ?s1 ((\<lambda>_. [])(0 := [1]))" by (rule wq_create_ok [OF s(2)]) (simp_all add: s(5))
  have q: "wait_queues ?s1 512 = Some \<lparr>head = None, tail = None\<rparr>" by simp
  have sv: "saved ?s1 = saved s" by (simp add: saved_def fun_eq_iff)
  let ?Q = "(\<lambda>_. [])(0 := [1]) :: addr \<Rightarrow> nat list"
  have "?Q 0 = 1 # []" by simp
  from sleep_some [OF ok q this, of "[]"] obtain s2 where s2: "thread_sleep 512 [] ?s1 = Inr (fst (resume_of (saved ?s1 1)), s2)"
    "sched_ok s2 (?Q(512 := ?Q 512 @ [current ?s1], 0 := []))" "current s2 = 1"
    "interrupts s2 = snd (resume_of (saved ?s1 1))" "switched ?s1 [FSleep (Some 1) (interrupts ?s1)] s2"
    unfolding goes_to_def by blast
  have "?Q(512 := ?Q 512 @ [current ?s1], 0 := []) = (\<lambda>_. [])(512 := [0])" using s(3) by auto
  with s2(2) have ok2: "sched_ok s2 ((\<lambda>_. [])(512 := [0]))" by simp
  have "dom (wait_queues s2) = dom (wait_queues ?s1)" using s2(5) by (simp add: switched_def)
  then have w: "wait_queues s2 512 \<noteq> None" by auto
  show thesis by (rule that [OF s(1) c ok q _ _ ok2 s2(3) w]) (use s(3,4) s2(1,4) sv in simp_all)
qed

theorem thread_sleep_correct_witness:
  "\<exists>s s'. sched_ok s ((\<lambda>_. [])(0 := [1])) \<and> thread_sleep 512 [] s = Inr (Ret [] 0, s') \<and> current s' = 1"
proof -
  obtain s q s2 where s: "sched_ok s ((\<lambda>_. [])(0 := [1]))" "wait_queues s 512 = Some q"
    "thread_sleep 512 [] s = Inr (Ret [] 0, s2)" by (rule sleeping_thread)
  from thread_sleep_correct [OF s(1), of 512 "[]"] s obtain s' where
    "thread_sleep 512 [] s = Inr (fst (resume_of (saved s 1)), s')" "current s' = 1" by auto
  with s show ?thesis by auto
qed

theorem thread_wakeup_fifo_witness:
  "\<exists>s s'. sched_ok s ((\<lambda>_. [])(512 := [0])) \<and> thread_wakeup 512 False [] s = Inr (Ret [] 1, s')
    \<and> sched_ok s' ((\<lambda>_. [])(0 := [0]))"
proof -
  obtain s1 s where s: "sched_ok s ((\<lambda>_. [])(512 := [0]))" "wait_queues s 512 \<noteq> None" by (rule sleeping_thread)
  let ?Q = "(\<lambda>_. [])(512 := [0]) :: addr \<Rightarrow> nat list"
  have "?Q(0 := ?Q 0 @ take 1 (?Q 512), 512 := drop 1 (?Q 512)) = (\<lambda>_. [])(0 := [0])" by auto
  with thread_wakeup_fifo [OF s, of 1 False "[]"] s show ?thesis by auto
qed

lemma stack_pointer_bounds:
  "stack_pointer m mod 16 = 8" "m \<le> stack_pointer m" "stack_pointer m + 8 \<le> m + THREAD_MIN_STACK"
proof -
  define q where "q = (m + THREAD_MIN_STACK) div 16"
  have r: "0 \<le> (m + THREAD_MIN_STACK) mod 16" "(m + THREAD_MIN_STACK) mod 16 < 16" by simp_all
  have sp: "stack_pointer m = m + THREAD_MIN_STACK - (m + THREAD_MIN_STACK) mod 16 - 8" by (simp add: stack_pointer_def Let_def)
  also have "\<dots> = 16 * q - 8" unfolding q_def using div_mult_mod_eq [of "m + THREAD_MIN_STACK" 16] by linarith
  also have "\<dots> = 8 + (q - 1) * 16" by simp
  finally show "stack_pointer m mod 16 = 8" by (simp only: mod_mult_self1) simp
  show "m \<le> stack_pointer m" "stack_pointer m + 8 \<le> m + THREAD_MIN_STACK" unfolding sp using r by linarith+
qed

text \<open>
  C32: \<open>thread_create\<close>.  It takes the first slot that is not in use; the new thread waits at the
  end of the ready queue, its context starts \<open>fn(arg)\<close> on a stack pointer inside its own block that is
  8 modulo 16.  When all slots are taken the result is \<open>THREAD_NOMORE\<close> and nothing changes.  When no
  memory is left the result is \<open>THREAD_NOMEMORY\<close>, and the slot stays marked as valid.
\<close>

theorem thread_create_correct:
  assumes "sched_ok s Q" "m \<notin> stacks s"
  shows "(\<forall>i < THREAD_MAX_THREADS. isValid (TCB s ! i)) \<and> thread_create fn arg m fs s = Inr (Ret fs THREAD_NOMORE, s)
    \<or> (\<exists>j s'. j < THREAD_MAX_THREADS \<and> \<not> isValid (TCB s ! j) \<and> (\<forall>i < j. isValid (TCB s ! i)) \<and> isValid (TCB s' ! j)
        \<and> current s' = current s \<and> interrupts s' = interrupts s
        \<and> (if m = 0 then thread_create fn arg m fs s = Inr (Ret fs THREAD_NOMEMORY, s') \<and> sched_ok s' Q
           else thread_create fn arg m fs s = Inr (Ret fs (int j), s') \<and> sched_ok s' (Q(0 := Q 0 @ [j]))
             \<and> stacks s' = insert m (stacks s) \<and> stack_memory (TCB s' ! j) = m
             \<and> saved s' j = [FStub fn arg (stack_pointer m)] \<and> stack_pointer m mod 16 = 8
             \<and> m \<le> stack_pointer m \<and> stack_pointer m + 8 \<le> m + THREAD_MIN_STACK))"
proof (cases "\<forall>i < THREAD_MAX_THREADS. isValid (TCB s ! i)")
  case True
  then show ?thesis using create_none [OF assms(1)] by blast
next
  case False
  define j where "j = (LEAST i. i < THREAD_MAX_THREADS \<and> \<not> isValid (TCB s ! i))"
  have j: "j < THREAD_MAX_THREADS" "\<not> isValid (TCB s ! j)"
    using LeastI_ex [of "\<lambda>i. i < THREAD_MAX_THREADS \<and> \<not> isValid (TCB s ! i)"] False unfolding j_def by blast+
  have v: "isValid (TCB s ! i)" if "i < j" for i
    using not_less_Least [of i "\<lambda>i. i < THREAD_MAX_THREADS \<and> \<not> isValid (TCB s ! i)"] that j(1) unfolding j_def by auto
  note sp = stack_pointer_bounds [of m]
  show ?thesis
  proof (rule create_some [OF assms(1) j v assms(2), of fn arg fs], assumption)
    fix s' assume s': "thread_create fn arg m fs s = Inr (Ret fs (if m = 0 then THREAD_NOMEMORY else int j), s')"
      "sched_ok s' (if m = 0 then Q else Q(0 := Q 0 @ [j]))" "current s' = current s" "interrupts s' = interrupts s"
      "stacks s' = (if m = 0 then stacks s else insert m (stacks s))"
      and c: "core (TCB s' ! j) = core (new_thread (TCB s ! j) j fn arg (if m = 0 then 0 else stack_pointer m) m)"
    have "isValid (TCB s' ! j) = isValid (core (TCB s' ! j))" "stack_memory (TCB s' ! j) = stack_memory (core (TCB s' ! j))"
      "saved s' j = frames (thread_context (core (TCB s' ! j)))" by (simp_all add: core_def saved_def)
    then have n: "isValid (TCB s' ! j)" "stack_memory (TCB s' ! j) = m" "m \<noteq> 0 \<Longrightarrow> saved s' j = [FStub fn arg (stack_pointer m)]"
      unfolding c by (simp_all add: core_def new_thread_def)
    show ?thesis
      by (rule disjI2, intro exI [of _ j] exI [of _ s'] conjI allI impI)
         (use j v s' n sp in \<open>cases "m = 0"; simp del: fun_upd_apply\<close>)+
  qed
qed

theorem thread_create_correct_witness:
  "\<exists>s. thread_create 7 8 4096 [] (initial True) = Inr (Ret [] 1, s) \<and> saved s 1 = [FStub 7 8 36856]"
proof -
  have v: "isValid (TCB (initial True) ! 0)" "\<not> isValid (TCB (initial True) ! 1)" by (simp_all add: initial_TCB zero_thread_def)
  have m: "4096 \<notin> stacks (initial True)" by simp
  have j: "j = 1" if "\<not> isValid (TCB (initial True) ! j)" "\<forall>i < j. isValid (TCB (initial True) ! i)" for j
    using that v by (metis less_one linorder_neqE_nat)
  have nv: "\<not> (\<forall>i < THREAD_MAX_THREADS. isValid (TCB (initial True) ! i))"
  proof
    assume "\<forall>i < THREAD_MAX_THREADS. isValid (TCB (initial True) ! i)"
    from spec [OF this, of 1] v(2) show False by simp
  qed
  have "stack_pointer 4096 = 36856" by (simp add: stack_pointer_def Let_def)
  with thread_create_correct [OF initial_ok m, of 7 8 "[]"] nv j show ?thesis by force
qed

text \<open>
  C33: \<open>thread_exit\<close>.  The last thread that can run gets \<open>THREAD_NONE\<close>; else the calling thread never
  runs again: its slot is free, its stack is kept until another thread yields or exits, the stack
  that was waiting to be freed is freed, and the head of the ready queue runs.
\<close>

theorem thread_exit_correct:
  assumes "sched_ok s Q"
  shows "case Q 0 of
      [] \<Rightarrow> thread_exit fs s = Inr (Ret fs THREAD_NONE, freed s)
    | x # xs \<Rightarrow> \<exists>s'. thread_exit fs s = Inr (fst (resume_of (saved s x)), s') \<and> sched_ok s' (Q(0 := xs))
        \<and> current s' = x \<and> interrupts s' = snd (resume_of (saved s x)) \<and> \<not> isValid (TCB s' ! current s)
        \<and> stacks s' = stacks s - {pending s} \<and> pending s' = stack_memory (TCB s ! current s)
        \<and> (\<forall>i. i \<noteq> current s \<longrightarrow> TCB s' ! i = TCB s ! i)"
proof (cases "Q 0")
  case Nil
  then show ?thesis using exit_none [OF assms Nil] by simp
next
  case (Cons x xs)
  show ?thesis
    by (rule exit_some [OF assms Cons, of fs]) (use Cons in \<open>auto simp del: fun_upd_apply\<close>)
qed

theorem thread_exit_correct_witness:
  "\<exists>s s'. sched_ok s ((\<lambda>_. [])(0 := [1])) \<and> thread_exit [] s = Inr (Ret [] 0, s') \<and> current s' = 1
    \<and> \<not> isValid (TCB s' ! 0)"
proof -
  obtain s where s: "sched_ok s ((\<lambda>_. [])(0 := [1]))" "current s = 0" "saved s 1 = [FStub 7 8 (stack_pointer 4096)]"
    by (rule first_thread)
  from thread_exit_correct [OF s(1), of "[]"] s(2,3) obtain s' where
    "thread_exit [] s = Inr (Ret [] 0, s')" "current s' = 1" "\<not> isValid (TCB s' ! 0)" by auto
  with s(1) show ?thesis by blast
qed

text \<open>
  C31: \<open>thread_kill\<close>.  A thread of the ready queue is taken out of it and its slot and its stack are
  freed, except the stack of thread 0, which is never freed; the order of the others is kept.  Any
  other number, that of a sleeping thread included, gives \<open>THREAD_INVALID\<close> and nothing changes.
\<close>

theorem thread_kill_correct:
  assumes "sched_ok s Q"
  shows "(\<forall>i \<in> set (Q 0). int i \<noteq> tid) \<and> thread_kill tid fs s = Inr (Ret fs THREAD_INVALID, s)
    \<or> (\<exists>xs x ys s'. Q 0 = xs @ x # ys \<and> tid = int x \<and> thread_kill tid fs s = Inr (Ret fs tid, s')
        \<and> sched_ok s' (Q(0 := xs @ ys)) \<and> current s' = current s \<and> interrupts s' = interrupts s
        \<and> \<not> isValid (TCB s' ! x) \<and> stacks s' = stacks s - (if x = 0 then {} else {stack_memory (TCB s ! x)})
        \<and> (\<forall>i < THREAD_MAX_THREADS. i \<noteq> x \<longrightarrow> core (TCB s' ! i) = core (TCB s ! i)))"
proof (cases "\<exists>x \<in> set (Q 0). tid = int x")
  case True
  then obtain x xs ys where x: "tid = int x" "Q 0 = xs @ x # ys" by (meson split_list)
  show ?thesis
    by (rule kill_some [OF assms x(2), of fs], rule disjI2)
       (rule exI [of _ xs], rule exI [of _ x], rule exI [of _ ys], rule exI, intro conjI allI impI; (assumption | simp add: x))
next
  case False
  then show ?thesis using kill_invalid [OF assms, of tid fs] by auto
qed

theorem thread_kill_correct_witness:
  "\<exists>s s'. sched_ok s ((\<lambda>_. [])(0 := [1])) \<and> thread_kill 1 [] s = Inr (Ret [] 1, s') \<and> \<not> isValid (TCB s' ! 1)
    \<and> thread_kill 5 [] s = Inr (Ret [] THREAD_INVALID, s)"
proof -
  obtain s where s: "sched_ok s ((\<lambda>_. [])(0 := [1]))" by (rule first_thread)
  note k = thread_kill_correct [OF s]
  from k [of 1 "[]"] obtain s' where "thread_kill 1 [] s = Inr (Ret [] 1, s')" "\<not> isValid (TCB s' ! 1)"
    by (auto simp: Cons_eq_append_conv)
  with k [of 5 "[]"] s show ?thesis by (auto simp: Cons_eq_append_conv)
qed

text \<open>
  C25: the ready queue is served in turn.  If every thread that runs yields, then after \<open>n\<close> yields
  the thread runs that is \<open>n\<close> places on, counting round from the caller, so that with \<open>k\<close> ready
  threads each of them has run within \<open>k\<close> yields; after \<open>k + 1\<close> yields the caller runs again, with
  the queue as it was.
\<close>

theorem yield_round_robin:
  assumes "sched_ok s Q"
  shows "(\<forall>n. \<exists>s'. rounds yield_step n s = Inr s' \<and> current s' = (current s # Q 0) ! (n mod Suc (length (Q 0))))
    \<and> (\<exists>s'. rounds yield_step (Suc (length (Q 0))) s = Inr s' \<and> current s' = current s \<and> sched_ok s' Q)"
proof (intro conjI allI)
  note r = runnable_of [OF assms]
  show "\<exists>s'. rounds yield_step n s = Inr s' \<and> current s' = (current s # Q 0) ! (n mod Suc (length (Q 0)))" for n
    using yr.served_in_turn [OF r, of n] by (auto simp: runnable_def)
  show "\<exists>s'. rounds yield_step (Suc (length (Q 0))) s = Inr s' \<and> current s' = current s \<and> sched_ok s' Q"
    using yr.full_round [OF r] by (auto simp: runnable_def)
qed

theorem yield_round_robin_witness:
  "\<exists>s s1 s2. sched_ok s ((\<lambda>_. [])(0 := [1])) \<and> rounds yield_step 1 s = Inr s1 \<and> current s1 = 1
    \<and> rounds yield_step 2 s = Inr s2 \<and> current s2 = 0"
proof -
  obtain s where s: "sched_ok s ((\<lambda>_. [])(0 := [1]))" "current s = 0" by (rule first_thread)
  from yield_round_robin [OF s(1)] s(2)
  have r: "\<exists>s'. rounds yield_step n s = Inr s' \<and> current s' = [0, 1] ! (n mod 2)" for n
    by (simp add: numeral_2_eq_2)
  from r [of 1] r [of 2] s(1) show ?thesis by fastforce
qed









text \<open>
  C8: mutual exclusion.  In a run where only the holder of a lock releases it or waits on a condition
  with it, the lock is available exactly when no thread holds it; and while a thread holds it, a
  \<open>lock_acquire\<close> of any other thread (or of the same one) does not get past its loop but goes to sleep
  on the queue of the lock.
\<close>

theorem lock_mutual_exclusion:
  assumes "lock_run l (c, s) h"
  shows "\<exists>k. locks s l = Some k \<and> (available k \<longleftrightarrow> h = None)
    \<and> (h \<noteq> None \<longrightarrow> (\<forall>en fs. continue (Acquire l en fs) s = thread_sleep (lock_waitQ k) (FAcquire l en # fs) s))
    \<and> (h = None \<longrightarrow> (\<forall>en fs. \<exists>s'. continue (Acquire l en fs) s = Inr (Ret fs 0, s') \<and> hasLock (TCB s' ! current s)
          \<and> locks s' l = Some (k\<lparr>available := False\<rparr>) \<and> interrupts s' = en))"
proof -
  from lock_run_inv [OF assms] obtain Q k where Q: "sched_ok s Q" and k: "locks s l = Some k" "available k \<longleftrightarrow> h = None"
    by (auto simp: lock_inv_def)
  have cur: "current s < length (TCB s)" using so_current [OF Q] so_length [OF Q] by simp
  show ?thesis
    by (rule exI [of _ k]) (use k cur in \<open>auto simp: continue_def acquire_round_def lookup_def finish_def\<close>)
qed

theorem lock_mutual_exclusion_witness:
  "\<exists>s c s' c' s''. do_call (LockCreate 16 32) (initial True) = Inr (c, s) \<and> do_call (LockAcquire 16) s = Inr (Acquire 16 True [], s')
    \<and> continue (Acquire 16 True []) s' = Inr (Ret [] 0, s'') \<and> lock_run 16 (Ret [] 0, s'') (Some 0)"
proof -
  let ?w = "\<lparr>head = None, tail = None\<rparr> :: queue"
  let ?s = "(initial True)\<lparr>wait_queues := [32 \<mapsto> ?w], locks := [16 \<mapsto> \<lparr>lock_waitQ = 32, available = True\<rparr>]\<rparr>"
  have c: "do_call (LockCreate 16 32) (initial True) = Inr (Ret [] 16, ?s)"
    by (simp add: lock_create_def interrupts_set_def wait_queue_create_def finish_def)
  have "sched_ok ((initial True)\<lparr>wait_queues := (wait_queues (initial True))(32 \<mapsto> ?w)\<rparr>) (\<lambda>_. [])"
    by (rule wq_create_ok [OF initial_ok]) simp_all
  from sched_ok_heap(1) [OF this] have ok: "sched_ok ?s (\<lambda>_. [])" by simp
  have r0: "lock_run 16 (Ret [] 16, ?s) None" by (rule run_start [where k = "\<lparr>lock_waitQ = 32, available = True\<rparr>", OF ok]) simp_all
  have a: "do_call (LockAcquire 16) ?s = Inr (Acquire 16 True [], ?s\<lparr>interrupts := False\<rparr>)"
    by (simp add: lock_acquire_def interrupts_set_def)
  have r1: "lock_run 16 (Acquire 16 True [], ?s\<lparr>interrupts := False\<rparr>) None"
    by (rule run_call [OF r0 _ _ a]) simp_all
  from lock_mutual_exclusion [OF r1] obtain s'' where s'': "continue (Acquire 16 True []) (?s\<lparr>interrupts := False\<rparr>) = Inr (Ret [] 0, s'')"
    by auto
  have "lock_run 16 (Ret [] 0, s'') (Some (current (?s\<lparr>interrupts := False\<rparr>)))"
    by (rule run_acquire [where k = "\<lparr>lock_waitQ = 32, available = True\<rparr>", OF r1 _ _ s'']) simp_all
  then have "lock_run 16 (Ret [] 0, s'') (Some 0)" by simp
  with c a s'' show ?thesis by blast
qed

end
