(* ===== verification/Rio.thy ===== *)
theory Rio
  imports CString Results
begin

text \<open>
  The robust input and output of \<open>src/webserver/common.c\<close>.  A descriptor is given by what the
  system calls on it will answer, in turn: \<open>read\<close> delivers some bytes (as many of them as it is
  asked for), or is interrupted, or fails, and is at the end of the file when nothing is left;
  \<open>write\<close> accepts some bytes, or is interrupted, or fails.  The specification is the stream of
  bytes that is still to be read, however it is cut into pieces.
\<close>

section \<open>The system calls\<close>

text \<open>An empty delivery is an end of file, which is final.\<close>

datatype delivery = Delivered "byte list" | ReadInterrupted | ReadFailed

datatype sysret = Bytes "byte list" | Eintr | Eother

fun sys_read :: "nat \<Rightarrow> delivery list \<Rightarrow> sysret \<times> delivery list" where
  "sys_read n [] = (Bytes [], [])"
| "sys_read n (Delivered bs # ds) =
     (if bs = [] then (Bytes [], Delivered [] # ds)
      else if length bs \<le> n then (Bytes bs, ds) else (Bytes (take n bs), Delivered (drop n bs) # ds))"
| "sys_read n (ReadInterrupted # ds) = (Eintr, ds)"
| "sys_read n (ReadFailed # ds) = (Eother, ds)"

text \<open>A write of at least one byte accepts at least one byte; with no answers left it accepts all.\<close>

datatype acceptance = Accepted nat | WriteInterrupted | WriteFailed

section \<open>The code\<close>

abbreviation (input) RIO_BUFSIZE :: nat where "RIO_BUFSIZE \<equiv> 8192"

record rio =
  rio_fd :: "delivery list"
  rio_cnt :: int
  rio_bufptr :: nat
  rio_buf :: "byte list"

definition rio_init :: "delivery list \<Rightarrow> rio" where
  "rio_init fd = \<lparr>rio_fd = fd, rio_cnt = 0, rio_bufptr = 0, rio_buf = replicate RIO_BUFSIZE 0\<rparr>"

text \<open>Unbuffered reading: the bytes read, and the result, which is -1 on failure.\<close>

function rio_read_loop :: "nat \<Rightarrow> byte list \<Rightarrow> delivery list \<Rightarrow> int \<times> byte list \<times> delivery list" where
  "rio_read_loop nleft got fd =
     (if nleft > 0 then
        case sys_read nleft fd of
          (Bytes bs, fd') \<Rightarrow>
            if bs = [] then (int (length got), got, fd')
            else rio_read_loop (nleft - length bs) (got @ bs) fd'
        | (Eintr, fd') \<Rightarrow> rio_read_loop nleft got fd'
        | (Eother, fd') \<Rightarrow> (- 1, got, fd')
      else (int (length got), got, fd))"
  by pat_completeness auto
termination
  apply (relation "measure (\<lambda>(n, got, fd). n + length fd)")
    apply simp
   subgoal for nleft got fd x fd' bs
     by (cases "(nleft, fd)" rule: sys_read.cases) (auto split: if_splits)
  subgoal for nleft got fd x fd'
    by (cases "(nleft, fd)" rule: sys_read.cases) (auto split: if_splits)
  done

declare rio_read_loop.simps [simp del]

definition rio_read :: "delivery list \<Rightarrow> nat \<Rightarrow> int \<times> byte list \<times> delivery list" where
  "rio_read fd n = rio_read_loop n [] fd"

fun rio_write :: "acceptance list \<Rightarrow> byte list \<Rightarrow> int \<times> byte list \<times> acceptance list" where
  "rio_write as [] = (0, [], as)"
| "rio_write [] bs = (int (length bs), bs, [])"
| "rio_write (Accepted k # as) bs =
     (let n = max 1 (min k (length bs)); (ret, sent, as') = rio_write as (drop n bs)
      in (if ret < 0 then ret else int (length bs), take n bs @ sent, as'))"
| "rio_write (WriteInterrupted # as) bs = rio_write as bs"
| "rio_write (WriteFailed # as) bs = (- 1, [], as)"

text \<open>The loop that refills an empty buffer: 1 when there is something in it, 0 at the end, -1 on failure.\<close>

function rio_refill :: "rio \<Rightarrow> int \<times> rio" where
  "rio_refill rp =
     (if rio_cnt rp > 0 then (1, rp)
      else
        case sys_read RIO_BUFSIZE (rio_fd rp) of
          (Bytes bs, fd) \<Rightarrow>
            let rp' = rp\<lparr>rio_fd := fd, rio_cnt := int (length bs), rio_buf := bs @ drop (length bs) (rio_buf rp)\<rparr>
            in if bs = [] then (0, rp') else rio_refill (rp'\<lparr>rio_bufptr := 0\<rparr>)
        | (Eintr, fd) \<Rightarrow> rio_refill (rp\<lparr>rio_fd := fd, rio_cnt := - 1\<rparr>)
        | (Eother, fd) \<Rightarrow> (- 1, rp\<lparr>rio_fd := fd, rio_cnt := - 1\<rparr>))"
  by pat_completeness auto
termination
  apply (relation "measures [\<lambda>rp. if rio_cnt rp > 0 then 0 else 1, \<lambda>rp. length (rio_fd rp)]")
    apply simp
   apply simp
  subgoal for rp x fd
    by (cases "(RIO_BUFSIZE, rio_fd rp)" rule: sys_read.cases) (auto split: if_splits)
  done

declare rio_refill.simps [simp del]

text \<open>The result, the bytes copied to the user's buffer, and the new state.\<close>

definition rio_readb :: "rio \<Rightarrow> nat \<Rightarrow> (int \<times> byte list \<times> rio) result" where
  "rio_readb rp n =
     (let (ret, rp) = rio_refill rp in
      if ret \<noteq> 1 then Inr (ret, [], rp)
      else
        let cnt = (if rio_cnt rp < int n then nat (rio_cnt rp) else n) in
        bindr (memcpy (replicate cnt 0) 0 (rio_buf rp) (int (rio_bufptr rp)) (int cnt)) (\<lambda>bs.
        Inr (int cnt, bs, rp\<lparr>rio_bufptr := rio_bufptr rp + cnt, rio_cnt := rio_cnt rp - int cnt\<rparr>)))"

text \<open>
  \<open>usrbuf\<close> is the array that the caller passes.  After \<open>n\<close> bytes the pointer \<open>bufp\<close> is \<open>usrbuf + n\<close>.
\<close>

function rio_readlineb_loop :: "nat \<Rightarrow> nat \<Rightarrow> byte list \<Rightarrow> rio \<Rightarrow> (int \<times> byte list \<times> rio) result" where
  "rio_readlineb_loop maxlen n usrbuf rp =
     (if n < maxlen then
        bindr (rio_readb rp 1) (\<lambda>(rc, bs, rp).
        if rc = 1 then
          bindr (arr_set usrbuf n (hd bs)) (\<lambda>usrbuf.
          if hd bs = 10 then bindr (arr_set usrbuf (n + 1) 0) (\<lambda>usrbuf. Inr (int (n + 1), usrbuf, rp))
          else rio_readlineb_loop maxlen (n + 1) usrbuf rp)
        else if rc = 0 then
          if n = 0 then Inr (0, usrbuf, rp)
          else bindr (arr_set usrbuf n 0) (\<lambda>usrbuf. Inr (int n, usrbuf, rp))
        else Inr (- 1, usrbuf, rp))
      else bindr (arr_set usrbuf n 0) (\<lambda>usrbuf. Inr (int n, usrbuf, rp)))"
  by pat_completeness auto
termination
  by (relation "measure (\<lambda>(maxlen, n, usrbuf, rp). maxlen - n)") auto

declare rio_readlineb_loop.simps [simp del]

definition rio_readlineb :: "rio \<Rightarrow> byte list \<Rightarrow> nat \<Rightarrow> (int \<times> byte list \<times> rio) result" where
  "rio_readlineb rp usrbuf maxlen = rio_readlineb_loop maxlen 0 usrbuf rp"

text \<open>The wrappers end the process when a call fails.\<close>

definition Rio_read :: "delivery list \<Rightarrow> nat \<Rightarrow> (byte list \<times> delivery list) result" where
  "Rio_read fd n = (let (ret, bs, fd') = rio_read fd n in if ret < 0 then Inl ExitFailure else Inr (bs, fd'))"

definition Rio_write :: "acceptance list \<Rightarrow> byte list \<Rightarrow> (byte list \<times> acceptance list) result" where
  "Rio_write as bs =
     (let (ret, sent, as') = rio_write as bs
      in if ret \<noteq> int (length bs) then Inl ExitFailure else Inr (sent, as'))"

definition Rio_readlineb :: "rio \<Rightarrow> byte list \<Rightarrow> nat \<Rightarrow> (int \<times> byte list \<times> rio) result" where
  "Rio_readlineb rp usrbuf maxlen =
     bindr (rio_readlineb rp usrbuf maxlen) (\<lambda>(rc, usrbuf, rp).
     if rc < 0 then Inl ExitFailure else Inr (rc, usrbuf, rp))"

end
