(* ===== verification/RioSpec.thy ===== *)
theory RioSpec
  imports Rio
begin

text \<open>
  What \<open>Rio\<close> promises: reading gives the bytes of the stream in order, however they are delivered;
  a line is what a reference function cuts off the stream; writing sends all bytes.
\<close>

section \<open>The stream\<close>

fun delivered :: "delivery \<Rightarrow> byte list" where
  "delivered (Delivered bs) = bs"
| "delivered _ = []"

definition inflow :: "delivery list \<Rightarrow> byte list" where
  "inflow fd = concat (map delivered fd)"

text \<open>No call fails, and there is no end of file before the last byte.\<close>

definition reliable :: "delivery list \<Rightarrow> bool" where
  "reliable fd \<longleftrightarrow> (\<forall>d \<in> set fd. d \<noteq> ReadFailed \<and> d \<noteq> Delivered [])"

definition rio_stream :: "rio \<Rightarrow> byte list" where
  "rio_stream rp = take (nat (rio_cnt rp)) (drop (rio_bufptr rp) (rio_buf rp)) @ inflow (rio_fd rp)"

definition rio_ok :: "rio \<Rightarrow> bool" where
  "rio_ok rp \<longleftrightarrow> reliable (rio_fd rp) \<and> length (rio_buf rp) = RIO_BUFSIZE
     \<and> (0 < rio_cnt rp \<longrightarrow> rio_bufptr rp + nat (rio_cnt rp) \<le> RIO_BUFSIZE)"

lemma inflow_simps [simp]: "inflow [] = []" "inflow (d # ds) = delivered d @ inflow ds"
  by (simp_all add: inflow_def)

lemma reliable_simps [simp]: "reliable []" "reliable (d # ds) \<longleftrightarrow> d \<noteq> ReadFailed \<and> d \<noteq> Delivered [] \<and> reliable ds"
  by (auto simp: reliable_def)

lemma rio_init_ok: "reliable fd \<Longrightarrow> rio_ok (rio_init fd) \<and> rio_stream (rio_init fd) = inflow fd"
  by (simp add: rio_ok_def rio_init_def rio_stream_def)

lemma sys_read_cases:
  assumes "reliable fd" "0 < n"
  obtains (bytes) bs fd' where "sys_read n fd = (Bytes bs, fd')" "length bs \<le> n" "reliable fd'"
      "inflow fd = bs @ inflow fd'" "bs = [] \<longleftrightarrow> inflow fd = []"
  | (interrupted) fd' where "sys_read n fd = (Eintr, fd')" "reliable fd'" "inflow fd' = inflow fd"
      "length fd' < length fd"
proof (cases fd)
  case Nil
  then show thesis by (intro bytes [of "[]" "[]"]) simp_all
next
  case (Cons d ds)
  show thesis
  proof (cases d)
    case (Delivered bs)
    with Cons assms show thesis
      by (cases "length bs \<le> n") (auto intro: bytes [of bs ds] bytes [of "take n bs" "Delivered (drop n bs) # ds"])
  qed (use Cons assms interrupted [of ds] in auto)
qed

section \<open>Unbuffered reading and writing\<close>

lemma rio_read_loop_spec:
  "reliable fd \<Longrightarrow> \<exists>fd'. rio_read_loop nleft got fd = (int (length (got @ take nleft (inflow fd))), got @ take nleft (inflow fd), fd')
     \<and> reliable fd' \<and> inflow fd' = drop nleft (inflow fd)"
proof (induction nleft got fd rule: rio_read_loop.induct)
  case (1 nleft got fd)
  show ?case
  proof (cases "nleft > 0")
    case pos: True
    from 1(3) pos show ?thesis
    proof (cases rule: sys_read_cases)
      case (bytes bs fd')
      show ?thesis
      proof (cases "bs = []")
        case True
        with bytes pos show ?thesis by (simp add: rio_read_loop.simps [of nleft])
      next
        case False
        with 1(1) [OF pos bytes(1) [symmetric] refl False bytes(3)] bytes pos show ?thesis
          by (auto simp: rio_read_loop.simps [of nleft got fd])
      qed
    next
      case (interrupted fd')
      with 1(2) [OF pos interrupted(1) [symmetric] refl interrupted(2)] pos show ?thesis
        by (simp add: rio_read_loop.simps [of nleft got fd])
    qed
  qed (use 1(3) in \<open>simp add: rio_read_loop.simps [of 0]\<close>)
qed

lemma rio_read_spec:
  assumes "reliable fd"
  obtains fd' where "rio_read fd n = (int (length (take n (inflow fd))), take n (inflow fd), fd')"
    "reliable fd'" "inflow fd' = drop n (inflow fd)"
  using rio_read_loop_spec [OF assms, of n "[]"] by (auto simp: rio_read_def)

lemma rio_write_spec:
  "WriteFailed \<notin> set as \<Longrightarrow> \<exists>as'. rio_write as bs = (int (length bs), bs, as') \<and> set as' \<subseteq> set as"
proof (induction as bs rule: rio_write.induct)
  case (3 k as v va)
  then obtain as' where "rio_write as (drop (max 1 (min k (length (v # va)))) (v # va))
      = (int (length (drop (max 1 (min k (length (v # va)))) (v # va))), drop (max 1 (min k (length (v # va)))) (v # va), as')"
    "set as' \<subseteq> set as"
    by (metis list.set_intros(2))
  then show ?case by (auto simp: Let_def)
qed auto

lemma Rio_write_spec:
  assumes "WriteFailed \<notin> set as"
  obtains as' where "Rio_write as bs = Inr (bs, as')" "WriteFailed \<notin> set as'"
proof -
  from rio_write_spec [OF assms, of bs] obtain as' where "rio_write as bs = (int (length bs), bs, as')" "set as' \<subseteq> set as"
    by blast
  with assms show thesis by (intro that [of as']) (auto simp: Rio_write_def)
qed

section \<open>Buffered reading\<close>

lemma rio_refill_spec:
  "rio_ok rp \<Longrightarrow> \<exists>rp'. rio_refill rp = (if rio_stream rp = [] then 0 else 1, rp') \<and> rio_ok rp'
     \<and> rio_stream rp' = rio_stream rp \<and> (rio_stream rp \<noteq> [] \<longrightarrow> 0 < rio_cnt rp')"
proof (induction rp rule: rio_refill.induct)
  case (1 rp)
  show ?case
  proof (cases "rio_cnt rp > 0")
    case True
    with 1(3) have "rio_stream rp \<noteq> []" by (auto simp: rio_stream_def rio_ok_def)
    with True 1(3) show ?thesis by (simp add: rio_refill.simps [of rp])
  next
    case empty: False
    then have s: "rio_stream rp = inflow (rio_fd rp)" by (simp add: rio_stream_def)
    have ok: "reliable (rio_fd rp)" "length (rio_buf rp) = RIO_BUFSIZE" using 1(3) by (simp_all add: rio_ok_def)
    have "0 < RIO_BUFSIZE" by simp
    with ok(1) show ?thesis
    proof (cases rule: sys_read_cases)
      case (bytes bs fd')
      let ?rp = "rp\<lparr>rio_fd := fd', rio_cnt := int (length bs), rio_buf := bs @ drop (length bs) (rio_buf rp)\<rparr>"
      show ?thesis
      proof (cases "bs = []")
        case True
        with bytes empty ok s show ?thesis
          by (simp add: rio_refill.simps [of rp] rio_ok_def rio_stream_def)
      next
        case False
        have "rio_ok (?rp\<lparr>rio_bufptr := 0\<rparr>)" "rio_stream (?rp\<lparr>rio_bufptr := 0\<rparr>) = rio_stream rp"
          unfolding s using bytes ok False by (simp_all add: rio_ok_def rio_stream_def)
        with 1(1) [OF empty bytes(1) [symmetric] refl refl False] bytes(1) empty False show ?thesis
          by (simp add: rio_refill.simps [of rp] Let_def)
      qed
    next
      case (interrupted fd')
      have "rio_ok (rp\<lparr>rio_fd := fd', rio_cnt := - 1\<rparr>)" "rio_stream (rp\<lparr>rio_fd := fd', rio_cnt := - 1\<rparr>) = rio_stream rp"
        unfolding s using interrupted ok by (simp_all add: rio_ok_def rio_stream_def)
      with 1(2) [OF empty interrupted(1) [symmetric] refl] interrupted(1) empty show ?thesis
        by (simp add: rio_refill.simps [of rp])
    qed
  qed
qed

lemma rio_readb_spec:
  assumes "rio_ok rp"
  shows "rio_stream rp = [] \<Longrightarrow> \<exists>rp'. rio_readb rp 1 = Inr (0, [], rp') \<and> rio_ok rp' \<and> rio_stream rp' = []"
    "rio_stream rp = b # bs \<Longrightarrow> \<exists>rp'. rio_readb rp 1 = Inr (1, [b], rp') \<and> rio_ok rp' \<and> rio_stream rp' = bs"
proof -
  from rio_refill_spec [OF assms] obtain rp1 where r: "rio_refill rp = (if rio_stream rp = [] then 0 else 1, rp1)"
    and ok: "rio_ok rp1" "rio_stream rp1 = rio_stream rp" "rio_stream rp \<noteq> [] \<longrightarrow> 0 < rio_cnt rp1" by blast
  show "\<exists>rp'. rio_readb rp 1 = Inr (0, [], rp') \<and> rio_ok rp' \<and> rio_stream rp' = []" if "rio_stream rp = []"
    using that r ok by (simp add: rio_readb_def)
  assume s: "rio_stream rp = b # bs"
  then have pos: "0 < rio_cnt rp1" using ok(3) by simp
  let ?p = "rio_bufptr rp1" and ?n = "nat (rio_cnt rp1)"
  have bound: "?p + ?n \<le> length (rio_buf rp1)" "?p < length (rio_buf rp1)" using ok(1) pos by (auto simp: rio_ok_def)
  then have hd: "take 1 (drop ?p (rio_buf rp1)) = [rio_buf rp1 ! ?p]"
    "take ?n (drop ?p (rio_buf rp1)) = rio_buf rp1 ! ?p # take (nat (rio_cnt rp1 - 1)) (drop (?p + 1) (rio_buf rp1))"
    using pos by (simp_all add: Cons_nth_drop_Suc [symmetric] take_Cons' nat_diff_distrib)
  have b: "rio_buf rp1 ! ?p = b" "take (nat (rio_cnt rp1 - 1)) (drop (?p + 1) (rio_buf rp1)) @ inflow (rio_fd rp1) = bs"
    using ok(2) s by (simp_all add: rio_stream_def hd(2))
  have "memcpy (replicate 1 0) 0 (rio_buf rp1) (int ?p) 1 = Inr [b]"
    using memcpy_in [of 0 1 "replicate 1 0" ?p "rio_buf rp1"] bound(2) hd(1) b(1) by simp
  moreover have "\<not> rio_cnt rp1 < 1" using pos by simp
  ultimately show "\<exists>rp'. rio_readb rp 1 = Inr (1, [b], rp') \<and> rio_ok rp' \<and> rio_stream rp' = bs"
    using r [unfolded s] ok(1) b(2) pos
    by (simp add: rio_readb_def rio_ok_def) (auto simp: rio_stream_def)
qed

section \<open>Lines\<close>

text \<open>The next line of a stream, with its newline, cut off after \<open>n\<close> bytes.\<close>

fun next_line :: "nat \<Rightarrow> byte list \<Rightarrow> byte list" where
  "next_line 0 bs = []"
| "next_line n [] = []"
| "next_line (Suc n) (b # bs) = (if b = 10 then [b] else b # next_line n bs)"

lemma next_line_length: "length (next_line n bs) \<le> n" "length (next_line n bs) \<le> length bs"
  by (induction n bs rule: next_line.induct) auto

lemma put_line:
  assumes "n < length buf"
  shows "take (n + 1) (buf[n := b]) @ xs = take n buf @ b # xs"
  using assms by (simp add: take_Suc_conv_app_nth)

lemma readlineb_loop_spec:
  assumes "rio_ok rp" "n \<le> maxlen" "maxlen \<le> length buf" "rio_stream rp \<noteq> [] \<or> 0 < n \<or> maxlen = 0"
  shows "let line = next_line (maxlen - n) (rio_stream rp) in
    if n + length line < length buf then
      \<exists>rp'. rio_readlineb_loop maxlen n buf rp
          = Inr (int (n + length line), take n buf @ line @ 0 # drop (n + length line + 1) buf, rp')
        \<and> rio_ok rp' \<and> rio_stream rp' = drop (length line) (rio_stream rp)
    else rio_readlineb_loop maxlen n buf rp = Inl OutOfBounds"
  using assms
proof (induction "maxlen - n" arbitrary: n buf rp)
  case 0
  then have "n = maxlen" by simp
  with 0 show ?case
    unfolding rio_readlineb_loop.simps [of maxlen n buf rp] by (auto simp: arr_set_def upd_conv_take_nth_drop)
next
  case (Suc k)
  then have n: "n < maxlen" "n < length buf" and k: "maxlen - n = Suc k" "maxlen - (n + 1) = k" by simp_all
  show ?case
  proof (cases "rio_stream rp")
    case Nil
    with rio_readb_spec(1) [OF Suc.prems(1)] obtain rp' where "rio_readb rp 1 = Inr (0, [], rp')" "rio_ok rp'" "rio_stream rp' = []"
      by blast
    with n Suc.prems(4) Nil k show ?thesis
      by (simp add: rio_readlineb_loop.simps [of maxlen n] upd_conv_take_nth_drop)
  next
    case (Cons b bs)
    with rio_readb_spec(2) [OF Suc.prems(1) Cons] obtain rp' where r: "rio_readb rp 1 = Inr (1, [b], rp')" "rio_ok rp'" "rio_stream rp' = bs"
      by blast
    have step: "rio_readlineb_loop maxlen n buf rp =
        (if b = 10 then bindr (arr_set (buf[n := b]) (n + 1) 0) (\<lambda>buf. Inr (int (n + 1), buf, rp'))
         else rio_readlineb_loop maxlen (n + 1) (buf[n := b]) rp')"
      using n r(1) by (simp add: rio_readlineb_loop.simps [of maxlen n])
    show ?thesis
    proof (cases "b = 10")
      case True
      have "buf[n := b, n + 1 := 0] = take n buf @ [b] @ 0 # drop (n + 2) buf" if "n + 1 < length buf"
        using that by (simp add: upd_conv_take_nth_drop take_Suc_conv_app_nth)
      with True r step k Cons n show ?thesis by (auto simp: arr_set_def)
    next
      case False
      let ?line = "next_line k bs"
      have l: "next_line (maxlen - n) (b # bs) = b # ?line" using False k(1) by simp
      have "n + 1 \<le> maxlen" "maxlen \<le> length (buf[n := b])" using n Suc.prems(3) by simp_all
      from Suc.hyps(1) [OF k(2) [symmetric] r(2) this]
      have "let line = ?line in if n + 1 + length line < length (buf[n := b]) then
          \<exists>rp''. rio_readlineb_loop maxlen (n + 1) (buf[n := b]) rp'
            = Inr (int (n + 1 + length line), take (n + 1) (buf[n := b]) @ line @ 0 # drop (n + 1 + length line + 1) (buf[n := b]), rp'')
            \<and> rio_ok rp'' \<and> rio_stream rp'' = drop (length line) bs
          else rio_readlineb_loop maxlen (n + 1) (buf[n := b]) rp' = Inl OutOfBounds"
        unfolding k(2) r(3) by simp
      note ih = this [folded step [unfolded if_not_P [OF False]], unfolded Let_def length_list_update]
      show ?thesis
      proof (cases "n + 1 + length ?line < length buf")
        case True
        with ih put_line [OF n(2), of b] Cons show ?thesis
          by (auto simp: Let_def l drop_update_cancel)
      next
        case False
        with ih show ?thesis by (simp add: Let_def l Cons)
      qed
    qed
  qed
qed

lemma readlineb_eof:
  assumes "rio_ok rp" "rio_stream rp = []" "0 < maxlen"
  shows "\<exists>rp'. rio_readlineb rp buf maxlen = Inr (0, buf, rp') \<and> rio_ok rp' \<and> rio_stream rp' = []"
  using rio_readb_spec(1) [OF assms(1,2)] assms(3)
  by (auto simp: rio_readlineb_def rio_readlineb_loop.simps [of maxlen])

section \<open>Progress\<close>

text \<open>The number of bytes still to come; every byte that is read makes it smaller.\<close>

definition rio_left :: "rio \<Rightarrow> nat" where
  "rio_left rp = nat (rio_cnt rp) + length (inflow (rio_fd rp))"

lemma sys_read_inflow: "sys_read n fd = (Bytes bs, fd') \<Longrightarrow> inflow fd = bs @ inflow fd'"
  "sys_read n fd = (Eintr, fd') \<Longrightarrow> inflow fd = inflow fd'"
  "sys_read n fd = (Eother, fd') \<Longrightarrow> inflow fd = inflow fd'"
  by (cases "(n, fd)" rule: sys_read.cases; auto split: if_splits)+

lemma rio_refill_left:
  "rio_refill rp = (ret, rp') \<Longrightarrow> rio_left rp' \<le> rio_left rp \<and> (ret = 1 \<longrightarrow> 0 < rio_cnt rp')"
proof (induction rp rule: rio_refill.induct)
  case (1 rp)
  show ?case
  proof (cases "rio_cnt rp > 0")
    case True
    with 1(3) show ?thesis by (simp add: rio_refill.simps [of rp])
  next
    case empty: False
    obtain x fd where x: "sys_read RIO_BUFSIZE (rio_fd rp) = (x, fd)" by fastforce
    show ?thesis
    proof (cases x)
      case (Bytes bs)
      note l = sys_read_inflow(1) [OF x [unfolded Bytes]]
      show ?thesis
      proof (cases "bs = []")
        case True
        with 1(3) x Bytes empty l show ?thesis by (auto simp: rio_refill.simps [of rp] rio_left_def)
      next
        case False
        from 1(1) [OF empty x [unfolded Bytes, symmetric] refl refl False] 1(3) x Bytes empty False l show ?thesis
          by (simp add: rio_refill.simps [of rp] Let_def rio_left_def)
      qed
    next
      case Eintr
      with 1(2) [OF empty x [unfolded Eintr, symmetric] refl] 1(3) x empty sys_read_inflow(2) [OF x [unfolded Eintr]]
      show ?thesis by (simp add: rio_refill.simps [of rp] rio_left_def)
    next
      case Eother
      with 1(3) x empty sys_read_inflow(3) [OF x [unfolded Eother]] show ?thesis
        by (auto simp: rio_refill.simps [of rp] rio_left_def)
    qed
  qed
qed

lemma rio_readb_left:
  assumes "rio_readb rp 1 = Inr (rc, bs, rp')"
  shows "rio_left rp' \<le> rio_left rp" "rc = 1 \<Longrightarrow> rio_left rp' < rio_left rp"
proof -
  obtain ret rp1 where r: "rio_refill rp = (ret, rp1)" by fastforce
  note l = rio_refill_left [OF r]
  from assms r l have "rio_left rp' \<le> rio_left rp \<and> (rc = 1 \<longrightarrow> rio_left rp' < rio_left rp)"
    by (auto simp: rio_readb_def bindr_eq_Inr rio_left_def split: if_splits)
  then show "rio_left rp' \<le> rio_left rp" "rc = 1 \<Longrightarrow> rio_left rp' < rio_left rp" by simp_all
qed

lemma readlineb_loop_left:
  "rio_readlineb_loop maxlen n buf rp = Inr (rc, buf', rp') \<Longrightarrow>
   rio_left rp' \<le> rio_left rp \<and> (int n < rc \<longrightarrow> rio_left rp' < rio_left rp)"
proof (induction "maxlen - n" arbitrary: n buf rp)
  case 0
  then show ?case by (auto simp: rio_readlineb_loop.simps [of maxlen] bindr_eq_Inr)
next
  case (Suc k)
  then have n: "n < maxlen" "k = maxlen - (n + 1)" by simp_all
  from Suc.prems n(1) obtain r bs rp1 where b: "rio_readb rp 1 = Inr (r, bs, rp1)"
    by (auto simp: rio_readlineb_loop.simps [of maxlen n] bindr_eq_Inr)
  note l = rio_readb_left [OF b]
  show ?case
  proof (cases "r = 1 \<and> hd bs \<noteq> 10")
    case True
    with Suc.prems n(1) b have "rio_readlineb_loop maxlen (n + 1) (buf[n := hd bs]) rp1 = Inr (rc, buf', rp')"
      by (auto simp: rio_readlineb_loop.simps [of maxlen n] bindr_eq_Inr arr_set_def split: if_splits)
    from Suc.hyps(1) [OF n(2) this] l True show ?thesis by simp
  next
    case False
    with Suc.prems n(1) b l show ?thesis
      by (auto simp: rio_readlineb_loop.simps [of maxlen n] bindr_eq_Inr split: if_splits)
  qed
qed

lemma Rio_readlineb_left: "Rio_readlineb rp buf maxlen = Inr (rc, buf', rp') \<Longrightarrow> 0 < rc \<Longrightarrow> rio_left rp' < rio_left rp"
  using readlineb_loop_left [of maxlen 0 buf rp]
  by (auto simp: Rio_readlineb_def rio_readlineb_def bindr_eq_Inr split: if_splits)

section \<open>Properties\<close>

text \<open>
  C22: \<open>rio_readlineb\<close> is equivalent to cutting a line off the stream of bytes, whatever the sizes of
  the pieces that \<open>read\<close> delivers and the interruptions between them.  At the end of the stream the
  result is 0 and the buffer is not touched.  A line as long as the array that was passed makes the
  terminating zero fall outside the array.
\<close>

theorem readline_equivalence:
  assumes "rio_ok rp" "length buf = maxlen" "0 < maxlen"
  defines "line \<equiv> next_line maxlen (rio_stream rp)"
  shows "(if rio_stream rp = [] then
      \<exists>rp'. rio_readlineb rp buf maxlen = Inr (0, buf, rp') \<and> rio_ok rp' \<and> rio_stream rp' = []
    else if length line < maxlen then
      \<exists>rp'. rio_readlineb rp buf maxlen = Inr (int (length line), line @ 0 # drop (length line + 1) buf, rp')
        \<and> rio_ok rp' \<and> rio_stream rp' = drop (length line) (rio_stream rp)
    else rio_readlineb rp buf maxlen = Inl OutOfBounds)"
proof (cases "rio_stream rp = []")
  case True
  with readlineb_eof [OF assms(1) True assms(3), of buf] show ?thesis by simp
next
  case False
  have "0 \<le> maxlen" "maxlen \<le> length buf" using assms(2) by simp_all
  from readlineb_loop_spec [OF assms(1) this] False assms(2) show ?thesis
    by (cases "length line < maxlen") (simp_all add: rio_readlineb_def Let_def line_def)
qed

theorem readline_equivalence_witness:
  "\<exists>rp'. rio_readlineb (rio_init [Delivered [72, 105], ReadInterrupted, Delivered [10, 33]]) [0, 0, 0, 0, 0] 5
      = Inr (3, [72, 105, 10, 0, 0], rp') \<and> rio_stream rp' = [33]"
proof -
  let ?rp = "rio_init [Delivered [72, 105], ReadInterrupted, Delivered [10, 33]]"
  have rp: "rio_ok ?rp" "rio_stream ?rp = [72, 105, 10, 33]"
    using rio_init_ok [of "[Delivered [72, 105], ReadInterrupted, Delivered [10, 33]]"] by simp_all
  have "next_line (Suc (Suc (Suc (Suc (Suc 0))))) [72, 105, 10, 33] = [72, 105, 10]" by simp
  moreover have "Suc (Suc (Suc (Suc (Suc 0)))) = 5" by simp
  ultimately have l: "next_line 5 [72, 105, 10, 33] = [72, 105, 10]" by (rule subst [rotated])
  from readline_equivalence [OF rp(1), of "[0, 0, 0, 0, 0]" 5] show ?thesis by (auto simp: rp(2) l)
qed

end
