(* ===== verification/Request.thy ===== *)
theory Request
  imports RioSpec
begin

text \<open>
  \<open>src/webserver/request.c\<close>: one HTTP request, from its first line to the response.  The file
  system is a parameter: what \<open>stat\<close> says of a path and what reading the file delivers.  A buffer
  that C leaves uninitialised is a parameter too.  \<open>sprintf(buf, "%s...", buf)\<close> is read as appending, as the C library at hand does.
  The copies of messages on the standard output and the busy work of \<open>request_processfile\<close> are left
  out.  \<open>request_init\<close> gets its memory (\<open>Malloc\<close> and \<open>Rio_init\<close> end the process when there is none); whether
  there is memory for a file is a parameter of \<open>request_readfile\<close>.
\<close>

section \<open>Strings\<close>

abbreviation (input) MAXLINE :: nat where "MAXLINE \<equiv> 8192"
abbreviation (input) MAXBUF :: nat where "MAXBUF \<equiv> 8192"

definition crnl :: cstr where
  "crnl = [13, 10]"

text \<open>The result of \<open>sprintf\<close> into an array of \<open>n\<close> bytes.\<close>

definition fits :: "nat \<Rightarrow> cstr \<Rightarrow> cstr result" where
  "fits n s = (if length s < n then Inr s else Inl OutOfBounds)"

definition strstr :: "cstr \<Rightarrow> cstr \<Rightarrow> bool" where
  "strstr s sub \<longleftrightarrow> list_ex (\<lambda>i. take (length sub) (drop i s) = sub) [0..<Suc (length s)]"

definition strrchr :: "cstr \<Rightarrow> byte \<Rightarrow> cstr option" where
  "strrchr s c = (if c \<in> set s then Some (c # rev (takeWhile (\<lambda>b. b \<noteq> c) (rev s))) else None)"

definition to_lower :: "byte \<Rightarrow> byte" where
  "to_lower b = (if 65 \<le> b \<and> b \<le> 90 then b + 32 else b)"

definition strcaseeq :: "cstr \<Rightarrow> cstr \<Rightarrow> bool" where
  "strcaseeq s t \<longleftrightarrow> map to_lower s = map to_lower t"

text \<open>\<open>sscanf\<close> with \<open>%s\<close>: the next word and what follows it.\<close>

definition scan_word :: "cstr \<Rightarrow> cstr \<times> cstr" where
  "scan_word s =
     (let s = dropWhile is_blank s in (takeWhile (\<lambda>b. \<not> is_blank b) s, dropWhile (\<lambda>b. \<not> is_blank b) s))"

definition checksum :: "byte list \<Rightarrow> int" where
  "checksum bs = foldl (\<lambda>csum b. u32 (csum + uint b)) 0 bs"

section \<open>Connections and files\<close>

record conn =
  from_peer :: "delivery list"
  acceptances :: "acceptance list"
  to_peer :: "byte list"
  is_open :: bool

record file_data =
  file_name :: cstr
  file_buf :: "byte list"
  file_size :: int

text \<open>What \<open>stat\<close> returns, whether \<open>open\<close> succeeds, and what reading the file delivers.\<close>

record file_stat =
  st_regular :: bool
  st_readable :: bool
  st_size :: int
  st_opens :: bool
  st_contents :: "delivery list"

definition send :: "byte list \<Rightarrow> conn \<Rightarrow> conn result" where
  "send bs c =
     bindr (Rio_write (acceptances c) bs) (\<lambda>(sent, as). Inr (c\<lparr>acceptances := as, to_peer := to_peer c @ sent\<rparr>))"

section \<open>Responses\<close>

definition request_error :: "cstr \<Rightarrow> string \<Rightarrow> string \<Rightarrow> string \<Rightarrow> conn \<Rightarrow> conn result" where
  "request_error cause errnum shortmsg longmsg c =
     bindr (fits MAXBUF (lit ''<html><title>OS Web Server Error</title>'' @ lit ''<body bgcolor=fffff>'' @ crnl
       @ lit ''<p>'' @ lit errnum @ lit '': '' @ lit shortmsg @ lit ''</p>'' @ crnl
       @ lit ''<p>'' @ lit longmsg @ lit '': '' @ cause @ lit ''</p>'' @ crnl
       @ lit ''</body></html>'' @ crnl)) (\<lambda>body.
     bindr (fits MAXLINE (lit ''HTTP/1.0 '' @ lit errnum @ [32] @ lit shortmsg @ crnl)) (\<lambda>buf.
     bindr (send buf c) (\<lambda>c.
     bindr (send (lit ''Content-Type: text/html'' @ crnl) c) (\<lambda>c.
     bindr (send (lit ''Content-Length: '' @ dec (int (length body)) @ crnl) c) (\<lambda>c.
     bindr (send (lit ''Content-Csum: '' @ dec (checksum body) @ crnl @ crnl) c) (\<lambda>c.
     send body c))))))"

definition request_get_file_type :: "cstr \<Rightarrow> cstr" where
  "request_get_file_type filename =
     (if strstr filename (lit ''.html'') then lit ''text/html''
      else if strstr filename (lit ''.gif'') then lit ''image/gif''
      else if strstr filename (lit ''.jpg'') then lit ''image/jpeg''
      else lit ''text/plain'')"

text \<open>The header and the body are two writes.\<close>

definition request_sendfile :: "file_data \<Rightarrow> conn \<Rightarrow> conn result" where
  "request_sendfile data c =
     (let filetype = request_get_file_type (file_name data); n = nat (file_size data) in
      if n > length (file_buf data) then Inl OutOfBounds
      else
        let csum = checksum (take n (file_buf data)) in
        bindr (fits MAXBUF (lit ''HTTP/1.0 200 OK'' @ crnl @ lit ''Server: OS Web Server'' @ crnl
          @ lit ''Content-Type: '' @ filetype @ crnl
          @ lit ''Content-Length: '' @ dec (file_size data) @ crnl
          @ lit ''Content-Csum: '' @ dec csum @ crnl @ crnl)) (\<lambda>buf.
        bindr (send buf c) (\<lambda>c.
        if file_size data > 0 then send (take n (file_buf data)) c else Inr c)))"

section \<open>Requests\<close>

definition request_parse_URI :: "cstr \<Rightarrow> nat \<Rightarrow> cstr" where
  "request_parse_URI uri mx = take (mx - 1) (lit ''./'' @ uri)"

text \<open>
  At the end of the stream \<open>Rio_readlineb\<close> leaves the buffer alone, so the loop never ends.  \<open>buf\<close> is
  the contents of the array.
\<close>

function request_read_headers_loop :: "rio \<Rightarrow> byte list \<Rightarrow> rio result" where
  "request_read_headers_loop rp buf =
     bindr (c_string buf) (\<lambda>line.
     if line = crnl then Inr rp
     else
       bindr (Rio_readlineb rp buf MAXLINE) (\<lambda>(n, buf, rp).
       if n \<le> 0 then Inl Diverges else request_read_headers_loop rp buf))"
  by pat_completeness auto
termination
  by (relation "measure (\<lambda>(rp, buf). rio_left rp)") (auto dest: Rio_readlineb_left)

declare request_read_headers_loop.simps [simp del]

definition request_read_headers :: "rio \<Rightarrow> byte list \<Rightarrow> rio result" where
  "request_read_headers rp buf =
     bindr (Rio_readlineb rp buf MAXLINE) (\<lambda>(_, buf, rp). request_read_headers_loop rp buf)"

definition request_destroy :: "conn \<Rightarrow> conn" where
  "request_destroy c = c\<lparr>is_open := False\<rparr>"

text \<open>
  \<open>None\<close> stands for \<open>NULL\<close>.  \<open>buf\<close> and \<open>hbuf\<close> are the arrays of \<open>request_init\<close> and
  \<open>request_read_headers\<close>, \<open>stk\<close> what the arrays \<open>method\<close> and \<open>uri\<close> hold if no word is scanned.
\<close>

definition request_init :: "byte list \<Rightarrow> byte list \<Rightarrow> cstr \<times> cstr \<Rightarrow> conn \<Rightarrow> (file_data option \<times> conn) result" where
  "request_init buf hbuf stk c =
     (let rp = rio_init (from_peer c) in
      bindr (Rio_readlineb rp buf MAXLINE) (\<lambda>(_, buf, rp).
      bindr (c_string buf) (\<lambda>line.
      let (m, rest) = scan_word line; (u, _) = scan_word rest;
          method = (if m = [] then fst stk else m); uri = (if u = [] then snd stk else u)
      in if \<not> strcaseeq method (lit ''GET'') then
           bindr (request_error method ''501'' ''Not Implemented'' ''OS Web Server does not implement this method'' c) (\<lambda>c.
           Inr (None, request_destroy (c\<lparr>from_peer := rio_fd rp\<rparr>)))
         else
           bindr (request_read_headers rp hbuf) (\<lambda>rp.
           Inr (Some \<lparr>file_name = request_parse_URI uri MAXLINE, file_buf = [], file_size = 0\<rparr>,
             c\<lparr>from_peer := rio_fd rp\<rparr>)))))"

text \<open>
  The result, the data and the connection.  A read that stops short leaves the rest of the buffer as
  \<open>malloc\<close> returned it, here zeros.
\<close>

definition request_readfile ::
  "(cstr \<Rightarrow> file_stat option) \<Rightarrow> (nat \<Rightarrow> bool) \<Rightarrow> file_data \<Rightarrow> conn \<Rightarrow> (int \<times> file_data \<times> conn) result" where
  "request_readfile fsys mal data c =
     (let fail = (\<lambda>num short long. bindr (request_error (file_name data) num short long c) (\<lambda>c. Inr (0, data, c)));
          ext = strrchr (file_name data) 46
      in
      if take 1 (file_name data) = [47] then
        fail ''404'' ''Not found'' ''OS Web Server doesn't serve files with absolute paths''
      else if strstr (file_name data) (lit ''..'') then
        fail ''404'' ''Not found'' ''OS Web Server doesn't serve files with .. in the path''
      else if ext = Some (lit ''.c'') \<or> ext = Some (lit ''.h'') then
        fail ''404'' ''Not found'' ''OS Web Server doesn't serve C or header files ''
      else
        case fsys (file_name data) of
          None \<Rightarrow> fail ''404'' ''Not found'' ''OS Web Server could not find this file''
        | Some st \<Rightarrow>
            if \<not> st_regular st \<or> \<not> st_readable st then
              fail ''403'' ''Forbidden'' ''OS Web Server could not read this file''
            else
              let data = data\<lparr>file_size := s32 (st_size st)\<rparr> in
              if file_size data = 0 then Inr (1, data, c)
              else if \<not> st_opens st then Inl ExitFailure
              else if \<not> mal (nat (u64 (file_size data))) then Inl ExitFailure
              else
                bindr (Rio_read (st_contents st) (nat (u64 (file_size data)))) (\<lambda>(bs, _).
                Inr (1, data\<lparr>file_buf := bs @ replicate (nat (u64 (file_size data)) - length bs) 0\<rparr>, c)))"

end
