(* ===== verification/Client.thy ===== *)
theory Client
  imports Request
begin

text \<open>
  \<open>src/webserver/client.c\<close>: a client that sends a request and checks the response against the
  checksum and the length it expects (in timing mode, in which it prints nothing).
\<close>

definition or_else :: "'a option \<Rightarrow> 'a \<Rightarrow> 'a" where
  "or_else x d = (case x of None \<Rightarrow> d | Some y \<Rightarrow> y)"

text \<open>The bytes that \<open>client_send\<close> writes.\<close>

definition client_send :: "cstr \<Rightarrow> cstr \<Rightarrow> conn \<Rightarrow> conn result" where
  "client_send host filename c =
     bindr (fits MAXLINE (lit ''GET '' @ filename @ lit '' HTTP/1.0'' @ crnl
       @ lit ''host: '' @ host @ crnl @ crnl)) (\<lambda>buf.
     send buf c)"

text \<open>
  The loop over the header: \<open>buf\<close> is the contents of the array and \<open>n\<close> the result of the last read.
  The values of \<open>length\<close> and \<open>csum\<close> change where a line has the tag.
\<close>

function client_header_loop :: "int \<Rightarrow> byte list \<Rightarrow> rio \<Rightarrow> int \<Rightarrow> int \<Rightarrow> (byte list \<times> rio \<times> int \<times> int) result" where
  "client_header_loop n buf rp len csum =
     bindr (c_string buf) (\<lambda>line.
     if line \<noteq> crnl \<and> n > 0 then
       bindr (Rio_readlineb rp buf MAXBUF) (\<lambda>(n, buf, rp).
       bindr (c_string buf) (\<lambda>line.
       client_header_loop n buf rp (or_else (scan_d (lit ''Content-Length:'') line) len)
         (or_else (scan_u (lit ''Content-Csum:'') line) csum)))
     else Inr (buf, rp, len, csum))"
  by pat_completeness auto
termination
  by (relation "measure (\<lambda>(n, buf, rp, len, csum). if n > 0 then Suc (rio_left rp) else 0)")
    (auto dest: Rio_readlineb_left)

declare client_header_loop.simps [simp del]

text \<open>The loop over the body: the number of bytes received and their checksum.\<close>

function client_body_loop :: "byte list \<Rightarrow> rio \<Rightarrow> int \<Rightarrow> int \<Rightarrow> (int \<times> int) result" where
  "client_body_loop buf rp len csum =
     bindr (Rio_readlineb rp buf MAXBUF) (\<lambda>(n, buf, rp).
     let len = len + n; csum = foldl (\<lambda>csum b. u32 (csum + uint b)) csum (take (nat n) buf)
     in if n > 0 then client_body_loop buf rp len csum else Inr (len, csum))"
  by pat_completeness auto
termination
  by (relation "measure (\<lambda>(buf, rp, len, csum). rio_left rp)") (auto dest: Rio_readlineb_left)

declare client_body_loop.simps [simp del]

definition client_print :: "byte list \<Rightarrow> delivery list \<Rightarrow> int \<Rightarrow> int \<Rightarrow> unit result" where
  "client_print buf fd orig_csum orig_length =
     bindr (Rio_readlineb (rio_init fd) buf MAXBUF) (\<lambda>(n, buf, rp).
     bindr (client_header_loop n buf rp 0 0) (\<lambda>(buf, rp, len, csum).
     bindr (client_body_loop buf rp 0 0) (\<lambda>(len_received, csum_received).
     bindr (c_assert (orig_csum = csum)) (\<lambda>_.
     bindr (c_assert (orig_length = len)) (\<lambda>_.
     bindr (c_assert (len = len_received)) (\<lambda>_.
     c_assert (csum = csum_received)))))))"

end
