(* ===== verification/HttpSpec.thy ===== *)
theory HttpSpec
  imports Client
begin

text \<open>
  Requests and responses on the wire: what \<open>client_send\<close> writes is what \<open>request_init\<close> reads, and
  what \<open>request_sendfile\<close> writes is what \<open>client_print\<close> reads.
\<close>

section \<open>Lines of text\<close>

text \<open>A header line without its end, short enough for the buffers.\<close>

definition text_line :: "cstr \<Rightarrow> bool" where
  "text_line h \<longleftrightarrow> 0 \<notin> set h \<and> 10 \<notin> set h \<and> length h + 2 < MAXLINE"

lemma length_crnl [simp]: "length crnl = 2"
  by (simp add: crnl_def)

lemma next_line_crnl:
  "10 \<notin> set h \<Longrightarrow> length h + 2 \<le> n \<Longrightarrow> next_line n (h @ crnl @ rest) = h @ crnl"
proof (induction h arbitrary: n)
  case Nil
  then obtain m where "n = Suc (Suc m)" by (metis add_2_eq_Suc le_Suc_ex list.size(3) add_0)
  then show ?case by (simp add: crnl_def)
next
  case (Cons b h)
  then obtain m where "n = Suc m" by (cases n) auto
  with Cons show ?case by auto
qed

lemma c_string_crnl: "0 \<notin> set h \<Longrightarrow> c_string (h @ crnl @ 0 # r) = Inr (h @ crnl)"
  using c_string_line [of "h @ crnl" r] by (simp add: crnl_def)

text \<open>Reading a line that is there.\<close>

lemma read_text_line:
  assumes rp: "rio_ok rp" "rio_stream rp = h @ crnl @ rest" and h: "text_line h" and buf: "length buf = MAXLINE"
  obtains rp' buf' where "Rio_readlineb rp buf MAXLINE = Inr (int (length h + 2), buf', rp')" "length buf' = MAXLINE"
    "c_string buf' = Inr (h @ crnl)" "rio_ok rp'" "rio_stream rp' = rest"
proof -
  have l: "next_line MAXLINE (rio_stream rp) = h @ crnl" unfolding rp(2)
    using h by (intro next_line_crnl) (simp_all add: text_line_def)
  have len: "length (h @ crnl) = length h + 2" by (simp add: crnl_def)
  have ne: "rio_stream rp \<noteq> []" unfolding rp(2) by (simp add: crnl_def)
  have short: "0 + length (h @ crnl) < length buf" using h buf len by (simp add: text_line_def)
  have "0 \<le> MAXLINE" "MAXLINE \<le> length buf" using buf by simp_all
  from readlineb_loop_spec [OF rp(1) this disjI1 [OF ne], unfolded diff_zero l Let_def if_P [OF short]] obtain rp' where
    "rio_readlineb rp buf MAXLINE = Inr (int (length h + 2), (h @ crnl) @ 0 # drop (length h + 3) buf, rp')"
    "rio_ok rp'" "rio_stream rp' = rest"
    by (auto simp: len rio_readlineb_def rp(2) numeral_3_eq_3)
  moreover have "length ((h @ crnl) @ 0 # drop (length h + 3) buf) = MAXLINE"
    using h buf by (simp add: text_line_def crnl_def)
  ultimately show thesis using h c_string_crnl [of h "drop (length h + 3) buf"]
    by (intro that [of _ rp']) (auto simp: Rio_readlineb_def text_line_def)
qed

section \<open>Words\<close>

lemma scan_word_at:
  assumes "\<And>b. b \<in> set sp \<Longrightarrow> is_blank b" "\<And>b. b \<in> set w \<Longrightarrow> \<not> is_blank b" "w \<noteq> []" "is_blank (hd r)" "r \<noteq> []"
  shows "scan_word (sp @ w @ r) = (w, r)"
proof -
  have "dropWhile is_blank (sp @ w @ r) = w @ r"
    using assms(1-3) by (cases w) (simp_all add: dropWhile_append)
  moreover have "takeWhile (\<lambda>b. \<not> is_blank b) (w @ r) = w" "dropWhile (\<lambda>b. \<not> is_blank b) (w @ r) = r"
    using assms(2,4,5) by (cases r; simp add: takeWhile_append2 dropWhile_append2)+
  ultimately show ?thesis by (simp add: scan_word_def)
qed

definition plain :: "cstr \<Rightarrow> bool" where
  "plain w \<longleftrightarrow> (\<forall>b \<in> set w. \<not> is_blank b \<and> b \<noteq> 0)"

lemma scan_request:
  assumes "plain fn" "fn \<noteq> []"
  shows "scan_word (lit ''GET '' @ fn @ lit '' HTTP/1.0'' @ crnl) = (lit ''GET'', 32 # fn @ lit '' HTTP/1.0'' @ crnl)"
    "scan_word (32 # fn @ lit '' HTTP/1.0'' @ crnl) = (fn, lit '' HTTP/1.0'' @ crnl)"
proof -
  have "scan_word ([] @ lit ''GET'' @ (32 # fn @ lit '' HTTP/1.0'' @ crnl)) = (lit ''GET'', 32 # fn @ lit '' HTTP/1.0'' @ crnl)"
    by (rule scan_word_at) (auto simp: lit_def is_blank_def)
  then show "scan_word (lit ''GET '' @ fn @ lit '' HTTP/1.0'' @ crnl) = (lit ''GET'', 32 # fn @ lit '' HTTP/1.0'' @ crnl)"
    by (simp add: lit_def)
  have "scan_word ([32] @ fn @ (lit '' HTTP/1.0'' @ crnl)) = (fn, lit '' HTTP/1.0'' @ crnl)"
    by (rule scan_word_at) (use assms in \<open>auto simp: lit_def is_blank_def plain_def\<close>)
  then show "scan_word (32 # fn @ lit '' HTTP/1.0'' @ crnl) = (fn, lit '' HTTP/1.0'' @ crnl)" by simp
qed

section \<open>Requests\<close>

definition request_text :: "cstr \<Rightarrow> cstr \<Rightarrow> byte list" where
  "request_text host fn = (lit ''GET '' @ fn @ lit '' HTTP/1.0'') @ crnl @ (lit ''host: '' @ host) @ crnl @ crnl"

lemma send_spec:
  assumes "WriteFailed \<notin> set (acceptances c)"
  obtains as where "send bs c = Inr (c\<lparr>acceptances := as, to_peer := to_peer c @ bs\<rparr>)" "WriteFailed \<notin> set as"
proof -
  from Rio_write_spec [OF assms, of bs] obtain as where "Rio_write (acceptances c) bs = Inr (bs, as)" "WriteFailed \<notin> set as"
    by metis
  then show thesis by (intro that [of as]) (simp_all add: send_def)
qed

lemma client_send_spec:
  assumes "WriteFailed \<notin> set (acceptances c)" "length fn + length host < 8000"
  obtains as where "client_send host fn c = Inr (c\<lparr>acceptances := as, to_peer := to_peer c @ request_text host fn\<rparr>)"
    "WriteFailed \<notin> set as"
proof -
  have len: "length (request_text host fn) < MAXLINE" using assms(2) by (simp add: request_text_def lit_def)
  have "lit ''GET '' @ fn @ lit '' HTTP/1.0'' @ crnl @ lit ''host: '' @ host @ crnl @ crnl = request_text host fn"
    by (simp add: request_text_def)
  then have "client_send host fn c = send (request_text host fn) c"
    unfolding client_send_def fits_def using len by simp
  with send_spec [OF assms(1), of "request_text host fn"] that show thesis by metis
qed

lemma request_init_spec:
  assumes c: "reliable (from_peer c)" "inflow (from_peer c) = request_text host fn"
    and fn: "plain fn" "fn \<noteq> []" and host: "0 \<notin> set host" "10 \<notin> set host" and len: "length fn + length host < 8000"
    and buf: "length buf = MAXLINE" "length hbuf = MAXLINE"
  shows "\<exists>fd. request_init buf hbuf stk c
    = Inr (Some \<lparr>file_name = lit ''./'' @ fn, file_buf = [], file_size = 0\<rparr>, c\<lparr>from_peer := fd\<rparr>)"
proof -
  let ?h = "lit ''GET '' @ fn @ lit '' HTTP/1.0''" and ?h' = "lit ''host: '' @ host"
  have t: "text_line ?h" "text_line ?h'" "text_line []"
    using fn host len by (auto simp: text_line_def lit_def plain_def is_blank_def)
  note r0 = rio_init_ok [OF c(1)]
  from r0 have "rio_stream (rio_init (from_peer c)) = ?h @ crnl @ ?h' @ crnl @ crnl" by (simp add: c(2) request_text_def)
  with read_text_line [OF conjunct1 [OF r0] _ _ buf(1), of ?h "?h' @ crnl @ crnl"] t obtain rp1 b1 where
    r1: "Rio_readlineb (rio_init (from_peer c)) buf MAXLINE = Inr (int (length ?h + 2), b1, rp1)"
      "c_string b1 = Inr (?h @ crnl)" "rio_ok rp1" "rio_stream rp1 = ?h' @ crnl @ crnl" by metis
  from read_text_line [OF r1(3,4) t(2) buf(2)] obtain rp2 b2 where
    r2: "Rio_readlineb rp1 hbuf MAXLINE = Inr (int (length ?h' + 2), b2, rp2)" "length b2 = MAXLINE"
      "c_string b2 = Inr (?h' @ crnl)" "rio_ok rp2" "rio_stream rp2 = crnl" by metis
  have "rio_stream rp2 = [] @ crnl @ []" using r2(5) by simp
  from read_text_line [OF r2(4) this t(3) r2(2)] obtain rp3 b3 where
    r3: "Rio_readlineb rp2 b2 MAXLINE = Inr (2, b3, rp3)" "c_string b3 = Inr crnl"
    by (metis append_Nil list.size(3) add_0 of_nat_numeral)
  have ne: "(?h' @ crnl = crnl) = False" by (simp add: lit_def crnl_def)
  have "request_read_headers rp1 hbuf = Inr rp3"
    unfolding request_read_headers_def r2(1) bindr_Inr prod.case request_read_headers_loop.simps [of rp2] r2(3) ne if_False r3(1)
    by (simp add: request_read_headers_loop.simps [of rp3] r3(2))
  moreover have "strcaseeq (lit ''GET'') (lit ''GET'')" by (simp add: strcaseeq_def)
  moreover have "lit ''GET'' \<noteq> []" by (simp add: lit_def)
  moreover have "request_parse_URI fn MAXLINE = lit ''./'' @ fn"
    using len by (simp add: request_parse_URI_def lit_def)
  ultimately show ?thesis
    using r1(1,2) scan_request [OF fn] fn(2) by (simp add: request_init_def Let_def exI [of _ "rio_fd rp3"])
qed

section \<open>Files\<close>

definition served_file :: "file_stat \<Rightarrow> byte list \<Rightarrow> bool" where
  "served_file st bs \<longleftrightarrow> st_regular st \<and> st_readable st \<and> st_opens st \<and> reliable (st_contents st)
     \<and> inflow (st_contents st) = bs \<and> st_size st = int (length bs) \<and> length bs < 2 ^ 31"

definition allowed_name :: "cstr \<Rightarrow> bool" where
  "allowed_name fn \<longleftrightarrow> take 1 fn \<noteq> [47] \<and> \<not> strstr fn (lit ''..'')
     \<and> strrchr fn 46 \<noteq> Some (lit ''.c'') \<and> strrchr fn 46 \<noteq> Some (lit ''.h'')"

lemma request_readfile_spec:
  assumes "allowed_name (file_name data)" "fsys (file_name data) = Some st" "served_file st bs" "mal (length bs)"
    and "file_buf data = []"
  shows "request_readfile fsys mal data c = Inr (1, data\<lparr>file_size := int (length bs), file_buf := bs\<rparr>, c)"
proof -
  note st = assms(3) [unfolded served_file_def]
  have n: "s32 (st_size st) = int (length bs)" "nat (u64 (int (length bs))) = length bs"
    using st by (simp_all add: s32_id u64_id)
  obtain fd where "rio_read (st_contents st) (length bs) = (int (length bs), bs, fd)"
    using rio_read_spec [of "st_contents st" "length bs"] st by auto
  then have r: "Rio_read (st_contents st) (length bs) = Inr (bs, fd)" by (simp add: Rio_read_def)
  show ?thesis
  proof (cases "bs = []")
    case True
    then have "data\<lparr>file_size := int (length bs), file_buf := bs\<rparr> = data\<lparr>file_size := 0\<rparr>" using assms(5) by simp
    with True n assms(1,2) st show ?thesis by (simp add: request_readfile_def allowed_name_def Let_def)
  next
    case False
    with n r assms(1,2,4) st show ?thesis by (simp add: request_readfile_def allowed_name_def Let_def)
  qed
qed

section \<open>Responses\<close>

lemma checksum_append: "checksum (xs @ ys) = foldl (\<lambda>csum b. u32 (csum + uint b)) (checksum xs) ys"
  by (simp add: checksum_def)

lemma checksum_range: "0 \<le> checksum bs" "checksum bs < 2 ^ 32"
  by (cases bs rule: rev_cases; simp add: checksum_def u32_def)+

definition response_lines :: "cstr \<Rightarrow> byte list \<Rightarrow> cstr list" where
  "response_lines fn bs = [lit ''HTTP/1.0 200 OK'', lit ''Server: OS Web Server'',
     lit ''Content-Type: '' @ request_get_file_type fn, lit ''Content-Length: '' @ dec (int (length bs)),
     lit ''Content-Csum: '' @ dec (checksum bs)]"

definition response_text :: "cstr \<Rightarrow> byte list \<Rightarrow> byte list" where
  "response_text fn bs = concat (map (\<lambda>h. h @ crnl) (response_lines fn bs)) @ crnl @ bs"

lemma length_dec_nat: "n < 10 ^ Suc k \<Longrightarrow> length (dec_nat n) \<le> Suc k"
proof (induction k arbitrary: n)
  case (Suc k)
  then have "n div 10 < 10 ^ Suc k" by (simp add: less_mult_imp_div_less mult.commute)
  with Suc.IH show ?case by (auto simp: dec_nat.simps [of n])
qed (simp add: dec_nat.simps)

lemma dec_nonneg: "0 \<le> n \<Longrightarrow> dec n = dec_nat (nat n)"
  by (simp add: dec_def)

lemma digit_range: "is_digit b \<Longrightarrow> b \<noteq> 0 \<and> b \<noteq> 10 \<and> b \<noteq> 13"
  by (auto simp: is_digit_def word_le_def)

lemma dec_line:
  assumes "n < 2 ^ 32"
  shows "0 \<notin> set (dec_nat n)" "10 \<notin> set (dec_nat n)" "length (dec_nat n) \<le> 10"
proof -
  show "0 \<notin> set (dec_nat n)" "10 \<notin> set (dec_nat n)" using dec_nat_digits digit_range by blast+
  have "n < 10 ^ Suc 9" using assms by simp
  from length_dec_nat [OF this] show "length (dec_nat n) \<le> 10" by simp
qed

lemma file_type_line: "0 \<notin> set (request_get_file_type fn)" "10 \<notin> set (request_get_file_type fn)"
  "length (request_get_file_type fn) \<le> 10"
  by (simp_all add: request_get_file_type_def lit_def)

lemma response_lines_text:
  assumes "length bs < 2 ^ 31" "h \<in> set (response_lines fn bs)"
  shows "text_line h"
proof -
  have n: "length bs < 2 ^ 32" "nat (checksum bs) < 2 ^ 32" using assms(1) checksum_range [of bs] by simp_all
  note d = dec_line [OF n(1)] dec_line [OF n(2)] file_type_line [of fn]
  have e: "dec (int (length bs)) = dec_nat (length bs)" "dec (checksum bs) = dec_nat (nat (checksum bs))"
    using checksum_range(1) by (simp_all add: dec_nonneg)
  from assms(2) d show ?thesis
    unfolding response_lines_def e by (auto simp: text_line_def lit_def)
qed

lemma request_sendfile_spec:
  assumes "WriteFailed \<notin> set (acceptances c)" "file_buf data = bs" "file_size data = int (length bs)" "length bs < 2 ^ 31"
  obtains as where "request_sendfile data c = Inr (c\<lparr>acceptances := as, to_peer := to_peer c @ response_text (file_name data) bs\<rparr>)"
    "WriteFailed \<notin> set as"
proof -
  let ?hd = "lit ''HTTP/1.0 200 OK'' @ crnl @ lit ''Server: OS Web Server'' @ crnl
          @ lit ''Content-Type: '' @ request_get_file_type (file_name data) @ crnl
          @ lit ''Content-Length: '' @ dec (int (length bs)) @ crnl
          @ lit ''Content-Csum: '' @ dec (checksum bs) @ crnl @ crnl"
  have t: "response_text (file_name data) bs = ?hd @ bs" by (simp add: response_text_def response_lines_def)
  have n: "length bs < 2 ^ 32" "nat (checksum bs) < 2 ^ 32" using assms(4) checksum_range [of bs] by simp_all
  have "length ?hd < MAXBUF"
    using dec_line(3) [OF n(1)] dec_line(3) [OF n(2)] file_type_line(3) [of "file_name data"] checksum_range(1)
    by (simp add: dec_nonneg lit_def crnl_def)
  then have "fits MAXBUF ?hd = Inr ?hd" by (simp only: fits_def if_True)
  moreover obtain as where as: "send ?hd c = Inr (c\<lparr>acceptances := as, to_peer := to_peer c @ ?hd\<rparr>)" "WriteFailed \<notin> set as"
    using send_spec [OF assms(1)] by blast
  moreover obtain as' where "send bs (c\<lparr>acceptances := as, to_peer := to_peer c @ ?hd\<rparr>)
      = Inr (c\<lparr>acceptances := as', to_peer := (to_peer c @ ?hd) @ bs\<rparr>)" "WriteFailed \<notin> set as'"
    using send_spec [of "c\<lparr>acceptances := as, to_peer := to_peer c @ ?hd\<rparr>" bs] as(2) by auto
  ultimately show thesis using that t assms(2,3)
    by (cases "bs = []") (auto simp: request_sendfile_def Let_def)
qed

section \<open>The client reads the response\<close>

lemma header_loop:
  assumes "\<And>h. h \<in> set hs \<Longrightarrow> text_line h \<and> h \<noteq> []"
    and "rio_ok rp" "rio_stream rp = concat (map (\<lambda>h. h @ crnl) hs) @ crnl @ rest"
    and "c_string buf = Inr line" "line \<noteq> crnl" "0 < n" "length buf = MAXBUF"
  shows "\<exists>buf' rp'. client_header_loop n buf rp len csum
      = Inr (buf', rp', foldl (\<lambda>l h. or_else (scan_d (lit ''Content-Length:'') (h @ crnl)) l) len (hs @ [[]]),
               foldl (\<lambda>l h. or_else (scan_u (lit ''Content-Csum:'') (h @ crnl)) l) csum (hs @ [[]]))
    \<and> length buf' = MAXBUF \<and> rio_ok rp' \<and> rio_stream rp' = rest"
  using assms
proof (induction hs arbitrary: n buf rp line len csum)
  case Nil
  have "rio_stream rp = [] @ crnl @ rest" "text_line []" using Nil.prems(3) by (simp_all add: text_line_def)
  from read_text_line [OF Nil.prems(2) this Nil.prems(7)] obtain rp1 b1 where
    r: "Rio_readlineb rp buf MAXLINE = Inr (2, b1, rp1)" "length b1 = MAXLINE" "c_string b1 = Inr crnl"
      "rio_ok rp1" "rio_stream rp1 = rest"
    by (metis append_Nil list.size(3) add_0 of_nat_numeral)
  with Nil.prems(4-6) show ?case
    by (simp add: client_header_loop.simps [of n buf] client_header_loop.simps [of 2 b1])
next
  case (Cons h hs)
  then have "rio_stream rp = h @ crnl @ concat (map (\<lambda>h. h @ crnl) hs) @ crnl @ rest" by simp
  from read_text_line [OF Cons.prems(2) this _ Cons.prems(7)] Cons.prems(1) [of h] obtain rp1 b1 where
    r: "Rio_readlineb rp buf MAXLINE = Inr (int (length h + 2), b1, rp1)" "length b1 = MAXLINE" "c_string b1 = Inr (h @ crnl)"
      "rio_ok rp1" "rio_stream rp1 = concat (map (\<lambda>h. h @ crnl) hs) @ crnl @ rest"
    by (metis list.set_intros(1))
  have ne: "h @ crnl \<noteq> crnl" "0 < int (length h + 2)" using Cons.prems(1) [of h] by simp_all
  from Cons.IH [OF Cons.prems(1) r(4,5,3) ne r(2), of "or_else (scan_d (lit ''Content-Length:'') (h @ crnl)) len"
      "or_else (scan_u (lit ''Content-Csum:'') (h @ crnl)) csum"]
  show ?case using Cons.prems(4-6) r(1,3)
    by (simp add: client_header_loop.simps [of n buf])
qed

text \<open>No run of bytes without a newline is as long as the client's buffer.\<close>

definition lines_fit :: "nat \<Rightarrow> byte list \<Rightarrow> bool" where
  "lines_fit n bs \<longleftrightarrow> (\<forall>i \<le> length bs. length (next_line n (drop i bs)) < n)"

lemma lines_fit_drop: "lines_fit n bs \<Longrightarrow> lines_fit n (drop k bs)"
  by (cases "k \<le> length bs") (auto simp: lines_fit_def)

lemma next_line_take: "next_line n bs = take (length (next_line n bs)) bs"
  by (induction n bs rule: next_line.induct) auto

lemma next_line_pos: "0 < n \<Longrightarrow> bs \<noteq> [] \<Longrightarrow> 0 < length (next_line n bs)"
  by (cases n; cases bs) auto

lemma body_line:
  assumes "rio_ok rp" "rio_stream rp = bs" "bs \<noteq> []" "lines_fit MAXBUF bs" "length buf = MAXBUF"
  obtains m rp' where "0 < m" "m \<le> length bs" "m < MAXBUF" "Rio_readlineb rp buf MAXBUF = Inr (int m, take m bs @ 0 # drop (m + 1) buf, rp')"
    "rio_ok rp'" "rio_stream rp' = drop m bs"
proof -
  define m where "m = length (next_line MAXBUF bs)"
  have m: "0 < m" "m < MAXBUF" "m \<le> length bs" "next_line MAXBUF bs = take m bs"
    using next_line_pos [OF _ assms(3), of MAXBUF] assms(4) next_line_length(2) [of MAXBUF bs] next_line_take [of MAXBUF bs]
    by (auto simp: lines_fit_def m_def dest: spec [of _ 0])
  have short: "0 + length (take m bs) < length buf" using m assms(5) by simp
  have ne: "rio_stream rp \<noteq> []" and le: "0 \<le> MAXBUF" "MAXBUF \<le> length buf" using assms(2,3,5) by simp_all
  from readlineb_loop_spec [OF assms(1) le disjI1 [OF ne], unfolded diff_zero assms(2) m(4) Let_def if_P [OF short]]
  obtain rp' where "rio_readlineb rp buf MAXBUF = Inr (int m, take m bs @ 0 # drop (m + 1) buf, rp')"
    "rio_ok rp'" "rio_stream rp' = drop m bs"
    using m(3) by (auto simp: rio_readlineb_def min_def)
  with m that show thesis by (auto simp: Rio_readlineb_def)
qed

lemma body_end: "rio_ok rp \<Longrightarrow> rio_stream rp = [] \<Longrightarrow> \<exists>rp'. Rio_readlineb rp buf MAXBUF = Inr (0, buf, rp')"
  using readlineb_eof [of rp MAXBUF buf] by (auto simp: Rio_readlineb_def)

lemma body_loop:
  assumes "rio_ok rp" "rio_stream rp = bs" "lines_fit MAXBUF bs" "length buf = MAXBUF"
  shows "client_body_loop buf rp len csum = Inr (len + int (length bs), foldl (\<lambda>csum b. u32 (csum + uint b)) csum bs)"
  using assms
proof (induction "length bs" arbitrary: bs rp buf len csum rule: less_induct)
  case less
  show ?case
  proof (cases "bs = []")
    case True
    with less.prems body_end [of rp buf] show ?thesis by (auto simp: client_body_loop.simps [of buf])
  next
    case False
    obtain m rp' where m: "0 < m" "m \<le> length bs" "m < MAXBUF" and
      r: "Rio_readlineb rp buf MAXBUF = Inr (int m, take m bs @ 0 # drop (m + 1) buf, rp')" "rio_ok rp'" "rio_stream rp' = drop m bs"
      by (rule body_line [OF less.prems(1,2) False less.prems(3,4)])
    have "length (take m bs @ 0 # drop (m + 1) buf) = MAXBUF" using m less.prems(4) by simp
    from less.hyps [OF _ r(2,3) lines_fit_drop [OF less.prems(3)] this] m
    have "client_body_loop (take m bs @ 0 # drop (m + 1) buf) rp' (len + int m) csum'
        = Inr (len + int (length bs), foldl (\<lambda>csum b. u32 (csum + uint b)) csum' (drop m bs))" for csum'
      by simp
    then have "client_body_loop buf rp len csum = Inr (len + int (length bs),
        foldl (\<lambda>csum b. u32 (csum + uint b)) (foldl (\<lambda>csum b. u32 (csum + uint b)) csum (take m bs)) (drop m bs))"
      using r(1) m by (simp add: client_body_loop.simps [of buf] Let_def)
    then show ?thesis by (simp flip: foldl_append)
  qed
qed

lemma scan_header_lines:
  fixes ft :: cstr
  assumes "n < 2 ^ 31" "m < 2 ^ 32"
  defines "hs \<equiv> [lit ''Server: OS Web Server'', lit ''Content-Type: '' @ ft, lit ''Content-Length: '' @ dec_nat n,
     lit ''Content-Csum: '' @ dec_nat m]"
  shows "foldl (\<lambda>l h. or_else (scan_d (lit ''Content-Length:'') (h @ crnl)) l) 0 (hs @ [[]]) = int n"
    "foldl (\<lambda>l h. or_else (scan_u (lit ''Content-Csum:'') (h @ crnl)) l) 0 (hs @ [[]]) = int m"
proof -
  have r: "crnl = [] \<or> \<not> is_digit (hd crnl)" by (simp add: crnl_def is_digit_def)
  have s: "scan_d (lit ''Content-Length:'') ((lit ''Content-Length: '' @ dec_nat n) @ crnl) = Some (int n)"
    "scan_u (lit ''Content-Csum:'') ((lit ''Content-Csum: '' @ dec_nat m) @ crnl) = Some (int m)"
    using scan_number(1) [OF r, of n "lit ''Content-Length:''"] scan_number(2) [OF r, of m "lit ''Content-Csum:''"] assms(1,2)
    by (simp_all add: lit_def)
  have no: "scan_d (lit ''Content-Length:'') ((lit ''Server: OS Web Server'') @ crnl) = None"
    "scan_d (lit ''Content-Length:'') ((lit ''Content-Type: '' @ ft) @ crnl) = None"
    "scan_d (lit ''Content-Length:'') ((lit ''Content-Csum: '' @ dec_nat m) @ crnl) = None"
    "scan_d (lit ''Content-Length:'') ([] @ crnl) = None"
    "scan_u (lit ''Content-Csum:'') ((lit ''Server: OS Web Server'') @ crnl) = None"
    "scan_u (lit ''Content-Csum:'') ((lit ''Content-Type: '' @ ft) @ crnl) = None"
    "scan_u (lit ''Content-Csum:'') ((lit ''Content-Length: '' @ dec_nat n) @ crnl) = None"
    "scan_u (lit ''Content-Csum:'') ([] @ crnl) = None"
    by (simp_all add: scan_d_def scan_u_def scan_after_def lit_def crnl_def)
  show "foldl (\<lambda>l h. or_else (scan_d (lit ''Content-Length:'') (h @ crnl)) l) 0 (hs @ [[]]) = int n"
    unfolding hs_def append.simps foldl_Cons foldl_Nil no [unfolded append.simps] s or_else_def option.case ..
  show "foldl (\<lambda>l h. or_else (scan_u (lit ''Content-Csum:'') (h @ crnl)) l) 0 (hs @ [[]]) = int m"
    unfolding hs_def append.simps foldl_Cons foldl_Nil no [unfolded append.simps] s or_else_def option.case ..
qed

text \<open>What is left of \<open>client_print\<close> when it has read the header.\<close>

lemma client_print_header:
  assumes fd: "reliable fd" "inflow fd = response_text fn bs" and len: "length bs < 2 ^ 31" and buf: "length buf = MAXBUF"
  obtains b rp where "length b = MAXBUF" "rio_ok rp" "rio_stream rp = bs"
    "client_print buf fd orig_csum orig_length = bindr (client_body_loop b rp 0 0) (\<lambda>(len_received, csum_received).
       bindr (c_assert (orig_csum = checksum bs)) (\<lambda>_.
       bindr (c_assert (orig_length = int (length bs))) (\<lambda>_.
       bindr (c_assert (int (length bs) = len_received)) (\<lambda>_.
       c_assert (checksum bs = csum_received)))))"
proof -
  let ?h = "lit ''HTTP/1.0 200 OK''" and ?n = "length bs" and ?m = "nat (checksum bs)"
  let ?hs = "[lit ''Server: OS Web Server'', lit ''Content-Type: '' @ request_get_file_type fn,
     lit ''Content-Length: '' @ dec_nat ?n, lit ''Content-Csum: '' @ dec_nat ?m]"
  have l: "response_lines fn bs = ?h # ?hs"
    using checksum_range(1) [of bs] by (simp add: response_lines_def dec_nonneg)
  have t: "text_line h" if "h \<in> set (?h # ?hs)" for h
    using response_lines_text [OF len, of h fn] that unfolding l .
  have hs: "text_line h \<and> h \<noteq> []" if "h \<in> set ?hs" for h using t [of h] that by (auto simp: lit_def)
  note r0 = rio_init_ok [OF fd(1)]
  have "rio_stream (rio_init fd) = ?h @ crnl @ (concat (map (\<lambda>h. h @ crnl) ?hs) @ crnl @ bs)"
    using r0 fd(2) by (simp add: response_text_def l)
  from read_text_line [OF conjunct1 [OF r0] this t buf] obtain rp1 b1 where
    r1: "Rio_readlineb (rio_init fd) buf MAXLINE = Inr (int (length ?h + 2), b1, rp1)" "length b1 = MAXLINE"
      "c_string b1 = Inr (?h @ crnl)" "rio_ok rp1" "rio_stream rp1 = concat (map (\<lambda>h. h @ crnl) ?hs) @ crnl @ bs"
    by (metis list.set_intros(1))
  have ne: "?h @ crnl \<noteq> crnl" "0 < int (length ?h + 2)" by (simp_all add: lit_def)
  have nm: "?n < 2 ^ 31" "?m < 2 ^ 32" using len checksum_range [of bs] by simp_all
  from header_loop [OF hs r1(4,5,3) ne r1(2), of 0 0, unfolded scan_header_lines [OF nm]] obtain b2 rp2 where
    r2: "client_header_loop (int (length ?h + 2)) b1 rp1 0 0 = Inr (b2, rp2, int ?n, int ?m)"
      "length b2 = MAXBUF" "rio_ok rp2" "rio_stream rp2 = bs"
    by blast
  show thesis by (rule that [OF r2(2-4)], unfold client_print_def r1(1) bindr_Inr prod.case r2(1))
    (use checksum_range(1) [of bs] in simp)
qed

lemma client_print_spec:
  assumes fd: "reliable fd" "inflow fd = response_text fn bs" and bs: "lines_fit MAXBUF bs" "length bs < 2 ^ 31"
    and buf: "length buf = MAXBUF"
  shows "client_print buf fd (checksum bs) (int (length bs)) = Inr ()"
proof -
  obtain b rp where r: "length b = MAXBUF" "rio_ok rp" "rio_stream rp = bs"
    and p: "client_print buf fd (checksum bs) (int (length bs)) = bindr (client_body_loop b rp 0 0) (\<lambda>(len_received, csum_received).
       bindr (c_assert (checksum bs = checksum bs)) (\<lambda>_.
       bindr (c_assert (int (length bs) = int (length bs))) (\<lambda>_.
       bindr (c_assert (int (length bs) = len_received)) (\<lambda>_.
       c_assert (checksum bs = csum_received)))))"
    by (rule client_print_header [OF fd bs(2) buf])
  from body_loop [OF r(2,3) bs(1) r(1), of 0 0] show ?thesis unfolding p by (simp add: checksum_def)
qed

text \<open>A file whose first bytes have no newline fills the client's buffer, and the terminating zero falls outside.\<close>

lemma client_print_overflow:
  assumes fd: "reliable fd" "inflow fd = response_text fn bs" and bs: "10 \<notin> set bs" "MAXBUF \<le> length bs" "length bs < 2 ^ 31"
    and buf: "length buf = MAXBUF"
  shows "client_print buf fd orig_csum orig_length = Inl OutOfBounds"
proof -
  have nl: "10 \<notin> set xs \<Longrightarrow> next_line n xs = take n xs" for n xs by (induction n xs rule: next_line.induct) auto
  obtain b rp where r: "length b = MAXBUF" "rio_ok rp" "rio_stream rp = bs"
    and p: "client_print buf fd orig_csum orig_length = bindr (client_body_loop b rp 0 0) (\<lambda>(len_received, csum_received).
       bindr (c_assert (orig_csum = checksum bs)) (\<lambda>_.
       bindr (c_assert (orig_length = int (length bs))) (\<lambda>_.
       bindr (c_assert (int (length bs) = len_received)) (\<lambda>_.
       c_assert (checksum bs = csum_received)))))"
    by (rule client_print_header [OF fd bs(3) buf])
  have full: "\<not> 0 + length (take MAXBUF bs) < length b" using bs(2) r(1) by simp
  have ne: "rio_stream rp \<noteq> []" and le: "0 \<le> MAXBUF" "MAXBUF \<le> length b" using bs(2) r(1,3) by auto
  from readlineb_loop_spec [OF r(2) le disjI1 [OF ne], unfolded diff_zero r(3) nl [OF bs(1)] Let_def if_not_P [OF full]]
  have "Rio_readlineb rp b MAXBUF = Inl OutOfBounds" by (simp add: Rio_readlineb_def rio_readlineb_def)
  then show ?thesis by (simp add: p client_body_loop.simps [of b])
qed

end
