(* ===== verification/Cache.thy ===== *)
theory Cache
  imports Request "HOL-Library.Signed_Division"
begin

text \<open>
  The file cache of \<open>src/webserver/server_thread.c\<close>: a hash table with open addressing, whose probe
  sequence squares the key, and a doubly linked list in the order of use.  Elements and files are heap
  objects; an address is a position in the list of all objects, \<open>None\<close> there is a freed object.  The
  functions run under the mutex \<open>table_lock\<close>.  The memory is taken to suffice (for a table of a size that is
  not negative).  \<open>remaining_cache_size\<close>, an \<open>int\<close> in C, is an unbounded \<open>int\<close> here: it is the size of the
  cache less the sizes of the files in it, so it would overflow only with 2 GB of cached files.

  A probe sequence is determined by its key, so a walk of more steps than the table has places meets
  a place twice and, as the table does not change, never ends.  \<open>cache_lookup\<close> computes the keys as
  \<open>int\<close>, the other functions as \<open>unsigned long\<close>.
\<close>

section \<open>Data\<close>

type_synonym ptr = "nat option"

record element =
  e_file :: nat
  e_next :: ptr
  e_pre :: ptr

record wc =
  hashtable :: "ptr list"
  cache_size :: int
  remaining_cache_size :: int
  table_size :: int
  LRU_element :: ptr
  LRU_tail :: ptr
  elements :: "element option list"
  files :: "file_data option list"

definition elem_at :: "ptr \<Rightarrow> wc \<Rightarrow> element result" where
  "elem_at p c = (case p of None \<Rightarrow> Inl BadPointer
     | Some a \<Rightarrow> if a < length (elements c) then (case elements c ! a of None \<Rightarrow> Inl BadPointer | Some e \<Rightarrow> Inr e)
                 else Inl BadPointer)"

definition upd_elem :: "ptr \<Rightarrow> (element \<Rightarrow> element) \<Rightarrow> wc \<Rightarrow> wc result" where
  "upd_elem p f c = bindr (elem_at p c) (\<lambda>e.
     case p of None \<Rightarrow> Inl BadPointer | Some a \<Rightarrow> Inr (c\<lparr>elements := (elements c)[a := Some (f e)]\<rparr>))"

definition file_at :: "nat \<Rightarrow> wc \<Rightarrow> file_data result" where
  "file_at a c = (if a < length (files c) then (case files c ! a of None \<Rightarrow> Inl BadPointer | Some f \<Rightarrow> Inr f)
     else Inl BadPointer)"

text \<open>The file of an element: \<open>p->file\<close>, dereferenced.\<close>

definition elem_file :: "ptr \<Rightarrow> wc \<Rightarrow> file_data result" where
  "elem_file p c = bindr (elem_at p c) (\<lambda>e. file_at (e_file e) c)"

definition table_at :: "int \<Rightarrow> wc \<Rightarrow> ptr result" where
  "table_at key c = (if key < 0 then Inl OutOfBounds else arr_get (hashtable c) (nat key))"

section \<open>The hash table\<close>

text \<open>A \<open>char\<close> is signed.\<close>

definition hash :: "cstr \<Rightarrow> int" where
  "hash str = foldl (\<lambda>h b. u64 (h * 33 + sint b)) 5381 str"

text \<open>For a negative size \<open>malloc\<close> is asked for nearly all addresses, fails, and so does the assertion.\<close>

definition create_hash :: "int \<Rightarrow> ptr list result" where
  "create_hash tsize = (if tsize < 0 then Inl AssertFailed else Inr (replicate (nat tsize) None))"

text \<open>The part of \<open>server_init\<close> that sets the cache up.\<close>

definition cache_init :: "int \<Rightarrow> wc result" where
  "cache_init max_cache_size =
     (let tsize = s32 (max_cache_size * 11) in
      bindr (create_hash tsize) (\<lambda>tab.
      Inr \<lparr>hashtable = tab, cache_size = max_cache_size, remaining_cache_size = max_cache_size,
        table_size = tsize, LRU_element = None, LRU_tail = None, elements = [], files = []\<rparr>))"

definition first_key :: "cstr \<Rightarrow> wc \<Rightarrow> int" where
  "first_key name c = hash name mod u64 (table_size c)"

text \<open>The next key in \<open>int\<close> and in \<open>unsigned long\<close> arithmetic.\<close>

definition next_key_int :: "int \<Rightarrow> wc \<Rightarrow> int" where
  "next_key_int key c = s32 (key * key) smod table_size c"

definition next_key :: "int \<Rightarrow> wc \<Rightarrow> int" where
  "next_key key c = u64 (key * key) mod u64 (table_size c)"

section \<open>The list in the order of use\<close>

text \<open>\<open>LRU_tail->next = p; p->pre = LRU_tail; LRU_tail = LRU_tail->next\<close>.\<close>

definition lru_append :: "ptr \<Rightarrow> wc \<Rightarrow> wc result" where
  "lru_append p c =
     bindr (upd_elem (LRU_tail c) (\<lambda>e. e\<lparr>e_next := p\<rparr>) c) (\<lambda>c.
     bindr (upd_elem p (\<lambda>e. e\<lparr>e_pre := LRU_tail c\<rparr>) c) (\<lambda>c.
     bindr (elem_at (LRU_tail c) c) (\<lambda>t.
     Inr (c\<lparr>LRU_tail := e_next t\<rparr>))))"

text \<open>Taking an element out of a list of at least two: first its predecessor, then its successor.\<close>

definition lru_unlink_pre :: "ptr \<Rightarrow> wc \<Rightarrow> wc result" where
  "lru_unlink_pre p c =
     bindr (elem_file (LRU_element c) c) (\<lambda>hf.
     bindr (elem_file p c) (\<lambda>pf.
     if file_name hf = file_name pf then
       bindr (elem_at (LRU_element c) c) (\<lambda>h.
       let c = c\<lparr>LRU_element := e_next h\<rparr> in upd_elem (LRU_element c) (\<lambda>e. e\<lparr>e_pre := None\<rparr>) c)
     else
       bindr (elem_at p c) (\<lambda>e. upd_elem (e_pre e) (\<lambda>x. x\<lparr>e_next := e_next e\<rparr>) c)))"

definition lru_unlink_next :: "ptr \<Rightarrow> wc \<Rightarrow> wc result" where
  "lru_unlink_next p c =
     bindr (elem_file (LRU_tail c) c) (\<lambda>tf.
     bindr (elem_file p c) (\<lambda>pf.
     if file_name tf = file_name pf then
       bindr (elem_at (LRU_tail c) c) (\<lambda>t.
       let c = c\<lparr>LRU_tail := e_pre t\<rparr> in upd_elem (LRU_tail c) (\<lambda>e. e\<lparr>e_next := None\<rparr>) c)
     else
       bindr (elem_at p c) (\<lambda>e. upd_elem (e_next e) (\<lambda>x. x\<lparr>e_pre := e_pre e\<rparr>) c)))"

definition upgrade_LRU_2 :: "ptr \<Rightarrow> bool \<Rightarrow> wc \<Rightarrow> wc result" where
  "upgrade_LRU_2 p inserting c =
     (if LRU_element c = None then
        let c = c\<lparr>LRU_element := p\<rparr> in
        bindr (upd_elem p (\<lambda>e. e\<lparr>e_next := None, e_pre := None\<rparr>) c) (\<lambda>c.
        Inr (c\<lparr>LRU_tail := LRU_element c\<rparr>))
      else
        bindr (elem_at (LRU_element c) c) (\<lambda>h.
        if e_next h = None then
          bindr (elem_at p c) (\<lambda>e. if e_file h \<noteq> e_file e then lru_append p c else Inr c)
        else if inserting then lru_append p c
        else
          bindr (lru_unlink_pre p c) (\<lambda>c.
          bindr (lru_unlink_next p c) (\<lambda>c.
          bindr (lru_append p c) (\<lambda>c.
          upd_elem p (\<lambda>e. e\<lparr>e_next := None\<rparr>) c)))))"

section \<open>Looking up, inserting, evicting\<close>

fun lookup_loop :: "nat \<Rightarrow> cstr \<Rightarrow> int \<Rightarrow> wc \<Rightarrow> ptr result" where
  "lookup_loop n name key c =
     bindr (table_at key c) (\<lambda>p.
     case p of None \<Rightarrow> Inr None
     | Some a \<Rightarrow>
         bindr (elem_file p c) (\<lambda>f.
         if name = file_name f then Inr p
         else case n of 0 \<Rightarrow> Inl Diverges | Suc n \<Rightarrow> lookup_loop n name (next_key_int key c) c))"

declare lookup_loop.simps [simp del]

text \<open>\<open>LRU_flag\<close> says whether a hit counts as a use.\<close>

definition cache_lookup :: "cstr \<Rightarrow> bool \<Rightarrow> wc \<Rightarrow> (ptr \<times> wc) result" where
  "cache_lookup name LRU_flag c =
     bindr (lookup_loop (nat (table_size c)) name (s32 (first_key name c)) c) (\<lambda>p.
     if p \<noteq> None \<and> LRU_flag then bindr (upgrade_LRU_2 p False c) (\<lambda>c. Inr (p, c)) else Inr (p, c))"

text \<open>The key of the first place on the probe sequence for which \<open>stop\<close> holds.\<close>

fun probe :: "nat \<Rightarrow> (ptr \<Rightarrow> bool) \<Rightarrow> int \<Rightarrow> wc \<Rightarrow> int result" where
  "probe n stop key c =
     bindr (table_at key c) (\<lambda>p.
     if stop p then Inr key
     else case n of 0 \<Rightarrow> Inl Diverges | Suc n \<Rightarrow> probe n stop (next_key key c) c)"

declare probe.simps [simp del]

text \<open>The loop of \<open>cache_evict\<close>.  With an empty list its body does nothing, for ever.\<close>

function cache_evict :: "int \<Rightarrow> wc \<Rightarrow> wc result" where
  "cache_evict amount_to_evict c =
     (if remaining_cache_size c > amount_to_evict then
        case LRU_element c of None \<Rightarrow> Inl Diverges
        | Some a \<Rightarrow>
            bindr (elem_at (Some a) c) (\<lambda>t.
            let c = c\<lparr>LRU_element := e_next t\<rparr> in
            bindr (upd_elem (LRU_element c) (\<lambda>e. e\<lparr>e_pre := None\<rparr>) c) (\<lambda>c.
            bindr (file_at (e_file t) c) (\<lambda>f.
            let c = c\<lparr>remaining_cache_size := remaining_cache_size c + file_size f\<rparr> in
            bindr (probe (nat (table_size c)) (\<lambda>p. p = Some a) (first_key (file_name f) c) c) (\<lambda>key.
            cache_evict amount_to_evict
              (c\<lparr>files := (files c)[e_file t := None], elements := (elements c)[a := None],
                 hashtable := (hashtable c)[nat key := None]\<rparr>)))))
      else Inr c)"
  by pat_completeness auto

definition live_elements :: "wc \<Rightarrow> nat" where
  "live_elements c = length (filter (\<lambda>e. e \<noteq> None) (elements c))"

lemma filter_update_less:
  "a < length es \<Longrightarrow> es ! a \<noteq> None \<Longrightarrow> length (filter (\<lambda>e. e \<noteq> None) (es[a := None])) < length (filter (\<lambda>e. e \<noteq> None) es)"
  by (induction es arbitrary: a) (auto split: nat.splits)

lemma filter_update_some:
  "a < length es \<Longrightarrow> es ! a \<noteq> None \<Longrightarrow> length (filter (\<lambda>e. e \<noteq> None) (es[a := Some x])) = length (filter (\<lambda>e. e \<noteq> None) es)"
  by (induction es arbitrary: a) (auto split: nat.splits)

termination cache_evict
proof (relation "measure (\<lambda>(amount, c). live_elements c)")
  fix amount c a t c1 c2 f c3 key
  assume t: "elem_at (Some a) c = Inr t" and c1: "c1 = c\<lparr>LRU_element := e_next t\<rparr>"
    and c2: "upd_elem (LRU_element c1) (\<lambda>e. e\<lparr>e_pre := None\<rparr>) c1 = Inr c2"
    and c3: "c3 = c2\<lparr>remaining_cache_size := remaining_cache_size c2 + file_size f\<rparr>"
  from t have a: "a < length (elements c)" "elements c ! a \<noteq> None"
    by (auto simp: elem_at_def split: if_splits option.splits)
  from c2 c1 obtain b x where b: "b < length (elements c)" "elements c ! b \<noteq> None" "elements c2 = (elements c)[b := Some x]"
    by (auto simp: upd_elem_def elem_at_def bindr_eq_Inr split: if_splits option.splits)
  have "elements c2 ! a \<noteq> None" "a < length (elements c2)" using a b by (simp_all add: nth_list_update)
  then have "length (filter (\<lambda>e. e \<noteq> None) ((elements c2)[a := None])) < live_elements c"
    using filter_update_less [of a "elements c2"] filter_update_some [OF b(1,2), of x] b(3) by (simp add: live_elements_def)
  then show "((amount, c3\<lparr>files := (files c3)[e_file t := None], elements := (elements c3)[a := None],
      hashtable := (hashtable c3)[nat key := None]\<rparr>), (amount, c)) \<in> measure (\<lambda>(amount, c). live_elements c)"
    by (simp add: c3 live_elements_def)
qed simp

declare cache_evict.simps [simp del]

text \<open>\<open>file\<close> is the address of the file; the result is the new element, or \<open>None\<close> for a file that is too big.\<close>

definition cache_insert :: "nat \<Rightarrow> wc \<Rightarrow> (ptr \<times> wc) result" where
  "cache_insert file c =
     bindr (file_at file c) (\<lambda>f.
     if 2 * file_size f > cache_size c then Inr (None, c)
     else
       bindr (if file_size f \<ge> remaining_cache_size c then cache_evict (file_size f) c else Inr c) (\<lambda>c.
       bindr (file_at file c) (\<lambda>f.
       let key = first_key (file_name f) c;
           temp_new = Some (length (elements c));
           c = c\<lparr>elements := elements c @ [Some \<lparr>e_file = file, e_next = None, e_pre = None\<rparr>]\<rparr>
       in
       bindr (table_at key c) (\<lambda>p.
       bindr (if p = None then Inr key else probe (nat (table_size c)) (\<lambda>p. p = None) (next_key key c) c) (\<lambda>key.
       let c = c\<lparr>hashtable := (hashtable c)[nat key := temp_new],
                 remaining_cache_size := remaining_cache_size c - file_size f\<rparr> in
       bindr (upgrade_LRU_2 temp_new True c) (\<lambda>c.
       Inr (temp_new, c)))))))"

end
