(* ===== verification/CacheSpec.thy ===== *)
theory CacheSpec
  imports Cache
begin

text \<open>
  The cache as a set of named files with an order of use.  \<open>lru\<close> says that the linked list holds the
  elements \<open>xs\<close>; \<open>table_ok\<close> that every element is found on the probe sequence of its name.
\<close>

section \<open>The list of elements\<close>

definition elem :: "wc \<Rightarrow> nat \<Rightarrow> element option" where
  "elem c a = (if a < length (elements c) then elements c ! a else None)"

text \<open>What the list operations leave alone.\<close>

definition outside :: "wc \<Rightarrow> ptr list \<times> int \<times> int \<times> int \<times> file_data option list \<times> (nat \<Rightarrow> nat option)" where
  "outside c = (hashtable c, cache_size c, remaining_cache_size c, table_size c, files c, \<lambda>a. map_option e_file (elem c a))"

lemma elem_at_Some [simp]: "elem c a = Some e \<Longrightarrow> elem_at (Some a) c = Inr e"
  by (auto simp: elem_def elem_at_def split: if_splits)

lemma elem_update: "elem c a = Some e \<Longrightarrow> elem (c\<lparr>elements := (elements c)[a := Some e']\<rparr>) = (elem c)(a \<mapsto> e')"
  by (rule ext) (auto simp: elem_def split: if_splits)

lemma upd_elem_Some:
  assumes "elem c a = Some e" "e_file (f e) = e_file e"
  obtains c' where "upd_elem (Some a) f c = Inr c'" "elem c' = (elem c)(a \<mapsto> f e)" "outside c' = outside c"
    "LRU_element c' = LRU_element c" "LRU_tail c' = LRU_tail c"
proof -
  let ?c = "c\<lparr>elements := (elements c)[a := Some (f e)]\<rparr>"
  have "upd_elem (Some a) f c = Inr ?c" using assms(1) by (simp add: upd_elem_def)
  moreover have "outside ?c = outside c"
    using assms by (auto simp: outside_def elem_update)
  ultimately show thesis using elem_update [OF assms(1), of "f e"] by (intro that [of ?c]) simp_all
qed

fun lseg :: "(nat \<Rightarrow> element option) \<Rightarrow> ptr \<Rightarrow> nat list \<Rightarrow> ptr \<Rightarrow> bool" where
  "lseg E pre [] nxt \<longleftrightarrow> True"
| "lseg E pre (x # xs) nxt \<longleftrightarrow>
     (\<exists>e. E x = Some e \<and> e_pre e = pre \<and> e_next e = (if xs = [] then nxt else Some (hd xs))) \<and> lseg E (Some x) xs nxt"

lemma lseg_ConsE:
  assumes "lseg E pre (x # xs) nxt"
  obtains e where "E x = Some e" "e_pre e = pre" "e_next e = (if xs = [] then nxt else Some (hd xs))" "lseg E (Some x) xs nxt"
  using assms by auto

lemma lseg_append:
  "lseg E pre (xs @ ys) nxt \<longleftrightarrow> lseg E pre xs (if ys = [] then nxt else Some (hd ys))
     \<and> lseg E (if xs = [] then pre else Some (last xs)) ys nxt"
  by (induction xs arbitrary: pre) auto

lemma lseg_cong: "(\<And>x. x \<in> set xs \<Longrightarrow> E' x = E x) \<Longrightarrow> lseg E' pre xs nxt = lseg E pre xs nxt"
  by (induction xs arbitrary: pre) auto

lemma lseg_upd [simp]: "a \<notin> set xs \<Longrightarrow> lseg (E(a := y)) pre xs nxt = lseg E pre xs nxt"
  by (rule lseg_cong) auto

text \<open>Changing the predecessor of the first element and the successor of the last.\<close>

lemma lseg_set_pre:
  assumes "lseg E pre (x # xs) nxt" "distinct (x # xs)" "E x = Some e" "e' = e\<lparr>e_pre := pre'\<rparr>"
  shows "lseg (E(x \<mapsto> e')) pre' (x # xs) nxt"
  using assms by auto

lemma lseg_set_next:
  assumes "lseg E pre (xs @ [x]) nxt" "distinct (xs @ [x])" "E x = Some e" "e' = e\<lparr>e_next := nxt'\<rparr>"
  shows "lseg (E(x \<mapsto> e')) pre (xs @ [x]) nxt'"
  using assms by (auto simp: lseg_append)

definition lru :: "wc \<Rightarrow> nat list \<Rightarrow> bool" where
  "lru c xs \<longleftrightarrow> distinct xs \<and> lseg (elem c) None xs None
     \<and> LRU_element c = (if xs = [] then None else Some (hd xs)) \<and> LRU_tail c = (if xs = [] then None else Some (last xs))"

lemma lseg_elem: "lseg E pre xs nxt \<Longrightarrow> x \<in> set xs \<Longrightarrow> \<exists>e. E x = Some e"
  by (induction xs arbitrary: pre) auto

text \<open>Appending an element that is not in the list.\<close>

lemma lru_append_spec:
  assumes xs: "distinct xs" "lseg (elem c) None xs None" "xs \<noteq> []" "LRU_tail c = Some (last xs)"
    and p: "p \<notin> set xs" "elem c p = Some e"
  obtains c' where "lru_append (Some p) c = Inr c'" "outside c' = outside c" "LRU_element c' = LRU_element c"
    "LRU_tail c' = Some p" "lseg (elem c') None xs (Some p)" "elem c' p = Some (e\<lparr>e_pre := Some (last xs)\<rparr>)"
proof -
  let ?t = "last xs"
  obtain ys where ys: "xs = ys @ [?t]" using xs(3) by (metis append_butlast_last_id)
  obtain t where t: "elem c ?t = Some t" using lseg_elem [OF xs(2)] xs(3) by force
  from upd_elem_Some [OF t, of "\<lambda>e. e\<lparr>e_next := Some p\<rparr>"] obtain c1 where
    c1: "upd_elem (Some ?t) (\<lambda>e. e\<lparr>e_next := Some p\<rparr>) c = Inr c1" "elem c1 = (elem c)(?t \<mapsto> t\<lparr>e_next := Some p\<rparr>)"
      "outside c1 = outside c" "LRU_element c1 = LRU_element c" "LRU_tail c1 = LRU_tail c" by auto
  have ne: "p \<noteq> ?t" using p(1) xs(3) by auto
  then have e1: "elem c1 p = Some e" using c1(2) p(2) by simp
  from upd_elem_Some [OF e1, of "\<lambda>e. e\<lparr>e_pre := LRU_tail c1\<rparr>"] obtain c2 where
    c2: "upd_elem (Some p) (\<lambda>e. e\<lparr>e_pre := LRU_tail c1\<rparr>) c1 = Inr c2" "elem c2 = (elem c1)(p \<mapsto> e\<lparr>e_pre := LRU_tail c1\<rparr>)"
      "outside c2 = outside c1" "LRU_element c2 = LRU_element c1" "LRU_tail c2 = LRU_tail c1" by auto
  have t2: "elem c2 ?t = Some (t\<lparr>e_next := Some p\<rparr>)" using c2(2) c1(2) ne by simp
  let ?c = "c2\<lparr>LRU_tail := Some p\<rparr>"
  have e': "elem ?c = elem c2" "outside ?c = outside c2" by (simp_all add: elem_def outside_def fun_eq_iff)
  have "lru_append (Some p) c = Inr ?c"
    using c1 c2 t2 xs(4) by (simp add: lru_append_def)
  moreover have "lseg (elem c1) None xs (Some p)"
    using lseg_set_next [of "elem c" None ys ?t None t "t\<lparr>e_next := Some p\<rparr>" "Some p"] xs(1,2) t ys c1(2) by simp
  then have "lseg (elem ?c) None xs (Some p)" using p(1) c2(2) by (simp add: e')
  ultimately show thesis using c1 c2 xs(4) by (intro that [of ?c]) (simp_all add: e')
qed

lemma lru_snoc:
  assumes "lseg E None xs (Some p)" "E p = Some e" "xs \<noteq> []" "e_pre e = Some (last xs)" "e_next e = None"
  shows "lseg E None (xs @ [p]) None"
  using assms by (simp add: lseg_append)

text \<open>The names of the elements, which the list operations do not change.\<close>

lemma elem_file_eq: "elem_file (Some a) c = (case map_option e_file (elem c a) of None \<Rightarrow> Inl BadPointer | Some fa \<Rightarrow> file_at fa c)"
  by (auto simp: elem_file_def elem_def elem_at_def split: option.splits)

lemma elem_file_outside:
  assumes "outside c' = outside c" shows "elem_file (Some a) c' = elem_file (Some a) c"
proof -
  from assms have "map_option e_file (elem c' a) = map_option e_file (elem c a)" "files c' = files c"
    by (simp_all add: outside_def fun_eq_iff)
  then show ?thesis by (simp only: elem_file_eq file_at_def)
qed

definition named :: "wc \<Rightarrow> nat list \<Rightarrow> (nat \<Rightarrow> cstr) \<Rightarrow> bool" where
  "named c xs nm \<longleftrightarrow> inj_on nm (set xs) \<and> (\<forall>x \<in> set xs. \<exists>f. elem_file (Some x) c = Inr f \<and> file_name f = nm x)"

lemma named_elem: "named c xs nm \<Longrightarrow> x \<in> set xs \<Longrightarrow> \<exists>f. elem_file (Some x) c = Inr f \<and> file_name f = nm x"
  by (auto simp: named_def)

lemma named_outside: "outside c' = outside c \<Longrightarrow> named c' xs nm = named c xs nm"
  unfolding named_def by (simp only: elem_file_outside [of c' c])

lemma unlink_pre_spec:
  assumes l: "lru c (us @ p # vs)" and n: "named c (us @ p # vs) nm" and ne: "us @ vs \<noteq> []"
  obtains c' e where "lru_unlink_pre (Some p) c = Inr c'" "outside c' = outside c" "LRU_tail c' = Some (last (p # vs))"
    "LRU_element c' = Some (hd (us @ vs))" "elem c' p = Some e"
    "e_next e = (if vs = [] then None else Some (hd vs))" "e_pre e = (if us = [] then None else Some (last us))"
    "lseg (elem c') None us (if vs = [] then None else Some (hd vs))"
    "lseg (elem c') (if us = [] then None else Some p) vs None"
proof -
  note d = l [unfolded lru_def]
  from d have us: "lseg (elem c) None us (Some p)"
    and pvs: "lseg (elem c) (if us = [] then None else Some (last us)) (p # vs) None" and dist: "distinct (us @ p # vs)"
    using lseg_append [of "elem c" None us "p # vs" None] by simp_all
  from pvs obtain e where e: "elem c p = Some e" "e_pre e = (if us = [] then None else Some (last us))"
    "e_next e = (if vs = [] then None else Some (hd vs))" and vs: "lseg (elem c) (Some p) vs None"
    by (rule lseg_ConsE)
  from named_elem [OF n, of p] obtain pf where pf: "elem_file (Some p) c = Inr pf" "file_name pf = nm p" by auto
  show thesis
  proof (cases us rule: rev_cases)
    case Nil
    then obtain v vs' where v: "vs = v # vs'" using ne by (cases vs) auto
    let ?c = "c\<lparr>LRU_element := Some v\<rparr>"
    have el: "elem ?c = elem c" "outside ?c = outside c" by (simp_all add: elem_def outside_def fun_eq_iff)
    obtain ev where ev: "elem ?c v = Some ev" using vs v by (auto simp: el)
    from upd_elem_Some [OF ev, of "\<lambda>e. e\<lparr>e_pre := None\<rparr>"] obtain c1 where
      c1: "upd_elem (Some v) (\<lambda>e. e\<lparr>e_pre := None\<rparr>) ?c = Inr c1" "elem c1 = (elem ?c)(v \<mapsto> ev\<lparr>e_pre := None\<rparr>)"
        "outside c1 = outside ?c" "LRU_element c1 = LRU_element ?c" "LRU_tail c1 = LRU_tail ?c" by auto
    have "lru_unlink_pre (Some p) c = Inr c1"
      using d Nil v e pf c1(1) by (simp add: lru_unlink_pre_def)
    moreover have "lseg (elem c1) None vs None"
      using lseg_set_pre [of "elem c" "Some p" v vs' None ev "ev\<lparr>e_pre := None\<rparr>" None] vs v dist ev c1(2) by (simp add: el)
    ultimately show thesis using c1 d e v Nil dist by (intro that [of c1 e]) (auto simp: el)
  next
    case (snoc us' u)
    have "hd us \<in> set us" using snoc by (intro hd_in_set) simp
    then have hus: "hd us \<in> set (us @ p # vs)" "p \<in> set (us @ p # vs)" "hd us \<noteq> p" using dist by auto
    then have ne': "nm (hd us) \<noteq> nm p" using n inj_onD [of nm "set (us @ p # vs)" "hd us" p] by (auto simp: named_def)
    obtain eu where eu: "elem c u = Some eu" using us snoc by (auto simp: lseg_append)
    from upd_elem_Some [OF eu, of "\<lambda>x. x\<lparr>e_next := e_next e\<rparr>"] obtain c1 where
      c1: "upd_elem (Some u) (\<lambda>x. x\<lparr>e_next := e_next e\<rparr>) c = Inr c1" "elem c1 = (elem c)(u \<mapsto> eu\<lparr>e_next := e_next e\<rparr>)"
        "outside c1 = outside c" "LRU_element c1 = LRU_element c" "LRU_tail c1 = LRU_tail c" by auto
    have hd: "LRU_element c = Some (hd us)" "hd (us @ vs) = hd us"
      using d snoc hd_append2 [of us "p # vs"] hd_append2 [of us vs] by simp_all
    from named_elem [OF n hus(1)] obtain hf where hf: "elem_file (Some (hd us)) c = Inr hf" "file_name hf = nm (hd us)" by auto
    have "lru_unlink_pre (Some p) c = Inr c1"
      using hd(1) hf pf ne' e snoc c1(1) by (simp add: lru_unlink_pre_def)
    moreover have "lseg (elem c1) None us (e_next e)"
      using lseg_set_next [of "elem c" None us' u "Some p" eu "eu\<lparr>e_next := e_next e\<rparr>" "e_next e"] us dist eu c1(2) snoc by simp
    moreover have "lseg (elem c1) (Some p) vs None" "elem c1 p = Some e" using vs c1(2) dist snoc e(1) by auto
    ultimately show thesis using c1 d e hd snoc by (intro that [of c1 e]) (auto split: if_splits)
  qed
qed

lemma unlink_next_spec:
  assumes n: "named c (us @ p # vs) nm" and ne: "us @ vs \<noteq> []" and dist: "distinct (us @ p # vs)"
    and tl: "LRU_tail c = Some (last (p # vs))" and e: "elem c p = Some e" "e_next e = (if vs = [] then None else Some (hd vs))"
      "e_pre e = (if us = [] then None else Some (last us))"
    and us: "lseg (elem c) None us (if vs = [] then None else Some (hd vs))"
    and vs: "lseg (elem c) (if us = [] then None else Some p) vs None"
  obtains c' where "lru_unlink_next (Some p) c = Inr c'" "outside c' = outside c" "LRU_element c' = LRU_element c"
    "LRU_tail c' = Some (last (us @ vs))" "lseg (elem c') None (us @ vs) None" "elem c' p \<noteq> None"
proof -
  from named_elem [OF n, of p] obtain pf where pf: "elem_file (Some p) c = Inr pf" "file_name pf = nm p" by auto
  show thesis
  proof (cases vs)
    case Nil
    then obtain us' u where u: "us = us' @ [u]" using ne by (cases us rule: rev_cases) auto
    let ?c = "c\<lparr>LRU_tail := Some u\<rparr>"
    have el: "elem ?c = elem c" "outside ?c = outside c" by (simp_all add: elem_def outside_def fun_eq_iff)
    obtain eu where eu: "elem ?c u = Some eu" using us u by (auto simp: el lseg_append)
    from upd_elem_Some [OF eu, of "\<lambda>e. e\<lparr>e_next := None\<rparr>"] obtain c1 where
      c1: "upd_elem (Some u) (\<lambda>e. e\<lparr>e_next := None\<rparr>) ?c = Inr c1" "elem c1 = (elem ?c)(u \<mapsto> eu\<lparr>e_next := None\<rparr>)"
        "outside c1 = outside ?c" "LRU_element c1 = LRU_element ?c" "LRU_tail c1 = LRU_tail ?c" by auto
    have "lru_unlink_next (Some p) c = Inr c1"
      using tl Nil u e pf c1(1) by (simp add: lru_unlink_next_def)
    moreover have "lseg (elem c1) None us None"
      using lseg_set_next [of "elem c" None us' u None eu "eu\<lparr>e_next := None\<rparr>" None] us Nil u dist eu c1(2) by (simp add: el)
    ultimately show thesis using c1 e u Nil by (intro that [of c1]) (auto simp: el)
  next
    case (Cons v vs')
    have ne': "nm (last vs) \<noteq> nm p" using n dist Cons by (auto simp: named_def inj_on_def)
    obtain ev where ev: "elem c v = Some ev" using vs Cons by auto
    from upd_elem_Some [OF ev, of "\<lambda>x. x\<lparr>e_pre := e_pre e\<rparr>"] obtain c1 where
      c1: "upd_elem (Some v) (\<lambda>x. x\<lparr>e_pre := e_pre e\<rparr>) c = Inr c1" "elem c1 = (elem c)(v \<mapsto> ev\<lparr>e_pre := e_pre e\<rparr>)"
        "outside c1 = outside c" "LRU_element c1 = LRU_element c" "LRU_tail c1 = LRU_tail c" by auto
    have "last vs \<in> set (us @ p # vs)" using Cons by simp
    from named_elem [OF n this] obtain tf where tf: "elem_file (Some (last vs)) c = Inr tf" "file_name tf = nm (last vs)" by auto
    have "lru_unlink_next (Some p) c = Inr c1"
      using tl tf pf ne' e Cons c1(1) by (simp add: lru_unlink_next_def)
    moreover have "lseg (elem c1) (e_pre e) vs None"
      using lseg_set_pre [of "elem c" _ v vs' None ev "ev\<lparr>e_pre := e_pre e\<rparr>" "e_pre e", OF vs [unfolded Cons]] dist ev c1(2) Cons by simp
    moreover have "lseg (elem c1) None us (Some v)" "elem c1 p = Some e" using us c1(2) dist Cons e(1) by auto
    ultimately show thesis using c1 e tl Cons by (intro that [of c1]) (auto simp: lseg_append)
  qed
qed

text \<open>A hit makes the element the last of the list.\<close>

lemma upgrade_use:
  assumes l: "lru c xs" and n: "named c xs nm" and p: "p \<in> set xs"
  obtains c' where "upgrade_LRU_2 (Some p) False c = Inr c'" "lru c' (remove1 p xs @ [p])" "outside c' = outside c"
proof -
  from p obtain us vs where xs: "xs = us @ p # vs" by (auto simp: in_set_conv_decomp)
  note d = l [unfolded lru_def xs]
  show thesis
  proof (cases "us @ vs = []")
    case True
    with d xs have "upgrade_LRU_2 (Some p) False c = Inr c" by (auto simp: upgrade_LRU_2_def)
    with True l xs show thesis by (intro that [of c]) simp_all
  next
    case ne: False
    from unlink_pre_spec [OF l [unfolded xs] n [unfolded xs] ne] obtain c1 e where
      c1: "lru_unlink_pre (Some p) c = Inr c1" "outside c1 = outside c" "LRU_tail c1 = Some (last (p # vs))"
        "LRU_element c1 = Some (hd (us @ vs))" "elem c1 p = Some e"
        "e_next e = (if vs = [] then None else Some (hd vs))" "e_pre e = (if us = [] then None else Some (last us))"
        "lseg (elem c1) None us (if vs = [] then None else Some (hd vs))"
        "lseg (elem c1) (if us = [] then None else Some p) vs None" .
    have n1: "named c1 (us @ p # vs) nm" using n named_outside [OF c1(2)] xs by simp
    from unlink_next_spec [OF n1 ne conjunct1 [OF d] c1(3,5-9)] obtain c2 where
      c2: "lru_unlink_next (Some p) c1 = Inr c2" "outside c2 = outside c1" "LRU_element c2 = LRU_element c1"
        "LRU_tail c2 = Some (last (us @ vs))" "lseg (elem c2) None (us @ vs) None" "elem c2 p \<noteq> None" .
    from c2(6) obtain e2 where e2: "elem c2 p = Some e2" by blast
    have dist: "distinct (us @ vs)" "p \<notin> set (us @ vs)" using d by auto
    from lru_append_spec [OF dist(1) c2(5) ne c2(4) dist(2) e2] obtain c3 where
      c3: "lru_append (Some p) c2 = Inr c3" "outside c3 = outside c2" "LRU_element c3 = LRU_element c2" "LRU_tail c3 = Some p"
        "lseg (elem c3) None (us @ vs) (Some p)" "elem c3 p = Some (e2\<lparr>e_pre := Some (last (us @ vs))\<rparr>)" .
    from upd_elem_Some [OF c3(6), of "\<lambda>e. e\<lparr>e_next := None\<rparr>"] obtain c4 where
      c4: "upd_elem (Some p) (\<lambda>e. e\<lparr>e_next := None\<rparr>) c3 = Inr c4"
        "elem c4 = (elem c3)(p \<mapsto> e2\<lparr>e_pre := Some (last (us @ vs)), e_next := None\<rparr>)" "outside c4 = outside c3"
        "LRU_element c4 = LRU_element c3" "LRU_tail c4 = LRU_tail c3" by auto
    obtain z zs where z: "xs = z # zs" "zs \<noteq> []" using ne xs by (cases us) auto
    with l obtain h where h: "LRU_element c = Some z" "elem c z = Some h" "e_next h = Some (hd zs)"
      by (auto simp: lru_def)
    have "lseg (elem c4) None (us @ vs) (Some p)" using c3(5) c4(2) dist(2) by simp
    from lru_snoc [OF this _ ne] c4(2) have "lseg (elem c4) None ((us @ vs) @ [p]) None" by simp
    moreover have "hd (us @ vs @ [p]) = hd (us @ vs)" using hd_append2 [OF ne, of "[p]"] by simp
    ultimately have "lru c4 (remove1 p xs @ [p])"
      using dist d c1(4) c2(3) c3(3,4) c4(4,5) ne by (simp add: lru_def xs remove1_append)
    moreover have "upgrade_LRU_2 (Some p) False c = Inr c4"
      using h c1(1) c2(1) c3(1) c4(1) by (simp add: upgrade_LRU_2_def)
    ultimately show thesis using c1(2) c2(2) c3(2) c4(3) by (intro that [of c4]) simp_all
  qed
qed

text \<open>A new element is put at the end.\<close>

lemma upgrade_new:
  assumes l: "lru c xs" and p: "p \<notin> set xs" "elem c p = Some e" "e_next e = None"
    and f: "\<And>x y. x \<in> set xs \<Longrightarrow> elem c x = Some y \<Longrightarrow> e_file y \<noteq> e_file e"
  obtains c' where "upgrade_LRU_2 (Some p) True c = Inr c'" "lru c' (xs @ [p])" "outside c' = outside c"
proof -
  note d = l [unfolded lru_def]
  show thesis
  proof (cases "xs = []")
    case True
    let ?c = "c\<lparr>LRU_element := Some p\<rparr>"
    have el: "elem ?c = elem c" "outside ?c = outside c" by (simp_all add: elem_def outside_def fun_eq_iff)
    from p(2) have "elem ?c p = Some e" by (simp add: el)
    from upd_elem_Some [OF this, of "\<lambda>e. e\<lparr>e_next := None, e_pre := None\<rparr>"] obtain c1 where
      c1: "upd_elem (Some p) (\<lambda>e. e\<lparr>e_next := None, e_pre := None\<rparr>) ?c = Inr c1"
        "elem c1 = (elem ?c)(p \<mapsto> e\<lparr>e_next := None, e_pre := None\<rparr>)" "outside c1 = outside ?c" "LRU_element c1 = LRU_element ?c" by auto
    let ?c1 = "c1\<lparr>LRU_tail := Some p\<rparr>"
    have el1: "elem ?c1 = elem c1" "outside ?c1 = outside c1" by (simp_all add: elem_def outside_def fun_eq_iff)
    have "upgrade_LRU_2 (Some p) True c = Inr ?c1" using d True c1 by (simp add: upgrade_LRU_2_def)
    moreover have "lru ?c1 (xs @ [p])" using True c1(2,4) by (simp add: lru_def el1 el)
    ultimately show thesis using c1(3) by (intro that [of ?c1]) (simp_all add: el el1)
  next
    case ne: False
    then have tl: "LRU_tail c = Some (last xs)" using d by simp
    from lru_append_spec [OF conjunct1 [OF d] _ ne tl p(1,2)] d obtain c1 where
      c1: "lru_append (Some p) c = Inr c1" "outside c1 = outside c" "LRU_element c1 = LRU_element c" "LRU_tail c1 = Some p"
        "lseg (elem c1) None xs (Some p)" "elem c1 p = Some (e\<lparr>e_pre := Some (last xs)\<rparr>)" by blast
    obtain h where h: "LRU_element c = Some (hd xs)" "elem c (hd xs) = Some h" using d ne by (cases xs) auto
    have "upgrade_LRU_2 (Some p) True c = Inr c1"
      using h c1(1) p(2) f [of "hd xs" h] ne by (simp add: upgrade_LRU_2_def)
    moreover have "lru c1 (xs @ [p])"
      using lru_snoc [OF c1(5,6) ne] p d c1(3,4) ne by (simp add: lru_def)
    ultimately show thesis using c1(2) by (intro that)
  qed
qed

end
