(* ===== verification/Probing.thy ===== *)
theory Probing
  imports Main
begin

text \<open>
  The probe sequences of the two hash tables of the repository, the cache of the web server and the word
  counter: the next key is the square of the key modulo the size of the table.
\<close>

definition walk :: "int \<Rightarrow> int \<Rightarrow> nat \<Rightarrow> int" where
  "walk T k i = ((\<lambda>k. k * k mod T) ^^ i) k"

lemma walk_0 [simp]: "walk T k 0 = k"
  by (simp add: walk_def)

lemma walk_Suc: "walk T k (Suc i) = walk T (k * k mod T) i"
  unfolding walk_def funpow_Suc_right by simp

lemma walk_Suc_end: "walk T k (Suc i) = walk T k i * walk T k i mod T"
  by (simp add: walk_def)

lemma walk_add: "walk T k (i + j) = walk T (walk T k i) j"
  by (simp add: walk_def funpow_add add.commute [of i j])

lemma walk_range: "0 \<le> k \<Longrightarrow> k < T \<Longrightarrow> 0 \<le> walk T k i \<and> walk T k i < T"
  by (cases i) (auto simp: walk_Suc_end)

text \<open>A walk meets what it ever meets within as many steps as there are places.\<close>

lemma walk_least:
  assumes k: "0 \<le> k" "k < T" and P: "P (walk T k i)"
  shows "\<exists>j < nat T. P (walk T k j) \<and> (\<forall>l < j. \<not> P (walk T k l))"
proof -
  define j where "j = (LEAST i. P (walk T k i))"
  have j: "P (walk T k j)" "\<And>l. l < j \<Longrightarrow> \<not> P (walk T k l)"
    using LeastI [of "\<lambda>i. P (walk T k i)", OF P] not_less_Least [of _ "\<lambda>i. P (walk T k i)"] by (auto simp: j_def)
  have inj: "inj_on (walk T k) {..j}"
  proof (rule linorder_inj_onI')
    fix x y assume xy: "x \<in> {..j}" "y \<in> {..j}" "x < y"
    show "walk T k x \<noteq> walk T k y"
    proof
      assume eq: "walk T k x = walk T k y"
      have "walk T k (x + (j - y)) = walk T k (y + (j - y))" by (simp add: walk_add eq)
      with xy j(1) have "P (walk T k (x + (j - y)))" by simp
      with xy j(2) [of "x + (j - y)"] show False by auto
    qed
  qed
  have "walk T k ` {..j} \<subseteq> {0..<T}" using walk_range [OF k] by auto
  from card_mono [OF _ this] card_image [OF inj] have "j < nat T" by simp
  with j show ?thesis by blast
qed

end
