(* ===== verification/CacheProps.thy ===== *)
theory CacheProps
  imports CacheSpec Probing "HOL-Library.Multiset"
begin

text \<open>
  What the cache promises: it is a list of files in the order of use, and \<open>cache_lookup\<close> and
  \<open>cache_insert\<close> find, move and append files of that list.  The table has any size that is an \<open>int\<close>.
  The \<open>unsigned long\<close> keys of \<open>cache_insert\<close> are then exact; the \<open>int\<close> keys of \<open>cache_lookup\<close> are for
  a name whose search passes over no place above 46340 (\<open>narrow\<close>): for every name in a table of at most
  46341 places, and in a larger one for a name that is at, or finds free, the first place of its probe
  sequence.  The last section shows what happens beyond.
\<close>

section \<open>Probing the table\<close>

definition table_fits :: "wc \<Rightarrow> bool" where
  "table_fits c \<longleftrightarrow> 0 < table_size c \<and> table_size c < 2 ^ 31 \<and> length (hashtable c) = nat (table_size c)"

lemma key_square: "0 \<le> k \<Longrightarrow> k < 2 ^ n \<Longrightarrow> k * k < 2 ^ (2 * n)" for k :: int
  using mult_strict_mono [of k "2 ^ n" k "2 ^ n"] by (simp add: power_add mult_2)

lemma next_key_eq:
  assumes "table_fits c" "0 \<le> k" "k < table_size c"
  shows "next_key k c = k * k mod table_size c"
proof -
  have "k < 2 ^ 31" using assms by (simp add: table_fits_def)
  from key_square [OF assms(2) this] have sq: "k * k < 2 ^ 64" by simp
  have "u64 (k * k) = k * k" using assms(2) sq by (intro u64_id) auto
  moreover have "u64 (table_size c) = table_size c" using assms by (intro u64_id) (auto simp: table_fits_def)
  ultimately show ?thesis by (simp add: next_key_def)
qed

text \<open>The square of a key up to 46340 is an \<open>int\<close>.\<close>

lemma next_key_int_eq:
  assumes "table_fits c" "0 \<le> k" "k < table_size c" "k \<le> 46340"
  shows "next_key_int k c = k * k mod table_size c"
proof -
  have sq: "k * k \<le> 46340 * 46340" using assms(2,4) by (intro mult_mono) simp_all
  have "s32 (k * k) = k * k" using assms(2) sq by (intro s32_id) (auto intro: order_trans [of _ 0])
  moreover have "0 \<le> k * k" by simp
  ultimately show ?thesis using assms by (cases "k = 0"; simp add: next_key_int_def table_fits_def signed_modulo_int_def)
qed

lemma first_key_range:
  assumes "table_fits c" shows "0 \<le> first_key name c" "first_key name c < table_size c" "s32 (first_key name c) = first_key name c"
proof -
  have "u64 (table_size c) = table_size c" using assms by (intro u64_id) (auto simp: table_fits_def)
  then show 1: "0 \<le> first_key name c" "first_key name c < table_size c" using assms by (auto simp: first_key_def table_fits_def)
  then show "s32 (first_key name c) = first_key name c" using assms by (intro s32_id) (auto simp: table_fits_def)
qed

lemma table_at_in: "table_fits c \<Longrightarrow> 0 \<le> k \<Longrightarrow> k < table_size c \<Longrightarrow> table_at k c = Inr (hashtable c ! nat k)"
  by (simp add: table_at_def table_fits_def)

lemma probe_found:
  assumes "table_fits c" "0 \<le> k" "k < table_size c" "i \<le> n" "stop (hashtable c ! nat (walk (table_size c) k i))"
    "\<And>j. j < i \<Longrightarrow> \<not> stop (hashtable c ! nat (walk (table_size c) k j))"
  shows "probe n stop k c = Inr (walk (table_size c) k i)"
  using assms
proof (induction n arbitrary: k i)
  case 0
  then show ?case by (simp add: probe.simps table_at_in)
next
  case (Suc n)
  show ?case
  proof (cases i)
    case 0
    with Suc.prems show ?thesis by (simp add: probe.simps table_at_in)
  next
    case (Suc i')
    let ?k = "k * k mod table_size c"
    have r: "0 \<le> ?k" "?k < table_size c" using Suc.prems by (auto simp: table_fits_def)
    have "probe n stop ?k c = Inr (walk (table_size c) ?k i')"
      using Suc.prems Suc.prems(6) [of "Suc _"] r Suc by (intro Suc.IH) (auto simp: walk_Suc)
    moreover have "\<not> stop (hashtable c ! nat k)" using Suc.prems(6) [of 0] Suc by simp
    ultimately show ?thesis
      using Suc.prems(1-3) next_key_eq [OF Suc.prems(1-3)] Suc by (simp add: probe.simps [of "Suc n"] table_at_in walk_Suc)
  qed
qed

lemma probe_diverges:
  assumes "table_fits c" "0 \<le> k" "k < table_size c" "\<And>i. \<not> stop (hashtable c ! nat (walk (table_size c) k i))"
  shows "probe n stop k c = Inl Diverges"
  using assms
proof (induction n arbitrary: k)
  case 0
  then show ?case using 0(4) [of 0] by (simp add: probe.simps table_at_in)
next
  case (Suc n)
  let ?k = "k * k mod table_size c"
  have r: "0 \<le> ?k" "?k < table_size c" using Suc.prems by (auto simp: table_fits_def)
  have "probe n stop ?k c = Inl Diverges"
    using Suc.prems(1) r Suc.prems(4) [of "Suc _"] by (intro Suc.IH) (simp_all add: walk_Suc)
  then show ?case
    using Suc.prems(4) [of 0] Suc.prems(1-3) next_key_eq [OF Suc.prems(1-3)] by (simp add: probe.simps [of "Suc n"] table_at_in)
qed

text \<open>The lookup is a probe for the name or a free place, while no key is passed over that is too large to be squared.\<close>

definition hits :: "wc \<Rightarrow> cstr \<Rightarrow> ptr \<Rightarrow> bool" where
  "hits c name p \<longleftrightarrow> (p = None \<or> (case elem_file p c of Inl _ \<Rightarrow> False | Inr f \<Rightarrow> name = file_name f))"

lemma hits_None [simp]: "hits c name None"
  by (simp add: hits_def)

lemma lookup_probe:
  assumes "table_fits c" "\<And>a. Some a \<in> set (hashtable c) \<Longrightarrow> \<exists>f. elem_file (Some a) c = Inr f" "0 \<le> k" "k < table_size c"
    and "\<forall>j. (\<forall>l \<le> j. \<not> hits c name (hashtable c ! nat (walk (table_size c) k l))) \<longrightarrow> walk (table_size c) k j \<le> 46340"
  shows "lookup_loop n name k c = bindr (probe n (hits c name) k c) (\<lambda>k. table_at k c)"
  using assms(3-5)
proof (induction n arbitrary: k)
  case (0 k)
  have mem: "hashtable c ! nat k \<in> set (hashtable c)" using assms(1) 0 by (intro nth_mem) (auto simp: table_fits_def)
  show ?case
  proof (cases "hashtable c ! nat k")
    case (Some a)
    with mem assms(2) obtain f where "elem_file (Some a) c = Inr f" by metis
    with Some show ?thesis using assms(1) 0 by (simp add: lookup_loop.simps probe.simps table_at_in hits_def)
  qed (use assms(1) 0 in \<open>simp add: lookup_loop.simps probe.simps table_at_in hits_def\<close>)
next
  case (Suc n k)
  have mem: "hashtable c ! nat k \<in> set (hashtable c)" using assms(1) Suc.prems by (intro nth_mem) (auto simp: table_fits_def)
  let ?k = "k * k mod table_size c"
  have r: "0 \<le> ?k" "?k < table_size c" using Suc.prems assms(1) by (auto simp: table_fits_def)
  have later: "\<forall>j. (\<forall>l \<le> j. \<not> hits c name (hashtable c ! nat (walk (table_size c) ?k l))) \<longrightarrow> walk (table_size c) ?k j \<le> 46340"
    if h: "\<not> hits c name (hashtable c ! nat k)"
  proof (intro allI impI)
    fix j assume n: "\<forall>l \<le> j. \<not> hits c name (hashtable c ! nat (walk (table_size c) ?k l))"
    have "\<forall>l \<le> Suc j. \<not> hits c name (hashtable c ! nat (walk (table_size c) k l))"
    proof (intro allI impI)
      fix l assume "l \<le> Suc j"
      with n h show "\<not> hits c name (hashtable c ! nat (walk (table_size c) k l))" by (cases l) (simp_all add: walk_Suc)
    qed
    with Suc.prems(3) have "walk (table_size c) k (Suc j) \<le> 46340" by blast
    then show "walk (table_size c) ?k j \<le> 46340" by (simp add: walk_Suc)
  qed
  show ?case
  proof (cases "hashtable c ! nat k")
    case (Some a)
    with mem assms(2) obtain f where "elem_file (Some a) c = Inr f" by metis
    note a = Some this
    show ?thesis
    proof (cases "name = file_name f")
      case True
      with a show ?thesis using assms(1) Suc.prems(1,2)
        by (simp add: lookup_loop.simps [of "Suc n"] probe.simps [of "Suc n"] table_at_in hits_def)
    next
      case False
      with a have h: "\<not> hits c name (hashtable c ! nat k)" by (simp add: hits_def)
      with Suc.prems(3) have "k \<le> 46340" by (metis le_zero_eq walk_0)
      from next_key_eq [OF assms(1) Suc.prems(1,2)] next_key_int_eq [OF assms(1) Suc.prems(1,2) this] a False h Suc.IH [OF r later [OF h]]
      show ?thesis using assms(1) Suc.prems(1,2)
        by (simp add: lookup_loop.simps [of "Suc n"] probe.simps [of "Suc n"] table_at_in)
    qed
  qed (use assms(1) Suc.prems in \<open>simp add: lookup_loop.simps [of "Suc n"] probe.simps [of "Suc n"] table_at_in hits_def\<close>)
qed

section \<open>The cache as a list of files\<close>

definition place :: "wc \<Rightarrow> cstr \<Rightarrow> nat \<Rightarrow> nat" where
  "place c name i = nat (walk (table_size c) (first_key name c) i)"

definition free_place :: "wc \<Rightarrow> cstr \<Rightarrow> bool" where
  "free_place c name \<longleftrightarrow> list_ex (\<lambda>i. hashtable c ! place c name i = None) [0..<nat (table_size c)]"

text \<open>
  Every place that the search for \<open>name\<close> passes over, which is taken by another file, has a key whose
  square is an \<open>int\<close>.
\<close>

definition narrow :: "wc \<Rightarrow> cstr \<Rightarrow> bool" where
  "narrow c name \<longleftrightarrow>
     (\<forall>j. (\<forall>l \<le> j. \<not> hits c name (hashtable c ! place c name l)) \<longrightarrow> place c name j \<le> 46340)"

text \<open>The probe sequence of the name \<open>name\<close> leads to \<open>a\<close>.\<close>

definition leads_to :: "wc \<Rightarrow> cstr \<Rightarrow> nat \<Rightarrow> bool" where
  "leads_to c name a \<longleftrightarrow> (\<exists>i. hashtable c ! place c name i = Some a \<and> (\<forall>j < i. hashtable c ! place c name j \<noteq> None))"

text \<open>The cache holds the files \<open>fs\<close> at the addresses \<open>xs\<close>, in the order of use.\<close>

definition cache_ok :: "wc \<Rightarrow> nat list \<Rightarrow> file_data list \<Rightarrow> bool" where
  "cache_ok c xs fs \<longleftrightarrow> table_fits c \<and> lru c xs \<and> distinct (map file_name fs)
     \<and> list_all2 (\<lambda>a f. elem_file (Some a) c = Inr f \<and> leads_to c (file_name f) a) xs fs
     \<and> (\<forall>a. Some a \<in> set (hashtable c) \<longrightarrow> a \<in> set xs)
     \<and> remaining_cache_size c = cache_size c - sum_list (map file_size fs)"

lemma place_in: "table_fits c \<Longrightarrow> place c name i < length (hashtable c)"
  using walk_range [of "first_key name c" "table_size c" i] first_key_range [of c name] by (auto simp: place_def table_fits_def)

text \<open>That holds for every name in a cache of at most 4212 bytes, and where the first place is free or the file's own.\<close>

lemma narrow_table:
  assumes "table_fits c" "table_size c \<le> 46341"
  shows "narrow c name"
proof -
  have "place c name j \<le> 46340" for j using place_in [OF assms(1), of name j] assms by (simp add: table_fits_def)
  then show ?thesis by (simp add: narrow_def)
qed

lemma narrow_first: "hits c name (hashtable c ! place c name 0) \<Longrightarrow> narrow c name"
  by (auto simp: narrow_def)

lemma narrow_walk:
  assumes t: "table_fits c" and n: "narrow c name"
  shows "\<forall>j. (\<forall>l \<le> j. \<not> hits c name (hashtable c ! nat (walk (table_size c) (first_key name c) l)))
    \<longrightarrow> walk (table_size c) (first_key name c) j \<le> 46340"
proof (intro allI impI)
  fix j assume "\<forall>l \<le> j. \<not> hits c name (hashtable c ! nat (walk (table_size c) (first_key name c) l))"
  with n have "nat (walk (table_size c) (first_key name c) j) \<le> 46340" by (simp add: narrow_def place_def)
  then show "walk (table_size c) (first_key name c) j \<le> 46340" by simp
qed

lemma free_place_iff: "table_fits c \<Longrightarrow> free_place c name \<longleftrightarrow> (\<exists>i. hashtable c ! place c name i = None)"
proof
  assume c: "table_fits c" and "\<exists>i. hashtable c ! place c name i = None"
  then obtain i where "hashtable c ! nat (walk (table_size c) (first_key name c) i) = None" by (auto simp: place_def)
  from walk_least [OF first_key_range(1,2) [OF c], of "\<lambda>k. hashtable c ! nat k = None", OF this]
  obtain j where "j < nat (table_size c)" "hashtable c ! place c name j = None" unfolding place_def by blast
  then show "free_place c name" by (auto simp: free_place_def list_ex_iff)
qed (auto simp: free_place_def list_ex_iff)

text \<open>The names of the elements, as the lemmas on the list want them.\<close>

lemma cache_ok_named:
  assumes "cache_ok c xs fs"
  obtains nm where "named c xs nm" "map nm xs = map file_name fs"
proof -
  define nm where "nm = (\<lambda>a. case elem_file (Some a) c of Inl _ \<Rightarrow> [] | Inr f \<Rightarrow> file_name f)"
  have l: "list_all2 (\<lambda>a f. elem_file (Some a) c = Inr f) xs fs"
    using assms by (auto simp: cache_ok_def elim: list_all2_mono)
  then have m: "map nm xs = map file_name fs" by (induction rule: list_all2_induct) (simp_all add: nm_def)
  moreover have "inj_on nm (set xs)"
    using assms m unfolding cache_ok_def by (metis distinct_map)
  moreover have "\<exists>f. elem_file (Some x) c = Inr f" if "x \<in> set xs" for x
    using l that by (auto simp: list_all2_conv_all_nth in_set_conv_nth)
  then have "\<exists>f. elem_file (Some x) c = Inr f \<and> file_name f = nm x" if "x \<in> set xs" for x
    using that by (fastforce simp: nm_def)
  ultimately show thesis using that by (auto simp: named_def)
qed

lemma cache_ok_entry:
  assumes "cache_ok c xs fs" "Some a \<in> set (hashtable c)"
  obtains f where "elem_file (Some a) c = Inr f" "f \<in> set fs" "a \<in> set xs"
  using assms by (auto simp: cache_ok_def list_all2_conv_all_nth in_set_conv_nth) (metis in_set_conv_nth)

text \<open>A name has one element.\<close>

lemma cache_ok_unique:
  assumes c: "cache_ok c xs fs" and a: "i < length xs" "j < length xs" "file_name (fs ! i) = file_name (fs ! j)"
  shows "i = j"
  using c a nth_eq_iff_index_eq [of "map file_name fs" i j] by (auto simp: cache_ok_def dest: list_all2_lengthD)

lemma lookup_present:
  assumes c: "cache_ok c xs fs" and i: "i < length xs" "file_name (fs ! i) = name" and nw: "narrow c name"
  shows "lookup_loop (nat (table_size c)) name (s32 (first_key name c)) c = Inr (Some (xs ! i))"
proof -
  have t: "table_fits c" and e: "elem_file (Some (xs ! i)) c = Inr (fs ! i)" and l: "leads_to c name (xs ! i)"
    using c i by (auto simp: cache_ok_def list_all2_conv_all_nth)
  note k = first_key_range [OF t, of name]
  have el: "\<exists>f. elem_file (Some a) c = Inr f" if "Some a \<in> set (hashtable c)" for a
    using cache_ok_entry [OF c that] by blast
  let ?P = "\<lambda>k. hits c name (hashtable c ! nat k)"
  from l obtain m where m: "hashtable c ! place c name m = Some (xs ! i)" "\<forall>j < m. hashtable c ! place c name j \<noteq> None"
    by (auto simp: leads_to_def)
  then have "?P (walk (table_size c) (first_key name c) m)" using e i by (simp add: place_def hits_def)
  from walk_least [OF k(1,2), of ?P, OF this] obtain j where
    j: "j < nat (table_size c)" "?P (walk (table_size c) (first_key name c) j)"
       "\<And>l. l < j \<Longrightarrow> \<not> ?P (walk (table_size c) (first_key name c) l)" by blast
  have "j \<le> m" using j(3) [of m] m(1) e i by (auto simp: place_def hits_def not_le [symmetric])
  with m have "hashtable c ! place c name j \<noteq> None" by (cases "j = m") auto
  then obtain b where b: "hashtable c ! place c name j = Some b" by auto
  then have "Some b \<in> set (hashtable c)" using place_in [OF t, of name j] nth_mem by metis
  with cache_ok_entry [OF c this] obtain i' where i': "i' < length xs" "xs ! i' = b" by (metis in_set_conv_nth)
  with c have "elem_file (Some b) c = Inr (fs ! i')" by (auto simp: cache_ok_def list_all2_conv_all_nth)
  with j(2) b i(2) have "file_name (fs ! i') = file_name (fs ! i)" by (auto simp: place_def hits_def)
  with cache_ok_unique [OF c] i i' have "b = xs ! i" by blast
  moreover from j(1) have "probe (nat (table_size c)) (hits c name) (first_key name c) c = Inr (walk (table_size c) (first_key name c) j)"
    by (intro probe_found [OF t k(1,2)] j(2,3)) simp_all
  moreover have "table_at (walk (table_size c) (first_key name c) j) c = Inr (hashtable c ! place c name j)"
    using walk_range [OF k(1,2), of j] by (simp add: table_at_in [OF t] place_def)
  ultimately show ?thesis using b by (simp add: k(3) lookup_probe [OF t el k(1,2) narrow_walk [OF t nw]])
qed

lemma cache_ok_no_name:
  assumes c: "cache_ok c xs fs" and n: "name \<notin> file_name ` set fs" and p: "k < length (hashtable c)" "hashtable c ! k \<noteq> None"
  shows "\<not> hits c name (hashtable c ! k)"
proof -
  from p obtain a where a: "hashtable c ! k = Some a" "Some a \<in> set (hashtable c)" by (metis nth_mem option.exhaust)
  from cache_ok_entry [OF c a(2)] obtain f where "elem_file (Some a) c = Inr f" "f \<in> set fs" by blast
  with a(1) n show ?thesis by (auto simp: hits_def)
qed

lemma lookup_absent:
  assumes c: "cache_ok c xs fs" and n: "name \<notin> file_name ` set fs" and nw: "narrow c name"
  shows "lookup_loop (nat (table_size c)) name (s32 (first_key name c)) c
    = (if free_place c name then Inr None else Inl Diverges)"
proof -
  have t: "table_fits c" using c by (simp add: cache_ok_def)
  note k = first_key_range [OF t, of name]
  have el: "\<exists>f. elem_file (Some a) c = Inr f" if "Some a \<in> set (hashtable c)" for a
    using cache_ok_entry [OF c that] by blast
  have h: "hits c name p \<longleftrightarrow> p = None" if "p \<in> set (hashtable c)" for p
  proof (cases p)
    case (Some a)
    with that cache_ok_entry [OF c] obtain f where "elem_file (Some a) c = Inr f" "f \<in> set fs" by metis
    with Some n show ?thesis by (auto simp: hits_def)
  qed (simp add: hits_def)
  have hp: "hits c name (hashtable c ! place c name i) \<longleftrightarrow> hashtable c ! place c name i = None" for i
    using place_in [OF t] by (intro h nth_mem)
  show ?thesis
  proof (cases "free_place c name")
    case True
    with free_place_iff [OF t] obtain i where "hashtable c ! nat (walk (table_size c) (first_key name c) i) = None" by (auto simp: place_def)
    from walk_least [OF k(1,2), of "\<lambda>k. hashtable c ! nat k = None", OF this] obtain j where
      j: "j < nat (table_size c)" "hashtable c ! place c name j = None" "\<And>l. l < j \<Longrightarrow> hashtable c ! place c name l \<noteq> None"
      unfolding place_def by blast
    then have "probe (nat (table_size c)) (hits c name) (first_key name c) c = Inr (walk (table_size c) (first_key name c) j)"
      using hp [unfolded place_def] by (intro probe_found [OF t k(1,2)]) (simp_all add: place_def del: not_None_eq)
    moreover have "table_at (walk (table_size c) (first_key name c) j) c = Inr (hashtable c ! place c name j)"
      using walk_range [OF k(1,2), of j] by (simp add: table_at_in [OF t] place_def)
    ultimately show ?thesis using True j(2) by (simp add: k(3) lookup_probe [OF t el k(1,2) narrow_walk [OF t nw]])
  next
    case False
    with free_place_iff [OF t] hp have "probe (nat (table_size c)) (hits c name) (first_key name c) c = Inl Diverges"
      by (intro probe_diverges [OF t k(1,2)]) (auto simp: place_def)
    with False show ?thesis by (simp add: k(3) lookup_probe [OF t el k(1,2) narrow_walk [OF t nw]])
  qed
qed

section \<open>Lookup\<close>

definition cache_holds :: "wc \<Rightarrow> file_data list \<Rightarrow> bool" where
  "cache_holds c fs \<longleftrightarrow> (\<exists>xs. cache_ok c xs fs)"

definition to_end :: "nat \<Rightarrow> 'a list \<Rightarrow> 'a list" where
  "to_end i xs = take i xs @ drop (Suc i) xs @ [xs ! i]"

lemma to_end_remove1: "distinct xs \<Longrightarrow> i < length xs \<Longrightarrow> remove1 (xs ! i) xs @ [xs ! i] = to_end i xs"
  by (induction xs arbitrary: i) (auto simp: to_end_def nth_Cons split: nat.splits)

lemma to_end_perm: "i < length xs \<Longrightarrow> mset (to_end i xs) = mset xs"
  using arg_cong [OF id_take_nth_drop [of i xs], of mset] by (simp add: to_end_def)

lemma to_end_map: "i < length xs \<Longrightarrow> to_end i (map f xs) = map f (to_end i xs)"
  by (simp add: to_end_def take_map drop_map)

lemma to_end_all2: "list_all2 P xs ys \<Longrightarrow> i < length xs \<Longrightarrow> list_all2 P (to_end i xs) (to_end i ys)"
  unfolding to_end_def by (intro list_all2_appendI list_all2_takeI list_all2_dropI) (auto simp: list_all2_conv_all_nth)

lemma cache_ok_use:
  assumes c: "cache_ok c xs fs" and i: "i < length xs" and o: "outside c' = outside c" and l: "lru c' (to_end i xs)"
  shows "cache_ok c' (to_end i xs) (to_end i fs)"
proof -
  have len: "length xs = length fs" using c by (auto simp: cache_ok_def dest: list_all2_lengthD)
  have eq: "hashtable c' = hashtable c" "table_size c' = table_size c" "cache_size c' = cache_size c"
    "remaining_cache_size c' = remaining_cache_size c" using o by (simp_all add: outside_def)
  have p: "place c' = place c" by (simp add: place_def first_key_def eq fun_eq_iff)
  have m: "mset (to_end i xs) = mset xs" and mf: "mset (to_end i fs) = mset fs" using i len by (simp_all add: to_end_perm)
  have s: "set (to_end i xs) = set xs" using m by (metis set_mset_mset)
  have "mset (map file_name (to_end i fs)) = mset (map file_name fs)" using mf by simp
  then have d: "distinct (map file_name (to_end i fs)) = distinct (map file_name fs)" by (metis mset_eq_imp_distinct_iff)
  have "sum_list (map file_size (to_end i fs)) = sum_list (map file_size fs)"
    using mf by (metis mset_map sum_mset_sum_list)
  with c to_end_all2 [of _ xs fs i] i l show ?thesis
    by (auto simp: cache_ok_def table_fits_def leads_to_def eq p s d elem_file_outside [OF o])
qed

lemma cache_lookup_hit:
  assumes c: "cache_ok c xs fs" and i: "i < length fs" "file_name (fs ! i) = name" and nw: "narrow c name"
  shows "\<exists>p c'. cache_lookup name LRU_flag c = Inr (Some p, c') \<and> elem_file (Some p) c' = Inr (fs ! i)
    \<and> cache_holds c' (if LRU_flag then to_end i fs else fs)"
proof -
  from c have "length xs = length fs" by (auto simp: cache_ok_def dest: list_all2_lengthD)
  with i have ix: "i < length xs" by simp
  note f = lookup_present [OF c ix i(2) nw]
  have e: "elem_file (Some (xs ! i)) c = Inr (fs ! i)" using c ix by (auto simp: cache_ok_def list_all2_conv_all_nth)
  show ?thesis
  proof (cases LRU_flag)
    case True
    obtain nm where nm: "named c xs nm" using cache_ok_named [OF c] by blast
    have l: "lru c xs" using c by (simp add: cache_ok_def)
    from upgrade_use [OF l nm nth_mem [OF ix]] obtain c' where
      c': "upgrade_LRU_2 (Some (xs ! i)) False c = Inr c'" "lru c' (remove1 (xs ! i) xs @ [xs ! i])" "outside c' = outside c" .
    with l ix have "lru c' (to_end i xs)" by (simp add: to_end_remove1 lru_def)
    from cache_ok_use [OF c ix c'(3) this] True f c'(1) e elem_file_outside [OF c'(3)] show ?thesis
      by (auto simp: cache_lookup_def cache_holds_def)
  qed (use f e c in \<open>auto simp: cache_lookup_def cache_holds_def\<close>)
qed

text \<open>
  C11: \<open>cache_lookup\<close> implements the search in the list of files, for a name whose search passes over no
  place above 46340 (\<open>narrow\<close>; every name in a cache of at most 4212 bytes, and in a cache of any size a name
  whose first place is free or its own): it finds the file with the name and, for a
  use, makes it the last; for a name that is not there it returns \<open>NULL\<close> and changes nothing, or never
  returns if the probe sequence of the name has no free place.
\<close>

theorem cache_lookup_refines:
  assumes "cache_holds c fs" "narrow c name"
  shows "(\<forall>i < length fs. file_name (fs ! i) = name \<longrightarrow>
      (\<exists>p c'. cache_lookup name LRU_flag c = Inr (p, c') \<and> elem_file p c' = Inr (fs ! i)
        \<and> cache_holds c' (if LRU_flag then to_end i fs else fs)))
    \<and> (name \<notin> file_name ` set fs \<longrightarrow>
      cache_lookup name LRU_flag c = (if free_place c name then Inr (None, c) else Inl Diverges))"
proof (intro conjI allI impI)
  from assms(1) obtain xs where c: "cache_ok c xs fs" by (auto simp: cache_holds_def)
  show "\<exists>p c'. cache_lookup name LRU_flag c = Inr (p, c') \<and> elem_file p c' = Inr (fs ! i)
      \<and> cache_holds c' (if LRU_flag then to_end i fs else fs)" if "i < length fs" "file_name (fs ! i) = name" for i
    using cache_lookup_hit [OF c that assms(2)] by blast
  show "cache_lookup name LRU_flag c = (if free_place c name then Inr (None, c) else Inl Diverges)"
    if "name \<notin> file_name ` set fs"
    using lookup_absent [OF c that assms(2)] by (simp add: cache_lookup_def)
qed

section \<open>Insertion\<close>

lemma cache_evict_idle: "\<not> remaining_cache_size c > n \<Longrightarrow> cache_evict n c = Inr c"
  by (simp add: cache_evict.simps)

lemma insert_probe:
  "table_fits c \<Longrightarrow> 0 \<le> k \<Longrightarrow> k < table_size c \<Longrightarrow>
   bindr (table_at k c) (\<lambda>p. bindr (if p = None then Inr k else probe n (\<lambda>p. p = None) (next_key k c) c) g)
     = bindr (probe (Suc n) (\<lambda>p. p = None) k c) g"
  by (simp add: probe.simps [of "Suc n"] table_at_in)

text \<open>The new element, before it joins the list.\<close>

lemma cache_insert_eq:
  assumes t: "table_fits c" and f: "file_at a c = Inr f" "2 * file_size f \<le> cache_size c"
  defines "c1 \<equiv> c\<lparr>elements := elements c @ [Some \<lparr>e_file = a, e_next = None, e_pre = None\<rparr>]\<rparr>"
  shows "cache_insert a c = bindr (probe (Suc (nat (table_size c))) (\<lambda>p. p = None) (first_key (file_name f) c) c1)
    (\<lambda>key. bindr (upgrade_LRU_2 (Some (length (elements c))) True
        (c1\<lparr>hashtable := (hashtable c)[nat key := Some (length (elements c))],
            remaining_cache_size := remaining_cache_size c - file_size f\<rparr>))
      (\<lambda>c'. Inr (Some (length (elements c)), c')))"
proof -
  have e: "(if file_size f \<ge> remaining_cache_size c then cache_evict (file_size f) c else Inr c) = Inr c"
    by (simp add: cache_evict_idle)
  have t1: "table_fits c1" and same: "table_size c1 = table_size c" "hashtable c1 = hashtable c"
    "remaining_cache_size c1 = remaining_cache_size c" using t by (simp_all add: c1_def table_fits_def)
  have fk: "first_key n c1 = first_key n c" for n by (simp add: first_key_def same)
  note k = first_key_range(1,2) [OF t1, of "file_name f", unfolded fk]
  show ?thesis using f
    unfolding cache_insert_def f(1) bindr_Inr if_not_P [OF f(2) [folded not_less]] e Let_def c1_def [symmetric]
    by (simp only: fk same insert_probe [OF t1 k, unfolded same] Let_def)
qed

lemma leads_to_update:
  assumes t: "table_fits c" and k: "hashtable c ! place c nm i = None"
    and c': "hashtable c' = (hashtable c)[place c nm i := Some p]" "table_size c' = table_size c"
  shows "leads_to c n a \<Longrightarrow> leads_to c' n a"
    "(\<And>j. j < i \<Longrightarrow> hashtable c ! place c nm j \<noteq> None) \<Longrightarrow> leads_to c' nm p"
proof -
  have pl: "place c' = place c" by (simp add: place_def first_key_def c'(2) fun_eq_iff)
  have h: "hashtable c' ! place c m j = (if place c m j = place c nm i then Some p else hashtable c ! place c m j)" for m j
    using place_in [OF t] by (simp add: c'(1))
  show "leads_to c' n a" if "leads_to c n a"
    using that k unfolding leads_to_def pl h by (metis option.distinct(1))
  show "leads_to c' nm p" if "\<And>j. j < i \<Longrightarrow> hashtable c ! place c nm j \<noteq> None"
    using that unfolding leads_to_def pl h by (intro exI [of _ i]) auto
qed

lemma cache_insert_spec:
  assumes c: "cache_ok c xs fs" and f: "file_at a c = Inr f" "2 * file_size f \<le> cache_size c"
    and new: "file_name f \<notin> file_name ` set fs" and free: "free_place c (file_name f)"
  obtains c' where "cache_insert a c = Inr (Some (length (elements c)), c')"
    "cache_ok c' (xs @ [length (elements c)]) (fs @ [f])" "elem_file (Some (length (elements c))) c' = Inr f"
    "cache_size c' = cache_size c" "narrow c (file_name f) \<Longrightarrow> narrow c' (file_name f)"
proof -
  let ?p = "length (elements c)" and ?n = "file_name f"
  have t: "table_fits c" and l: "lru c xs" using c by (simp_all add: cache_ok_def)
  define c1 where "c1 = c\<lparr>elements := elements c @ [Some \<lparr>e_file = a, e_next = None, e_pre = None\<rparr>]\<rparr>"
  have t1: "table_fits c1" using t by (simp add: c1_def table_fits_def)
  have same: "table_size c1 = table_size c" "hashtable c1 = hashtable c" by (simp_all add: c1_def)
  have e1: "elem c1 = (elem c)(?p \<mapsto> \<lparr>e_file = a, e_next = None, e_pre = None\<rparr>)"
    by (auto simp: elem_def c1_def fun_eq_iff nth_append)
  note k = first_key_range(1,2) [OF t, of ?n]
  from free free_place_iff [OF t] obtain i where "hashtable c ! nat (walk (table_size c) (first_key ?n c) i) = None" by (auto simp: place_def)
  from walk_least [OF k, of "\<lambda>k. hashtable c ! nat k = None", OF this] obtain j where
    j: "j < nat (table_size c)" "hashtable c ! place c ?n j = None" "\<And>l. l < j \<Longrightarrow> hashtable c ! place c ?n l \<noteq> None"
    unfolding place_def by blast
  have pr: "probe (Suc (nat (table_size c))) (\<lambda>p. p = None) (first_key ?n c) c1 = Inr (walk (table_size c) (first_key ?n c) j)"
    unfolding same(1) [symmetric]
    by (rule probe_found [OF t1]) (use k j in \<open>simp_all add: same place_def del: not_None_eq\<close>)
  define c2 where "c2 = c1\<lparr>hashtable := (hashtable c)[place c ?n j := Some ?p],
    remaining_cache_size := remaining_cache_size c - file_size f\<rparr>"
  have e2: "elem c2 = elem c1" by (simp add: c2_def elem_def fun_eq_iff)
  have out: "elem c ?p = None" by (simp add: elem_def)
  then have pn: "?p \<notin> set xs" using l lseg_elem [of "elem c" None xs None ?p] by (auto simp: lru_def)
  have l2: "lru c2 xs"
    using l pn by (simp add: lru_def e2 e1) (simp add: c2_def c1_def)
  have fa: "file_at b c2 = file_at b c" for b by (simp add: file_at_def c2_def c1_def)
  have files: "elem_file (Some x) c2 = elem_file (Some x) c" if "x \<noteq> ?p" for x
    using that by (simp add: elem_file_eq e2 e1 fa option.case_eq_if)
  have fp: "elem_file (Some ?p) c2 = Inr f"
    using f(1) by (simp add: elem_file_eq e2 e1 fa)
  have old: "e_file y \<noteq> a" if "x \<in> set xs" "elem c2 x = Some y" for x y
  proof
    assume y: "e_file y = a"
    from that(1) obtain m where m: "m < length xs" "xs ! m = x" by (auto simp: in_set_conv_nth)
    with c have "elem_file (Some x) c = Inr (fs ! m)" "fs ! m \<in> set fs" by (auto simp: cache_ok_def list_all2_conv_all_nth)
    moreover have "elem c x = Some y" using that pn by (auto simp: e2 e1 split: if_splits)
    ultimately show False using y f(1) new by (auto simp: elem_file_eq)
  qed
  have ep: "elem c2 ?p = Some \<lparr>e_file = a, e_next = None, e_pre = None\<rparr>" by (simp add: e2 e1)
  from upgrade_new [OF l2 pn ep] old obtain c3 where
    c3: "upgrade_LRU_2 (Some ?p) True c2 = Inr c3" "lru c3 (xs @ [?p])" "outside c3 = outside c2" by auto
  have s3: "hashtable c3 = (hashtable c)[place c ?n j := Some ?p]" "table_size c3 = table_size c" "cache_size c3 = cache_size c"
    "remaining_cache_size c3 = remaining_cache_size c - file_size f"
    using c3(3) by (simp_all add: outside_def c2_def c1_def)
  have f3: "elem_file (Some x) c3 = elem_file (Some x) c2" for x by (rule elem_file_outside [OF c3(3)])
  have tot: "remaining_cache_size c = cache_size c - sum_list (map file_size fs)" using c by (simp add: cache_ok_def)
  have all: "list_all2 (\<lambda>a f. elem_file (Some a) c = Inr f \<and> leads_to c (file_name f) a) xs fs" using c by (simp add: cache_ok_def)
  have "list_all2 (\<lambda>a f. elem_file (Some a) c3 = Inr f \<and> leads_to c3 (file_name f) a) xs fs"
    by (rule list.rel_mono_strong [OF all]) (use pn files f3 leads_to_update(1) [OF t j(2) s3(1,2)] in metis)
  moreover have "leads_to c3 ?n ?p" by (rule leads_to_update(2) [OF t j(2) s3(1,2) j(3)])
  moreover have "b \<in> set (xs @ [?p])" if "Some b \<in> set (hashtable c3)" for b
    using that c set_update_subset_insert [of "hashtable c" "place c ?n j" "Some ?p"] by (auto simp: s3 cache_ok_def)
  moreover have "table_fits c3" using t by (simp add: table_fits_def s3)
  ultimately have "cache_ok c3 (xs @ [?p]) (fs @ [f])"
    using c new c3(2) fp f3 tot s3 by (simp add: cache_ok_def list_all2_appendI)
  moreover have "cache_insert a c = Inr (Some ?p, c3)"
    unfolding cache_insert_eq [OF t f] c1_def [symmetric] pr bindr_Inr
    using c3(1) by (simp add: c2_def c1_def place_def)
  moreover have "narrow c3 ?n" if nw: "narrow c ?n"
    unfolding narrow_def
  proof (intro allI impI)
    fix m assume m: "\<forall>l \<le> m. \<not> hits c3 ?n (hashtable c3 ! place c3 ?n l)"
    have pl: "place c3 = place c" by (simp add: place_def first_key_def s3(2) fun_eq_iff)
    have own: "hashtable c3 ! place c ?n j = Some ?p" using place_in [OF t] by (simp add: s3(1))
    have "\<not> j \<le> m" using m fp f3 own by (auto simp: pl hits_def)
    then have "\<not> hits c ?n (hashtable c ! place c ?n l)" if "l \<le> m" for l
      using m that j(3) [of l] cache_ok_no_name [OF c new] place_in [OF t] by auto
    with nw show "place c3 ?n m \<le> 46340" unfolding pl narrow_def by blast
  qed
  ultimately show thesis using that fp f3 s3(3) by metis
qed

lemma cache_insert_full:
  assumes c: "cache_ok c xs fs" and f: "file_at a c = Inr f" "2 * file_size f \<le> cache_size c"
    and full: "\<not> free_place c (file_name f)"
  shows "cache_insert a c = Inl Diverges"
proof -
  have t: "table_fits c" using c by (simp add: cache_ok_def)
  define c1 where "c1 = c\<lparr>elements := elements c @ [Some \<lparr>e_file = a, e_next = None, e_pre = None\<rparr>]\<rparr>"
  have t1: "table_fits c1" and same: "table_size c1 = table_size c" "hashtable c1 = hashtable c"
    using t by (simp_all add: c1_def table_fits_def)
  note k = first_key_range(1,2) [OF t, of "file_name f"]
  have "probe (Suc (nat (table_size c))) (\<lambda>p. p = None) (first_key (file_name f) c) c1 = Inl Diverges"
    using full free_place_iff [OF t] by (intro probe_diverges [OF t1]) (use k in \<open>simp_all add: same place_def\<close>)
  then show ?thesis unfolding cache_insert_eq [OF t f] c1_def [symmetric] by simp
qed

text \<open>
  C12: \<open>cache_insert\<close> of a file whose name is not in the cache appends it as the last used one, whatever room
  is left: no file is ever evicted, and the remaining size, which is the size of the cache less the sizes
  of all its files, may become negative.  A file of more than half the size of the cache is refused, and
  the function never returns if the probe sequence has no free place.
\<close>

theorem cache_insert_refines:
  assumes "cache_holds c fs" "file_at a c = Inr f" "file_name f \<notin> file_name ` set fs"
  shows "(2 * file_size f > cache_size c \<longrightarrow> cache_insert a c = Inr (None, c))
    \<and> (2 * file_size f \<le> cache_size c \<and> \<not> free_place c (file_name f) \<longrightarrow> cache_insert a c = Inl Diverges)
    \<and> (2 * file_size f \<le> cache_size c \<and> free_place c (file_name f) \<longrightarrow>
        (\<exists>p c'. cache_insert a c = Inr (p, c') \<and> elem_file p c' = Inr f \<and> cache_holds c' (fs @ [f])
          \<and> remaining_cache_size c' = cache_size c - sum_list (map file_size (fs @ [f]))))"
proof (intro conjI impI)
  from assms obtain xs where c: "cache_ok c xs fs" by (auto simp: cache_holds_def)
  show "cache_insert a c = Inr (None, c)" if "2 * file_size f > cache_size c"
    using that assms by (simp add: cache_insert_def)
  show "cache_insert a c = Inl Diverges" if "2 * file_size f \<le> cache_size c \<and> \<not> free_place c (file_name f)"
    using that by (intro cache_insert_full [OF c assms(2)]) simp_all
  assume r: "2 * file_size f \<le> cache_size c \<and> free_place c (file_name f)"
  from cache_insert_spec [OF c assms(2) conjunct1 [OF r] assms(3) conjunct2 [OF r]] obtain c' where
    c': "cache_insert a c = Inr (Some (length (elements c)), c')" "cache_ok c' (xs @ [length (elements c)]) (fs @ [f])"
      "elem_file (Some (length (elements c))) c' = Inr f" "cache_size c' = cache_size c" .
  then show "\<exists>p c'. cache_insert a c = Inr (p, c') \<and> elem_file p c' = Inr f \<and> cache_holds c' (fs @ [f])
      \<and> remaining_cache_size c' = cache_size c - sum_list (map file_size (fs @ [f]))"
    by (auto simp: cache_holds_def cache_ok_def)
qed

section \<open>An empty cache and examples\<close>

definition no_files :: "int \<Rightarrow> wc" where
  "no_files m = \<lparr>hashtable = replicate (nat (m * 11)) None, cache_size = m, remaining_cache_size = m, table_size = m * 11,
     LRU_element = None, LRU_tail = None, elements = [], files = []\<rparr>"

lemma cache_init_eq: "0 < m \<Longrightarrow> m * 11 < 2 ^ 31 \<Longrightarrow> cache_init m = Inr (no_files m)"
  using s32_id [of "m * 11"] by (simp add: cache_init_def create_hash_def no_files_def Let_def)

lemma cache_init_ok:
  assumes "0 < m" "m * 11 < 2 ^ 31"
  shows "cache_ok (no_files m\<lparr>files := fls\<rparr>) [] []" "free_place (no_files m\<lparr>files := fls\<rparr>) name"
    "narrow (no_files m\<lparr>files := fls\<rparr>) name"
proof -
  let ?c = "no_files m\<lparr>files := fls\<rparr>"
  have i: "table_size ?c = m * 11" "hashtable ?c = replicate (nat (m * 11)) None" "elements ?c = []"
    "LRU_element ?c = None" "LRU_tail ?c = None" "remaining_cache_size ?c = m" "cache_size ?c = m"
    by (simp_all add: no_files_def)
  have t: "table_fits ?c" using assms by (simp add: table_fits_def i)
  with i show "cache_ok ?c [] []" by (simp add: cache_ok_def lru_def)
  have e: "hashtable ?c ! place ?c name 0 = None" using place_in [OF t, of name 0] by (simp add: i)
  then show "free_place ?c name" unfolding free_place_iff [OF t] ..
  show "narrow ?c name" by (rule narrow_first) (simp only: e hits_None)
qed

definition index_page :: file_data where
  "index_page = \<lparr>file_name = lit ''./index.html'', file_buf = [60, 62], file_size = 2\<rparr>"

text \<open>A cache of the size that the experiments of the repository use.\<close>

definition one_page :: wc where
  "one_page = no_files 16384\<lparr>files := [Some index_page]\<rparr>"

lemma one_page_insert:
  obtains c' where "cache_insert 0 one_page = Inr (Some 0, c')" "cache_holds c' [index_page]" "narrow c' (file_name index_page)"
proof -
  note c = cache_init_ok [of 16384 "[Some index_page]", folded one_page_def, simplified]
  have f: "file_at 0 one_page = Inr index_page" "2 * file_size index_page \<le> cache_size one_page" "elements one_page = []"
    by (simp_all add: file_at_def one_page_def index_page_def no_files_def)
  from cache_insert_spec [OF c(1) f(1,2) _ c(2)] obtain c' where
    "cache_insert 0 one_page = Inr (Some (length (elements one_page)), c')" "cache_ok c' ([] @ [length (elements one_page)]) ([] @ [index_page])"
    "narrow c' (file_name index_page)"
    using c(3) by (metis empty_iff image_empty list.set(1))
  with f(3) that show thesis by (auto simp: cache_holds_def)
qed

theorem cache_lookup_refines_witness:
  "\<exists>p c p' c'. cache_insert 0 one_page = Inr (p, c) \<and> cache_lookup (lit ''./index.html'') True c = Inr (p', c')
     \<and> elem_file p' c' = Inr index_page \<and> cache_holds c' [index_page]"
proof -
  obtain c where c: "cache_insert 0 one_page = Inr (Some 0, c)" "cache_holds c [index_page]" "narrow c (file_name index_page)"
    by (rule one_page_insert)
  from cache_lookup_refines [OF c(2,3), of True] obtain p' c' where
    "cache_lookup (lit ''./index.html'') True c = Inr (p', c')" "elem_file p' c' = Inr index_page" "cache_holds c' [index_page]"
    by (auto simp: to_end_def index_page_def)
  with c(1) show ?thesis by blast
qed

theorem cache_insert_refines_witness:
  "\<exists>p c. cache_insert 0 one_page = Inr (p, c) \<and> elem_file p c = Inr index_page \<and> cache_holds c [index_page]"
proof -
  note c = cache_init_ok [of 16384 "[Some index_page]", folded one_page_def, simplified]
  have f: "file_at 0 one_page = Inr index_page" "2 * file_size index_page \<le> cache_size one_page"
    by (simp_all add: file_at_def one_page_def index_page_def no_files_def)
  have "cache_holds one_page []" using c(1) by (auto simp: cache_holds_def)
  from cache_insert_refines [OF this f(1)] f(2) c(2) show ?thesis by auto
qed

section \<open>Larger tables\<close>

text \<open>
  In a cache of more than 4212 bytes the square of a key in \<open>cache_lookup\<close> overflows \<open>int\<close>: where the
  place of a name is taken by another file and its key is between 46341 and 65535, the next key is negative
  (unless the remainder is 0) and the lookup reads outside the table.
\<close>

theorem lookup_key_overflow:
  assumes "first_key name c = key" "46341 \<le> key" "key \<le> 65535" "key < table_size c" "table_size c < 2 ^ 31"
    and "length (hashtable c) = nat (table_size c)" "hashtable c ! nat key = Some a"
    and "elem_file (Some a) c = Inr f" "file_name f \<noteq> name" "(2 ^ 32 - key * key) mod table_size c \<noteq> 0"
  shows "cache_lookup name LRU_flag c = Inl OutOfBounds"
proof -
  have "46341 * 46341 \<le> key * key" "key * key \<le> 65535 * 65535" using assms(2,3) by (intro mult_mono; simp)+
  then have sq: "2 ^ 31 \<le> key * key" "key * key < 2 ^ 32" by simp_all
  have "s32 (key * key) = key * key - 2 ^ 32"
    using sq minus_mod_self2 [of "key * key + 2 ^ 31" "2 ^ 32"] mod_pos_pos_trivial [of "key * key - 2 ^ 31" "2 ^ 32"]
    by (simp add: s32_def)
  moreover have T: "0 < table_size c" using assms(2,4) by simp
  have "0 < (2 ^ 32 - key * key) mod table_size c"
    using pos_mod_sign [OF T, of "2 ^ 32 - key * key"] assms(10) by linarith
  ultimately have nx: "next_key_int key c < 0"
    using sq T
    by (simp add: next_key_int_def signed_modulo_int_def)
  have k: "s32 key = key" using assms(2,3) by (intro s32_id) simp_all
  have t: "table_at key c = Inr (Some a)" using assms(2,4,6,7) by (simp add: table_at_def)
  obtain m where m: "nat (table_size c) = Suc m" using assms(2,4) by (cases "nat (table_size c)") auto
  have "lookup_loop m name (next_key_int key c) c = Inl OutOfBounds"
    using nx by (simp add: lookup_loop.simps table_at_def)
  with t assms(8,9) show ?thesis
    by (simp add: cache_lookup_def assms(1) k m lookup_loop.simps [of "Suc m"])
qed

definition clash :: wc where
  "clash = \<lparr>hashtable = (replicate 132000 None)[48762 := Some 0], cache_size = 12000, remaining_cache_size = 11998,
     table_size = 132000, LRU_element = Some 0, LRU_tail = Some 0,
     elements = [Some \<lparr>e_file = 0, e_next = None, e_pre = None\<rparr>], files = [Some index_page]\<rparr>"

theorem lookup_key_overflow_witness:
  "cache_lookup (lit ''./x'') True clash = Inl OutOfBounds"
proof (rule lookup_key_overflow)
  show "first_key (lit ''./x'') clash = 48762" by (simp add: first_key_def hash_def lit_def clash_def u64_def)
  show "hashtable clash ! nat 48762 = Some 0" by (simp add: clash_def)
  show "elem_file (Some 0) clash = Inr index_page" by (simp add: elem_file_def elem_at_def file_at_def clash_def)
  show "file_name index_page \<noteq> lit ''./x''" by (simp add: index_page_def lit_def)
qed (simp_all add: clash_def)

end
