(* ===== verification/FileCache.thy ===== *)
theory FileCache
  imports CacheProps
begin

text \<open>
  The cache as the server sees it: what it relies on, as a locale, with the lemmas of the server's two
  uses of the cache, and its interpretation by the functions of \<open>Cache\<close>.
\<close>

section \<open>Caches of files\<close>

text \<open>
  \<open>room s n\<close> says that a search for \<open>n\<close> ends, \<open>clear s n\<close> that it keeps to the probe sequence of \<open>n\<close>,
  \<open>small s f\<close> that \<open>f\<close> is not too big to be kept.
\<close>

locale file_cache =
  fixes holds :: "'s \<Rightarrow> 'f list \<Rightarrow> bool" and name_of :: "'f \<Rightarrow> 'n"
    and room :: "'s \<Rightarrow> 'n \<Rightarrow> bool" and clear :: "'s \<Rightarrow> 'n \<Rightarrow> bool" and small :: "'s \<Rightarrow> 'f \<Rightarrow> bool"
    and lookup :: "'n \<Rightarrow> bool \<Rightarrow> 's \<Rightarrow> ('p option \<times> 's) result" and contents :: "'p option \<Rightarrow> 's \<Rightarrow> 'f result"
    and store :: "'f \<Rightarrow> 's \<Rightarrow> 's result"
  assumes hit: "holds s fs \<Longrightarrow> i < length fs \<Longrightarrow> name_of (fs ! i) = n \<Longrightarrow> clear s n \<Longrightarrow>
      \<exists>p s'. lookup n use s = Inr (Some p, s') \<and> contents (Some p) s' = Inr (fs ! i) \<and> holds s' (if use then to_end i fs else fs)"
    and miss: "holds s fs \<Longrightarrow> n \<notin> name_of ` set fs \<Longrightarrow> room s n \<Longrightarrow> clear s n \<Longrightarrow> lookup n use s = Inr (None, s)"
    and store_new: "holds s fs \<Longrightarrow> name_of f \<notin> name_of ` set fs \<Longrightarrow> room s (name_of f) \<Longrightarrow>
      \<exists>s'. store f s = Inr s' \<and> holds s' (if small s f then fs @ [f] else fs)
        \<and> (clear s (name_of f) \<longrightarrow> clear s' (name_of f))"
begin

text \<open>Storing a file unless one of its name is there already.\<close>

definition store_once :: "'f \<Rightarrow> 's \<Rightarrow> 's result" where
  "store_once f s = bindr (lookup (name_of f) False s) (\<lambda>(p, s). if p = None then store f s else Inr s)"

lemma store_once_holds:
  assumes s: "holds s fs" and r: "room s (name_of f)" "clear s (name_of f)"
  shows "\<exists>s'. store_once f s = Inr s'
    \<and> holds s' (if name_of f \<in> name_of ` set fs \<or> \<not> small s f then fs else fs @ [f])
    \<and> (name_of f \<notin> name_of ` set fs \<longrightarrow> clear s' (name_of f))"
proof (cases "name_of f \<in> name_of ` set fs")
  case True
  then obtain i where "i < length fs" "name_of (fs ! i) = name_of f" by (auto simp: in_set_conv_nth)
  from hit [OF s this r(2), of False] True show ?thesis by (auto simp: store_once_def)
next
  case False
  from miss [OF s False r] store_new [OF s False r(1)] r(2) False show ?thesis by (auto simp: store_once_def)
qed

text \<open>What was stored is found.\<close>

lemma found_after_store:
  assumes s: "holds s fs" "name_of f \<notin> name_of ` set fs" "room s (name_of f)" "small s f" "clear s (name_of f)"
  shows "\<exists>s1 p s2. store f s = Inr s1 \<and> lookup (name_of f) use s1 = Inr (Some p, s2) \<and> contents (Some p) s2 = Inr f
    \<and> holds s2 (fs @ [f])"
proof -
  from store_new [OF s(1-3)] s(4,5) obtain s1 where s1: "store f s = Inr s1" "holds s1 (fs @ [f])" "clear s1 (name_of f)" by auto
  from hit [OF s1(2), of "length fs" "name_of f" use] s1(1,3) show ?thesis by (auto simp: to_end_def split: if_splits)
qed

end

section \<open>The cache of the server\<close>

text \<open>The file data of a request becomes an object that the threads share; its address is new.\<close>

definition new_file :: "file_data \<Rightarrow> wc \<Rightarrow> nat \<times> wc" where
  "new_file f c = (length (files c), c\<lparr>files := files c @ [Some f]\<rparr>)"

definition store_file :: "file_data \<Rightarrow> wc \<Rightarrow> wc result" where
  "store_file f c = (let (a, c) = new_file f c in bindr (cache_insert a c) (\<lambda>(_, c). Inr c))"

lemma new_file_holds:
  assumes "cache_holds c fs" "new_file f c = (a, c')"
  shows "cache_holds c' fs" "file_at a c' = Inr f" "free_place c' name = free_place c name" "cache_size c' = cache_size c"
    "narrow c name \<Longrightarrow> narrow c' name"
proof -
  from assms(1) obtain xs where c: "cache_ok c xs fs" by (auto simp: cache_holds_def)
  have c': "c' = c\<lparr>files := files c @ [Some f]\<rparr>" "a = length (files c)" using assms(2) by (simp_all add: new_file_def)
  then have el: "elem c' = elem c" by (simp add: elem_def fun_eq_iff)
  have "lru c' = lru c" unfolding lru_def [abs_def] el by (simp add: c')
  with el have same: "hashtable c' = hashtable c" "table_size c' = table_size c" "elem c' = elem c" "lru c' = lru c"
    "remaining_cache_size c' = remaining_cache_size c" "cache_size c' = cache_size c"
    by (simp_all add: c')
  have p: "place c' = place c" by (simp add: place_def first_key_def same fun_eq_iff)
  have fa: "file_at b c' = Inr g" if "file_at b c = Inr g" for b g
    using that by (auto simp: file_at_def c' nth_append split: if_splits)
  have ef: "elem_file (Some x) c' = Inr g" if "elem_file (Some x) c = Inr g" for x g
    using that fa by (auto simp: elem_file_eq same(3) split: option.splits)
  show "cache_holds c' fs"
    using c ef unfolding cache_holds_def cache_ok_def table_fits_def leads_to_def same p
    by (intro exI [of _ xs]) (auto elim!: list_all2_mono)
  show "file_at a c' = Inr f" by (simp add: file_at_def c')
  show "free_place c' name = free_place c name" "cache_size c' = cache_size c" by (simp_all add: free_place_def same p)
  have "hits c' name p" if "hits c name p" for p
    using that ef by (cases p) (auto simp: hits_def split: sum.splits)
  then show "narrow c name \<Longrightarrow> narrow c' name" unfolding narrow_def same p by blast
qed

lemma store_file_holds:
  assumes c: "cache_holds c fs" and new: "file_name f \<notin> file_name ` set fs" and free: "free_place c (file_name f)"
  shows "\<exists>c'. store_file f c = Inr c' \<and> cache_holds c' (if 2 * file_size f \<le> cache_size c then fs @ [f] else fs)
    \<and> (narrow c (file_name f) \<longrightarrow> narrow c' (file_name f))"
proof -
  obtain a c1 where a: "new_file f c = (a, c1)" by fastforce
  note n = new_file_holds [OF c a]
  from n(1) obtain xs where ok: "cache_ok c1 xs fs" by (auto simp: cache_holds_def)
  have fr: "free_place c1 (file_name f)" using n(3) free by simp
  show ?thesis
  proof (cases "2 * file_size f \<le> cache_size c")
    case False
    then show ?thesis using a n(1,2,4,5) by (simp add: store_file_def cache_insert_def)
  next
    case True
    with n(4) have "2 * file_size f \<le> cache_size c1" by simp
    from cache_insert_spec [OF ok n(2) this new fr] obtain c2 where
      "cache_insert a c1 = Inr (Some (length (elements c1)), c2)" "cache_holds c2 (fs @ [f])"
      "narrow c1 (file_name f) \<longrightarrow> narrow c2 (file_name f)"
      unfolding cache_holds_def by metis
    with a True n(5) show ?thesis by (simp add: store_file_def)
  qed
qed

interpretation fc: file_cache cache_holds file_name free_place narrow "\<lambda>c f. 2 * file_size f \<le> cache_size c"
  cache_lookup elem_file store_file
proof
  fix c fs i n use assume "cache_holds c fs" "i < length fs" "file_name (fs ! i) = n" "narrow c n"
  then show "\<exists>p c'. cache_lookup n use c = Inr (Some p, c') \<and> elem_file (Some p) c' = Inr (fs ! i)
      \<and> cache_holds c' (if use then to_end i fs else fs)"
    using cache_lookup_hit unfolding cache_holds_def by blast
next
  fix c fs n use assume "cache_holds c fs" "n \<notin> file_name ` set fs" "free_place c n" "narrow c n"
  then show "cache_lookup n use c = Inr (None, c)"
    using lookup_absent by (auto simp: cache_holds_def cache_lookup_def)
qed (rule store_file_holds)

end
