(* ===== verification/WebServer.thy ===== *)
theory WebServer
  imports HttpSpec FileCache
begin

text \<open>
  \<open>do_server_request\<close> of \<open>src/webserver/server_thread.c\<close>: one request with the cache around it.  The two
  uses of the cache are separate critical sections; what other workers do to the cache between them is
  the parameter \<open>others\<close>.  The theorems say which bytes reach the client.
\<close>

section \<open>One request\<close>

text \<open>\<open>NULL\<close> names and buffers are empty ones.\<close>

definition file_data_init :: file_data where
  "file_data_init = \<lparr>file_name = [], file_buf = [], file_size = 0\<rparr>"

text \<open>What the functions are given: the file system, the allocator, and the contents of fresh arrays.\<close>

record env =
  fsys :: "cstr \<Rightarrow> file_stat option"
  mal :: "nat \<Rightarrow> bool"
  stack_buf :: "byte list"
  stack_hbuf :: "byte list"
  stack_words :: "cstr \<times> cstr"

text \<open>The second critical section: the file is inserted unless another worker was faster.\<close>

definition cache_file :: "file_data \<Rightarrow> wc \<Rightarrow> wc result" where
  "cache_file data c =
     bindr (cache_lookup (file_name data) False c) (\<lambda>(check, c). if check = None then store_file data c else Inr c)"

definition do_server_request :: "env \<Rightarrow> int \<Rightarrow> (wc \<Rightarrow> wc) \<Rightarrow> conn \<Rightarrow> wc \<Rightarrow> (conn \<times> wc) result" where
  "do_server_request E max_cache_size others fd c =
     bindr (request_init (stack_buf E) (stack_hbuf E) (stack_words E) fd) (\<lambda>(rq, fd).
     case rq of None \<Rightarrow> Inr (fd, c)
     | Some data \<Rightarrow>
         bindr (if max_cache_size > 0 then cache_lookup (file_name data) True c else Inr (None, c)) (\<lambda>(cached_entry, c).
         if cached_entry \<noteq> None then
           bindr (elem_file cached_entry c) (\<lambda>f.
           bindr (request_sendfile f fd) (\<lambda>fd. Inr (request_destroy fd, c)))
         else
           bindr (request_readfile (fsys E) (mal E) data fd) (\<lambda>(_, data, fd).
           bindr (request_sendfile data fd) (\<lambda>fd.
           bindr (if max_cache_size > 0 then cache_file data (others c) else Inr (others c)) (\<lambda>c.
           Inr (request_destroy fd, c))))))"

lemma cache_file_holds:
  assumes "cache_holds c fs" "free_place c (file_name f)" "narrow c (file_name f)"
  shows "\<exists>c'. cache_file f c = Inr c'
    \<and> cache_holds c' (if file_name f \<in> file_name ` set fs \<or> 2 * file_size f > cache_size c then fs else fs @ [f])
    \<and> (file_name f \<notin> file_name ` set fs \<longrightarrow> narrow c' (file_name f))"
  using fc.store_once_holds [OF assms] by (simp add: cache_file_def fc.store_once_def not_le)

section \<open>A request from the client to the response\<close>

definition asks_for :: "env \<Rightarrow> conn \<Rightarrow> cstr \<Rightarrow> cstr \<Rightarrow> bool" where
  "asks_for E fd host fn \<longleftrightarrow> reliable (from_peer fd) \<and> inflow (from_peer fd) = request_text host fn
     \<and> WriteFailed \<notin> set (acceptances fd) \<and> plain fn \<and> fn \<noteq> [] \<and> 0 \<notin> set host \<and> 10 \<notin> set host
     \<and> length fn + length host < 8000 \<and> length (stack_buf E) = MAXLINE \<and> length (stack_hbuf E) = MAXLINE"

definition path :: "cstr \<Rightarrow> cstr" where
  "path fn = lit ''./'' @ fn"

abbreviation page :: "cstr \<Rightarrow> byte list \<Rightarrow> file_data" where
  "page name bs \<equiv> \<lparr>file_name = name, file_buf = bs, file_size = int (length bs)\<rparr>"

lemma asks_for_init:
  assumes "asks_for E fd host fn"
  obtains rest where "request_init (stack_buf E) (stack_hbuf E) (stack_words E) fd
      = Inr (Some (page (path fn) []), fd\<lparr>from_peer := rest\<rparr>)"
  using assms request_init_spec [of fd host fn "stack_buf E" "stack_hbuf E" "stack_words E"]
  by (auto simp: asks_for_def path_def)

lemma uncached_page:
  assumes ask: "asks_for E fd host fn"
    and fl: "allowed_name (path fn)" "fsys E (path fn) = Some st" "served_file st bs" "mal E (length bs)"
    and cache: "max_cache_size > 0 \<Longrightarrow> cache_holds c fs \<and> path fn \<notin> file_name ` set fs \<and> free_place c (path fn) \<and> narrow c (path fn)
      \<and> cache_holds (others c) fs' \<and> free_place (others c) (path fn) \<and> narrow (others c) (path fn)"
  shows "\<exists>fd' c'. do_server_request E max_cache_size others fd c = Inr (fd', c')
    \<and> to_peer fd' = to_peer fd @ response_text (path fn) bs \<and> \<not> is_open fd'
    \<and> (max_cache_size > 0 \<longrightarrow> cache_holds c'
        (if path fn \<in> file_name ` set fs' \<or> 2 * int (length bs) > cache_size (others c) then fs' else fs' @ [page (path fn) bs]))"
proof -
  obtain rest where r: "request_init (stack_buf E) (stack_hbuf E) (stack_words E) fd
      = Inr (Some (page (path fn) []), fd\<lparr>from_peer := rest\<rparr>)" by (rule asks_for_init [OF ask])
  let ?fd = "fd\<lparr>from_peer := rest\<rparr>" and ?data = "page (path fn) bs"
  have rd: "request_readfile (fsys E) (mal E) (page (path fn) []) ?fd = Inr (1, ?data, ?fd)"
    using request_readfile_spec [of "page (path fn) []" "fsys E" st bs "mal E" ?fd] fl by simp
  have "WriteFailed \<notin> set (acceptances ?fd)" "length bs < 2 ^ 31" using ask fl(3) by (simp_all add: asks_for_def served_file_def)
  from request_sendfile_spec [OF this(1) _ _ this(2), of ?data] obtain as where
    s: "request_sendfile ?data ?fd = Inr (?fd\<lparr>acceptances := as, to_peer := to_peer fd @ response_text (path fn) bs\<rparr>)" by auto
  show ?thesis
  proof (cases "max_cache_size > 0")
    case False
    with r rd s show ?thesis by (simp add: do_server_request_def request_destroy_def)
  next
    case True
    note h = cache [OF True]
    from h have hit: "cache_lookup (path fn) True c = Inr (None, c)" by (auto intro: fc.miss)
    from cache_file_holds [of "others c" fs' ?data] h obtain c' where
      "cache_file ?data (others c) = Inr c'" "cache_holds c'
        (if path fn \<in> file_name ` set fs' \<or> 2 * int (length bs) > cache_size (others c) then fs' else fs' @ [?data])" by auto
    with True r rd s hit show ?thesis by (simp add: do_server_request_def request_destroy_def)
  qed
qed

lemma cached_page_spec:
  assumes "asks_for E fd host fn" "max_cache_size > 0" "cache_holds c fs" "narrow c (path fn)"
    and "i < length fs" "fs ! i = page (path fn) bs" "length bs < 2 ^ 31"
  shows "\<exists>fd' c'. do_server_request E max_cache_size others fd c = Inr (fd', c')
    \<and> to_peer fd' = to_peer fd @ response_text (path fn) bs \<and> \<not> is_open fd' \<and> cache_holds c' (to_end i fs)"
proof -
  obtain rest where r: "request_init (stack_buf E) (stack_hbuf E) (stack_words E) fd
      = Inr (Some (page (path fn) []), fd\<lparr>from_peer := rest\<rparr>)" by (rule asks_for_init [OF assms(1)])
  let ?fd = "fd\<lparr>from_peer := rest\<rparr>"
  from fc.hit [OF assms(3,5) _ assms(4), of True] assms(6) obtain p c' where
    l: "cache_lookup (path fn) True c = Inr (Some p, c')" "elem_file (Some p) c' = Inr (page (path fn) bs)"
      "cache_holds c' (to_end i fs)" by auto
  have "WriteFailed \<notin> set (acceptances ?fd)" using assms(1) by (simp add: asks_for_def)
  from request_sendfile_spec [OF this _ _ assms(7), of "page (path fn) bs"] obtain as where
    "request_sendfile (page (path fn) bs) ?fd = Inr (?fd\<lparr>acceptances := as, to_peer := to_peer fd @ response_text (path fn) bs\<rparr>)" by auto
  with r l assms(2) show ?thesis by (simp add: do_server_request_def request_destroy_def)
qed

text \<open>
  C35: A file that is in the cache is sent from there, whatever the file system holds now: the response has
  the cached bytes, the connection is closed and the file becomes the last used one.  The search for the file must
  not pass over a place above 46340 (\<open>narrow\<close>): so it is for every file in a cache of at most 4212 bytes, and in
  a cache of any size for a file at the first place of its probe sequence.
\<close>

theorem cached_page:
  assumes "asks_for E fd host fn" "max_cache_size > 0" "cache_holds c fs" "narrow c (path fn)"
    and "i < length fs" "fs ! i = page (path fn) bs" "length bs < 2 ^ 31"
  shows "\<exists>fd' c'. do_server_request E max_cache_size others fd c = Inr (fd', c')
    \<and> to_peer fd' = to_peer fd @ response_text (path fn) bs \<and> \<not> is_open fd' \<and> cache_holds c' (to_end i fs)"
  by (rule cached_page_spec [OF assms])

text \<open>
  C4: A page from end to end, for a plain file name and a host name of together less than 8000 bytes.  If no write fails, the
  bytes that \<open>client_send\<close> writes reach the server, in whatever pieces,
  and the bytes that \<open>do_server_request\<close> writes reach the client, in whatever pieces, then \<open>client_print\<close>
  passes all its checks of length and checksum, for a file that may be served and read
  and whose lines fit into the client's buffer, whatever its size, and for a server with or without a cache.  With
  a cache, the file was not in it, the probe sequence of its name has a free place and the search for that passes over
  no place above 46340 (\<open>narrow\<close>; so it is in a cache of at most 4212 bytes, or if the first place is free);
  afterwards the file is in the cache if it is at most half as large as the cache, else the cache is as it was.
\<close>

theorem http_roundtrip:
  assumes up: "WriteFailed \<notin> set (acceptances k)" "to_peer k = []" "client_send host fn k = Inr k'"
      "reliable (from_peer fd)" "inflow (from_peer fd) = to_peer k'"
    and request: "plain fn" "fn \<noteq> []" "0 \<notin> set host" "10 \<notin> set host" "length fn + length host < 8000"
    and server: "WriteFailed \<notin> set (acceptances fd)" "to_peer fd = []" "length (stack_buf E) = MAXLINE" "length (stack_hbuf E) = MAXLINE"
    and fl: "allowed_name (path fn)" "fsys E (path fn) = Some st" "served_file st bs" "mal E (length bs)" "lines_fit MAXBUF bs"
    and cache: "max_cache_size > 0 \<Longrightarrow> cache_holds c fs \<and> path fn \<notin> file_name ` set fs \<and> free_place c (path fn) \<and> narrow c (path fn)"
  shows "\<exists>fd' c'. do_server_request E max_cache_size id fd c = Inr (fd', c')
    \<and> (max_cache_size > 0 \<longrightarrow> cache_holds c' (if 2 * int (length bs) \<le> cache_size c then fs @ [page (path fn) bs] else fs))
    \<and> (\<forall>down buf. reliable down \<and> inflow down = to_peer fd' \<and> length buf = MAXBUF
         \<longrightarrow> client_print buf down (checksum bs) (int (length bs)) = Inr ())"
proof -
  from client_send_spec [OF up(1) request(5)] obtain as where
    "client_send host fn k = Inr (k\<lparr>acceptances := as, to_peer := to_peer k @ request_text host fn\<rparr>)" by blast
  with up(2,3) have "to_peer k' = request_text host fn" by auto
  with up(4,5) request server have ask: "asks_for E fd host fn" by (simp add: asks_for_def)
  have "cache_holds c fs \<and> path fn \<notin> file_name ` set fs \<and> free_place c (path fn) \<and> narrow c (path fn)
      \<and> cache_holds (id c) fs \<and> free_place (id c) (path fn) \<and> narrow (id c) (path fn)" if "max_cache_size > 0"
    using cache [OF that] by simp
  from uncached_page [of E fd host fn st bs max_cache_size c fs id fs, OF ask fl(1-4) this] obtain fd' c' where
    d: "do_server_request E max_cache_size id fd c = Inr (fd', c')" "to_peer fd' = to_peer fd @ response_text (path fn) bs"
      "max_cache_size > 0 \<longrightarrow> cache_holds c'
        (if path fn \<in> file_name ` set fs \<or> 2 * int (length bs) > cache_size (id c) then fs else fs @ [page (path fn) bs])" by blast
  have "to_peer fd' = response_text (path fn) bs" using d(2) server(2) by simp
  moreover from fl(3) have n: "length bs < 2 ^ 31" by (simp add: served_file_def)
  ultimately have "client_print buf down (checksum bs) (int (length bs)) = Inr ()"
    if "reliable down \<and> inflow down = to_peer fd' \<and> length buf = MAXBUF" for down buf
    using that client_print_spec [OF _ _ fl(5) n, of down "path fn" buf] by simp
  moreover have "max_cache_size > 0 \<longrightarrow> cache_holds c' (if 2 * int (length bs) \<le> cache_size c then fs @ [page (path fn) bs] else fs)"
    using d(3) cache by (auto simp: not_less)
  ultimately show ?thesis using d(1) by blast
qed

section \<open>Refused requests\<close>

definition error_body :: "cstr \<Rightarrow> string \<Rightarrow> string \<Rightarrow> string \<Rightarrow> byte list" where
  "error_body cause errnum shortmsg longmsg =
     lit ''<html><title>OS Web Server Error</title>'' @ lit ''<body bgcolor=fffff>'' @ crnl
     @ lit ''<p>'' @ lit errnum @ lit '': '' @ lit shortmsg @ lit ''</p>'' @ crnl
     @ lit ''<p>'' @ lit longmsg @ lit '': '' @ cause @ lit ''</p>'' @ crnl @ lit ''</body></html>'' @ crnl"

definition error_text :: "cstr \<Rightarrow> string \<Rightarrow> string \<Rightarrow> string \<Rightarrow> byte list" where
  "error_text cause errnum shortmsg longmsg =
     (let body = error_body cause errnum shortmsg longmsg in
      lit ''HTTP/1.0 '' @ lit errnum @ [32] @ lit shortmsg @ crnl @ lit ''Content-Type: text/html'' @ crnl
      @ lit ''Content-Length: '' @ dec (int (length body)) @ crnl @ lit ''Content-Csum: '' @ dec (checksum body) @ crnl @ crnl @ body)"

text \<open>The connection \<open>k\<close> after \<open>out\<close> was written.\<close>

definition sent :: "conn \<Rightarrow> byte list \<Rightarrow> conn \<Rightarrow> bool" where
  "sent k out c \<longleftrightarrow> (\<exists>as. c = k\<lparr>acceptances := as, to_peer := to_peer k @ out\<rparr>) \<and> WriteFailed \<notin> set (acceptances c)"

lemma sent_start: "WriteFailed \<notin> set (acceptances c) \<Longrightarrow> sent c [] c"
  by (auto simp: sent_def intro: exI [of _ "acceptances c"])

lemma sent_send: "sent k out c \<Longrightarrow> (\<And>c'. sent k (out @ bs) c' \<Longrightarrow> wp (f c') Q) \<Longrightarrow> wp (bindr (send bs c) f) Q"
proof -
  assume s: "sent k out c" and f: "\<And>c'. sent k (out @ bs) c' \<Longrightarrow> wp (f c') Q"
  from s obtain as where as: "send bs c = Inr (c\<lparr>acceptances := as, to_peer := to_peer c @ bs\<rparr>)" "WriteFailed \<notin> set as"
    using send_spec [of c bs] unfolding sent_def by blast
  have "sent k (out @ bs) (c\<lparr>acceptances := as, to_peer := to_peer c @ bs\<rparr>)" using s as(2) by (auto simp: sent_def)
  from f [OF this] show "wp (bindr (send bs c) f) Q" by (simp add: as(1))
qed

lemma sent_last: "sent k out c \<Longrightarrow> wp (send bs c) (sent k (out @ bs))"
  using sent_send [of k out c bs Inr "sent k (out @ bs)"] by (cases "send bs c") (auto simp: wp_def)

lemma request_error_spec:
  assumes "WriteFailed \<notin> set (acceptances c)" "length cause + length errnum + length shortmsg + length longmsg < 8080"
  shows "wp (request_error cause errnum shortmsg longmsg c) (sent c (error_text cause errnum shortmsg longmsg))"
proof -
  let ?body = "error_body cause errnum shortmsg longmsg" and ?b = "lit ''HTTP/1.0 '' @ lit errnum @ [32] @ lit shortmsg @ crnl"
  have ln: "length (lit m) = length m" for m by (simp add: lit_def)
  have "length ?body < MAXBUF" "length ?b < MAXLINE" using assms(2) by (simp_all add: error_body_def ln)
  then have f: "fits MAXBUF ?body = Inr ?body" "fits MAXLINE ?b = Inr ?b" by (simp_all only: fits_def if_True)
  have "wp (request_error cause errnum shortmsg longmsg c) (sent c ((((([] @ ?b) @ lit ''Content-Type: text/html'' @ crnl)
      @ lit ''Content-Length: '' @ dec (int (length ?body)) @ crnl) @ lit ''Content-Csum: '' @ dec (checksum ?body) @ crnl @ crnl) @ ?body))"
    unfolding request_error_def error_body_def [symmetric] f bindr_Inr
    by (rule sent_send [OF sent_start [OF assms(1)]], (rule sent_send, assumption)+, rule sent_last)
  then show ?thesis by (simp add: error_text_def Let_def)
qed

text \<open>What the client gets for a file that is not served, and why it is refused.\<close>

definition refused :: "env \<Rightarrow> cstr \<Rightarrow> bool" where
  "refused E fn \<longleftrightarrow> \<not> allowed_name fn
     \<or> (case fsys E fn of None \<Rightarrow> True | Some st \<Rightarrow> \<not> st_regular st \<or> \<not> st_readable st)"

definition refusals :: "(string \<times> string \<times> string) list" where
  "refusals = [(''404'', ''Not found'', ''OS Web Server doesn't serve files with absolute paths''),
     (''404'', ''Not found'', ''OS Web Server doesn't serve files with .. in the path''),
     (''404'', ''Not found'', ''OS Web Server doesn't serve C or header files ''),
     (''404'', ''Not found'', ''OS Web Server could not find this file''),
     (''403'', ''Forbidden'', ''OS Web Server could not read this file'')]"

lemma refused_cases:
  assumes "refused E (file_name data)"
  obtains n s l where "(n, s, l) \<in> set refusals"
    "request_readfile (fsys E) (mal E) data c = bindr (request_error (file_name data) n s l c) (\<lambda>c. Inr (0, data, c))"
proof -
  let ?f = "file_name data"
  have i: "(n, s, l) \<in> set refusals" if "(n, s, l) = refusals ! i" "i < 5" for n s l i
    using that nth_mem [of i refusals] by (simp add: refusals_def)
  note d = request_readfile_def Let_def
  show thesis
  proof (cases "take 1 ?f = [47]")
    case True
    with i [OF _ , of _ _ _ 0] show thesis by (intro that) (simp_all add: d refusals_def)
  next
    case ab: False
    show thesis
    proof (cases "strstr ?f (lit ''..'')")
      case True
      with ab show thesis by (intro that [OF i [of _ _ _ 1]]) (simp_all add: d refusals_def)
    next
      case dots: False
      show thesis
      proof (cases "strrchr ?f 46 = Some (lit ''.c'') \<or> strrchr ?f 46 = Some (lit ''.h'')")
        case True
        with ab dots show thesis by (intro that [OF i [of _ _ _ 2]]) (simp_all add: d refusals_def)
      next
        case ext: False
        show thesis
        proof (cases "fsys E ?f")
          case None
          with ab dots ext show thesis by (intro that [OF i [of _ _ _ 3]]) (simp_all add: d refusals_def)
        next
          case (Some st)
          with ab dots ext assms have "\<not> st_regular st \<or> \<not> st_readable st" by (simp add: refused_def allowed_name_def)
          with ab dots ext Some show thesis by (intro that [OF i [of _ _ _ 4]]) (simp_all add: d refusals_def)
        qed
      qed
    qed
  qed
qed

text \<open>
  C27: A request for a file that may not be served (\<open>..\<close> in the path, a C source, no such file, not a readable
  regular file) and whose name is not in the cache gets the error response and no byte of a file; but the server does not heed the result of
  \<open>request_readfile\<close>: a second response, \<open>200 OK\<close> with length 0, follows, and, if there is a cache, an empty file is put in it
  under the name.  The next request for the name then gets only that \<open>200 OK\<close>, and no error.  (With a cache, the probe
  sequence of the name has a free place, and the search for that passes over no place above 46340: so it is in a cache
  of at most 4212 bytes, or if the first place is free.)
\<close>

theorem refused_page:
  assumes ask: "asks_for E fd host fn" and ref: "refused E (path fn)"
    and cache: "max_cache_size > 0 \<Longrightarrow> cache_holds c fs \<and> path fn \<notin> file_name ` set fs \<and> free_place c (path fn)
      \<and> narrow c (path fn) \<and> 0 \<le> cache_size c"
  shows "\<exists>(n, s, l) \<in> set refusals. \<exists>fd' c'. do_server_request E max_cache_size id fd c = Inr (fd', c')
    \<and> to_peer fd' = to_peer fd @ error_text (path fn) n s l @ response_text (path fn) []
    \<and> (max_cache_size > 0 \<longrightarrow> cache_holds c' (fs @ [page (path fn) []])
         \<and> (\<forall>E2 fd2 host2. asks_for E2 fd2 host2 fn \<longrightarrow> (\<exists>fd3 c3. do_server_request E2 max_cache_size id fd2 c' = Inr (fd3, c3)
               \<and> to_peer fd3 = to_peer fd2 @ response_text (path fn) [])))"
proof -
  obtain rest where r: "request_init (stack_buf E) (stack_hbuf E) (stack_words E) fd
      = Inr (Some (page (path fn) []), fd\<lparr>from_peer := rest\<rparr>)" by (rule asks_for_init [OF ask])
  let ?fd = "fd\<lparr>from_peer := rest\<rparr>" and ?data = "page (path fn) []"
  from refused_cases [of E ?data ?fd] ref obtain n s l where
    m: "(n, s, l) \<in> set refusals" "request_readfile (fsys E) (mal E) ?data ?fd
      = bindr (request_error (path fn) n s l ?fd) (\<lambda>c. Inr (0, ?data, c))" by auto
  have "length n + length s + length l < 70" using m(1) by (auto simp: refusals_def)
  moreover have "WriteFailed \<notin> set (acceptances ?fd)" "length (path fn) < 8010"
    using ask by (simp_all add: asks_for_def path_def lit_def)
  ultimately obtain fd1 where e: "request_error (path fn) n s l ?fd = Inr fd1" "sent ?fd (error_text (path fn) n s l) fd1"
    using request_error_spec [of ?fd "path fn" n s l] by (auto simp: wp_def split: sum.splits)
  then have t1: "to_peer fd1 = to_peer fd @ error_text (path fn) n s l" "WriteFailed \<notin> set (acceptances fd1)"
    by (auto simp: sent_def)
  from request_sendfile_spec [OF t1(2), of ?data "[]"] obtain as where
    s: "request_sendfile ?data fd1 = Inr (fd1\<lparr>acceptances := as, to_peer := to_peer fd1 @ response_text (path fn) []\<rparr>)" by auto
  let ?fd' = "request_destroy (fd1\<lparr>acceptances := as, to_peer := to_peer fd1 @ response_text (path fn) []\<rparr>)"
  have out: "to_peer ?fd' = to_peer fd @ error_text (path fn) n s l @ response_text (path fn) []"
    using t1(1) by (simp add: request_destroy_def)
  show ?thesis
  proof (cases "max_cache_size > 0")
    case False
    with r m e(1) s out show ?thesis
      by (intro bexI [OF _ m(1)]) (simp add: do_server_request_def)
  next
    case True
    note h = cache [OF True]
    from h have hit: "cache_lookup (path fn) True c = Inr (None, c)" by (intro fc.miss) auto
    from cache_file_holds [of c fs ?data] h obtain c' where
      c': "cache_file ?data c = Inr c'" "cache_holds c' (fs @ [?data])" "narrow c' (path fn)" by auto
    have run: "do_server_request E max_cache_size id fd c = Inr (?fd', c')"
      using r m e(1) s hit True c'(1) by (simp add: do_server_request_def)
    have "\<exists>fd3 c3. do_server_request E2 max_cache_size id fd2 c' = Inr (fd3, c3) \<and> to_peer fd3 = to_peer fd2 @ response_text (path fn) []"
      if "asks_for E2 fd2 host2 fn" for E2 fd2 host2
      using cached_page_spec [OF that True c'(2,3), of "length fs" "[]" id] by auto
    with run out c'(2) show ?thesis by (intro bexI [OF _ m(1)]) auto
  qed
qed

section \<open>Examples\<close>

definition example_env :: env where
  "example_env = \<lparr>fsys = (\<lambda>n. if n = lit ''./index.html'' then Some \<lparr>st_regular = True, st_readable = True, st_size = 2,
       st_opens = True, st_contents = [Delivered [60, 62]]\<rparr> else None),
     mal = (\<lambda>_. True), stack_buf = replicate MAXLINE 0, stack_hbuf = replicate MAXLINE 0, stack_words = ([], [])\<rparr>"

definition example_conn :: "byte list \<Rightarrow> conn" where
  "example_conn bs = \<lparr>from_peer = [Delivered bs], acceptances = [], to_peer = [], is_open = True\<rparr>"

lemma index_page_eq: "index_page = page (path (lit ''index.html'')) [60, 62]"
  by (simp add: index_page_def path_def lit_def)

lemma example_asks:
  "asks_for example_env (example_conn (request_text (lit ''host'') (lit ''index.html''))) (lit ''host'') (lit ''index.html'')"
  "asks_for example_env (example_conn (request_text (lit ''host'') (lit ''a.c''))) (lit ''host'') (lit ''a.c'')"
  by (simp_all add: asks_for_def example_conn_def example_env_def plain_def is_blank_def lit_def request_text_def)

lemma one_page_ok: "cache_holds one_page []" "free_place one_page name" "cache_size one_page = 16384" "narrow one_page name"
  using cache_init_ok [of 16384 "[Some index_page]", folded one_page_def]
  by (auto simp: cache_holds_def one_page_def no_files_def)

theorem cached_page_witness:
  "\<exists>c p fd' c'. cache_insert 0 one_page = Inr (p, c)
     \<and> do_server_request example_env 16384 id (example_conn (request_text (lit ''host'') (lit ''index.html''))) c = Inr (fd', c')
     \<and> to_peer fd' = response_text (lit ''./index.html'') [60, 62]"
proof -
  obtain c where c: "cache_insert 0 one_page = Inr (Some 0, c)" "cache_holds c [index_page]" "narrow c (path (lit ''index.html''))"
    using one_page_insert index_page_eq by (metis file_data.select_convs(1))
  from cached_page [OF example_asks(1) _ c(2,3), of 16384 0 "[60, 62]" id] index_page_eq c(1) show ?thesis
    by (auto simp: example_conn_def path_def lit_def)
qed

theorem refused_page_witness:
  "\<exists>(n, s, l) \<in> set refusals. \<exists>fd' c'.
     do_server_request example_env 16384 id (example_conn (request_text (lit ''host'') (lit ''a.c''))) one_page = Inr (fd', c')
     \<and> to_peer fd' = error_text (lit ''./a.c'') n s l @ response_text (lit ''./a.c'') []
     \<and> cache_holds c' [page (lit ''./a.c'') []]"
proof -
  have p: "path (lit ''a.c'') = lit ''./a.c''" by (simp add: path_def lit_def)
  have "fsys example_env (lit ''./a.c'') = None" by (simp add: example_env_def lit_def)
  then have "refused example_env (path (lit ''a.c''))" by (simp add: refused_def p)
  from refused_page [OF example_asks(2) this, of 16384 one_page "[]"] one_page_ok
  have "\<exists>(n, s, l) \<in> set refusals. \<exists>fd' c'.
     do_server_request example_env 16384 id (example_conn (request_text (lit ''host'') (lit ''a.c''))) one_page = Inr (fd', c')
     \<and> to_peer fd' = to_peer (example_conn (request_text (lit ''host'') (lit ''a.c''))) @ error_text (path (lit ''a.c'')) n s l
         @ response_text (path (lit ''a.c'')) []
     \<and> cache_holds c' ([] @ [page (path (lit ''a.c'')) []])" by (auto simp: case_prod_beta)
  then show ?thesis by (simp add: p example_conn_def)
qed

theorem http_roundtrip_witness:
  "\<exists>fd' c' down. do_server_request example_env 16384 id (example_conn (request_text (lit ''host'') (lit ''index.html''))) one_page
      = Inr (fd', c') \<and> cache_holds c' [index_page] \<and> inflow down = to_peer fd'
    \<and> client_print (replicate MAXBUF 0) down (checksum [60, 62]) 2 = Inr ()"
proof -
  let ?k = "\<lparr>from_peer = [], acceptances = [], to_peer = [], is_open = True\<rparr>" and ?h = "lit ''host''" and ?n = "lit ''index.html''"
  have kw: "WriteFailed \<notin> set (acceptances ?k)" by simp
  have "length ?n + length ?h < 8000" by (simp add: lit_def)
  from client_send_spec [OF kw this] obtain as where
    "client_send ?h ?n ?k = Inr (?k\<lparr>acceptances := as, to_peer := to_peer ?k @ request_text ?h ?n\<rparr>)" by blast
  then obtain k' where k': "client_send ?h ?n ?k = Inr k'" "to_peer k' = request_text ?h ?n" by simp
  note ask = example_asks(1) [unfolded asks_for_def]
  have p: "path ?n = lit ''./index.html''" by (simp add: path_def lit_def)
  have al: "allowed_name (path ?n)" unfolding p by (simp add: allowed_name_def strstr_def strrchr_def lit_def)
  let ?st = "\<lparr>st_regular = True, st_readable = True, st_size = 2, st_opens = True, st_contents = [Delivered [60, 62]]\<rparr>"
  have fl: "fsys example_env (path ?n) = Some ?st" "served_file ?st [60, 62]" "mal example_env (length [60 :: byte, 62])"
    unfolding p by (simp_all add: example_env_def served_file_def)
  have lf: "lines_fit MAXBUF [60, 62]"
    unfolding lines_fit_def by (intro allI impI le_less_trans [OF next_line_length(2)]) simp
  have "to_peer k' = inflow (from_peer (example_conn (request_text ?h ?n)))" using k'(2) by (simp add: example_conn_def)
  from http_roundtrip [OF kw _ k'(1), of "example_conn (request_text ?h ?n)" example_env ?st "[60, 62]" 16384 one_page "[]"]
    ask this al fl lf one_page_ok obtain fd' c' where
    r: "do_server_request example_env 16384 id (example_conn (request_text ?h ?n)) one_page = Inr (fd', c')"
      "cache_holds c' [index_page]" "\<forall>down buf. reliable down \<and> inflow down = to_peer fd' \<and> length buf = MAXBUF
         \<longrightarrow> client_print buf down (checksum [60, 62]) 2 = Inr ()"
    by (auto simp: index_page_eq example_conn_def)
  define down where "down = (if to_peer fd' = [] then [] else [Delivered (to_peer fd')])"
  have "reliable down" "inflow down = to_peer fd'" by (simp_all add: down_def)
  with r show ?thesis by (metis length_replicate)
qed

end
