(* ===== verification/FileSet.thy ===== *)
theory FileSet
  imports WebServer
begin

text \<open>
  The load for the web server: \<open>src/webserver/fileset.c\<close> writes files of random bytes and an index of their
  names, checksums and lengths; \<open>init_fileset\<close> and \<open>client_request\<close> of \<open>src/webserver/client.c\<close> read the
  index and request files from it.  The answers of \<open>random\<close>, the sizes drawn by \<open>rand_pareto\<close>, the files
  drawn by \<open>rand_self_similar_int\<close> and what the descriptors accept are parameters.
\<close>

section \<open>The generator\<close>

record outfile =
  out_accepts :: "acceptance list"
  out_bytes :: "byte list"

definition put :: "byte list \<Rightarrow> outfile \<Rightarrow> outfile result" where
  "put bs f = bindr (Rio_write (out_accepts f) bs) (\<lambda>(sent, as).
     Inr (f\<lparr>out_accepts := as, out_bytes := out_bytes f @ sent\<rparr>))"

text \<open>
  The options, whether the directory is there or can be made, whether a file can be opened and what it
  accepts, the size of each file and the answer of \<open>random\<close> for each of its bytes.
\<close>

record generator =
  mean_file_sz :: int
  nr_files :: int
  dir :: cstr
  dir_ok :: bool
  accepts :: "cstr \<Rightarrow> acceptance list option"
  rand_size :: "nat \<Rightarrow> int"
  rand_byte :: "nat \<Rightarrow> nat \<Rightarrow> int"

definition create_file :: "generator \<Rightarrow> cstr \<Rightarrow> outfile result" where
  "create_file G filename = (case accepts G filename of None \<Rightarrow> Inl ExitFailure
     | Some as \<Rightarrow> Inr \<lparr>out_accepts = as, out_bytes = []\<rparr>)"

text \<open>One round of filling the buffer: bytes \<open>k\<close> to \<open>k + n - 1\<close> of the file, and the checksum.\<close>

definition random_byte :: "int \<Rightarrow> byte" where
  "random_byte r = word_of_int (r smod (0x73 - 0x20) + 0x20)"

fun fill_buf :: "(nat \<Rightarrow> int) \<Rightarrow> nat \<Rightarrow> nat \<Rightarrow> int \<Rightarrow> byte list \<times> int" where
  "fill_buf rnd k 0 csum = ([], csum)"
| "fill_buf rnd k (Suc n) csum =
     (let b = random_byte (rnd k); (bs, csum) = fill_buf rnd (Suc k) n (u32 (csum + uint b)) in (b # bs, csum))"

function write_random :: "(nat \<Rightarrow> int) \<Rightarrow> int \<Rightarrow> int \<Rightarrow> int \<Rightarrow> outfile \<Rightarrow> (int \<times> outfile) result" where
  "write_random rnd file_sz remaining csum f =
     (if remaining > 0 then
        let sz = (if remaining < 4096 then remaining else 4096);
            (buf, csum) = fill_buf rnd (nat (file_sz - remaining)) (nat sz) csum
        in bindr (put buf f) (\<lambda>f. write_random rnd file_sz (remaining - sz) csum f)
      else Inr (csum, f))"
  by pat_completeness auto
termination
  by (relation "measure (\<lambda>(rnd, file_sz, remaining, csum, f). nat remaining)") auto

declare write_random.simps [simp del]

text \<open>\<open>%05d\<close> of a number that is not negative.\<close>

definition dec5 :: "int \<Rightarrow> byte list" where
  "dec5 n = replicate (5 - length (dec n)) 48 @ dec n"

text \<open>The \<open>i\<close>-th file: its name, its contents, and the line that it gets in the index.\<close>

definition write_file :: "generator \<Rightarrow> nat \<Rightarrow> outfile \<Rightarrow> (cstr \<times> byte list \<times> outfile) result" where
  "write_file G i fd_idx =
     bindr (fits 10 (lit ''/'' @ dec5 (int i))) (\<lambda>name.
     bindr (fits 1024 (dir G @ name)) (\<lambda>filename.
     let file_sz = rand_size G i in
     bindr (create_file G filename) (\<lambda>fd.
     bindr (write_random (rand_byte G i) file_sz file_sz 0 fd) (\<lambda>(csum, fd).
     bindr (fits 4096 (filename @ [32] @ dec csum @ [32] @ dec file_sz @ [10])) (\<lambda>buf_idx.
     bindr (put buf_idx fd_idx) (\<lambda>fd_idx.
     Inr (filename, out_bytes fd, fd_idx)))))))"

fun write_files :: "generator \<Rightarrow> nat \<Rightarrow> nat \<Rightarrow> (cstr \<rightharpoonup> byte list) \<Rightarrow> outfile \<Rightarrow> ((cstr \<rightharpoonup> byte list) \<times> outfile) result" where
  "write_files G i 0 disk fd_idx = Inr (disk, fd_idx)"
| "write_files G i (Suc n) disk fd_idx =
     bindr (write_file G i fd_idx) (\<lambda>(filename, bs, fd_idx).
     write_files G (Suc i) n (disk(filename \<mapsto> bs)) fd_idx)"

text \<open>The files that \<open>main\<close> leaves, and the index.\<close>

definition fileset_main :: "generator \<Rightarrow> ((cstr \<rightharpoonup> byte list) \<times> byte list) result" where
  "fileset_main G =
     (if mean_file_sz G \<le> 1 \<or> nr_files G < 1 \<or> nr_files G > 99999 \<or> length (dir G) > 1000 then Inl ExitFailure
      else if \<not> dir_ok G then Inl ExitFailure
      else
        bindr (fits 1024 (dir G @ lit ''.idx'')) (\<lambda>filename.
        bindr (create_file G filename) (\<lambda>fd_idx.
        bindr (put (dec (nr_files G) @ [10]) fd_idx) (\<lambda>fd_idx.
        bindr (write_files G 0 (nat (nr_files G)) Map.empty fd_idx) (\<lambda>(disk, fd_idx).
        Inr (disk, out_bytes fd_idx))))))"

section \<open>The client\<close>

record fileinfo =
  fi_name :: cstr
  fi_csum :: int
  fi_len :: int

text \<open>
  \<open>sscanf(buf, "%s %u %d", ...)\<close>: what is not converted stays as it is.  The name was allocated with room
  for the line.
\<close>

definition scan_fileinfo :: "nat \<Rightarrow> cstr \<Rightarrow> fileinfo \<Rightarrow> fileinfo result" where
  "scan_fileinfo room s fi =
     (let (w, r) = scan_word s in
      if w = [] then Inr fi
      else
        bindr (fits room w) (\<lambda>w.
        let fi = fi\<lparr>fi_name := w\<rparr>; (neg, ds, r') = scan_int r in
        if ds = [] then Inr fi
        else
          let fi = fi\<lparr>fi_csum := u32 (fst (strtoull10 r))\<rparr>; (neg, ds, r'') = scan_int r' in
          if ds = [] then Inr fi else Inr (fi\<lparr>fi_len := s32 (fst (strtoll10 r'))\<rparr>)))"

text \<open>\<open>junk\<close> is what the array of a fresh file set holds.\<close>

function init_fileset_loop ::
  "(nat \<Rightarrow> bool) \<Rightarrow> fileinfo \<Rightarrow> nat \<Rightarrow> rio \<Rightarrow> byte list \<Rightarrow> int \<Rightarrow> fileinfo list \<Rightarrow> (int \<times> fileinfo list) result" where
  "init_fileset_loop mok junk i rio buf nr fileset =
     bindr (Rio_readlineb rio buf MAXLINE) (\<lambda>(n, buf, rio).
     if n \<le> 0 then
       bindr (c_assert (nr > 0)) (\<lambda>_.
       bindr (c_assert (int i = nr)) (\<lambda>_. Inr (nr, fileset)))
     else
       bindr (arr_get buf (nat (n - 1))) (\<lambda>c.
       let room = nat (if c = 10 then n - 1 else n) + 1 in
       bindr (c_string buf) (\<lambda>line.
       if nr = 0 then
         let nr = s32 (fst (strtoll10 line)) in
         bindr (c_assert (nr > 0)) (\<lambda>_.
         if mok (16 * nat nr) then init_fileset_loop mok junk i rio buf nr (replicate (nat nr) junk) else Inl ExitFailure)
       else
         bindr (c_assert (int i < nr)) (\<lambda>_.
         if mok room then
           bindr (arr_get fileset i) (\<lambda>fi.
           bindr (scan_fileinfo room line fi) (\<lambda>fi.
           bindr (arr_set fileset i fi) (\<lambda>fileset.
           init_fileset_loop mok junk (Suc i) rio buf nr fileset)))
         else Inl ExitFailure))))"
  by pat_completeness auto
termination
  by (relation "measure (\<lambda>(mok, junk, i, rio, buf, nr, fileset). rio_left rio)") (auto dest: Rio_readlineb_left)

declare init_fileset_loop.simps [simp del]

definition init_fileset :: "(nat \<Rightarrow> bool) \<Rightarrow> fileinfo \<Rightarrow> byte list \<Rightarrow> delivery list option \<Rightarrow> (int \<times> fileinfo list) result" where
  "init_fileset mok junk buf fd = (case fd of None \<Rightarrow> Inl ExitFailure
     | Some fd \<Rightarrow> init_fileset_loop mok junk 0 (rio_init fd) buf 0 [])"

text \<open>
  One thread of the client.  Each round is given by the answer of \<open>rand_self_similar_int\<close>, the connection
  that is opened, what the server will send on it, and the contents of the array of \<open>client_print\<close>.
\<close>

fun client_request :: "cstr \<Rightarrow> fileinfo list \<Rightarrow> (int \<times> conn \<times> delivery list \<times> byte list) list \<Rightarrow> conn list result" where
  "client_request host fileset [] = Inr []"
| "client_request host fileset ((r, fd, down, buf) # rounds) =
     (let fnr = r - 1 in
      if fnr < 0 then Inl OutOfBounds
      else
        bindr (arr_get fileset (nat fnr)) (\<lambda>fi.
        bindr (client_send host (fi_name fi) fd) (\<lambda>fd.
        bindr (client_print buf down (fi_csum fi) (fi_len fi)) (\<lambda>_.
        bindr (client_request host fileset rounds) (\<lambda>fds.
        Inr (fd # fds))))))"

section \<open>What the generator writes\<close>

definition set_bytes :: "generator \<Rightarrow> nat \<Rightarrow> byte list" where
  "set_bytes G i = map (\<lambda>k. random_byte (rand_byte G i k)) [0..<nat (rand_size G i)]"

definition set_name :: "generator \<Rightarrow> nat \<Rightarrow> cstr" where
  "set_name G i = dir G @ lit ''/'' @ dec5 (int i)"

definition index_line :: "generator \<Rightarrow> nat \<Rightarrow> byte list" where
  "index_line G i = set_name G i @ 32 # dec_nat (nat (checksum (set_bytes G i))) @ 32 # dec_nat (length (set_bytes G i)) @ [10]"

definition index_text :: "generator \<Rightarrow> byte list" where
  "index_text G = dec_nat (nat (nr_files G)) @ [10] @ concat (map (index_line G) [0..<nat (nr_files G)])"

text \<open>Options in bounds, a directory and files that can be written, sizes that \<open>int\<close> holds, answers that \<open>random\<close> gives.\<close>

definition can_generate :: "generator \<Rightarrow> bool" where
  "can_generate G \<longleftrightarrow> 1 < mean_file_sz G \<and> 1 \<le> nr_files G \<and> nr_files G \<le> 99999 \<and> length (dir G) \<le> 1000 \<and> dir_ok G
     \<and> (\<forall>fn. \<exists>as. accepts G fn = Some as \<and> WriteFailed \<notin> set as)
     \<and> (\<forall>i < nat (nr_files G). 0 \<le> rand_size G i \<and> rand_size G i < 2 ^ 31 \<and> (\<forall>k. 0 \<le> rand_byte G i k))"

definition accepting :: "outfile \<Rightarrow> bool" where
  "accepting f \<longleftrightarrow> WriteFailed \<notin> set (out_accepts f)"

lemma put_spec:
  assumes "accepting f"
  obtains f' where "put bs f = Inr f'" "accepting f'" "out_bytes f' = out_bytes f @ bs"
proof -
  from assms have "WriteFailed \<notin> set (out_accepts f)" by (simp add: accepting_def)
  from Rio_write_spec [OF this, of bs] obtain as where "Rio_write (out_accepts f) bs = Inr (bs, as)" "WriteFailed \<notin> set as" .
  then show thesis by (intro that [of "f\<lparr>out_accepts := as, out_bytes := out_bytes f @ bs\<rparr>"]) (simp_all add: put_def accepting_def)
qed

lemma create_file_ok:
  assumes "can_generate G"
  obtains f where "create_file G fn = Inr f" "accepting f" "out_bytes f = []"
proof -
  from assms obtain as where "accepts G fn = Some as" "WriteFailed \<notin> set as" unfolding can_generate_def by blast
  then show thesis by (intro that [of "\<lparr>out_accepts = as, out_bytes = []\<rparr>"]) (simp_all add: create_file_def accepting_def)
qed

lemma random_byte_range:
  assumes "0 \<le> r"
  shows "32 \<le> uint (random_byte r) \<and> uint (random_byte r) < 115"
proof -
  have "r smod 83 = r mod 83" using assms by (cases "r = 0") (simp_all add: signed_modulo_int_def)
  then have "0 \<le> r smod 83 \<and> r smod 83 < 83" using pos_mod_bound [of 83 r] pos_mod_sign [of 83 r] by linarith
  moreover have "random_byte r = word_of_int (r smod 83 + 32)" by (simp add: random_byte_def)
  ultimately show ?thesis by (simp only: uint_word_of_int) simp
qed

lemma set_bytes_printable:
  assumes "can_generate G" "i < nat (nr_files G)" "b \<in> set (set_bytes G i)"
  shows "32 \<le> uint b \<and> uint b < 115" "b \<noteq> 10"
proof -
  have "\<forall>k. 0 \<le> rand_byte G i k" using assms(1,2) by (simp add: can_generate_def)
  then show r: "32 \<le> uint b \<and> uint b < 115" using assms(3) random_byte_range by (auto simp: set_bytes_def)
  then show "b \<noteq> 10" by auto
qed

lemma length_set_bytes [simp]: "length (set_bytes G i) = nat (rand_size G i)"
  by (simp add: set_bytes_def)

lemma fill_buf_spec: "fill_buf rnd k n csum = (let bs = map (\<lambda>k. random_byte (rnd k)) [k..<k + n] in
    (bs, foldl (\<lambda>csum b. u32 (csum + uint b)) csum bs))"
proof (induction rnd k n csum rule: fill_buf.induct)
  case (2 rnd k n csum)
  then show ?case by (simp add: Let_def upt_conv_Cons del: upt_Suc)
qed simp

lemma write_random_spec:
  assumes "accepting f" "0 \<le> remaining" "remaining \<le> file_sz"
  shows "\<exists>f'. write_random rnd file_sz remaining csum f
      = Inr (foldl (\<lambda>csum b. u32 (csum + uint b)) csum (map (\<lambda>k. random_byte (rnd k)) [nat (file_sz - remaining)..<nat file_sz]), f')
    \<and> accepting f' \<and> out_bytes f' = out_bytes f @ map (\<lambda>k. random_byte (rnd k)) [nat (file_sz - remaining)..<nat file_sz]"
  using assms
proof (induction "nat remaining" arbitrary: remaining csum f rule: less_induct)
  case less
  show ?case
  proof (cases "remaining > 0")
    case False
    with less.prems show ?thesis by (simp add: write_random.simps [of rnd])
  next
    case True
    define sz where "sz = (if remaining < 4096 then remaining else 4096)"
    let ?k = "nat (file_sz - remaining)"
    define bs where "bs = map (\<lambda>k. random_byte (rnd k)) [?k..<?k + nat sz]"
    have sz: "0 < sz" "sz \<le> remaining" using True by (simp_all add: sz_def)
    have e: "?k + nat sz = nat (file_sz - (remaining - sz))" using sz less.prems by simp
    have "[a..<c] = [a..<b] @ [b..<c]" if "a \<le> b" "b \<le> c" for a b c :: nat
      using upt_add_eq_append [OF that(1), of "c - b"] that(2) by simp
    from this [of ?k "?k + nat sz" "nat file_sz", unfolded e]
    have sp: "[?k..<nat file_sz] = [?k..<?k + nat sz] @ [nat (file_sz - (remaining - sz))..<nat file_sz]"
      unfolding e using sz less.prems by simp
    obtain f1 where f1: "put bs f = Inr f1" "accepting f1" "out_bytes f1 = out_bytes f @ bs"
      by (rule put_spec [OF less.prems(1)])
    have "nat (remaining - sz) < nat remaining" "0 \<le> remaining - sz" "remaining - sz \<le> file_sz" using sz less.prems by simp_all
    from less.hyps [OF this(1) f1(2) this(2,3), of "foldl (\<lambda>csum b. u32 (csum + uint b)) csum bs"] f1(1,3) True
    show ?thesis unfolding sp by (simp add: write_random.simps [of rnd file_sz remaining] fill_buf_spec Let_def flip: sz_def bs_def)
  qed
qed

section \<open>Names and numbers of five digits\<close>

lemma dec5_nat: "dec5 (int i) = replicate (5 - length (dec_nat i)) 48 @ dec_nat i"
  by (simp add: dec5_def dec_def)

lemma dec5_digits: "b \<in> set (dec5 (int i)) \<Longrightarrow> is_digit b"
  using dec_nat_digits by (auto simp: dec5_nat is_digit_def)

lemma dec5_inj: "dec5 (int i) = dec5 (int j) \<Longrightarrow> i = j"
proof -
  have "digits_val (replicate k 48 @ ds) = digits_val ds" for k ds by (induction k) (simp_all add: digits_val_def)
  then have "digits_val (dec5 (int n)) = int n" for n by (simp add: dec5_nat digits_val_dec_nat)
  then show "dec5 (int i) = dec5 (int j) \<Longrightarrow> i = j" by (metis of_nat_eq_iff)
qed

lemma length_dec5: "i < 100000 \<Longrightarrow> length (dec5 (int i)) = 5"
  using length_dec_nat [of i 4] by (simp add: dec5_nat)

lemma set_name_inj: "set_name G i = set_name G j \<longleftrightarrow> i = j"
  using dec5_inj by (auto simp: set_name_def)

section \<open>The whole run\<close>

lemma write_file_spec:
  assumes G: "can_generate G" and i: "i < nat (nr_files G)" and f: "accepting f"
  obtains f' where "write_file G i f = Inr (set_name G i, set_bytes G i, f')" "accepting f'" "out_bytes f' = out_bytes f @ index_line G i"
proof -
  from G i have b: "i < 100000" "length (dir G) \<le> 1000" "0 \<le> rand_size G i" "rand_size G i < 2 ^ 31"
    by (auto simp: can_generate_def)
  then have nm: "fits 10 (lit ''/'' @ dec5 (int i)) = Inr (lit ''/'' @ dec5 (int i))"
    "fits 1024 (dir G @ lit ''/'' @ dec5 (int i)) = Inr (set_name G i)"
    by (simp_all add: fits_def length_dec5 set_name_def lit_def)
  obtain fd where fd: "create_file G (set_name G i) = Inr fd" "accepting fd" "out_bytes fd = []" by (rule create_file_ok [OF G])
  from write_random_spec [OF fd(2), of "rand_size G i" "rand_size G i" "rand_byte G i" 0] b fd(3) obtain fd' where
    w: "write_random (rand_byte G i) (rand_size G i) (rand_size G i) 0 fd = Inr (checksum (set_bytes G i), fd')" "out_bytes fd' = set_bytes G i"
    by (auto simp: checksum_def set_bytes_def)
  let ?m = "nat (checksum (set_bytes G i))" and ?n = "length (set_bytes G i)"
  have mn: "?m < 2 ^ 32" "?n < 2 ^ 32" using checksum_range [of "set_bytes G i"] b by simp_all
  have d: "dec (checksum (set_bytes G i)) = dec_nat ?m" "dec (rand_size G i) = dec_nat ?n"
    using checksum_range(1) b(3) by (simp_all add: dec_nonneg)
  have l: "set_name G i @ [32] @ dec (checksum (set_bytes G i)) @ [32] @ dec (rand_size G i) @ [10] = index_line G i"
    by (simp add: index_line_def d)
  have "length (index_line G i) < 4096"
    using dec_line(3) [OF mn(1)] dec_line(3) [OF mn(2)] b(1,2) by (simp add: index_line_def set_name_def length_dec5 lit_def)
  then have ft: "fits 4096 (index_line G i) = Inr (index_line G i)" by (simp add: fits_def)
  obtain f' where "put (index_line G i) f = Inr f'" "accepting f'" "out_bytes f' = out_bytes f @ index_line G i"
    by (rule put_spec [OF f])
  with nm fd(1) w ft show thesis by (intro that [of f']) (simp_all add: write_file_def l [unfolded append.simps])
qed

lemma write_files_spec:
  assumes "can_generate G" "i + n \<le> nat (nr_files G)" "accepting f"
  shows "\<exists>f' d'. write_files G i n d f = Inr (d', f') \<and> out_bytes f' = out_bytes f @ concat (map (index_line G) [i..<i + n])
    \<and> (\<forall>j. d' (set_name G j) = (if i \<le> j \<and> j < i + n then Some (set_bytes G j) else d (set_name G j)))"
  using assms(2,3)
proof (induction n arbitrary: i d f)
  case (Suc n)
  then have "i < nat (nr_files G)" by simp
  from write_file_spec [OF assms(1) this Suc.prems(2)] obtain f1 where
    f1: "write_file G i f = Inr (set_name G i, set_bytes G i, f1)" "accepting f1" "out_bytes f1 = out_bytes f @ index_line G i" .
  have "Suc i + n \<le> nat (nr_files G)" using Suc.prems(1) by simp
  from Suc.IH [OF this f1(2), of "d(set_name G i \<mapsto> set_bytes G i)"] obtain f' d' where
    "write_files G (Suc i) n (d(set_name G i \<mapsto> set_bytes G i)) f1 = Inr (d', f')"
    "out_bytes f' = out_bytes f1 @ concat (map (index_line G) [Suc i..<Suc i + n])"
    "\<forall>j. d' (set_name G j) = (if Suc i \<le> j \<and> j < Suc i + n then Some (set_bytes G j) else (d(set_name G i \<mapsto> set_bytes G i)) (set_name G j))"
    by blast
  with f1 show ?case by (auto simp: upt_conv_Cons set_name_inj simp del: upt_Suc)
qed auto

lemma fileset_main_spec:
  assumes "can_generate G"
  shows "\<exists>disk. fileset_main G = Inr (disk, index_text G) \<and> (\<forall>i < nat (nr_files G). disk (set_name G i) = Some (set_bytes G i))"
proof -
  have b: "\<not> (mean_file_sz G \<le> 1 \<or> nr_files G < 1 \<or> nr_files G > 99999 \<or> length (dir G) > 1000)" "dir_ok G"
    using assms by (auto simp: can_generate_def)
  let ?fn = "dir G @ lit ''.idx''"
  have ft: "fits 1024 ?fn = Inr ?fn" using b by (simp add: fits_def lit_def)
  obtain f where f: "create_file G ?fn = Inr f" "accepting f" "out_bytes f = []" by (rule create_file_ok [OF assms])
  obtain f1 where f1: "put (dec (nr_files G) @ [10]) f = Inr f1" "accepting f1" "out_bytes f1 = out_bytes f @ dec (nr_files G) @ [10]"
    by (rule put_spec [OF f(2)])
  have "0 + nat (nr_files G) \<le> nat (nr_files G)" by simp
  from write_files_spec [OF assms this f1(2), of Map.empty] show ?thesis
    using b ft f f1 by (auto simp: fileset_main_def index_text_def dec_nonneg)
qed

section \<open>The client reads the index\<close>

lemma read_lf_line:
  assumes rp: "rio_ok rp" "rio_stream rp = h @ 10 # rest" and h: "10 \<notin> set h" "0 \<notin> set h" "length h + 1 < MAXLINE"
    and buf: "length buf = MAXLINE"
  obtains rp' where "Rio_readlineb rp buf MAXLINE = Inr (int (length h + 1), h @ 10 # 0 # drop (length h + 2) buf, rp')"
    "rio_ok rp'" "rio_stream rp' = rest"
proof -
  have "10 \<notin> set h \<Longrightarrow> length h < n \<Longrightarrow> next_line n (h @ 10 # rest) = h @ [10]" for h n
    by (induction h arbitrary: n) (case_tac n; simp)+
  from this [of h MAXLINE] have l: "next_line MAXLINE (rio_stream rp) = h @ [10]" using h rp(2) by simp
  have ne: "rio_stream rp \<noteq> []" and short: "0 + length (h @ [10]) < length buf" using rp(2) h buf by simp_all
  have "0 \<le> MAXLINE" "MAXLINE \<le> length buf" using buf by simp_all
  from readlineb_loop_spec [OF rp(1) this disjI1 [OF ne], unfolded diff_zero l Let_def if_P [OF short]] obtain rp' where
    "rio_readlineb rp buf MAXLINE = Inr (int (length h + 1), (h @ [10]) @ 0 # drop (length h + 2) buf, rp')"
    "rio_ok rp'" "rio_stream rp' = rest"
    by (auto simp: rio_readlineb_def rp(2) numeral_2_eq_2)
  then show thesis by (intro that [of rp']) (simp_all add: Rio_readlineb_def)
qed

lemma strtoll10_dec_nat: "int n < 2 ^ 31 \<Longrightarrow> s32 (fst (strtoll10 (dec_nat n @ [10]))) = int n"
proof -
  assume n: "int n < 2 ^ 31"
  have "[10 :: byte] = [] \<or> \<not> is_digit (hd [10])" by (simp add: is_digit_def)
  from scan_int_dec_nat [OF this, of n] have "scan_int (dec_nat n @ [10]) = (False, dec_nat n, [10])"
    using dec_nat_nonempty [of n, symmetric] by (auto simp: scan_int_def is_blank_def [of 32] Let_def split: prod.splits if_splits)
  with n show ?thesis by (simp add: strtoll10_def digits_val_dec_nat s32_id)
qed

lemma scan_fileinfo_line:
  assumes "plain w" "w \<noteq> []" "length w < room" "int c < 2 ^ 32" "int n < 2 ^ 31"
  shows "scan_fileinfo room (w @ 32 # dec_nat c @ 32 # dec_nat n @ [10]) fi = Inr \<lparr>fi_name = w, fi_csum = int c, fi_len = int n\<rparr>"
proof -
  let ?r = "32 # dec_nat c @ 32 # dec_nat n @ [10]" and ?r' = "32 # dec_nat n @ [10]"
  have "scan_word ([] @ w @ ?r) = (w, ?r)"
    by (rule scan_word_at) (use assms(1,2) in \<open>auto simp: plain_def is_blank_def [of 32]\<close>)
  moreover have "scan_int ?r = (False, dec_nat c, ?r')" by (rule scan_int_dec_nat) (simp add: is_digit_def)
  moreover have "scan_int ?r' = (False, dec_nat n, [10])" by (rule scan_int_dec_nat) (simp add: is_digit_def)
  ultimately show ?thesis using assms(2-5)
    by (simp add: scan_fileinfo_def fits_def strtoull10_def strtoll10_def digits_val_dec_nat u32_id s32_id)
qed

definition info_of :: "generator \<Rightarrow> nat \<Rightarrow> fileinfo" where
  "info_of G i = \<lparr>fi_name = set_name G i, fi_csum = checksum (set_bytes G i), fi_len = rand_size G i\<rparr>"

lemma index_line_facts:
  assumes G: "can_generate G" and i: "i < nat (nr_files G)" and d: "plain (dir G)"
  obtains h where "index_line G i = h @ [10]" "10 \<notin> set h" "0 \<notin> set h" "length h + 1 < MAXLINE"
    "\<forall>fi. scan_fileinfo (length h + 1) (h @ [10]) fi = Inr (info_of G i)"
proof -
  let ?m = "nat (checksum (set_bytes G i))" and ?n = "length (set_bytes G i)"
  let ?h = "set_name G i @ 32 # dec_nat ?m @ 32 # dec_nat ?n"
  have b: "i < 100000" "length (dir G) \<le> 1000" "0 \<le> rand_size G i" "rand_size G i < 2 ^ 31"
    using G i by (auto simp: can_generate_def)
  then have mn: "?m < 2 ^ 32" "?n < 2 ^ 32" "int ?n < 2 ^ 31" using checksum_range [of "set_bytes G i"] by simp_all
  have "plain (dec5 (int i))" unfolding plain_def using dec5_digits digit_not_blank digit_range by blast
  then have p: "plain (set_name G i)" "set_name G i \<noteq> []" using d by (auto simp: plain_def set_name_def lit_def is_blank_def [of 47])
  have np: "10 \<notin> set (set_name G i)" "0 \<notin> set (set_name G i)" using p(1) by (auto simp: plain_def is_blank_def)
  show thesis
  proof (rule that [of ?h])
    show "index_line G i = ?h @ [10]" by (simp add: index_line_def)
    show "10 \<notin> set ?h" "0 \<notin> set ?h" using np dec_line(1,2) [OF mn(1)] dec_line(1,2) [OF mn(2)] by auto
    show "length ?h + 1 < MAXLINE"
      using dec_line(3) [OF mn(1)] dec_line(3) [OF mn(2)] b(1,2) by (simp add: set_name_def length_dec5 lit_def)
    have "scan_fileinfo (length ?h + 1) (set_name G i @ 32 # dec_nat ?m @ 32 # dec_nat ?n @ [10]) fi
        = Inr \<lparr>fi_name = set_name G i, fi_csum = int ?m, fi_len = int ?n\<rparr>" for fi
      using p mn checksum_range [of "set_bytes G i"] by (intro scan_fileinfo_line) simp_all
    then show "\<forall>fi. scan_fileinfo (length ?h + 1) (?h @ [10]) fi = Inr (info_of G i)"
      using checksum_range(1) b(3) by (simp add: info_of_def)
  qed
qed

lemma init_loop_spec:
  assumes G: "can_generate G" and d: "plain (dir G)"
    and "i + n = nat (nr_files G)" "rio_ok rio" "rio_stream rio = concat (map (index_line G) [i..<i + n])"
    and "length buf = MAXLINE" "length zs = n" "nr_files G = int (i + n)"
  shows "init_fileset_loop (\<lambda>_. True) junk i rio buf (int (i + n)) (map (info_of G) [0..<i] @ zs)
    = Inr (int (i + n), map (info_of G) [0..<i + n])"
  using assms(3-)
proof (induction n arbitrary: i rio buf zs)
  case 0
  then have "0 < MAXLINE" "rio_stream rio = []" "0 < int i" using G by (simp_all add: can_generate_def)
  from readlineb_eof [OF "0.prems"(2) this(2,1), of buf] obtain rp' where "rio_readlineb rio buf MAXLINE = Inr (0, buf, rp')" by blast
  with 0 \<open>0 < int i\<close> show ?case by (simp add: init_fileset_loop.simps [of "\<lambda>_. True" junk i] Rio_readlineb_def)
next
  case (Suc n)
  then have i: "i < nat (nr_files G)" by simp
  from index_line_facts [OF G i d] obtain h where h: "index_line G i = h @ [10]" "10 \<notin> set h" "0 \<notin> set h" "length h + 1 < MAXLINE"
    "\<forall>fi. scan_fileinfo (length h + 1) (h @ [10]) fi = Inr (info_of G i)" .
  have "rio_stream rio = h @ 10 # concat (map (index_line G) [Suc i..<Suc i + n])"
    using Suc.prems(3) h(1) by (simp add: upt_conv_Cons del: upt_Suc)
  from read_lf_line [OF Suc.prems(2) this h(2-4) Suc.prems(4)] obtain rp' where
    r: "Rio_readlineb rio buf MAXLINE = Inr (int (length h + 1), h @ 10 # 0 # drop (length h + 2) buf, rp')"
    "rio_ok rp'" "rio_stream rp' = concat (map (index_line G) [Suc i..<Suc i + n])" .
  let ?buf = "h @ 10 # 0 # drop (length h + 2) buf"
  obtain t0 zs' where zs: "zs = t0 # zs'" "length zs' = n" using Suc.prems(5) by (cases zs) auto
  have "c_string (h @ 10 # 0 # drop (length h + 2) buf) = Inr (h @ [10])"
    using c_string_line [of "h @ [10]" "drop (length h + 2) buf"] h(3) by simp
  moreover have "length ?buf = MAXLINE" using h(4) Suc.prems(4) by simp
  moreover have "Suc i + n = nat (nr_files G)" "nr_files G = int (Suc i + n)" using Suc.prems(1,6) by simp_all
  moreover from Suc.IH [OF this(1) r(2,3) \<open>length ?buf = MAXLINE\<close> zs(2) this(2)]
  have "init_fileset_loop (\<lambda>_. True) junk (Suc i) rp' ?buf (int (Suc i + n)) (map (info_of G) [0..<i] @ info_of G i # zs')
      = Inr (int (Suc i + n), map (info_of G) [0..<Suc i + n])" by simp
  ultimately show ?case using r(1) h(5) zs
    by (simp add: init_fileset_loop.simps [of "\<lambda>_. True" junk i rio] arr_get_def arr_set_def nth_append list_update_append add.commute del: upt_Suc)
qed

lemma init_fileset_spec:
  assumes G: "can_generate G" "plain (dir G)" and fd: "reliable fd" "inflow fd = index_text G" and "length buf = MAXLINE"
  shows "init_fileset (\<lambda>_. True) junk buf (Some fd) = Inr (nr_files G, map (info_of G) [0..<nat (nr_files G)])"
proof -
  let ?n = "nat (nr_files G)"
  have n: "0 < nr_files G" "int ?n = nr_files G" "int ?n < 2 ^ 31" "?n < 2 ^ 32"
  proof -
    have "1 \<le> nr_files G" "nr_files G \<le> 99999" using G(1) by (simp_all add: can_generate_def)
    then show "0 < nr_files G" "int ?n = nr_files G" "int ?n < 2 ^ 31" "?n < 2 ^ 32" by simp_all
  qed
  note r0 = rio_init_ok [OF fd(1)]
  have s: "rio_stream (rio_init fd) = dec_nat ?n @ 10 # concat (map (index_line G) [0..<0 + ?n])"
    using r0 fd(2) by (simp add: index_text_def)
  have "length (dec_nat ?n) + 1 < MAXLINE" using dec_line(3) [OF n(4)] by simp
  from read_lf_line [OF conjunct1 [OF r0] s dec_line(2,1) [OF n(4)] this assms(5)] obtain rp where
    r: "Rio_readlineb (rio_init fd) buf MAXLINE = Inr (int (length (dec_nat ?n) + 1), dec_nat ?n @ 10 # 0 # drop (length (dec_nat ?n) + 2) buf, rp)"
    "rio_ok rp" "rio_stream rp = concat (map (index_line G) [0..<0 + ?n])" .
  let ?buf = "dec_nat ?n @ 10 # 0 # drop (length (dec_nat ?n) + 2) buf"
  have "c_string ?buf = Inr (dec_nat ?n @ [10])"
    using c_string_line [of "dec_nat ?n @ [10]"] dec_line(1) [OF n(4)] by simp
  moreover have len: "length ?buf = MAXLINE" using dec_line(3) [OF n(4)] assms(5) by simp
  have "0 + ?n = ?n" "nr_files G = int (0 + ?n)" "length (replicate ?n junk) = ?n" using n(2) by simp_all
  from init_loop_spec [OF G this(1) r(2,3) len this(3,2), of junk]
  have "init_fileset_loop (\<lambda>_. True) junk 0 rp ?buf (nr_files G) (replicate ?n junk) = Inr (nr_files G, map (info_of G) [0..<?n])"
    using n(2) by simp
  ultimately show ?thesis using r(1) n strtoll10_dec_nat [OF n(3)]
    by (simp add: Let_def init_fileset_def init_fileset_loop.simps [of "\<lambda>_. True" junk 0 "rio_init fd"] arr_get_def)
qed

section \<open>The server answers\<close>

text \<open>The files of these names are there for the server, with memory enough.\<close>

definition serves_disk :: "env \<Rightarrow> (cstr \<rightharpoonup> byte list) \<Rightarrow> cstr set \<Rightarrow> bool" where
  "serves_disk E disk names \<longleftrightarrow> (\<forall>fn \<in> names. \<exists>bs st. disk fn = Some bs \<and> fsys E (path fn) = Some st \<and> served_file st bs)
     \<and> (\<forall>n. mal E n) \<and> length (stack_buf E) = MAXLINE \<and> length (stack_hbuf E) = MAXLINE"

text \<open>What the client sends for \<open>fn\<close> reaches a server without a cache, whose answer is \<open>down\<close>.\<close>

definition answered :: "env \<Rightarrow> cstr \<Rightarrow> cstr \<Rightarrow> conn \<Rightarrow> delivery list \<Rightarrow> bool" where
  "answered E host fn k down \<longleftrightarrow> WriteFailed \<notin> set (acceptances k) \<and> to_peer k = [] \<and> reliable down
     \<and> (\<exists>k' fd fd' others c c'. client_send host fn k = Inr k' \<and> reliable (from_peer fd) \<and> inflow (from_peer fd) = to_peer k'
         \<and> WriteFailed \<notin> set (acceptances fd) \<and> to_peer fd = []
         \<and> do_server_request E 0 others fd c = Inr (fd', c') \<and> inflow down = to_peer fd')"

definition host_ok :: "cstr \<Rightarrow> bool" where
  "host_ok host \<longleftrightarrow> 0 \<notin> set host \<and> 10 \<notin> set host \<and> length host < 6000"

lemma allowed_path:
  assumes "46 \<notin> set fn"
  shows "allowed_name (path fn)"
proof -
  have p: "path fn = 46 # 47 # fn" by (simp add: path_def lit_def)
  have "take 2 (drop i (46 # 47 # fn)) \<noteq> [46, 46]" for i
  proof
    assume t: "take 2 (drop i (46 # 47 # fn)) = [46, 46]"
    show False
    proof (cases i)
      case (Suc j)
      then have "46 \<notin> set (take 2 (drop i (46 # 47 # fn)))"
        using assms by (auto dest!: in_set_takeD in_set_dropD)
      with t show False by simp
    qed (use t in simp)
  qed
  then have "\<not> strstr (path fn) (lit ''..'')" by (simp add: strstr_def lit_def p list_ex_iff numeral_2_eq_2 del: upt_Suc)
  moreover have "\<forall>b \<in> set (rev fn @ [47]). b \<noteq> 46" using assms by auto
  then have "takeWhile (\<lambda>b. b \<noteq> 46) ((rev fn @ [47]) @ [46]) = rev fn @ [47]" by (subst takeWhile_append2) auto
  then have "strrchr (path fn) 46 = Some (46 # 47 # fn)" by (simp add: strrchr_def p)
  ultimately show ?thesis by (simp add: allowed_name_def lit_def p)
qed

lemma set_name_plain:
  assumes "can_generate G" "i < nat (nr_files G)" "plain (dir G)" "46 \<notin> set (dir G)"
  shows "plain (set_name G i)" "set_name G i \<noteq> []" "46 \<notin> set (set_name G i)" "length (set_name G i) < 1007"
proof -
  have d: "i < 100000" "length (dir G) \<le> 1000" using assms by (auto simp: can_generate_def)
  have "\<not> is_digit 46" by (simp add: is_digit_def)
  then have "\<forall>b \<in> set (dec5 (int i)). \<not> is_blank b \<and> b \<noteq> 0 \<and> b \<noteq> 46"
    using dec5_digits digit_not_blank digit_range by blast
  then show "plain (set_name G i)" "46 \<notin> set (set_name G i)"
    using assms(3,4) by (auto simp: plain_def set_name_def lit_def is_blank_def [of 47])
  show "set_name G i \<noteq> []" "length (set_name G i) < 1007" using d by (simp_all add: set_name_def lit_def length_dec5)
qed

lemma round_result:
  assumes G: "can_generate G" "plain (dir G)" "46 \<notin> set (dir G)" and i: "i < nat (nr_files G)"
    and disk: "serves_disk E disk names" "set_name G i \<in> names" "disk (set_name G i) = Some (set_bytes G i)" and host: "host_ok host"
    and a: "answered E host (set_name G i) k down" and buf: "length buf = MAXBUF"
  shows "\<exists>k'. client_send host (set_name G i) k = Inr k'"
    "client_print buf down (fi_csum (info_of G i)) (fi_len (info_of G i)) = (if rand_size G i < int MAXBUF then Inr () else Inl OutOfBounds)"
proof -
  let ?fn = "set_name G i" and ?bs = "set_bytes G i"
  note nm = set_name_plain [OF G(1) i G(2,3)]
  from a obtain k' fd fd' others c c' where
    k: "WriteFailed \<notin> set (acceptances k)" "to_peer k = []" "client_send host ?fn k = Inr k'"
    and fd: "reliable (from_peer fd)" "inflow (from_peer fd) = to_peer k'" "WriteFailed \<notin> set (acceptances fd)" "to_peer fd = []"
    and srv: "do_server_request E 0 others fd c = Inr (fd', c')" "reliable down" "inflow down = to_peer fd'"
    unfolding answered_def by blast
  have len: "length ?fn + length host < 8000" using nm(4) host by (simp add: host_ok_def)
  from client_send_spec [OF k(1) this] obtain as where
    "client_send host ?fn k = Inr (k\<lparr>acceptances := as, to_peer := to_peer k @ request_text host ?fn\<rparr>)" by blast
  with k(2,3) have "to_peer k' = request_text host ?fn" by auto
  with fd nm host len disk(1) have ask: "asks_for E fd host ?fn" by (simp add: asks_for_def host_ok_def serves_disk_def)
  from disk(1,2) obtain bs st where "disk ?fn = Some bs" "fsys E (path ?fn) = Some st" "served_file st bs" "mal E (length ?bs)"
    unfolding serves_disk_def by blast
  with disk(3) have st: "fsys E (path ?fn) = Some st" "served_file st ?bs" "mal E (length ?bs)" by simp_all
  have "(0 :: int) < 0 \<Longrightarrow> P" for P by simp
  from uncached_page [of E fd host ?fn st ?bs 0 c "[]" others "[]", OF ask allowed_path [OF nm(3)] st this]
  obtain fd1 c1 where "do_server_request E 0 others fd c = Inr (fd1, c1)" "to_peer fd1 = to_peer fd @ response_text (path ?fn) ?bs" by blast
  with srv(1,3) fd(4) have resp: "inflow down = response_text (path ?fn) ?bs" by simp
  have sz: "0 \<le> rand_size G i" "length ?bs < 2 ^ 31" "10 \<notin> set ?bs"
    using G(1) i set_bytes_printable(2) [OF G(1) i] by (auto simp: can_generate_def)
  show "\<exists>k'. client_send host ?fn k = Inr k'" using k(3) by blast
  show "client_print buf down (fi_csum (info_of G i)) (fi_len (info_of G i)) = (if rand_size G i < int MAXBUF then Inr () else Inl OutOfBounds)"
  proof (cases "rand_size G i < int MAXBUF")
    case True
    have "length (next_line MAXBUF (drop j ?bs)) < MAXBUF" for j
      using next_line_length(2) [of MAXBUF "drop j ?bs"] True sz(1) by simp
    then have "lines_fit MAXBUF ?bs" by (simp add: lines_fit_def)
    from client_print_spec [OF srv(2) resp this sz(2) buf] sz(1) True show ?thesis by (simp add: info_of_def)
  next
    case False
    with client_print_overflow [OF srv(2) resp sz(3) _ sz(2) buf] show ?thesis by simp
  qed
qed

definition all_of :: "byte list \<Rightarrow> delivery list" where
  "all_of bs = (if bs = [] then [] else [Delivered bs])"

lemma all_of_ok: "reliable (all_of bs) \<and> inflow (all_of bs) = bs"
  by (simp add: all_of_def)

lemma answer_exists:
  assumes G: "can_generate G" "plain (dir G)" "46 \<notin> set (dir G)" and i: "i < nat (nr_files G)"
    and disk: "serves_disk E disk names" "set_name G i \<in> names" and host: "host_ok host"
  shows "\<exists>down. answered E host (set_name G i) \<lparr>from_peer = [], acceptances = [], to_peer = [], is_open = True\<rparr> down"
proof -
  let ?fn = "set_name G i" and ?k = "\<lparr>from_peer = [], acceptances = [], to_peer = [], is_open = True\<rparr>"
  let ?fd = "example_conn (request_text host (set_name G i))"
  note nm = set_name_plain [OF G(1) i G(2,3)]
  have len: "length ?fn + length host < 8000" using nm(4) host by (simp add: host_ok_def)
  have kw: "WriteFailed \<notin> set (acceptances ?k)" by simp
  from client_send_spec [OF kw len] obtain as where
    "client_send host ?fn ?k = Inr (?k\<lparr>acceptances := as, to_peer := to_peer ?k @ request_text host ?fn\<rparr>)" by blast
  then obtain k' where k: "client_send host ?fn ?k = Inr k'" "to_peer k' = request_text host ?fn" by simp
  have fd: "reliable (from_peer ?fd)" "inflow (from_peer ?fd) = request_text host ?fn" "WriteFailed \<notin> set (acceptances ?fd)" "to_peer ?fd = []"
    by (simp_all add: example_conn_def request_text_def crnl_def)
  have conn: "inflow (from_peer ?fd) = to_peer k'" and kn: "to_peer ?k = []" using fd(2) k(2) by simp_all
  have ask: "asks_for E ?fd host ?fn" using fd nm host len disk(1) by (simp add: asks_for_def host_ok_def serves_disk_def)
  from disk obtain bs st where st: "fsys E (path ?fn) = Some st" "served_file st bs" "mal E (length bs)"
    unfolding serves_disk_def by blast
  have "(0 :: int) < 0 \<Longrightarrow> P" for P by simp
  from uncached_page [of E ?fd host ?fn st bs 0 c "[]" id "[]" for c, OF ask allowed_path [OF nm(3)] st this]
  obtain fd' c' c where "do_server_request E 0 id ?fd c = Inr (fd', c')" by blast
  then have "answered E host ?fn ?k (all_of (to_peer fd'))"
    unfolding answered_def using kw kn k(1) fd(1) conn fd(3,4) all_of_ok [of "to_peer fd'"] by blast
  then show ?thesis by blast
qed

section \<open>Properties\<close>

text \<open>
  C6: The index round trip.  If the files can be written, \<open>main\<close> of \<open>fileset.c\<close> succeeds, and \<open>init_fileset\<close> reads
  from its index, in whatever pieces it is delivered, exactly the files that were written: their number, different
  names, the checksum and the length of what each file holds; a file holds printable bytes only.
\<close>

theorem fileset_roundtrip:
  assumes "can_generate G" "plain (dir G)"
  shows "\<exists>disk idx. fileset_main G = Inr (disk, idx)
    \<and> (\<forall>fd buf mok junk. reliable fd \<and> inflow fd = idx \<and> length buf = MAXLINE \<and> (\<forall>n. mok n) \<longrightarrow>
        (\<exists>fileset. init_fileset mok junk buf (Some fd) = Inr (nr_files G, fileset)
          \<and> int (length fileset) = nr_files G \<and> distinct (map fi_name fileset)
          \<and> (\<forall>fi \<in> set fileset. \<exists>bs. disk (fi_name fi) = Some bs \<and> fi_csum fi = checksum bs \<and> fi_len fi = int (length bs)
               \<and> (\<forall>b \<in> set bs. 32 \<le> uint b \<and> uint b < 115))))"
proof -
  obtain disk where disk: "fileset_main G = Inr (disk, index_text G)" "\<forall>i < nat (nr_files G). disk (set_name G i) = Some (set_bytes G i)"
    using fileset_main_spec [OF assms(1)] by blast
  let ?fs = "map (info_of G) [0..<nat (nr_files G)]"
  have "0 \<le> rand_size G i" if "i < nat (nr_files G)" for i using assms(1) that by (simp add: can_generate_def)
  then have "\<forall>fi \<in> set ?fs. \<exists>bs. disk (fi_name fi) = Some bs \<and> fi_csum fi = checksum bs \<and> fi_len fi = int (length bs)
      \<and> (\<forall>b \<in> set bs. 32 \<le> uint b \<and> uint b < 115)"
    using disk(2) set_bytes_printable(1) [OF assms(1)] by (auto simp: info_of_def)
  moreover have "distinct (map fi_name ?fs)" by (simp add: distinct_map inj_on_def info_of_def set_name_inj)
  moreover have "int (length ?fs) = nr_files G" using assms(1) by (simp add: can_generate_def)
  moreover have "init_fileset mok junk buf (Some fd) = Inr (nr_files G, ?fs)"
    if "reliable fd \<and> inflow fd = index_text G \<and> length buf = MAXLINE \<and> (\<forall>n. mok n)" for fd buf mok junk
  proof -
    have "mok = (\<lambda>_. True)" using that by auto
    then show ?thesis using that by (auto intro: init_fileset_spec [OF assms])
  qed
  ultimately show ?thesis using disk(1) by blast
qed

text \<open>
  C5: A client on a generated file set.  A thread of the client that requests files of the set, each
  request answered by a server that has these files, passes every check if all the files it draws are shorter
  than its buffer of 8192 bytes.  A longer file has no newline, so it fills the buffer and the terminating zero is
  written past it.
\<close>

theorem fileset_requests:
  assumes "can_generate G" "plain (dir G)" "46 \<notin> set (dir G)" "fileset_main G = Inr (disk, idx)"
    and "reliable ix" "inflow ix = idx" "length ibuf = MAXLINE" "init_fileset (\<lambda>_. True) junk ibuf (Some ix) = Inr (nr, fileset)"
    and "serves_disk E disk (fi_name ` set fileset)" "host_ok host"
    and "\<forall>(r, k, down, buf) \<in> set rounds. 1 \<le> r \<and> r \<le> nr \<and> answered E host (fi_name (fileset ! nat (r - 1))) k down
      \<and> length buf = MAXBUF"
  shows "if \<forall>(r, k, down, buf) \<in> set rounds. fi_len (fileset ! nat (r - 1)) < int MAXBUF
    then \<exists>ks. client_request host fileset rounds = Inr ks \<and> length ks = length rounds
    else client_request host fileset rounds = Inl OutOfBounds"
proof -
  from fileset_main_spec [OF assms(1)] assms(4) have idx: "idx = index_text G"
    and disk: "\<forall>i < nat (nr_files G). disk (set_name G i) = Some (set_bytes G i)" by auto
  from init_fileset_spec [OF assms(1,2,5) _ assms(7), of junk] assms(6,8) idx
  have fs: "nr = nr_files G" "fileset = map (info_of G) [0..<nat (nr_files G)]" by auto
  show ?thesis using assms(11)
  proof (induction rounds)
    case (Cons round rounds)
    obtain r k down buf where round: "round = (r, k, down, buf)" by (cases round) auto
    define i where "i = nat (r - 1)"
    from Cons.prems have r: "1 \<le> r" "r \<le> nr_files G" "answered E host (fi_name (fileset ! i)) k down" "length buf = MAXBUF"
      by (auto simp: round fs(1) i_def)
    then have i: "i < nat (nr_files G)" by (simp add: i_def)
    have at: "fileset ! i = info_of G i" "fi_name (info_of G i) = set_name G i" "fi_len (info_of G i) = rand_size G i"
      "arr_get fileset i = Inr (info_of G i)" using i by (simp_all add: fs(2) info_of_def arr_get_def)
    from disk i fs(2) have "disk (set_name G i) = Some (set_bytes G i)" "set_name G i \<in> fi_name ` set fileset"
      by (auto simp: info_of_def image_image)
    note res = round_result [OF assms(1-3) i assms(9) this(2,1) assms(10) r(3) [unfolded at] r(4)]
    from res(1) obtain k' where "client_send host (set_name G i) k = Inr k'" by blast
    then have step: "client_request host fileset (round # rounds) = (if rand_size G i < int MAXBUF
        then bindr (client_request host fileset rounds) (\<lambda>ks. Inr (k' # ks)) else Inl OutOfBounds)"
      using res(2) r(1) at by (simp add: round Let_def i_def)
    have "fi_len (fileset ! nat (r - 1)) = rand_size G i" using at by (simp add: i_def)
    with Cons step round show ?case by (auto split: if_splits)
  qed simp
qed

definition example_gen :: generator where
  "example_gen = \<lparr>mean_file_sz = 3, nr_files = 2, dir = lit ''d'', dir_ok = True,
     accepts = (\<lambda>_. Some [Accepted 3, WriteInterrupted]), rand_size = (\<lambda>i. if i = 0 then 5 else 9000), rand_byte = (\<lambda>i k. int k)\<rparr>"

lemma example_gen_ok: "can_generate example_gen" "plain (dir example_gen)" "46 \<notin> set (dir example_gen)"
  by (simp_all add: can_generate_def example_gen_def plain_def lit_def is_blank_def)

theorem fileset_roundtrip_witness:
  "\<exists>disk idx fileset junk. fileset_main example_gen = Inr (disk, idx)
    \<and> init_fileset (\<lambda>_. True) junk (replicate MAXLINE 0) (Some (all_of idx)) = Inr (2, fileset) \<and> length fileset = 2"
proof -
  have "nr_files example_gen = 2" by (simp add: example_gen_def)
  with fileset_roundtrip [OF example_gen_ok(1,2)] obtain disk idx where m: "fileset_main example_gen = Inr (disk, idx)"
    and r: "\<forall>fd buf mok junk. reliable fd \<and> inflow fd = idx \<and> length buf = MAXLINE \<and> (\<forall>n. mok n) \<longrightarrow>
        (\<exists>fileset. init_fileset mok junk buf (Some fd) = Inr (2, fileset) \<and> int (length fileset) = 2)"
    by (metis (no_types, lifting))
  from r [rule_format, of "all_of idx" "replicate MAXLINE 0" "\<lambda>_. True"] all_of_ok [of idx] obtain fileset where
    "init_fileset (\<lambda>_. True) \<lparr>fi_name = [], fi_csum = 0, fi_len = 0\<rparr> (replicate MAXLINE 0) (Some (all_of idx)) = Inr (2, fileset)" "int (length fileset) = 2"
    by auto
  with m show ?thesis by auto
qed

theorem fileset_requests_witness:
  "\<exists>fs k down1 down2 ks. client_request (lit ''h'') fs [(1, k, down1, replicate MAXBUF 0)] = Inr ks
    \<and> client_request (lit ''h'') fs [(1, k, down1, replicate MAXBUF 0), (2, k, down2, replicate MAXBUF 0)] = Inl OutOfBounds"
proof -
  let ?G = example_gen and ?h = "lit ''h''" and ?buf = "replicate MAXBUF (0 :: byte)"
  let ?junk = "\<lparr>fi_name = [], fi_csum = 0, fi_len = 0\<rparr>" and ?fs = "map (info_of example_gen) [0..<2]"
  let ?k = "\<lparr>from_peer = [], acceptances = [], to_peer = [], is_open = True\<rparr>"
  have nr: "nr_files ?G = 2" and sz: "rand_size ?G 0 = 5" "rand_size ?G 1 = 9000" by (simp_all add: example_gen_def)
  obtain disk where m: "fileset_main ?G = Inr (disk, index_text ?G)" "\<forall>i < nat (nr_files ?G). disk (set_name ?G i) = Some (set_bytes ?G i)"
    using fileset_main_spec [OF example_gen_ok(1)] by blast
  have ix: "init_fileset (\<lambda>_. True) ?junk (replicate MAXLINE 0) (Some (all_of (index_text ?G))) = Inr (2, ?fs)"
    using init_fileset_spec [OF example_gen_ok(1,2), of "all_of (index_text ?G)" "replicate MAXLINE 0" ?junk] all_of_ok nr by simp
  define st where "st = (\<lambda>bs. \<lparr>st_regular = True, st_readable = True, st_size = int (length bs), st_opens = True, st_contents = all_of bs\<rparr>)"
  define E where "E = \<lparr>fsys = (\<lambda>p. map_option st (disk (drop 2 p))), mal = (\<lambda>_. True),
    stack_buf = replicate MAXLINE 0, stack_hbuf = replicate MAXLINE 0, stack_words = ([], [])\<rparr>"
  have names: "fi_name ` set ?fs = {set_name ?G 0, set_name ?G 1}" by (auto simp: info_of_def numeral_2_eq_2)
  have "served_file (st (set_bytes ?G i)) (set_bytes ?G i)" if "i < 2" for i
    using all_of_ok that sz by (simp add: served_file_def st_def less_2_cases_iff) auto
  then have srv: "serves_disk E disk (fi_name ` set ?fs)" using m(2) nr
    by (auto simp: serves_disk_def info_of_def E_def path_def lit_def)
  have host: "host_ok ?h" by (simp add: host_ok_def lit_def)
  have at: "fi_name (?fs ! 0) = set_name ?G 0" "fi_name (?fs ! 1) = set_name ?G 1" "fi_len (?fs ! 0) = 5" "fi_len (?fs ! 1) = 9000"
    using sz by (simp_all add: info_of_def numeral_2_eq_2)
  obtain d1 d2 where d: "answered E ?h (set_name ?G 0) ?k d1" "answered E ?h (set_name ?G 1) ?k d2"
    using answer_exists [OF example_gen_ok _ srv _ host, of 0] answer_exists [OF example_gen_ok _ srv _ host, of 1] nr names by auto
  let ?r1 = "[(1, ?k, d1, ?buf)]" and ?r2 = "[(1, ?k, d1, ?buf), (2, ?k, d2, ?buf)]"
  note req = fileset_requests [OF example_gen_ok m(1) _ _ _ ix srv host]
  have n: "nat (1 - 1) = 0" "nat (2 - 1) = 1" by simp_all
  have "if \<forall>(r, k, down, buf) \<in> set rounds. fi_len (?fs ! nat (r - 1)) < int MAXBUF
    then \<exists>ks. client_request ?h ?fs rounds = Inr ks \<and> length ks = length rounds
    else client_request ?h ?fs rounds = Inl OutOfBounds"
    if "\<forall>(r, k, down, buf) \<in> set rounds. 1 \<le> r \<and> r \<le> 2 \<and> answered E ?h (fi_name (?fs ! nat (r - 1))) k down \<and> length buf = MAXBUF" for rounds
    using req [OF _ _ _ that] all_of_ok by simp
  from this [of ?r1] this [of ?r2] d at n
  have "\<exists>ks. client_request ?h ?fs ?r1 = Inr ks" "client_request ?h ?fs ?r2 = Inl OutOfBounds" by (auto simp del: client_request.simps upt_Suc split: if_splits)
  then show ?thesis by blast
qed

end
