(* ===== verification/ServerQueue.thy ===== *)
theory ServerQueue
  imports Results "HOL-Library.Signed_Division"
begin

text \<open>
  The request queue of \<open>src/webserver/server_thread.c\<close>: the main thread puts the descriptors of
  accepted connections into a ring buffer, the worker threads take them out.  Every access is under
  the mutex \<open>buffer_lock\<close>, so a step of the machine is the part of a thread between two points where
  it holds no lock: a round of the loop around \<open>pthread_cond_wait\<close>, with what follows when the loop
  is left.  A signal wakes one of the threads that wait, if there is one; a thread may also wake up
  for no reason.  The specification is a first-in-first-out list of bounded length.

  The positions of the buffer are unbounded \<open>int\<close>s here.  In C the sum in \<open>buffer_full\<close> can overflow
  for \<open>max_requests\<close> of 2 ^ 30 and more, where also the buffer would take 4 GB; for fewer requests the two agree.
\<close>

section \<open>The code\<close>

record server =
  nr_threads :: int
  max_requests :: int
  max_cache_size :: int
  buffer :: "int list"
  in_pos :: int
  out_pos :: int

text \<open>The part of \<open>server_init\<close> that concerns the queue; \<open>malloc\<close> leaves arbitrary bytes in the buffer.\<close>

definition server_init :: "int list \<Rightarrow> int \<Rightarrow> int \<Rightarrow> int \<Rightarrow> server" where
  "server_init buf threads requests cache_size =
     \<lparr>nr_threads = threads, max_requests = requests, max_cache_size = cache_size, buffer = buf, in_pos = 0, out_pos = 0\<rparr>"

definition buffer_full :: "server \<Rightarrow> bool" where
  "buffer_full sv \<longleftrightarrow>
     (in_pos sv - out_pos sv + max_requests sv + 1) smod (max_requests sv + 1) = max_requests sv"

definition buffer_put :: "int \<Rightarrow> server \<Rightarrow> server result" where
  "buffer_put connfd sv =
     bindr (arr_set (buffer sv) (nat (in_pos sv)) connfd) (\<lambda>b.
     Inr (sv\<lparr>buffer := b, in_pos := (in_pos sv + 1) smod (max_requests sv + 1)\<rparr>))"

definition buffer_take :: "server \<Rightarrow> (int \<times> server) result" where
  "buffer_take sv =
     bindr (arr_get (buffer sv) (nat (out_pos sv))) (\<lambda>connfd.
     Inr (connfd, sv\<lparr>out_pos := (out_pos sv + 1) smod (max_requests sv + 1)\<rparr>))"

text \<open>
  A round of \<open>server_request\<close>: \<open>None\<close> when the thread waits on \<open>buffer_full\<close>; else whether it signals
  \<open>buffer_empty\<close>, and the new state.
\<close>

definition server_request_round :: "int \<Rightarrow> server \<Rightarrow> (bool \<times> server) option result" where
  "server_request_round connfd sv =
     (if buffer_full sv then Inr None
      else bindr (buffer_put connfd sv) (\<lambda>sv'. Inr (Some (in_pos sv = out_pos sv, sv'))))"

text \<open>
  A round of a worker in \<open>stub\<close>: \<open>None\<close> when it waits on \<open>buffer_empty\<close>; else the descriptor to serve,
  whether it signals \<open>buffer_full\<close>, and the new state.
\<close>

definition worker_round :: "server \<Rightarrow> (int \<times> bool \<times> server) option result" where
  "worker_round sv =
     (if in_pos sv = out_pos sv then Inr None
      else bindr (buffer_take sv) (\<lambda>(connfd, sv'). Inr (Some (connfd, buffer_full sv, sv'))))"

section \<open>The threads\<close>

text \<open>A worker is about to lock the mutex, waits, or serves a request; the main thread likewise.\<close>

datatype worker = WTry | WWait | WServe int

datatype producer = PIdle | PTry int | PWait int

text \<open>\<open>accepted\<close> and \<open>taken\<close> record the requests accepted and those given to a worker.\<close>

record pool =
  server :: server
  producer :: producer
  workers :: "worker list"
  accepted :: "int list"
  taken :: "int list"

text \<open>The workers after a signal on \<open>buffer_empty\<close>; the scheduler chooses which of them wakes up.\<close>

inductive wakes :: "bool \<Rightarrow> worker list \<Rightarrow> worker list \<Rightarrow> bool" where
  no_signal: "wakes False ws ws"
| nobody_waits: "WWait \<notin> set ws \<Longrightarrow> wakes True ws ws"
| one_wakes: "i < length ws \<Longrightarrow> ws ! i = WWait \<Longrightarrow> wakes True ws (ws[i := WTry])"

definition wake_producer :: "bool \<Rightarrow> producer \<Rightarrow> producer" where
  "wake_producer signal p = (case p of PWait c \<Rightarrow> if signal then PTry c else p | _ \<Rightarrow> p)"

inductive pool_step :: "pool \<Rightarrow> pool \<Rightarrow> bool" where
  accept: "producer p = PIdle \<Longrightarrow> pool_step p (p\<lparr>producer := PTry c, accepted := accepted p @ [c]\<rparr>)"
| request_waits: "producer p = PTry c \<Longrightarrow> server_request_round c (server p) = Inr None
    \<Longrightarrow> pool_step p (p\<lparr>producer := PWait c\<rparr>)"
| request_put: "producer p = PTry c \<Longrightarrow> server_request_round c (server p) = Inr (Some (signal, sv))
    \<Longrightarrow> wakes signal (workers p) ws \<Longrightarrow> pool_step p (p\<lparr>server := sv, producer := PIdle, workers := ws\<rparr>)"
| worker_waits: "i < length (workers p) \<Longrightarrow> workers p ! i = WTry \<Longrightarrow> worker_round (server p) = Inr None
    \<Longrightarrow> pool_step p (p\<lparr>workers := (workers p)[i := WWait]\<rparr>)"
| worker_takes: "i < length (workers p) \<Longrightarrow> workers p ! i = WTry
    \<Longrightarrow> worker_round (server p) = Inr (Some (c, signal, sv))
    \<Longrightarrow> pool_step p (p\<lparr>server := sv, producer := wake_producer signal (producer p),
          workers := (workers p)[i := WServe c], taken := taken p @ [c]\<rparr>)"
| worker_done: "i < length (workers p) \<Longrightarrow> workers p ! i = WServe c
    \<Longrightarrow> pool_step p (p\<lparr>workers := (workers p)[i := WTry]\<rparr>)"
| spurious_worker: "i < length (workers p) \<Longrightarrow> workers p ! i = WWait
    \<Longrightarrow> pool_step p (p\<lparr>workers := (workers p)[i := WTry]\<rparr>)"
| spurious_producer: "producer p = PWait c \<Longrightarrow> pool_step p (p\<lparr>producer := PTry c\<rparr>)"

definition pool_start :: "int list \<Rightarrow> int \<Rightarrow> int \<Rightarrow> int \<Rightarrow> pool" where
  "pool_start buf threads requests cache_size =
     \<lparr>server = server_init buf threads requests cache_size, producer = PIdle,
      workers = replicate (nat threads) WTry, accepted = [], taken = []\<rparr>"

section \<open>Bounded queues\<close>

locale bounded_fifo =
  fixes holds :: "'s \<Rightarrow> 'a list \<Rightarrow> bool" and capacity :: "'s \<Rightarrow> nat"
    and is_empty :: "'s \<Rightarrow> bool" and is_full :: "'s \<Rightarrow> bool"
    and put :: "'a \<Rightarrow> 's \<Rightarrow> 's result" and get :: "'s \<Rightarrow> ('a \<times> 's) result"
  assumes bounded: "holds s q \<Longrightarrow> length q \<le> capacity s"
    and empty_iff: "holds s q \<Longrightarrow> is_empty s \<longleftrightarrow> q = []"
    and full_iff: "holds s q \<Longrightarrow> is_full s \<longleftrightarrow> length q = capacity s"
    and put_spec: "holds s q \<Longrightarrow> length q < capacity s \<Longrightarrow> \<exists>s'. put x s = Inr s' \<and> holds s' (q @ [x]) \<and> capacity s' = capacity s"
    and get_spec: "holds s (x # q) \<Longrightarrow> \<exists>s'. get s = Inr (x, s') \<and> holds s' q \<and> capacity s' = capacity s"
begin

lemma put_elim:
  assumes "holds s q" "\<not> is_full s"
  obtains s' where "put x s = Inr s'" "holds s' (q @ [x])" "capacity s' = capacity s"
  using put_spec [OF assms(1)] full_iff [OF assms(1)] bounded [OF assms(1)] assms(2) le_neq_implies_less by blast

lemma get_elim:
  assumes "holds s q" "\<not> is_empty s"
  obtains x q' s' where "q = x # q'" "get s = Inr (x, s')" "holds s' q'" "capacity s' = capacity s"
proof -
  obtain x q' where "q = x # q'" using empty_iff [OF assms(1)] assms(2) by (cases q) auto
  with get_spec assms(1) that show thesis by blast
qed

text \<open>A queue with room is either empty or has something to take, never stuck both ways.\<close>

lemma not_both: "holds s q \<Longrightarrow> 0 < capacity s \<Longrightarrow> \<not> (is_empty s \<and> is_full s)"
  by (auto simp: empty_iff full_iff)

end

definition holds_requests :: "server \<Rightarrow> int list \<Rightarrow> bool" where
  "holds_requests sv q \<longleftrightarrow> (\<exists>m k. max_requests sv = int m \<and> length (buffer sv) = Suc m \<and> out_pos sv = int k \<and> k \<le> m
     \<and> length q \<le> m \<and> in_pos sv = int ((k + length q) mod Suc m)
     \<and> (\<forall>i < length q. buffer sv ! ((k + i) mod Suc m) = q ! i))"

lemma int_smod: "int a smod int b = int (a mod b)"
  by (simp add: signed_modulo_int_def signed_divide_int_def zmod_int minus_div_mult_eq_mod sgn_if mult.commute)

lemma ring_inj:
  assumes "(k + i) mod Suc m = (k + j) mod Suc m" "i \<le> m" "j \<le> m"
  shows "i = j"
proof -
  have "i = j" if "i \<le> j" "j \<le> m" "(k + i) mod Suc m = (k + j) mod Suc m" for i j
  proof -
    have "Suc m dvd (k + j) - (k + i)" using that mod_eq_dvd_iff_nat [of "k + i" "k + j" "Suc m"] by simp
    then show ?thesis using that by (auto dest: dvd_imp_le)
  qed
  from this [of i j] this [of j i] assms show ?thesis by linarith
qed

lemma requests_full:
  assumes "holds_requests sv q"
  shows "buffer_full sv \<longleftrightarrow> length q = nat (max_requests sv)"
proof -
  from assms obtain m k where sv: "max_requests sv = int m" "out_pos sv = int k" "k \<le> m" "length q \<le> m"
    "in_pos sv = int ((k + length q) mod Suc m)"
    by (auto simp: holds_requests_def)
  have e: "in_pos sv - out_pos sv + max_requests sv + 1 = int ((k + length q) mod Suc m + Suc m - k)"
    using sv by (simp add: of_nat_diff)
  have "((k + length q) mod Suc m + Suc m - k) mod Suc m = (length q + Suc m) mod Suc m"
  proof (cases "k + length q < Suc m")
    case False
    then have "(k + length q) mod Suc m = k + length q - Suc m" using sv(3,4) by (simp add: mod_if)
    with False sv(3,4) show ?thesis by (simp add: mod_if)
  qed simp
  then have "((k + length q) mod Suc m + Suc m - k) mod Suc m = length q mod Suc m" by (simp only: mod_add_self2)
  then have "buffer_full sv \<longleftrightarrow> int (length q mod Suc m) = int m"
    unfolding buffer_full_def e using int_smod [of _ "Suc m"] by (simp add: sv(1) add.commute)
  then show ?thesis using sv(1,4) by simp
qed

interpretation rb: bounded_fifo holds_requests "\<lambda>sv. nat (max_requests sv)" "\<lambda>sv. in_pos sv = out_pos sv" buffer_full
  buffer_put buffer_take
proof unfold_locales
  fix sv :: server and q
  assume q: "holds_requests sv q"
  then obtain m k where sv: "max_requests sv = int m" "length (buffer sv) = Suc m" "out_pos sv = int k" "k \<le> m" "length q \<le> m"
    "in_pos sv = int ((k + length q) mod Suc m)" "\<And>i. i < length q \<Longrightarrow> buffer sv ! ((k + i) mod Suc m) = q ! i"
    by (auto simp: holds_requests_def)
  show "length q \<le> nat (max_requests sv)" using sv(1,5) by simp
  show "buffer_full sv \<longleftrightarrow> length q = nat (max_requests sv)" by (rule requests_full [OF q])
  show "in_pos sv = out_pos sv \<longleftrightarrow> q = []"
    using ring_inj [of k "length q" m 0] sv(3-6) by (auto simp: mod_less)
  show "\<exists>s'. buffer_put x sv = Inr s' \<and> holds_requests s' (q @ [x]) \<and> nat (max_requests s') = nat (max_requests sv)"
    if "length q < nat (max_requests sv)" for x
  proof -
    let ?p = "(k + length q) mod Suc m"
    let ?s = "sv\<lparr>buffer := (buffer sv)[?p := x], in_pos := int ((k + length (q @ [x])) mod Suc m)\<rparr>"
    have "?p < length (buffer sv)" using sv(2) by simp
    moreover have "(int ?p + 1) smod (int m + 1) = int ((k + length (q @ [x])) mod Suc m)"
      using int_smod [of "?p + 1" "Suc m"] by (simp add: mod_Suc_eq add.commute)
    ultimately have "buffer_put x sv = Inr ?s" by (simp add: buffer_put_def sv(1,6))
    moreover have "(buffer sv)[?p := x] ! ((k + i) mod Suc m) = (q @ [x]) ! i" if "i < length (q @ [x])" for i
    proof (cases "i = length q")
      case False
      then have "i < length q" "(k + i) mod Suc m \<noteq> ?p" using that sv(5) ring_inj [of k i m "length q"] by auto
      with sv(7) show ?thesis by (simp add: nth_append)
    qed (use \<open>?p < length (buffer sv)\<close> in simp)
    ultimately show ?thesis using sv that
      by (auto simp: holds_requests_def intro!: exI [of _ m] exI [of _ k])
  qed
next
  fix sv :: server and x q'
  assume "holds_requests sv (x # q')"
  define q where "q = x # q'"
  then obtain m k where sv: "max_requests sv = int m" "length (buffer sv) = Suc m" "out_pos sv = int k" "k \<le> m" "length q \<le> m"
    "in_pos sv = int ((k + length q) mod Suc m)" "\<And>i. i < length q \<Longrightarrow> buffer sv ! ((k + i) mod Suc m) = q ! i"
    using \<open>holds_requests sv (x # q')\<close> by (auto simp: holds_requests_def)
  show "\<exists>s'. buffer_take sv = Inr (x, s') \<and> holds_requests s' q' \<and> nat (max_requests s') = nat (max_requests sv)"
  proof -
    let ?s = "sv\<lparr>out_pos := int ((k + 1) mod Suc m)\<rparr>"
    have "buffer sv ! k = x" using sv(7) [of 0] sv(4) q_def by simp
    moreover have "(int k + 1) smod (int m + 1) = int ((k + 1) mod Suc m)"
      using int_smod [of "k + 1" "Suc m"] by (simp add: add.commute)
    ultimately have "buffer_take sv = Inr (x, ?s)" using sv(1-4) by (simp add: buffer_take_def)
    moreover have "buffer sv ! (((k + 1) mod Suc m + i) mod Suc m) = q' ! i" if "i < length q'" for i
      using sv(7) [of "Suc i"] that q_def by (simp add: mod_add_left_eq)
    moreover have "((k + 1) mod Suc m + length q') mod Suc m = (k + length q) mod Suc m"
      using q_def by (simp add: mod_add_left_eq)
    ultimately show ?thesis using sv q_def
      by (auto simp: holds_requests_def intro!: exI [of _ m] exI [of _ "(k + 1) mod Suc m"])
  qed
qed

end
