(* ===== verification/PoolProps.thy ===== *)
theory PoolProps
  imports ServerQueue
begin

text \<open>
  The runs of the server's main thread and workers: requests are given to the workers in the order
  in which they were accepted, no request is lost or given out twice, no wakeup is missed, and every
  accepted request can be taken; with a buffer for no requests none ever is.
\<close>

section \<open>The invariant\<close>

inductive_cases wakes_cases: "wakes signal ws ws'"

definition pending_request :: "producer \<Rightarrow> int list" where
  "pending_request p = (case p of PIdle \<Rightarrow> [] | PTry c \<Rightarrow> [c] | PWait c \<Rightarrow> [c])"

definition active :: "worker list \<Rightarrow> bool" where
  "active ws \<longleftrightarrow> (\<exists>w \<in> set ws. w \<noteq> WWait)"

text \<open>\<open>q\<close> are the requests in the buffer, \<open>m\<close> its capacity.\<close>

definition pool_inv :: "nat \<Rightarrow> int list \<Rightarrow> pool \<Rightarrow> bool" where
  "pool_inv m q p \<longleftrightarrow> holds_requests (server p) q \<and> max_requests (server p) = int m
     \<and> accepted p = taken p @ q @ pending_request (producer p) \<and> workers p \<noteq> []
     \<and> (q \<noteq> [] \<longrightarrow> active (workers p)) \<and> (\<forall>c. producer p = PWait c \<longrightarrow> buffer_full (server p))"

lemma pool_start_inv:
  assumes "length buf = Suc m" "0 < threads"
  shows "pool_inv m [] (pool_start buf threads (int m) cache_size)"
  using assms by (auto simp: pool_inv_def pool_start_def server_init_def holds_requests_def pending_request_def)

lemma put_round:
  assumes "holds_requests sv q" "max_requests sv = int m" "server_request_round c sv = Inr (Some (signal, sv'))"
  shows "holds_requests sv' (q @ [c])" "max_requests sv' = int m" "signal \<longleftrightarrow> q = []"
proof -
  from assms(3) have nf: "\<not> buffer_full sv" by (auto simp: server_request_round_def split: if_splits)
  from rb.put_elim [OF assms(1) this, of c] obtain s' where s': "buffer_put c sv = Inr s'" "holds_requests s' (q @ [c])"
    by blast
  have "sv' = s'" "signal \<longleftrightarrow> in_pos sv = out_pos sv" using assms(3) s'(1) nf by (auto simp: server_request_round_def)
  with s' rb.empty_iff [OF assms(1)] show "holds_requests sv' (q @ [c])" "signal \<longleftrightarrow> q = []" by simp_all
  show "max_requests sv' = int m" using s'(1) \<open>sv' = s'\<close> assms(2) by (auto simp: buffer_put_def bindr_eq_Inr)
qed

lemma take_round:
  assumes "holds_requests sv q" "max_requests sv = int m" "worker_round sv = Inr (Some (c, signal, sv'))"
  obtains q' where "q = c # q'" "holds_requests sv' q'" "max_requests sv' = int m" "signal \<longleftrightarrow> buffer_full sv"
proof -
  from assms(3) have "\<not> in_pos sv = out_pos sv" by (auto simp: worker_round_def split: if_splits)
  from rb.get_elim [OF assms(1) this] obtain x q' s' where x: "q = x # q'" "buffer_take sv = Inr (x, s')" "holds_requests s' q'"
    by blast
  have e: "c = x" "sv' = s'" "signal \<longleftrightarrow> buffer_full sv"
    using assms(3) x(2) \<open>\<not> in_pos sv = out_pos sv\<close> by (auto simp: worker_round_def)
  have "max_requests s' = int m" using x(2) assms(2) by (auto simp: buffer_take_def bindr_eq_Inr)
  with x e that show thesis by blast
qed

lemma active_update: "i < length ws \<Longrightarrow> w \<noteq> WWait \<Longrightarrow> active (ws[i := w])"
  by (auto simp: active_def set_update_memI intro!: bexI [of _ w])

lemma active_wakes: "wakes signal ws ws' \<Longrightarrow> ws \<noteq> [] \<Longrightarrow> signal \<or> active ws \<Longrightarrow> active ws' \<and> ws' \<noteq> []"
proof (erule wakes_cases)
  assume "ws' = ws" "WWait \<notin> set ws" "ws \<noteq> []"
  then show "active ws' \<and> ws' \<noteq> []" by (cases ws) (auto simp: active_def)
qed (auto simp: active_update)

lemma wakes_total: "\<exists>ws'. wakes signal ws ws'"
proof (cases signal)
  case True
  then show ?thesis
  proof (cases "WWait \<in> set ws")
    case inside: True
    then obtain i where "i < length ws" "ws ! i = WWait" by (auto simp: in_set_conv_nth)
    with True show ?thesis
      by (intro exI [of _ "ws[i := WTry]"]) (simp add: wakes.one_wakes)
  next
    case False
    with True show ?thesis by (intro exI [of _ ws]) (simp add: wakes.nobody_waits)
  qed
next
  case False
  then show ?thesis by (intro exI [of _ ws]) (simp add: wakes.no_signal)
qed

lemma pool_step_inv: "pool_step p p' \<Longrightarrow> pool_inv m q p \<Longrightarrow> \<exists>q'. pool_inv m q' p'"
proof (induction rule: pool_step.induct)
  case (accept p c)
  then show ?case by (intro exI [of _ q]) (simp add: pool_inv_def pending_request_def)
next
  case (request_waits p c)
  then have "buffer_full (server p)" by (auto simp: server_request_round_def bindr_eq_Inr split: if_splits)
  with request_waits show ?case by (intro exI [of _ q]) (simp add: pool_inv_def pending_request_def)
next
  case (request_put p c signal sv ws)
  note inv = request_put(4) [unfolded pool_inv_def]
  from inv have h: "holds_requests (server p) q" "max_requests (server p) = int m" by blast+
  note r = put_round [OF h request_put(2)]
  have "active ws \<and> ws \<noteq> []" using active_wakes [OF request_put(3)] inv r(3) by blast
  with inv request_put(1) r(1,2) show ?case
    by (intro exI [of _ "q @ [c]"]) (simp add: pool_inv_def pending_request_def)
next
  case (worker_waits i p)
  then have "in_pos (server p) = out_pos (server p)" by (auto simp: worker_round_def bindr_eq_Inr split: if_splits)
  with worker_waits(4) have "q = []" using rb.empty_iff [of "server p" q] by (simp add: pool_inv_def)
  with worker_waits show ?case by (intro exI [of _ q]) (simp add: pool_inv_def)
next
  case (worker_takes i p c signal sv)
  note inv = worker_takes(4) [unfolded pool_inv_def]
  from inv have h: "holds_requests (server p) q" "max_requests (server p) = int m" by blast+
  from take_round [OF h worker_takes(3)] obtain q' where
    q': "q = c # q'" "holds_requests sv q'" "max_requests sv = int m" "signal \<longleftrightarrow> buffer_full (server p)" by blast
  have "pending_request (wake_producer signal (producer p)) = pending_request (producer p)"
    "wake_producer signal (producer p) \<noteq> PWait d" for d
    using inv q'(4) by (auto simp: wake_producer_def pending_request_def split: producer.splits)
  with inv q' worker_takes(1) active_update [of i "workers p" "WServe c"] show ?case
    by (intro exI [of _ q']) (simp add: pool_inv_def)
next
  case (worker_done i p c)
  then show ?case using active_update [of i "workers p" WTry] by (intro exI [of _ q]) (simp add: pool_inv_def)
next
  case (spurious_worker i p)
  then show ?case using active_update [of i "workers p" WTry] by (intro exI [of _ q]) (simp add: pool_inv_def)
next
  case (spurious_producer p c)
  then show ?case by (intro exI [of _ q]) (simp add: pool_inv_def pending_request_def)
qed

lemma reachable_inv:
  assumes "length buf = Suc m" "0 < threads" "pool_step\<^sup>*\<^sup>* (pool_start buf threads (int m) cache_size) p"
  shows "\<exists>q. pool_inv m q p"
  using assms(3)
proof (induction rule: rtranclp_induct)
  case base
  show ?case using pool_start_inv [OF assms(1,2)] by blast
qed (blast dest: pool_step_inv)

section \<open>Every request can be taken\<close>

lemma pool_takes_one:
  assumes "pool_inv m (c # q) p"
  shows "\<exists>p'. pool_step\<^sup>*\<^sup>* p p' \<and> pool_inv m q p' \<and> accepted p' = accepted p
    \<and> pending_request (producer p') = pending_request (producer p)"
proof -
  from assms have h: "holds_requests (server p) (c # q)" "max_requests (server p) = int m" and "active (workers p)"
    and acc: "accepted p = taken p @ (c # q) @ pending_request (producer p)"
    and wait: "\<forall>d. producer p = PWait d \<longrightarrow> buffer_full (server p)"
    by (auto simp: pool_inv_def)
  then obtain i where i: "i < length (workers p)" "workers p ! i \<noteq> WWait" by (auto simp: active_def in_set_conv_nth)
  let ?p1 = "p\<lparr>workers := (workers p)[i := WTry]\<rparr>"
  have s1: "pool_step\<^sup>*\<^sup>* p ?p1"
  proof (cases "workers p ! i")
    case WTry
    then have "?p1 = p" using i by (metis list_update_id pool.surjective pool.update_convs(3))
    then show ?thesis by simp
  qed (use i pool_step.worker_done [of i p] in auto)
  from rb.get_spec [OF h(1)] obtain sv where sv: "buffer_take (server p) = Inr (c, sv)" "holds_requests sv q" by blast
  have mx: "max_requests sv = int m" using sv(1) h(2) by (auto simp: buffer_take_def bindr_eq_Inr)
  have "in_pos (server p) \<noteq> out_pos (server p)" using rb.empty_iff [OF h(1)] by simp
  then have "worker_round (server ?p1) = Inr (Some (c, buffer_full (server p), sv))"
    using sv(1) by (simp add: worker_round_def)
  from pool_step.worker_takes [OF _ _ this, of i] i(1)
  have s2: "pool_step ?p1 (?p1\<lparr>server := sv, producer := wake_producer (buffer_full (server p)) (producer p),
      workers := (workers p)[i := WServe c], taken := taken p @ [c]\<rparr>)" (is "pool_step _ ?p2") by simp
  have "pending_request (wake_producer (buffer_full (server p)) (producer p)) = pending_request (producer p)"
    "wake_producer (buffer_full (server p)) (producer p) \<noteq> PWait d" for d
    using wait by (auto simp: wake_producer_def pending_request_def split: producer.splits)
  with sv(2) mx acc i(1) active_update [OF i(1), of "WServe c"] have "pool_inv m q ?p2" "accepted ?p2 = accepted p"
    "pending_request (producer ?p2) = pending_request (producer p)"
    by (auto simp: pool_inv_def)
  with rtranclp.rtrancl_into_rtrancl [OF s1 s2] show ?thesis by blast
qed

lemma pool_takes_all:
  "pool_inv m q p \<Longrightarrow> \<exists>p'. pool_step\<^sup>*\<^sup>* p p' \<and> pool_inv m [] p' \<and> accepted p' = accepted p
    \<and> pending_request (producer p') = pending_request (producer p)"
proof (induction q arbitrary: p)
  case (Cons c q)
  from pool_takes_one [OF Cons.prems] obtain p1 where p1: "pool_step\<^sup>*\<^sup>* p p1" "pool_inv m q p1" "accepted p1 = accepted p"
    "pending_request (producer p1) = pending_request (producer p)" by blast
  from Cons.IH [OF p1(2)] p1 show ?case by (metis rtranclp_trans)
qed blast

lemma pool_drains:
  assumes inv: "pool_inv m q p" and m: "0 < m"
  shows "\<exists>p'. pool_step\<^sup>*\<^sup>* p p' \<and> taken p' = accepted p \<and> accepted p' = accepted p"
proof -
  from pool_takes_all [OF inv] obtain p1 where p1: "pool_step\<^sup>*\<^sup>* p p1" "pool_inv m [] p1" "accepted p1 = accepted p" by blast
  note i1 = p1(2) [unfolded pool_inv_def]
  have nf: "\<not> buffer_full (server p1)" using requests_full [of "server p1" "[]"] i1 m by simp
  then consider (idle) "producer p1 = PIdle" | (ready) c where "producer p1 = PTry c"
    using i1 by (cases "producer p1") auto
  then show ?thesis
  proof cases
    case idle
    then have "taken p1 = accepted p1" using i1 by (simp add: pending_request_def)
    with p1 show ?thesis by auto
  next
    case (ready c)
    have "\<not> buffer_full (server p1)" by (rule nf)
    from rb.put_elim [OF _ this] i1 obtain sv where sv: "buffer_put c (server p1) = Inr sv" by blast
    then have r: "server_request_round c (server p1) = Inr (Some (in_pos (server p1) = out_pos (server p1), sv))"
      using nf by (simp add: server_request_round_def)
    obtain ws where ws: "wakes (in_pos (server p1) = out_pos (server p1)) (workers p1) ws"
      using wakes_total by blast
    let ?p2 = "p1\<lparr>server := sv, producer := PIdle, workers := ws\<rparr>"
    have s2: "pool_step p1 ?p2" by (rule pool_step.request_put [OF ready r ws])
    from pool_step_inv [OF s2 p1(2)] obtain q2 where q2: "pool_inv m q2 ?p2" by blast
    from pool_takes_all [OF q2] obtain p3 where p3: "pool_step\<^sup>*\<^sup>* ?p2 p3" "pool_inv m [] p3" "accepted p3 = accepted ?p2"
      "pending_request (producer p3) = pending_request (producer ?p2)" by blast
    have "pool_step\<^sup>*\<^sup>* p p3" using p1(1) s2 p3(1) by (metis converse_rtranclp_into_rtranclp rtranclp_trans)
    moreover have "taken p3 = accepted p3" using p3(2,4) by (simp add: pool_inv_def pending_request_def)
    ultimately show ?thesis using p3(3) p1(3) by auto
  qed
qed

section \<open>Properties\<close>

text \<open>
  C13: the ring buffer with its two conditions implements a first-in-first-out queue.  In every state
  that a run of the main thread and the workers reaches, the requests accepted are those given to
  the workers, in the order in which they were accepted, followed by those in the buffer and the
  one that the main thread holds: none is lost, none is given out twice, none overtakes another; and
  the buffer never holds more than \<open>max_requests\<close>.
\<close>

theorem requests_fifo:
  assumes "length buf = Suc m" "0 < threads"
    and "pool_step\<^sup>*\<^sup>* (pool_start buf threads (int m) cache_size) p"
  shows "\<exists>q. holds_requests (server p) q \<and> length q \<le> m
    \<and> accepted p = taken p @ q @ (case producer p of PIdle \<Rightarrow> [] | PTry c \<Rightarrow> [c] | PWait c \<Rightarrow> [c])"
proof -
  from reachable_inv [OF assms] obtain q where q: "pool_inv m q p" by blast
  then show ?thesis using rb.bounded [of "server p" q]
    by (auto simp: pool_inv_def pending_request_def intro!: exI [of _ q])
qed

text \<open>One worker, room for one request, and request 7 in the buffer.\<close>

lemma one_request:
  obtains p where "pool_step\<^sup>*\<^sup>* (pool_start [0, 0] 1 1 0) p" "producer p = PIdle" "accepted p = [7]" "taken p = []"
    "server p = (server_init [7, 0] 1 1 0)\<lparr>in_pos := 1\<rparr>"
proof -
  define p0 where "p0 = pool_start [0, 0] 1 1 0"
  define p1 where "p1 = p0\<lparr>producer := PTry 7, accepted := accepted p0 @ [7]\<rparr>"
  define p2 where "p2 = p1\<lparr>server := (server_init [7, 0] 1 1 0)\<lparr>in_pos := 1\<rparr>, producer := PIdle, workers := workers p1\<rparr>"
  have s1: "pool_step p0 p1" unfolding p1_def by (rule pool_step.accept) (simp add: p0_def pool_start_def)
  have "server_request_round 7 (server p1) = Inr (Some (True, (server_init [7, 0] 1 1 0)\<lparr>in_pos := 1\<rparr>))"
    by (simp add: p1_def p0_def pool_start_def server_init_def server_request_round_def buffer_full_def buffer_put_def
        signed_modulo_int_def signed_divide_int_def)
  then have s2: "pool_step p1 p2" unfolding p2_def
    by (rule pool_step.request_put [rotated]) (simp_all add: p1_def p0_def pool_start_def wakes.nobody_waits)
  from s1 have "pool_step\<^sup>*\<^sup>* p0 p1" by (rule r_into_rtranclp)
  from this s2 have "pool_step\<^sup>*\<^sup>* p0 p2" by (rule rtranclp.rtrancl_into_rtrancl)
  then show thesis by (intro that [of p2]) (simp_all add: p2_def p1_def p0_def pool_start_def)
qed

theorem requests_fifo_witness:
  "\<exists>q. holds_requests ((server_init [7, 0] 1 1 0)\<lparr>in_pos := 1\<rparr>) q \<and> q = [7]"
proof -
  obtain p where p: "pool_step\<^sup>*\<^sup>* (pool_start [0, 0] 1 1 0) p" "producer p = PIdle" "accepted p = [7]" "taken p = []"
    "server p = (server_init [7, 0] 1 1 0)\<lparr>in_pos := 1\<rparr>" by (rule one_request)
  have "pool_step\<^sup>*\<^sup>* (pool_start [0, 0] 1 (int 1) 0) p" using p(1) by simp
  from requests_fifo [OF _ _ this] p(2-5) show ?thesis by simp
qed

text \<open>
  C23: no wakeup is missed and no request starves for lack of one.  With room for at least one request,
  in every reachable state with a request that no worker has taken, some thread can go on by itself:
  a worker that does not wait, or the main thread; and from there a run without further requests
  takes all that were accepted.
\<close>

theorem requests_progress:
  assumes "length buf = Suc m" "0 < threads" "0 < m"
    and "pool_step\<^sup>*\<^sup>* (pool_start buf threads (int m) cache_size) p"
  shows "(taken p \<noteq> accepted p \<longrightarrow> (\<exists>w \<in> set (workers p). w \<noteq> WWait) \<or> (\<exists>c. producer p = PTry c))
    \<and> (\<exists>p'. pool_step\<^sup>*\<^sup>* p p' \<and> taken p' = accepted p \<and> accepted p' = accepted p)"
proof -
  from reachable_inv [OF assms(1,2,4)] obtain q where q: "pool_inv m q p" by blast
  have "(\<exists>w \<in> set (workers p). w \<noteq> WWait) \<or> (\<exists>c. producer p = PTry c)" if "taken p \<noteq> accepted p"
  proof (cases "q = []")
    case True
    with q assms(3) have "\<not> buffer_full (server p)" using requests_full [of "server p" q] by (simp add: pool_inv_def)
    with True q that show ?thesis by (cases "producer p") (auto simp: pool_inv_def pending_request_def)
  qed (use q in \<open>auto simp: pool_inv_def active_def\<close>)
  with pool_drains [OF q assms(3)] show ?thesis by blast
qed

theorem requests_progress_witness:
  "\<exists>p. accepted p = [7] \<and> (\<exists>p'. pool_step\<^sup>*\<^sup>* p p' \<and> taken p' = [7])"
proof -
  obtain p where p: "pool_step\<^sup>*\<^sup>* (pool_start [0, 0] 1 1 0) p" "accepted p = [7]" by (rule one_request)
  have "pool_step\<^sup>*\<^sup>* (pool_start [0, 0] 1 (int 1) 0) p" using p(1) by simp
  from requests_progress [OF _ _ _ this] p(2) show ?thesis by auto
qed

text \<open>
  A server with worker threads and \<open>max_requests\<close> 0 serves nothing: the buffer is full and empty
  at once, so the main thread waits on the first request for ever, and no worker takes a request.
\<close>

theorem no_room_no_service:
  assumes "length buf = 1" "0 < threads" "pool_step\<^sup>*\<^sup>* (pool_start buf threads 0 cache_size) p"
  shows "taken p = [] \<and> buffer_full (server p) \<and> length (accepted p) \<le> 1"
proof -
  have len: "length buf = Suc 0" using assms(1) by simp
  have "taken p = []" using assms(3)
  proof (induction rule: rtranclp_induct)
    case base
    show ?case by (simp add: pool_start_def)
  next
    case (step p p')
    from reachable_inv [OF len assms(2)] step.hyps(1) obtain q where q: "pool_inv 0 q p" by auto
    then have "in_pos (server p) = out_pos (server p)"
      using rb.bounded [of "server p" q] rb.empty_iff [of "server p" q] by (simp add: pool_inv_def)
    with step.hyps(2) step.IH show ?case
      by (cases rule: pool_step.cases) (auto simp: worker_round_def)
  qed
  moreover from reachable_inv [OF len assms(2)] assms(3) obtain q where q: "pool_inv 0 q p" by auto
  moreover have "q = []" using rb.bounded [of "server p" q] q by (simp add: pool_inv_def)
  ultimately show ?thesis using requests_full [of "server p" q]
    by (auto simp: pool_inv_def pending_request_def split: producer.splits)
qed

theorem no_room_no_service_witness:
  "taken (pool_start [0] 2 0 0) = [] \<and> buffer_full (server (pool_start [0] 2 0 0))"
  using no_room_no_service [of "[0]" 2 0 "pool_start [0] 2 0 0"] by simp

end
