(* ===== verification/Programs.thy ===== *)
theory Programs
  imports FileSet PoolProps
begin

text \<open>
  The programs of the web server: \<open>src/webserver/client_simple.c\<close>, which fetches one page and prints it, and how
  \<open>src/webserver/server.c\<close> and \<open>src/webserver/client.c\<close> read their arguments and start.  A command line is the
  list of its words, the name of the program first.  The sockets are parameters, and so is what the standard output
  accepts; what \<open>printf\<close> has collected is written by \<open>fflush\<close>.
\<close>

definition atoi :: "cstr \<Rightarrow> int" where
  "atoi s = s32 (fst (strtoll10 s))"

section \<open>The simple client\<close>

definition simple_send :: "cstr \<Rightarrow> cstr \<Rightarrow> conn \<Rightarrow> conn result" where
  "simple_send host filename c =
     bindr (fits MAXLINE (lit ''GET '' @ filename @ lit '' HTTP/1.0'' @ crnl
       @ lit ''host: '' @ host @ crnl @ crnl)) (\<lambda>buf.
     send buf c)"

text \<open>The loop over the header; \<open>pr\<close> is what has been printed.\<close>

function simple_header_loop :: "int \<Rightarrow> byte list \<Rightarrow> rio \<Rightarrow> int \<Rightarrow> byte list \<Rightarrow> (byte list \<times> rio \<times> int \<times> byte list) result" where
  "simple_header_loop n buf rp len pr =
     bindr (c_string buf) (\<lambda>line.
     if line \<noteq> crnl \<and> n > 0 then
       let pr = pr @ lit ''Header: '' @ line in
       bindr (Rio_readlineb rp buf MAXBUF) (\<lambda>(n, buf, rp).
       bindr (c_string buf) (\<lambda>line.
       simple_header_loop n buf rp (or_else (scan_d (lit ''Content-Length:'') line) len) pr))
     else Inr (buf, rp, len, pr))"
  by pat_completeness auto
termination
  by (relation "measure (\<lambda>(n, buf, rp, len, pr). if n > 0 then Suc (rio_left rp) else 0)")
    (auto dest: Rio_readlineb_left)

declare simple_header_loop.simps [simp del]

function simple_body_loop :: "byte list \<Rightarrow> rio \<Rightarrow> acceptance list \<Rightarrow> int \<Rightarrow> byte list \<Rightarrow> (int \<times> byte list) result" where
  "simple_body_loop buf rp stdout len pr =
     bindr (Rio_readlineb rp buf MAXBUF) (\<lambda>(n, buf, rp).
     bindr (Rio_write stdout (take (nat n) buf)) (\<lambda>(sent, stdout).
     if n > 0 then simple_body_loop buf rp stdout (len + n) (pr @ sent) else Inr (len + n, pr @ sent)))"
  by pat_completeness auto
termination
  by (relation "measure (\<lambda>(buf, rp, stdout, len, pr). rio_left rp)") (auto dest: Rio_readlineb_left)

declare simple_body_loop.simps [simp del]

definition simple_print :: "byte list \<Rightarrow> delivery list \<Rightarrow> acceptance list \<Rightarrow> byte list result" where
  "simple_print buf fd stdout =
     bindr (Rio_readlineb (rio_init fd) buf MAXBUF) (\<lambda>(n, buf, rp).
     bindr (simple_header_loop n buf rp 0 []) (\<lambda>(buf, rp, len, pr).
     bindr (simple_body_loop buf rp stdout 0 pr) (\<lambda>(len_received, pr).
     bindr (if len \<noteq> 0 then c_assert (len = len_received) else Inr ()) (\<lambda>_.
     Inr pr))))"

text \<open>The connection at the end, and what was printed.\<close>

definition client_simple_main :: "cstr list \<Rightarrow> (cstr \<Rightarrow> int \<Rightarrow> conn option) \<Rightarrow> byte list \<Rightarrow> acceptance list
    \<Rightarrow> (conn \<times> byte list) result" where
  "client_simple_main argv open_clientfd buf stdout =
     (if length argv \<noteq> 4 then Inl ExitFailure
      else
        let host = argv ! 1; port = atoi (argv ! 2); filename = argv ! 3 in
        case open_clientfd host port of
          None \<Rightarrow> Inl ExitFailure
        | Some clientfd \<Rightarrow>
            bindr (simple_send host filename clientfd) (\<lambda>clientfd.
            bindr (simple_print buf (from_peer clientfd) stdout) (\<lambda>pr.
            Inr (clientfd\<lparr>is_open := False\<rparr>, pr))))"

section \<open>The server and the client\<close>

definition server_arguments :: "cstr list \<Rightarrow> (int \<times> int \<times> int \<times> int) result" where
  "server_arguments argv =
     (if length argv \<noteq> 5 then Inl ExitFailure
      else
        let port = atoi (argv ! 1); threads = atoi (argv ! 2); requests = atoi (argv ! 3); cache_size = atoi (argv ! 4) in
        if port < 1024 then Inl ExitFailure
        else if threads < 0 \<or> requests < 0 \<or> cache_size < 0 then Inl ExitFailure
        else Inr (port, threads, requests, cache_size))"

text \<open>The start of \<open>main\<close>: the port it listens on, and its threads; accepting and queueing are steps of the pool.\<close>

definition server_main :: "cstr list \<Rightarrow> (nat \<Rightarrow> int list) \<Rightarrow> (int \<times> pool) result" where
  "server_main argv alloc =
     bindr (server_arguments argv) (\<lambda>(port, threads, requests, cache_size).
     Inr (port, pool_start (alloc (nat (requests + 1))) threads requests cache_size))"

record client =
  cl_host :: cstr
  cl_port :: int
  cl_nr_times :: int
  cl_nr_threads :: int
  cl_timing_mode :: bool

text \<open>The word after the last one is \<open>NULL\<close>.\<close>

definition client_arguments :: "cstr list \<Rightarrow> (client \<times> cstr option) result" where
  "client_arguments argv =
     (if length argv \<noteq> 6 \<and> length argv \<noteq> 7 then Inl ExitFailure
      else
        let timing = (argv ! 1 = lit ''-t''); i = (if timing then 2 else 1);
            cl = \<lparr>cl_host = argv ! i, cl_port = atoi (argv ! (i + 1)), cl_nr_times = atoi (argv ! (i + 2)),
                   cl_nr_threads = atoi (argv ! (i + 3)), cl_timing_mode = timing\<rparr>;
            filename = (if i + 4 < length argv then Some (argv ! (i + 4)) else None)
        in if cl_port cl < 1024 \<or> cl_nr_times cl \<le> 0 \<or> cl_nr_threads cl \<le> 0 then Inl ExitFailure
           else Inr (cl, filename))"

text \<open>
  The threads only read the file set, so one runs after the other here; a check that fails in one of them ends the
  process.  \<open>rounds i k\<close> is what thread \<open>i\<close> draws and gets in its round \<open>k\<close>.
\<close>

primrec run_threads :: "cstr \<Rightarrow> fileinfo list \<Rightarrow> (int \<times> conn \<times> delivery list \<times> byte list) list list \<Rightarrow> conn list list result" where
  "run_threads host fileset [] = Inr []"
| "run_threads host fileset (rounds # threads) =
     bindr (client_request host fileset rounds) (\<lambda>fds.
     bindr (run_threads host fileset threads) (\<lambda>fdss. Inr (fds # fdss)))"

definition client_main :: "cstr list \<Rightarrow> (cstr \<Rightarrow> delivery list option) \<Rightarrow> (nat \<Rightarrow> bool) \<Rightarrow> fileinfo \<Rightarrow> byte list
    \<Rightarrow> (nat \<Rightarrow> nat \<Rightarrow> int \<times> conn \<times> delivery list \<times> byte list) \<Rightarrow> conn list list result" where
  "client_main argv open_file mok junk buf rounds =
     bindr (client_arguments argv) (\<lambda>(cl, filename).
     bindr (init_fileset mok junk buf (Option.bind filename open_file)) (\<lambda>(nr, fileset).
     if \<not> mok (8 * nat (cl_nr_threads cl)) then Inl ExitFailure
     else
       run_threads (cl_host cl) fileset
         (map (\<lambda>i. map (rounds i) [0..<nat (cl_nr_times cl)]) [0..<nat (cl_nr_threads cl)])))"

section \<open>What the simple client prints\<close>

definition announced :: "cstr list \<Rightarrow> int" where
  "announced hs = foldl (\<lambda>l h. or_else (scan_d (lit ''Content-Length:'') (h @ crnl)) l) 0 hs"

definition headers_shown :: "cstr list \<Rightarrow> byte list" where
  "headers_shown hs = concat (map (\<lambda>h. lit ''Header: '' @ h @ crnl) hs)"

lemma simple_headers:
  assumes "\<And>h. h \<in> set hs \<Longrightarrow> text_line h \<and> h \<noteq> []"
    and "rio_ok rp" "rio_stream rp = concat (map (\<lambda>h. h @ crnl) hs) @ crnl @ rest"
    and "c_string buf = Inr (g @ crnl)" "g \<noteq> []" "0 < n" "length buf = MAXBUF"
  shows "\<exists>buf' rp'. simple_header_loop n buf rp len pr
      = Inr (buf', rp', foldl (\<lambda>l h. or_else (scan_d (lit ''Content-Length:'') (h @ crnl)) l) len (hs @ [[]]),
               pr @ headers_shown (g # hs))
    \<and> length buf' = MAXBUF \<and> rio_ok rp' \<and> rio_stream rp' = rest"
  using assms
proof (induction hs arbitrary: n buf rp g len pr)
  case Nil
  have "rio_stream rp = [] @ crnl @ rest" "text_line []" using Nil.prems(3) by (simp_all add: text_line_def)
  from read_text_line [OF Nil.prems(2) this Nil.prems(7)] obtain rp1 b1 where
    "Rio_readlineb rp buf MAXLINE = Inr (2, b1, rp1)" "length b1 = MAXLINE" "c_string b1 = Inr crnl"
      "rio_ok rp1" "rio_stream rp1 = rest"
    by (metis append_Nil list.size(3) add_0 of_nat_numeral)
  with Nil.prems(4-6) show ?case
    by (simp add: simple_header_loop.simps [of n buf] simple_header_loop.simps [of 2 b1] headers_shown_def)
next
  case (Cons h hs)
  then have "rio_stream rp = h @ crnl @ concat (map (\<lambda>h. h @ crnl) hs) @ crnl @ rest" by simp
  from read_text_line [OF Cons.prems(2) this _ Cons.prems(7)] Cons.prems(1) [of h] obtain rp1 b1 where
    r: "Rio_readlineb rp buf MAXLINE = Inr (int (length h + 2), b1, rp1)" "length b1 = MAXLINE" "c_string b1 = Inr (h @ crnl)"
      "rio_ok rp1" "rio_stream rp1 = concat (map (\<lambda>h. h @ crnl) hs) @ crnl @ rest"
    by (metis list.set_intros(1))
  have ne: "h \<noteq> []" "0 < int (length h + 2)" using Cons.prems(1) [of h] by simp_all
  from Cons.IH [OF Cons.prems(1) r(4,5,3) ne r(2), of "or_else (scan_d (lit ''Content-Length:'') (h @ crnl)) len"
      "pr @ lit ''Header: '' @ g @ crnl"]
  show ?case using Cons.prems(4-6) r(1,3)
    by (simp add: simple_header_loop.simps [of n buf] headers_shown_def)
qed

lemma simple_body:
  assumes "rio_ok rp" "rio_stream rp = bs" "lines_fit MAXBUF bs" "length buf = MAXBUF" "WriteFailed \<notin> set stdout"
  shows "simple_body_loop buf rp stdout len pr = Inr (len + int (length bs), pr @ bs)"
  using assms
proof (induction "length bs" arbitrary: bs rp buf stdout len pr rule: less_induct)
  case less
  show ?case
  proof (cases "bs = []")
    case True
    with less.prems body_end [of rp buf] obtain rp' where "Rio_readlineb rp buf MAXBUF = Inr (0, buf, rp')" by blast
    with True show ?thesis by (simp add: simple_body_loop.simps [of buf] Rio_write_def)
  next
    case False
    obtain m rp' where m: "0 < m" "m \<le> length bs" "m < MAXBUF" and
      r: "Rio_readlineb rp buf MAXBUF = Inr (int m, take m bs @ 0 # drop (m + 1) buf, rp')" "rio_ok rp'" "rio_stream rp' = drop m bs"
      by (rule body_line [OF less.prems(1,2) False less.prems(3,4)])
    obtain as where w: "Rio_write stdout (take m bs) = Inr (take m bs, as)" "WriteFailed \<notin> set as"
      by (rule Rio_write_spec [OF less.prems(5)])
    have "length (take m bs @ 0 # drop (m + 1) buf) = MAXBUF" using m less.prems(4) by simp
    from less.hyps [OF _ r(2,3) lines_fit_drop [OF less.prems(3)] this w(2), of "len + int m" "pr @ take m bs"] m r(1) w(1)
    show ?thesis by (simp add: simple_body_loop.simps [of buf])
  qed
qed

lemma next_line_Nil: "next_line n [] = []"
  by (cases n) simp_all

lemma next_line_suffix:
  "length (next_line n bs) < n \<Longrightarrow> i < length (next_line n bs) \<Longrightarrow> length (next_line n (drop i bs)) < n"
proof (induction n bs arbitrary: i rule: next_line.induct)
  case (3 n b bs)
  show ?case
  proof (cases i)
    case 0
    then show ?thesis using 3(2) by simp
  next
    case (Suc j)
    have b: "b \<noteq> 10" using 3(3) Suc by auto
    have l: "length (next_line n bs) < n" "j < length (next_line n bs)" using 3(2,3) b Suc by simp_all
    have "length (next_line (Suc k) xs) \<le> Suc (length (next_line k xs))" for k and xs :: "byte list"
    proof (induction k xs rule: next_line.induct)
      case (1 xs)
      show ?case using next_line_length(1) [of "Suc 0" xs] by simp
    qed auto
    from this [of n "drop j bs"] 3(1) [OF b l] Suc show ?thesis by simp
  qed
qed auto

lemma lines_fit_rest:
  assumes "\<not> lines_fit n bs" "length (next_line n bs) < n"
  shows "\<not> lines_fit n (drop (length (next_line n bs)) bs)"
proof
  assume r: "lines_fit n (drop (length (next_line n bs)) bs)"
  have "length (next_line n (drop i bs)) < n" if "i \<le> length bs" for i
  proof (cases "i < length (next_line n bs)")
    case True
    with assms(2) show ?thesis by (rule next_line_suffix)
  next
    case False
    then obtain j where "i = length (next_line n bs) + j" using le_Suc_ex not_less by blast
    with that r [unfolded lines_fit_def, rule_format, of j] show ?thesis by (simp add: add.commute)
  qed
  with assms(1) show False by (simp add: lines_fit_def)
qed

text \<open>A body with a run of bytes that fills the buffer overflows it.\<close>

lemma simple_body_over:
  assumes "rio_ok rp" "rio_stream rp = bs" "\<not> lines_fit MAXBUF bs" "length buf = MAXBUF" "WriteFailed \<notin> set stdout"
  shows "simple_body_loop buf rp stdout len pr = Inl OutOfBounds"
  using assms
proof (induction "length bs" arbitrary: bs rp buf stdout len pr rule: less_induct)
  case less
  let ?m = "length (next_line MAXBUF bs)"
  have ne: "bs \<noteq> []" using less.prems(3) by (auto simp: lines_fit_def next_line_Nil)
  have le: "0 \<le> MAXBUF" "MAXBUF \<le> length buf" "rio_stream rp \<noteq> [] \<or> 0 < (0 :: nat) \<or> MAXBUF = (0 :: nat)"
    using less.prems(2,4) ne by simp_all
  note line = readlineb_loop_spec [OF less.prems(1) le, unfolded diff_zero less.prems(2,4) Let_def]
  have rd: "rio_readlineb rp buf MAXBUF = rio_readlineb_loop MAXBUF 0 buf rp" by (simp add: rio_readlineb_def)
  show ?case
  proof (cases "?m < MAXBUF")
    case False
    with line have "rio_readlineb_loop MAXBUF 0 buf rp = Inl OutOfBounds" by simp
    then show ?thesis by (simp add: simple_body_loop.simps [of buf] Rio_readlineb_def rd)
  next
    case True
    have m: "0 < ?m" "?m \<le> length bs" "next_line MAXBUF bs = take ?m bs"
      using next_line_pos [OF _ ne, of MAXBUF] next_line_length(2) [of MAXBUF bs] next_line_take [of MAXBUF bs] by auto
    from True line obtain rp' where r: "rio_readlineb_loop MAXBUF 0 buf rp = Inr (int ?m, next_line MAXBUF bs @ 0 # drop (?m + 1) buf, rp')"
      "rio_ok rp'" "rio_stream rp' = drop ?m bs" by auto
    obtain as where w: "Rio_write stdout (next_line MAXBUF bs) = Inr (next_line MAXBUF bs, as)" "WriteFailed \<notin> set as"
      by (rule Rio_write_spec [OF less.prems(5)])
    have "length (next_line MAXBUF bs @ 0 # drop (?m + 1) buf) = MAXBUF" using True less.prems(4) by simp
    moreover have "length (drop ?m bs) < length bs" using m(1,2) unfolding length_drop by linarith
    ultimately have "simple_body_loop (next_line MAXBUF bs @ 0 # drop (?m + 1) buf) rp' as (len + int ?m) (pr @ next_line MAXBUF bs) = Inl OutOfBounds"
      using less.hyps [OF _ r(2,3) lines_fit_rest [OF less.prems(3) True] _ w(2)] by blast
    with m(1) r(1) w(1) show ?thesis by (simp add: simple_body_loop.simps [of buf] Rio_readlineb_def rd)
  qed
qed

lemma simple_print_spec:
  assumes fd: "reliable fd" "inflow fd = concat (map (\<lambda>h. h @ crnl) hs) @ crnl @ bs"
    and hs: "hs \<noteq> []" "\<forall>h \<in> set hs. text_line h \<and> h \<noteq> []"
    and buf: "length buf = MAXBUF" and out: "WriteFailed \<notin> set stdout"
  shows "simple_print buf fd stdout = (if \<not> lines_fit MAXBUF bs then Inl OutOfBounds
    else if announced (tl hs @ [[]]) \<in> {0, int (length bs)} then Inr (headers_shown hs @ bs) else Inl AssertFailed)"
proof -
  obtain g gs where g: "hs = g # gs" using hs(1) by (cases hs) auto
  note r0 = rio_init_ok [OF fd(1)]
  have "rio_stream (rio_init fd) = g @ crnl @ (concat (map (\<lambda>h. h @ crnl) gs) @ crnl @ bs)" "text_line g" "g \<noteq> []"
    using r0 fd(2) hs(2) g by simp_all
  from read_text_line [OF conjunct1 [OF r0] this(1,2) buf] this(3) obtain rp1 b1 where
    r1: "Rio_readlineb (rio_init fd) buf MAXLINE = Inr (int (length g + 2), b1, rp1)" "length b1 = MAXLINE"
      "c_string b1 = Inr (g @ crnl)" "rio_ok rp1" "rio_stream rp1 = concat (map (\<lambda>h. h @ crnl) gs) @ crnl @ bs" "g \<noteq> []" by metis
  have "text_line h \<and> h \<noteq> []" if "h \<in> set gs" for h using hs(2) g that by simp
  from simple_headers [OF this r1(4,5,3,6) _ r1(2), of "int (length g + 2)" 0 "[]"] obtain b2 rp2 where
    r2: "simple_header_loop (int (length g + 2)) b1 rp1 0 [] = Inr (b2, rp2, announced (gs @ [[]]), headers_shown hs)"
      "length b2 = MAXBUF" "rio_ok rp2" "rio_stream rp2 = bs"
    by (auto simp: announced_def g)
  show ?thesis unfolding simple_print_def r1(1) bindr_Inr prod.case r2(1)
    using simple_body [OF r2(3,4) _ r2(2) out, of 0 "headers_shown hs"] simple_body_over [OF r2(3,4) _ r2(2) out, of 0 "headers_shown hs"]
    by (cases "lines_fit MAXBUF bs") (auto simp: g c_assert_def)
qed

lemma server_main_queue:
  assumes "server_main argv alloc = Inr (port, p)"
  shows "1024 \<le> port \<and> 0 \<le> nr_threads (server p) \<and> 0 \<le> max_requests (server p) \<and> length (workers p) = nat (nr_threads (server p))
    \<and> buffer (server p) = alloc (nat (max_requests (server p) + 1))"
  using assms by (auto simp: server_main_def server_arguments_def bindr_eq_Inr Let_def pool_start_def server_init_def split: if_splits)

section \<open>Properties\<close>

text \<open>
  C28: The simple client.  It sends the request and then prints every line of the header, marked, and after them the
  bytes of the body, however the response is cut up on its way, if the last length that the header announces is the
  length of the body, or 0, or there is none; else its check fails.  The first line of the header is not searched.  All
  this is for a body without a run of 8192 bytes that has no newline: such a run is written past the end of the buffer.
  The header has lines of 1 to 8189 bytes without zero bytes, the body has less than 2 GB, the name of the file and the
  host together less than 8000 bytes, the connection is made and no read or write on it or on the output fails.
\<close>

theorem simple_client_prints:
  assumes "open_clientfd host (atoi port) = Some c" "WriteFailed \<notin> set (acceptances c)" "length fn + length host < 8000"
    and "reliable (from_peer c)" "inflow (from_peer c) = concat (map (\<lambda>h. h @ crnl) hs) @ crnl @ bs"
    and "hs \<noteq> []" "\<forall>h \<in> set hs. text_line h \<and> h \<noteq> []" "length bs < 2 ^ 31" "length buf = MAXBUF" "WriteFailed \<notin> set stdout"
  shows "if lines_fit MAXBUF bs then \<exists>c'. to_peer c' = to_peer c @ request_text host fn
      \<and> client_simple_main [prog, host, port, fn] open_clientfd buf stdout =
          (if announced (tl hs @ [[]]) \<in> {0, int (length bs)} then Inr (c', headers_shown hs @ bs) else Inl AssertFailed)
    else client_simple_main [prog, host, port, fn] open_clientfd buf stdout = Inl OutOfBounds"
proof -
  have "simple_send = client_send" by (simp add: fun_eq_iff simple_send_def client_send_def)
  with client_send_spec [OF assms(2,3)] obtain as where
    s: "simple_send host fn c = Inr (c\<lparr>acceptances := as, to_peer := to_peer c @ request_text host fn\<rparr>)" by metis
  let ?c = "c\<lparr>acceptances := as, to_peer := to_peer c @ request_text host fn\<rparr>"
  have "client_simple_main [prog, host, port, fn] open_clientfd buf stdout
      = bindr (simple_print buf (from_peer c) stdout) (\<lambda>pr. Inr (?c\<lparr>is_open := False\<rparr>, pr))"
    using assms(1) s by (simp add: client_simple_main_def)
  note e = this [unfolded simple_print_spec [OF assms(4-7,9,10)]]
  show ?thesis
  proof (cases "lines_fit MAXBUF bs")
    case True
    then show ?thesis unfolding e if_P [OF True] by (intro exI [of _ "?c\<lparr>is_open := False\<rparr>"]) simp
  qed (simp add: e)
qed

text \<open>A page of two bytes, and one that is cut short.\<close>

theorem simple_client_prints_witness:
  "\<exists>c'. client_simple_main [lit ''c'', lit ''h'', lit ''80'', lit ''/''] (\<lambda>_ _. Some (example_conn
        (lit ''HTTP/1.0 200 OK'' @ crnl @ lit ''Content-Length: 2'' @ crnl @ crnl @ lit ''hi''))) (replicate MAXBUF 0) []
      = Inr (c', lit ''Header: HTTP/1.0 200 OK'' @ crnl @ lit ''Header: Content-Length: 2'' @ crnl @ lit ''hi'')
    \<and> client_simple_main [lit ''c'', lit ''h'', lit ''80'', lit ''/''] (\<lambda>_ _. Some (example_conn
        (lit ''HTTP/1.0 200 OK'' @ crnl @ lit ''Content-Length: 2'' @ crnl @ crnl @ lit ''h''))) (replicate MAXBUF 0) []
      = Inl AssertFailed"
proof -
  let ?hs = "[lit ''HTTP/1.0 200 OK'', lit ''Content-Length: '' @ dec_nat 2]"
  have d: "dec_nat 2 = [50]" by (simp add: dec_nat.simps)
  have hs: "\<forall>h \<in> set ?hs. text_line h \<and> h \<noteq> []" by (simp add: text_line_def lit_def d)
  have r: "crnl = [] \<or> \<not> is_digit (hd crnl)" by (simp add: crnl_def is_digit_def)
  have sc: "scan_d (lit ''Content-Length:'') ((lit ''Content-Length: '' @ dec_nat 2) @ crnl) = Some 2"
    "scan_d (lit ''Content-Length:'') ([] @ crnl) = None"
    using scan_number(1) [OF r, of 2 "lit ''Content-Length:''"] by (simp_all add: lit_def scan_d_def scan_after_def crnl_def)
  have an: "announced (tl ?hs @ [[]]) = 2"
    unfolding announced_def list.sel append.simps foldl_Cons foldl_Nil sc [unfolded append.simps] or_else_def option.case ..
  have lf: "lines_fit MAXBUF bs" if "length bs < MAXBUF" for bs
    unfolding lines_fit_def by (intro allI impI le_less_trans [OF next_line_length(2)]) (use that in simp)
  have go: "\<exists>c'. client_simple_main [lit ''c'', lit ''h'', lit ''80'', lit ''/''] (\<lambda>_ _. Some (example_conn
        (concat (map (\<lambda>h. h @ crnl) ?hs) @ crnl @ bs))) (replicate MAXBUF 0) []
      = (if (2 :: int) \<in> {0, int (length bs)} then Inr (c', headers_shown ?hs @ bs) else Inl AssertFailed)"
    if "length bs < MAXBUF" for bs
  proof -
    let ?c = "example_conn (concat (map (\<lambda>h. h @ crnl) ?hs) @ crnl @ bs)"
    have "reliable (from_peer ?c)" "inflow (from_peer ?c) = concat (map (\<lambda>h. h @ crnl) ?hs) @ crnl @ bs"
      "WriteFailed \<notin> set (acceptances ?c)" by (simp_all add: example_conn_def crnl_def)
    moreover have "length bs < 2 ^ 31" using that by simp
    ultimately show ?thesis
      using simple_client_prints [OF _ _ _ _ _ _ hs, of "\<lambda>_ _. Some ?c" "lit ''h''" "lit ''80''" ?c "lit ''/''" bs
          "replicate MAXBUF 0" "[]" "lit ''c''", unfolded an if_P [OF lf [OF that]]]
      by (auto simp: lit_def)
  qed
  from go [of "lit ''hi''"] go [of "lit ''h''"] show ?thesis by (simp add: headers_shown_def d lit_def)
qed

end
