(* ===== verification/Points.thy ===== *)
theory Points
  imports Results "HOL-Library.Multiset"
begin

text \<open>
  \<open>src/warmup/point.c\<close> and \<open>src/warmup/sorted_points.c\<close>.  A \<open>double\<close> is a number, an element of a
  linear order in which the two zeros are one, or NaN, with which every comparison fails; its arithmetic is a
  parameter of which nothing is assumed.  The linked list is a list of nodes; a position in it is the list of the
  nodes before, backwards, the node itself and the nodes after.
\<close>

section \<open>Doubles\<close>

datatype 'd double = NaN | Num 'd

fun flt :: "('d :: linorder) double \<Rightarrow> 'd double \<Rightarrow> bool" where
  "flt (Num a) (Num b) = (a < b)"
| "flt _ _ = False"

fun feq :: "'d double \<Rightarrow> 'd double \<Rightarrow> bool" where
  "feq (Num a) (Num b) = (a = b)"
| "feq _ _ = False"

lemma feq_not_less: "feq a b \<Longrightarrow> \<not> flt a b \<and> \<not> flt b a"
  by (cases a; cases b) auto

section \<open>Points\<close>

record 'd point =
  px :: "'d double"
  py :: "'d double"

text \<open>\<open>fhyp a b\<close> is \<open>sqrt(pow(a, 2) + pow(b, 2))\<close>.\<close>

record 'd arith =
  fadd :: "'d double \<Rightarrow> 'd double \<Rightarrow> 'd double"
  fsub :: "'d double \<Rightarrow> 'd double \<Rightarrow> 'd double"
  fhyp :: "'d double \<Rightarrow> 'd double \<Rightarrow> 'd double"

definition point_translate :: "'d arith \<Rightarrow> 'd point \<Rightarrow> 'd double \<Rightarrow> 'd double \<Rightarrow> 'd point" where
  "point_translate A p x y = \<lparr>px = fadd A (px p) x, py = fadd A (py p) y\<rparr>"

definition point_distance :: "'d arith \<Rightarrow> 'd point \<Rightarrow> 'd point \<Rightarrow> 'd double" where
  "point_distance A p1 p2 = fhyp A (fsub A (py p2) (py p1)) (fsub A (px p2) (px p1))"

definition point_compare :: "('d :: linorder) arith \<Rightarrow> 'd point \<Rightarrow> 'd point \<Rightarrow> int" where
  "point_compare A p1 p2 =
     (let distP1 = fhyp A (py p1) (px p1); distP2 = fhyp A (py p2) (px p2) in
      if flt distP2 distP1 then 1 else if feq distP1 distP2 then 0 else if flt distP1 distP2 then - 1 else 2)"

section \<open>Adding a point\<close>

record 'd point_node =
  pt :: "'d point"
  origin_dist :: "'d double"

definition new_node :: "'d arith \<Rightarrow> 'd double \<Rightarrow> 'd double \<Rightarrow> 'd point_node" where
  "new_node A x y = \<lparr>pt = \<lparr>px = x, py = y\<rparr>, origin_dist = fhyp A y x\<rparr>"

text \<open>The two inner loops.\<close>

fun skip_x :: "('d :: linorder) point_node \<Rightarrow> 'd point_node list \<Rightarrow> 'd point_node \<Rightarrow> 'd point_node list \<Rightarrow>
    'd point_node list \<times> 'd point_node \<times> 'd point_node list" where
  "skip_x new pre temp [] = (pre, temp, [])"
| "skip_x new pre temp (t # ts) =
     (if feq (origin_dist new) (origin_dist temp) \<and> flt (px (pt temp)) (px (pt new)) then skip_x new (temp # pre) t ts
      else (pre, temp, t # ts))"

fun skip_y :: "('d :: linorder) point_node \<Rightarrow> 'd point_node list \<Rightarrow> 'd point_node \<Rightarrow> 'd point_node list \<Rightarrow>
    'd point_node list \<times> 'd point_node \<times> 'd point_node list" where
  "skip_y new pre temp [] = (pre, temp, [])"
| "skip_y new pre temp (t # ts) =
     (if feq (origin_dist new) (origin_dist temp) \<and> flt (py (pt temp)) (py (pt new)) then skip_y new (temp # pre) t ts
      else (pre, temp, t # ts))"

text \<open>
  What a branch does: it returns, or goes on at a position.  \<open>link_in\<close> puts the new node before
  \<open>temp\<close>; \<open>link_pre\<close> does so through \<open>pre\<close>, which it takes to be a node.
\<close>

datatype 'd add_step =
  Ret "(int \<times> 'd point_node list) result"
| Go "'d point_node list" "'d point_node" "'d point_node list"

definition link_in :: "'d point_node \<Rightarrow> 'd point_node list \<Rightarrow> 'd point_node \<Rightarrow> 'd point_node list \<Rightarrow> (int \<times> 'd point_node list) result" where
  "link_in new pre temp rest = Inr (1, rev pre @ new # temp # rest)"

definition link_pre :: "'d point_node \<Rightarrow> 'd point_node list \<Rightarrow> 'd point_node \<Rightarrow> 'd point_node list \<Rightarrow> (int \<times> 'd point_node list) result" where
  "link_pre new pre temp rest = (if pre = [] then Inl BadPointer else Inr (1, rev pre @ new # temp # rest))"

definition x_step :: "('d :: linorder) point_node \<Rightarrow> 'd point_node list \<Rightarrow> 'd point_node \<Rightarrow> 'd point_node list \<Rightarrow> 'd add_step" where
  "x_step new pre temp rest =
     (if flt (px (pt new)) (px (pt temp)) then Ret (link_in new pre temp rest)
      else if flt (px (pt temp)) (px (pt new)) then
        let (pre, temp, rest) = skip_x new pre temp rest in
        if \<not> feq (px (pt new)) (px (pt temp)) then
          if rest = [] \<and> flt (px (pt temp)) (px (pt new)) then Ret (Inr (1, rev pre @ [temp, new]))
          else Ret (link_pre new pre temp rest)
        else Go pre temp rest
      else Go pre temp rest)"

definition y_step :: "('d :: linorder) point_node \<Rightarrow> 'd point_node list \<Rightarrow> 'd point_node \<Rightarrow> 'd point_node list \<Rightarrow> 'd add_step" where
  "y_step new pre temp rest =
     (if flt (py (pt new)) (py (pt temp)) then Ret (link_in new pre temp rest)
      else if flt (py (pt temp)) (py (pt new)) then
        let (pre, temp, rest) = skip_y new pre temp rest in
        if \<not> feq (py (pt new)) (py (pt temp)) then
          if rest = [] \<and> flt (py (pt temp)) (py (pt new)) then Ret (Inr (1, rev pre @ [temp, new]))
          else Ret (link_pre new pre temp rest)
        else Go pre temp rest
      else Go pre temp rest)"

text \<open>
  The outer loop; \<open>rest\<close> is empty when \<open>temp\<close> is the last node.  If a round does not move on, the next one
  is the same, and so on for ever.
\<close>

function sp_add_loop :: "('d :: linorder) point_node \<Rightarrow> 'd point_node list \<Rightarrow> 'd point_node \<Rightarrow> 'd point_node list \<Rightarrow>
    (int \<times> 'd point_node list) result" where
  "sp_add_loop new pre temp [] = Inr (1, rev pre @ [temp, new])"
| "sp_add_loop new pre temp (t # ts) =
     (if flt (origin_dist temp) (origin_dist new) then sp_add_loop new (temp # pre) t ts
      else if flt (origin_dist new) (origin_dist temp) then link_in new pre temp (t # ts)
      else
        case x_step new pre temp (t # ts) of
          Ret r \<Rightarrow> r
        | Go pre' temp' rest' \<Rightarrow>
            case y_step new pre' temp' rest' of
              Ret r \<Rightarrow> r
            | Go pre'' temp'' rest'' \<Rightarrow>
                if feq (px (pt new)) (px (pt temp'')) \<and> feq (py (pt new)) (py (pt temp'')) then link_in new pre'' temp'' rest''
                else if length rest'' < length (t # ts) then sp_add_loop new pre'' temp'' rest''
                else Inl Diverges)"
  by pat_completeness auto
termination
  by (relation "measure (\<lambda>(new, pre, temp, rest). length rest)") auto

declare sp_add_loop.simps [simp del]

text \<open>An inner loop moves on or leaves the position as it was.\<close>

lemma skip_x_moves:
  "skip_x new pre temp rest = (pre', temp', rest') \<Longrightarrow> length rest' < length rest \<or> (pre', temp', rest') = (pre, temp, rest)"
  by (induction new pre temp rest rule: skip_x.induct) (fastforce split: if_splits)+

lemma skip_y_moves:
  "skip_y new pre temp rest = (pre', temp', rest') \<Longrightarrow> length rest' < length rest \<or> (pre', temp', rest') = (pre, temp, rest)"
  by (induction new pre temp rest rule: skip_y.induct) (fastforce split: if_splits)+

text \<open>\<open>got\<close> and \<open>got'\<close> tell whether \<open>malloc\<close> returns memory for the node and for its point; neither is checked.\<close>

definition sp_add_point :: "('d :: linorder) arith \<Rightarrow> bool \<Rightarrow> bool \<Rightarrow> 'd point_node list \<Rightarrow> 'd double \<Rightarrow> 'd double \<Rightarrow>
    (int \<times> 'd point_node list) result" where
  "sp_add_point A got got' sp x y =
     (if \<not> got \<or> \<not> got' then Inl BadPointer
      else
        let new = new_node A x y in
        case sp of [] \<Rightarrow> Inr (1, [new]) | temp # rest \<Rightarrow> sp_add_loop new [] temp rest)"

section \<open>Removing points\<close>

text \<open>The result is the return value, the point stored in \<open>*ret\<close> if any, and the list.\<close>

type_synonym 'd removal = "int \<times> 'd point option \<times> 'd point_node list"

definition sp_remove_first :: "'d point_node list \<Rightarrow> 'd removal" where
  "sp_remove_first sp = (case sp of [] \<Rightarrow> (0, None, []) | temp # rest \<Rightarrow> (1, Some (pt temp), rest))"

fun remove_last_loop :: "'d point_node list \<Rightarrow> 'd point_node \<Rightarrow> 'd point_node list \<Rightarrow> 'd removal" where
  "remove_last_loop pre temp [] = (1, Some (pt temp), rev pre)"
| "remove_last_loop pre temp (t # ts) = remove_last_loop (temp # pre) t ts"

definition sp_remove_last :: "'d point_node list \<Rightarrow> 'd removal" where
  "sp_remove_last sp = (case sp of [] \<Rightarrow> (0, None, []) | [temp] \<Rightarrow> (1, Some (pt temp), [])
     | temp # rest \<Rightarrow> remove_last_loop [] temp rest)"

fun by_index_loop :: "int \<Rightarrow> int \<Rightarrow> 'd point_node list \<Rightarrow> 'd point_node list \<Rightarrow> 'd removal" where
  "by_index_loop cnt index pre [] = (0, None, rev pre)"
| "by_index_loop cnt index pre (t # ts) =
     (if cnt = index then (1, Some (pt t), rev pre @ ts) else by_index_loop (cnt + 1) index (t # pre) ts)"

definition sp_remove_by_index :: "'d point_node list \<Rightarrow> int \<Rightarrow> 'd removal" where
  "sp_remove_by_index sp index =
     (case sp of [] \<Rightarrow> (0, None, [])
      | temp # rest \<Rightarrow> if index = 0 then (1, Some (pt temp), rest) else by_index_loop 0 index [] sp)"

text \<open>\<open>before\<close> are the nodes before \<open>pre\<close>, backwards.\<close>

fun duplicates_loop :: "int \<Rightarrow> 'd point_node list \<Rightarrow> 'd point_node \<Rightarrow> 'd point_node list \<Rightarrow> int \<times> 'd point_node list" where
  "duplicates_loop cnt before pre [] = (cnt, rev before @ [pre])"
| "duplicates_loop cnt before pre (temp # ts) =
     (if feq (px (pt pre)) (px (pt temp)) \<and> feq (py (pt pre)) (py (pt temp)) then duplicates_loop (cnt + 1) before pre ts
      else duplicates_loop cnt (pre # before) temp ts)"

definition sp_delete_duplicates :: "'d point_node list \<Rightarrow> int \<times> 'd point_node list" where
  "sp_delete_duplicates sp =
     (case sp of [] \<Rightarrow> (0, []) | [pre] \<Rightarrow> (0, [pre]) | pre # temp # ts \<Rightarrow> duplicates_loop 0 [] pre (temp # ts))"

end
