(* ===== verification/PointsSpec.thy ===== *)
theory PointsSpec
  imports Points
begin

text \<open>
  What the operations on sorted points do to the list: an added point goes somewhere into the list and
  nothing else changes; where, for a point whose distance no point but the last one has; and what the removals take out.
\<close>

section \<open>Adding\<close>

text \<open>Coordinates and distance are numbers.\<close>

definition numbers :: "'d point_node \<Rightarrow> bool" where
  "numbers q \<longleftrightarrow> px (pt q) \<noteq> NaN \<and> py (pt q) \<noteq> NaN \<and> origin_dist q \<noteq> NaN"

lemma compared: "a \<noteq> NaN \<Longrightarrow> b \<noteq> NaN \<Longrightarrow> flt a b \<or> flt b a \<or> feq a b"
  by (cases a; cases b) auto

lemma flt_asym: "flt a b \<Longrightarrow> \<not> flt b a \<and> \<not> feq a b \<and> \<not> feq b a"
  by (cases a; cases b) auto

lemma flt_trans: "flt a b \<Longrightarrow> flt b c \<Longrightarrow> flt a c"
  by (cases a; cases b; cases c) auto

definition whole :: "'d point_node list \<Rightarrow> 'd point_node \<Rightarrow> 'd point_node list \<Rightarrow> 'd point_node list" where
  "whole pre temp rest = rev pre @ temp # rest"

definition puts :: "'d point_node \<Rightarrow> 'd point_node list \<Rightarrow> (int \<times> 'd point_node list) result \<Rightarrow> bool" where
  "puts new sp r \<longleftrightarrow> (\<exists>us vs. r = Inr (1, us @ new # vs) \<and> sp = us @ vs)"

lemma puts_before: "puts new (whole pre temp rest) (link_in new pre temp rest)"
  "pre \<noteq> [] \<Longrightarrow> puts new (whole pre temp rest) (link_pre new pre temp rest)"
  by (auto simp: puts_def whole_def link_in_def link_pre_def)

lemma puts_end: "puts new (whole pre temp []) (Inr (1, rev pre @ [temp, new]))"
  unfolding puts_def whole_def by (rule exI [of _ "rev pre @ [temp]"], rule exI [of _ "[]"]) simp

lemma skip_x_whole: "skip_x new pre temp rest = (pre', temp', rest') \<Longrightarrow>
    whole pre' temp' rest' = whole pre temp rest \<and> (pre \<noteq> [] \<longrightarrow> pre' \<noteq> [])"
  by (induction new pre temp rest rule: skip_x.induct) (fastforce simp: whole_def split: if_splits)+

lemma skip_y_whole: "skip_y new pre temp rest = (pre', temp', rest') \<Longrightarrow>
    whole pre' temp' rest' = whole pre temp rest \<and> (pre \<noteq> [] \<longrightarrow> pre' \<noteq> [])"
  by (induction new pre temp rest rule: skip_y.induct) (fastforce simp: whole_def split: if_splits)+

lemma x_step_whole:
  assumes d: "feq (origin_dist new) (origin_dist temp)"
  shows "case x_step new pre temp (t # ts) of Ret r \<Rightarrow> puts new (whole pre temp (t # ts)) r
    | Go pre' temp' rest' \<Rightarrow> whole pre' temp' rest' = whole pre temp (t # ts)
        \<and> (pre' \<noteq> [] \<or> (pre' = pre \<and> temp' = temp \<and> rest' = t # ts))"
proof (cases "flt (px (pt temp)) (px (pt new))")
  case True
  obtain pre' temp' rest' where s: "skip_x new (temp # pre) t ts = (pre', temp', rest')" by (metis prod_cases3)
  from skip_x_whole [OF s] have w: "whole pre' temp' rest' = whole pre temp (t # ts)" "pre' \<noteq> []" by (simp_all add: whole_def)
  with True flt_asym [OF True] s d puts_end [of new pre' temp'] puts_before(2) [of pre' new temp' rest'] show ?thesis
    by (auto simp: x_step_def)
qed (use puts_before(1) [of new pre temp "t # ts"] in \<open>simp add: x_step_def\<close>)

lemma y_step_whole:
  assumes "pre \<noteq> [] \<or> (feq (origin_dist new) (origin_dist temp) \<and> rest = t # ts)"
  shows "case y_step new pre temp rest of Ret r \<Rightarrow> puts new (whole pre temp rest) r
    | Go pre' temp' rest' \<Rightarrow> whole pre' temp' rest' = whole pre temp rest"
proof (cases "flt (py (pt temp)) (py (pt new))")
  case True
  obtain pre' temp' rest' where s: "skip_y new pre temp rest = (pre', temp', rest')" by (metis prod_cases3)
  from skip_y_whole [OF s] have w: "whole pre' temp' rest' = whole pre temp rest" by simp
  have "pre' \<noteq> []"
  proof (cases "pre = []")
    case True
    with assms \<open>flt (py (pt temp)) (py (pt new))\<close> s skip_y_whole [of new "[temp]" t ts pre' temp' rest'] show ?thesis by simp
  qed (use skip_y_whole [OF s] in simp)
  with True flt_asym [OF True] s w puts_end [of new pre' temp'] puts_before(2) [of pre' new temp' rest'] show ?thesis
    by (auto simp: y_step_def)
qed (use puts_before(1) [of new pre temp rest] in \<open>simp add: y_step_def\<close>)

lemma x_step_stays:
  assumes "x_step new pre temp rest = Go pre' temp' rest'"
  shows "\<not> flt (px (pt new)) (px (pt temp)) \<and> (flt (px (pt temp)) (px (pt new)) \<longrightarrow> feq (px (pt new)) (px (pt temp')))"
  using assms by (auto simp: x_step_def Let_def split: if_splits prod.splits)

lemma y_step_stays:
  assumes "y_step new pre temp rest = Go pre' temp' rest'"
  shows "\<not> flt (py (pt new)) (py (pt temp)) \<and> (flt (py (pt temp)) (py (pt new)) \<longrightarrow> feq (py (pt new)) (py (pt temp')))"
  using assms by (auto simp: y_step_def Let_def split: if_splits prod.splits)

lemma x_step_length:
  assumes "x_step new pre temp rest = Go pre' temp' rest'"
  shows "length rest' < length rest \<or> (pre', temp', rest') = (pre, temp, rest)"
  using assms skip_x_moves [of new pre temp rest] by (auto simp: x_step_def Let_def split: if_splits prod.splits)

lemma y_step_length:
  assumes "y_step new pre temp rest = Go pre' temp' rest'"
  shows "length rest' < length rest \<or> (pre', temp', rest') = (pre, temp, rest)"
  using assms skip_y_moves [of new pre temp rest] by (auto simp: y_step_def Let_def split: if_splits prod.splits)

text \<open>A round moves on or leaves the position as it was, so that \<open>Diverges\<close> is right in \<open>sp_add_loop\<close>.\<close>

lemma round_moves:
  assumes "x_step new pre temp rest = Go pre' temp' rest'" "y_step new pre' temp' rest' = Go pre'' temp'' rest''"
  shows "length rest'' < length rest \<or> (pre'', temp'', rest'') = (pre, temp, rest)"
  using x_step_length [OF assms(1)] y_step_length [OF assms(2)] by auto

lemma sp_add_loop_puts:
  assumes "numbers new" "\<forall>q \<in> set (whole pre temp rest). numbers q"
  shows "puts new (whole pre temp rest) (sp_add_loop new pre temp rest)"
  using assms
proof (induction new pre temp rest rule: sp_add_loop.induct)
  case (1 new pre temp)
  show ?case by (simp add: sp_add_loop.simps puts_end)
next
  case (2 new pre temp t ts)
  consider (far) "flt (origin_dist temp) (origin_dist new)" | (near) "flt (origin_dist new) (origin_dist temp)"
    | (same) "feq (origin_dist new) (origin_dist temp)"
    using compared [of "origin_dist new" "origin_dist temp"] 2(3,4) by (auto simp: numbers_def whole_def)
  then show ?case
  proof cases
    case far
    then show ?thesis using 2(1) 2(3,4) by (simp add: sp_add_loop.simps(2) whole_def)
  next
    case near
    then show ?thesis using flt_asym [OF near] puts_before(1) [of new pre temp "t # ts"] by (simp add: sp_add_loop.simps(2))
  next
    case d: same
    note nd = feq_not_less [OF d]
    note x = x_step_whole [OF d, of pre t ts]
    show ?thesis
    proof (cases "x_step new pre temp (t # ts)")
      case (Ret r)
      with x nd show ?thesis by (simp add: sp_add_loop.simps(2))
    next
      case xg: (Go p1 t1 r1)
      with x d have w1: "whole p1 t1 r1 = whole pre temp (t # ts)"
        and "p1 \<noteq> [] \<or> (feq (origin_dist new) (origin_dist t1) \<and> r1 = t # ts)" by auto
      note y = y_step_whole [OF this(2)]
      show ?thesis
      proof (cases "y_step new p1 t1 r1")
        case (Ret r)
        with xg y w1 nd show ?thesis by (simp add: sp_add_loop.simps(2))
      next
        case yg: (Go p2 t2 r2)
        with y w1 have w2: "whole p2 t2 r2 = whole pre temp (t # ts)" by simp
        show ?thesis
        proof (cases "feq (px (pt new)) (px (pt t2)) \<and> feq (py (pt new)) (py (pt t2))")
          case True
          then show ?thesis using xg yg nd w2 puts_before(1) [of new p2 t2 r2] by (simp add: sp_add_loop.simps(2))
        next
          case False
          have "length r2 < length (t # ts)"
          proof (rule ccontr)
            assume "\<not> length r2 < length (t # ts)"
            with round_moves [OF xg yg] have s: "p2 = pre" "t2 = temp" "r2 = t # ts" by auto
            have "length r1 \<le> length (t # ts)" "length r2 \<le> length r1"
              using x_step_length [OF xg] y_step_length [OF yg] by auto
            with s(3) have "length r1 = length (t # ts)" "length r2 = length r1" by simp_all
            then have "t1 = temp" "t2 = t1" using x_step_length [OF xg] y_step_length [OF yg] by auto
            moreover have n: "numbers temp" using 2(4) by (simp add: whole_def)
            ultimately have "feq (px (pt new)) (px (pt temp)) \<and> feq (py (pt new)) (py (pt temp))"
              using x_step_stays [OF xg] y_step_stays [OF yg] 2(3) compared by (metis numbers_def)
            with False s(2) show False by simp
          qed
          with 2(2) [OF _ _ xg yg False] nd w2 2(3,4) have p: "puts new (whole pre temp (t # ts)) (sp_add_loop new p2 t2 r2)" by simp
          have "sp_add_loop new pre temp (t # ts) = sp_add_loop new p2 t2 r2"
            unfolding sp_add_loop.simps(2) [of new pre] xg add_step.case yg if_not_P [OF False]
            using nd \<open>length r2 < length (t # ts)\<close> by simp
          with p show ?thesis by simp
        qed
      qed
    qed
  qed
qed

lemma sp_add_point_puts:
  "numbers (new_node A x y) \<Longrightarrow> \<forall>q \<in> set sp. numbers q \<Longrightarrow> puts (new_node A x y) sp (sp_add_point A True True sp x y)"
  using sp_add_loop_puts [of "new_node A x y" "[]"]
  by (cases sp) (auto simp: sp_add_point_def whole_def puts_def Let_def)

text \<open>
  C37: \<open>sp_add_point\<close>.  When memory is there and neither the new point nor one of the list has a NaN, it
  returns 1, never follows a null pointer, and puts exactly the new point with its distance into the list, leaving
  the order of the others as it was.  When \<open>malloc\<close> fails it follows the null pointer, where the header promises the
  result 0.  A point of two NaNs, whose distance is NaN, is added to a list of at most one point, and makes the
  loop run for ever on a longer one.
\<close>

theorem sp_add_point_adds:
  "(numbers (new_node A x y) \<and> (\<forall>q \<in> set sp. numbers q) \<longrightarrow>
      (\<exists>us vs. sp_add_point A True True sp x y = Inr (1, us @ new_node A x y # vs) \<and> sp = us @ vs))
   \<and> (\<not> (got \<and> got') \<longrightarrow> sp_add_point A got got' sp x y = Inl BadPointer)
   \<and> (fhyp A NaN NaN = NaN \<longrightarrow> sp_add_point A True True sp NaN NaN =
        (if length sp < 2 then Inr (1, sp @ [new_node A NaN NaN]) else Inl Diverges))"
proof (intro conjI impI)
  show "\<exists>us vs. sp_add_point A True True sp x y = Inr (1, us @ new_node A x y # vs) \<and> sp = us @ vs"
    if "numbers (new_node A x y) \<and> (\<forall>q \<in> set sp. numbers q)"
    using that sp_add_point_puts [of A x y sp] by (simp add: puts_def)
  show "sp_add_point A got got' sp x y = Inl BadPointer" if "\<not> (got \<and> got')"
    using that by (auto simp: sp_add_point_def)
  assume d: "fhyp A NaN NaN = NaN"
  show "sp_add_point A True True sp NaN NaN = (if length sp < 2 then Inr (1, sp @ [new_node A NaN NaN]) else Inl Diverges)"
  proof (cases sp)
    case sp: (Cons temp rest)
    then show ?thesis
      using d by (cases rest) (simp_all add: sp_add_point_def new_node_def sp_add_loop.simps x_step_def y_step_def)
  qed (simp add: sp_add_point_def)
qed

definition squares :: "int arith" where
  "squares = \<lparr>fadd = (\<lambda>a b. case (a, b) of (Num m, Num n) \<Rightarrow> Num (m + n) | _ \<Rightarrow> NaN),
     fsub = (\<lambda>a b. case (a, b) of (Num m, Num n) \<Rightarrow> Num (m - n) | _ \<Rightarrow> NaN),
     fhyp = (\<lambda>a b. case (a, b) of (Num m, Num n) \<Rightarrow> Num (m * m + n * n) | _ \<Rightarrow> NaN)\<rparr>"

abbreviation square_node :: "int \<Rightarrow> int \<Rightarrow> int point_node" where
  "square_node m n \<equiv> new_node squares (Num m) (Num n)"

theorem sp_add_point_adds_witness:
  "(\<exists>us vs. sp_add_point squares True True [square_node 1 1, square_node 3 3] (Num 2) (Num 2) = Inr (1, us @ square_node 2 2 # vs)
      \<and> [square_node 1 1, square_node 3 3] = us @ vs)
   \<and> sp_add_point squares True False [square_node 1 1, square_node 3 3] (Num 2) (Num 2) = Inl BadPointer
   \<and> sp_add_point squares True True [square_node 1 1, square_node 3 3] NaN NaN = Inl Diverges"
  using sp_add_point_adds [of squares "Num 2" "Num 2" "[square_node 1 1, square_node 3 3]" True False]
  by (simp add: numbers_def new_node_def squares_def)

section \<open>The place of a point\<close>

lemma sp_add_loop_place:
  assumes "\<forall>q \<in> set (butlast (temp # rest)). numbers q \<and> \<not> feq (origin_dist q) (origin_dist new)" "numbers new"
  shows "sp_add_loop new pre temp rest = Inr (1, rev pre
    @ takeWhile (\<lambda>q. flt (origin_dist q) (origin_dist new)) (butlast (temp # rest)) @
    (let vs = dropWhile (\<lambda>q. flt (origin_dist q) (origin_dist new)) (butlast (temp # rest)) in
     if vs = [] then [last (temp # rest), new] else new # vs @ [last (temp # rest)]))"
  using assms(1)
proof (induction rest arbitrary: pre temp)
  case Nil
  then show ?case by (simp add: sp_add_loop.simps)
next
  case (Cons t ts)
  then have ne: "flt (origin_dist temp) (origin_dist new) \<or> flt (origin_dist new) (origin_dist temp)"
    using compared [of "origin_dist temp" "origin_dist new"] assms(2) by (auto simp: numbers_def)
  show ?case
  proof (cases "flt (origin_dist temp) (origin_dist new)")
    case True
    with Cons show ?thesis by (simp add: sp_add_loop.simps(2) Let_def)
  next
    case False
    with ne show ?thesis
      using append_butlast_last_id [of "t # ts"] by (simp add: sp_add_loop.simps(2) link_in_def Let_def)
  qed
qed

lemma sp_add_point_place:
  assumes "sp \<noteq> []" "\<forall>q \<in> set (butlast sp). numbers q \<and> \<not> feq (origin_dist q) (origin_dist (new_node A x y))"
    "numbers (new_node A x y)"
  shows "sp_add_point A True True sp x y = Inr (1,
      takeWhile (\<lambda>q. flt (origin_dist q) (origin_dist (new_node A x y))) (butlast sp) @
      (let vs = dropWhile (\<lambda>q. flt (origin_dist q) (origin_dist (new_node A x y))) (butlast sp) in
       if vs = [] then [last sp, new_node A x y] else new_node A x y # vs @ [last sp]))"
proof -
  from assms(1) obtain temp rest where sp: "sp = temp # rest" by (cases sp) auto
  from sp_add_loop_place [of temp rest "new_node A x y" "[]"] assms(2,3) show ?thesis
    by (simp add: sp_add_point_def sp del: butlast.simps last.simps)
qed

text \<open>The order of the header: by the distance, then by \<open>x\<close>, then by \<open>y\<close>.\<close>

definition in_order :: "('d :: linorder) point_node \<Rightarrow> 'd point_node \<Rightarrow> bool" where
  "in_order p q \<longleftrightarrow> flt (origin_dist p) (origin_dist q) \<or> feq (origin_dist p) (origin_dist q)
     \<and> (flt (px (pt p)) (px (pt q)) \<or> feq (px (pt p)) (px (pt q)) \<and> \<not> flt (py (pt q)) (py (pt p)))"

definition legal :: "('d :: linorder) point_node list \<Rightarrow> bool" where
  "legal sp \<longleftrightarrow> sorted_wrt in_order sp"

lemma in_order_dist: "in_order p q \<Longrightarrow> flt d (origin_dist p) \<Longrightarrow> flt d (origin_dist q)"
  unfolding in_order_def by (cases d; cases "origin_dist p"; cases "origin_dist q") auto

text \<open>
  C38: \<open>sp_add_point\<close> does not compare the new point with the last one.  Take a list in the order of the
  header, memory, no NaN, and a new point whose distance no point but possibly the last one has.  The new list is in this
  order except in one case: the new point belongs before the last point and is farther away than all the others.
  There it is put behind the last point all the same.
\<close>

theorem sp_add_point_sorted:
  assumes "\<forall>q \<in> set sp. numbers q" "numbers (new_node A x y)" "legal sp"
    and "\<forall>q \<in> set (butlast sp). \<not> feq (origin_dist q) (origin_dist (new_node A x y))"
  shows "\<exists>sp'. sp_add_point A True True sp x y = Inr (1, sp')
    \<and> (legal sp' \<longleftrightarrow> \<not> (sp \<noteq> [] \<and> (\<forall>q \<in> set (butlast sp). flt (origin_dist q) (origin_dist (new_node A x y)))
        \<and> \<not> in_order (last sp) (new_node A x y)))"
proof (cases "sp = []")
  case False
  let ?new = "new_node A x y"
  define us where "us = takeWhile (\<lambda>q. flt (origin_dist q) (origin_dist ?new)) (butlast sp)"
  define vs where "vs = dropWhile (\<lambda>q. flt (origin_dist q) (origin_dist ?new)) (butlast sp)"
  have uv: "butlast sp = us @ vs" by (simp add: us_def vs_def)
  have sp: "sp = us @ vs @ [last sp]" using append_butlast_last_id [OF False] uv by simp
  have "sorted_wrt in_order (us @ vs @ [last sp])" using assms(3) sp by (simp add: legal_def)
  then have s: "sorted_wrt in_order us" "sorted_wrt in_order vs" "\<forall>q \<in> set us. \<forall>r \<in> set (vs @ [last sp]). in_order q r"
    "\<forall>q \<in> set vs. in_order q (last sp)" by (auto simp: sorted_wrt_append)
  have u: "flt (origin_dist q) (origin_dist ?new)" if "q \<in> set us" for q using that by (auto simp: us_def dest: set_takeWhileD)
  then have u': "\<forall>q \<in> set us. in_order q ?new" by (simp add: in_order_def)
  have n: "\<forall>q \<in> set (butlast sp). numbers q \<and> \<not> feq (origin_dist q) (origin_dist ?new)"
    using assms(1,4) by (auto dest: in_set_butlastD)
  note add = sp_add_point_place [OF False n assms(2), folded us_def vs_def]
  show ?thesis
  proof (cases vs)
    case Nil
    have "legal (us @ [last sp, ?new]) \<longleftrightarrow> in_order (last sp) ?new"
      using s u' by (auto simp: legal_def sorted_wrt_append)
    with add Nil u False show ?thesis by (simp add: uv)
  next
    case (Cons v vs')
    have "\<not> flt (origin_dist v) (origin_dist ?new)"
      using hd_dropWhile [of "\<lambda>q. flt (origin_dist q) (origin_dist ?new)" "butlast sp"] Cons by (simp add: vs_def [symmetric])
    moreover have "v \<in> set (butlast sp)" using uv Cons by simp
    ultimately have v: "flt (origin_dist ?new) (origin_dist v)" "v \<in> set (butlast sp)"
      using compared [of "origin_dist v" "origin_dist ?new"] n assms(2) by (auto simp: numbers_def)
    have "flt (origin_dist ?new) (origin_dist q)" if "q \<in> set (vs @ [last sp])" for q
      using that v(1) s(2,4) in_order_dist [of v q "origin_dist ?new"] Cons by auto
    then have "\<forall>q \<in> set (vs @ [last sp]). in_order ?new q" by (simp add: in_order_def)
    with s u' have "legal (us @ ?new # vs @ [last sp])" by (auto simp: legal_def sorted_wrt_append)
    moreover have "\<not> (\<forall>q \<in> set (butlast sp). flt (origin_dist q) (origin_dist ?new))" using v flt_asym by blast
    ultimately show ?thesis using add Cons by simp
  qed
qed (simp add: sp_add_point_def legal_def)

theorem sp_add_point_sorted_witness:
  "(\<exists>sp'. sp_add_point squares True True [square_node 1 1, square_node 3 3] (Num 2) (Num 2) = Inr (1, sp') \<and> \<not> legal sp')
   \<and> (\<exists>sp'. sp_add_point squares True True [square_node 2 2, square_node 3 3] (Num 1) (Num 1) = Inr (1, sp') \<and> legal sp')"
  using sp_add_point_sorted [of "[square_node 1 1, square_node 3 3]" squares "Num 2" "Num 2"]
    sp_add_point_sorted [of "[square_node 2 2, square_node 3 3]" squares "Num 1" "Num 1"]
  by (simp add: numbers_def new_node_def squares_def legal_def in_order_def)

text \<open>
  With the distance of a point before the last one even a point that is nearer than the last one can end behind it:
  (3, 4), at the distance of (0, 5), goes behind (3, -10).
\<close>

lemma sp_add_point_tie:
  "sp_add_point squares True True [square_node 0 5, square_node 3 (- 10)] (Num 3) (Num 4)
     = Inr (1, [square_node 0 5, square_node 3 (- 10), square_node 3 4])"
  by (simp add: sp_add_point_def new_node_def squares_def sp_add_loop.simps x_step_def y_step_def)

section \<open>Removing\<close>

lemma by_index_loop_spec:
  "by_index_loop cnt index pre ts = (if cnt \<le> index \<and> index < cnt + int (length ts)
     then (1, Some (pt (ts ! nat (index - cnt))), rev pre @ take (nat (index - cnt)) ts @ drop (Suc (nat (index - cnt))) ts)
     else (0, None, rev pre @ ts))"
proof (induction cnt index pre ts rule: by_index_loop.induct)
  case (2 cnt index pre t ts)
  have "nat (index - cnt) = Suc (nat (index - (cnt + 1)))" if "cnt < index" using that by simp
  with 2 show ?case by (cases "cnt < index") auto
qed simp

lemma remove_last_loop_spec:
  "remove_last_loop pre temp rest = (1, Some (pt (last (temp # rest))), rev pre @ butlast (temp # rest))"
  by (induction pre temp rest rule: remove_last_loop.induct) auto

lemma sp_remove_last_eq: "sp \<noteq> [] \<Longrightarrow> sp_remove_last sp = (1, Some (pt (last sp)), butlast sp)"
  by (cases sp; cases "tl sp") (auto simp: sp_remove_last_def remove_last_loop_spec simp del: remove_last_loop.simps)

text \<open>
  The removals: \<open>sp_remove_by_index\<close> returns the point at an index that exists and takes exactly this
  node out, and otherwise, also for negative indices, returns 0 and changes nothing; the first and the last
  point are those at index 0 and at the length less one.
\<close>

theorem sp_removals:
  "sp_remove_by_index sp index = (if 0 \<le> index \<and> index < int (length sp)
      then (1, Some (pt (sp ! nat index)), take (nat index) sp @ drop (Suc (nat index)) sp) else (0, None, sp))
   \<and> sp_remove_first sp = sp_remove_by_index sp 0 \<and> sp_remove_last sp = sp_remove_by_index sp (int (length sp) - 1)"
proof -
  have i: "sp_remove_by_index sp index = (if 0 \<le> index \<and> index < int (length sp)
      then (1, Some (pt (sp ! nat index)), take (nat index) sp @ drop (Suc (nat index)) sp) else (0, None, sp))" for index
    by (cases sp) (auto simp: sp_remove_by_index_def by_index_loop_spec)
  moreover have "sp_remove_first sp = sp_remove_by_index sp 0" by (cases sp) (simp_all add: sp_remove_first_def sp_remove_by_index_def)
  moreover have "sp_remove_last sp = sp_remove_by_index sp (int (length sp) - 1)"
  proof (cases sp rule: rev_cases)
    case (snoc ys y)
    then have "nat (int (length sp) - 1) = length ys" by simp
    moreover have "sp_remove_last sp = (1, Some (pt y), ys)"
      using snoc sp_remove_last_eq [of sp] by simp
    ultimately show ?thesis unfolding i using snoc by simp
  qed (simp add: sp_remove_last_def sp_remove_by_index_def)
  ultimately show ?thesis by blast
qed

lemma feq_number: "a \<noteq> NaN \<Longrightarrow> feq a b \<longleftrightarrow> a = b"
  by (cases a; cases b) auto

lemma duplicates_loop_spec:
  "duplicates_loop cnt before pre ts = (n, sp) \<Longrightarrow> \<forall>q \<in> set (pre # ts). px (pt q) \<noteq> NaN \<and> py (pt q) \<noteq> NaN \<Longrightarrow>
     map pt sp = map pt (rev before) @ remdups_adj (map pt (pre # ts)) \<and> n = cnt + int (length before + 1 + length ts) - int (length sp)"
proof (induction cnt before pre ts rule: duplicates_loop.induct)
  case (2 cnt before pre temp ts)
  have eq: "feq (px (pt pre)) (px (pt temp)) \<and> feq (py (pt pre)) (py (pt temp)) \<longleftrightarrow> pt pre = pt temp"
    using "2.prems"(2) by (cases "pt pre"; cases "pt temp") (auto simp: feq_number)
  show ?case
  proof (cases "pt pre = pt temp")
    case True
    with 2 eq show ?thesis by auto
  next
    case False
    with 2 eq show ?thesis by auto
  qed
qed auto

text \<open>
  \<open>sp_delete_duplicates\<close> merges, if no coordinate is NaN, the runs of equal neighbours and returns the number of nodes it deleted.
\<close>

theorem sp_delete_duplicates_spec:
  assumes "\<forall>q \<in> set sp. px (pt q) \<noteq> NaN \<and> py (pt q) \<noteq> NaN"
  shows "\<exists>n sp'. sp_delete_duplicates sp = (n, sp') \<and> map pt sp' = remdups_adj (map pt sp) \<and> n = int (length sp) - int (length sp')"
proof -
  obtain n sp' where d: "sp_delete_duplicates sp = (n, sp')" by fastforce
  then have "map pt sp' = remdups_adj (map pt sp) \<and> n = int (length sp) - int (length sp')"
    using assms by (auto simp: sp_delete_duplicates_def simp del: duplicates_loop.simps split: list.splits dest!: duplicates_loop_spec)
  with d show ?thesis by blast
qed

end
