(* ===== verification/WordCount.thy ===== *)
theory WordCount
  imports CString Results "HOL-Library.Signed_Division"
begin

text \<open>
  \<open>src/warmup/wc.c\<close>: the words of a text are counted in a hash table with open addressing.  The table is
  the list of its places; the array \<open>buff\<close> of 500 bytes, which collects a word, is part of the state.  The
  memory is taken to suffice: \<open>wc_init\<close> and \<open>create_hash\<close> end the process with a failed assertion when there is none
  for the table, and the results of \<open>malloc\<close> for a word and its element are not checked.  The size of a text is a
  length, so it is not negative; the table has less than 2 ^ 31 places, as its index in \<open>create_hash\<close> is an \<open>int\<close>.
\<close>

record wc_element =
  word :: cstr
  occurrences :: int

type_synonym word_table = "wc_element option list"

definition wc_hash :: "cstr \<Rightarrow> int" where
  "wc_hash str = foldl (\<lambda>h b. u64 (h * 33 + sint b)) 5381 str"

definition wc_create_hash :: "int \<Rightarrow> word_table" where
  "wc_create_hash sz = replicate (nat (sz div 3)) None"

definition word_at :: "word_table \<Rightarrow> int \<Rightarrow> wc_element option result" where
  "word_at tab key = (if key < 0 then Inl OutOfBounds else arr_get tab (nat key))"

definition one_more :: "wc_element \<Rightarrow> wc_element" where
  "one_more e = e\<lparr>occurrences := u64 (occurrences e + 1)\<rparr>"

text \<open>
  The loop after a collision.  Its keys are determined by the first one, so if it takes more steps than
  the table has places it never ends.
\<close>

fun collision_loop :: "nat \<Rightarrow> int \<Rightarrow> cstr \<Rightarrow> int \<Rightarrow> word_table \<Rightarrow> word_table result" where
  "collision_loop n table_size w new_key tab =
     bindr (word_at tab new_key) (\<lambda>p.
     case p of None \<Rightarrow> Inr (tab[nat new_key := Some \<lparr>word = w, occurrences = 1\<rparr>])
     | Some e \<Rightarrow>
         if word e = w then Inr (tab[nat new_key := Some (one_more e)])
         else case n of 0 \<Rightarrow> Inl Diverges
              | Suc n \<Rightarrow> collision_loop n table_size w (s64 (new_key * new_key) smod table_size) tab)"

declare collision_loop.simps [simp del]

definition count_word :: "int \<Rightarrow> cstr \<Rightarrow> word_table \<Rightarrow> word_table result" where
  "count_word table_size w tab =
     (if table_size = 0 then Inl DivideByZero
      else
        let key = wc_hash w mod u64 table_size in
        bindr (word_at tab key) (\<lambda>p.
        case p of None \<Rightarrow> Inr (tab[nat key := Some \<lparr>word = w, occurrences = 1\<rparr>])
        | Some e \<Rightarrow>
            if word e = w then Inr (tab[nat key := Some (one_more e)])
            else collision_loop (nat table_size) table_size w (s64 key) tab))"

text \<open>One byte of the text: a byte of a word is put into \<open>buff\<close>, a space ends the word if there is one.\<close>

definition wc_step :: "int \<Rightarrow> byte \<Rightarrow> nat \<times> byte list \<times> word_table \<Rightarrow> (nat \<times> byte list \<times> word_table) result" where
  "wc_step table_size ch = (\<lambda>(k, buff, tab).
     bindr (if \<not> is_blank ch then bindr (arr_set buff k ch) (\<lambda>buff. Inr (k + 1, buff, False))
            else bindr (arr_set buff k 0) (\<lambda>buff. Inr (0, buff, True))) (\<lambda>(k, buff, word_insert).
     bindr (arr_get buff 0) (\<lambda>b.
     if word_insert \<and> b \<noteq> 0 then
       bindr (c_string buff) (\<lambda>w. bindr (count_word table_size w tab) (\<lambda>tab. Inr (k, buff, tab)))
     else Inr (k, buff, tab))))"

fun wc_loop :: "int \<Rightarrow> byte list \<Rightarrow> nat \<times> byte list \<times> word_table \<Rightarrow> word_table result" where
  "wc_loop table_size [] (k, buff, tab) = Inr tab"
| "wc_loop table_size (ch # word_array) st = bindr (wc_step table_size ch st) (wc_loop table_size word_array)"

text \<open>\<open>buff\<close> is what the array holds at first.\<close>

definition wc_init :: "byte list \<Rightarrow> byte list \<Rightarrow> word_table result" where
  "wc_init buff word_array =
     (let sz = int (length word_array) in wc_loop (sz div 3) word_array (0, buff, wc_create_hash sz))"

definition wc_output :: "word_table \<Rightarrow> byte list" where
  "wc_output tab = concat (map (\<lambda>p. case p of None \<Rightarrow> [] | Some e \<Rightarrow> word e @ [58] @ dec (occurrences e) @ [10]) tab)"

end
