(* ===== verification/WordSpec.thy ===== *)
theory WordSpec
  imports WordCount Probing
begin

text \<open>
  The word counter against a list of words: what is in the table when \<open>wc_init\<close> returns, and when it
  does not return.  A layout, computed without the loop of the program, says which of the two it is.
\<close>

section \<open>The words of a text\<close>

text \<open>\<open>acc\<close> is the word so far.  Only a word that a space follows counts.\<close>

fun words :: "cstr \<Rightarrow> byte list \<Rightarrow> cstr list" where
  "words acc [] = []"
| "words acc (c # cs) =
     (if is_blank c then (if acc = [] then words [] cs else acc # words [] cs) else words (acc @ [c]) cs)"

text \<open>Every word, the last one included, fits into the array, and no byte is zero.\<close>

definition plain_text :: "byte list \<Rightarrow> bool" where
  "plain_text cs \<longleftrightarrow> 0 \<notin> set cs \<and> (\<forall>w \<in> set (words [] (cs @ [32])). length w < 500)"

section \<open>The table\<close>

definition word_key :: "int \<Rightarrow> cstr \<Rightarrow> int" where
  "word_key T w = wc_hash w mod T"

definition word_place :: "int \<Rightarrow> cstr \<Rightarrow> nat \<Rightarrow> nat" where
  "word_place T w i = nat (walk T (word_key T w) i)"

definition taken_by_other :: "word_table \<Rightarrow> cstr \<Rightarrow> nat \<Rightarrow> bool" where
  "taken_by_other tab w j \<longleftrightarrow> (\<exists>e. tab ! j = Some e \<and> word e \<noteq> w)"

definition path_to :: "int \<Rightarrow> word_table \<Rightarrow> cstr \<Rightarrow> nat \<Rightarrow> bool" where
  "path_to T tab w j \<longleftrightarrow> (\<exists>i. j = word_place T w i \<and> (\<forall>l < i. taken_by_other tab w (word_place T w l)))"

definition counted :: "int \<Rightarrow> word_table \<Rightarrow> cstr list \<Rightarrow> bool" where
  "counted T tab ws \<longleftrightarrow> length tab = nat T
     \<and> (\<forall>j e. j < length tab \<longrightarrow> tab ! j = Some e \<longrightarrow>
          word e \<in> set ws \<and> occurrences e = int (count_list ws (word e)) \<and> path_to T tab (word e) j)
     \<and> (\<forall>w \<in> set ws. \<exists>j < length tab. \<exists>e. tab ! j = Some e \<and> word e = w)"

definition table_size_ok :: "int \<Rightarrow> bool" where
  "table_size_ok T \<longleftrightarrow> 0 < T \<and> T < 2 ^ 31"

lemma word_key_range: "0 < T \<Longrightarrow> 0 \<le> word_key T w \<and> word_key T w < T"
  by (simp add: word_key_def)

lemma word_place_in: "0 < T \<Longrightarrow> word_place T w i < nat T"
  using walk_range [of "word_key T w" T i] word_key_range [of T w] by (simp add: word_place_def)

lemma counted_entry:
  assumes "counted T tab ws" "j < length tab" "tab ! j = Some e"
  shows "word e \<in> set ws" "occurrences e = int (count_list ws (word e))" "path_to T tab (word e) j"
  using assms by (auto simp: counted_def)

text \<open>A word has one place.\<close>

lemma counted_unique:
  assumes "counted T tab ws" "i < length tab" "tab ! i = Some e" "j < length tab" "tab ! j = Some e'" "word e = word e'"
  shows "i = j"
proof -
  from counted_entry(3) [OF assms(1-3)] obtain m where m: "i = word_place T (word e) m" "\<forall>l < m. taken_by_other tab (word e) (word_place T (word e) l)"
    unfolding path_to_def by blast
  from counted_entry(3) [OF assms(1,4,5)] obtain n where n: "j = word_place T (word e') n" "\<forall>l < n. taken_by_other tab (word e') (word_place T (word e') l)"
    unfolding path_to_def by blast
  have "\<not> m < n" using n(2) m(1) assms(3,6) by (auto simp: taken_by_other_def)
  moreover have "\<not> n < m" using m(2) n(1) assms(5,6) by (auto simp: taken_by_other_def)
  ultimately have "m = n" by simp
  with m(1) n(1) assms(6) show ?thesis by simp
qed

text \<open>Writing the count of \<open>w\<close> at the first place of its path that no other word has.\<close>

lemma counted_put:
  assumes c: "counted T tab ws" and T: "0 < T" and i: "\<forall>l < i. taken_by_other tab w (word_place T w l)"
    and free: "\<not> taken_by_other tab w (word_place T w i)" and j: "j = word_place T w i"
    and e: "e = \<lparr>word = w, occurrences = int (count_list ws w) + 1\<rparr>"
  shows "counted T (tab[j := Some e]) (ws @ [w])"
proof -
  have jl: "j < length tab" using c word_place_in [OF T] j by (simp add: counted_def)
  let ?tab = "tab[j := Some e]"
  have keep: "taken_by_other tab v k \<Longrightarrow> taken_by_other ?tab v k" for v k
    using free j e jl by (cases "k = j") (auto simp: taken_by_other_def)
  then have path: "path_to T tab v k \<Longrightarrow> path_to T ?tab v k" for v k by (auto simp: path_to_def)
  have other: "word e' \<noteq> w" if "k < length tab" "tab ! k = Some e'" "k \<noteq> j" for k e'
  proof
    assume w: "word e' = w"
    with counted_entry(3) [OF c that(1,2)] obtain m where m: "k = word_place T w m" "\<forall>l < m. taken_by_other tab w (word_place T w l)"
      unfolding path_to_def by blast
    have "\<not> i < m" using m(2) free by blast
    moreover have "\<not> m < i" using i m(1) that(2) w by (auto simp: taken_by_other_def)
    ultimately show False using m(1) j that(3) by (simp add: nat_neq_iff)
  qed
  have pj: "path_to T ?tab w j" using i keep j by (auto simp: path_to_def)
  have "\<exists>k < length ?tab. \<exists>e'. ?tab ! k = Some e' \<and> word e' = v" if "v \<in> set (ws @ [w])" for v
  proof (cases "v = w")
    case True
    with jl e show ?thesis by (intro exI [of _ j]) simp
  next
    case False
    with that c obtain k e' where k: "k < length tab" "tab ! k = Some e'" "word e' = v" by (auto simp: counted_def)
    with free j False have "k \<noteq> j" by (auto simp: taken_by_other_def)
    with k show ?thesis by (intro exI [of _ k]) simp
  qed
  moreover have "word e' \<in> set (ws @ [w]) \<and> occurrences e' = int (count_list (ws @ [w]) (word e')) \<and> path_to T ?tab (word e') k"
    if "k < length ?tab" "?tab ! k = Some e'" for k e'
  proof (cases "k = j")
    case True
    with that jl e pj show ?thesis by auto
  next
    case False
    with that have "k < length tab" "tab ! k = Some e'" by simp_all
    with c other [of k e'] False path show ?thesis by (auto simp: counted_def)
  qed
  ultimately show ?thesis using c by (auto simp: counted_def)
qed

lemma s64_square:
  assumes "table_size_ok T" "0 \<le> k" "k < T"
  shows "s64 k = k" "s64 (k * k) smod T = k * k mod T" "0 \<le> k * k mod T" "k * k mod T < T"
proof -
  have "k < 2 ^ 31" using assms by (simp add: table_size_ok_def)
  then have "k * k \<le> 2 ^ 31 * 2 ^ 31" using assms(2) by (intro mult_mono) simp_all
  then have sq: "0 \<le> k * k" "k * k < 2 ^ 63" by (simp_all add: assms(2))
  have "s64 (k * k) = k * k" by (rule s64_id) (use sq in linarith)+
  then show "s64 (k * k) smod T = k * k mod T"
    using sq(1) assms by (cases "k = 0"; simp add: table_size_ok_def signed_modulo_int_def)
  show "s64 k = k" using assms \<open>k < 2 ^ 31\<close> by (intro s64_id) auto
  show "0 \<le> k * k mod T" "k * k mod T < T" using assms by (simp_all add: table_size_ok_def)
qed

lemma word_at_in: "length tab = nat T \<Longrightarrow> 0 \<le> k \<Longrightarrow> k < T \<Longrightarrow> word_at tab k = Inr (tab ! nat k)"
  by (simp add: word_at_def)

text \<open>
  A second description of the table, without the loop of the program: a layout says which word has which
  place.  A word gets the first place of its walk that is free or its own, and none if the walk only
  meets places of other words.
\<close>

type_synonym layout = "cstr option list"

definition layout_of :: "word_table \<Rightarrow> layout" where
  "layout_of tab = map (map_option word) tab"

definition place_for :: "layout \<Rightarrow> cstr \<Rightarrow> nat \<Rightarrow> bool" where
  "place_for lay w j \<longleftrightarrow> lay ! j = None \<or> lay ! j = Some w"

definition first_place :: "int \<Rightarrow> layout \<Rightarrow> cstr \<Rightarrow> nat option" where
  "first_place T lay w = find (place_for lay w) (map (word_place T w) [0..<nat T])"

fun lay_out :: "int \<Rightarrow> layout \<Rightarrow> cstr list \<Rightarrow> layout option" where
  "lay_out T lay [] = Some lay"
| "lay_out T lay (w # ws) = (case first_place T lay w of None \<Rightarrow> None | Some j \<Rightarrow> lay_out T (lay[j := Some w]) ws)"

lemma layout_taken: "j < length tab \<Longrightarrow> place_for (layout_of tab) w j \<longleftrightarrow> \<not> taken_by_other tab w j"
  by (cases "tab ! j") (auto simp: layout_of_def taken_by_other_def place_for_def)

text \<open>The first place is missing exactly if the walk never meets a place for the word, however long it is.\<close>

lemma first_place_cases:
  assumes T: "0 < T" and len: "length tab = nat T"
  obtains (never) "first_place T (layout_of tab) w = None" "\<forall>i. taken_by_other tab w (word_place T w i)"
  | (at) i where "first_place T (layout_of tab) w = Some (word_place T w i)" "i < nat T"
      "\<forall>l < i. taken_by_other tab w (word_place T w l)" "\<not> taken_by_other tab w (word_place T w i)"
proof -
  have eq: "place_for (layout_of tab) w (word_place T w i) = (\<not> taken_by_other tab w (word_place T w i))" for i
    using layout_taken [of "word_place T w i" tab w] word_place_in [OF T] len by simp
  show ?thesis
  proof (cases "first_place T (layout_of tab) w")
    case None
    have in_table: "taken_by_other tab w (word_place T w i)" if "i < nat T" for i
      using None that eq [of i] by (auto simp: first_place_def find_None_iff)
    have "taken_by_other tab w (word_place T w i)" for i
    proof (rule ccontr)
      assume "\<not> taken_by_other tab w (word_place T w i)"
      then have "(\<lambda>k. \<not> taken_by_other tab w (nat k)) (walk T (word_key T w) i)" by (simp add: word_place_def)
      from walk_least [OF conjunct1 [OF word_key_range [OF T]] conjunct2 [OF word_key_range [OF T]], of "\<lambda>k. \<not> taken_by_other tab w (nat k)", OF this]
      show False using in_table unfolding word_place_def by blast
    qed
    with None never show ?thesis by blast
  next
    case (Some j)
    then obtain i where i: "i < nat T" "j = word_place T w i" "\<not> taken_by_other tab w j"
      "\<forall>l < i. taken_by_other tab w (word_place T w l)"
      using eq by (auto simp: first_place_def find_Some_iff)
    with Some at show ?thesis by blast
  qed
qed

text \<open>The loop stops at the first place that is free or has the word, and otherwise it never stops.\<close>

definition put_word :: "cstr \<Rightarrow> word_table \<Rightarrow> nat \<Rightarrow> word_table" where
  "put_word w tab j = tab[j := Some (case tab ! j of None \<Rightarrow> \<lparr>word = w, occurrences = 1\<rparr> | Some e \<Rightarrow> one_more e)]"

lemma collision_loop_stops:
  assumes T: "table_size_ok T" and tab: "length tab = nat T" and k: "0 \<le> k" "k < T" and i: "i \<le> n"
    and o: "\<forall>l < i. taken_by_other tab w (nat (walk T k l))" "\<not> taken_by_other tab w (nat (walk T k i))"
  shows "collision_loop n T w k tab = Inr (put_word w tab (nat (walk T k i)))"
  using k i o
proof (induction n arbitrary: k i)
  case (0 k)
  then show ?case using word_at_in [OF tab 0(1,2)]
    by (auto simp: collision_loop.simps taken_by_other_def put_word_def split: option.splits)
next
  case (Suc n k)
  note sq = s64_square [OF T Suc.prems(1,2)]
  show ?case
  proof (cases i)
    case 0
    then show ?thesis using word_at_in [OF tab Suc.prems(1,2)] Suc.prems(5)
      by (auto simp: collision_loop.simps taken_by_other_def put_word_def split: option.splits)
  next
    case (Suc j)
    have "taken_by_other tab w (nat k)" using Suc.prems(4) Suc by (auto dest: spec [of _ 0])
    then have "collision_loop (Suc n) T w k tab = collision_loop n T w (k * k mod T) tab"
      using word_at_in [OF tab Suc.prems(1,2)] by (auto simp: collision_loop.simps [of "Suc n"] taken_by_other_def sq(2))
    moreover have "\<forall>l < j. taken_by_other tab w (nat (walk T (k * k mod T) l))"
      using Suc.prems(4) unfolding Suc walk_Suc [symmetric] by blast
    ultimately show ?thesis
      using Suc.IH [OF sq(3,4), of j] Suc.prems(3,5) unfolding Suc walk_Suc by simp
  qed
qed

lemma collision_loop_never:
  assumes T: "table_size_ok T" and tab: "length tab = nat T" and k: "0 \<le> k" "k < T"
    and o: "\<forall>l. taken_by_other tab w (nat (walk T k l))"
  shows "collision_loop n T w k tab = Inl Diverges"
  using k o
proof (induction n arbitrary: k)
  case (0 k)
  then have "taken_by_other tab w (nat k)" by (auto dest: spec [of _ 0])
  then show ?case using word_at_in [OF tab 0(1,2)] by (auto simp: collision_loop.simps taken_by_other_def)
next
  case (Suc n k)
  note sq = s64_square [OF T Suc.prems(1,2)]
  have "taken_by_other tab w (nat k)" using Suc.prems(3) by (auto dest: spec [of _ 0])
  then have "collision_loop (Suc n) T w k tab = collision_loop n T w (k * k mod T) tab"
    using word_at_in [OF tab Suc.prems(1,2)] by (auto simp: collision_loop.simps [of "Suc n"] taken_by_other_def sq(2))
  then show ?case using Suc.IH [OF sq(3,4)] Suc.prems(3) unfolding walk_Suc [symmetric] by simp
qed

lemma count_word_loop:
  assumes T: "table_size_ok T" and len: "length tab = nat T"
  shows "count_word T w tab = collision_loop (nat T) T w (word_key T w) tab"
proof -
  have T0: "0 < T" "u64 T = T" using T by (auto simp: table_size_ok_def intro!: u64_id)
  let ?k = "word_key T w"
  note k = word_key_range [OF T0(1), of w]
  have key: "wc_hash w mod u64 T = ?k" by (simp add: word_key_def T0)
  have "s64 ?k = ?k" using s64_square(1) [OF T] k by simp
  then show ?thesis
    using T0(1) word_at_in [OF len] k unfolding count_word_def key Let_def
    by (cases "tab ! nat ?k") (auto simp: collision_loop.simps [of _ _ _ ?k])
qed

lemma count_word_spec:
  assumes T: "table_size_ok T" and c: "counted T tab ws" and n: "length ws < 2 ^ 63"
  shows "case first_place T (layout_of tab) w of
      None \<Rightarrow> count_word T w tab = Inl Diverges
    | Some j \<Rightarrow> \<exists>tab'. count_word T w tab = Inr tab' \<and> counted T tab' (ws @ [w]) \<and> layout_of tab' = (layout_of tab)[j := Some w]"
proof -
  have T0: "0 < T" using T by (simp add: table_size_ok_def)
  have len: "length tab = nat T" using c by (simp add: counted_def)
  note k = word_key_range [OF T0, of w]
  show ?thesis
  proof (rule first_place_cases [OF T0 len, of w], goal_cases never at)
    case never
    then show ?thesis
      using collision_loop_never [OF T len conjunct1 [OF k] conjunct2 [OF k]] by (simp add: count_word_loop [OF T len] word_place_def)
  next
    case (at i)
    let ?j = "word_place T w i"
    have eq: "count_word T w tab = Inr (put_word w tab ?j)"
      using collision_loop_stops [OF T len conjunct1 [OF k] conjunct2 [OF k], of i "nat T" w] at(2-4)
      by (simp add: count_word_loop [OF T len] word_place_def)
    have j: "?j < length tab" using word_place_in [OF T0] len by simp
    note put = counted_put [OF c T0 at(3) at(4) refl refl]
    have "counted T (put_word w tab ?j) (ws @ [w]) \<and> layout_of (put_word w tab ?j) = (layout_of tab)[?j := Some w]"
    proof (cases "tab ! ?j")
      case None
      have "w \<notin> set ws"
      proof
        assume "w \<in> set ws"
        with c obtain k e where e: "k < length tab" "tab ! k = Some e" "word e = w" by (auto simp: counted_def)
        from counted_entry(3) [OF c e(1,2)] e(3) obtain m where
          m: "k = word_place T w m" "\<forall>l < m. taken_by_other tab w (word_place T w l)" by (auto simp: path_to_def)
        have "\<not> i < m" using m(2) at(4) by blast
        moreover have "\<not> m < i" using at(3) m(1) e by (auto simp: taken_by_other_def)
        ultimately show False using m(1) e None by (simp add: nat_neq_iff)
      qed
      with None put show ?thesis by (simp add: put_word_def layout_of_def map_update)
    next
      case (Some e)
      with at(4) have e: "word e = w" by (simp add: taken_by_other_def)
      have "count_list ws w < 2 ^ 63" using count_le_length [of ws w] n by simp
      then have "one_more e = \<lparr>word = w, occurrences = int (count_list ws w) + 1\<rparr>"
        using counted_entry(2) [OF c j Some] e by (cases e) (simp add: one_more_def u64_id)
      with Some put show ?thesis by (simp add: put_word_def layout_of_def map_update)
    qed
    with eq at(1) show ?thesis by simp
  qed
qed

text \<open>Without collisions of keys every word is at its first place and no loop is entered.\<close>

definition at_keys :: "int \<Rightarrow> word_table \<Rightarrow> bool" where
  "at_keys T tab \<longleftrightarrow> (\<forall>j e. j < length tab \<longrightarrow> tab ! j = Some e \<longrightarrow> nat (word_key T (word e)) = j)"

lemma count_word_no_collision:
  assumes T: "table_size_ok T" and c: "counted T tab ws" and a: "at_keys T tab" and i: "inj_on (word_key T) (set (ws @ [w]))"
  shows "\<exists>tab'. count_word T w tab = Inr tab' \<and> at_keys T tab'"
proof -
  have T0: "0 < T" "u64 T = T" using T by (auto simp: table_size_ok_def intro!: u64_id)
  have len: "length tab = nat T" using c by (simp add: counted_def)
  let ?k = "word_key T w"
  note k = word_key_range [OF T0(1), of w]
  have key: "wc_hash w mod u64 T = ?k" by (simp add: word_key_def T0)
  have put: "at_keys T (tab[nat ?k := Some e])" if "word e = w" for e
    unfolding at_keys_def
  proof (intro allI impI)
    fix j e' assume j: "j < length (tab[nat ?k := Some e])" "tab[nat ?k := Some e] ! j = Some e'"
    then show "nat (word_key T (word e')) = j" using a that by (cases "j = nat ?k") (auto simp: at_keys_def)
  qed
  show ?thesis
  proof (cases "tab ! nat ?k")
    case None
    with put [of "\<lparr>word = w, occurrences = 1\<rparr>"] show ?thesis
      using T0 word_at_in [OF len] k unfolding count_word_def key Let_def by simp
  next
    case (Some e)
    have kl: "nat ?k < length tab" using k len by simp
    have "nat (word_key T (word e)) = nat ?k" using a kl Some unfolding at_keys_def by blast
    then have "word_key T (word e) = ?k" using k word_key_range [OF T0(1), of "word e"] eq_nat_nat_iff by blast
    moreover have "word e \<in> set (ws @ [w])" "w \<in> set (ws @ [w])" using counted_entry(1) [OF c kl Some] by simp_all
    ultimately have "word e = w" using inj_onD [OF i] by blast
    with put [of "one_more e"] Some show ?thesis
      using T0 word_at_in [OF len] k unfolding count_word_def key Let_def by (simp add: one_more_def)
  qed
qed

section \<open>The loop over the text\<close>

lemma words_last_long:
  assumes "acc \<noteq> []" "\<forall>w \<in> set (words acc (cs @ [32])). length w < n"
  shows "length acc < n"
  using assms
proof (induction acc cs rule: words.induct)
  case (2 acc c cs)
  then show ?case by (cases "is_blank c") auto
qed (simp add: is_blank_def)

lemma wc_step_letter:
  assumes "\<not> is_blank c" "c \<noteq> 0" "take (length acc) buff = acc" "length acc < length buff"
  shows "wc_step T c (length acc, buff, tab) = Inr (length (acc @ [c]), buff[length acc := c], tab)"
proof -
  have "buff[length acc := c] \<noteq> []" using assms(4) by auto
  then show ?thesis using assms(1,4) by (simp add: wc_step_def arr_get_def)
qed

lemma wc_step_blank:
  assumes "is_blank c" "take (length acc) buff = acc" "length acc < length buff" "0 \<notin> set acc"
  shows "wc_step T c (length acc, buff, tab) = (if acc = [] then Inr (0, buff[0 := 0], tab)
    else bindr (count_word T acc tab) (\<lambda>tab. Inr (0, buff[length acc := 0], tab)))"
proof (cases "acc = []")
  case False
  have b: "buff[length acc := 0] = acc @ 0 # drop (Suc (length acc)) buff"
    using assms(2,3) upd_conv_take_nth_drop [of "length acc" buff 0] by simp
  have "c_string (buff[length acc := 0]) = Inr acc"
    unfolding b using assms(4) by (simp add: c_string_line)
  moreover have "buff[length acc := 0] ! 0 \<noteq> 0" unfolding b using False assms(4) by (cases acc) auto
  moreover have "arr_get (buff[length acc := 0]) 0 = Inr (buff[length acc := 0] ! 0)" using assms(3) by (intro arr_get_in) auto
  ultimately show ?thesis using assms False by (simp add: wc_step_def del: nth_list_update_neq)
qed (use assms in \<open>simp add: wc_step_def\<close>)

lemma wc_loop_spec:
  assumes T: "table_size_ok T" and cs: "0 \<notin> set (acc @ cs)" "\<forall>w \<in> set (words acc (cs @ [32])). length w < 500"
    and buff: "length buff = 500" "take (length acc) buff = acc"
    and tab: "counted T tab ws" "inj_on (word_key T) (set ws) \<Longrightarrow> at_keys T tab" "length ws + length cs < 2 ^ 63"
  shows "case lay_out T (layout_of tab) (words acc cs) of
      None \<Rightarrow> wc_loop T cs (length acc, buff, tab) = Inl Diverges \<and> \<not> inj_on (word_key T) (set (ws @ words acc cs))
    | Some lay \<Rightarrow> \<exists>tab'. wc_loop T cs (length acc, buff, tab) = Inr tab' \<and> counted T tab' (ws @ words acc cs) \<and> layout_of tab' = lay"
  using cs buff tab
proof (induction acc cs arbitrary: buff tab ws rule: words.induct)
  case (1 acc)
  then show ?case by simp
next
  case (2 acc c cs)
  have al: "length acc < 500"
  proof (cases "acc = []")
    case False
    with 2 words_last_long [of acc "c # cs" 500] show ?thesis by blast
  next
    case True
    then show ?thesis by simp
  qed
  show ?case
  proof (cases "is_blank c")
    case False
    have nz: "c \<noteq> 0" using "2.prems"(1) by auto
    have tk: "take (length (acc @ [c])) (buff[length acc := c]) = acc @ [c]"
      using "2.prems"(3,4) al by (simp add: take_Suc_conv_app_nth)
    have l: "wc_loop T (c # cs) (length acc, buff, tab) = wc_loop T cs (length (acc @ [c]), buff[length acc := c], tab)"
      using wc_step_letter [OF False nz "2.prems"(4), of T tab] al "2.prems"(3) by simp
    have w: "words acc ((c # cs) @ [32]) = words (acc @ [c]) (cs @ [32])" "words acc (c # cs) = words (acc @ [c]) cs"
      using False by simp_all
    show ?thesis unfolding l w(2)
      by (rule "2.IH"(3) [OF False]) (use "2.prems" tk w(1) in simp_all)
  next
    case blank: True
    show ?thesis
    proof (cases "acc = []")
      case True
      with "2.prems"(4) have l: "wc_loop T (c # cs) (length acc, buff, tab) = wc_loop T cs (length ([] :: cstr), buff[0 := 0], tab)"
        using wc_step_blank [OF blank, of acc buff T tab] "2.prems"(1,3) by simp
      have w: "words acc ((c # cs) @ [32]) = words [] (cs @ [32])" "words acc (c # cs) = words [] cs"
        using blank True by simp_all
      show ?thesis unfolding l w(2)
        by (rule "2.IH"(1) [OF blank True]) (use "2.prems" w(1) in simp_all)
    next
      case False
      have st: "wc_step T c (length acc, buff, tab) = bindr (count_word T acc tab) (\<lambda>tab. Inr (0, buff[length acc := 0], tab))"
        using wc_step_blank [OF blank, of acc buff T tab] "2.prems"(1,3,4) al False by simp
      have w: "words acc (c # cs) = acc # words [] cs" using blank False by simp
      have n: "length ws < 2 ^ 63" using "2.prems"(7) by simp
      note cw = count_word_spec [OF T "2.prems"(5) n, of acc]
      show ?thesis
      proof (cases "first_place T (layout_of tab) acc")
        case (Some j)
        with cw obtain tab' where t: "count_word T acc tab = Inr tab'" "counted T tab' (ws @ [acc])"
          "layout_of tab' = (layout_of tab)[j := Some acc]" by auto
        have keys: "at_keys T tab'" if "inj_on (word_key T) (set (ws @ [acc]))"
          using count_word_no_collision [OF T "2.prems"(5) _ that] "2.prems"(6) that t(1)
          by (auto dest: inj_on_subset)
        have l: "wc_loop T (c # cs) (length acc, buff, tab) = wc_loop T cs (length ([] :: cstr), buff[length acc := 0], tab')"
          "lay_out T (layout_of tab) (words acc (c # cs)) = lay_out T (layout_of tab') (words [] cs)"
          "ws @ words acc (c # cs) = (ws @ [acc]) @ words [] cs"
          using st t w Some by simp_all
        show ?thesis unfolding l
          by (rule "2.IH"(2) [OF blank False]) (use "2.prems" keys blank False t(2) in simp_all)
      next
        case None
        with cw have d: "count_word T acc tab = Inl Diverges" by simp
        have "\<not> inj_on (word_key T) (set (ws @ [acc]))"
          using count_word_no_collision [OF T "2.prems"(5), of acc] "2.prems"(6) d by (auto dest: inj_on_subset)
        then have "\<not> inj_on (word_key T) (set (ws @ words acc (c # cs)))"
          unfolding w by (auto dest: inj_on_subset)
        with d st None w show ?thesis by simp
      qed
    qed
  qed
qed

section \<open>The counts\<close>

definition table_lines :: "(cstr \<times> nat) list \<Rightarrow> byte list" where
  "table_lines ls = concat (map (\<lambda>(w, n). w @ [58] @ dec (int n) @ [10]) ls)"

definition present :: "layout \<Rightarrow> cstr list" where
  "present lay = concat (map (\<lambda>p. case p of None \<Rightarrow> [] | Some w \<Rightarrow> [w]) lay)"

lemma present_Cons [simp]: "present [] = []" "present (None # lay) = present lay" "present (Some w # lay) = w # present lay"
  by (simp_all add: present_def)

lemma layout_of_Cons [simp]: "layout_of [] = []" "layout_of (p # tab) = map_option word p # layout_of tab"
  by (simp_all add: layout_of_def)

lemma in_present: "w \<in> set (present (layout_of tab)) \<longleftrightarrow> (\<exists>j < length tab. \<exists>e. tab ! j = Some e \<and> word e = w)"
proof (induction tab)
  case (Cons p tab)
  then show ?case by (cases p) (auto simp: less_Suc_eq_0_disj)
qed simp

lemma output_lines:
  assumes "\<forall>j e. j < length tab \<longrightarrow> tab ! j = Some e \<longrightarrow> occurrences e = int (n (word e))"
  shows "wc_output tab = table_lines (map (\<lambda>w. (w, n w)) (present (layout_of tab)))"
  using assms
proof (induction tab)
  case Nil
  then show ?case by (simp add: wc_output_def table_lines_def)
next
  case (Cons p tab)
  have "\<forall>j e. j < length tab \<longrightarrow> tab ! j = Some e \<longrightarrow> occurrences e = int (n (word e))"
    using Cons.prems by (metis Suc_less_eq length_Cons nth_Cons_Suc)
  note IH = Cons.IH [OF this]
  show ?case
  proof (cases p)
    case None
    with IH show ?thesis by (simp add: wc_output_def)
  next
    case (Some e)
    have "occurrences e = int (n (word e))" using Cons.prems Some by (metis length_Cons nth_Cons_0 zero_less_Suc)
    with IH Some show ?thesis by (simp add: wc_output_def table_lines_def)
  qed
qed

lemma present_distinct:
  assumes "\<forall>i j e e'. i < length tab \<longrightarrow> tab ! i = Some e \<longrightarrow> j < length tab \<longrightarrow> tab ! j = Some e' \<longrightarrow> word e = word e' \<longrightarrow> i = j"
  shows "distinct (present (layout_of tab))"
  using assms
proof (induction tab)
  case (Cons p tab)
  have 1: "\<forall>i j e e'. i < length tab \<longrightarrow> tab ! i = Some e \<longrightarrow> j < length tab \<longrightarrow> tab ! j = Some e' \<longrightarrow> word e = word e' \<longrightarrow> i = j"
    using Cons.prems by (metis Suc_less_eq length_Cons nth_Cons_Suc nat.inject)
  show ?case
  proof (cases p)
    case None
    with Cons.IH [OF 1] show ?thesis by simp
  next
    case (Some e)
    have "word e \<notin> set (present (layout_of tab))"
    proof
      assume "word e \<in> set (present (layout_of tab))"
      then obtain j e' where "j < length tab" "tab ! j = Some e'" "word e' = word e" by (auto simp: in_present)
      with Cons.prems [rule_format, of 0 e "Suc j" e'] Some show False by simp
    qed
    with Cons.IH [OF 1] Some show ?thesis by simp
  qed
qed simp

lemma counted_output:
  assumes c: "counted T tab ws"
  shows "distinct (present (layout_of tab))" "set (present (layout_of tab)) = set ws"
    "wc_output tab = table_lines (map (\<lambda>w. (w, count_list ws w)) (present (layout_of tab)))"
proof -
  show "set (present (layout_of tab)) = set ws" using c unfolding counted_def set_eq_iff in_present by blast
  show "distinct (present (layout_of tab))" using counted_unique [OF c] by (intro present_distinct) blast
  show "wc_output tab = table_lines (map (\<lambda>w. (w, count_list ws w)) (present (layout_of tab)))"
    using counted_entry(2) [OF c] by (intro output_lines) blast
qed

text \<open>
  C21: What \<open>wc_init\<close> and \<open>wc_output\<close> print for a text of at least three bytes (and less than 2 GB) that
  has no zero byte and no word of 500 bytes or more, the last one included: every word that a space follows,
  once, with the number of times it occurs, in the order of the places of the table.  The last word does
  not count when the text does not end with a space.  The place of a word is the first one on its walk
  (its key, the square of the key, the square of that and so on, modulo the size of the table) that is
  free or its own.  If some word has no such place \<open>wc_init\<close> never returns, and only then; two words
  with the same key are needed for that.
\<close>

theorem wc_prints_counts:
  fixes cs :: "byte list"
  defines "T \<equiv> int (length cs) div 3" and "ws \<equiv> words [] cs"
  assumes "plain_text cs" "3 \<le> length cs" "length cs < 2 ^ 31" "length buff = 500"
  shows "case lay_out T (replicate (nat T) None) ws of
      None \<Rightarrow> wc_init buff cs = Inl Diverges \<and> \<not> inj_on (word_key T) (set ws)
    | Some lay \<Rightarrow> distinct (present lay) \<and> set (present lay) = set ws
        \<and> (\<exists>tab. wc_init buff cs = Inr tab \<and> wc_output tab = table_lines (map (\<lambda>w. (w, count_list ws w)) (present lay)))"
proof -
  have "3 \<le> int (length cs)" "int (length cs) < 2 ^ 31" using assms(4,5) by simp_all
  then have "1 \<le> T" "T < 2 ^ 31" unfolding T_def
    using zdiv_mono1 [of 3 "int (length cs)" 3] zdiv_mono2 [of "int (length cs)" 1 3] by simp_all
  then have T: "table_size_ok T" by (simp add: table_size_ok_def)
  have e: "counted T (wc_create_hash (int (length cs))) []" "at_keys T (wc_create_hash (int (length cs)))"
    "layout_of (wc_create_hash (int (length cs))) = replicate (nat T) None"
    by (auto simp: counted_def at_keys_def wc_create_hash_def T_def layout_of_def)
  have p: "0 \<notin> set ([] @ cs)" "\<forall>w \<in> set (words [] (cs @ [32])). length w < 500" "take (length []) buff = []"
    "length [] + length cs < 2 ^ 63" using assms(3,5) by (simp_all add: plain_text_def)
  have i: "wc_init buff cs = wc_loop T cs (length [], buff, wc_create_hash (int (length cs)))"
    by (simp add: wc_init_def Let_def T_def)
  from wc_loop_spec [OF T p(1,2) assms(6) p(3) e(1,2) p(4), folded i, unfolded e(3)]
  show ?thesis using counted_output [of T _ ws] by (auto simp: ws_def split: option.splits)
qed

text \<open>Two words with the key 2: the second one gets the place 1, since 2 * 2 mod 3 = 1.\<close>

theorem wc_prints_counts_witness:
  "\<exists>tab. wc_init (replicate 500 0) (lit ''be be in '') = Inr tab \<and> wc_output tab = lit ''in:1'' @ 10 # lit ''be:2'' @ [10]"
proof -
  have p: "plain_text (lit ''be be in '')" "3 \<le> length (lit ''be be in '')" "length (lit ''be be in '') < 2 ^ 31"
    and w: "words [] (lit ''be be in '') = [lit ''be'', lit ''be'', lit ''in'']"
    and T: "int (length (lit ''be be in '')) div 3 = 3" "nat 3 = 3"
    by (simp_all add: plain_text_def lit_def is_blank_def)
  have k: "word_key 3 (lit ''be'') = 2" "word_key 3 (lit ''in'') = 2" by (simp_all add: word_key_def wc_hash_def lit_def u64_def)
  have i: "[0..<3] = [0, 1, 2::nat]" "lit ''be'' \<noteq> lit ''in''" by (simp_all add: upt_rec lit_def)
  have l: "lay_out 3 (replicate 3 None) [lit ''be'', lit ''be'', lit ''in''] = Some [None, Some (lit ''in''), Some (lit ''be'')]"
    using i(2) by (simp add: first_place_def place_for_def word_place_def k i(1) walk_def eval_nat_numeral)
  have d: "dec 1 = [49]" "dec 2 = [50]" by (simp_all add: dec_def dec_nat.simps)
  have s: "lit ''in:1'' = lit ''in'' @ [58, 49]" "lit ''be:2'' = lit ''be'' @ [58, 50]" by (simp_all add: lit_def)
  from wc_prints_counts [OF p, of "replicate 500 0", unfolded w T l] show ?thesis
    using i(2) by (auto simp: table_lines_def s d)
qed

section \<open>Inputs that break the counter\<close>

lemma wc_loop_letters:
  assumes "\<forall>b \<in> set run. \<not> is_blank b" "k + length run = Suc (length buff)" "0 < length buff" "k \<le> length buff"
  shows "wc_loop T (run @ rest) (k, buff, tab) = Inl OutOfBounds"
  using assms
proof (induction run arbitrary: k buff)
  case (Cons c run)
  show ?case
  proof (cases "k < length buff")
    case True
    then have "wc_step T c (k, buff, tab) = Inr (k + 1, buff[k := c], tab)"
      using Cons.prems by (simp add: wc_step_def arr_get_def)
    then show ?thesis using Cons.IH [of "k + 1" "buff[k := c]"] Cons.prems True by simp
  next
    case False
    then show ?thesis using Cons.prems by (simp add: wc_step_def arr_set_def)
  qed
qed simp

lemma collision_loop_fixpoint:
  assumes "table_size_ok T" "length tab = nat T" "k = 0 \<or> k = 1" "k < T" "taken_by_other tab w (nat k)"
  shows "collision_loop n T w k tab = Inl Diverges"
proof (induction n)
  case 0
  with assms show ?case using word_at_in [of tab T k] by (auto simp: collision_loop.simps taken_by_other_def)
next
  case (Suc n)
  have "k * k mod T = k" using assms(3,4) by auto
  with s64_square(2) [OF assms(1), of k] assms(3,4) have "s64 (k * k) smod T = k" by auto
  then show ?case using Suc assms word_at_in [of tab T k] by (auto simp: collision_loop.simps [of "Suc n"] taken_by_other_def)
qed

lemma count_word_fixpoint:
  assumes T: "table_size_ok T" "length tab = nat T" and k: "word_key T w \<le> 1" "taken_by_other tab w (nat (word_key T w))"
  shows "count_word T w tab = Inl Diverges"
proof -
  have T0: "0 < T" "u64 T = T" using T by (auto simp: table_size_ok_def intro!: u64_id)
  note r = word_key_range [OF T0(1), of w]
  then have "word_key T w = 0 \<or> word_key T w = 1" using k(1) by linarith
  note d = collision_loop_fixpoint [OF T this conjunct2 [OF r] k(2), of "nat T"]
  have "wc_hash w mod u64 T = word_key T w" by (simp add: word_key_def T0)
  moreover have "s64 (word_key T w) = word_key T w" using s64_square(1) [OF T(1)] r by simp
  ultimately show ?thesis
    using d k(2) T0(1) word_at_in [OF T(2)] r by (auto simp: count_word_def taken_by_other_def)
qed

text \<open>Reading one word.\<close>

lemma wc_loop_word:
  assumes "\<forall>b \<in> set w. \<not> is_blank b \<and> b \<noteq> 0" "acc @ w \<noteq> []" "0 \<notin> set acc" "take (length acc) buff = acc"
    "length (acc @ w) < length buff"
  shows "\<exists>buff'. length buff' = length buff \<and> wc_loop T (w @ 32 # cs) (length acc, buff, tab)
    = bindr (count_word T (acc @ w) tab) (\<lambda>tab. wc_loop T cs (0, buff', tab))"
  using assms
proof (induction w arbitrary: acc buff)
  case Nil
  then have "wc_step T 32 (length acc, buff, tab) = bindr (count_word T acc tab) (\<lambda>tab. Inr (0, buff[length acc := 0], tab))"
    using wc_step_blank [of 32 acc buff T tab] by (simp add: is_blank_def)
  then show ?case by (intro exI [of _ "buff[length acc := 0]"]) (simp add: bindr_assoc)
next
  case (Cons b w)
  then have "wc_step T b (length acc, buff, tab) = Inr (length (acc @ [b]), buff[length acc := b], tab)"
    by (intro wc_step_letter) simp_all
  moreover have "take (length (acc @ [b])) (buff[length acc := b]) = acc @ [b]"
    using Cons.prems by (simp add: take_Suc_conv_app_nth)
  ultimately show ?case using Cons.IH [of "acc @ [b]" "buff[length acc := b]"] Cons.prems by simp
qed

lemma hello_world:
  assumes "length buff = 500"
  shows "wc_init buff (lit ''hello world '') = Inl Diverges"
proof -
  let ?h = "lit ''hello''" and ?w = "lit ''world''" and ?t = "replicate 4 None :: word_table"
  let ?t1 = "?t[1 := Some \<lparr>word = ?h, occurrences = 1\<rparr>]"
  have l: "\<forall>b \<in> set ?h. \<not> is_blank b \<and> b \<noteq> 0" "\<forall>b \<in> set ?w. \<not> is_blank b \<and> b \<noteq> 0" "?h \<noteq> []" "?w \<noteq> []" "length ?h = 5" "length ?w = 5"
    by (simp_all add: lit_def is_blank_def)
  have k: "wc_hash ?h mod u64 4 = 1" "wc_hash ?w mod u64 4 = 1" by (simp_all add: wc_hash_def lit_def u64_def)
  have u4: "u64 4 = 4" by (simp add: u64_def)
  have h: "count_word 4 ?h ?t = Inr ?t1" by (simp add: count_word_def k word_at_def)
  have w: "count_word 4 ?w ?t1 = Inl Diverges"
  proof (rule count_word_fixpoint)
    show "word_key 4 ?w \<le> 1" using k(2) by (simp add: word_key_def u4)
    show "taken_by_other ?t1 ?w (nat (word_key 4 ?w))" using k(2) by (simp add: word_key_def u4 taken_by_other_def lit_def)
  qed (simp_all add: table_size_ok_def)
  obtain b1 where b1: "length b1 = 500" "wc_loop 4 (?h @ 32 # ?w @ 32 # []) (0, buff, ?t)
      = bindr (count_word 4 ?h ?t) (\<lambda>tab. wc_loop 4 (?w @ 32 # []) (0, b1, tab))"
    using wc_loop_word [of ?h "[]" buff 4 "?w @ 32 # []" ?t] l assms by auto
  obtain b2 where "wc_loop 4 (?w @ 32 # []) (0, b1, ?t1) = bindr (count_word 4 ?w ?t1) (\<lambda>tab. wc_loop 4 [] (0, b2, tab))"
    using wc_loop_word [of ?w "[]" b1 4 "[]" ?t1] l b1(1) by auto
  with b1(2) h w have "wc_loop 4 (?h @ 32 # ?w @ 32 # []) (0, buff, ?t) = Inl Diverges" by simp
  moreover have "?h @ 32 # ?w @ 32 # [] = lit ''hello world ''" by (simp add: lit_def)
  ultimately show ?thesis by (simp add: wc_init_def wc_create_hash_def lit_def)
qed

text \<open>
  C36: Inputs on which \<open>wc_init\<close> does not return.  A text of two bytes that has a word makes it divide by zero,
  since the table has a third as many places as the text has bytes.  A word of more than 500 bytes is
  written past the end of its array.  A word whose key is 0 or 1 and whose place another word has is
  looked for at this place for ever, for example the second word of the input \<open>hello world\<close> with a space after it.
\<close>

theorem wc_init_faults:
  "(length buff = 500 \<and> \<not> is_blank b \<and> b \<noteq> 0 \<longrightarrow> wc_init buff [b, 32] = Inl DivideByZero)
   \<and> (length buff = 500 \<and> (\<forall>b \<in> set run. \<not> is_blank b) \<and> length run = 501 \<longrightarrow> wc_init buff (run @ rest) = Inl OutOfBounds)
   \<and> (table_size_ok T \<and> length tab = nat T \<and> word_key T w \<le> 1 \<and> taken_by_other tab w (nat (word_key T w))
        \<longrightarrow> count_word T w tab = Inl Diverges)
   \<and> (length buff = 500 \<longrightarrow> wc_init buff (lit ''hello world '') = Inl Diverges)"
proof (intro conjI impI)
  assume a: "length buff = 500 \<and> \<not> is_blank b \<and> b \<noteq> 0"
  then have "\<exists>b2. wc_loop 0 ([b] @ 32 # []) (length [], buff, []) = bindr (count_word 0 ([] @ [b]) []) (\<lambda>tab. wc_loop 0 [] (0, b2, tab))"
    using wc_loop_word [of "[b]" "[]" buff 0 "[]" "[]"] by auto
  then show "wc_init buff [b, 32] = Inl DivideByZero"
    by (auto simp: wc_init_def wc_create_hash_def count_word_def)
next
  assume "length buff = 500 \<and> (\<forall>b \<in> set run. \<not> is_blank b) \<and> length run = 501"
  then show "wc_init buff (run @ rest) = Inl OutOfBounds"
    unfolding wc_init_def Let_def by (intro wc_loop_letters) auto
qed (use count_word_fixpoint hello_world in auto)

theorem wc_init_faults_witness:
  "wc_init (replicate 500 0) [97, 32] = Inl DivideByZero \<and> wc_init (replicate 500 0) (replicate 501 97 @ [32]) = Inl OutOfBounds
   \<and> wc_init (replicate 500 0) (lit ''hello world '') = Inl Diverges"
  using wc_init_faults [of "replicate 500 0" 97 "replicate 501 97" "[32]"] by (simp add: is_blank_def)

end
