(* ===== verification/FactorialProgram.thy ===== *)
theory FactorialProgram
  imports CString
begin

text \<open>
  \<open>src/warmup/fact.c\<close>.  What \<open>sscanf\<close> reads from the argument and the conversions between \<open>double\<close> and
  \<open>int\<close> are parameters.
\<close>

text \<open>The recursion counts down to 1; from a negative number it would get there only after the subtraction has wrapped around.\<close>

partial_function (option) factRecursive :: "int \<Rightarrow> int option" where
  "factRecursive n =
     (if n = 0 \<or> n = 1 then Some 1
      else Option.bind (factRecursive (s32 (n - 1))) (\<lambda>r. Some (s32 (r * n))))"

text \<open>\<open>scanned\<close> is the number that \<open>sscanf\<close> stored, if it stored one; the result is what is printed.\<close>

definition fact_main :: "('d \<Rightarrow> int) \<Rightarrow> (int \<Rightarrow> 'd) \<Rightarrow> 'd option \<Rightarrow> byte list option" where
  "fact_main to_int to_double scanned =
     (case scanned of
        None \<Rightarrow> Some (lit ''Huh?'' @ [10])
      | Some num \<Rightarrow>
          if num = to_double (to_int num) then
            let n = to_int num in
            if n > 0 \<and> n < 13 then Option.bind (factRecursive n) (\<lambda>result. Some (dec result @ [10]))
            else if n \<ge> 13 then Some (lit ''Overflow'' @ [10])
            else if n \<le> 0 then Some (lit ''Huh?'' @ [10])
            else Some []
          else Some (lit ''Huh?'' @ [10]))"

lemma fact_12: "fact 12 = (479001600 :: int)"
  by (simp add: fact_numeral)

lemma factRecursive_fact: "n \<le> 12 \<Longrightarrow> factRecursive (int n) = Some (fact n)"
proof (induction n)
  case 0
  show ?case by (simp add: factRecursive.simps)
next
  case (Suc n)
  have "fact (Suc n) \<le> (fact 12 :: int)" using Suc.prems by (rule fact_mono)
  then have f: "fact (Suc n) < (2 :: int) ^ 31" "0 \<le> (fact (Suc n) :: int)" by (simp_all only: fact_12) simp_all
  have "s32 (int n) = int n" using Suc.prems by (intro s32_id) simp_all
  then have s: "s32 (int (Suc n) - 1) = int n" by simp
  have m: "s32 (fact n * int (Suc n)) = fact (Suc n)"
  proof -
    have "fact n * int (Suc n) = fact (Suc n)" by (simp add: mult.commute)
    then show ?thesis using f by (simp only:) (rule s32_id; linarith)
  qed
  have r: "factRecursive (int n) = Some (fact n)" using Suc by simp
  show ?case
  proof (cases n)
    case 0
    then show ?thesis by (simp add: factRecursive.simps [of 1])
  next
    case (Suc k)
    then have "int (Suc n) \<noteq> 0 \<and> int (Suc n) \<noteq> 1" by simp
    then show ?thesis by (subst factRecursive.simps) (simp only: s r m if_False bind.bind_lunit simp_thms)
  qed
qed

lemma factRecursive_13: "factRecursive 13 \<noteq> Some (fact 13)"
proof -
  have "fact 13 = (6227020800 :: int)" by (simp add: fact_numeral)
  moreover have "factRecursive 12 = Some 479001600" using factRecursive_fact [of 12] fact_12 by simp
  ultimately show ?thesis by (simp add: factRecursive.simps [of 13] s32_def)
qed

text \<open>
  \<open>fact_main\<close> always prints something: the factorial of a number from 1 to 12, for which no product
  overflows; \<open>Overflow\<close> for a greater number, and at 13 the product would indeed be wrong; and \<open>Huh?\<close> for
  everything else.
\<close>

theorem fact_main_prints:
  "fact_main to_int to_double scanned = Some (case scanned of None \<Rightarrow> lit ''Huh?'' @ [10]
     | Some num \<Rightarrow>
         if num \<noteq> to_double (to_int num) \<or> to_int num < 1 then lit ''Huh?'' @ [10]
         else if to_int num \<le> 12 then dec (fact (nat (to_int num))) @ [10]
         else lit ''Overflow'' @ [10])
   \<and> factRecursive 13 \<noteq> Some (fact 13)"
proof -
  have "factRecursive n = Some (fact (nat n))" if "0 < n" "n < 13" for n
    using factRecursive_fact [of "nat n"] that by simp
  then show ?thesis using factRecursive_13 by (auto simp: fact_main_def Let_def split: option.splits)
qed

end
