(* ===== verification/Spec2Isabelle.thy ===== *)
theory Spec2Isabelle
  imports RemoveProps HList ThreadProps Programs PointsSpec WordSpec FactorialProgram
begin

text \<open>
  A verification development for the programs of an operating systems course: the file system
  \<open>testfs\<close> (\<open>src/fs\<close>), the user-level thread library (\<open>src/threads\<close>), the web server with its client
  (\<open>src/webserver\<close>) and the exercises (\<open>src/warmup\<close>).

  \<^bold>\<open>Conventions.\<close>  \<open>Prelude\<close> and \<open>Results\<close> fix how C is read.  A function that reads and writes a
  state is a HOL function into \<open>('r \<times> 's) result\<close>; the left summand is a fault: a failed \<open>assert\<close>,
  an \<open>exit(1)\<close>, an access outside an object, a bad pointer, a division by zero, or a loop that provably never
  ends.
  Error codes are ordinary negative values.  Integers are \<open>int\<close> and every narrowing of the
  source is written out (\<open>s32\<close>, \<open>u32\<close>, \<open>s64\<close>, \<open>u64\<close>); bytes are \<open>8 word\<close>.  The answers of \<open>malloc\<close>
  are parameters, or the memory is said to suffice.  \<open>CString\<close> has the strings and the conversions of
  the C library that the programs use.

  \<^bold>\<open>The file system.\<close>  A device file is divided into blocks of 8192 bytes: the super block, the
  freemaps of inodes and of blocks, the inode table, the data blocks.  The layers are those of the
  code, and each theory opens with the code of its layer and goes on to what the layer promises.

  \<^item> \<open>CBytes\<close>: little-endian encodings (locale \<open>codec\<close>), \<open>memcpy\<close> and arrays of \<open>int\<close> in a block.
  \<^item> \<open>Bitmap\<close> (\<open>bitmap.c\<close>): fixed-size bitmaps, as sets of numbers with first-fit allocation (locale
    \<open>id_pool\<close>).
  \<^item> \<open>FsState\<close> (\<open>testfs.h\<close>, \<open>super.h\<close>, \<open>inode.h\<close>): the structures on disk and in memory, and the
    record \<open>fs\<close> of everything that a mounted file system consists of.
  \<^item> \<open>BlockDev\<close> (\<open>block.c\<close>): reading and writing blocks of the device.
  \<^item> \<open>InodeHash\<close> (the hash table of \<open>inode.c\<close>): inodes in memory by number (locale \<open>key_table\<close>);
    \<open>HList\<close> (\<open>list.h\<close>): the lists of the buckets as pointers, which implement them.
  \<^item> \<open>Super\<close> (\<open>super.c\<close>): mounting, unmounting, formatting, and the allocation of blocks and inode
    numbers (locale \<open>resource\<close>); the disk mirrors the memory after every operation.
  \<^item> \<open>Inode\<close> (\<open>inode.c\<close>): the write-back cache of inodes with reference counts; \<open>iview\<close> is the content
    of an inode number, and the cache is coherent with it (locale \<open>object_cache\<close>).
  \<^item> \<open>ReadWrite\<close> (\<open>read_write.c\<close>): the code of block maps, reading, writing and truncation; \<open>BlockMap\<close>,
    \<open>Allocate\<close>, \<open>FileData\<close>, \<open>FileOps\<close> and \<open>Truncate\<close>: a block map as an injective function from slots
    to blocks, a file as a sequence of bytes, and the operations on these views.
  \<^item> \<open>Consistent\<close>: the invariant of the whole system (what a file system checker would verify), kept
    by every operation on inodes and file data from every formatted disk on.
  \<^item> \<open>Dir\<close> (\<open>dir.c\<close>): directory entries; \<open>DirData\<close>: a directory as a list of entries; \<open>DirOps\<close>: lookup,
    adding an entry and creating a file on a consistent system.
  \<^item> \<open>DirCmd\<close>, \<open>FileCmd\<close> (\<open>dir.c\<close>, \<open>file.c\<close>, \<open>common.c\<close>): the commands; \<open>Shell\<close> (\<open>testfs.c\<close>,
    \<open>mktestfs.c\<close>): the command table, the parsing of lines, and the two programs; \<open>CmdProps\<close>: what the
    commands on files do, how a line of words becomes a call, and a session of the shell;
    \<open>RemoveProps\<close>: removing a name, with the inode and the blocks of its file.

  \<^bold>\<open>The thread library.\<close>  Threads are switched with \<open>getcontext\<close> and \<open>setcontext\<close>; a saved context is
  the list of the calls in progress with the signal mask.

  \<^item> \<open>Threads\<close>, \<open>Sync\<close> (\<open>thread.c\<close>, \<open>interrupt.c\<close>): the code of the scheduler, of wait queues, locks and
    condition variables, and the machine that runs calls and preemptions.
  \<^item> \<open>ThreadQueues\<close>: the queues, which are chains through the thread table, as disjoint lists.
  \<^item> \<open>ThreadSpec\<close>: the invariant \<open>sched_ok\<close>, and each operation on the lists.
  \<^item> \<open>Machine\<close>: every step of a run keeps the invariant; \<open>RoundRobin\<close>: fair service as a locale,
    interpreted on \<open>thread_yield\<close>; \<open>ThreadProps\<close>: the properties.

  \<^bold>\<open>The web server.\<close>  The main thread accepts connections and queues them; worker threads take them,
  read the request, look the file up in a cache or read it, and write the response.

  \<^item> \<open>Rio\<close> (\<open>common.c\<close>): buffered reading and complete writing.  A descriptor is the list of what its
    \<open>read\<close> calls will deliver, or what its \<open>write\<close> calls will accept; \<open>RioSpec\<close> shows that lines and blocks
    do not depend on how the stream is cut up.
  \<^item> \<open>Request\<close> (\<open>request.c\<close>) and \<open>Client\<close> (\<open>client.c\<close>): the two ends of a connection; \<open>HttpSpec\<close>: the texts
    on the wire, and that each end reads what the other wrote.
  \<^item> \<open>ServerQueue\<close> (\<open>server_thread.c\<close>): the ring buffer, a step relation of the main thread and the workers
    with their condition variables, and bounded queues as a locale (\<open>bounded_fifo\<close>); \<open>PoolProps\<close>: order,
    completeness and progress of the service.
  \<^item> \<open>Cache\<close> (\<open>server_thread.c\<close>): the hash table and the doubly linked list on a heap of elements and
    files; \<open>CacheSpec\<close>: the linked list as a list; \<open>Probing\<close>: the probe sequences; \<open>CacheProps\<close>: the cache
    as the list of its files in the order of use; \<open>FileCache\<close>: what the server relies on (locale
    \<open>file_cache\<close>) with its interpretation.
  \<^item> \<open>WebServer\<close> (\<open>server_thread.c\<close>): \<open>do_server_request\<close>, and what reaches the client: pages from disk, pages
    from the cache, refusals.
  \<^item> \<open>FileSet\<close> (\<open>fileset.c\<close>, \<open>client.c\<close>): the generator of files and their index, the client's reading of the
    index and its thread of requests; index round trip, and which files a client can fetch.
  \<^item> \<open>Programs\<close> (\<open>client_simple.c\<close>, \<open>server.c\<close>, \<open>client.c\<close>): the client that prints one page, with what it prints, and
    how the server and the client read their command lines and start.

  \<^bold>\<open>The exercises.\<close>  \<open>Points\<close> (\<open>point.c\<close>, \<open>sorted_points.c\<close>) and \<open>PointsSpec\<close>: sorted points, where a \<open>double\<close> is an
  element of an arbitrary linear order or NaN; \<open>WordCount\<close> (\<open>wc.c\<close>) and \<open>WordSpec\<close>: counting words in a hash
  table, against a layout that is computed without the loop; \<open>FactorialProgram\<close> (\<open>fact.c\<close>).

  \<^bold>\<open>Bounds.\<close>  The loops over blocks, bits, entries and words are recursions with termination proofs.
  \<open>testfs_pwd\<close> and \<open>testfs_ls\<close> follow directory entries from inode to inode; nothing but the contents
  of the disk bounds them, so they take the depth as an argument and have no result (\<open>None\<close>) past
  it.  The walks along a chain of threads (\<open>find_ready\<close>, \<open>count_chain\<close>) get \<open>THREAD_MAX_THREADS\<close>
  steps: the walk changes nothing and there are no more threads, so a longer walk never ends, and
  \<open>Diverges\<close> is the result; the invariant excludes it.  The loop of \<open>lock_acquire\<close> is a control state
  of the machine, one step for each round.  A probe of a hash table gets as many steps as the table
  has places: the next key is a function of the key, so a longer walk repeats itself (\<open>walk_least\<close>) and
  never ends.  Reading the header of a request ends by the length of the stream; at its end the loop
  would read nothing for ever, and \<open>Diverges\<close> is the result.  A round of the loop of \<open>sp_add_point\<close> that does not
  move on repeats itself too.

  \<^bold>\<open>What the theorems ask for.\<close>  Beside the conditions that their texts state, some hold only where the code has no
  known fault, and others state the fault as a branch of their conclusion.

  \<^item> Writing and reading are covered for all offsets below 2 ^ 44 (block numbers are \<open>int\<close>s), with the limit of the file
    (\<open>-EFBIG\<close>) and the bytes of a double-indirect table in blocks without second-level table (\<open>regular\<close>, \<open>stored\<close>).  A
    write that runs out of space past the first 2058 blocks can leave a pointer to a free block
    (\<open>dindirect_enospc_dangles\<close>), and any that runs out of space can leave blocks past the size of the file or a size
    far past its blocks, for which the assertions of truncation can fail.  So the steps of \<open>fs_step\<close> in \<open>Consistent\<close> leave out the first kind of failure, and
    truncate and remove only files that are \<open>within\<close> their size; it is a choice of runs, not a part of the code.
  \<^item> \<open>cache_lookup\<close> computes keys as \<open>int\<close> and squares them.  The theorems on the cache hold for tables of every size, but
    for names whose search passes over no place above 46340 (\<open>narrow\<close>): all names in a table of at most 46341 places,
    which is a cache of 4212 bytes, and names at their first place in larger ones; \<open>lookup_key_overflow\<close> shows the rest.
  \<^item> \<open>wc_init\<close> is covered for texts of at least three bytes without words of 500 bytes; \<open>wc_init_faults\<close> has the others.
  \<^item> Counters that C has as \<open>int\<close> and that only overflow for 2 ^ 30 requests, 2 GB of cached files or 2 ^ 31 references are
    not wrapped; the theories that define them say so.

  \<^bold>\<open>Not modelled.\<close>  The parsing of options (\<open>popt\<close>), messages to the standard error, the check of
  \<open>mallinfo\<close> at the end of \<open>testfs\<close>, the timer and the signal set-up of \<open>interrupt.c\<close>, the programs that
  print machine contexts, the sockets, the printing of \<open>client.c\<close> outside timing mode and its measurement of time, the
  computation of random numbers with \<open>double\<close>, the programs that only print a greeting, and the tests.  The lists of \<open>list.h\<close>
  that nothing uses, circular ones among them, are left out.  Registers other than the stack pointer of a new thread
  are not part of a context.
\<close>

end
